(* ===== verification/Prelude.thy ===== *)
theory Prelude
  imports Main "HOL-Library.Word" "HOL-Library.Monad_Syntax" "HOL-Library.Multiset"
begin

unbundle bit_operations_syntax

text \<open>
  Shared vocabulary of the development: the machine-integer types of the C sources, the
  little-endian byte images that \<^verbatim>\<open>memcpy\<close> of an integer produces, the
  convention for undefined behaviour, and the generic lemmas the component theories use.

  \<^item> \<^verbatim>\<open>uint8_t\<close>, \<^verbatim>\<open>uint32_t\<close> and
    \<^verbatim>\<open>uint64_t\<close> are words of their width, so their arithmetic wraps.
  \<^item> \<^verbatim>\<open>int32_t\<close> values (node identifiers, vote counters) are \<open>int\<close>; the
    component invariants keep them in range.
  \<^item> A pointer-and-length pair that may be null is a \<open>bytes option\<close>.
  \<^item> A computation that may have undefined behaviour (an access outside an array, a null
    dereference) has an \<open>option\<close> type; \<open>None\<close> is undefined behaviour, never an
    error code.
\<close>

type_synonym u8 = "8 word"
type_synonym u32 = "32 word"
type_synonym u64 = "64 word"
type_synonym bytes = "8 word list"

named_theorems word_index \<open>arithmetic of 64-bit log indices below the wrap-around\<close>
named_theorems le_codec \<open>round trips of little-endian byte images\<close>

section \<open>Little-endian byte images\<close>

text \<open>\<open>le_bytes n w\<close> is the image of \<open>w\<close> in \<open>n\<close> bytes, least significant first;
  \<open>le_word\<close> reads such an image back.\<close>

primrec le_bytes :: "nat \<Rightarrow> 'a::len word \<Rightarrow> bytes" where
  "le_bytes 0 w = []"
| "le_bytes (Suc n) w = ucast w # le_bytes n (drop_bit 8 w)"

primrec le_word :: "bytes \<Rightarrow> 'a::len word" where
  "le_word [] = 0"
| "le_word (b # bs) = ucast b OR push_bit 8 (le_word bs)"

lemma length_le_bytes [simp]: "length (le_bytes n w) = n"
  by (induction n arbitrary: w) simp_all

lemma byte_split:
  fixes w :: "'a::len word"
  shows "ucast (ucast w :: u8) OR push_bit 8 (take_bit n (drop_bit 8 w)) = take_bit (8 + n) w"
  by (rule bit_word_eqI) (auto simp: bit_simps)

lemma le_word_le_bytes: "le_word (le_bytes n w) = take_bit (8 * n) w"
  by (induction n arbitrary: w) (simp_all add: byte_split)

lemma le_word_u64 [simp, le_codec]: "le_word (le_bytes 8 w) = (w :: u64)"
  by (simp add: le_word_le_bytes take_bit_word_eq_self)

lemma le_word_u32 [simp, le_codec]: "le_word (le_bytes 4 w) = (w :: u32)"
  by (simp add: le_word_le_bytes take_bit_word_eq_self)

lemma le_bytes_inj_u64: "le_bytes 8 (v :: u64) = le_bytes 8 w \<longleftrightarrow> v = w"
  by (metis le_word_u64)

lemma le_bytes_inj_u32: "le_bytes 4 (v :: u32) = le_bytes 4 w \<longleftrightarrow> v = w"
  by (metis le_word_u32)

text \<open>The other direction: an image no wider than the word is the image of what it reads as.\<close>

lemma bit_le_word_less: "bit (le_word bs :: 'a::len word) i \<Longrightarrow> i < 8 * length bs"
proof (induction bs arbitrary: i)
  case Nil
  then show ?case by simp
next
  case (Cons b bs)
  then consider "bit b i" | "8 \<le> i" "bit (le_word bs :: 'a word) (i - 8)"
    by (auto simp: bit_simps)
  then show ?case
  proof cases
    case 1
    then show ?thesis using bit_imp_le_length [of b i] by simp
  next
    case 2
    then show ?thesis using Cons.IH [of "i - 8"] by simp
  qed
qed

lemma le_bytes_le_word:
  "8 * length bs \<le> LENGTH('a) \<Longrightarrow> le_bytes (length bs) (le_word bs :: 'a::len word) = bs"
proof (induction bs)
  case Nil
  then show ?case by simp
next
  case (Cons b bs)
  let ?w = "le_word bs :: 'a word"
  have "ucast (ucast b OR push_bit 8 ?w) = b"
    by (rule bit_word_eqI) (use Cons.prems in \<open>auto simp: bit_simps\<close>)
  moreover have "drop_bit 8 (ucast b OR push_bit 8 ?w) = ?w"
  proof (rule bit_word_eqI)
    fix n
    have "n + 8 < LENGTH('a)" if "bit ?w n" using bit_le_word_less [OF that] Cons.prems by simp
    moreover have "\<not> bit b (8 + n)" using bit_imp_le_length [of b "8 + n"] by auto
    ultimately show "bit (drop_bit 8 (ucast b OR push_bit 8 ?w)) n = bit ?w n"
      by (auto simp: bit_simps)
  qed
  ultimately show ?case using Cons by simp
qed

text \<open>\<^verbatim>\<open>int32_t\<close> values in memory: two's complement in four bytes.\<close>

definition i32_bytes :: "int \<Rightarrow> bytes" where
  "i32_bytes i = le_bytes 4 (word_of_int i :: u32)"

definition i32_word :: "bytes \<Rightarrow> int" where
  "i32_word bs = sint (le_word bs :: u32)"

definition i32_range :: "int \<Rightarrow> bool" where
  "i32_range i \<longleftrightarrow> - (2 ^ 31) \<le> i \<and> i < 2 ^ 31"

lemma i32_codec [le_codec]: "i32_range i \<Longrightarrow> i32_word (i32_bytes i) = i"
  by (simp add: i32_word_def i32_bytes_def i32_range_def sint_sbintrunc'
      signed_take_bit_int_eq_self)

lemma length_i32_bytes [simp]: "length (i32_bytes i) = 4"
  by (simp add: i32_bytes_def)

section \<open>Word indices\<close>

lemma unat_add_of_nat [word_index]:
  "unat (a :: u64) + n < 2 ^ 64 \<Longrightarrow> unat (a + of_nat n) = unat a + n"
  by (simp add: unat_word_ariths unat_of_nat)

lemma unat_succ [word_index]:
  "unat (a :: u64) + 1 < 2 ^ 64 \<Longrightarrow> unat (a + 1) = unat a + 1"
  using unat_add_of_nat [of a 1] by simp

lemma unat_diff [word_index]: "(b :: u64) \<le> a \<Longrightarrow> unat (a - b) = unat a - unat b"
  by (rule unat_sub)

lemma unat_pred [word_index]: "(a :: u64) \<noteq> 0 \<Longrightarrow> unat (a - 1) = unat a - 1"
  by (simp add: unat_minus_one)

lemma u64_less [word_index]: "(a :: u64) < b \<longleftrightarrow> unat a < unat b"
  by (rule word_less_nat_alt)

lemma u64_le [word_index]: "(a :: u64) \<le> b \<longleftrightarrow> unat a \<le> unat b"
  by (rule word_le_nat_alt)

lemma u64_bound [simp]: "unat (a :: u64) < 18446744073709551616"
  using unsigned_less [of a] by simp

lemma unat_succ_less [word_index]: "(a :: u64) < b \<Longrightarrow> unat (a + 1) = unat a + 1"
proof (rule unat_succ)
  assume "a < b"
  then show "unat a + 1 < 2 ^ 64"
    using unsigned_less [of b, where 'a = nat] by (simp add: u64_less del: u64_bound)
qed

lemma u64_eq_iff: "(a :: u64) = b \<longleftrightarrow> unat a = unat b"
  by (rule word_unat_eq_iff)

section \<open>Lists\<close>

lemma take_list_update_beyond [simp]: "n \<le> i \<Longrightarrow> take n (xs[i := x]) = take n xs"
  by (simp add: take_update_swap list_update_beyond)

text \<open>The number of \<open>True\<close> entries of a flag array, as a vote counter should count them.\<close>

definition count_true :: "bool list \<Rightarrow> nat" where
  "count_true bs = length (filter id bs)"

lemma count_true_simps [simp]:
  "count_true [] = 0"
  "count_true (b # bs) = (if b then Suc (count_true bs) else count_true bs)"
  "count_true (xs @ ys) = count_true xs + count_true ys"
  "count_true (replicate n False) = 0"
  by (simp_all add: count_true_def)

lemma count_true_update:
  "i < length bs \<Longrightarrow> \<not> bs ! i \<Longrightarrow> count_true (bs[i := True]) = Suc (count_true bs)"
  by (induction bs arbitrary: i) (auto split: nat.splits)

lemma count_true_card: "count_true bs = card {i. i < length bs \<and> bs ! i}"
  by (simp add: count_true_def length_filter_conv_card)

lemma count_true_le: "count_true bs \<le> length bs"
  by (simp add: count_true_def)

text \<open>Sorted lists: the position of an element bounds how many are at least as large.\<close>

lemma sorted_last_max: "sorted xs \<Longrightarrow> x \<in> set xs \<Longrightarrow> x \<le> last xs"
  by (induction xs) auto

lemma sorted_count_ge:
  fixes xs :: "'a::linorder list"
  assumes "sorted xs" and "k < length xs"
  shows "length xs - k \<le> length (filter (\<lambda>x. xs ! k \<le> x) xs)"
    and "xs ! k < u \<Longrightarrow> length (filter (\<lambda>x. u \<le> x) xs) < length xs - k"
proof -
  have hi: "\<forall>x \<in> set (drop k xs). xs ! k \<le> x"
    using assms by (auto simp: in_set_conv_nth sorted_iff_nth_mono)
  then have "length xs - k = length (filter (\<lambda>x. xs ! k \<le> x) (drop k xs))" by simp
  also have "\<dots> \<le> length (filter (\<lambda>x. xs ! k \<le> x) xs)"
    by (metis append_take_drop_id filter_append le_add2 length_append)
  finally show "length xs - k \<le> length (filter (\<lambda>x. xs ! k \<le> x) xs)" .
  assume u: "xs ! k < u"
  have lo: "\<forall>x \<in> set (take (Suc k) xs). \<not> u \<le> x"
  proof
    fix x assume "x \<in> set (take (Suc k) xs)"
    then obtain i where "i \<le> k" "x = xs ! i" using assms(2) by (auto simp: in_set_conv_nth less_Suc_eq_le)
    then have "x \<le> xs ! k" using sorted_nth_mono [OF assms(1), of i k] assms(2) by simp
    then show "\<not> u \<le> x" using u by simp
  qed
  have "filter (\<lambda>x. u \<le> x) xs = filter (\<lambda>x. u \<le> x) (drop (Suc k) xs)"
    by (subst append_take_drop_id [of "Suc k" xs, symmetric], subst filter_append)
      (use lo in \<open>simp add: filter_empty_conv\<close>)
  then have "length (filter (\<lambda>x. u \<le> x) xs) \<le> length (drop (Suc k) xs)"
    by (simp only: length_filter_le)
  then show "length (filter (\<lambda>x. u \<le> x) xs) < length xs - k" using assms(2) by simp
qed

lemma length_filter_sort: "length (filter P (sort xs)) = length (filter P xs)"
proof -
  have "mset (filter P (sort xs)) = mset (filter P xs)" by (simp add: mset_filter)
  then show ?thesis by (metis size_mset)
qed

end
