(* ===== verification/C_Runtime.thy ===== *)
theory C_Runtime
  imports Prelude
begin

text \<open>
  The part of the C library and of POSIX that the sources rely on: allocation, the
  pseudo-random generator and files. What the environment decides (whether an allocation
  succeeds, what \<^verbatim>\<open>rand\<close> returns, how far a \<^verbatim>\<open>write\<close> gets) is
  read off oracle lists in the \<open>world\<close> record, one element per call, so that every
  failure branch of the code is a branch of the model. An exhausted oracle list means
  success (for \<^verbatim>\<open>rand\<close>: the value 0).

  A file is its list of bytes, found by its path. The durable content and the visible
  content of a file are the same here: \<^verbatim>\<open>fsync\<close> only has a result code.
\<close>

datatype io_outcome =
    Io_ok
  | Io_fail
  | Io_short nat \<comment> \<open>a read or write that moves at most this many bytes\<close>

record world =
  w_alloc :: "bool list"              \<comment> \<open>results of the coming allocations\<close>
  w_rand :: "nat list"                \<comment> \<open>results of the coming calls of \<^verbatim>\<open>rand\<close>\<close>
  w_io :: "io_outcome list"           \<comment> \<open>outcomes of the coming system calls\<close>
  w_fs :: "string \<Rightarrow> bytes option"    \<comment> \<open>the files\<close>
  w_seed :: u32                       \<comment> \<open>\<^verbatim>\<open>timer_seed_value\<close>\<close>
  w_seeded :: bool                    \<comment> \<open>\<^verbatim>\<open>seed_initialized\<close>\<close>

section \<open>Allocation and random numbers\<close>

definition malloc :: "world \<Rightarrow> bool \<times> world" where
  "malloc w = (case w_alloc w of [] \<Rightarrow> (True, w) | b # bs \<Rightarrow> (b, w\<lparr>w_alloc := bs\<rparr>))"

definition rand :: "world \<Rightarrow> nat \<times> world" where
  "rand w = (case w_rand w of [] \<Rightarrow> (0, w) | r # rs \<Rightarrow> (r, w\<lparr>w_rand := rs\<rparr>))"

text \<open>No coming allocation fails: the oracle is exhausted.\<close>

definition alloc_ok :: "world \<Rightarrow> bool" where
  "alloc_ok w \<longleftrightarrow> w_alloc w = []"

lemma malloc_ok [simp]: "alloc_ok w \<Longrightarrow> malloc w = (True, w)"
  by (simp add: malloc_def alloc_ok_def)

lemma malloc_frame:
  "malloc w = (b, w') \<Longrightarrow> w_io w' = w_io w \<and> w_fs w' = w_fs w \<and> w_rand w' = w_rand w"
  by (auto simp: malloc_def split: list.splits)

lemma rand_frame:
  "rand w = (r, w') \<Longrightarrow> w_io w' = w_io w \<and> w_fs w' = w_fs w \<and> w_alloc w' = w_alloc w"
  by (auto simp: rand_def split: list.splits)

section \<open>Files\<close>

definition io_next :: "world \<Rightarrow> io_outcome \<times> world" where
  "io_next w = (case w_io w of [] \<Rightarrow> (Io_ok, w) | x # xs \<Rightarrow> (x, w\<lparr>w_io := xs\<rparr>))"

text \<open>A system call whose only effect is its result code (\<^verbatim>\<open>fsync\<close>,
  \<^verbatim>\<open>lseek\<close>, \<^verbatim>\<open>mkdir\<close>).\<close>

definition sys_ok :: "world \<Rightarrow> bool \<times> world" where
  "sys_ok w = (case io_next w of (x, w') \<Rightarrow> (x = Io_ok, w'))"

text \<open>\<^verbatim>\<open>open\<close> with \<^verbatim>\<open>O_CREAT | O_TRUNC\<close>, with
  \<^verbatim>\<open>O_CREAT\<close> alone, and \<^verbatim>\<open>O_RDONLY\<close> (which finds the file or
  fails with \<^verbatim>\<open>ENOENT\<close>).\<close>

definition sys_open_trunc :: "string \<Rightarrow> world \<Rightarrow> bool \<times> world" where
  "sys_open_trunc p w =
     (case sys_ok w of (ok, w') \<Rightarrow>
        if ok then (True, w'\<lparr>w_fs := (w_fs w')(p \<mapsto> [])\<rparr>) else (False, w'))"

definition sys_open_create :: "string \<Rightarrow> world \<Rightarrow> bool \<times> world" where
  "sys_open_create p w =
     (case sys_ok w of (ok, w') \<Rightarrow>
        if ok
        then (True, if w_fs w' p = None then w'\<lparr>w_fs := (w_fs w')(p \<mapsto> [])\<rparr> else w')
        else (False, w'))"

datatype open_result = Open_ok | Open_enoent | Open_error

definition sys_open_read :: "string \<Rightarrow> world \<Rightarrow> open_result \<times> world" where
  "sys_open_read p w =
     (if w_fs w p = None then (Open_enoent, w)
      else case sys_ok w of (ok, w') \<Rightarrow> (if ok then Open_ok else Open_error, w'))"

definition file_bytes :: "string \<Rightarrow> world \<Rightarrow> bytes" where
  "file_bytes p w = (case w_fs w p of None \<Rightarrow> [] | Some bs \<Rightarrow> bs)"

definition write_at :: "nat \<Rightarrow> bytes \<Rightarrow> bytes \<Rightarrow> bytes" where
  "write_at off d bs =
     take off bs @ replicate (off - length bs) 0 @ d @ drop (off + length d) bs"

text \<open>\<^verbatim>\<open>write\<close> at an offset: the number of bytes written, or \<open>None\<close> for
  -1. A short write leaves its prefix in the file.\<close>

definition sys_write :: "string \<Rightarrow> nat \<Rightarrow> bytes \<Rightarrow> world \<Rightarrow> nat option \<times> world" where
  "sys_write p off d w =
     (case io_next w of (x, w') \<Rightarrow>
        (case x of
           Io_fail \<Rightarrow> (None, w')
         | Io_ok \<Rightarrow>
             (Some (length d), w'\<lparr>w_fs := (w_fs w')(p \<mapsto> write_at off d (file_bytes p w'))\<rparr>)
         | Io_short k \<Rightarrow>
             (Some (length (take k d)),
              w'\<lparr>w_fs := (w_fs w')(p \<mapsto> write_at off (take k d) (file_bytes p w'))\<rparr>)))"

text \<open>\<^verbatim>\<open>read\<close> of at most \<open>n\<close> bytes at an offset; \<open>None\<close> is -1.\<close>

definition sys_read :: "string \<Rightarrow> nat \<Rightarrow> nat \<Rightarrow> world \<Rightarrow> bytes option \<times> world" where
  "sys_read p off n w =
     (case io_next w of (x, w') \<Rightarrow>
        (case x of
           Io_fail \<Rightarrow> (None, w')
         | Io_ok \<Rightarrow> (Some (take n (drop off (file_bytes p w'))), w')
         | Io_short k \<Rightarrow> (Some (take (min n k) (drop off (file_bytes p w'))), w')))"

definition sys_ftruncate :: "string \<Rightarrow> nat \<Rightarrow> world \<Rightarrow> bool \<times> world" where
  "sys_ftruncate p n w =
     (case sys_ok w of (ok, w') \<Rightarrow>
        if ok then (True, w'\<lparr>w_fs := (w_fs w')(p \<mapsto> take n (file_bytes p w'))\<rparr>)
        else (False, w'))"

text \<open>\<^verbatim>\<open>rename\<close> replaces the target in one step; \<^verbatim>\<open>unlink\<close>
  removes a name.\<close>

definition sys_rename :: "string \<Rightarrow> string \<Rightarrow> world \<Rightarrow> bool \<times> world" where
  "sys_rename src dst w =
     (case sys_ok w of (ok, w') \<Rightarrow>
        if ok then (True, w'\<lparr>w_fs := ((w_fs w')(dst := w_fs w' src))(src := None)\<rparr>)
        else (False, w'))"

definition sys_unlink :: "string \<Rightarrow> world \<Rightarrow> world" where
  "sys_unlink p w =
     (case sys_ok w of (ok, w') \<Rightarrow> if ok then w'\<lparr>w_fs := (w_fs w')(p := None)\<rparr> else w')"

text \<open>No coming system call fails or is short.\<close>

definition io_ok :: "world \<Rightarrow> bool" where
  "io_ok w \<longleftrightarrow> w_io w = []"

lemma io_ok_calls [simp]:
  assumes "io_ok w"
  shows "io_next w = (Io_ok, w)" and "sys_ok w = (True, w)"
    and "sys_open_trunc p w = (True, w\<lparr>w_fs := (w_fs w)(p \<mapsto> [])\<rparr>)"
    and "sys_write p off d w
           = (Some (length d), w\<lparr>w_fs := (w_fs w)(p \<mapsto> write_at off d (file_bytes p w))\<rparr>)"
    and "sys_rename src dst w
           = (True, w\<lparr>w_fs := ((w_fs w)(dst := w_fs w src))(src := None)\<rparr>)"
    and "sys_ftruncate p n w = (True, w\<lparr>w_fs := (w_fs w)(p \<mapsto> take n (file_bytes p w))\<rparr>)"
  using assms
  by (simp_all add: io_ok_def io_next_def sys_ok_def sys_open_trunc_def sys_write_def
      sys_rename_def sys_ftruncate_def)

lemma io_ok_fs [simp]: "io_ok (w\<lparr>w_fs := f\<rparr>) = io_ok w" "alloc_ok (w\<lparr>w_fs := f\<rparr>) = alloc_ok w"
  by (simp_all add: io_ok_def alloc_ok_def)

text \<open>What any system call leaves alone.\<close>

lemma io_next_frame: "io_next w = (x, w') \<Longrightarrow> w_fs w' = w_fs w \<and> w_alloc w' = w_alloc w"
  by (auto simp: io_next_def split: list.splits)

lemma sys_ok_frame: "sys_ok w = (b, w') \<Longrightarrow> w_fs w' = w_fs w \<and> w_alloc w' = w_alloc w"
  by (auto simp: sys_ok_def io_next_def split: list.splits prod.splits)

lemma write_at_end [simp]: "off = length bs \<Longrightarrow> write_at off d bs = bs @ d"
  by (simp add: write_at_def)

lemma write_at_empty [simp]: "write_at 0 d [] = d"
  by (simp add: write_at_def)

section \<open>A quiet world\<close>

text \<open>No file exists and nothing fails.\<close>

definition quiet_world :: world where
  "quiet_world = \<lparr>w_alloc = [], w_rand = [], w_io = [], w_fs = Map.empty, w_seed = 0, w_seeded = True\<rparr>"

lemma quiet_world_ok [simp]: "alloc_ok quiet_world" "io_ok quiet_world" "w_fs quiet_world p = None"
  by (simp_all add: quiet_world_def alloc_ok_def io_ok_def)

end
