(* ===== verification/Raft_Types.thy ===== *)
theory Raft_Types
  imports C_Runtime
begin

text \<open>
  The data types and parameters of the consensus project
  (\<^verbatim>\<open>projects/distributed/consensus/src/types.h\<close> and \<^verbatim>\<open>param.h\<close>):
  status codes, roles, entry types, log entries and the tunable constants.
\<close>

datatype raft_status_t =
    RAFT_OK
  | RAFT_NOT_LEADER
  | RAFT_NOT_FOUND
  | RAFT_IO_ERROR
  | RAFT_INVALID_ARG
  | RAFT_NO_MEMORY
  | RAFT_CORRUPTION
  | RAFT_STOPPED

datatype raft_role_t =
    RAFT_FOLLOWER
  | RAFT_CANDIDATE
  | RAFT_LEADER
  | RAFT_PRE_CANDIDATE

datatype raft_entry_type_t =
    RAFT_ENTRY_COMMAND
  | RAFT_ENTRY_CONFIG
  | RAFT_ENTRY_NOOP

text \<open>
  A log entry. \<^verbatim>\<open>command\<close> and \<^verbatim>\<open>command_len\<close> are one byte list: the
  code stores a null command exactly when the length is 0. The type field is an option:
  \<open>None\<close> is the indeterminate content of a slot that \<^verbatim>\<open>realloc\<close> added and
  no code has initialised.
\<close>

record raft_entry =
  e_term :: u64
  e_index :: u64
  e_type :: "raft_entry_type_t option"
  e_command :: bytes

definition RAFT_ELECTION_TIMEOUT_MIN_MS :: nat where
  "RAFT_ELECTION_TIMEOUT_MIN_MS = 150"

definition RAFT_ELECTION_TIMEOUT_MAX_MS :: nat where
  "RAFT_ELECTION_TIMEOUT_MAX_MS = 300"

definition RAFT_HEARTBEAT_INTERVAL_MS :: u64 where
  "RAFT_HEARTBEAT_INTERVAL_MS = 50"

definition RAFT_MAX_ENTRIES_PER_APPEND :: nat where
  "RAFT_MAX_ENTRIES_PER_APPEND = 100"

definition RAFT_LOG_INITIAL_CAPACITY :: nat where
  "RAFT_LOG_INITIAL_CAPACITY = 64"

definition RAFT_AUTO_COMPACTION_THRESHOLD :: nat where
  "RAFT_AUTO_COMPACTION_THRESHOLD = 1000"

lemmas raft_params [simp] =
  RAFT_ELECTION_TIMEOUT_MIN_MS_def RAFT_ELECTION_TIMEOUT_MAX_MS_def
  RAFT_HEARTBEAT_INTERVAL_MS_def RAFT_MAX_ENTRIES_PER_APPEND_def
  RAFT_LOG_INITIAL_CAPACITY_def RAFT_AUTO_COMPACTION_THRESHOLD_def

end
