(* ===== verification/Raft_Log.thy ===== *)
theory Raft_Log
  imports Raft_Types
begin

text \<open>
  The in-memory log of a node (\<^verbatim>\<open>consensus/src/log.h\<close>, \<^verbatim>\<open>log.c\<close>).

  The array \<^verbatim>\<open>entries\<close> is modelled with all its allocated slots, the used ones
  (below \<^verbatim>\<open>count\<close>) and the stale ones above, because \<^verbatim>\<open>raft_log_append\<close>
  reuses a stale slot without clearing every field of it. Its length is the field
  \<^verbatim>\<open>capacity\<close> of the code. Freeing memory has no further effect in the model.

  The abstract view of a log is its base and the list of (term, command) pairs above the
  base; the operations are proved to refine append, prefix and suffix on that list.
\<close>

record raft_log =
  entries :: "raft_entry list"
  count :: nat
  base_index :: u64
  base_term :: u64

text \<open>The content of a slot after \<^verbatim>\<open>calloc\<close>, and of one \<^verbatim>\<open>realloc\<close> adds.\<close>

definition zero_entry :: raft_entry where
  "zero_entry = \<lparr>e_term = 0, e_index = 0, e_type = Some RAFT_ENTRY_COMMAND, e_command = []\<rparr>"

definition fresh_entry :: raft_entry where
  "fresh_entry = \<lparr>e_term = 0, e_index = 0, e_type = None, e_command = []\<rparr>"

definition raft_log_create :: "world \<Rightarrow> raft_log option \<times> world" where
  "raft_log_create w =
     (case malloc w of (ok, w) \<Rightarrow>
        if \<not> ok then (None, w)
        else case malloc w of (ok, w) \<Rightarrow>
          if \<not> ok then (None, w)
          else (Some \<lparr>entries = replicate RAFT_LOG_INITIAL_CAPACITY zero_entry, count = 0,
                       base_index = 0, base_term = 0\<rparr>, w))"

definition log_grow :: "raft_log \<Rightarrow> world \<Rightarrow> raft_status_t \<times> raft_log \<times> world" where
  "log_grow log w =
     (case malloc w of (ok, w) \<Rightarrow>
        if \<not> ok then (RAFT_NO_MEMORY, log, w)
        else (RAFT_OK,
              log\<lparr>entries := entries log @ replicate (length (entries log)) fresh_entry\<rparr>, w))"

text \<open>The bytes of a command argument: none for a null pointer.\<close>

definition cmd_bytes :: "bytes option \<Rightarrow> bytes" where
  "cmd_bytes cmd = (case cmd of None \<Rightarrow> [] | Some bs \<Rightarrow> bs)"

definition raft_log_append ::
  "raft_log \<Rightarrow> u64 \<Rightarrow> bytes option \<Rightarrow> world \<Rightarrow> raft_status_t \<times> u64 option \<times> raft_log \<times> world"
where
  "raft_log_append log t cmd w =
     (case (if count log \<ge> length (entries log) then log_grow log w else (RAFT_OK, log, w)) of
        (status, log, w) \<Rightarrow>
          if status \<noteq> RAFT_OK then (status, None, log, w)
          else
            let idx = base_index log + of_nat (count log) + 1;
                slot = (entries log ! count log)\<lparr>e_term := t, e_index := idx\<rparr>
            in if cmd_bytes cmd \<noteq> [] then
                 (case malloc w of (ok, w) \<Rightarrow>
                    if \<not> ok then
                      (RAFT_NO_MEMORY, None,
                       log\<lparr>entries := (entries log)[count log := slot\<lparr>e_command := []\<rparr>]\<rparr>, w)
                    else
                      (RAFT_OK, Some idx,
                       log\<lparr>entries := (entries log)[count log := slot\<lparr>e_command := cmd_bytes cmd\<rparr>],
                           count := count log + 1\<rparr>, w))
               else
                 (RAFT_OK, Some idx,
                  log\<lparr>entries := (entries log)[count log := slot\<lparr>e_command := []\<rparr>],
                      count := count log + 1\<rparr>, w))"

definition raft_log_get :: "raft_log \<Rightarrow> u64 \<Rightarrow> raft_entry option" where
  "raft_log_get log index =
     (if index = 0 then None
      else if index \<le> base_index log then None
      else let offset = unat (index - base_index log - 1)
           in if offset \<ge> count log then None else Some (entries log ! offset))"

definition raft_log_last_index :: "raft_log \<Rightarrow> u64" where
  "raft_log_last_index log =
     (if count log = 0 then base_index log else base_index log + of_nat (count log))"

definition raft_log_last_term :: "raft_log \<Rightarrow> u64" where
  "raft_log_last_term log =
     (if count log = 0 then base_term log else e_term (entries log ! (count log - 1)))"

definition raft_log_term_at :: "raft_log \<Rightarrow> u64 \<Rightarrow> u64" where
  "raft_log_term_at log index =
     (if index = 0 then 0
      else if index = base_index log then base_term log
      else case raft_log_get log index of None \<Rightarrow> 0 | Some e \<Rightarrow> e_term e)"

definition raft_log_count :: "raft_log \<Rightarrow> nat" where
  "raft_log_count log = count log"

text \<open>The indices \<open>a, a + 1, \<dots>\<close>, \<open>n\<close> of them.\<close>

definition u64_range :: "u64 \<Rightarrow> nat \<Rightarrow> u64 list" where
  "u64_range a n = map (\<lambda>k. a + of_nat k) [0..<n]"

lemma u64_range_simps [simp]:
  "u64_range a 0 = []" "u64_range a (Suc n) = a # u64_range (a + 1) n"
proof -
  show "u64_range a 0 = []" by (simp add: u64_range_def)
  have "u64_range a (Suc n) = map (\<lambda>k. a + of_nat k) (0 # map Suc [0..<n])"
    unfolding u64_range_def by (simp add: map_Suc_upt upt_conv_Cons del: upt_Suc)
  then show "u64_range a (Suc n) = a # u64_range (a + 1) n"
    by (simp add: u64_range_def comp_def algebra_simps)
qed

lemma unat_u64_range: "unat a + n \<le> 2 ^ 64 \<Longrightarrow> map unat (u64_range a n) = [unat a..<unat a + n]"
proof -
  assume "unat a + n \<le> 2 ^ 64"
  then have "map unat (u64_range a n) = map (\<lambda>k. k + unat a) [0..<n]"
    by (simp add: u64_range_def unat_add_of_nat)
  also have "\<dots> = [unat a..<unat a + n]" by (simp add: map_add_upt add.commute)
  finally show ?thesis .
qed

lemma length_u64_range [simp]: "length (u64_range a n) = n"
  by (simp add: u64_range_def)

text \<open>The loop that frees the commands at the given indices; an offset outside the array is
  undefined behaviour.\<close>

fun free_range :: "u64 \<Rightarrow> u64 list \<Rightarrow> raft_entry list \<Rightarrow> raft_entry list option" where
  "free_range base [] es = Some es"
| "free_range base (i # is) es =
     (let offset = unat (i - base - 1)
      in if offset < length es
         then free_range base is (es[offset := (es ! offset)\<lparr>e_command := []\<rparr>])
         else None)"

definition raft_log_truncate_after :: "raft_log \<Rightarrow> u64 \<Rightarrow> (raft_status_t \<times> raft_log) option" where
  "raft_log_truncate_after log after_index =
     (let last = raft_log_last_index log
      in if after_index \<ge> last then Some (RAFT_OK, log)
         else do {
           es \<leftarrow> free_range (base_index log)
                  (u64_range (after_index + 1) (unat last - unat after_index)) (entries log);
           let log = log\<lparr>entries := es\<rparr>;
           Some (RAFT_OK,
                 if after_index \<le> base_index log then log\<lparr>count := 0\<rparr>
                 else log\<lparr>count := unat (after_index - base_index log)\<rparr>)
         })"

definition raft_log_truncate_before :: "raft_log \<Rightarrow> u64 \<Rightarrow> (raft_status_t \<times> raft_log) option" where
  "raft_log_truncate_before log before_index =
     (if before_index \<le> base_index log + 1 then Some (RAFT_OK, log)
      else
        let last = raft_log_last_index log;
            before_index = (if before_index > last + 1 then last + 1 else before_index);
            new_base_term = (case raft_log_get log (before_index - 1) of
                               Some e \<Rightarrow> e_term e | None \<Rightarrow> base_term log);
            entries_to_remove = unat (before_index - base_index log - 1);
            remaining = count log - entries_to_remove
        in if entries_to_remove > count log then None
           else Some (RAFT_OK,
             log\<lparr>entries := take remaining (drop entries_to_remove (entries log))
                             @ drop remaining (entries log),
                 count := remaining,
                 base_index := before_index - 1,
                 base_term := new_base_term\<rparr>))"

section \<open>Well-formed logs and their abstract view\<close>

definition log_last :: "raft_log \<Rightarrow> nat" where
  "log_last log = unat (base_index log) + count log"

text \<open>The array is allocated, the used slots are inside it and numbered consecutively above
  the base, and no index reaches the wrap-around.\<close>

definition raft_log_wf :: "raft_log \<Rightarrow> bool" where
  "raft_log_wf log \<longleftrightarrow>
     1 \<le> length (entries log) \<and> count log \<le> length (entries log) \<and>
     log_last log < 2 ^ 64 - 1 \<and>
     (\<forall>k < count log. unat (e_index (entries log ! k)) = unat (base_index log) + k + 1)"

text \<open>The specification state: base index, base term and the (term, command) pairs above.\<close>

type_synonym log_spec = "nat \<times> u64 \<times> (u64 \<times> bytes) list"

definition log_view :: "raft_log \<Rightarrow> log_spec" where
  "log_view log =
     (unat (base_index log), base_term log,
      map (\<lambda>e. (e_term e, e_command e)) (take (count log) (entries log)))"

definition spec_append :: "log_spec \<Rightarrow> u64 \<Rightarrow> bytes \<Rightarrow> log_spec" where
  "spec_append s t c = (case s of (b, bt, es) \<Rightarrow> (b, bt, es @ [(t, c)]))"

definition spec_truncate_after :: "log_spec \<Rightarrow> nat \<Rightarrow> log_spec" where
  "spec_truncate_after s i = (case s of (b, bt, es) \<Rightarrow> (b, bt, take (i - b) es))"

definition spec_lookup :: "log_spec \<Rightarrow> nat \<Rightarrow> (u64 \<times> bytes) option" where
  "spec_lookup s i =
     (case s of (b, bt, es) \<Rightarrow>
        if b < i \<and> i \<le> b + length es then Some (es ! (i - b - 1)) else None)"

definition spec_truncate_before :: "log_spec \<Rightarrow> nat \<Rightarrow> log_spec" where
  "spec_truncate_before s i =
     (case s of (b, bt, es) \<Rightarrow>
        if i \<le> b + 1 then s
        else let j = min i (b + length es + 1)
             in (j - 1, (case spec_lookup s (j - 1) of None \<Rightarrow> bt | Some (t, c) \<Rightarrow> t),
                 drop (j - 1 - b) es))"

lemma log_view_length: "raft_log_wf log \<Longrightarrow> length (snd (snd (log_view log))) = count log"
  by (simp add: log_view_def raft_log_wf_def)

lemma raft_log_last_index_unat:
  "raft_log_wf log \<Longrightarrow> unat (raft_log_last_index log) = log_last log"
  by (auto simp: raft_log_last_index_def raft_log_wf_def log_last_def unat_add_of_nat)

lemma raft_log_get_eq:
  assumes "raft_log_wf log"
  shows "raft_log_get log i =
     (if unat (base_index log) < unat i \<and> unat i \<le> log_last log
      then Some (entries log ! (unat i - unat (base_index log) - 1)) else None)"
proof (cases "i \<le> base_index log")
  case True
  then show ?thesis by (simp add: raft_log_get_def u64_le)
next
  case False
  then have lt: "unat (base_index log) < unat i" by (simp add: u64_le)
  then have "i \<noteq> 0" by auto
  moreover have "unat (i - base_index log) = unat i - unat (base_index log)"
    using lt by (simp add: unat_diff u64_le)
  moreover from this lt have "i - base_index log \<noteq> 0"
    by (metis diff_is_0_eq leD unsigned_0)
  ultimately have "unat (i - base_index log - 1) = unat i - unat (base_index log) - 1"
    by (simp add: unat_pred)
  with lt \<open>i \<noteq> 0\<close> False show ?thesis
    by (auto simp: raft_log_get_def log_last_def Let_def)
qed

text \<open>Reading an entry is reading the abstract list.\<close>

lemma raft_log_get_refines:
  assumes "raft_log_wf log"
  shows "spec_lookup (log_view log) (unat i)
           = map_option (\<lambda>e. (e_term e, e_command e)) (raft_log_get log i)"
  using assms
  by (auto simp: raft_log_get_eq spec_lookup_def log_view_def log_last_def raft_log_wf_def)

section \<open>The operations keep the invariant and refine the view\<close>

lemma raft_log_create_wf:
  "raft_log_create w = (Some log, w') \<Longrightarrow> raft_log_wf log \<and> log_view log = (0, 0, [])"
  by (auto simp: raft_log_create_def raft_log_wf_def log_view_def log_last_def
      split: prod.splits if_splits)

lemma log_grow_ok:
  assumes "log_grow log w = (st, log', w')" and "raft_log_wf log"
  shows "raft_log_wf log' \<and> log_view log' = log_view log \<and> count log' = count log
    \<and> base_index log' = base_index log \<and> base_term log' = base_term log
    \<and> (st = RAFT_OK \<longrightarrow> count log' < length (entries log')) \<and> (st = RAFT_OK \<or> st = RAFT_NO_MEMORY)
    \<and> (\<forall>i < count log. entries log' ! i = entries log ! i)"
  using assms
  by (auto simp: log_grow_def raft_log_wf_def log_view_def log_last_def nth_append
      split: prod.splits if_splits)


lemma raft_log_append_cases:
  assumes eq: "raft_log_append log t cmd w = (st, out, log', w')"
    and wf: "raft_log_wf log" and room: "log_last log < 2 ^ 64 - 2"
  shows "raft_log_wf log' \<and> base_index log' = base_index log \<and> base_term log' = base_term log \<and>
    (st = RAFT_OK \<and> log_view log' = spec_append (log_view log) t (cmd_bytes cmd) \<and>
       log_last log' = log_last log + 1 \<and> map_option unat out = Some (log_last log + 1) \<or>
     st = RAFT_NO_MEMORY \<and> log_view log' = log_view log \<and> log_last log' = log_last log
       \<and> out = None)"
proof -
  obtain st1 log1 w1 where g:
    "(if count log \<ge> length (entries log) then log_grow log w else (RAFT_OK, log, w))
       = (st1, log1, w1)"
    by (metis prod_cases3)
  have wf1: "raft_log_wf log1" and view1: "log_view log1 = log_view log"
    and cnt: "count log1 = count log" and base: "base_index log1 = base_index log"
    and bterm: "base_term log1 = base_term log"
    and room1: "st1 = RAFT_OK \<Longrightarrow> count log1 < length (entries log1)"
    and st1: "st1 = RAFT_OK \<or> st1 = RAFT_NO_MEMORY"
    using g wf log_grow_ok [of log w] by (auto split: if_splits)
  have idx: "unat (base_index log + of_nat (count log) + 1) = log_last log + 1"
    using room by (simp add: log_last_def unat_add_of_nat unat_succ)
  have last1: "log_last log1 = log_last log" by (simp add: log_last_def cnt base)
  show ?thesis
  proof (cases "st1 = RAFT_OK")
    case False
    with st1 have "st1 = RAFT_NO_MEMORY" by simp
    with eq have "st = RAFT_NO_MEMORY" "out = None" "log' = log1"
      by (simp_all add: raft_log_append_def g)
    then show ?thesis by (simp add: wf1 view1 base bterm last1)
  next
    case True
    let ?idx = "base_index log1 + of_nat (count log1) + 1"
    let ?e = "\<lambda>c. (entries log1 ! count log1)\<lparr>e_term := t, e_index := ?idx, e_command := c\<rparr>"
    let ?put = "\<lambda>c. log1\<lparr>entries := (entries log1)[count log1 := ?e c], count := count log1 + 1\<rparr>"
    have lt: "count log1 < length (entries log1)" using True by (rule room1)
    have idx1: "unat ?idx = log_last log + 1" using idx by (simp add: cnt base)
    have wf2: "raft_log_wf (?put c)" for c
      using wf1 lt room idx1
      by (auto simp: raft_log_wf_def log_last_def nth_list_update less_Suc_eq cnt base)
    have view2: "log_view (?put c) = spec_append (log_view log) t c" for c
      unfolding view1 [symmetric]
      using lt by (simp add: log_view_def spec_append_def take_Suc_conv_app_nth)
    have wf3: "raft_log_wf (log1\<lparr>entries := (entries log1)[count log1 := ?e c]\<rparr>)"
      and view3: "log_view (log1\<lparr>entries := (entries log1)[count log1 := ?e c]\<rparr>) = log_view log"
      for c
      unfolding view1 [symmetric]
      using wf1 by (auto simp: raft_log_wf_def log_last_def log_view_def)
    show ?thesis
      using eq True idx1 wf2 view2 wf3 view3
      by (auto simp: raft_log_append_def g Let_def base bterm last1 log_last_def cnt
          split: if_splits prod.splits)
  qed
qed

lemma raft_log_append_ok:
  assumes "raft_log_append log t cmd w = (st, out, log', w')" and "alloc_ok w"
  shows "st = RAFT_OK \<and> w' = w"
  using assms
  by (auto simp: raft_log_append_def log_grow_def Let_def split: if_splits)

lemma free_range_above:
  assumes "\<And>i. i \<in> set is \<Longrightarrow> m \<le> unat (i - base - 1) \<and> unat (i - base - 1) < length es"
  shows "\<exists>es'. free_range base is es = Some es' \<and> length es' = length es \<and> take m es' = take m es
    \<and> map e_index es' = map e_index es \<and> map e_type es' = map e_type es"
  using assms
proof (induction "is" arbitrary: es)
  case Nil
  then show ?case by simp
next
  case (Cons i "is")
  let ?o = "unat (i - base - 1)"
  let ?es = "es[?o := (es ! ?o)\<lparr>e_command := []\<rparr>]"
  have o: "m \<le> ?o" "?o < length es" using Cons.prems [of i] by auto
  have "map e_index ?es = map e_index es" "map e_type ?es = map e_type es"
    using o by (auto simp: list_eq_iff_nth_eq nth_list_update)
  moreover have "\<exists>es'. free_range base is ?es = Some es' \<and> length es' = length ?es \<and>
      take m es' = take m ?es \<and> map e_index es' = map e_index ?es \<and> map e_type es' = map e_type ?es"
    by (rule Cons.IH) (use Cons.prems in auto)
  ultimately show ?case using o by (auto simp: Let_def)
qed

lemma set_u64_range_offsets:
  assumes "i \<in> set (u64_range (a + 1) n)" and "base \<le> (a :: u64)" and "unat a + n < 2 ^ 64 - 1"
  shows "unat a - unat base \<le> unat (i - base - 1)" and "unat (i - base - 1) < unat a + n - unat base"
proof -
  obtain k where k: "k < n" "i = a + 1 + of_nat k"
    using assms(1) by (auto simp: u64_range_def)
  have "i - base - 1 = (a - base) + of_nat k"
    using k by (simp add: algebra_simps)
  moreover have "unat (a - base) = unat a - unat base"
    using assms(2) by (rule unat_diff)
  moreover have "unat ((a - base) + of_nat k) = unat (a - base) + k"
    using k assms(3) calculation by (intro unat_add_of_nat) simp
  ultimately have "unat (i - base - 1) = unat a - unat base + k"
    by metis
  then show "unat a - unat base \<le> unat (i - base - 1)"
    and "unat (i - base - 1) < unat a + n - unat base"
    using k assms(2) by (auto simp: u64_le)
qed

lemma raft_log_truncate_after_ok:
  assumes wf: "raft_log_wf log" and above: "base_index log \<le> after"
  shows "\<exists>log'. raft_log_truncate_after log after = Some (RAFT_OK, log') \<and> raft_log_wf log'
    \<and> log_view log' = spec_truncate_after (log_view log) (unat after)
    \<and> base_index log' = base_index log \<and> base_term log' = base_term log
    \<and> log_last log' = min (unat after) (log_last log) \<and> map e_type (entries log') = map e_type (entries log)"
proof (cases "raft_log_last_index log \<le> after")
  case True
  then have "log_last log \<le> unat after" using wf by (simp add: u64_le raft_log_last_index_unat)
  with True wf show ?thesis
    by (auto simp: raft_log_truncate_after_def Let_def spec_truncate_after_def log_view_def
        log_last_def take_map)
next
  case False
  let ?b = "unat (base_index log)" and ?n = "unat (raft_log_last_index log) - unat after"
  let ?m = "unat after - ?b"
  have lt: "unat after < log_last log" using False wf by (simp add: u64_le raft_log_last_index_unat)
  have n: "?n = log_last log - unat after" using wf by (simp add: raft_log_last_index_unat)
  have ge: "?b \<le> unat after" using above by (simp add: u64_le)
  have len: "count log \<le> length (entries log)" and bnd: "log_last log < 2 ^ 64 - 1"
    using wf by (auto simp: raft_log_wf_def)
  have "\<exists>es'. free_range (base_index log) (u64_range (after + 1) ?n) (entries log) = Some es'
      \<and> length es' = length (entries log) \<and> take ?m es' = take ?m (entries log)
      \<and> map e_index es' = map e_index (entries log) \<and> map e_type es' = map e_type (entries log)"
  proof (rule free_range_above)
    fix i assume i: "i \<in> set (u64_range (after + 1) ?n)"
    show "?m \<le> unat (i - base_index log - 1) \<and> unat (i - base_index log - 1) < length (entries log)"
      using set_u64_range_offsets [OF i above] n lt len bnd by (simp add: log_last_def)
  qed
  then obtain es' where fr: "free_range (base_index log) (u64_range (after + 1) ?n) (entries log) = Some es'"
    and l: "length es' = length (entries log)" and tk: "take ?m es' = take ?m (entries log)"
    and ix: "map e_index es' = map e_index (entries log)"
    and ty: "map e_type es' = map e_type (entries log)" by blast
  let ?log = "log\<lparr>entries := es', count := ?m\<rparr>"
  have "e_index (es' ! k) = e_index (entries log ! k)" if "k < length (entries log)" for k
    using ix that l by (metis nth_map)
  then have "raft_log_wf ?log"
    using wf lt ge l by (auto simp: raft_log_wf_def log_last_def)
  moreover have "log_view ?log = spec_truncate_after (log_view log) (unat after)"
    using tk lt ge by (auto simp: log_view_def spec_truncate_after_def take_map log_last_def min_def)
  moreover have "raft_log_truncate_after log after = Some (RAFT_OK, ?log)"
    using False fr above ge
    by (auto simp: raft_log_truncate_after_def Let_def unat_diff)
  ultimately show ?thesis using lt ge ty by (auto simp: log_last_def)
qed

section \<open>Terms\<close>

lemma raft_log_term_at_view:
  assumes "raft_log_wf log"
  shows "raft_log_term_at log i =
     (if i = 0 then 0
      else if i = base_index log then base_term log
      else case spec_lookup (log_view log) (unat i) of None \<Rightarrow> 0 | Some (t, c) \<Rightarrow> t)"
  using raft_log_get_refines [OF assms, of i]
  by (cases "raft_log_get log i") (auto simp: raft_log_term_at_def)

lemma raft_log_last_term_at:
  assumes "raft_log_wf log" and "raft_log_last_index log \<noteq> 0"
  shows "raft_log_term_at log (raft_log_last_index log) = raft_log_last_term log"
proof (cases "count log = 0")
  case True
  with assms show ?thesis
    by (simp add: raft_log_term_at_def raft_log_last_index_def raft_log_last_term_def)
next
  case False
  have l: "unat (raft_log_last_index log) = log_last log"
    using assms(1) by (rule raft_log_last_index_unat)
  with False have "raft_log_last_index log \<noteq> base_index log"
    by (auto simp: log_last_def u64_eq_iff)
  with False l assms show ?thesis
    by (simp add: raft_log_term_at_def raft_log_get_eq raft_log_last_term_def log_last_def)
qed

text \<open>An appended entry is found at the index that \<^verbatim>\<open>raft_log_append\<close> returned,
  and nothing below it changes.\<close>

lemma raft_log_append_get:
  assumes "raft_log_append log t cmd w = (RAFT_OK, Some idx, log', w')"
    and "raft_log_wf log" and "log_last log < 2 ^ 64 - 2"
  shows "\<exists>e. raft_log_get log' idx = Some e \<and> e_term e = t \<and> e_command e = cmd_bytes cmd
    \<and> e_index e = idx"
    and "unat i \<le> log_last log \<Longrightarrow> spec_lookup (log_view log') (unat i) = spec_lookup (log_view log) (unat i)"
proof -
  note app = raft_log_append_cases [OF assms]
  then have wf': "raft_log_wf log'" and view: "log_view log' = spec_append (log_view log) t (cmd_bytes cmd)"
    and last: "log_last log' = log_last log + 1" and idx: "unat idx = log_last log + 1"
    and base: "base_index log' = base_index log" by auto
  have len: "length (snd (snd (log_view log))) = count log"
    using assms(2) by (rule log_view_length)
  have "spec_lookup (log_view log') (unat idx) = Some (t, cmd_bytes cmd)"
    using len idx unfolding view
    by (auto simp: spec_append_def spec_lookup_def log_view_def log_last_def nth_append)
  then obtain e where e: "raft_log_get log' idx = Some e" "e_term e = t" "e_command e = cmd_bytes cmd"
    using raft_log_get_refines [OF wf', of idx] by (cases "raft_log_get log' idx") auto
  have "e_index e = idx"
    using e(1) wf' idx last base
    by (auto simp: raft_log_get_eq raft_log_wf_def log_last_def u64_eq_iff split: if_splits)
  with e show "\<exists>e. raft_log_get log' idx = Some e \<and> e_term e = t \<and> e_command e = cmd_bytes cmd
    \<and> e_index e = idx" by blast
  show "unat i \<le> log_last log \<Longrightarrow> spec_lookup (log_view log') (unat i) = spec_lookup (log_view log) (unat i)"
    using len unfolding view
    by (auto simp: spec_append_def spec_lookup_def log_view_def log_last_def nth_append)
qed

section \<open>Sample logs\<close>

text \<open>A log with a given base and content, for the concrete instances.\<close>

definition sample_log :: "nat \<Rightarrow> u64 \<Rightarrow> (u64 \<times> bytes) list \<Rightarrow> raft_log" where
  "sample_log b t es =
     \<lparr>entries = map (\<lambda>i. \<lparr>e_term = fst (es ! i), e_index = of_nat (b + i + 1),
          e_type = Some RAFT_ENTRY_COMMAND, e_command = snd (es ! i)\<rparr>) [0..<length es] @ [zero_entry],
      count = length es, base_index = of_nat b, base_term = t\<rparr>"

lemma sample_log_view:
  assumes "b + length es < 2 ^ 64 - 1"
  shows "raft_log_wf (sample_log b t es) \<and> log_view (sample_log b t es) = (b, t, es) \<and>
    log_last (sample_log b t es) = b + length es"
proof -
  have b: "unat (of_nat b :: u64) = b" using assms by (simp add: unat_of_nat)
  have "unat (of_nat (b + k + 1) :: u64) = b + k + 1" if "k < length es" for k
    unfolding unat_of_nat using assms that by simp
  then have "raft_log_wf (sample_log b t es) \<and> log_last (sample_log b t es) = b + length es"
    using assms b by (simp add: sample_log_def raft_log_wf_def log_last_def nth_append del: of_nat_add of_nat_Suc)
  moreover have "log_view (sample_log b t es) = (b, t, es)"
    using b by (simp add: sample_log_def log_view_def comp_def map_nth)
  ultimately show ?thesis by blast
qed

abbreviation two_logs where "two_logs \<equiv> sample_log 0 0 [(1, [7]), (1, [8])]"

lemma sample_logs:
  "raft_log_wf (sample_log 0 0 [])" "log_view (sample_log 0 0 []) = (0, 0, [])" "log_last (sample_log 0 0 []) = 0"
  "raft_log_wf (sample_log 0 0 [(1, [7])])" "log_view (sample_log 0 0 [(1, [7])]) = (0, 0, [(1, [7])])"
  "log_last (sample_log 0 0 [(1, [7])]) = 1"
  "raft_log_wf two_logs" "log_view two_logs = (0, 0, [(1, [7]), (1, [8])])" "log_last two_logs = 2"
  using sample_log_view [of 0 "[]" 0] sample_log_view [of 0 "[(1, [7])]" 0]
    sample_log_view [of 0 "[(1, [7]), (1, [8])]" 0] by simp_all

section \<open>Properties\<close>

text \<open>An append returns the index one past the end; the new entry is found there with its term and command, and every older index still reads as before.\<close>

theorem raft_log_append_lookup:
  assumes "raft_log_append l t cmd w = (RAFT_OK, Some idx, l', w')"
    and "raft_log_wf l" and "log_last l < 2 ^ 64 - 2"
  shows "(\<exists>e. raft_log_get l' idx = Some e \<and> e_term e = t \<and> e_command e = cmd_bytes cmd \<and> e_index e = idx) \<and>
    (\<forall>i. unat i \<le> log_last l \<longrightarrow>
       map_option (\<lambda>e. (e_term e, e_command e)) (raft_log_get l' i) =
       map_option (\<lambda>e. (e_term e, e_command e)) (raft_log_get l i))"
proof -
  have wf': "raft_log_wf l'" using raft_log_append_cases [OF assms] by blast
  show ?thesis
    using raft_log_append_get(1) [OF assms] raft_log_append_get(2) [OF assms]
    by (auto simp: raft_log_get_refines [OF assms(2), symmetric] raft_log_get_refines [OF wf', symmetric])
qed

theorem raft_log_append_lookup_witness:
  "\<exists>l'. raft_log_append (sample_log 0 0 [(1, [7])]) 2 (Some [9]) quiet_world = (RAFT_OK, Some 2, l', quiet_world) \<and>
     (\<exists>e. raft_log_get l' 2 = Some e \<and> e_term e = 2 \<and> e_command e = [9]) \<and>
     map_option (\<lambda>e. (e_term e, e_command e)) (raft_log_get l' 1) = Some (1, [7])"
proof -
  let ?l = "sample_log 0 0 [(1, [7])]"
  have s: "raft_log_wf ?l" "log_last ?l < 2 ^ 64 - 2" "unat (1 :: u64) \<le> log_last ?l"
    using sample_log_view [of 0 "[(1, [7])]" 0] by simp_all
  obtain l' where a: "raft_log_append ?l 2 (Some [9]) quiet_world = (RAFT_OK, Some 2, l', quiet_world)"
    by (simp add: raft_log_append_def sample_log_def cmd_bytes_def)
  have old: "map_option (\<lambda>e. (e_term e, e_command e)) (raft_log_get ?l 1) = Some (1, [7])"
    by (simp add: raft_log_get_def sample_log_def)
  note r = raft_log_append_lookup [OF a s(1,2)]
  have "map_option (\<lambda>e. (e_term e, e_command e)) (raft_log_get l' 1) = Some (1, [7])"
    using conjunct2 [OF r] s(3) old by (elim allE [of _ 1]) argo
  then show ?thesis using conjunct1 [OF r] a by (auto simp: cmd_bytes_def)
qed

text \<open>C23: Discarding a prefix of a well-formed log always succeeds, keeps the log well formed and drops exactly the entries below the given index (capped at the end of the log); the term of the last dropped entry becomes the base term.\<close>

theorem raft_log_truncate_before_ok:
  assumes wf: "raft_log_wf log"
  shows "\<exists>log'. raft_log_truncate_before log before = Some (RAFT_OK, log') \<and> raft_log_wf log'
    \<and> log_view log' = spec_truncate_before (log_view log) (unat before)"
proof (cases "before \<le> base_index log + 1")
  case True
  have "unat (base_index log + 1) = unat (base_index log) + 1"
    using wf by (intro unat_succ) (auto simp: raft_log_wf_def log_last_def)
  with True wf show ?thesis
    by (auto simp: raft_log_truncate_before_def spec_truncate_before_def log_view_def u64_le)
next
  case False
  let ?b = "unat (base_index log)" and ?last = "raft_log_last_index log"
  let ?bf = "if before > ?last + 1 then ?last + 1 else before"
  let ?j = "min (unat before) (?b + count log + 1)"
  have bnd: "log_last log < 2 ^ 64 - 1" and len: "count log \<le> length (entries log)"
    using wf by (auto simp: raft_log_wf_def)
  have sb: "unat (base_index log + 1) = ?b + 1"
    using bnd by (intro unat_succ) (simp add: log_last_def)
  have sl: "unat (?last + 1) = ?b + count log + 1"
    using bnd wf by (simp add: unat_succ raft_log_last_index_unat log_last_def)
  have gt: "?b + 1 < unat before" using False sb by (simp add: u64_le)
  have j: "unat ?bf = ?j" using sl by (auto simp: u64_less min_def)
  have "0 < ?j" using gt by simp
  have nz: "?bf \<noteq> 0"
  proof
    assume "?bf = 0"
    then have "unat ?bf = 0" by (simp only: unsigned_0)
    with j \<open>0 < ?j\<close> show False by linarith
  qed
  have j1: "unat (?bf - 1) = ?j - 1" using unat_pred [OF nz] j by simp
  have "unat (?bf - base_index log - 1) = unat (?bf - 1 - base_index log)"
    by (simp add: algebra_simps)
  also have "\<dots> = ?j - 1 - ?b"
    using j1 gt by (subst unat_diff) (auto simp: u64_le)
  finally have rm: "unat (?bf - base_index log - 1) = ?j - 1 - ?b" .
  let ?r = "?j - 1 - ?b"
  have r: "?r \<le> count log" by auto
  let ?nbt = "case raft_log_get log (?bf - 1) of Some e \<Rightarrow> e_term e | None \<Rightarrow> base_term log"
  let ?log = "log\<lparr>entries := take (count log - ?r) (drop ?r (entries log)) @ drop (count log - ?r) (entries log),
      count := count log - ?r, base_index := ?bf - 1, base_term := ?nbt\<rparr>"
  have "raft_log_truncate_before log before = Some (RAFT_OK, ?log)"
    using False rm r unfolding raft_log_truncate_before_def Let_def by (simp only: if_False) simp
  moreover have "raft_log_wf ?log"
    using wf r j1 gt len by (auto simp: raft_log_wf_def log_last_def nth_append min_def)
  moreover have "log_view ?log = spec_truncate_before (log_view log) (unat before)"
  proof -
    have "spec_lookup (log_view log) (?j - 1)
        = map_option (\<lambda>e. (e_term e, e_command e)) (raft_log_get log (?bf - 1))"
      using raft_log_get_refines [OF wf, of "?bf - 1"] j1 by simp
    then have nbt: "?nbt = (case spec_lookup (log_view log) (?j - 1) of
        None \<Rightarrow> base_term log | Some (t, c) \<Rightarrow> t)"
      by (cases "raft_log_get log (?bf - 1)") auto
    show ?thesis
      using gt len r j1 nbt
      by (auto simp: log_view_def spec_truncate_before_def Let_def min_def drop_map take_drop)
  qed
  ultimately show ?thesis by blast
qed

theorem raft_log_truncate_before_ok_witness:
  "\<exists>log'. raft_log_truncate_before (sample_log 0 0 [(1, [7]), (2, [8])]) 2 = Some (RAFT_OK, log') \<and>
     log_view log' = (1, 1, [(2, [8])])"
proof -
  have s: "raft_log_wf (sample_log 0 0 [(1, [7]), (2, [8])])"
    "log_view (sample_log 0 0 [(1, [7]), (2, [8])]) = (0, 0, [(1, [7]), (2, [8])])"
    using sample_log_view [of 0 "[(1, [7]), (2, [8])]"] by simp_all
  show ?thesis
    using raft_log_truncate_before_ok [OF s(1), of 2] s(2)
    by (auto simp: spec_truncate_before_def spec_lookup_def)
qed

text \<open>C24: Truncating a compacted log after an index below its base is undefined behaviour: the loop that frees the commands starts outside the array.\<close>

theorem raft_log_truncate_after_below_base:
  assumes wf: "raft_log_wf log" and below: "after < base_index log"
    and mem: "length (entries log) < 2 ^ 63" and base: "unat (base_index log) < 2 ^ 63"
  shows "raft_log_truncate_after log after = None"
proof -
  let ?b = "base_index log" and ?n = "unat (raft_log_last_index log) - unat after"
  have lt: "unat after < unat ?b" using below by (simp add: u64_less)
  have last: "unat (raft_log_last_index log) = log_last log" using wf by (rule raft_log_last_index_unat)
  then have n: "0 < ?n" using lt by (simp add: log_last_def)
  have "unat (after - ?b) = 2 ^ 64 - (unat ?b - unat after)"
    using lt by (simp add: unat_sub_if')
  then have off: "\<not> unat (after + 1 - ?b - 1) < length (entries log)"
    using mem base lt by simp
  have "u64_range (after + 1) ?n = (after + 1) # tl (u64_range (after + 1) ?n)"
    using n by (cases "?n") simp_all
  moreover have "free_range ?b ((after + 1) # is) (entries log) = None" for "is"
    unfolding free_range.simps Let_def using off by (rule if_not_P)
  ultimately have "free_range ?b (u64_range (after + 1) ?n) (entries log) = None"
    by metis
  moreover have "\<not> raft_log_last_index log \<le> after"
    using n by (simp add: u64_le)
  ultimately show ?thesis by (simp add: raft_log_truncate_after_def Let_def)
qed

theorem raft_log_truncate_after_below_base_witness:
  "raft_log_truncate_after (sample_log 5 1 [(2, [7])]) 3 = None"
  by (rule raft_log_truncate_after_below_base)
    (use sample_log_view [of 5 "[(2, [7])]" 1] in \<open>auto simp: sample_log_def\<close>)

end
