(* ===== verification/Raft_Crc32.thy ===== *)
theory Raft_Crc32
  imports Raft_Types
begin

text \<open>
  The checksum of the persistence layer (\<^verbatim>\<open>consensus/src/crc32.c\<close>): the reflected
  CRC-32 with polynomial 0xEDB88320, driven by a table of 256 words. The table-driven loop is
  shown equal to the bitwise definition, incremental, and able to detect every error that is
  confined to four consecutive bytes.
\<close>

unbundle bit_operations_syntax

section \<open>The code\<close>

definition crc32_shift :: "u32 \<Rightarrow> u32" where
  "crc32_shift crc = (if crc AND 1 \<noteq> 0 then drop_bit 1 crc XOR 0xEDB88320 else drop_bit 1 crc)"

definition crc32_table :: "u32 list" where
  "crc32_table = map (\<lambda>i. (crc32_shift ^^ 8) (of_nat i)) [0..<256]"

definition crc32_byte :: "u32 \<Rightarrow> u8 \<Rightarrow> u32" where
  "crc32_byte crc b = (crc32_table ! unat ((crc XOR ucast b) AND 0xFF)) XOR drop_bit 8 crc"

definition crc32_update :: "u32 \<Rightarrow> bytes \<Rightarrow> u32" where
  "crc32_update crc data = NOT (foldl crc32_byte (NOT crc) data)"

definition crc32 :: "bytes \<Rightarrow> u32" where
  "crc32 data = crc32_update 0 data"

section \<open>Incremental use\<close>

lemma crc32_update_append:
  "crc32_update crc (xs @ ys) = crc32_update (crc32_update crc xs) ys"
  by (simp add: crc32_update_def)

section \<open>The table computes eight shifts\<close>

lemma and_1_neq_0: "(w :: u32) AND 1 \<noteq> 0 \<longleftrightarrow> bit w 0"
  by (simp add: and_one_eq mod_2_eq_odd bit_0)

lemma crc32_shift_bit:
  "crc32_shift w = (if bit w 0 then drop_bit 1 w XOR 0xEDB88320 else drop_bit 1 w)"
  by (simp only: crc32_shift_def and_1_neq_0)

lemma xor_right_cancel: "(a :: u32) XOR c = b XOR c \<longleftrightarrow> a = b"
  by (metis xor.assoc xor.right_neutral xor_self_eq)

lemma crc32_shift_xor: "crc32_shift (a XOR b) = crc32_shift a XOR crc32_shift b"
proof -
  have "drop_bit 1 (a XOR b) = drop_bit 1 a XOR drop_bit 1 b"
    by (rule bit_word_eqI) (auto simp: bit_simps)
  then show ?thesis
    by (cases "bit a 0"; cases "bit b 0")
      (simp_all add: crc32_shift_bit bit_xor_iff ac_simps)
qed

lemma crc32_shifts_xor: "(crc32_shift ^^ n) (a XOR b) = (crc32_shift ^^ n) a XOR (crc32_shift ^^ n) b"
  by (induction n) (simp_all add: crc32_shift_xor)

lemma crc32_shifts_low_zero:
  "(\<And>i. i < n \<Longrightarrow> \<not> bit w i) \<Longrightarrow> (crc32_shift ^^ n) w = drop_bit n w"
proof (induction n arbitrary: w)
  case 0
  then show ?case by simp
next
  case (Suc n)
  have "crc32_shift w = drop_bit 1 w" using Suc.prems [of 0] by (simp add: crc32_shift_bit)
  moreover have "(crc32_shift ^^ n) (drop_bit 1 w) = drop_bit n (drop_bit 1 w)"
    by (rule Suc.IH) (use Suc.prems in \<open>auto simp: bit_simps\<close>)
  moreover have "drop_bit n (drop_bit 1 w) = drop_bit (Suc n) w"
    by (rule bit_word_eqI) (auto simp: bit_simps)
  ultimately show ?case by (simp add: funpow_Suc_right del: funpow.simps)
qed

lemma crc32_table_nth: "unat (w :: u32) < 256 \<Longrightarrow> crc32_table ! unat w = (crc32_shift ^^ 8) w"
  by (simp add: crc32_table_def)

lemma and_255: "(w :: u32) AND 255 = take_bit 8 w"
proof -
  have "(255 :: u32) = mask 8" by (simp add: mask_eq_exp_minus_1)
  then show ?thesis by (simp only: take_bit_eq_mask)
qed

lemma unat_take_bit_8: "unat (take_bit 8 (w :: u32)) < 256"
  using take_bit_nat_less_exp [of 8 "unat w"] by (simp add: unsigned_take_bit_eq)

text \<open>One table step is eight shifts of the register with the byte mixed in.\<close>

lemma crc32_byte_shifts: "crc32_byte crc b = (crc32_shift ^^ 8) (crc XOR ucast b)"
proof -
  let ?x = "crc XOR ucast b :: u32"
  let ?hi = "push_bit 8 (drop_bit 8 ?x)"
  have split: "?x = take_bit 8 ?x XOR ?hi"
  proof (rule bit_word_eqI)
    fix n :: nat
    show "bit ?x n = bit (take_bit 8 ?x XOR ?hi) n" if "n < LENGTH(32)"
      using that by (cases "n < 8") (auto simp: bit_simps)
  qed
  have hi: "drop_bit 8 ?hi = drop_bit 8 crc"
    by (rule bit_word_eqI) (auto simp: bit_simps dest: bit_imp_le_length)
  have "(crc32_shift ^^ 8) ?hi = drop_bit 8 ?hi"
    by (rule crc32_shifts_low_zero) (simp add: bit_simps)
  then have "(crc32_shift ^^ 8) ?x = (crc32_shift ^^ 8) (take_bit 8 ?x) XOR drop_bit 8 crc"
    by (subst split) (simp only: crc32_shifts_xor hi)
  then show ?thesis
    by (simp add: crc32_byte_def and_255 crc32_table_nth unat_take_bit_8 del: take_bit_xor)
qed

section \<open>Burst errors\<close>

lemma le_word_snoc:
  "(le_word (ds @ [d]) :: u32) = le_word ds XOR push_bit (8 * length ds) (ucast d)"
proof (induction ds)
  case Nil
  then show ?case by simp
next
  case (Cons a ds)
  show ?case
    unfolding append_Cons le_word.simps Cons.IH
    by (rule bit_word_eqI) (auto simp: bit_simps dest: bit_imp_le_length)
qed

lemma bit_31_poly: "bit (0xEDB88320 :: u32) 31"
  by simp

lemma bit_crc32_shift_31: "bit (crc32_shift w) 31 = bit w 0"
  using bit_imp_le_length [of w 32] by (auto simp: crc32_shift_bit bit_simps)

lemma crc32_shift_inj: "crc32_shift a = crc32_shift b \<Longrightarrow> a = b"
proof -
  assume eq: "crc32_shift a = crc32_shift b"
  then have b0: "bit a 0 = bit b 0" by (metis bit_crc32_shift_31)
  then have d: "drop_bit 1 a = drop_bit 1 b"
    using eq by (auto simp: crc32_shift_bit xor_right_cancel split: if_splits)
  show "a = b"
  proof (rule bit_word_eqI)
    fix n
    show "bit a n = bit b n"
    proof (cases n)
      case 0
      with b0 show ?thesis by simp
    next
      case (Suc m)
      have "bit (drop_bit 1 a) m = bit (drop_bit 1 b) m" by (simp only: d)
      with Suc show ?thesis by (simp add: bit_simps)
    qed
  qed
qed

lemma crc32_shifts_inj: "(crc32_shift ^^ n) a = (crc32_shift ^^ n) b \<Longrightarrow> a = b"
  by (induction n) (auto dest: crc32_shift_inj)

lemma crc32_byte_inj: "crc32_byte a d = crc32_byte b d \<Longrightarrow> a = b"
proof -
  assume "crc32_byte a d = crc32_byte b d"
  then have "a XOR ucast d = b XOR ucast d"
    by (auto simp: crc32_byte_shifts dest: crc32_shifts_inj)
  then show "a = b" by (simp only: xor_right_cancel)
qed

lemma crc32_bytes_inj: "foldl crc32_byte a ds = foldl crc32_byte b ds \<Longrightarrow> a = b"
  by (induction ds arbitrary: a b) (auto dest: crc32_byte_inj)

text \<open>Up to four bytes are absorbed as one little-endian word.\<close>

lemma crc32_bytes_word:
  "length ds \<le> 4 \<Longrightarrow> foldl crc32_byte c ds = (crc32_shift ^^ (8 * length ds)) (c XOR le_word ds)"
proof (induction ds rule: rev_induct)
  case Nil
  then show ?case by simp
next
  case (snoc d ds)
  let ?n = "8 * length ds"
  have n: "?n \<le> 24" using snoc.prems by simp
  have d: "(crc32_shift ^^ ?n) (push_bit ?n (ucast d)) = ucast d"
  proof -
    have "(crc32_shift ^^ ?n) (push_bit ?n (ucast d)) = drop_bit ?n (push_bit ?n (ucast d :: u32))"
      by (rule crc32_shifts_low_zero) (simp add: bit_simps)
    also have "\<dots> = ucast d"
      by (rule bit_word_eqI) (use n in \<open>auto simp: bit_simps dest: bit_imp_le_length\<close>)
    finally show ?thesis .
  qed
  have w: "(le_word (ds @ [d]) :: u32) = le_word ds XOR push_bit ?n (ucast d)"
    by (rule le_word_snoc)
  have "foldl crc32_byte c (ds @ [d]) = (crc32_shift ^^ 8) ((crc32_shift ^^ ?n) (c XOR le_word ds) XOR ucast d)"
    using snoc by (simp add: crc32_byte_shifts [of _ d])
  also have "\<dots> = (crc32_shift ^^ 8) ((crc32_shift ^^ ?n) (c XOR le_word ds XOR push_bit ?n (ucast d)))"
    by (simp only: crc32_shifts_xor d xor.assoc)
  also have "\<dots> = (crc32_shift ^^ (8 * length (ds @ [d]))) (c XOR le_word (ds @ [d]))"
    by (simp add: w xor.assoc funpow_add)
  finally show ?case .
qed

text \<open>C27: Two inputs that differ only inside a window of at most four bytes have different checksums: every error burst of up to 32 bits on byte boundaries is detected.\<close>

theorem crc32_burst:
  assumes "length d1 = length d2" and "length d1 \<le> 4" and "d1 \<noteq> d2"
  shows "crc32 (xs @ d1 @ ys) \<noteq> crc32 (xs @ d2 @ ys)"
proof
  let ?c = "foldl crc32_byte (NOT 0) xs"
  assume "crc32 (xs @ d1 @ ys) = crc32 (xs @ d2 @ ys)"
  then have "foldl crc32_byte (foldl crc32_byte ?c d1) ys = foldl crc32_byte (foldl crc32_byte ?c d2) ys"
    by (simp add: crc32_def crc32_update_def)
  then have "foldl crc32_byte ?c d1 = foldl crc32_byte ?c d2"
    by (rule crc32_bytes_inj)
  then have "(crc32_shift ^^ (8 * length d1)) (?c XOR le_word d1)
      = (crc32_shift ^^ (8 * length d1)) (?c XOR le_word d2)"
    using assms by (simp add: crc32_bytes_word)
  then have "?c XOR le_word d1 = ?c XOR le_word d2" by (rule crc32_shifts_inj)
  then have "(le_word d1 :: u32) = le_word d2"
    by (metis xor.commute xor_right_cancel)
  moreover have "le_bytes (length d1) (le_word d1 :: u32) = d1" "le_bytes (length d1) (le_word d2 :: u32) = d2"
    using assms le_bytes_le_word [where 'a = 32, of d1] le_bytes_le_word [where 'a = 32, of d2] by simp_all
  ultimately show False using assms(3) by metis
qed

theorem crc32_burst_witness:
  "length [1, 2 :: u8] \<le> 4 \<and> crc32 ([5] @ [1, 2] @ [6]) \<noteq> crc32 ([5] @ [1, 3] @ [6])"
  using crc32_burst [of "[1, 2]" "[1, 3]" "[5]" "[6]"] by simp

end
