(* ===== verification/Raft_Storage.thy ===== *)
theory Raft_Storage
  imports Raft_Log Raft_Crc32
begin

text \<open>
  Persistent storage (\<^verbatim>\<open>consensus/src/storage.c\<close>): the state file with the current
  term and vote, replaced atomically through a temporary file, and the append-only log file of
  checksummed records. Files are byte lists; every system call may fail or be short
  (\<open>C_Runtime\<close>).
\<close>

section \<open>File formats\<close>

definition RAFT_STATE_MAGIC :: u32 where "RAFT_STATE_MAGIC = 0x52414654"
definition RAFT_LOG_MAGIC :: u32 where "RAFT_LOG_MAGIC = 0x524C4F47"
definition RAFT_STORAGE_VERSION :: u32 where "RAFT_STORAGE_VERSION = 1"

record state_file =
  sf_magic :: u32
  sf_version :: u32
  sf_crc32 :: u32
  sf_current_term :: u64
  sf_voted_for :: int
  sf_padding :: u32

definition state_file_bytes :: "state_file \<Rightarrow> bytes" where
  "state_file_bytes s =
     le_bytes 4 (sf_magic s) @ le_bytes 4 (sf_version s) @ le_bytes 4 (sf_crc32 s) @
     le_bytes 8 (sf_current_term s) @ i32_bytes (sf_voted_for s) @ le_bytes 4 (sf_padding s)"

definition state_file_of :: "bytes \<Rightarrow> state_file" where
  "state_file_of bs =
     \<lparr>sf_magic = le_word (take 4 bs), sf_version = le_word (take 4 (drop 4 bs)),
      sf_crc32 = le_word (take 4 (drop 8 bs)), sf_current_term = le_word (take 8 (drop 12 bs)),
      sf_voted_for = i32_word (take 4 (drop 20 bs)), sf_padding = le_word (take 4 (drop 24 bs))\<rparr>"

definition STATE_FILE_SIZE :: nat where "STATE_FILE_SIZE = 28"

record log_header =
  lh_magic :: u32
  lh_version :: u32
  lh_base_index :: u64
  lh_base_term :: u64

definition log_header_bytes :: "log_header \<Rightarrow> bytes" where
  "log_header_bytes h =
     le_bytes 4 (lh_magic h) @ le_bytes 4 (lh_version h) @
     le_bytes 8 (lh_base_index h) @ le_bytes 8 (lh_base_term h)"

definition log_header_of :: "bytes \<Rightarrow> log_header" where
  "log_header_of bs =
     \<lparr>lh_magic = le_word (take 4 bs), lh_version = le_word (take 4 (drop 4 bs)),
      lh_base_index = le_word (take 8 (drop 8 bs)), lh_base_term = le_word (take 8 (drop 16 bs))\<rparr>"

definition LOG_HEADER_SIZE :: nat where "LOG_HEADER_SIZE = 24"

record log_record =
  lr_record_len :: u32
  lr_crc32 :: u32
  lr_term :: u64
  lr_index :: u64
  lr_cmd_len :: u32

definition log_record_bytes :: "log_record \<Rightarrow> bytes" where
  "log_record_bytes r =
     le_bytes 4 (lr_record_len r) @ le_bytes 4 (lr_crc32 r) @ le_bytes 8 (lr_term r) @
     le_bytes 8 (lr_index r) @ le_bytes 4 (lr_cmd_len r)"

definition log_record_of :: "bytes \<Rightarrow> log_record" where
  "log_record_of bs =
     \<lparr>lr_record_len = le_word (take 4 bs), lr_crc32 = le_word (take 4 (drop 4 bs)),
      lr_term = le_word (take 8 (drop 8 bs)), lr_index = le_word (take 8 (drop 16 bs)),
      lr_cmd_len = le_word (take 4 (drop 24 bs))\<rparr>"

definition LOG_RECORD_SIZE :: nat where "LOG_RECORD_SIZE = 28"

lemmas file_sizes [simp] =
  STATE_FILE_SIZE_def LOG_HEADER_SIZE_def LOG_RECORD_SIZE_def

text \<open>The bytes the two checksums cover: \<^verbatim>\<open>&state.current_term\<close> and
  \<^verbatim>\<open>&rec.term\<close> onwards.\<close>

definition state_crc_input :: "u64 \<Rightarrow> int \<Rightarrow> bytes" where
  "state_crc_input t v = le_bytes 8 t @ i32_bytes v"

definition record_crc_input :: "u64 \<Rightarrow> u64 \<Rightarrow> u32 \<Rightarrow> bytes" where
  "record_crc_input t i n = le_bytes 8 t @ le_bytes 8 i @ le_bytes 4 n"

section \<open>The storage handle\<close>

record raft_storage =
  st_data_dir :: string
  st_sync_writes :: bool
  st_log_open :: bool      \<comment> \<open>\<^verbatim>\<open>log_fd >= 0\<close>\<close>
  st_log_entries :: u64

definition STATE_FILE :: string where "STATE_FILE = ''raft_state.dat''"
definition LOG_FILE :: string where "LOG_FILE = ''raft_log.dat''"
definition TEMP_SUFFIX :: string where "TEMP_SUFFIX = ''.tmp''"

definition path_of :: "string \<Rightarrow> string \<Rightarrow> string" where
  "path_of dir file = dir @ ''/'' @ file"

definition make_path :: "string \<Rightarrow> string \<Rightarrow> world \<Rightarrow> string option \<times> world" where
  "make_path dir file w =
     (case malloc w of (ok, w) \<Rightarrow> (if ok then Some (path_of dir file) else None, w))"

definition write_file_atomic :: "string \<Rightarrow> bytes \<Rightarrow> bool \<Rightarrow> world \<Rightarrow> raft_status_t \<times> world" where
  "write_file_atomic path data do_sync w =
     (case malloc w of (ok, w) \<Rightarrow>
      if \<not> ok then (RAFT_NO_MEMORY, w)
      else
        let tmp = path @ TEMP_SUFFIX in
        case sys_open_trunc tmp w of (ok, w) \<Rightarrow>
        if \<not> ok then (RAFT_IO_ERROR, w)
        else case sys_write tmp 0 data w of (n, w) \<Rightarrow>
        if n \<noteq> Some (length data) then (RAFT_IO_ERROR, sys_unlink tmp w)
        else case (if do_sync then sys_ok w else (True, w)) of (ok, w) \<Rightarrow>
        if \<not> ok then (RAFT_IO_ERROR, sys_unlink tmp w)
        else case sys_rename tmp path w of (ok, w) \<Rightarrow>
        if \<not> ok then (RAFT_IO_ERROR, sys_unlink tmp w)
        else (RAFT_OK, w))"

text \<open>\<^verbatim>\<open>read\<close> from the bytes that follow the file position.\<close>

definition read_bytes :: "bytes \<Rightarrow> nat \<Rightarrow> world \<Rightarrow> bytes option \<times> world" where
  "read_bytes rest n w =
     (case io_next w of (x, w) \<Rightarrow>
        (case x of Io_fail \<Rightarrow> None | Io_ok \<Rightarrow> Some (take n rest)
         | Io_short k \<Rightarrow> Some (take (min n k) rest), w))"

text \<open>\<^verbatim>\<open>read(...) == sizeof(...)\<close>.\<close>

definition read_full :: "bytes \<Rightarrow> nat \<Rightarrow> world \<Rightarrow> bytes option \<times> world" where
  "read_full rest n w =
     (case read_bytes rest n w of (r, w) \<Rightarrow>
        (case r of None \<Rightarrow> None | Some bs \<Rightarrow> if length bs = n then Some bs else None, w))"

lemma read_full_Some:
  "read_full rest n w = (Some bs, w') \<Longrightarrow> bs = take n rest \<and> n \<le> length rest"
  by (auto simp: read_full_def read_bytes_def min_def split: prod.splits option.splits
      io_outcome.splits if_splits dest: arg_cong [where f = length])

lemma read_full_Some_sym:
  "(Some bs, w') = read_full rest n w \<Longrightarrow> bs = take n rest \<and> n \<le> length rest"
  by (rule read_full_Some [OF sym])

text \<open>The loop of \<^verbatim>\<open>count_log_entries\<close> over the records that follow.\<close>

function count_records :: "bytes \<Rightarrow> u64 \<Rightarrow> world \<Rightarrow> u64 \<times> world" where
  "count_records rest n w =
     (case read_full rest LOG_RECORD_SIZE w of
        (None, w) \<Rightarrow> (n, w)
      | (Some bs, w) \<Rightarrow>
          let len = unat (lr_record_len (log_record_of bs)) in
          if len < LOG_RECORD_SIZE then (n, w)
          else case sys_ok w of (ok, w) \<Rightarrow>
            if \<not> ok then (n, w) else count_records (drop len rest) (n + 1) w)"
  by pat_completeness auto
termination
  by (relation "measure (\<lambda>(rest, n, w). length rest)") (auto dest: read_full_Some_sym)

definition count_log_entries :: "string \<Rightarrow> world \<Rightarrow> u64 \<times> world" where
  "count_log_entries path w =
     (case sys_ok w of (ok, w) \<Rightarrow>
      if \<not> ok then (0, w)
      else case read_full (file_bytes path w) LOG_HEADER_SIZE w of
        (None, w) \<Rightarrow> (0, w)
      | (Some bs, w) \<Rightarrow>
          if lh_magic (log_header_of bs) \<noteq> RAFT_LOG_MAGIC then (0, w)
          else count_records (drop LOG_HEADER_SIZE (file_bytes path w)) 0 w)"

definition initial_log_header :: log_header where
  "initial_log_header =
     \<lparr>lh_magic = RAFT_LOG_MAGIC, lh_version = RAFT_STORAGE_VERSION,
      lh_base_index = 0, lh_base_term = 0\<rparr>"

definition raft_storage_open :: "string \<Rightarrow> bool \<Rightarrow> world \<Rightarrow> raft_storage option \<times> world" where
  "raft_storage_open dir sync_writes w =
     (case sys_ok w of (ok, w) \<Rightarrow>                      \<comment> \<open>\<^verbatim>\<open>mkdir\<close> or \<^verbatim>\<open>EEXIST\<close>\<close>
      if \<not> ok then (None, w)
      else case malloc w of (ok, w) \<Rightarrow>
      if \<not> ok then (None, w)
      else case malloc w of (ok, w) \<Rightarrow>                 \<comment> \<open>\<^verbatim>\<open>strdup\<close>\<close>
      if \<not> ok then (None, w)
      else case make_path dir LOG_FILE w of
        (None, w) \<Rightarrow> (None, w)
      | (Some path, w) \<Rightarrow>
          case sys_open_create path w of (ok, w) \<Rightarrow>
          if \<not> ok then (None, w)
          else case sys_ok w of (stat_ok, w) \<Rightarrow>
            case (if stat_ok \<and> file_bytes path w = [] then
                    (case sys_write path 0 (log_header_bytes initial_log_header) w of (n, w) \<Rightarrow>
                       if n \<noteq> Some LOG_HEADER_SIZE then (False, w)
                       else (True, if sync_writes then snd (sys_ok w) else w))
                  else (True, w)) of (ok, w) \<Rightarrow>
            if \<not> ok then (None, w)
            else case count_log_entries path w of (n, w) \<Rightarrow>
              (Some \<lparr>st_data_dir = dir, st_sync_writes = sync_writes, st_log_open = True,
                     st_log_entries = n\<rparr>, w))"

definition raft_storage_save_state ::
  "raft_storage \<Rightarrow> u64 \<Rightarrow> int \<Rightarrow> world \<Rightarrow> raft_status_t \<times> world"
where
  "raft_storage_save_state st current_term voted_for w =
     (let state = \<lparr>sf_magic = RAFT_STATE_MAGIC, sf_version = RAFT_STORAGE_VERSION,
                   sf_crc32 = crc32 (state_crc_input current_term voted_for),
                   sf_current_term = current_term, sf_voted_for = voted_for, sf_padding = 0\<rparr>
      in case make_path (st_data_dir st) STATE_FILE w of
           (None, w) \<Rightarrow> (RAFT_NO_MEMORY, w)
         | (Some path, w) \<Rightarrow>
             write_file_atomic path (state_file_bytes state) (st_sync_writes st) w)"

definition raft_storage_load_state ::
  "raft_storage \<Rightarrow> world \<Rightarrow> raft_status_t \<times> (u64 \<times> int) option \<times> world"
where
  "raft_storage_load_state st w =
     (case make_path (st_data_dir st) STATE_FILE w of
        (None, w) \<Rightarrow> (RAFT_NO_MEMORY, None, w)
      | (Some path, w) \<Rightarrow>
          case sys_open_read path w of
            (Open_enoent, w) \<Rightarrow> (RAFT_NOT_FOUND, None, w)
          | (Open_error, w) \<Rightarrow> (RAFT_IO_ERROR, None, w)
          | (Open_ok, w) \<Rightarrow>
              case read_full (file_bytes path w) STATE_FILE_SIZE w of
                (None, w) \<Rightarrow> (RAFT_IO_ERROR, None, w)
              | (Some bs, w) \<Rightarrow>
                  let state = state_file_of bs in
                  if sf_magic state \<noteq> RAFT_STATE_MAGIC then (RAFT_CORRUPTION, None, w)
                  else if sf_version state \<noteq> RAFT_STORAGE_VERSION then (RAFT_CORRUPTION, None, w)
                  else if sf_crc32 state \<noteq> crc32 (state_crc_input (sf_current_term state) (sf_voted_for state))
                  then (RAFT_CORRUPTION, None, w)
                  else (RAFT_OK, Some (sf_current_term state, sf_voted_for state), w))"

text \<open>The record written for an entry: its lengths are truncated to 32 bits.\<close>

definition record_of_entry :: "raft_entry \<Rightarrow> log_record" where
  "record_of_entry e =
     \<lparr>lr_record_len = of_nat (LOG_RECORD_SIZE + length (e_command e)),
      lr_crc32 = (let crc = crc32 (record_crc_input (e_term e) (e_index e)
                                     (of_nat (length (e_command e))))
                  in if e_command e \<noteq> [] then crc32_update crc (e_command e) else crc),
      lr_term = e_term e, lr_index = e_index e,
      lr_cmd_len = of_nat (length (e_command e))\<rparr>"

definition raft_storage_append_entry ::
  "raft_storage \<Rightarrow> raft_entry \<Rightarrow> world \<Rightarrow> raft_status_t \<times> raft_storage \<times> world"
where
  "raft_storage_append_entry st e w =
     (let path = path_of (st_data_dir st) LOG_FILE in
      if \<not> st_log_open st then (RAFT_IO_ERROR, st, w)
      else case sys_ok w of (ok, w) \<Rightarrow>
      if \<not> ok then (RAFT_IO_ERROR, st, w)
      else case sys_write path (length (file_bytes path w)) (log_record_bytes (record_of_entry e)) w of
        (n, w) \<Rightarrow>
      if n \<noteq> Some LOG_RECORD_SIZE then (RAFT_IO_ERROR, st, w)
      else case (if e_command e \<noteq> []
                 then (case sys_write path (length (file_bytes path w)) (e_command e) w of
                         (n, w) \<Rightarrow> (n = Some (length (e_command e)), w))
                 else (True, w)) of (ok, w) \<Rightarrow>
      if \<not> ok then (RAFT_IO_ERROR, st, w)
      else case (if st_sync_writes st then sys_ok w else (True, w)) of (ok, w) \<Rightarrow>
      if \<not> ok then (RAFT_IO_ERROR, st, w)
      else (RAFT_OK, st\<lparr>st_log_entries := st_log_entries st + 1\<rparr>, w))"

text \<open>The scan of \<^verbatim>\<open>raft_storage_truncate_log\<close>: the position to cut at (-1 after a
  failed \<^verbatim>\<open>lseek\<close>) and the number of records kept, or \<open>None\<close> for an early error.
  A record length below the header size gives a negative skip, so the file position stays
  behind the header.\<close>

function truncate_scan ::
  "u64 \<Rightarrow> bytes \<Rightarrow> nat \<Rightarrow> int \<Rightarrow> u64 \<Rightarrow> world \<Rightarrow> (int \<times> u64) option \<times> world"
where
  "truncate_scan after_index rest pos truncate_pos n w =
     (case read_full rest LOG_RECORD_SIZE w of
        (None, w) \<Rightarrow> (Some (truncate_pos, n), w)
      | (Some bs, w) \<Rightarrow>
          let rec = log_record_of bs in
          if lr_index rec > after_index then (Some (truncate_pos, n), w)
          else case sys_ok w of (ok, w) \<Rightarrow>
            if \<not> ok then (None, w)
            else
              let skip = unat (lr_record_len rec) - LOG_RECORD_SIZE;
                  pos' = pos + LOG_RECORD_SIZE + skip
              in case (if skip > 0 then sys_ok w else (True, w)) of (ok, w) \<Rightarrow>
                if \<not> ok then (None, w)
                else case sys_ok w of (ok, w) \<Rightarrow>
                  truncate_scan after_index (drop (LOG_RECORD_SIZE + skip) rest) pos'
                    (if ok then int pos' else -1) (n + 1) w)"
  by pat_completeness auto
termination
  by (relation "measure (\<lambda>(a, rest, p, t, n, w). length rest)") (auto dest: read_full_Some_sym)

definition raft_storage_truncate_log ::
  "raft_storage \<Rightarrow> u64 \<Rightarrow> world \<Rightarrow> raft_status_t \<times> raft_storage \<times> world"
where
  "raft_storage_truncate_log st after_index w =
     (let path = path_of (st_data_dir st) LOG_FILE in
      if \<not> st_log_open st then (RAFT_IO_ERROR, st, w)
      else case sys_ok w of (ok, w) \<Rightarrow>
      if \<not> ok then (RAFT_IO_ERROR, st, w)
      else case truncate_scan after_index (drop LOG_HEADER_SIZE (file_bytes path w))
                  LOG_HEADER_SIZE (int LOG_HEADER_SIZE) 0 w of
        (None, w) \<Rightarrow> (RAFT_IO_ERROR, st, w)
      | (Some (pos, n), w) \<Rightarrow>
          case (if pos < 0 then (False, w) else sys_ftruncate path (nat pos) w) of (ok, w) \<Rightarrow>
          if \<not> ok then (RAFT_IO_ERROR, st, w)
          else case (if st_sync_writes st then sys_ok w else (True, w)) of (ok, w) \<Rightarrow>
          if \<not> ok then (RAFT_IO_ERROR, st, w)
          else (RAFT_OK, st\<lparr>st_log_entries := n\<rparr>, w))"

definition raft_storage_sync :: "raft_storage \<Rightarrow> world \<Rightarrow> raft_status_t \<times> world" where
  "raft_storage_sync st w =
     (if st_log_open st
      then (case sys_ok w of (ok, w) \<Rightarrow> (if ok then RAFT_OK else RAFT_IO_ERROR, w))
      else (RAFT_OK, w))"

definition raft_storage_get_dir :: "raft_storage \<Rightarrow> string" where
  "raft_storage_get_dir st = st_data_dir st"

text \<open>The callback of \<^verbatim>\<open>raft_storage_iterate_log\<close>: context, world, term, index and
  command to a status, the new context and the new world.\<close>

type_synonym 'c log_iter_fn = "'c \<Rightarrow> world \<Rightarrow> u64 \<Rightarrow> u64 \<Rightarrow> bytes \<Rightarrow> raft_status_t \<times> 'c \<times> world"

function iterate_records ::
  "'c log_iter_fn \<Rightarrow> 'c \<Rightarrow> bytes \<Rightarrow> nat \<Rightarrow> world \<Rightarrow> raft_status_t \<times> 'c \<times> world"
where
  "iterate_records fn ctx rest cmd_buf_size w =
     (case read_full rest LOG_RECORD_SIZE w of
        (None, w) \<Rightarrow> (RAFT_OK, ctx, w)
      | (Some bs, w) \<Rightarrow>
          let rec = log_record_of bs; cmd_len = unat (lr_cmd_len rec);
              rest = drop LOG_RECORD_SIZE rest in
          if unat (lr_record_len rec) < LOG_RECORD_SIZE then (RAFT_CORRUPTION, ctx, w)
          else case (if cmd_len > 0 \<and> cmd_len > cmd_buf_size then malloc w else (True, w)) of
            (ok, w) \<Rightarrow>
          if \<not> ok then (RAFT_NO_MEMORY, ctx, w)
          else case (if cmd_len > 0 then read_full rest cmd_len w else (Some [], w)) of
            (None, w) \<Rightarrow> (RAFT_IO_ERROR, ctx, w)
          | (Some cmd, w) \<Rightarrow>
              let crc = crc32 (record_crc_input (lr_term rec) (lr_index rec) (lr_cmd_len rec));
                  crc = (if cmd_len > 0 then crc32_update crc cmd else crc)
              in if crc \<noteq> lr_crc32 rec then (RAFT_CORRUPTION, ctx, w)
                 else case fn ctx w (lr_term rec) (lr_index rec) cmd of (status, ctx, w) \<Rightarrow>
                   if status \<noteq> RAFT_OK then (status, ctx, w)
                   else iterate_records fn ctx (drop cmd_len rest) (max cmd_buf_size cmd_len) w)"
  by pat_completeness auto
termination
  by (relation "measure (\<lambda>(fn, ctx, rest, s, w). length rest)") (auto dest: read_full_Some_sym)

definition raft_storage_iterate_log ::
  "raft_storage \<Rightarrow> 'c log_iter_fn \<Rightarrow> 'c \<Rightarrow> world \<Rightarrow> raft_status_t \<times> 'c \<times> world"
where
  "raft_storage_iterate_log st fn ctx w =
     (if \<not> st_log_open st then (RAFT_IO_ERROR, ctx, w)
      else case sys_ok w of (ok, w) \<Rightarrow>
      if \<not> ok then (RAFT_IO_ERROR, ctx, w)
      else iterate_records fn ctx
             (drop LOG_HEADER_SIZE (file_bytes (path_of (st_data_dir st) LOG_FILE) w)) 0 w)"

definition raft_storage_get_log_info ::
  "raft_storage \<Rightarrow> world \<Rightarrow> raft_status_t \<times> (u64 \<times> u64 \<times> u64) option \<times> world"
where
  "raft_storage_get_log_info st w =
     (if \<not> st_log_open st then (RAFT_IO_ERROR, None, w)
      else case sys_ok w of (ok, w) \<Rightarrow>
      if \<not> ok then (RAFT_IO_ERROR, None, w)
      else case read_full (file_bytes (path_of (st_data_dir st) LOG_FILE) w) LOG_HEADER_SIZE w of
        (None, w) \<Rightarrow> (RAFT_IO_ERROR, None, w)
      | (Some bs, w) \<Rightarrow>
          let header = log_header_of bs in
          if lh_magic header \<noteq> RAFT_LOG_MAGIC then (RAFT_CORRUPTION, None, w)
          else (RAFT_OK, Some (lh_base_index header, lh_base_term header, st_log_entries st), w))"

declare count_records.simps [simp del] truncate_scan.simps [simp del] iterate_records.simps [simp del]


section \<open>Codecs\<close>

lemma length_images [simp]:
  "length (state_file_bytes s) = 28" "length (log_header_bytes h) = 24"
  "length (log_record_bytes r) = 28"
  by (simp_all add: state_file_bytes_def log_header_bytes_def log_record_bytes_def)

lemma state_file_codec [le_codec]:
  "i32_range (sf_voted_for s) \<Longrightarrow> state_file_of (state_file_bytes s) = s"
  by (simp add: state_file_of_def state_file_bytes_def i32_codec)

lemma log_header_codec [le_codec]: "log_header_of (log_header_bytes h) = h"
  by (simp add: log_header_of_def log_header_bytes_def)

lemma log_record_codec [le_codec]: "log_record_of (log_record_bytes r) = r"
  by (simp add: log_record_of_def log_record_bytes_def)

lemma read_full_ok [simp]:
  "io_ok w \<Longrightarrow> read_full rest n w = (if n \<le> length rest then Some (take n rest) else None, w)"
  by (simp add: read_full_def read_bytes_def min_def)

lemma make_path_ok [simp]: "alloc_ok w \<Longrightarrow> make_path dir f w = (Some (path_of dir f), w)"
  by (simp add: make_path_def)

lemma file_bytes_upd [simp]:
  "file_bytes p (w\<lparr>w_fs := f\<rparr>) = (case f p of None \<Rightarrow> [] | Some bs \<Rightarrow> bs)"
  by (simp add: file_bytes_def)

section \<open>The state file\<close>

text \<open>Whatever the system calls do, the file is either untouched or the whole new image, and
  the status tells which.\<close>

lemma sys_unlink_other: "p \<noteq> q \<Longrightarrow> w_fs (sys_unlink q w) p = w_fs w p"
  by (auto simp: sys_unlink_def dest: sys_ok_frame split: prod.splits)

lemma sys_write_other: "sys_write q off d w = (n, w') \<Longrightarrow> p \<noteq> q \<Longrightarrow> w_fs w' p = w_fs w p"
  by (auto simp: sys_write_def dest: io_next_frame split: prod.splits io_outcome.splits)

lemma sys_write_whole:
  "sys_write q 0 d w = (Some (length d), w') \<Longrightarrow> w_fs w q = Some [] \<Longrightarrow> w_fs w' q = Some d"
  by (auto simp: sys_write_def file_bytes_def dest: io_next_frame arg_cong [where f = length]
      split: prod.splits io_outcome.splits)

lemma write_file_atomic_all_or_nothing:
  assumes "write_file_atomic path d s w = (st, w')"
  shows "if st = RAFT_OK then w_fs w' path = Some d else w_fs w' path = w_fs w path"
proof -
  let ?tmp = "path @ TEMP_SUFFIX"
  have ne: "path \<noteq> ?tmp" by (simp add: TEMP_SUFFIX_def)
  obtain ok1 w1 where 1: "malloc w = (ok1, w1)" by fastforce
  obtain ok2 w2 where 2: "sys_open_trunc ?tmp w1 = (ok2, w2)" by fastforce
  obtain n w3 where 3: "sys_write ?tmp 0 d w2 = (n, w3)" by fastforce
  obtain ok4 w4 where 4: "(if s then sys_ok w3 else (True, w3)) = (ok4, w4)" by fastforce
  obtain ok5 w5 where 5: "sys_rename ?tmp path w4 = (ok5, w5)" by fastforce
  have fs1: "w_fs w1 = w_fs w" using malloc_frame [OF 1] by simp
  have fs2: "w_fs w2 path = w_fs w path" "ok2 \<Longrightarrow> w_fs w2 ?tmp = Some []"
    using 2 ne fs1 by (auto simp: sys_open_trunc_def dest: sys_ok_frame split: prod.splits if_splits)
  have fs3: "w_fs w3 path = w_fs w path" using sys_write_other [OF 3 ne] fs2 by simp
  have new3: "w_fs w3 ?tmp = Some d" if "ok2" "n = Some (length d)"
    using sys_write_whole [of ?tmp d w2 w3] 3 fs2 that by simp
  have fs4: "w_fs w4 = w_fs w3" using 4 by (auto dest: sys_ok_frame split: if_splits)
  have fs5: "ok5 \<Longrightarrow> w_fs w5 path = w_fs w4 ?tmp" "\<not> ok5 \<Longrightarrow> w_fs w5 = w_fs w4"
    using 5 ne by (auto simp: sys_rename_def dest: sys_ok_frame split: prod.splits if_splits)
  have fs: "w_fs w1 path = w_fs w path" "w_fs w2 path = w_fs w path" "w_fs w3 path = w_fs w path"
    "w_fs w4 path = w_fs w path"
    using fs1 fs2(1) fs3 fs4 by simp_all
  have un: "w_fs (sys_unlink ?tmp v) path = w_fs v path" for v
    by (rule sys_unlink_other [OF ne])
  show ?thesis
    using assms new3 fs5 fs fs4
    by (auto simp: write_file_atomic_def 1 2 3 4 5 Let_def un split: if_splits)
qed

definition state_path :: "raft_storage \<Rightarrow> string" where
  "state_path st = path_of (st_data_dir st) STATE_FILE"

definition state_image :: "u64 \<Rightarrow> int \<Rightarrow> bytes" where
  "state_image t v =
     state_file_bytes \<lparr>sf_magic = RAFT_STATE_MAGIC, sf_version = RAFT_STORAGE_VERSION,
       sf_crc32 = crc32 (state_crc_input t v), sf_current_term = t, sf_voted_for = v,
       sf_padding = 0\<rparr>"

lemma save_state_ok:
  assumes "io_ok w" and "alloc_ok w"
  shows "\<exists>w'. raft_storage_save_state st t v w = (RAFT_OK, w') \<and> io_ok w' \<and> alloc_ok w'
    \<and> w_fs w' (state_path st) = Some (state_image t v)"
  using assms
  by (auto simp: raft_storage_save_state_def write_file_atomic_def state_path_def state_image_def
      Let_def TEMP_SUFFIX_def)

lemma load_state_image:
  assumes "io_ok w" and "alloc_ok w" and "w_fs w (state_path st) = Some (state_image t v)"
    and "i32_range v"
  shows "raft_storage_load_state st w = (RAFT_OK, Some (t, v), w)"
  using assms
  by (simp add: raft_storage_load_state_def state_path_def sys_open_read_def file_bytes_def
      state_image_def state_file_codec Let_def)

lemma load_state_absent:
  assumes "alloc_ok w" and "w_fs w (state_path st) = None"
  shows "raft_storage_load_state st w = (RAFT_NOT_FOUND, None, w)"
  using assms by (simp add: raft_storage_load_state_def state_path_def sys_open_read_def)

text \<open>Saving does not disturb the allocator.\<close>

lemma sys_alloc_frame:
  "io_next w = (x, w') \<Longrightarrow> w_alloc w' = w_alloc w"
  "sys_ok w = (b, w') \<Longrightarrow> w_alloc w' = w_alloc w"
  "sys_open_trunc p w = (b, w') \<Longrightarrow> w_alloc w' = w_alloc w"
  "sys_write p off d w = (r, w') \<Longrightarrow> w_alloc w' = w_alloc w"
  "sys_rename p q w = (b, w') \<Longrightarrow> w_alloc w' = w_alloc w"
  "w_alloc (sys_unlink p w) = w_alloc w"
  by (auto simp: io_next_def sys_ok_def sys_open_trunc_def sys_write_def sys_rename_def sys_unlink_def
      split: list.splits prod.splits if_splits io_outcome.splits)

lemma write_file_atomic_alloc:
  assumes "write_file_atomic path d s w = (st, w')" and "alloc_ok w"
  shows "alloc_ok w'"
proof -
  let ?tmp = "path @ TEMP_SUFFIX"
  obtain ok2 w2 where 2: "sys_open_trunc ?tmp w = (ok2, w2)" by fastforce
  obtain n w3 where 3: "sys_write ?tmp 0 d w2 = (n, w3)" by fastforce
  obtain ok4 w4 where 4: "(if s then sys_ok w3 else (True, w3)) = (ok4, w4)" by fastforce
  obtain ok5 w5 where 5: "sys_rename ?tmp path w4 = (ok5, w5)" by fastforce
  have "w_alloc w2 = []" "w_alloc w3 = []" "w_alloc w4 = []" "w_alloc w5 = []"
    using assms(2) sys_alloc_frame(3) [OF 2] sys_alloc_frame(4) [OF 3] sys_alloc_frame(5) [OF 5] 4
    by (auto simp: alloc_ok_def dest: sys_alloc_frame(2) split: if_splits)
  then show ?thesis
    using assms
    by (auto simp: write_file_atomic_def 2 3 4 5 Let_def alloc_ok_def [of w'] sys_alloc_frame(6) split: if_splits)
qed

lemma save_state_alloc:
  "raft_storage_save_state st t v w = (s, w') \<Longrightarrow> alloc_ok w \<Longrightarrow> alloc_ok w'"
  by (auto simp: raft_storage_save_state_def Let_def intro: write_file_atomic_alloc)

section \<open>The log file\<close>

text \<open>The image of an entry in the log file, and of a whole log.\<close>

definition record_image :: "raft_entry \<Rightarrow> bytes" where
  "record_image e = log_record_bytes (record_of_entry e) @ e_command e"

definition log_image :: "raft_entry list \<Rightarrow> bytes" where
  "log_image es = log_header_bytes initial_log_header @ concat (map record_image es)"

definition log_path :: "raft_storage \<Rightarrow> string" where
  "log_path st = path_of (st_data_dir st) LOG_FILE"

text \<open>A command whose record length fits the 32-bit fields.\<close>

definition fits :: "raft_entry \<Rightarrow> bool" where
  "fits e \<longleftrightarrow> length (e_command e) + LOG_RECORD_SIZE < 2 ^ 32"

lemma append_entry_ok:
  assumes "io_ok w" and "st_log_open st" and "w_fs w (log_path st) = Some bs"
  shows "raft_storage_append_entry st e w =
     (RAFT_OK, st\<lparr>st_log_entries := st_log_entries st + 1\<rparr>,
      w\<lparr>w_fs := (w_fs w)(log_path st \<mapsto> bs @ record_image e)\<rparr>)"
  using assms
  by (simp add: raft_storage_append_entry_def log_path_def file_bytes_def record_image_def Let_def)

lemma crc32_update_Nil: "crc32_update c [] = c"
  by (simp add: crc32_update_def)

text \<open>Reading one intact record calls the callback with its entry and goes on behind it.\<close>

lemma iterate_records_image:
  assumes "io_ok w" and "alloc_ok w" and fits: "fits e"
  shows "iterate_records fn ctx (record_image e @ rest) s w =
     (case fn ctx w (e_term e) (e_index e) (e_command e) of (status, ctx, w) \<Rightarrow>
        if status \<noteq> RAFT_OK then (status, ctx, w)
        else iterate_records fn ctx rest (max s (length (e_command e))) w)"
proof -
  have len: "unat (of_nat (length (e_command e)) :: u32) = length (e_command e)"
    using fits by (simp add: fits_def unat_of_nat)
  have rl: "unat (lr_record_len (record_of_entry e)) = 28 + length (e_command e)"
    using fits unat_of_nat [where 'a = 32, of "28 + length (e_command e)"]
    by (simp add: fits_def record_of_entry_def)
  define all where "all = record_image e @ rest"
  have tk: "take 28 all = log_record_bytes (record_of_entry e)"
    and dr: "drop 28 all = e_command e @ rest" and sz: "28 \<le> length all"
    by (simp_all add: all_def record_image_def)
  have fields: "lr_term (record_of_entry e) = e_term e" "lr_index (record_of_entry e) = e_index e"
    "unat (lr_cmd_len (record_of_entry e)) = length (e_command e)"
    by (simp_all add: record_of_entry_def len)
  have crc: "lr_crc32 (record_of_entry e) =
      crc32_update (crc32 (record_crc_input (e_term e) (e_index e) (lr_cmd_len (record_of_entry e))))
        (e_command e)"
    by (simp add: record_of_entry_def Let_def crc32_update_def)
  show ?thesis
    using assms(1,2) sz unfolding all_def [symmetric]
    by (subst iterate_records.simps)
      (simp add: tk dr log_record_codec Let_def rl fields crc crc32_update_Nil split: prod.split)
qed

lemma iterate_records_end:
  "io_ok w \<Longrightarrow> length rest < 28 \<Longrightarrow> iterate_records fn ctx rest s w = (RAFT_OK, ctx, w)"
  by (subst iterate_records.simps) simp

section \<open>Properties\<close>

definition sample_storage :: raft_storage where
  "sample_storage = \<lparr>st_data_dir = ''d'', st_sync_writes = True, st_log_open = True, st_log_entries = 0\<rparr>"

text \<open>Term and vote round-trip through the state file: what \<^verbatim>\<open>raft_storage_save_state\<close> wrote, \<^verbatim>\<open>raft_storage_load_state\<close> returns.\<close>

theorem raft_storage_state_roundtrip:
  assumes "io_ok w" and "alloc_ok w" and "i32_range v"
  shows "\<exists>w'. raft_storage_save_state st t v w = (RAFT_OK, w') \<and>
    raft_storage_load_state st w' = (RAFT_OK, Some (t, v), w')"
  using save_state_ok [OF assms(1,2), of st t v] load_state_image [OF _ _ _ assms(3)] by blast

theorem raft_storage_state_roundtrip_witness:
  "\<exists>w'. raft_storage_save_state sample_storage 5 (-1) quiet_world = (RAFT_OK, w') \<and>
     raft_storage_load_state sample_storage w' = (RAFT_OK, Some (5, -1), w')"
  by (rule raft_storage_state_roundtrip) (simp_all add: i32_range_def)

text \<open>C19: Whatever allocations and system calls fail, saving the state either succeeds and leaves the complete new image in the state file, or fails and leaves the file as it was.\<close>

theorem save_state_all_or_nothing:
  assumes "raft_storage_save_state st t v w = (s, w')"
  shows "if s = RAFT_OK then w_fs w' (state_path st) = Some (state_image t v)
         else w_fs w' (state_path st) = w_fs w (state_path st)"
proof -
  obtain ok w1 where 1: "malloc w = (ok, w1)" by fastforce
  have "w_fs w1 = w_fs w" using malloc_frame [OF 1] by simp
  then show ?thesis
    using assms write_file_atomic_all_or_nothing [of "state_path st" "state_image t v" "st_sync_writes st" w1 s w']
    by (auto simp: raft_storage_save_state_def make_path_def 1 state_path_def state_image_def Let_def
        split: if_splits)
qed

theorem save_state_all_or_nothing_witness:
  "\<exists>s w'. raft_storage_save_state sample_storage 5 1 (quiet_world\<lparr>w_io := [Io_ok, Io_short 7]\<rparr>) = (s, w') \<and>
     (if s = RAFT_OK then w_fs w' (state_path sample_storage) = Some (state_image 5 1)
      else w_fs w' (state_path sample_storage) = None)"
proof -
  obtain s w' where "raft_storage_save_state sample_storage 5 1 (quiet_world\<lparr>w_io := [Io_ok, Io_short 7]\<rparr>) = (s, w')"
    by fastforce
  then show ?thesis using save_state_all_or_nothing [of sample_storage 5 1 "quiet_world\<lparr>w_io := [Io_ok, Io_short 7]\<rparr>"]
    by (auto simp: quiet_world_def)
qed

end
