(* ===== verification/Raft_Rpc.thy ===== *)
theory Raft_Rpc
  imports Raft_Types
begin

text \<open>
  The RPC messages (\<^verbatim>\<open>consensus/src/rpc.h\<close>). Each C struct is a record without its
  \<^verbatim>\<open>type\<close> tag, which is the constructor of \<open>raft_msg\<close>; a buffer whose tag is none
  of the enumerators is \<open>UnknownMsg\<close>. An AppendEntries message carries, behind its header,
  the serialised entries as raw bytes. The sizes are those of the structs on LP64.
\<close>

record raft_request_vote =
  rv_term :: u64
  rv_candidate_id :: int
  rv_last_log_index :: u64
  rv_last_log_term :: u64

record raft_request_vote_response =
  rvr_term :: u64
  rvr_vote_granted :: bool

record raft_append_entries =
  ae_term :: u64
  ae_leader_id :: int
  ae_prev_log_index :: u64
  ae_prev_log_term :: u64
  ae_leader_commit :: u64
  ae_entries_count :: u32

record raft_append_entries_response =
  aer_term :: u64
  aer_success :: bool
  aer_match_index :: u64

record raft_install_snapshot =
  is_term :: u64
  is_leader_id :: int
  is_last_index :: u64
  is_last_term :: u64
  is_offset :: u64
  is_data_len :: u32
  is_done :: bool

record raft_install_snapshot_response =
  isr_term :: u64
  isr_success :: bool

record raft_pre_vote =
  pv_term :: u64
  pv_candidate_id :: int
  pv_last_log_index :: u64
  pv_last_log_term :: u64

record raft_pre_vote_response =
  pvr_term :: u64
  pvr_vote_granted :: bool

record raft_timeout_now =
  tn_term :: u64
  tn_leader_id :: int

datatype raft_msg =
    RequestVote raft_request_vote
  | RequestVoteResponse raft_request_vote_response
  | AppendEntries raft_append_entries bytes
  | AppendEntriesResponse raft_append_entries_response
  | InstallSnapshot raft_install_snapshot bytes
  | InstallSnapshotResponse raft_install_snapshot_response
  | PreVote raft_pre_vote
  | PreVoteResponse raft_pre_vote_response
  | TimeoutNow raft_timeout_now
  | UnknownMsg u32 bytes

definition SIZEOF_MSG_TYPE :: nat where "SIZEOF_MSG_TYPE = 4"
definition SIZEOF_REQUEST_VOTE :: nat where "SIZEOF_REQUEST_VOTE = 40"
definition SIZEOF_REQUEST_VOTE_RESPONSE :: nat where "SIZEOF_REQUEST_VOTE_RESPONSE = 24"
definition SIZEOF_APPEND_ENTRIES :: nat where "SIZEOF_APPEND_ENTRIES = 56"
definition SIZEOF_APPEND_ENTRIES_RESPONSE :: nat where "SIZEOF_APPEND_ENTRIES_RESPONSE = 32"
definition SIZEOF_PRE_VOTE :: nat where "SIZEOF_PRE_VOTE = 40"
definition SIZEOF_PRE_VOTE_RESPONSE :: nat where "SIZEOF_PRE_VOTE_RESPONSE = 24"
definition SIZEOF_TIMEOUT_NOW :: nat where "SIZEOF_TIMEOUT_NOW = 24"

lemmas rpc_sizes [simp] =
  SIZEOF_MSG_TYPE_def SIZEOF_REQUEST_VOTE_def SIZEOF_REQUEST_VOTE_RESPONSE_def
  SIZEOF_APPEND_ENTRIES_def SIZEOF_APPEND_ENTRIES_RESPONSE_def SIZEOF_PRE_VOTE_def
  SIZEOF_PRE_VOTE_RESPONSE_def SIZEOF_TIMEOUT_NOW_def

text \<open>The length with which the senders of the code pass a message to \<^verbatim>\<open>send_fn\<close>.\<close>

fun sent_len :: "raft_msg \<Rightarrow> nat" where
  "sent_len (RequestVote r) = SIZEOF_REQUEST_VOTE"
| "sent_len (RequestVoteResponse r) = SIZEOF_REQUEST_VOTE_RESPONSE"
| "sent_len (AppendEntries r p) = SIZEOF_APPEND_ENTRIES + length p"
| "sent_len (AppendEntriesResponse r) = SIZEOF_APPEND_ENTRIES_RESPONSE"
| "sent_len (PreVote r) = SIZEOF_PRE_VOTE"
| "sent_len (PreVoteResponse r) = SIZEOF_PRE_VOTE_RESPONSE"
| "sent_len (TimeoutNow r) = SIZEOF_TIMEOUT_NOW"
| "sent_len (InstallSnapshot r d) = 56 + length d"
| "sent_len (InstallSnapshotResponse r) = 24"
| "sent_len (UnknownMsg t d) = SIZEOF_MSG_TYPE + length d"

end
