(* ===== verification/Raft_Node.thy ===== *)
theory Raft_Node
  imports Raft_Log Raft_Storage Raft_Rpc
begin

text \<open>
  The node structure (\<^verbatim>\<open>consensus/src/raft.h\<close>) and the parts of
  \<^verbatim>\<open>raft.c\<close> and \<^verbatim>\<open>timer.c\<close> that every other component uses.

  The nested structs \<^verbatim>\<open>persistent\<close>, \<^verbatim>\<open>volatile_state\<close> and
  \<^verbatim>\<open>leader_state\<close> are flattened. The two callbacks are user code: the model keeps
  whether they are set, and records every call in order, the entries given to
  \<^verbatim>\<open>apply_fn\<close> in \<open>applied\<close> and the messages given to \<^verbatim>\<open>send_fn\<close> in
  \<open>outbox\<close>. The callbacks are assumed not to call back into the same node. The field
  \<open>wld\<close> is the environment of the node (\<open>C_Runtime\<close>). The functions are
  modelled for non-null pointers: the guards \<^verbatim>\<open>if (!node)\<close> at the head of the C functions
  return before anything happens.
\<close>

record raft_node =
  node_id :: int
  num_nodes :: int
  has_apply_fn :: bool
  has_send_fn :: bool
  role :: raft_role_t
  current_term :: u64
  voted_for :: int
  commit_index :: u64
  last_applied :: u64
  next_index :: "u64 list option"
  match_index :: "u64 list option"
  log :: raft_log
  running :: bool
  current_leader :: int
  votes_received :: int
  votes_granted :: "bool list"
  election_timeout_ms :: u64
  election_timer_ms :: u64
  heartbeat_timer_ms :: u64
  storage :: "raft_storage option"
  data_dir :: "string option"
  applied :: "raft_entry list"
  outbox :: "(int \<times> raft_msg) list"
  wld :: world

section \<open>Calls of the callbacks, array accesses\<close>

definition send_fn :: "int \<Rightarrow> raft_msg \<Rightarrow> raft_node \<Rightarrow> raft_node" where
  "send_fn peer m node = node\<lparr>outbox := outbox node @ [(peer, m)]\<rparr>"

text \<open>\<^verbatim>\<open>if (node->send_fn) for (i = 0; i < num_nodes; i++) if (i != node_id) send\<close>\<close>

definition send_to_peers :: "raft_msg \<Rightarrow> raft_node \<Rightarrow> raft_node" where
  "send_to_peers m node =
     (if has_send_fn node
      then node\<lparr>outbox := outbox node @
             map (\<lambda>i. (i, m)) (filter (\<lambda>i. i \<noteq> node_id node) [0..num_nodes node - 1])\<rparr>
      else node)"

text \<open>Indexed access with \<^verbatim>\<open>int32_t\<close> indices; out of range is undefined behaviour.\<close>

definition arr_get :: "'a list \<Rightarrow> int \<Rightarrow> 'a option" where
  "arr_get xs i = (if 0 \<le> i \<and> nat i < length xs then Some (xs ! nat i) else None)"

definition arr_set :: "'a list \<Rightarrow> int \<Rightarrow> 'a \<Rightarrow> 'a list option" where
  "arr_set xs i v = (if 0 \<le> i \<and> nat i < length xs then Some (xs[nat i := v]) else None)"

text \<open>\<^verbatim>\<open>memset(flags, 0, n * sizeof(bool))\<close>.\<close>

definition clear_flags :: "bool list \<Rightarrow> int \<Rightarrow> bool list option" where
  "clear_flags fs n =
     (if nat n \<le> length fs then Some (replicate (nat n) False @ drop (nat n) fs) else None)"

section \<open>Timers\<close>

definition raft_timer_seed :: "u32 \<Rightarrow> world \<Rightarrow> world" where
  "raft_timer_seed seed w = w\<lparr>w_seed := seed, w_seeded := True\<rparr>"

definition raft_random_election_timeout :: "world \<Rightarrow> u64 \<times> world" where
  "raft_random_election_timeout w =
     (let w = (if w_seeded w then w else w\<lparr>w_seeded := True\<rparr>);
          range = RAFT_ELECTION_TIMEOUT_MAX_MS - RAFT_ELECTION_TIMEOUT_MIN_MS
      in case rand w of (r, w) \<Rightarrow>
           (of_nat RAFT_ELECTION_TIMEOUT_MIN_MS + of_nat (r mod (range + 1)), w))"

definition raft_reset_election_timer :: "raft_node \<Rightarrow> raft_node" where
  "raft_reset_election_timer node =
     (case raft_random_election_timeout (wld node) of (t, w) \<Rightarrow>
        node\<lparr>election_timer_ms := 0, election_timeout_ms := t, wld := w\<rparr>)"

section \<open>Becoming leader\<close>

definition raft_become_leader :: "raft_node \<Rightarrow> raft_status_t \<times> raft_node" where
  "raft_become_leader node =
     (let node = node\<lparr>role := RAFT_LEADER, current_leader := node_id node\<rparr> in
      case malloc (wld node) of (ok1, w) \<Rightarrow>
      case malloc w of (ok2, w) \<Rightarrow>
      let node = node\<lparr>wld := w\<rparr> in
      if \<not> ok1 \<or> \<not> ok2 then
        (RAFT_NO_MEMORY, node\<lparr>next_index := None, match_index := None\<rparr>)
      else
        let last_index = raft_log_last_index (log node);
            n = nat (num_nodes node);
            node = node\<lparr>next_index := Some (replicate n (last_index + 1)),
                        match_index := Some (replicate n 0)\<rparr>
        in (RAFT_OK,
            if num_nodes node = 1 then node\<lparr>commit_index := last_index\<rparr> else node))"

section \<open>Applying committed entries\<close>

definition apply_one :: "raft_node \<Rightarrow> raft_node" where
  "apply_one node =
     (let node = node\<lparr>last_applied := last_applied node + 1\<rparr>
      in case raft_log_get (log node) (last_applied node) of
           None \<Rightarrow> node
         | Some e \<Rightarrow> node\<lparr>applied := applied node @ [e]\<rparr>)"

lemma apply_one_fields [simp]:
  "last_applied (apply_one n) = last_applied n + 1" "commit_index (apply_one n) = commit_index n"
  "log (apply_one n) = log n" "has_apply_fn (apply_one n) = has_apply_fn n"
  by (simp_all add: apply_one_def Let_def split: option.split)

function apply_loop :: "raft_node \<Rightarrow> raft_node" where
  "apply_loop node =
     (if last_applied node < commit_index node then apply_loop (apply_one node) else node)"
  by pat_completeness auto
termination
proof (relation "measure (\<lambda>n. unat (commit_index n) - unat (last_applied n))", goal_cases)
  case 1
  then show ?case by simp
next
  case (2 n)
  then show ?case using unat_succ_less [OF 2] by (simp add: u64_less)
qed

declare apply_loop.simps [simp del]

definition raft_apply_committed :: "raft_node \<Rightarrow> raft_node" where
  "raft_apply_committed node = (if \<not> has_apply_fn node then node else apply_loop node)"

section \<open>Starting, stopping and queries\<close>

definition raft_start :: "raft_node \<Rightarrow> raft_status_t \<times> raft_node" where
  "raft_start node =
     (if running node then (RAFT_OK, node)
      else let node = node\<lparr>running := True\<rparr>
           in if num_nodes node = 1 then raft_become_leader node else (RAFT_OK, node))"

definition raft_stop :: "raft_node \<Rightarrow> raft_status_t \<times> raft_node" where
  "raft_stop node = (RAFT_OK, node\<lparr>running := False\<rparr>)"

definition raft_is_leader :: "raft_node \<Rightarrow> bool" where
  "raft_is_leader node = (role node = RAFT_LEADER)"

definition raft_get_leader :: "raft_node \<Rightarrow> int" where
  "raft_get_leader node =
     (if role node = RAFT_LEADER then node_id node else current_leader node)"

definition raft_get_term :: "raft_node \<Rightarrow> u64" where
  "raft_get_term node = current_term node"

definition raft_get_role :: "raft_node \<Rightarrow> raft_role_t" where
  "raft_get_role node = role node"

definition raft_get_commit_index :: "raft_node \<Rightarrow> u64" where
  "raft_get_commit_index node = commit_index node"

definition raft_get_last_applied :: "raft_node \<Rightarrow> u64" where
  "raft_get_last_applied node = last_applied node"

definition raft_get_log :: "raft_node \<Rightarrow> raft_log" where
  "raft_get_log node = log node"

section \<open>Properties\<close>

lemma raft_random_election_timeout_range:
  assumes "raft_random_election_timeout w = (t, w')"
  shows "150 \<le> unat t \<and> unat t \<le> 300"
proof -
  obtain r where t: "t = 150 + of_nat (r mod 151)"
    using assms by (auto simp: raft_random_election_timeout_def Let_def split: prod.splits if_splits)
  have "unat (150 + of_nat (r mod 151) :: u64) = 150 + r mod 151"
    using unat_add_of_nat [of 150 "r mod 151"] by (simp add: order.strict_trans [OF mod_less_divisor])
  then show ?thesis using t by simp
qed

lemma raft_random_election_timeout_frame:
  "raft_random_election_timeout w = (t, w') \<Longrightarrow>
     w_io w' = w_io w \<and> w_fs w' = w_fs w \<and> w_alloc w' = w_alloc w"
  by (auto simp: raft_random_election_timeout_def Let_def dest: rand_frame split: prod.splits if_splits)

text \<open>Applying hands over exactly the entries between the old \<^verbatim>\<open>last_applied\<close> and the
  commit index that the log holds, in order, and advances \<^verbatim>\<open>last_applied\<close>.\<close>

lemma apply_loop_spec:
  "applied (apply_loop n) = applied n @
      List.map_filter (raft_log_get (log n))
        (u64_range (last_applied n + 1) (unat (commit_index n) - unat (last_applied n)))
   \<and> last_applied (apply_loop n) = max (last_applied n) (commit_index n)"
proof (induction n rule: apply_loop.induct)
  case (1 n)
  show ?case
  proof (cases "last_applied n < commit_index n")
    case False
    have "apply_loop n = n" using False by (subst apply_loop.simps) simp
    moreover have "unat (commit_index n) - unat (last_applied n) = 0"
      using False by (simp add: u64_less)
    moreover have "max (last_applied n) (commit_index n) = last_applied n"
      using False by (simp add: max_def not_less)
    ultimately show ?thesis by (simp add: map_filter_simps)
  next
    case True
    let ?d = "unat (commit_index n) - unat (last_applied n)"
    have s: "unat (last_applied n + 1) = unat (last_applied n) + 1"
      using True by (rule unat_succ_less)
    obtain d where d: "?d = Suc d" using True by (metis Suc_diff_Suc u64_less)
    then have d1: "unat (commit_index n) - Suc (unat (last_applied n)) = d" by simp
    have le: "last_applied n + 1 \<le> commit_index n" "last_applied n \<le> commit_index n"
      using s True by (simp_all add: u64_le u64_less)
    have "applied (apply_one n) = applied n @ List.map_filter (raft_log_get (log n)) [last_applied n + 1]"
      by (simp add: apply_one_def Let_def map_filter_simps split: option.split)
    then show ?thesis
      using "1.IH" [OF True] True s d d1 le
      by (subst (1 2) apply_loop.simps) (simp add: map_filter_simps max_def split: option.splits)
  qed
qed

text \<open>Applying touches nothing but \<^verbatim>\<open>last_applied\<close> and the state machine.\<close>

lemma apply_loop_shape: "\<exists>la ap. apply_loop n = n\<lparr>last_applied := la, applied := ap\<rparr>"
proof (induction n rule: apply_loop.induct)
  case (1 n)
  have one: "\<exists>ap. apply_one n = n\<lparr>last_applied := last_applied n + 1, applied := ap\<rparr>"
    by (rule exI [of _ "applied (apply_one n)"]) (simp add: apply_one_def Let_def split: option.split)
  show ?case
  proof (cases "last_applied n < commit_index n")
    case True
    then show ?thesis using "1.IH" one by (subst apply_loop.simps) fastforce
  next
    case False
    then have "apply_loop n = n\<lparr>last_applied := last_applied n, applied := applied n\<rparr>"
      by (subst apply_loop.simps) simp
    then show ?thesis by blast
  qed
qed

lemma raft_apply_committed_shape:
  "\<exists>la ap. raft_apply_committed n = n\<lparr>last_applied := la, applied := ap\<rparr>"
proof (cases "has_apply_fn n")
  case True
  then show ?thesis using apply_loop_shape by (simp add: raft_apply_committed_def)
next
  case False
  then have "raft_apply_committed n = n\<lparr>last_applied := last_applied n, applied := applied n\<rparr>"
    by (simp add: raft_apply_committed_def)
  then show ?thesis by blast
qed

lemma raft_apply_committed_frame [simp]:
  "node_id (raft_apply_committed n) = node_id n" "num_nodes (raft_apply_committed n) = num_nodes n"
  "role (raft_apply_committed n) = role n" "current_term (raft_apply_committed n) = current_term n"
  "voted_for (raft_apply_committed n) = voted_for n" "log (raft_apply_committed n) = log n"
  "commit_index (raft_apply_committed n) = commit_index n" "wld (raft_apply_committed n) = wld n"
  "next_index (raft_apply_committed n) = next_index n" "match_index (raft_apply_committed n) = match_index n"
  "votes_received (raft_apply_committed n) = votes_received n" "outbox (raft_apply_committed n) = outbox n"
  "votes_granted (raft_apply_committed n) = votes_granted n" "storage (raft_apply_committed n) = storage n"
  "running (raft_apply_committed n) = running n" "data_dir (raft_apply_committed n) = data_dir n"
  "current_leader (raft_apply_committed n) = current_leader n"
  "has_send_fn (raft_apply_committed n) = has_send_fn n"
  "has_apply_fn (raft_apply_committed n) = has_apply_fn n"
  "election_timer_ms (raft_apply_committed n) = election_timer_ms n"
proof -
  obtain la ap where "raft_apply_committed n = n\<lparr>last_applied := la, applied := ap\<rparr>"
    using raft_apply_committed_shape by blast
  then show "node_id (raft_apply_committed n) = node_id n" "num_nodes (raft_apply_committed n) = num_nodes n"
    "role (raft_apply_committed n) = role n" "current_term (raft_apply_committed n) = current_term n"
    "voted_for (raft_apply_committed n) = voted_for n" "log (raft_apply_committed n) = log n"
    "commit_index (raft_apply_committed n) = commit_index n" "wld (raft_apply_committed n) = wld n"
    "next_index (raft_apply_committed n) = next_index n" "match_index (raft_apply_committed n) = match_index n"
    "votes_received (raft_apply_committed n) = votes_received n" "outbox (raft_apply_committed n) = outbox n"
    "votes_granted (raft_apply_committed n) = votes_granted n" "storage (raft_apply_committed n) = storage n"
    "running (raft_apply_committed n) = running n" "data_dir (raft_apply_committed n) = data_dir n"
    "current_leader (raft_apply_committed n) = current_leader n"
    "has_send_fn (raft_apply_committed n) = has_send_fn n"
    "has_apply_fn (raft_apply_committed n) = has_apply_fn n"
    "election_timer_ms (raft_apply_committed n) = election_timer_ms n"
    by simp_all
qed

section \<open>Sample nodes\<close>

text \<open>A running node with all its arrays, for the concrete instances.\<close>

definition sample_node :: "int \<Rightarrow> int \<Rightarrow> raft_role_t \<Rightarrow> u64 \<Rightarrow> raft_log \<Rightarrow> raft_node" where
  "sample_node i N r t l =
     \<lparr>node_id = i, num_nodes = N, has_apply_fn = True, has_send_fn = True, role = r,
      current_term = t, voted_for = -1, commit_index = 0, last_applied = 0,
      next_index = Some (replicate (nat N) 1), match_index = Some (replicate (nat N) 0), log = l,
      running = True, current_leader = -1, votes_received = 0,
      votes_granted = replicate (nat N) False, election_timeout_ms = 150, election_timer_ms = 0,
      heartbeat_timer_ms = 0, storage = None, data_dir = None, applied = [], outbox = [],
      wld = quiet_world\<rparr>"

lemma sample_node_fields [simp]:
  "node_id (sample_node i N r t l) = i"
  "num_nodes (sample_node i N r t l) = N"
  "has_apply_fn (sample_node i N r t l) = True"
  "has_send_fn (sample_node i N r t l) = True"
  "role (sample_node i N r t l) = r"
  "current_term (sample_node i N r t l) = t"
  "voted_for (sample_node i N r t l) = -1"
  "commit_index (sample_node i N r t l) = 0"
  "last_applied (sample_node i N r t l) = 0"
  "log (sample_node i N r t l) = l"
  "running (sample_node i N r t l) = True"
  "current_leader (sample_node i N r t l) = -1"
  "election_timeout_ms (sample_node i N r t l) = 150"
  "election_timer_ms (sample_node i N r t l) = 0"
  "storage (sample_node i N r t l) = None"
  "outbox (sample_node i N r t l) = []"
  "applied (sample_node i N r t l) = []"
  "wld (sample_node i N r t l) = quiet_world"
  "next_index (sample_node i N r t l) = Some (replicate (nat N) 1)"
  "match_index (sample_node i N r t l) = Some (replicate (nat N) 0)"
  "votes_granted (sample_node i N r t l) = replicate (nat N) False"
  by (simp_all add: sample_node_def)

text \<open>C22: Applying hands exactly the entries after \<^verbatim>\<open>last_applied\<close> up to the commit index to the state machine, in order, and a second call applies nothing more.\<close>

theorem raft_apply_committed_exact:
  assumes "has_apply_fn n"
  shows "applied (raft_apply_committed n) = applied n @
      List.map_filter (raft_log_get (log n))
        (u64_range (last_applied n + 1) (unat (commit_index n) - unat (last_applied n))) \<and>
    last_applied (raft_apply_committed n) = max (last_applied n) (commit_index n) \<and>
    raft_apply_committed (raft_apply_committed n) = raft_apply_committed n"
proof -
  define m where "m = raft_apply_committed n"
  have m: "m = apply_loop n" "has_apply_fn m" "commit_index m = commit_index n" using assms
    by (simp_all add: m_def) (simp add: raft_apply_committed_def)
  have l: "last_applied m = max (last_applied n) (commit_index n)" using apply_loop_spec [of n] m by simp
  then have "\<not> last_applied m < commit_index m" using m by (simp add: not_less)
  then have "raft_apply_committed m = m" using m(2) by (simp add: raft_apply_committed_def apply_loop.simps [of m])
  then show ?thesis using apply_loop_spec [of n] m by (simp add: m_def)
qed

theorem raft_apply_committed_exact_witness:
  "applied (raft_apply_committed ((sample_node 0 3 RAFT_FOLLOWER 1 two_logs)\<lparr>commit_index := 2, last_applied := 1\<rparr>)) =
     [entries two_logs ! 1]"
  using raft_apply_committed_exact [of "(sample_node 0 3 RAFT_FOLLOWER 1 two_logs)\<lparr>commit_index := 2, last_applied := 1\<rparr>"]
  by (simp add: map_filter_simps sample_log_def raft_log_get_def)

end
