(* ===== verification/Raft_Election.thy ===== *)
theory Raft_Election
  imports Raft_Node
begin

text \<open>
  Leader election (\<^verbatim>\<open>consensus/src/election.c\<close>): stepping down, pre-vote, voting,
  counting votes, heartbeats and their handler. A handler returns its status, the new node
  and, where the C code fills a response struct, the response; \<open>None\<close> is undefined
  behaviour (an access outside the \<^verbatim>\<open>votes_granted\<close> array).
\<close>

section \<open>The code\<close>

text \<open>The result of \<^verbatim>\<open>raft_storage_save_state\<close> is ignored by the code.\<close>

definition persist_state :: "raft_node \<Rightarrow> raft_node" where
  "persist_state node =
     (case storage node of
        None \<Rightarrow> node
      | Some st \<Rightarrow>
          (case raft_storage_save_state st (current_term node) (voted_for node) (wld node) of
             (status, w) \<Rightarrow> node\<lparr>wld := w\<rparr>))"

definition raft_step_down :: "raft_node \<Rightarrow> u64 \<Rightarrow> raft_node option" where
  "raft_step_down node new_term = do {
     let node = node\<lparr>role := RAFT_FOLLOWER, current_term := new_term, voted_for := -1,
                     current_leader := -1, votes_received := 0\<rparr>;
     flags \<leftarrow> clear_flags (votes_granted node) (num_nodes node);
     let node = persist_state (node\<lparr>votes_granted := flags\<rparr>);
     Some (raft_reset_election_timer node)
   }"

definition is_log_up_to_date :: "raft_node \<Rightarrow> u64 \<Rightarrow> u64 \<Rightarrow> bool" where
  "is_log_up_to_date node last_log_term last_log_index =
     (let my_last_term = raft_log_last_term (log node);
          my_last_index = raft_log_last_index (log node)
      in if last_log_term > my_last_term then True
         else if last_log_term = my_last_term \<and> last_log_index \<ge> my_last_index then True
         else False)"

definition raft_start_election :: "raft_node \<Rightarrow> (raft_status_t \<times> raft_node) option" where
  "raft_start_election node =
     (if \<not> running node then Some (RAFT_STOPPED, node)
      else do {
        let node = node\<lparr>role := RAFT_CANDIDATE, current_term := current_term node + 1,
                        voted_for := node_id node, current_leader := -1\<rparr>;
        let node = persist_state node;
        flags \<leftarrow> clear_flags (votes_granted node) (num_nodes node);
        flags \<leftarrow> arr_set flags (node_id node) True;
        let node = raft_reset_election_timer (node\<lparr>votes_received := 1, votes_granted := flags\<rparr>);
        if votes_received node > num_nodes node div 2
        then Some (raft_become_leader node)
        else Some (RAFT_OK,
          send_to_peers
            (RequestVote \<lparr>rv_term = current_term node, rv_candidate_id = node_id node,
                          rv_last_log_index = raft_log_last_index (log node),
                          rv_last_log_term = raft_log_last_term (log node)\<rparr>) node)
      })"

definition raft_start_pre_vote :: "raft_node \<Rightarrow> (raft_status_t \<times> raft_node) option" where
  "raft_start_pre_vote node =
     (if \<not> running node then Some (RAFT_STOPPED, node)
      else do {
        let node = node\<lparr>role := RAFT_PRE_CANDIDATE, current_leader := -1\<rparr>;
        flags \<leftarrow> clear_flags (votes_granted node) (num_nodes node);
        flags \<leftarrow> arr_set flags (node_id node) True;
        let node = raft_reset_election_timer (node\<lparr>votes_received := 1, votes_granted := flags\<rparr>);
        if votes_received node > num_nodes node div 2
        then raft_start_election node
        else Some (RAFT_OK,
          send_to_peers
            (PreVote \<lparr>pv_term = current_term node + 1, pv_candidate_id = node_id node,
                      pv_last_log_index = raft_log_last_index (log node),
                      pv_last_log_term = raft_log_last_term (log node)\<rparr>) node)
      })"

definition raft_handle_pre_vote ::
  "raft_node \<Rightarrow> raft_pre_vote \<Rightarrow> raft_status_t \<times> raft_pre_vote_response"
where
  "raft_handle_pre_vote node request =
     (let response = \<lparr>pvr_term = current_term node, pvr_vote_granted = False\<rparr> in
      if current_leader node \<ge> 0 \<and> election_timer_ms node < election_timeout_ms node
      then (RAFT_OK, response)
      else if pv_term request < current_term node then (RAFT_OK, response)
      else if is_log_up_to_date node (pv_last_log_term request) (pv_last_log_index request)
      then (RAFT_OK, response\<lparr>pvr_vote_granted := True\<rparr>)
      else (RAFT_OK, response))"

definition raft_handle_pre_vote_response ::
  "raft_node \<Rightarrow> int \<Rightarrow> raft_pre_vote_response \<Rightarrow> (raft_status_t \<times> raft_node) option"
where
  "raft_handle_pre_vote_response node from_node response =
     (if from_node < 0 \<or> from_node \<ge> num_nodes node then Some (RAFT_INVALID_ARG, node)
      else if role node \<noteq> RAFT_PRE_CANDIDATE then Some (RAFT_OK, node)
      else if pvr_term response > current_term node
      then map_option (Pair RAFT_OK) (raft_step_down node (pvr_term response))
      else if pvr_vote_granted response then do {
        already \<leftarrow> arr_get (votes_granted node) from_node;
        if already then Some (RAFT_OK, node)
        else do {
          flags \<leftarrow> arr_set (votes_granted node) from_node True;
          let node = node\<lparr>votes_granted := flags, votes_received := votes_received node + 1\<rparr>;
          if votes_received node > num_nodes node div 2
          then raft_start_election node
          else Some (RAFT_OK, node)
        }
      }
      else Some (RAFT_OK, node))"

definition raft_handle_timeout_now ::
  "raft_node \<Rightarrow> raft_timeout_now \<Rightarrow> (raft_status_t \<times> raft_node) option"
where
  "raft_handle_timeout_now node request =
     (if \<not> running node then Some (RAFT_STOPPED, node)
      else if role node \<noteq> RAFT_FOLLOWER then Some (RAFT_OK, node)
      else if tn_term request \<noteq> current_term node then Some (RAFT_OK, node)
      else if tn_leader_id request \<noteq> current_leader node then Some (RAFT_OK, node)
      else raft_start_election node)"

definition raft_handle_request_vote ::
  "raft_node \<Rightarrow> raft_request_vote \<Rightarrow>
     (raft_status_t \<times> raft_request_vote_response \<times> raft_node) option"
where
  "raft_handle_request_vote node request = do {
     node \<leftarrow> (if rv_term request > current_term node
               then raft_step_down node (rv_term request) else Some node);
     let response = \<lparr>rvr_term = current_term node, rvr_vote_granted = False\<rparr>;
     if rv_term request < current_term node then Some (RAFT_OK, response, node)
     else
       let can_vote = (voted_for node = -1 \<or> voted_for node = rv_candidate_id request);
           log_ok = is_log_up_to_date node (rv_last_log_term request) (rv_last_log_index request)
       in if can_vote \<and> log_ok
          then Some (RAFT_OK, response\<lparr>rvr_vote_granted := True\<rparr>,
                     raft_reset_election_timer
                       (persist_state (node\<lparr>voted_for := rv_candidate_id request\<rparr>)))
          else Some (RAFT_OK, response, node)
   }"

definition raft_handle_request_vote_response ::
  "raft_node \<Rightarrow> int \<Rightarrow> raft_request_vote_response \<Rightarrow> (raft_status_t \<times> raft_node) option"
where
  "raft_handle_request_vote_response node from_node response =
     (if from_node < 0 \<or> from_node \<ge> num_nodes node then Some (RAFT_INVALID_ARG, node)
      else if role node \<noteq> RAFT_CANDIDATE then Some (RAFT_OK, node)
      else if rvr_term response > current_term node
      then map_option (Pair RAFT_OK) (raft_step_down node (rvr_term response))
      else if rvr_term response < current_term node then Some (RAFT_OK, node)
      else if rvr_vote_granted response then do {
        already \<leftarrow> arr_get (votes_granted node) from_node;
        if already then Some (RAFT_OK, node)
        else do {
          flags \<leftarrow> arr_set (votes_granted node) from_node True;
          let node = node\<lparr>votes_granted := flags, votes_received := votes_received node + 1\<rparr>;
          if votes_received node > num_nodes node div 2
          then Some (raft_become_leader node)
          else Some (RAFT_OK, node)
        }
      }
      else Some (RAFT_OK, node))"

definition raft_handle_append_entries ::
  "raft_node \<Rightarrow> raft_append_entries \<Rightarrow>
     (raft_status_t \<times> raft_append_entries_response \<times> raft_node) option"
where
  "raft_handle_append_entries node request = do {
     node \<leftarrow> (if ae_term request > current_term node
               then raft_step_down node (ae_term request) else Some node);
     let response = \<lparr>aer_term = current_term node, aer_success = False, aer_match_index = 0\<rparr>;
     if ae_term request < current_term node then Some (RAFT_OK, response, node)
     else
       let node = (raft_reset_election_timer node)\<lparr>current_leader := ae_leader_id request\<rparr>;
           node = (if role node = RAFT_CANDIDATE \<or> role node = RAFT_PRE_CANDIDATE
                   then node\<lparr>role := RAFT_FOLLOWER, votes_received := 0\<rparr> else node)
       in if ae_entries_count request = 0 then
            let last_index = raft_log_last_index (log node);
                response = response\<lparr>aer_success := True, aer_match_index := last_index\<rparr>
            in Some (RAFT_OK, response,
                 if ae_leader_commit request > commit_index node
                 then node\<lparr>commit_index := (if ae_leader_commit request < last_index
                                            then ae_leader_commit request else last_index)\<rparr>
                 else node)
          else Some (RAFT_OK, response, node)
   }"

definition raft_send_heartbeats :: "raft_node \<Rightarrow> raft_status_t \<times> raft_node" where
  "raft_send_heartbeats node =
     (if role node \<noteq> RAFT_LEADER then (RAFT_NOT_LEADER, node)
      else if \<not> has_send_fn node then (RAFT_OK, node)
      else (RAFT_OK,
        send_to_peers
          (AppendEntries \<lparr>ae_term = current_term node, ae_leader_id = node_id node,
             ae_prev_log_index = raft_log_last_index (log node),
             ae_prev_log_term = raft_log_last_term (log node),
             ae_leader_commit = commit_index node, ae_entries_count = 0\<rparr> []) node))"

section \<open>Frames\<close>

text \<open>Persisting the state only changes the environment; resetting the timer only the timer
  fields and the environment.\<close>

lemma persist_state_frame [simp]:
  "node_id (persist_state n) = node_id n" "num_nodes (persist_state n) = num_nodes n"
  "has_apply_fn (persist_state n) = has_apply_fn n" "has_send_fn (persist_state n) = has_send_fn n"
  "role (persist_state n) = role n" "current_term (persist_state n) = current_term n"
  "voted_for (persist_state n) = voted_for n" "commit_index (persist_state n) = commit_index n"
  "last_applied (persist_state n) = last_applied n" "next_index (persist_state n) = next_index n"
  "match_index (persist_state n) = match_index n" "log (persist_state n) = log n"
  "running (persist_state n) = running n" "current_leader (persist_state n) = current_leader n"
  "votes_received (persist_state n) = votes_received n"
  "votes_granted (persist_state n) = votes_granted n" "storage (persist_state n) = storage n"
  "data_dir (persist_state n) = data_dir n" "applied (persist_state n) = applied n"
  "outbox (persist_state n) = outbox n"
  "election_timer_ms (persist_state n) = election_timer_ms n"
  "election_timeout_ms (persist_state n) = election_timeout_ms n"
  "heartbeat_timer_ms (persist_state n) = heartbeat_timer_ms n"
  by (simp_all add: persist_state_def split: option.split prod.split)

lemma raft_reset_election_timer_frame [simp]:
  "node_id (raft_reset_election_timer n) = node_id n"
  "num_nodes (raft_reset_election_timer n) = num_nodes n"
  "has_apply_fn (raft_reset_election_timer n) = has_apply_fn n"
  "has_send_fn (raft_reset_election_timer n) = has_send_fn n"
  "role (raft_reset_election_timer n) = role n"
  "current_term (raft_reset_election_timer n) = current_term n"
  "voted_for (raft_reset_election_timer n) = voted_for n"
  "commit_index (raft_reset_election_timer n) = commit_index n"
  "last_applied (raft_reset_election_timer n) = last_applied n"
  "next_index (raft_reset_election_timer n) = next_index n"
  "match_index (raft_reset_election_timer n) = match_index n"
  "log (raft_reset_election_timer n) = log n" "running (raft_reset_election_timer n) = running n"
  "current_leader (raft_reset_election_timer n) = current_leader n"
  "votes_received (raft_reset_election_timer n) = votes_received n"
  "votes_granted (raft_reset_election_timer n) = votes_granted n"
  "storage (raft_reset_election_timer n) = storage n"
  "data_dir (raft_reset_election_timer n) = data_dir n"
  "applied (raft_reset_election_timer n) = applied n"
  "outbox (raft_reset_election_timer n) = outbox n"
  "heartbeat_timer_ms (raft_reset_election_timer n) = heartbeat_timer_ms n"
  "w_fs (wld (raft_reset_election_timer n)) = w_fs (wld n)"
  "w_io (wld (raft_reset_election_timer n)) = w_io (wld n)"
  "w_alloc (wld (raft_reset_election_timer n)) = w_alloc (wld n)"
  by (auto simp: raft_reset_election_timer_def dest: raft_random_election_timeout_frame
      split: prod.split)

lemma raft_become_leader_shape:
  assumes "raft_become_leader n = (st, n')"
  shows "\<exists>ni mi c w. n' = n\<lparr>role := RAFT_LEADER, current_leader := node_id n, next_index := ni,
           match_index := mi, commit_index := c, wld := w\<rparr> \<and> w_fs w = w_fs (wld n) \<and> w_io w = w_io (wld n)"
proof -
  obtain b1 w1 where 1: "malloc (wld n) = (b1, w1)" by fastforce
  obtain b2 w2 where 2: "malloc w1 = (b2, w2)" by fastforce
  have w: "w_fs w2 = w_fs (wld n)" "w_io w2 = w_io (wld n)"
    using malloc_frame [OF 1] malloc_frame [OF 2] by simp_all
  have "n' = n\<lparr>role := RAFT_LEADER, current_leader := node_id n, next_index := next_index n',
           match_index := match_index n', commit_index := commit_index n', wld := w2\<rparr>"
    using assms by (auto simp: raft_become_leader_def 1 2 Let_def split: if_splits)
  then show ?thesis using w by blast
qed

text \<open>With memory available the new leader has its arrays: every follower is to be sent the
  entry after the leader's last one, and nothing is known to be replicated.\<close>

lemma raft_become_leader_ok:
  assumes "alloc_ok (wld n)"
  shows "raft_become_leader n =
    (RAFT_OK, n\<lparr>role := RAFT_LEADER, current_leader := node_id n,
       next_index := Some (replicate (nat (num_nodes n)) (raft_log_last_index (log n) + 1)),
       match_index := Some (replicate (nat (num_nodes n)) 0),
       commit_index := (if num_nodes n = 1 then raft_log_last_index (log n) else commit_index n)\<rparr>)"
  using assms by (simp add: raft_become_leader_def Let_def)

lemma send_to_peers_frame [simp]:
  "node_id (send_to_peers m n) = node_id n" "num_nodes (send_to_peers m n) = num_nodes n"
  "role (send_to_peers m n) = role n" "current_term (send_to_peers m n) = current_term n"
  "voted_for (send_to_peers m n) = voted_for n" "votes_received (send_to_peers m n) = votes_received n"
  "votes_granted (send_to_peers m n) = votes_granted n" "log (send_to_peers m n) = log n"
  "next_index (send_to_peers m n) = next_index n" "match_index (send_to_peers m n) = match_index n"
  "storage (send_to_peers m n) = storage n" "wld (send_to_peers m n) = wld n"
  "commit_index (send_to_peers m n) = commit_index n" "running (send_to_peers m n) = running n"
  "current_leader (send_to_peers m n) = current_leader n" "data_dir (send_to_peers m n) = data_dir n"
  "last_applied (send_to_peers m n) = last_applied n" "applied (send_to_peers m n) = applied n"
  "has_send_fn (send_to_peers m n) = has_send_fn n" "has_apply_fn (send_to_peers m n) = has_apply_fn n"
  by (simp_all add: send_to_peers_def)

lemma send_to_peers_outbox:
  "x \<in> set (outbox (send_to_peers m n)) \<Longrightarrow> x \<in> set (outbox n) \<or> snd x = m \<and> fst x \<noteq> node_id n"
  by (auto simp: send_to_peers_def split: if_splits)

section \<open>The voting invariant\<close>

text \<open>
  \<open>B\<close> is the set of ballots cast so far in the cluster: \<open>(t, v, c)\<close> says that node \<open>v\<close>
  voted for \<open>c\<close> in term \<open>t\<close>. A node keeps faith with it: its recorded vote is a ballot, it
  has no other ballot in its term and none in a later one, a candidate counts each voter once
  and only voters with a ballot for it, and a leader has the ballots of a majority. A one-node
  cluster makes its node leader without a ballot.
\<close>

type_synonym ballots = "(u64 \<times> int \<times> int) set"

definition elected_by :: "ballots \<Rightarrow> int \<Rightarrow> u64 \<Rightarrow> int \<Rightarrow> bool" where
  "elected_by B N t c \<longleftrightarrow>
     N = 1 \<or> (\<exists>Q. Q \<subseteq> {0..<N} \<and> N < 2 * int (card Q) \<and> (\<forall>v\<in>Q. (t, v, c) \<in> B))"

definition candidate_inv :: "ballots \<Rightarrow> raft_node \<Rightarrow> bool" where
  "candidate_inv B n \<longleftrightarrow>
     votes_received n = int (count_true (votes_granted n)) \<and>
     (\<forall>j < length (votes_granted n). votes_granted n ! j \<longrightarrow> (current_term n, int j, node_id n) \<in> B)"

definition vote_inv :: "ballots \<Rightarrow> raft_node \<Rightarrow> bool" where
  "vote_inv B n \<longleftrightarrow>
     0 \<le> node_id n \<and> node_id n < num_nodes n \<and> num_nodes n < 2 ^ 31 \<and>
     length (votes_granted n) = nat (num_nodes n) \<and> i32_range (voted_for n) \<and>
     (voted_for n \<noteq> -1 \<longrightarrow> (current_term n, node_id n, voted_for n) \<in> B) \<and>
     (\<forall>t c. (t, node_id n, c) \<in> B \<longrightarrow>
        c \<noteq> -1 \<and> t \<le> current_term n \<and> (t = current_term n \<longrightarrow> c = voted_for n)) \<and>
     (role n = RAFT_CANDIDATE \<longrightarrow> candidate_inv B n) \<and>
     (role n = RAFT_LEADER \<longrightarrow> elected_by B (num_nodes n) (current_term n) (node_id n))"

definition cast :: "raft_node \<Rightarrow> ballots" where
  "cast n = (if voted_for n = -1 then {} else {(current_term n, node_id n, voted_for n)})"

text \<open>What the voting protocol relies on in a message from \<open>src\<close> to \<open>dst\<close>: a vote request
  names its sender, a granted vote is a ballot for the receiver.\<close>

fun msg_ok :: "ballots \<Rightarrow> int \<Rightarrow> int \<Rightarrow> raft_msg \<Rightarrow> bool" where
  "msg_ok B src dst (RequestVote r) = (rv_candidate_id r = src \<and> 0 \<le> src \<and> i32_range src)"
| "msg_ok B src dst (RequestVoteResponse r) = (rvr_vote_granted r \<longrightarrow> (rvr_term r, src, dst) \<in> B)"
| "msg_ok B src dst m = True"

definition outbox_ok :: "ballots \<Rightarrow> raft_node \<Rightarrow> bool" where
  "outbox_ok B n \<longleftrightarrow> (\<forall>(p, m) \<in> set (outbox n). msg_ok B (node_id n) p m)"

definition node_inv :: "ballots \<Rightarrow> raft_node \<Rightarrow> bool" where
  "node_inv B n \<longleftrightarrow> vote_inv B n \<and> outbox_ok B n"

lemma msg_ok_mono: "msg_ok B s d m \<Longrightarrow> B \<subseteq> B' \<Longrightarrow> msg_ok B' s d m"
  by (cases m) auto

lemma elected_by_mono: "elected_by B N t c \<Longrightarrow> B \<subseteq> B' \<Longrightarrow> elected_by B' N t c"
  unfolding elected_by_def by blast

lemma outbox_ok_mono: "outbox_ok B n \<Longrightarrow> B \<subseteq> B' \<Longrightarrow> outbox_ok B' n"
  by (auto simp: outbox_ok_def intro: msg_ok_mono)

lemma elected_by_count:
  assumes "num_nodes n div 2 < int (count_true (votes_granted n))"
    and "length (votes_granted n) = nat (num_nodes n)"
    and "\<forall>j < length (votes_granted n). votes_granted n ! j \<longrightarrow> (t, int j, c) \<in> B"
  shows "elected_by B (num_nodes n) t c"
proof -
  let ?J = "{j. j < length (votes_granted n) \<and> votes_granted n ! j}"
  have "card (int ` ?J) = count_true (votes_granted n)"
    by (simp add: card_image count_true_card)
  moreover have "int ` ?J \<subseteq> {0..<num_nodes n}" using assms(2) by auto
  moreover have "\<forall>v \<in> int ` ?J. (t, v, c) \<in> B" using assms(3) by auto
  ultimately show ?thesis
    using assms(1) unfolding elected_by_def by (intro disjI2 exI [of _ "int ` ?J"]) auto
qed

text \<open>A step that leaves the ballot of the node, its role and its counters alone.\<close>

lemma vote_inv_frame:
  assumes "vote_inv B n" and "node_id n' = node_id n" "num_nodes n' = num_nodes n"
    "votes_granted n' = votes_granted n" "voted_for n' = voted_for n"
    "current_term n' = current_term n" "votes_received n' = votes_received n" "role n' = role n"
  shows "vote_inv B n'"
  using assms by (simp add: vote_inv_def candidate_inv_def)

lemma vote_inv_cast: "vote_inv B n \<Longrightarrow> B \<union> cast n = B"
  by (auto simp: vote_inv_def cast_def)

text \<open>Falling back to follower is always safe.\<close>

lemma vote_inv_follower:
  assumes "vote_inv B n" and "node_id n' = node_id n" "num_nodes n' = num_nodes n"
    "length (votes_granted n') = length (votes_granted n)" "voted_for n' = voted_for n"
    "current_term n' = current_term n" "role n' \<noteq> RAFT_CANDIDATE" "role n' \<noteq> RAFT_LEADER"
  shows "vote_inv B n'"
  using assms by (simp add: vote_inv_def)

section \<open>Every election handler keeps the voting invariant\<close>

lemma clear_flags_all [simp]:
  "length fs = nat n \<Longrightarrow> clear_flags fs n = Some (replicate (nat n) False)"
  by (simp add: clear_flags_def)

lemma arr_set_Some: "arr_set xs i v = Some ys \<longleftrightarrow> 0 \<le> i \<and> nat i < length xs \<and> ys = xs[nat i := v]"
  by (auto simp: arr_set_def)

lemma arr_get_Some: "arr_get xs i = Some v \<longleftrightarrow> 0 \<le> i \<and> nat i < length xs \<and> v = xs ! nat i"
  by (auto simp: arr_get_def)

lemma raft_step_down_shape:
  assumes "raft_step_down n t = Some n'" and "length (votes_granted n) = nat (num_nodes n)"
  shows "node_id n' = node_id n" "num_nodes n' = num_nodes n" "role n' = RAFT_FOLLOWER"
    "current_term n' = t" "voted_for n' = -1" "current_leader n' = -1" "votes_received n' = 0"
    "votes_granted n' = replicate (nat (num_nodes n)) False" "outbox n' = outbox n"
    "log n' = log n" "commit_index n' = commit_index n" "last_applied n' = last_applied n"
    "storage n' = storage n" "data_dir n' = data_dir n" "has_send_fn n' = has_send_fn n"
    "has_apply_fn n' = has_apply_fn n" "running n' = running n" "applied n' = applied n"
    "next_index n' = next_index n" "match_index n' = match_index n"
  using assms by (auto simp: raft_step_down_def)

lemma raft_step_down_total:
  "length (votes_granted n) = nat (num_nodes n) \<Longrightarrow> \<exists>n'. raft_step_down n t = Some n'"
  by (simp add: raft_step_down_def)

lemma vote_inv_wf:
  "vote_inv B n \<Longrightarrow> length (votes_granted n) = nat (num_nodes n) \<and> 0 \<le> node_id n \<and>
     node_id n < num_nodes n \<and> i32_range (node_id n)"
  by (simp add: vote_inv_def i32_range_def)

lemma i32_range_none [simp]: "i32_range (- 1)"
  by (simp add: i32_range_def)

lemma raft_step_down_votes:
  assumes "node_inv B n" and "raft_step_down n t = Some n'" and "current_term n < t"
  shows "node_inv B n' \<and> current_term n' = t \<and> voted_for n' = -1"
proof -
  have v: "vote_inv B n" and o: "outbox_ok B n" using assms(1) by (simp_all add: node_inv_def)
  note sh = raft_step_down_shape [OF assms(2) conjunct1 [OF vote_inv_wf [OF v]]]
  have "u < t" if "(u, node_id n, c) \<in> B" for u c
    using v that assms(3) order.strict_trans1 unfolding vote_inv_def by blast
  then have "vote_inv B n'" using v by (auto simp: vote_inv_def sh dest: less_imp_le)
  then show ?thesis using o by (simp add: node_inv_def outbox_ok_def sh)
qed

text \<open>A candidate votes for itself in a fresh term.\<close>

lemma vote_inv_new_term:
  assumes inv: "vote_inv B n" and t: "current_term n < t"
    and n': "node_id n' = node_id n" "num_nodes n' = num_nodes n" "current_term n' = t"
      "voted_for n' = node_id n" "votes_received n' = 1"
      "votes_granted n' = (replicate (nat (num_nodes n)) False)[nat (node_id n) := True]"
      "role n' = RAFT_CANDIDATE \<or> num_nodes n = 1"
  shows "vote_inv (B \<union> cast n') n'"
proof -
  have id: "0 \<le> node_id n" "node_id n < num_nodes n" "i32_range (node_id n)"
    using vote_inv_wf [OF inv] by simp_all
  have "count_true (votes_granted n') = 1"
    using id n'(6) count_true_update [of "nat (node_id n)" "replicate (nat (num_nodes n)) False"] by simp
  moreover have "\<forall>j < length (votes_granted n'). votes_granted n' ! j \<longrightarrow> j = nat (node_id n)"
    by (metis length_list_update length_replicate n'(6) nth_list_update_neq nth_replicate)
  ultimately have "candidate_inv (B \<union> cast n') n'"
    using id n' by (auto simp: candidate_inv_def cast_def)
  moreover have old: "c \<noteq> -1 \<and> u < t" if "(u, node_id n, c) \<in> B" for u c
    using inv that t order.strict_trans1 unfolding vote_inv_def by blast
  have cast: "cast n' = {(t, node_id n, node_id n)}" using id n' by (simp add: cast_def)
  have "c \<noteq> -1 \<and> u \<le> t \<and> (u = t \<longrightarrow> c = node_id n)" if "(u, node_id n, c) \<in> B \<union> cast n'" for u c
    using that old [of u c] id unfolding cast by auto
  moreover have "num_nodes n < 2 ^ 31" using inv by (simp add: vote_inv_def)
  moreover have "role n' = RAFT_LEADER \<longrightarrow> elected_by (B \<union> cast n') (num_nodes n) t (node_id n)"
    using n'(7) by (auto simp: elected_by_def)
  ultimately show ?thesis
    unfolding vote_inv_def using id n' cast by simp blast
qed

lemma u64_less_succ: "(a :: u64) \<noteq> - 1 \<Longrightarrow> a < a + 1"
proof -
  assume "a \<noteq> - 1"
  moreover have "unat (- 1 :: u64) = 2 ^ 64 - 1"
    by (simp add: unsigned_minus_1_eq_mask mask_eq_exp_minus_1)
  ultimately have "unat a \<noteq> 2 ^ 64 - 1" by (simp add: u64_eq_iff)
  then have "unat a + 1 < 2 ^ 64" using u64_bound [of a] by (simp del: u64_bound)
  from unat_succ [OF this] show "a < a + 1" by (simp add: u64_less)
qed

lemma raft_start_election_shape:
  assumes "raft_start_election n = Some (st, n')" and "running n"
    and "length (votes_granted n) = nat (num_nodes n)"
  shows "node_id n' = node_id n \<and> num_nodes n' = num_nodes n \<and> current_term n' = current_term n + 1 \<and>
    voted_for n' = node_id n \<and> votes_received n' = 1 \<and>
    votes_granted n' = (replicate (nat (num_nodes n)) False)[nat (node_id n) := True] \<and>
    (role n' = RAFT_CANDIDATE \<or> role n' = RAFT_LEADER \<and> num_nodes n \<le> 1) \<and>
    (\<forall>x \<in> set (outbox n'). x \<in> set (outbox n) \<or> (\<exists>r. snd x = RequestVote r \<and> rv_candidate_id r = node_id n))"
proof -
  define m where "m = raft_reset_election_timer ((persist_state (n\<lparr>role := RAFT_CANDIDATE,
     current_term := current_term n + 1, voted_for := node_id n, current_leader := -1\<rparr>))
       \<lparr>votes_received := 1, votes_granted := (replicate (nat (num_nodes n)) False)[nat (node_id n) := True]\<rparr>)"
  have m: "node_id m = node_id n" "num_nodes m = num_nodes n" "current_term m = current_term n + 1"
    "voted_for m = node_id n" "votes_received m = 1" "role m = RAFT_CANDIDATE" "outbox m = outbox n"
    "votes_granted m = (replicate (nat (num_nodes n)) False)[nat (node_id n) := True]"
    by (simp_all add: m_def)
  show ?thesis
  proof (cases "num_nodes n div 2 < 1")
    case True
    then have "raft_become_leader m = (st, n')"
      using assms by (auto simp: raft_start_election_def arr_set_Some m_def Let_def bind_eq_Some_conv)
    from raft_become_leader_shape [OF this] m True show ?thesis by auto
  next
    case False
    then have "n' = send_to_peers (RequestVote \<lparr>rv_term = current_term m, rv_candidate_id = node_id m,
        rv_last_log_index = raft_log_last_index (log m), rv_last_log_term = raft_log_last_term (log m)\<rparr>) m"
      using assms by (auto simp: raft_start_election_def arr_set_Some m_def Let_def bind_eq_Some_conv)
    then show ?thesis using m by (auto dest: send_to_peers_outbox)
  qed
qed

lemma raft_start_election_votes:
  assumes inv: "node_inv B n" and eq: "raft_start_election n = Some (st, n')"
    and wrap: "current_term n \<noteq> - 1"
  shows "node_inv (B \<union> cast n') n'"
proof (cases "running n")
  case False
  then have "n' = n" using eq by (simp add: raft_start_election_def)
  then show ?thesis using inv vote_inv_cast [of B n] by (simp add: node_inv_def)
next
  case True
  have v: "vote_inv B n" and o: "outbox_ok B n" using inv by (simp_all add: node_inv_def)
  note sh = raft_start_election_shape [OF eq True] and wf = vote_inv_wf [OF v]
  have "vote_inv (B \<union> cast n') n'"
    by (rule vote_inv_new_term [OF v u64_less_succ [OF wrap]]) (use sh wf in auto)
  moreover have "outbox_ok (B \<union> cast n') n'"
    using outbox_ok_mono [OF o, of "B \<union> cast n'"] sh wf by (fastforce simp: outbox_ok_def)
  ultimately show ?thesis by (simp add: node_inv_def)
qed

text \<open>Counting one more justified vote, and winning with it.\<close>

lemma vote_inv_leader:
  assumes "vote_inv B n" and "elected_by B (num_nodes n) (current_term n) (node_id n)"
    and "node_id n' = node_id n" "num_nodes n' = num_nodes n" "votes_granted n' = votes_granted n"
    "voted_for n' = voted_for n" "current_term n' = current_term n" "role n' = RAFT_LEADER"
  shows "vote_inv B n'"
  using assms by (simp add: vote_inv_def)

lemma raft_handle_request_vote_response_cases:
  assumes eq: "raft_handle_request_vote_response n from r = Some (st, n')"
    and m: "m = n\<lparr>votes_granted := (votes_granted n)[nat from := True], votes_received := votes_received n + 1\<rparr>"
  obtains (same) "n' = n" | (newer) "current_term n < rvr_term r" "raft_step_down n (rvr_term r) = Some n'"
    | (count) "role n = RAFT_CANDIDATE" "rvr_term r = current_term n" "rvr_vote_granted r" "0 \<le> from"
      "nat from < length (votes_granted n)" "\<not> votes_granted n ! nat from"
      "n' = m \<or> num_nodes m div 2 < votes_received m \<and> raft_become_leader m = (st, n')"
proof -
  consider (a) "n' = n" | (b) "current_term n < rvr_term r" "raft_step_down n (rvr_term r) = Some n'"
    | (c) "role n = RAFT_CANDIDATE" "\<not> rvr_term r < current_term n" "\<not> current_term n < rvr_term r"
      "rvr_vote_granted r" "\<not> from < 0"
    using eq by (fastforce simp: raft_handle_request_vote_response_def split: if_splits)
  then show thesis
  proof cases
    case c
    then have "n' = n \<or> nat from < length (votes_granted n) \<and> \<not> votes_granted n ! nat from \<and>
        (n' = m \<or> num_nodes m div 2 < votes_received m \<and> raft_become_leader m = (st, n'))"
      using eq by (simp add: raft_handle_request_vote_response_def arr_get_def arr_set_def Let_def
          m [symmetric] split: if_splits) (simp add: m)
    moreover have "rvr_term r = current_term n" "0 \<le> from" using c by simp_all
    ultimately show ?thesis using same count c by blast
  qed (use same newer in blast)+
qed

lemma raft_handle_request_vote_response_votes:
  assumes inv: "node_inv B n" and ok: "msg_ok B from (node_id n) (RequestVoteResponse r)"
    and eq: "raft_handle_request_vote_response n from r = Some (st, n')"
  shows "node_inv B n'"
proof -
  have v: "vote_inv B n" and o: "outbox_ok B n" using inv by (simp_all add: node_inv_def)
  note wf = vote_inv_wf [OF v]
  define m where "m = n\<lparr>votes_granted := (votes_granted n)[nat from := True], votes_received := votes_received n + 1\<rparr>"
  consider "n' = n" | "current_term n < rvr_term r" "raft_step_down n (rvr_term r) = Some n'"
    | "role n = RAFT_CANDIDATE" "rvr_term r = current_term n" "rvr_vote_granted r" "0 \<le> from"
      "nat from < length (votes_granted n)" "\<not> votes_granted n ! nat from"
      "n' = m \<or> num_nodes m div 2 < votes_received m \<and> raft_become_leader m = (st, n')"
    by (rule raft_handle_request_vote_response_cases [OF eq m_def])
  then show ?thesis
  proof cases
    case 1
    then show ?thesis using inv by simp
  next
    case 2
    then show ?thesis using raft_step_down_votes [OF inv] by blast
  next
    case 3
    have m: "node_id m = node_id n" "num_nodes m = num_nodes n" "role m = role n"
      "current_term m = current_term n" "outbox m = outbox n" "voted_for m = voted_for n"
      "length (votes_granted m) = length (votes_granted n)"
      by (simp_all add: m_def)
    have "(current_term n, from, node_id n) \<in> B" using ok 3 by simp
    then have c: "candidate_inv B m"
      using v 3 by (auto simp: candidate_inv_def vote_inv_def m_def count_true_update nth_list_update)
    then have vm: "vote_inv B m" using v 3 m by (auto simp: vote_inv_def)
    show ?thesis
    proof (cases "n' = m")
      case True
      then show ?thesis using vm o m by (simp add: node_inv_def outbox_ok_def)
    next
      case False
      then have win: "num_nodes m div 2 < votes_received m" "raft_become_leader m = (st, n')"
        using 3 by blast+
      have "elected_by B (num_nodes m) (current_term m) (node_id m)"
        using c win(1) wf m by (intro elected_by_count) (auto simp: candidate_inv_def)
      moreover obtain ni mi c w where "n' = m\<lparr>role := RAFT_LEADER, current_leader := node_id m,
          next_index := ni, match_index := mi, commit_index := c, wld := w\<rparr>"
        using raft_become_leader_shape [OF win(2)] by blast
      ultimately show ?thesis
        using o m by (simp add: node_inv_def outbox_ok_def vote_inv_leader [OF vm])
    qed
  qed
qed

lemma raft_start_pre_vote_votes:
  assumes inv: "node_inv B n" and eq: "raft_start_pre_vote n = Some (st, n')"
    and wrap: "current_term n \<noteq> - 1"
  shows "node_inv (B \<union> cast n') n'"
proof (cases "running n")
  case False
  then have "n' = n" using eq by (simp add: raft_start_pre_vote_def)
  then show ?thesis using inv vote_inv_cast [of B n] by (simp add: node_inv_def)
next
  case True
  have v: "vote_inv B n" and o: "outbox_ok B n" using inv by (simp_all add: node_inv_def)
  note wf = vote_inv_wf [OF v]
  define m where "m = raft_reset_election_timer (n\<lparr>role := RAFT_PRE_CANDIDATE, current_leader := -1,
     votes_received := 1, votes_granted := (replicate (nat (num_nodes n)) False)[nat (node_id n) := True]\<rparr>)"
  have m: "node_id m = node_id n" "num_nodes m = num_nodes n" "current_term m = current_term n"
    "voted_for m = voted_for n" "role m = RAFT_PRE_CANDIDATE" "outbox m = outbox n"
    "length (votes_granted m) = nat (num_nodes n)" "votes_received m = 1"
    by (simp_all add: m_def)
  have vm: "vote_inv B m" by (rule vote_inv_follower [OF v]) (use m wf in simp_all)
  then have im: "node_inv B m" using o m by (simp add: node_inv_def outbox_ok_def)
  show ?thesis
  proof (cases "num_nodes n div 2 < 1")
    case less: True
    then have "raft_start_election m = Some (st, n')"
      using eq True wf by (simp add: raft_start_pre_vote_def arr_set_def m_def Let_def)
    from raft_start_election_votes [OF im this] show ?thesis using wrap m by simp
  next
    case False
    obtain r where n': "n' = send_to_peers (PreVote r) m"
      using eq True False wf by (simp add: raft_start_pre_vote_def arr_set_def m_def Let_def) blast
    have "vote_inv B n'" by (rule vote_inv_frame [OF vm]) (simp_all add: n')
    moreover have "outbox_ok B n'"
      using o m by (auto simp: outbox_ok_def n' dest!: send_to_peers_outbox)
    ultimately show ?thesis by (simp add: node_inv_def vote_inv_cast)
  qed
qed

lemma raft_handle_pre_vote_response_votes:
  assumes inv: "node_inv B n" and eq: "raft_handle_pre_vote_response n from r = Some (st, n')"
    and wrap: "current_term n \<noteq> - 1"
  shows "node_inv (B \<union> cast n') n'"
proof -
  have v: "vote_inv B n" and o: "outbox_ok B n" using inv by (simp_all add: node_inv_def)
  define m where "m = n\<lparr>votes_granted := (votes_granted n)[nat from := True], votes_received := votes_received n + 1\<rparr>"
  have m: "node_id m = node_id n" "num_nodes m = num_nodes n" "current_term m = current_term n"
    "voted_for m = voted_for n" "outbox m = outbox n" "role m = role n"
    "length (votes_granted m) = length (votes_granted n)"
    by (simp_all add: m_def)
  consider (a) "n' = n" | (b) "current_term n < pvr_term r" "raft_step_down n (pvr_term r) = Some n'"
    | (c) "role n = RAFT_PRE_CANDIDATE" "n' = m \<or> raft_start_election m = Some (st, n')"
    using eq by (simp add: raft_handle_pre_vote_response_def arr_get_def arr_set_def Let_def
          m_def [symmetric] split: if_splits)
  then show ?thesis
  proof cases
    case a
    then show ?thesis using inv v by (simp add: vote_inv_cast)
  next
    case b
    then show ?thesis using raft_step_down_votes [OF inv b(2,1)] by (simp add: node_inv_def vote_inv_cast)
  next
    case c
    have "vote_inv B m" by (rule vote_inv_follower [OF v]) (use m c in simp_all)
    then have im: "node_inv B m" using o m by (simp add: node_inv_def outbox_ok_def)
    then show ?thesis
      using c(2) raft_start_election_votes [OF im] wrap m by (auto simp: node_inv_def vote_inv_cast)
  qed
qed

lemma raft_handle_timeout_now_votes:
  assumes "node_inv B n" and "raft_handle_timeout_now n r = Some (st, n')" and "current_term n \<noteq> - 1"
  shows "node_inv (B \<union> cast n') n'"
proof -
  have "n' = n \<or> raft_start_election n = Some (st, n')"
    using assms(2) by (auto simp: raft_handle_timeout_now_def split: if_splits)
  then show ?thesis
    using assms raft_start_election_votes [OF assms(1) _ assms(3)] by (auto simp: node_inv_def vote_inv_cast)
qed

lemma candidate_inv_mono: "candidate_inv B n \<Longrightarrow> B \<subseteq> B' \<Longrightarrow> candidate_inv B' n"
  unfolding candidate_inv_def by blast

text \<open>A granted vote is the vote the node has recorded; it is given at most once per term.\<close>

lemma vote_inv_grant:
  assumes v: "vote_inv B n" and can: "voted_for n = -1 \<or> voted_for n = c" and c: "i32_range c"
    and n': "node_id n' = node_id n" "num_nodes n' = num_nodes n" "votes_granted n' = votes_granted n"
      "voted_for n' = c" "current_term n' = current_term n" "votes_received n' = votes_received n"
      "role n' = role n"
  shows "vote_inv (B \<union> cast n') n'"
proof (cases "voted_for n = c")
  case True
  then have "vote_inv B n'" using n' by (intro vote_inv_frame [OF v]) simp_all
  then show ?thesis by (simp add: vote_inv_cast)
next
  case False
  then have none: "voted_for n = -1" using can by simp
  have "candidate_inv B n' = candidate_inv B n" by (simp add: candidate_inv_def n')
  moreover have "\<not> (current_term n, node_id n, d) \<in> B" for d
    using v none unfolding vote_inv_def by metis
  ultimately show ?thesis
    using v n' c candidate_inv_mono [of B n' "B \<union> cast n'"] elected_by_mono [of B _ _ _ "B \<union> cast n'"]
    by (auto simp: vote_inv_def) (auto simp: cast_def split: if_splits)
qed

text \<open>The handlers of requests that carry a term first step down to a newer one.\<close>

definition catch_up :: "raft_node \<Rightarrow> u64 \<Rightarrow> raft_node option" where
  "catch_up n t = (if t > current_term n then raft_step_down n t else Some n)"

lemma catch_up_votes:
  assumes "node_inv B n" and "catch_up n t = Some m"
  shows "node_inv B m \<and> node_id m = node_id n \<and> num_nodes m = num_nodes n \<and>
    length (votes_granted m) = nat (num_nodes m)"
proof -
  have wf: "length (votes_granted n) = nat (num_nodes n)"
    using assms(1) vote_inv_wf by (auto simp: node_inv_def)
  show ?thesis
    using assms raft_step_down_votes [OF assms(1), of t m] raft_step_down_shape [OF _ wf, of t m] wf
    by (auto simp: catch_up_def split: if_splits)
qed

lemma raft_handle_request_vote_votes:
  assumes inv: "node_inv B n" and eq: "raft_handle_request_vote n r = Some (st, resp, n')"
    and c: "i32_range (rv_candidate_id r)"
  shows "node_inv (B \<union> cast n') n' \<and> node_id n' = node_id n \<and>
    (rvr_vote_granted resp \<longrightarrow> rvr_term resp = current_term n' \<and> voted_for n' = rv_candidate_id r)"
proof -
  obtain m where m: "catch_up n (rv_term r) = Some m"
    using eq by (auto simp: raft_handle_request_vote_def catch_up_def bind_eq_Some_conv)
  note cu = catch_up_votes [OF inv m]
  then have vm: "vote_inv B m" and om: "outbox_ok B m" by (simp_all add: node_inv_def)
  define g where "g = raft_reset_election_timer (persist_state (m\<lparr>voted_for := rv_candidate_id r\<rparr>))"
  note eq' = eq [unfolded raft_handle_request_vote_def catch_up_def [symmetric] m bind.bind_lunit Let_def,
      folded g_def]
  consider (no) "n' = m" "\<not> rvr_vote_granted resp"
    | (yes) "n' = g" "voted_for m = -1 \<or> voted_for m = rv_candidate_id r" "rvr_term resp = current_term m"
    using eq' by (simp split: if_splits) (fastforce+)?
  then show ?thesis
  proof cases
    case no
    then show ?thesis using cu vm by (simp add: vote_inv_cast)
  next
    case yes
    have "vote_inv (B \<union> cast n') n'" by (rule vote_inv_grant [OF vm yes(2) c]) (simp_all add: yes(1) g_def)
    moreover have "outbox_ok (B \<union> cast n') n'"
      using outbox_ok_mono [OF om, of "B \<union> cast n'"] by (simp add: outbox_ok_def yes(1) g_def)
    ultimately show ?thesis using cu yes by (simp add: node_inv_def g_def)
  qed
qed

text \<open>A step that touches neither the votes nor the role's claims, apart from a fall back to
  follower, and sends nothing but entries and their acknowledgements.\<close>

definition vote_neutral :: "raft_node \<Rightarrow> raft_node \<Rightarrow> bool" where
  "vote_neutral n n' \<longleftrightarrow>
     node_id n' = node_id n \<and> num_nodes n' = num_nodes n \<and> votes_granted n' = votes_granted n \<and>
     voted_for n' = voted_for n \<and> current_term n' = current_term n \<and>
     (role n' = role n \<and> votes_received n' = votes_received n \<or> role n' = RAFT_FOLLOWER) \<and>
     (\<forall>x \<in> set (outbox n'). x \<in> set (outbox n) \<or>
        (\<forall>B s. msg_ok B s (fst x) (snd x)))"

lemma vote_neutral_votes:
  assumes "node_inv B n" and "vote_neutral n n'"
  shows "node_inv B n'"
proof -
  have v: "vote_inv B n" and o: "outbox_ok B n" using assms(1) by (simp_all add: node_inv_def)
  have "vote_inv B n'"
  proof (cases "role n' = role n \<and> votes_received n' = votes_received n")
    case True
    then show ?thesis using assms(2) by (intro vote_inv_frame [OF v]) (simp_all add: vote_neutral_def)
  next
    case False
    then show ?thesis using assms(2) by (intro vote_inv_follower [OF v]) (auto simp: vote_neutral_def)
  qed
  moreover have "outbox_ok B n'" using o assms(2) by (fastforce simp: outbox_ok_def vote_neutral_def)
  ultimately show ?thesis by (simp add: node_inv_def)
qed

lemma vote_neutral_refl [simp]: "vote_neutral n n"
  by (simp add: vote_neutral_def)

lemma vote_neutral_trans: "vote_neutral n m \<Longrightarrow> vote_neutral m n' \<Longrightarrow> vote_neutral n n'"
  unfolding vote_neutral_def by (elim conjE, intro conjI; metis)

lemma raft_handle_append_entries_votes:
  assumes inv: "node_inv B n" and eq: "raft_handle_append_entries n r = Some (st, resp, n')"
  shows "node_inv B n' \<and> node_id n' = node_id n"
proof -
  obtain m where m: "catch_up n (ae_term r) = Some m"
    using eq by (auto simp: raft_handle_append_entries_def catch_up_def bind_eq_Some_conv)
  have "vote_neutral m n'"
    using eq m by (auto simp: raft_handle_append_entries_def catch_up_def vote_neutral_def Let_def split: if_splits)
  then show ?thesis using catch_up_votes [OF inv m] vote_neutral_votes by (auto simp: vote_neutral_def)
qed

lemma raft_send_heartbeats_neutral:
  "raft_send_heartbeats n = (st, n') \<Longrightarrow> vote_neutral n n'"
  by (auto simp: raft_send_heartbeats_def vote_neutral_def dest!: send_to_peers_outbox split: if_splits)

section \<open>Every election handler is defined on well-formed nodes\<close>

text \<open>The structural invariant: the node's identifier is inside the cluster, the arrays have
  their sizes, a leader has its arrays, the log is well-formed, and memory is available. On such
  a node no handler touches memory outside an array, and the result is such a node again.\<close>

definition leader_arrays :: "raft_node \<Rightarrow> bool" where
  "leader_arrays n \<longleftrightarrow>
     (\<exists>ni mi. next_index n = Some ni \<and> match_index n = Some mi \<and>
        length ni = nat (num_nodes n) \<and> length mi = nat (num_nodes n))"

definition node_ok :: "raft_node \<Rightarrow> bool" where
  "node_ok n \<longleftrightarrow>
     0 \<le> node_id n \<and> node_id n < num_nodes n \<and> length (votes_granted n) = nat (num_nodes n) \<and>
     (role n = RAFT_LEADER \<longrightarrow> leader_arrays n) \<and> raft_log_wf (log n) \<and> alloc_ok (wld n)"

lemma persist_state_alloc [simp]: "alloc_ok (wld n) \<Longrightarrow> alloc_ok (wld (persist_state n))"
  by (auto simp: persist_state_def save_state_alloc split: option.split prod.split)

lemma raft_reset_election_timer_alloc [simp]:
  "alloc_ok (wld (raft_reset_election_timer n)) = alloc_ok (wld n)"
  by (simp add: alloc_ok_def)

lemma raft_step_down_alloc:
  "raft_step_down n t = Some n' \<Longrightarrow> alloc_ok (wld n) \<Longrightarrow> alloc_ok (wld n')"
  by (auto simp: raft_step_down_def bind_eq_Some_conv)

lemma raft_become_leader_node_ok:
  assumes "0 \<le> node_id n" "node_id n < num_nodes n" "length (votes_granted n) = nat (num_nodes n)"
    "raft_log_wf (log n)" "alloc_ok (wld n)"
  shows "\<exists>n'. raft_become_leader n = (RAFT_OK, n') \<and> node_ok n' \<and> log n' = log n"
  using assms by (simp add: raft_become_leader_ok node_ok_def leader_arrays_def)

lemma raft_step_down_ok:
  assumes "node_ok n"
  shows "\<exists>n'. raft_step_down n t = Some n' \<and> node_ok n' \<and> log n' = log n \<and> current_term n' = t"
  using assms by (simp add: raft_step_down_def node_ok_def)

lemma catch_up_ok:
  assumes "node_ok n"
  shows "\<exists>m. catch_up n t = Some m \<and> node_ok m \<and> log m = log n \<and> t \<le> current_term m \<and>
    current_term m = max t (current_term n)"
  using assms raft_step_down_ok [OF assms, of t] by (auto simp: catch_up_def max_def)

lemma node_ok_same:
  assumes "node_ok n" and "node_id n' = node_id n" "num_nodes n' = num_nodes n"
    "length (votes_granted n') = length (votes_granted n)" "role n' = RAFT_LEADER \<Longrightarrow> role n = RAFT_LEADER"
    "next_index n' = next_index n" "match_index n' = match_index n" "log n' = log n"
    "alloc_ok (wld n')"
  shows "node_ok n'"
  using assms by (auto simp: node_ok_def leader_arrays_def)

lemma raft_start_election_ok:
  assumes "node_ok n"
  shows "\<exists>st n'. raft_start_election n = Some (st, n') \<and> node_ok n' \<and> log n' = log n"
proof (cases "running n")
  case False
  then show ?thesis using assms by (simp add: raft_start_election_def)
next
  case True
  have id: "0 \<le> node_id n" "node_id n < num_nodes n" "length (votes_granted n) = nat (num_nodes n)"
    using assms by (simp_all add: node_ok_def)
  define m where "m = raft_reset_election_timer ((persist_state (n\<lparr>role := RAFT_CANDIDATE,
     current_term := current_term n + 1, voted_for := node_id n, current_leader := -1\<rparr>))
       \<lparr>votes_received := 1, votes_granted := (replicate (nat (num_nodes n)) False)[nat (node_id n) := True]\<rparr>)"
  have m: "node_ok m" by (rule node_ok_same [OF assms]) (use assms in \<open>simp_all add: m_def node_ok_def\<close>)
  have lm: "log m = log n" "votes_received m = 1" "num_nodes m = num_nodes n" by (simp_all add: m_def)
  have eq: "raft_start_election n = (if 1 > num_nodes n div 2 then Some (raft_become_leader m)
     else Some (RAFT_OK, send_to_peers (RequestVote \<lparr>rv_term = current_term m, rv_candidate_id = node_id m,
        rv_last_log_index = raft_log_last_index (log m), rv_last_log_term = raft_log_last_term (log m)\<rparr>) m))"
    using True id by (simp add: raft_start_election_def arr_set_def m_def Let_def)
  show ?thesis
  proof (cases "1 > num_nodes n div 2")
    case True
    then show ?thesis
      using eq raft_become_leader_node_ok [of m] m lm by (auto simp: node_ok_def)
  next
    case False
    then show ?thesis using eq lm by (auto intro!: node_ok_same [OF m]) (use m in \<open>simp add: node_ok_def\<close>)
  qed
qed

lemma raft_start_pre_vote_ok:
  assumes "node_ok n"
  shows "\<exists>st n'. raft_start_pre_vote n = Some (st, n') \<and> node_ok n' \<and> log n' = log n"
proof (cases "running n")
  case False
  then show ?thesis using assms by (simp add: raft_start_pre_vote_def)
next
  case True
  have id: "0 \<le> node_id n" "node_id n < num_nodes n" "length (votes_granted n) = nat (num_nodes n)"
    using assms by (simp_all add: node_ok_def)
  define m where "m = raft_reset_election_timer (n\<lparr>role := RAFT_PRE_CANDIDATE, current_leader := -1,
     votes_received := 1, votes_granted := (replicate (nat (num_nodes n)) False)[nat (node_id n) := True]\<rparr>)"
  have m: "node_ok m" by (rule node_ok_same [OF assms]) (use assms in \<open>simp_all add: m_def node_ok_def\<close>)
  have lm: "log m = log n" by (simp add: m_def)
  define r where "r = \<lparr>pv_term = current_term m + 1, pv_candidate_id = node_id m,
     pv_last_log_index = raft_log_last_index (log m), pv_last_log_term = raft_log_last_term (log m)\<rparr>"
  have eq: "raft_start_pre_vote n = (if 1 > num_nodes n div 2 then raft_start_election m
     else Some (RAFT_OK, send_to_peers (PreVote r) m))"
    using True id by (simp add: raft_start_pre_vote_def arr_set_def m_def r_def Let_def)
  show ?thesis
    using eq lm raft_start_election_ok [OF m] node_ok_same [OF m, of "send_to_peers (PreVote r) m"] m
    by (auto simp: node_ok_def)
qed

text \<open>Counting a vote: only the flags and the counter change.\<close>

lemma count_vote_node_ok:
  "node_ok n \<Longrightarrow> node_ok (n\<lparr>votes_granted := (votes_granted n)[i := True], votes_received := v\<rparr>)"
  by (rule node_ok_same) (simp_all add: node_ok_def)

lemma raft_handle_pre_vote_response_ok:
  assumes "node_ok n"
  shows "\<exists>st n'. raft_handle_pre_vote_response n from r = Some (st, n') \<and> node_ok n' \<and> log n' = log n"
proof -
  have len: "length (votes_granted n) = nat (num_nodes n)" using assms by (simp add: node_ok_def)
  define m where "m = n\<lparr>votes_granted := (votes_granted n)[nat from := True], votes_received := votes_received n + 1\<rparr>"
  have m: "node_ok m" "log m = log n" using assms by (simp_all add: m_def count_vote_node_ok)
  show ?thesis
    using len assms m raft_step_down_ok [OF assms, of "pvr_term r"] raft_start_election_ok [OF m(1)]
    by (simp add: raft_handle_pre_vote_response_def arr_get_def arr_set_def Let_def m_def [symmetric]) auto
qed

lemma raft_handle_timeout_now_ok:
  assumes "node_ok n"
  shows "\<exists>st n'. raft_handle_timeout_now n r = Some (st, n') \<and> node_ok n' \<and> log n' = log n"
  using assms raft_start_election_ok [OF assms] by (simp add: raft_handle_timeout_now_def)

lemma raft_handle_request_vote_response_ok:
  assumes "node_ok n"
  shows "\<exists>st n'. raft_handle_request_vote_response n from r = Some (st, n') \<and> node_ok n' \<and> log n' = log n"
proof -
  have len: "length (votes_granted n) = nat (num_nodes n)" using assms by (simp add: node_ok_def)
  define m where "m = n\<lparr>votes_granted := (votes_granted n)[nat from := True], votes_received := votes_received n + 1\<rparr>"
  have m: "node_ok m" "log m = log n" using assms by (simp_all add: m_def count_vote_node_ok)
  have "\<exists>n'. raft_become_leader m = (RAFT_OK, n') \<and> node_ok n' \<and> log n' = log m"
    using m by (intro raft_become_leader_node_ok) (simp_all add: node_ok_def)
  then show ?thesis
    using len assms m raft_step_down_ok [OF assms, of "rvr_term r"]
    by (simp add: raft_handle_request_vote_response_def arr_get_def arr_set_def Let_def m_def [symmetric]) auto
qed

lemma raft_handle_request_vote_ok:
  assumes "node_ok n"
  shows "\<exists>resp n'. raft_handle_request_vote n r = Some (RAFT_OK, resp, n') \<and> node_ok n' \<and> log n' = log n"
proof -
  obtain m where m: "catch_up n (rv_term r) = Some m" "node_ok m" "log m = log n"
    using catch_up_ok [OF assms] by blast
  have "node_ok (raft_reset_election_timer (persist_state (m\<lparr>voted_for := rv_candidate_id r\<rparr>)))"
    by (rule node_ok_same [OF m(2)]) (use m(2) in \<open>simp_all add: node_ok_def\<close>)
  then show ?thesis
    using m unfolding raft_handle_request_vote_def catch_up_def [symmetric] by (simp add: Let_def)
qed

lemma raft_handle_append_entries_ok:
  assumes "node_ok n"
  shows "\<exists>resp n'. raft_handle_append_entries n r = Some (RAFT_OK, resp, n') \<and> node_ok n' \<and> log n' = log n"
proof -
  obtain m where m: "catch_up n (ae_term r) = Some m" "node_ok m" "log m = log n"
    using catch_up_ok [OF assms] by blast
  have "\<exists>resp n'. raft_handle_append_entries n r = Some (RAFT_OK, resp, n')"
    using m(1) unfolding raft_handle_append_entries_def catch_up_def [symmetric] by (simp add: Let_def)
  then obtain resp n' where eq: "raft_handle_append_entries n r = Some (RAFT_OK, resp, n')" by blast
  have "node_ok n' \<and> log n' = log m"
  proof (intro conjI node_ok_same [OF m(2)])
    show "alloc_ok (wld n')"
      using eq m unfolding raft_handle_append_entries_def catch_up_def [symmetric]
      by (auto simp: Let_def node_ok_def split: if_splits)
  qed (use eq m(1) in \<open>auto simp: raft_handle_append_entries_def catch_up_def [symmetric] Let_def split: if_splits\<close>)
  then show ?thesis using eq m(3) by simp
qed

lemma raft_send_heartbeats_ok:
  assumes "node_ok n" and "raft_send_heartbeats n = (st, n')"
  shows "node_ok n' \<and> log n' = log n"
proof -
  have "node_ok (send_to_peers m n)" for m
    by (rule node_ok_same [OF assms(1)]) (use assms(1) in \<open>simp_all add: node_ok_def\<close>)
  then show ?thesis using assms by (auto simp: raft_send_heartbeats_def split: if_splits)
qed

section \<open>Campaigns and heartbeats\<close>

lemma sample_node_ok:
  assumes "raft_log_wf l" and "0 \<le> i" and "i < N"
  shows "node_ok (sample_node i N r t l)"
  using assms by (simp add: node_ok_def sample_node_def leader_arrays_def)

text \<open>A campaign: \<open>n'\<close> is a candidate of the next term that voted for itself and has asked every
  peer for its vote.\<close>

definition campaigning :: "raft_node \<Rightarrow> raft_node \<Rightarrow> bool" where
  "campaigning n n' \<longleftrightarrow> role n' = RAFT_CANDIDATE \<and> current_term n' = current_term n + 1 \<and>
     voted_for n' = node_id n \<and>
     outbox n' = outbox (send_to_peers (RequestVote \<lparr>rv_term = current_term n + 1, rv_candidate_id = node_id n,
        rv_last_log_index = raft_log_last_index (log n), rv_last_log_term = raft_log_last_term (log n)\<rparr>) n)"

lemma raft_start_election_campaign:
  assumes ok: "node_ok n" and run: "running n" and many: "1 < num_nodes n"
  shows "\<exists>n'. raft_start_election n = Some (RAFT_OK, n') \<and> campaigning n n' \<and> running n' \<and>
    num_nodes n' = num_nodes n \<and> node_id n' = node_id n \<and> votes_received n' = 1 \<and>
    votes_granted n' = (replicate (nat (num_nodes n)) False)[nat (node_id n) := True]"
proof -
  have "0 \<le> node_id n" "node_id n < num_nodes n" "length (votes_granted n) = nat (num_nodes n)"
    using ok by (simp_all add: node_ok_def)
  moreover have "\<not> 1 > num_nodes n div 2" using many by linarith
  ultimately show ?thesis
    using run by (simp add: raft_start_election_def clear_flags_def arr_set_def Let_def send_to_peers_def
        campaigning_def)
qed

text \<open>C39: A heartbeat of the current or a later term is always acknowledged with the own last index. When
  the leader's commit index exceeds the own one, the commit index is set to the smaller of the leader's
  commit index and the last index; otherwise it stays as it is. The log is unchanged, and the
  previous-entry fields of the message are not compared with it.\<close>

theorem heartbeat_success:
  assumes "node_ok n" and "ae_entries_count r = 0" and "current_term n \<le> ae_term r"
  shows "\<exists>resp n'. raft_handle_append_entries n r = Some (RAFT_OK, resp, n') \<and> aer_success resp \<and>
    aer_match_index resp = raft_log_last_index (log n) \<and> log n' = log n \<and>
    commit_index n' = (if ae_leader_commit r > commit_index n
      then min (ae_leader_commit r) (raft_log_last_index (log n)) else commit_index n)"
proof -
  have "nat (num_nodes n) \<le> length (votes_granted n)" using assms(1) by (simp add: node_ok_def)
  then obtain m where m: "catch_up n (ae_term r) = Some m" "log m = log n" "commit_index m = commit_index n"
    "current_term m = ae_term r"
    using assms(3) by (cases "current_term n < ae_term r")
      (auto simp: catch_up_def raft_step_down_def clear_flags_def)
  then show ?thesis
    using assms(2) unfolding raft_handle_append_entries_def catch_up_def [symmetric]
    by (auto simp: Let_def min_def)
qed

theorem heartbeat_success_witness:
  "\<exists>resp n'. raft_handle_append_entries (sample_node 1 3 RAFT_FOLLOWER 2 two_logs)
       \<lparr>ae_term = 2, ae_leader_id = 0, ae_prev_log_index = 2, ae_prev_log_term = 2, ae_leader_commit = 2,
        ae_entries_count = 0\<rparr> = Some (RAFT_OK, resp, n') \<and>
     aer_success resp \<and> commit_index n' = 2 \<and> raft_log_term_at (log n') 2 = 1"
proof -
  have "raft_log_last_index two_logs = 2" "raft_log_term_at two_logs 2 = 1"
    by (simp_all add: sample_log_def raft_log_last_index_def raft_log_term_at_def raft_log_get_def)
  then show ?thesis
    using heartbeat_success [OF sample_node_ok, of two_logs 1 3 "\<lparr>ae_term = 2, ae_leader_id = 0,
       ae_prev_log_index = 2, ae_prev_log_term = 2, ae_leader_commit = 2, ae_entries_count = 0\<rparr>" RAFT_FOLLOWER 2]
    by (auto simp: sample_logs)
qed

end
