(* ===== verification/Raft_Commit.thy ===== *)
theory Raft_Commit
  imports Raft_Election
begin

text \<open>
  Commitment (\<^verbatim>\<open>consensus/src/commit.c\<close>): the majority match index, the committed
  test and the advance of the leader's commit index. \<open>None\<close> is undefined behaviour: a
  leader whose arrays were never allocated or are too short.
\<close>

section \<open>The code\<close>

text \<open>The array that \<^verbatim>\<open>qsort\<close> gets: the leader's own slot is its last index.\<close>

definition match_values :: "raft_node \<Rightarrow> u64 list \<Rightarrow> u64 list" where
  "match_values node mi =
     map (\<lambda>i. if int i = node_id node then raft_log_last_index (log node) else mi ! i)
       [0..<nat (num_nodes node)]"

definition raft_get_majority_match_index :: "raft_node \<Rightarrow> (u64 \<times> raft_node) option" where
  "raft_get_majority_match_index node =
     (if role node \<noteq> RAFT_LEADER then Some (0, node)
      else case match_index node of
        None \<Rightarrow> Some (0, node)
      | Some mi \<Rightarrow>
          (case malloc (wld node) of (ok, w) \<Rightarrow>
             let node = node\<lparr>wld := w\<rparr> in
             if \<not> ok then Some (0, node)
             else if length mi < nat (num_nodes node) then None
             else map_option (\<lambda>v. (v, node))
                    (arr_get (sort (match_values node mi)) (num_nodes node div 2))))"

definition raft_is_committed :: "raft_node \<Rightarrow> u64 \<Rightarrow> bool" where
  "raft_is_committed node index = (index \<noteq> 0 \<and> index \<le> commit_index node)"

text \<open>\<^verbatim>\<open>count\<close> of the inner loop: the leader and the followers that match \<open>n\<close>.\<close>

definition match_count :: "raft_node \<Rightarrow> u64 list \<Rightarrow> u64 \<Rightarrow> int" where
  "match_count node mi n =
     1 + int (length (filter (\<lambda>i. i \<noteq> node_id node \<and> mi ! nat i \<ge> n) [0..num_nodes node - 1]))"

definition advance_scan :: "raft_node \<Rightarrow> u64 list \<Rightarrow> u64 \<Rightarrow> u64 \<Rightarrow> u64" where
  "advance_scan node mi new_commit n =
     (if match_count node mi n > num_nodes node div 2 \<and>
         raft_log_term_at (log node) n = current_term node
      then n else new_commit)"

text \<open>The loop \<^verbatim>\<open>for (n = commit_index + 1; n <= last_index; n++)\<close>; it would not end for a
  last index of \<^verbatim>\<open>UINT64_MAX\<close>, which is \<open>None\<close>.\<close>

definition raft_advance_commit_index :: "raft_node \<Rightarrow> (raft_status_t \<times> raft_node) option" where
  "raft_advance_commit_index node =
     (if role node \<noteq> RAFT_LEADER then Some (RAFT_NOT_LEADER, node)
      else if raft_log_last_index (log node) = - 1 then None
      else do {
        let ns = u64_range (commit_index node + 1)
                   (Suc (unat (raft_log_last_index (log node))) - unat (commit_index node + 1));
        mi \<leftarrow> (if ns = [] then Some [] else match_index node);
        if ns \<noteq> [] \<and> length mi < nat (num_nodes node) then None
        else
          let new_commit = foldl (advance_scan node mi) (commit_index node) ns
          in Some (RAFT_OK,
               if new_commit > commit_index node
               then raft_apply_committed (node\<lparr>commit_index := new_commit\<rparr>) else node)
      })"

section \<open>What the advance of the commit index guarantees\<close>

text \<open>
  The last index that node \<open>i\<close> is known to hold: the end of the log for the leader itself, the acknowledged index
  for a follower; and the nodes that hold index \<open>k\<close>. Neither mentions how the code counts.
\<close>

definition held :: "raft_node \<Rightarrow> u64 list \<Rightarrow> int \<Rightarrow> u64" where
  "held n mi i = (if i = node_id n then raft_log_last_index (log n) else mi ! nat i)"

definition replicas :: "raft_node \<Rightarrow> u64 list \<Rightarrow> u64 \<Rightarrow> int set" where
  "replicas n mi k = {i. 0 \<le> i \<and> i < num_nodes n \<and> k \<le> held n mi i}"

lemma finite_replicas [simp]: "finite (replicas n mi k)"
  by (rule finite_subset [of _ "{0..<num_nodes n}"]) (auto simp: replicas_def)

lemma match_count_card:
  assumes "0 \<le> node_id n" and "node_id n < num_nodes n" and "k \<le> raft_log_last_index (log n)"
  shows "match_count n mi k = int (card (replicas n mi k))"
proof -
  let ?F = "{i. 0 \<le> i \<and> i < num_nodes n \<and> i \<noteq> node_id n \<and> k \<le> mi ! nat i}"
  have fin: "finite ?F" by (rule finite_subset [of _ "{0..<num_nodes n}"]) auto
  have "length (filter (\<lambda>i. i \<noteq> node_id n \<and> mi ! nat i \<ge> k) [0..num_nodes n - 1])
      = card (set (filter (\<lambda>i. i \<noteq> node_id n \<and> mi ! nat i \<ge> k) [0..num_nodes n - 1]))"
    by (rule distinct_card [symmetric]) simp
  also have "set (filter (\<lambda>i. i \<noteq> node_id n \<and> mi ! nat i \<ge> k) [0..num_nodes n - 1]) = ?F"
    by auto
  finally have "length (filter (\<lambda>i. i \<noteq> node_id n \<and> mi ! nat i \<ge> k) [0..num_nodes n - 1]) = card ?F" .
  moreover have "replicas n mi k = insert (node_id n) ?F"
    using assms by (auto simp: replicas_def held_def)
  ultimately show ?thesis using fin by (simp add: match_count_def)
qed

lemma match_values_card: "length (filter (\<lambda>v. k \<le> v) (match_values n mi)) = card (replicas n mi k)"
proof -
  let ?J = "{j. j < nat (num_nodes n) \<and> k \<le> held n mi (int j)}"
  have "length (filter (\<lambda>v. k \<le> v) (match_values n mi)) = card ?J"
    by (auto simp: match_values_def held_def length_filter_conv_card intro!: arg_cong [of _ _ card])
  also have "\<dots> = card (int ` ?J)" by (simp add: card_image)
  also have "int ` ?J = replicas n mi k"
    by (auto simp: replicas_def image_iff intro!: bexI [of _ "nat _"] exI [of _ "nat _"])
  finally show ?thesis .
qed

lemma mem_u64_range:
  assumes "unat a + m \<le> 2 ^ 64"
  shows "k \<in> set (u64_range a m) \<longleftrightarrow> a \<le> k \<and> unat k < unat a + m"
proof -
  have "k \<in> set (u64_range a m) \<longleftrightarrow> unat k \<in> set (map unat (u64_range a m))"
    by (auto simp: u64_eq_iff [symmetric])
  then show ?thesis by (simp only: unat_u64_range [OF assms]) (simp add: u64_le)
qed

lemma foldl_last_hit:
  "foldl (\<lambda>c k. if P k then k else c) c ks = (if filter P ks = [] then c else last (filter P ks))"
  by (induction ks arbitrary: c) simp_all

definition committable :: "raft_node \<Rightarrow> u64 list \<Rightarrow> u64 \<Rightarrow> bool" where
  "committable n mi k \<longleftrightarrow>
     num_nodes n < 2 * int (card (replicas n mi k)) \<and> raft_log_term_at (log n) k = current_term n"

lemma advance_scan_committable:
  assumes "0 \<le> node_id n" and "node_id n < num_nodes n" and "k \<le> raft_log_last_index (log n)"
  shows "advance_scan n mi c k = (if committable n mi k then k else c)"
  using match_count_card [OF assms, of mi] by (auto simp: advance_scan_def committable_def)

lemma scan_range:
  fixes a :: u64
  assumes ran: "unat a + m \<le> 2 ^ 64" and xs: "xs = filter P (u64_range a m)" and ne: "xs \<noteq> []"
  shows "P (last xs)" "a \<le> last xs" "unat (last xs) < unat a + m"
    "\<And>k. a \<le> k \<Longrightarrow> unat k < unat a + m \<Longrightarrow> P k \<Longrightarrow> k \<le> last xs"
proof -
  have "last xs \<in> set xs" using ne by simp
  then show "P (last xs)" "a \<le> last xs" "unat (last xs) < unat a + m"
    by (simp_all add: xs mem_u64_range [OF ran])
  fix k assume k: "a \<le> k" "unat k < unat a + m" "P k"
  then have "k \<in> set xs" by (simp add: xs mem_u64_range [OF ran])
  moreover have "sorted (map unat (u64_range a m))"
    unfolding unat_u64_range [OF ran] by (rule sorted_upt)
  then have "sorted (map unat xs)" unfolding xs by (rule sorted_filter)
  ultimately have "unat k \<le> last (map unat xs)" by (intro sorted_last_max) simp_all
  then show "k \<le> last xs" using ne by (simp add: last_map u64_le)
qed

section \<open>Commitment and votes\<close>

lemma raft_advance_commit_index_neutral:
  "raft_advance_commit_index n = Some (st, n') \<Longrightarrow> vote_neutral n n'"
  by (auto simp: raft_advance_commit_index_def vote_neutral_def Let_def bind_eq_Some_conv split: if_splits)

text \<open>C6: A leader moves its commit index to the largest index above the old one, up to the end of its log, that a majority of the nodes holds (the leader by its log, a follower by what it acknowledged) and whose entry has the current term; it applies what became committed and changes nothing when there is no such index.\<close>

theorem raft_advance_commit_index_spec:
  assumes lead: "role n = RAFT_LEADER" and wf: "raft_log_wf (log n)"
    and mi: "match_index n = Some mi" "nat (num_nodes n) \<le> length mi"
    and below: "commit_index n \<le> raft_log_last_index (log n)"
    and id: "0 \<le> node_id n" "node_id n < num_nodes n"
  shows "\<exists>n'. raft_advance_commit_index n = Some (RAFT_OK, n') \<and>
     (commit_index n' = commit_index n \<and> n' = n \<or>
        commit_index n < commit_index n' \<and> commit_index n' \<le> raft_log_last_index (log n) \<and>
        committable n mi (commit_index n') \<and>
        n' = raft_apply_committed (n\<lparr>commit_index := commit_index n'\<rparr>)) \<and>
     (\<forall>k. commit_index n < k \<longrightarrow> k \<le> raft_log_last_index (log n) \<longrightarrow> committable n mi k \<longrightarrow>
        k \<le> commit_index n')"
proof -
  let ?c = "commit_index n" and ?l = "raft_log_last_index (log n)"
  have l: "unat ?l < 2 ^ 64 - 1" using wf by (simp add: raft_log_last_index_unat raft_log_wf_def)
  have "unat (- 1 :: u64) = 2 ^ 64 - 1" by (simp add: unsigned_minus_1_eq_mask mask_eq_exp_minus_1)
  then have lmax: "?l \<noteq> - 1" using l by auto
  have cl: "unat ?c \<le> unat ?l" using below by (simp add: u64_le)
  then have c1: "unat (?c + 1) = unat ?c + 1" using l by (intro unat_succ) simp
  let ?m = "Suc (unat ?l) - unat (?c + 1)"
  let ?ns = "u64_range (?c + 1) ?m"
  define hits where "hits = filter (committable n mi) ?ns"
  have ran: "unat (?c + 1) + ?m \<le> 2 ^ 64" and top: "unat (?c + 1) + ?m = unat ?l + 1"
    using cl l c1 by simp_all
  have scan: "foldl (advance_scan n mi) ?c ?ns = (if hits = [] then ?c else last hits)"
  proof -
    have "k \<le> ?l" if "k \<in> set ?ns" for k using that top unfolding mem_u64_range [OF ran] by (simp add: u64_le)
    then have "foldl (advance_scan n mi) ?c ?ns = foldl (\<lambda>c k. if committable n mi k then k else c) ?c ?ns"
      by (intro foldl_cong refl) (simp add: advance_scan_committable [OF id])
    then show ?thesis using foldl_last_hit [of "committable n mi" ?c ?ns] by (simp add: hits_def)
  qed
  define c' where "c' = (if hits = [] then ?c else last hits)"
  define n' where "n' = (if c' > ?c then raft_apply_committed (n\<lparr>commit_index := c'\<rparr>) else n)"
  have res: "raft_advance_commit_index n = Some (RAFT_OK, n')"
    using lead lmax mi scan
    by (cases "?m = 0") (auto simp: raft_advance_commit_index_def n'_def c'_def hits_def Let_def)
  show ?thesis
  proof (cases "hits = []")
    case True
    then have "\<not> committable n mi k" if "k \<in> set ?ns" for k
      using that by (auto simp: hits_def filter_empty_conv)
    moreover have "k \<in> set ?ns" if "?c < k" "k \<le> ?l" for k
      unfolding mem_u64_range [OF ran] using that top c1 by (simp add: u64_le u64_less)
    moreover have "n' = n" using True by (simp add: n'_def c'_def)
    ultimately show ?thesis using res by blast
  next
    case False
    note h = scan_range [OF ran hits_def False]
    have c': "c' = last hits" using False by (simp add: c'_def)
    have "?c < c'" "c' \<le> ?l" using h(2,3) top c1 c' by (simp_all add: u64_le u64_less)
    moreover have "k \<le> c'" if "?c < k" "k \<le> ?l" "committable n mi k" for k
      using that h(4) [of k] c' top c1 by (simp add: u64_le u64_less)
    moreover have "commit_index n' = c'" "n' = raft_apply_committed (n\<lparr>commit_index := c'\<rparr>)"
      using \<open>?c < c'\<close> by (simp_all add: n'_def)
    ultimately show ?thesis using res h(1) c' by auto
  qed
qed

theorem raft_advance_commit_index_spec_witness:
  "\<exists>n'. raft_advance_commit_index
      ((sample_node 0 3 RAFT_LEADER 1 two_logs)\<lparr>match_index := Some [0, 2, 1]\<rparr>) = Some (RAFT_OK, n') \<and>
     2 \<le> commit_index n' \<and> commit_index n' \<le> 2"
proof -
  let ?n = "(sample_node 0 3 RAFT_LEADER 1 two_logs)\<lparr>match_index := Some [0, 2, 1]\<rparr>"
  have f: "role ?n = RAFT_LEADER" "raft_log_wf (log ?n)" "match_index ?n = Some [0, 2, 1]"
    "nat (num_nodes ?n) \<le> length [0, 2, 1 :: u64]" "commit_index ?n \<le> raft_log_last_index (log ?n)"
    "0 \<le> node_id ?n" "node_id ?n < num_nodes ?n"
    by (simp_all add: sample_node_def sample_logs)
  have l: "raft_log_last_index (log ?n) = 2" by (simp add: sample_node_def sample_log_def raft_log_last_index_def)
  have "i = 0 \<or> i = 1 \<or> i = 2" if "0 \<le> i" "i < 3" for i :: int using that by linarith
  moreover have "replicas ?n [0, 2, 1] 2 \<subseteq> {i. 0 \<le> i \<and> i < 3 \<and> i \<noteq> 2}"
    unfolding replicas_def held_def l by (auto simp: sample_node_def u64_le)
  moreover have "{0, 1} \<subseteq> replicas ?n [0, 2, 1] 2"
    unfolding replicas_def held_def l by (simp add: sample_node_def)
  ultimately have "replicas ?n [0, 2, 1] 2 = {0, 1}" by blast
  then have c: "committable ?n [0, 2, 1] 2"
    by (simp add: committable_def sample_node_def sample_log_def raft_log_term_at_def raft_log_get_def)
  have k: "commit_index ?n < 2" "(2 :: u64) \<le> 2" by (simp_all add: sample_node_def)
  show ?thesis
    using raft_advance_commit_index_spec [OF f] c k unfolding l by (metis order_refl order.strict_iff_not)
qed

text \<open>C40: The match index the leader reports as replicated on a majority is the largest one that at least \<open>N - N div 2\<close> nodes hold, the leader by its log and a follower by what it acknowledged. For an even cluster that is half of the nodes, not a majority.\<close>

theorem raft_get_majority_match_index_holders:
  assumes "role n = RAFT_LEADER" and "match_index n = Some mi" and "alloc_ok (wld n)"
    and len: "nat (num_nodes n) \<le> length mi" and pos: "0 < num_nodes n"
  shows "\<exists>v. raft_get_majority_match_index n = Some (v, n) \<and>
     nat (num_nodes n) - nat (num_nodes n div 2) \<le> card (replicas n mi v) \<and>
     (\<forall>u > v. card (replicas n mi u) < nat (num_nodes n) - nat (num_nodes n div 2))"
proof -
  let ?xs = "sort (match_values n mi)" and ?k = "nat (num_nodes n div 2)"
  have lenx: "length ?xs = nat (num_nodes n)" by (simp add: match_values_def)
  have k: "?k < length ?xs" using pos lenx by (simp add: nat_less_iff)
  have "raft_get_majority_match_index n = Some (?xs ! ?k, n)"
    using assms k by (simp add: raft_get_majority_match_index_def arr_get_def not_less Let_def)
  moreover have "card (replicas n mi u) = length (filter (\<lambda>v. u \<le> v) ?xs)" for u
    by (simp add: match_values_card length_filter_sort)
  ultimately show ?thesis using sorted_count_ge [OF sorted_sort k] lenx by metis
qed

theorem raft_get_majority_match_index_holders_witness:
  "\<exists>v. raft_get_majority_match_index ((sample_node 0 4 RAFT_LEADER 1 two_logs)\<lparr>match_index := Some [0, 2, 0, 0]\<rparr>) =
      Some (v, (sample_node 0 4 RAFT_LEADER 1 two_logs)\<lparr>match_index := Some [0, 2, 0, 0]\<rparr>) \<and>
     2 \<le> card (replicas ((sample_node 0 4 RAFT_LEADER 1 two_logs)\<lparr>match_index := Some [0, 2, 0, 0]\<rparr>) [0, 2, 0, 0] v)"
  using raft_get_majority_match_index_holders
    [of "(sample_node 0 4 RAFT_LEADER 1 two_logs)\<lparr>match_index := Some [0, 2, 0, 0]\<rparr>" "[0, 2, 0, 0]"]
  by auto

end
