(* ===== verification/Raft_Replication.thy ===== *)
theory Raft_Replication
  imports Raft_Commit
begin

text \<open>
  Log replication (\<^verbatim>\<open>consensus/src/replication.c\<close>): the leader's AppendEntries
  messages with their serialised entries, the handling of the responses, and the follower's
  handler, which parses the entries and stores them in its log.
\<close>

section \<open>Sending entries\<close>

text \<open>The serialised form of an entry behind the AppendEntries header.\<close>

definition entry_wire :: "raft_entry \<Rightarrow> bytes" where
  "entry_wire e =
     le_bytes 8 (e_term e) @ le_bytes 4 (of_nat (length (e_command e)) :: u32) @ e_command e"

definition payload_from :: "raft_log \<Rightarrow> u64 \<Rightarrow> nat \<Rightarrow> bytes" where
  "payload_from l next_idx n =
     concat (map (\<lambda>i. case raft_log_get l i of None \<Rightarrow> [] | Some e \<Rightarrow> entry_wire e)
               (u64_range next_idx n))"

definition entries_to_send :: "u64 \<Rightarrow> u64 \<Rightarrow> u32" where
  "entries_to_send last_idx next_idx =
     (if last_idx \<ge> next_idx then
        let n = (ucast (last_idx - next_idx + 1) :: u32)
        in if unat n > RAFT_MAX_ENTRIES_PER_APPEND then of_nat RAFT_MAX_ENTRIES_PER_APPEND else n
      else 0)"

definition raft_replicate_to_peer :: "raft_node \<Rightarrow> int \<Rightarrow> (raft_status_t \<times> raft_node) option" where
  "raft_replicate_to_peer node peer_id =
     (if role node \<noteq> RAFT_LEADER then Some (RAFT_NOT_LEADER, node)
      else if peer_id < 0 \<or> peer_id \<ge> num_nodes node then Some (RAFT_INVALID_ARG, node)
      else if peer_id = node_id node then Some (RAFT_OK, node)
      else if \<not> has_send_fn node then Some (RAFT_OK, node)
      else do {
        ni \<leftarrow> next_index node;
        next_idx \<leftarrow> arr_get ni peer_id;
        let last_idx = raft_log_last_index (log node);
        let prev_log_index = (if next_idx > 1 then next_idx - 1 else 0);
        let prev_log_term = raft_log_term_at (log node) prev_log_index;
        let entries_count = entries_to_send last_idx next_idx;
        let (ok, w) = malloc (wld node);
        let node = node\<lparr>wld := w\<rparr>;
        if \<not> ok then Some (RAFT_NO_MEMORY, node)
        else Some (RAFT_OK,
          send_fn peer_id
            (AppendEntries \<lparr>ae_term = current_term node, ae_leader_id = node_id node,
               ae_prev_log_index = prev_log_index, ae_prev_log_term = prev_log_term,
               ae_leader_commit = commit_index node, ae_entries_count = entries_count\<rparr>
               (payload_from (log node) next_idx (unat entries_count))) node)
      })"

fun replicate_to_all :: "int list \<Rightarrow> raft_node \<Rightarrow> raft_node option" where
  "replicate_to_all [] node = Some node"
| "replicate_to_all (i # is) node =
     (if i \<noteq> node_id node then do {
        (status, node) \<leftarrow> raft_replicate_to_peer node i;
        replicate_to_all is node
      }
      else replicate_to_all is node)"

definition raft_replicate_log :: "raft_node \<Rightarrow> (raft_status_t \<times> raft_node) option" where
  "raft_replicate_log node =
     (if role node \<noteq> RAFT_LEADER then Some (RAFT_NOT_LEADER, node)
      else map_option (Pair RAFT_OK) (replicate_to_all [0..num_nodes node - 1] node))"

section \<open>Receiving entries\<close>

definition raft_handle_append_entries_response ::
  "raft_node \<Rightarrow> int \<Rightarrow> raft_append_entries_response \<Rightarrow> (raft_status_t \<times> raft_node) option"
where
  "raft_handle_append_entries_response node from_node response =
     (if from_node < 0 \<or> from_node \<ge> num_nodes node then Some (RAFT_INVALID_ARG, node)
      else if role node \<noteq> RAFT_LEADER then Some (RAFT_OK, node)
      else if aer_term response > current_term node
      then map_option (Pair RAFT_OK) (raft_step_down node (aer_term response))
      else if aer_term response < current_term node then Some (RAFT_OK, node)
      else do {
        mi \<leftarrow> match_index node;
        ni \<leftarrow> next_index node;
        if aer_success response then do {
          m \<leftarrow> arr_get mi from_node;
          node \<leftarrow> (if aer_match_index response > m then do {
                    mi \<leftarrow> arr_set mi from_node (aer_match_index response);
                    ni \<leftarrow> arr_set ni from_node (aer_match_index response + 1);
                    Some (node\<lparr>match_index := Some mi, next_index := Some ni\<rparr>)
                  } else Some node);
          (status, node) \<leftarrow> raft_advance_commit_index node;
          Some (RAFT_OK, node)
        }
        else do {
          n \<leftarrow> arr_get ni from_node;
          if n > 1 then do {
            ni \<leftarrow> arr_set ni from_node (n - 1);
            Some (RAFT_OK, node\<lparr>next_index := Some ni\<rparr>)
          } else Some (RAFT_OK, node)
        }
      })"

text \<open>The body of the entry loop once an entry is parsed: drop a conflicting suffix, then
  append if the index is new. The status of the append is ignored.\<close>

definition store_entry :: "u64 \<Rightarrow> u64 \<Rightarrow> bytes \<Rightarrow> raft_log \<Rightarrow> world \<Rightarrow> (raft_log \<times> world) option" where
  "store_entry entry_index entry_term cmd l w = do {
     let existing_term = raft_log_term_at l entry_index;
     l \<leftarrow> (if existing_term \<noteq> 0 \<and> existing_term \<noteq> entry_term
             then map_option snd (raft_log_truncate_after l (entry_index - 1))
             else Some l);
     Some (if entry_index > raft_log_last_index l
           then (case raft_log_append l entry_term (Some cmd) w of
                   (status, idx, l, w) \<Rightarrow> (l, w))
           else (l, w))
   }"

text \<open>A read of \<open>n\<close> bytes at the head of what is left of a buffer; past its end it is undefined.\<close>

definition read_buf :: "nat \<Rightarrow> bytes \<Rightarrow> bytes option" where
  "read_buf n bs = (if n \<le> length bs then Some (take n bs) else None)"

lemma read_buf_ok [simp]: "n \<le> length bs \<Longrightarrow> read_buf n bs = Some (take n bs)"
  by (simp add: read_buf_def)

text \<open>The entry loop: \<open>n\<close> entries still announced, \<open>bs\<close> the bytes of the buffer from \<^verbatim>\<open>ptr\<close> up to
  \<^verbatim>\<open>end\<close>.\<close>

fun process_entries :: "nat \<Rightarrow> u64 \<Rightarrow> bytes \<Rightarrow> raft_log \<Rightarrow> world \<Rightarrow> (raft_log \<times> world) option" where
  "process_entries 0 entry_index bs l w = Some (l, w)"
| "process_entries (Suc n) entry_index bs l w =
     (if bs = [] then Some (l, w)
      else if length bs < 8 then Some (l, w)
      else do {
        entry_term \<leftarrow> map_option le_word (read_buf 8 bs);
        let bs = drop 8 bs;
        if length bs < 4 then Some (l, w)
        else do {
          cmd_len \<leftarrow> map_option (\<lambda>b. unat (le_word b :: u32)) (read_buf 4 bs);
          let bs = drop 4 bs;
          if length bs < cmd_len then Some (l, w)
          else do {
            cmd \<leftarrow> read_buf cmd_len bs;
            (l, w) \<leftarrow> store_entry entry_index entry_term cmd l w;
            process_entries n (entry_index + 1) (drop cmd_len bs) l w
          }
        }
      })"

definition raft_handle_append_entries_with_log ::
  "raft_node \<Rightarrow> raft_append_entries \<Rightarrow> bytes \<Rightarrow>
     (raft_status_t \<times> raft_append_entries_response \<times> raft_node) option"
where
  "raft_handle_append_entries_with_log node request payload = do {
     node \<leftarrow> (if ae_term request > current_term node
               then raft_step_down node (ae_term request) else Some node);
     let response = \<lparr>aer_term = current_term node, aer_success = False, aer_match_index = 0\<rparr>;
     if ae_term request < current_term node then Some (RAFT_OK, response, node)
     else
       let node = node\<lparr>election_timer_ms := 0, current_leader := ae_leader_id request\<rparr>;
           node = (if role node = RAFT_CANDIDATE
                   then node\<lparr>role := RAFT_FOLLOWER, votes_received := 0\<rparr> else node);
           prev = ae_prev_log_index request;
           term_at_prev = raft_log_term_at (log node) prev
       in if prev > 0 \<and> (term_at_prev = 0 \<or> term_at_prev \<noteq> ae_prev_log_term request)
          then Some (RAFT_OK, response\<lparr>aer_match_index := raft_log_last_index (log node)\<rparr>, node)
          else do {
            (l, w) \<leftarrow> (if ae_entries_count request > 0
                       then process_entries (unat (ae_entries_count request)) (prev + 1) payload
                              (log node) (wld node)
                       else Some (log node, wld node));
            let node = node\<lparr>log := l, wld := w\<rparr>;
            let node =
              (if ae_leader_commit request > commit_index node then
                 let last_new_index = prev + ucast (ae_entries_count request);
                     last_log = raft_log_last_index (log node);
                     new_commit = ae_leader_commit request;
                     new_commit = (if last_new_index < new_commit then last_new_index else new_commit);
                     new_commit = (if last_log < new_commit then last_log else new_commit)
                 in raft_apply_committed (node\<lparr>commit_index := new_commit\<rparr>)
               else node);
            Some (RAFT_OK, response\<lparr>aer_success := True,
                                    aer_match_index := raft_log_last_index (log node)\<rparr>, node)
          }
   }"

section \<open>Storing entries refines the log specification\<close>

text \<open>What one step of the entry loop does to the (term, command) list of the log: a conflicting
  entry and everything behind it make room, a missing one is appended, an entry of the same term
  stays.\<close>

definition spec_last :: "log_spec \<Rightarrow> nat" where
  "spec_last s = (case s of (b, bt, es) \<Rightarrow> b + length es)"

definition spec_store :: "log_spec \<Rightarrow> nat \<Rightarrow> u64 \<times> bytes \<Rightarrow> log_spec" where
  "spec_store s i e =
     (case spec_lookup s i of
        None \<Rightarrow> if spec_last s < i then spec_append s (fst e) (snd e) else s
      | Some (t, c) \<Rightarrow>
          if t \<noteq> 0 \<and> t \<noteq> fst e then spec_append (spec_truncate_after s (i - 1)) (fst e) (snd e) else s)"


lemma spec_last_view: "raft_log_wf l \<Longrightarrow> spec_last (log_view l) = log_last l"
  by (simp add: spec_last_def log_view_def log_last_def raft_log_wf_def)

lemma store_entry_refines:
  assumes wf: "raft_log_wf l" and mem: "alloc_ok w" and lo: "unat (base_index l) < unat i"
    and hi: "unat i \<le> log_last l + 1" and room: "unat i < 2 ^ 64 - 2"
  shows "\<exists>l'. store_entry i t c l w = Some (l', w) \<and> raft_log_wf l' \<and>
     log_view l' = spec_store (log_view l) (unat i) (t, c) \<and> base_index l' = base_index l \<and>
     base_term l' = base_term l \<and> unat i \<le> log_last l' \<and> log_last l' \<le> max (log_last l) (unat i)"
proof -
  have i0: "i \<noteq> 0" "i \<noteq> base_index l" using lo by auto
  have ta: "raft_log_term_at l i = (case spec_lookup (log_view l) (unat i) of None \<Rightarrow> 0 | Some (t, c) \<Rightarrow> t)"
    using raft_log_term_at_view [OF wf] i0 by simp
  have here: "spec_lookup (log_view l) (unat i) = None \<longleftrightarrow> log_last l < unat i"
    using lo wf by (auto simp: spec_lookup_def log_view_def log_last_def raft_log_wf_def)
  have app: "\<exists>l'. raft_log_append m t (Some c) w = (RAFT_OK, Some i, l', w) \<and> raft_log_wf l' \<and>
      log_view l' = spec_append (log_view m) t c \<and> base_index l' = base_index m \<and>
      base_term l' = base_term m \<and> log_last l' = unat i"
    if m: "raft_log_wf m" "log_last m = unat i - 1" for m
  proof -
    obtain st out l' w' where r: "raft_log_append m t (Some c) w = (st, out, l', w')"
      by (metis prod_cases4)
    have "map_option unat out = Some (unat i) \<Longrightarrow> out = Some i" by (auto simp: u64_eq_iff)
    then show ?thesis
      using raft_log_append_cases [OF r m(1)] raft_log_append_ok [OF r mem] m room lo r
      by (auto simp: cmd_bytes_def)
  qed
  have gt: "raft_log_last_index m < i \<longleftrightarrow> log_last m < unat i" if "raft_log_wf m" for m
    using raft_log_last_index_unat [OF that] by (simp add: u64_less)
  show ?thesis
  proof (cases "log_last l < unat i")
    case True
    then have none: "spec_lookup (log_view l) (unat i) = None" using here by simp
    obtain l' where l': "raft_log_append l t (Some c) w = (RAFT_OK, Some i, l', w)" "raft_log_wf l'"
      "log_view l' = spec_append (log_view l) t c" "base_index l' = base_index l"
      "base_term l' = base_term l" "log_last l' = unat i"
      using app [OF wf] True hi by fastforce
    then show ?thesis
      using none True gt [OF wf] ta wf
      by (simp add: store_entry_def spec_store_def spec_last_view)
  next
    case False
    then obtain t' c' where some: "spec_lookup (log_view l) (unat i) = Some (t', c')" using here by fastforce
    show ?thesis
    proof (cases "t' \<noteq> 0 \<and> t' \<noteq> t")
      case False': False
      then show ?thesis
        using some ta gt [OF wf] False wf by (auto simp: store_entry_def spec_store_def)
    next
      case True
      have pre: "base_index l \<le> i - 1" "unat (i - 1) = unat i - 1"
        using lo i0 by (simp_all add: u64_le unat_pred)
      obtain m where m: "raft_log_truncate_after l (i - 1) = Some (RAFT_OK, m)" "raft_log_wf m"
        "log_view m = spec_truncate_after (log_view l) (unat i - 1)" "base_index m = base_index l"
        "base_term m = base_term l" "log_last m = unat i - 1"
        using raft_log_truncate_after_ok [OF wf pre(1)] pre(2) False by auto
      obtain l' where "raft_log_append m t (Some c) w = (RAFT_OK, Some i, l', w)" "raft_log_wf l'"
        "log_view l' = spec_append (log_view m) t c" "base_index l' = base_index m"
        "base_term l' = base_term m" "log_last l' = unat i"
        using app [OF m(2,6)] by blast
      then show ?thesis
        using True some ta gt [OF m(2)] m lo by (simp add: store_entry_def spec_store_def)
    qed
  qed
qed

section \<open>Parsing and storing a message\<close>






definition wire :: "u64 \<times> bytes \<Rightarrow> bytes" where
  "wire e = le_bytes 8 (fst e) @ le_bytes 4 (of_nat (length (snd e)) :: u32) @ snd e"


section \<open>Well-formedness and votes\<close>

lemma raft_advance_commit_index_ok:
  assumes "node_ok n"
  shows "\<exists>st n'. raft_advance_commit_index n = Some (st, n') \<and> node_ok n' \<and> log n' = log n"
proof (cases "role n = RAFT_LEADER")
  case False
  then show ?thesis using assms by (simp add: raft_advance_commit_index_def)
next
  case True
  then obtain mi where mi: "match_index n = Some mi" "length mi = nat (num_nodes n)"
    using assms by (auto simp: node_ok_def leader_arrays_def)
  have "unat (raft_log_last_index (log n)) < 2 ^ 64 - 1"
    using assms by (simp add: node_ok_def raft_log_last_index_unat raft_log_wf_def)
  moreover have "unat (- 1 :: u64) = 2 ^ 64 - 1"
    by (simp add: unsigned_minus_1_eq_mask mask_eq_exp_minus_1)
  ultimately have "raft_log_last_index (log n) \<noteq> - 1" by auto
  moreover have "node_ok (raft_apply_committed (n\<lparr>commit_index := c\<rparr>))" for c
    by (rule node_ok_same [OF assms]) (use assms in \<open>simp_all add: node_ok_def\<close>)
  ultimately show ?thesis using True mi assms by (simp add: raft_advance_commit_index_def Let_def)
qed

lemma raft_replicate_to_peer_ok:
  assumes "node_ok n"
  shows "\<exists>st n'. raft_replicate_to_peer n i = Some (st, n') \<and> node_ok n' \<and> log n' = log n \<and>
    role n' = role n \<and> num_nodes n' = num_nodes n"
proof -
  have "node_ok (send_fn p m n)" for p m
    by (rule node_ok_same [OF assms]) (use assms in \<open>simp_all add: node_ok_def send_fn_def\<close>)
  then show ?thesis
    using assms by (auto simp: raft_replicate_to_peer_def node_ok_def leader_arrays_def arr_get_def Let_def
        send_fn_def)
qed

lemma raft_replicate_to_peer_shape:
  assumes "raft_replicate_to_peer n i = Some (st, n')"
  shows "n' = n \<or> (\<exists>w. n' = n\<lparr>wld := w\<rparr>) \<or>
    (\<exists>w r p. n' = send_fn i (AppendEntries r p) (n\<lparr>wld := w\<rparr>))"
proof (cases "role n \<noteq> RAFT_LEADER \<or> i < 0 \<or> i \<ge> num_nodes n \<or> i = node_id n \<or> \<not> has_send_fn n")
  case True
  then have "n' = n" using assms by (auto simp: raft_replicate_to_peer_def split: if_splits)
  then show ?thesis by simp
next
  case False
  obtain ok w where m: "malloc (wld n) = (ok, w)" by fastforce
  show ?thesis
    using assms False
    by (cases "next_index n"; cases "arr_get (the (next_index n)) i"; cases ok)
      (auto simp: raft_replicate_to_peer_def m Let_def)
qed

lemma raft_replicate_to_peer_neutral:
  "raft_replicate_to_peer n i = Some (st, n') \<Longrightarrow> vote_neutral n n'"
  by (drule raft_replicate_to_peer_shape) (auto simp: vote_neutral_def send_fn_def)

lemma replicate_to_all_ok:
  "node_ok n \<Longrightarrow> \<exists>n'. replicate_to_all is n = Some n' \<and> node_ok n' \<and> log n' = log n"
proof (induction "is" arbitrary: n)
  case Nil
  then show ?case by simp
next
  case (Cons i "is")
  obtain st m where "raft_replicate_to_peer n i = Some (st, m)" "node_ok m" "log m = log n"
    using raft_replicate_to_peer_ok [OF Cons.prems, of i] by blast
  then show ?case using Cons.IH [of m] Cons.IH [OF Cons.prems] by simp
qed

lemma replicate_to_all_neutral: "replicate_to_all is n = Some n' \<Longrightarrow> vote_neutral n n'"
proof (induction "is" arbitrary: n)
  case Nil
  then show ?case by simp
next
  case (Cons i "is")
  then show ?case
    by (fastforce simp: bind_eq_Some_conv intro: vote_neutral_trans raft_replicate_to_peer_neutral
        split: if_splits)
qed

lemma raft_replicate_log_ok:
  "node_ok n \<Longrightarrow> \<exists>st n'. raft_replicate_log n = Some (st, n') \<and> node_ok n' \<and> log n' = log n"
  using replicate_to_all_ok by (fastforce simp: raft_replicate_log_def)

lemma raft_replicate_log_neutral: "raft_replicate_log n = Some (st, n') \<Longrightarrow> vote_neutral n n'"
  by (auto simp: raft_replicate_log_def dest: replicate_to_all_neutral split: if_splits)

lemma raft_handle_append_entries_response_ok:
  assumes "node_ok n"
  shows "\<exists>st n'. raft_handle_append_entries_response n from r = Some (st, n') \<and> node_ok n' \<and> log n' = log n"
proof (cases "from < 0 \<or> from \<ge> num_nodes n \<or> role n \<noteq> RAFT_LEADER \<or> aer_term r \<noteq> current_term n")
  case True
  then show ?thesis
    using assms raft_step_down_ok [OF assms, of "aer_term r"]
    by (auto simp: raft_handle_append_entries_response_def neq_iff)
next
  case False
  then obtain ni mi where a: "next_index n = Some ni" "match_index n = Some mi"
    "length ni = nat (num_nodes n)" "length mi = nat (num_nodes n)"
    using assms by (auto simp: node_ok_def leader_arrays_def)
  have upd: "node_ok (n\<lparr>next_index := Some (ni[i := v])\<rparr>)"
    "node_ok (n\<lparr>match_index := Some (mi[j := u]), next_index := Some (ni[i := v])\<rparr>)" for i v j u
    using assms a by (simp_all add: node_ok_def leader_arrays_def)
  obtain st1 n1 where n1: "raft_advance_commit_index n = Some (st1, n1)" "node_ok n1" "log n1 = log n"
    using raft_advance_commit_index_ok [OF assms] by blast
  obtain st2 n2 where n2: "raft_advance_commit_index (n\<lparr>match_index := Some (mi[nat from := aer_match_index r]),
      next_index := Some (ni[nat from := aer_match_index r + 1])\<rparr>) = Some (st2, n2)" "node_ok n2" "log n2 = log n"
    using raft_advance_commit_index_ok [OF upd(2)] by fastforce
  show ?thesis
    using False a n1 n2 upd assms
    by (simp add: raft_handle_append_entries_response_def arr_get_def arr_set_def Let_def)
qed

lemma raft_handle_append_entries_response_votes:
  assumes inv: "node_inv B n" and eq: "raft_handle_append_entries_response n from r = Some (st, n')"
  shows "node_inv B n'"
proof -
  let ?u = "\<lambda>a b. n\<lparr>match_index := a, next_index := b\<rparr>"
  have u: "vote_neutral n (?u a b)" for a b by (simp add: vote_neutral_def)
  have v: "vote_neutral n (n\<lparr>next_index := b\<rparr>)" for b by (simp add: vote_neutral_def)
  have "(current_term n < aer_term r \<and> raft_step_down n (aer_term r) = Some n') \<or> n' = n \<or>
      (\<exists>b. n' = n\<lparr>next_index := b\<rparr>) \<or> (\<exists>s. raft_advance_commit_index n = Some (s, n')) \<or>
      (\<exists>a b s. raft_advance_commit_index (?u a b) = Some (s, n'))"
    using eq unfolding raft_handle_append_entries_response_def
    by (auto simp: bind_eq_Some_conv Let_def split: if_splits)
  then consider "current_term n < aer_term r" "raft_step_down n (aer_term r) = Some n'" | "vote_neutral n n'"
    using vote_neutral_trans [OF u] raft_advance_commit_index_neutral vote_neutral_refl v by metis
  then show ?thesis
    using raft_step_down_votes [OF inv] vote_neutral_votes [OF inv] by cases blast+
qed

text \<open>Whatever bytes follow the header, the entry loop only ever stores at the next index.\<close>

lemma process_entries_ok:
  assumes "raft_log_wf l" and "alloc_ok w" and "unat (base_index l) < unat i"
    and "unat i \<le> log_last l + 1" and "unat i + k < 2 ^ 64 - 2"
  shows "\<exists>l'. process_entries k i bs l w = Some (l', w) \<and> raft_log_wf l' \<and> base_index l' = base_index l \<and>
    log_last l' \<le> max (log_last l) (unat i + k)"
  using assms
proof (induction k arbitrary: i bs l)
  case 0
  then show ?case by simp
next
  case (Suc k)
  let ?bs = "drop 12 bs"
  define c where "c = unat (le_word (take 4 (drop 8 bs)) :: u32)"
  have stop: ?case if "process_entries (Suc k) i bs l w = Some (l, w)"
    using that Suc.prems by simp
  obtain m where m: "store_entry i (le_word (take 8 bs)) (take c ?bs) l w = Some (m, w)" "raft_log_wf m"
    "base_index m = base_index l" "unat i \<le> log_last m" "log_last m \<le> max (log_last l) (unat i)"
    using store_entry_refines [OF Suc.prems(1-4)] Suc.prems(5) by fastforce
  have i1: "unat (i + 1) = unat i + 1" using Suc.prems(5) by (intro unat_succ) simp
  have "\<exists>l'. process_entries k (i + 1) (drop c ?bs) m w = Some (l', w) \<and> raft_log_wf l' \<and>
      base_index l' = base_index m \<and> log_last l' \<le> max (log_last m) (unat (i + 1) + k)"
    by (rule Suc.IH [OF m(2) Suc.prems(2)]) (use m Suc.prems i1 in auto)
  then have go: ?case if "process_entries (Suc k) i bs l w = process_entries k (i + 1) (drop c ?bs) m w"
    using that m i1 by fastforce
  show ?case
  proof (cases "length bs < 12 \<or> length ?bs < c")
    case True
    then show ?thesis using stop by (auto simp: Let_def c_def)
  next
    case False
    then have "bs \<noteq> []" "\<not> length bs < 8" "\<not> length bs - 8 < 4" "\<not> length ?bs < c" by auto
    then show ?thesis using m(1) by (intro go) (simp add: Let_def c_def)
  qed
qed

text \<open>The part of the handler behind the term check, on the node that caught up.\<close>

definition accepts :: "raft_log \<Rightarrow> raft_append_entries \<Rightarrow> bool" where
  "accepts l r \<longleftrightarrow>
     (ae_prev_log_index r = 0 \<or>
      raft_log_term_at l (ae_prev_log_index r) \<noteq> 0 \<and>
      raft_log_term_at l (ae_prev_log_index r) = ae_prev_log_term r)"

definition follow :: "raft_node \<Rightarrow> raft_append_entries \<Rightarrow> raft_node" where
  "follow m r =
     (let m = m\<lparr>election_timer_ms := 0, current_leader := ae_leader_id r\<rparr>
      in if role m = RAFT_CANDIDATE then m\<lparr>role := RAFT_FOLLOWER, votes_received := 0\<rparr> else m)"

definition follower_commit :: "raft_node \<Rightarrow> raft_append_entries \<Rightarrow> u64" where
  "follower_commit n r =
     min (min (ae_leader_commit r) (ae_prev_log_index r + ucast (ae_entries_count r)))
         (raft_log_last_index (log n))"

lemma follow_frame [simp]:
  "log (follow m r) = log m" "wld (follow m r) = wld m" "node_id (follow m r) = node_id m"
  "num_nodes (follow m r) = num_nodes m" "votes_granted (follow m r) = votes_granted m"
  "voted_for (follow m r) = voted_for m" "current_term (follow m r) = current_term m"
  "next_index (follow m r) = next_index m" "match_index (follow m r) = match_index m"
  "outbox (follow m r) = outbox m" "commit_index (follow m r) = commit_index m"
  "last_applied (follow m r) = last_applied m" "applied (follow m r) = applied m"
  "has_apply_fn (follow m r) = has_apply_fn m"
  by (simp_all add: follow_def Let_def)

lemma follow_role: "role (follow m r) = (if role m = RAFT_CANDIDATE then RAFT_FOLLOWER else role m)"
  by (simp add: follow_def Let_def)

lemma with_log_unfold:
  assumes "catch_up n (ae_term r) = Some m" and "\<not> ae_term r < current_term m"
  shows "raft_handle_append_entries_with_log n r payload =
    (let f = follow m r;
         resp = \<lparr>aer_term = current_term m, aer_success = False, aer_match_index = 0\<rparr>
     in if \<not> accepts (log m) r
        then Some (RAFT_OK, resp\<lparr>aer_match_index := raft_log_last_index (log m)\<rparr>, f)
        else do {
          (l, w) \<leftarrow> (if ae_entries_count r > 0
             then process_entries (unat (ae_entries_count r)) (ae_prev_log_index r + 1) payload (log m) (wld m)
             else Some (log m, wld m));
          let f' = f\<lparr>log := l, wld := w\<rparr>;
          Some (RAFT_OK, resp\<lparr>aer_success := True, aer_match_index := raft_log_last_index l\<rparr>,
            if ae_leader_commit r > commit_index m
            then raft_apply_committed (f'\<lparr>commit_index := follower_commit f' r\<rparr>) else f')
        })"
proof -
  have acc: "(ae_prev_log_index r > 0 \<and> (raft_log_term_at l (ae_prev_log_index r) = 0 \<or>
      raft_log_term_at l (ae_prev_log_index r) \<noteq> ae_prev_log_term r)) = (\<not> accepts l r)" for l
    by (auto simp: accepts_def word_neq_0_conv)
  have com: "(if b < (if a < c then a else c) then b else (if a < c then a else c)) = min (min c a) (b :: u64)" for a b c
    by (simp add: min_def not_le) (auto simp: not_le)
  show ?thesis
    using assms unfolding raft_handle_append_entries_with_log_def catch_up_def [symmetric]
    by (simp add: Let_def follow_def acc com follower_commit_def cong: if_cong)
qed

lemma follow_neutral: "vote_neutral m (follow m r)"
  by (simp add: follow_def vote_neutral_def Let_def)

lemma raft_handle_append_entries_with_log_votes:
  assumes inv: "node_inv B n" and eq: "raft_handle_append_entries_with_log n r payload = Some (st, resp, n')"
  shows "node_inv B n' \<and> node_id n' = node_id n"
proof -
  obtain m where m: "catch_up n (ae_term r) = Some m"
    using eq by (auto simp: raft_handle_append_entries_with_log_def catch_up_def bind_eq_Some_conv)
  note cu = catch_up_votes [OF inv m]
  have "vote_neutral m n'"
  proof (cases "ae_term r < current_term m")
    case True
    then have "n' = m"
      using eq m unfolding raft_handle_append_entries_with_log_def catch_up_def [symmetric] by simp
    then show ?thesis by simp
  next
    case False
    have "vote_neutral (follow m r) n'"
      using eq unfolding with_log_unfold [OF m False]
      by (auto simp: Let_def bind_eq_Some_conv vote_neutral_def split: if_splits)
    then show ?thesis using follow_neutral vote_neutral_trans by blast
  qed
  then show ?thesis using cu vote_neutral_votes by (auto simp: vote_neutral_def)
qed

lemma accepts_range:
  assumes wf: "raft_log_wf l" and acc: "accepts l r" and zero: "ae_prev_log_index r = 0 \<Longrightarrow> base_index l = 0"
  shows "unat (base_index l) \<le> unat (ae_prev_log_index r) \<and> unat (ae_prev_log_index r) \<le> log_last l"
proof (cases "ae_prev_log_index r = 0 \<or> ae_prev_log_index r = base_index l")
  case True
  then show ?thesis using zero by (auto simp: log_last_def)
next
  case False
  then have "raft_log_get l (ae_prev_log_index r) \<noteq> None"
    using acc by (auto simp: accepts_def raft_log_term_at_def split: option.splits)
  then show ?thesis by (auto simp: raft_log_get_eq [OF wf] split: if_splits)
qed

text \<open>No message can make the follower access memory outside its log, as long as its log has
  not been compacted or the message does not claim to start at the very beginning, and indices
  stay below the wrap-around.\<close>

lemma raft_handle_append_entries_with_log_ok:
  assumes ok: "node_ok n" and zero: "ae_prev_log_index r = 0 \<Longrightarrow> base_index (log n) = 0"
    and room: "unat (ae_prev_log_index r) + unat (ae_entries_count r) < 2 ^ 64 - 3"
  shows "\<exists>resp n'. raft_handle_append_entries_with_log n r payload = Some (RAFT_OK, resp, n') \<and> node_ok n' \<and>
    base_index (log n') = base_index (log n)"
proof -
  obtain m where m: "catch_up n (ae_term r) = Some m" "node_ok m" "log m = log n"
    using catch_up_ok [OF ok] by blast
  have wf: "raft_log_wf (log m)" "alloc_ok (wld m)" using m(2) by (simp_all add: node_ok_def)
  show ?thesis
  proof (cases "ae_term r < current_term m")
    case True
    then show ?thesis
      using m unfolding raft_handle_append_entries_with_log_def catch_up_def [symmetric] by simp
  next
    case False
    let ?f = "follow m r"
    have f: "node_ok (?f\<lparr>log := l, wld := w, commit_index := c\<rparr>)"
      "node_ok (?f\<lparr>log := l, wld := w\<rparr>)" if "raft_log_wf l" "alloc_ok w" for l w c
      using m(2) that by (simp_all add: node_ok_def leader_arrays_def follow_role)
    have fa: "node_ok (raft_apply_committed (?f\<lparr>log := l, wld := w, commit_index := c\<rparr>))"
      if "raft_log_wf l" "alloc_ok w" for l w c
      by (rule node_ok_same [OF f(1) [OF that, of c]]) (use that in simp_all)
    show ?thesis
    proof (cases "accepts (log m) r")
      case False': False
      have "node_ok ?f"
        by (rule node_ok_same [OF m(2)]) (use wf in \<open>simp_all add: follow_role split: if_splits\<close>)
      then show ?thesis using False' m(3) unfolding with_log_unfold [OF m(1) False] by (simp add: Let_def)
    next
      case acc: True
      note ran = accepts_range [OF wf(1) acc] zero m(3)
      have p1: "unat (ae_prev_log_index r + 1) = unat (ae_prev_log_index r) + 1"
        using room by (intro unat_succ) simp
      have "\<exists>l. process_entries (unat (ae_entries_count r)) (ae_prev_log_index r + 1) payload (log m) (wld m)
          = Some (l, wld m) \<and> raft_log_wf l \<and> base_index l = base_index (log m) \<and>
          log_last l \<le> max (log_last (log m)) (unat (ae_prev_log_index r + 1) + unat (ae_entries_count r))"
        by (rule process_entries_ok [OF wf]) (use ran p1 room in auto)
      then obtain l where "process_entries (unat (ae_entries_count r)) (ae_prev_log_index r + 1) payload (log m) (wld m)
          = Some (l, wld m)" "raft_log_wf l" "base_index l = base_index (log m)" by blast
      then show ?thesis
        using acc f fa wf m(3) unfolding with_log_unfold [OF m(1) False] by (simp add: Let_def)
    qed
  qed
qed


section \<open>From the leader's log to the follower's\<close>

lemma payload_from_view:
  assumes wf: "raft_log_wf l" and lo: "unat (base_index l) < unat i" and hi: "unat i + k \<le> log_last l + 1"
  shows "payload_from l i k =
    concat (map wire (take k (drop (unat i - unat (base_index l) - 1) (snd (snd (log_view l))))))"
proof -
  let ?b = "unat (base_index l)"
  have cnt: "count l \<le> length (entries l)" "log_last l < 2 ^ 64 - 1" using wf by (simp_all add: raft_log_wf_def)
  have "(case raft_log_get l (i + of_nat j) of None \<Rightarrow> [] | Some e \<Rightarrow> entry_wire e)
      = wire (take k (drop (unat i - ?b - 1) (snd (snd (log_view l)))) ! j)" if "j < k" for j
  proof -
    have u: "unat (i + of_nat j) = unat i + j" using that hi cnt by (intro unat_add_of_nat) simp
    have "raft_log_get l (i + of_nat j) = Some (entries l ! (unat i + j - ?b - 1))"
      using that lo hi u by (simp add: raft_log_get_eq [OF wf])
    moreover have "unat i - ?b - 1 + j < count l" using that lo hi by (simp add: log_last_def)
    ultimately show ?thesis
      using that cnt lo by (simp add: log_view_def entry_wire_def wire_def)
  qed
  moreover have "length (take k (drop (unat i - ?b - 1) (snd (snd (log_view l))))) = k"
    using lo hi by (simp add: log_view_length [OF wf] log_last_def)
  ultimately have "map (\<lambda>j. case raft_log_get l (i + of_nat j) of None \<Rightarrow> [] | Some e \<Rightarrow> entry_wire e) [0..<k]
      = map wire (take k (drop (unat i - ?b - 1) (snd (snd (log_view l)))))"
    by (intro nth_equalityI) simp_all
  then show ?thesis by (simp add: payload_from_def u64_range_def comp_def)
qed

definition view_entries :: "raft_log \<Rightarrow> (u64 \<times> bytes) list" where
  "view_entries l = snd (snd (log_view l))"

text \<open>The entries of the log from index \<open>i\<close> on that fit one message.\<close>

definition next_batch :: "raft_log \<Rightarrow> u64 \<Rightarrow> (u64 \<times> bytes) list" where
  "next_batch l i = take RAFT_MAX_ENTRIES_PER_APPEND (drop (unat i - unat (base_index l) - 1) (view_entries l))"

lemma length_next_batch:
  assumes "raft_log_wf l" and "unat (base_index l) < unat i"
  shows "length (next_batch l i) = min RAFT_MAX_ENTRIES_PER_APPEND (log_last l + 1 - unat i)"
  using assms by (simp add: next_batch_def view_entries_def log_view_length log_last_def)


lemma entries_to_send_count:
  assumes "raft_log_wf l" and "unat (base_index l) < unat i" and "unat i \<le> log_last l"
    and "log_last l + 1 < unat i + 2 ^ 32"
  shows "unat (entries_to_send (raft_log_last_index l) i) = length (next_batch l i)"
proof -
  let ?l = "raft_log_last_index l"
  have l: "unat ?l = log_last l" using assms(1) by (rule raft_log_last_index_unat)
  have le: "i \<le> ?l" using assms(3) l by (simp add: u64_le)
  have lt: "log_last l < 2 ^ 64 - 1" using assms(1) by (simp add: raft_log_wf_def)
  have "unat (?l - i + 1) = log_last l - unat i + 1"
    using le l lt assms(3) by (subst unat_succ) (simp_all add: unat_diff)
  then have "unat (ucast (?l - i + 1) :: u32) = log_last l + 1 - unat i"
    using assms(3,4) by (simp add: unsigned_ucast_eq take_bit_nat_eq_self)
  then show ?thesis
    using le length_next_batch [OF assms(1,2)] by (simp add: entries_to_send_def Let_def)
qed

lemma raft_replicate_to_peer_sends:
  assumes ok: "node_ok n" and "role n = RAFT_LEADER" and "0 \<le> i" "i < num_nodes n" "i \<noteq> node_id n"
    and "has_send_fn n" and ni: "next_index n = Some ni" and nx: "nx = ni ! nat i"
    and lo: "unat (base_index (log n)) < unat nx" and hi: "unat nx \<le> log_last (log n)"
    and few: "log_last (log n) + 1 < unat nx + 2 ^ 32"
  shows "raft_replicate_to_peer n i = Some (RAFT_OK,
     send_fn i (AppendEntries \<lparr>ae_term = current_term n, ae_leader_id = node_id n,
       ae_prev_log_index = nx - 1, ae_prev_log_term = raft_log_term_at (log n) (nx - 1),
       ae_leader_commit = commit_index n,
       ae_entries_count = entries_to_send (raft_log_last_index (log n)) nx\<rparr>
       (concat (map wire (next_batch (log n) nx)))) n)"
proof -
  have wf: "raft_log_wf (log n)" using ok by (simp add: node_ok_def)
  have len: "length ni = nat (num_nodes n)" using ok assms(2) ni by (auto simp: node_ok_def leader_arrays_def)
  note cnt = entries_to_send_count [OF wf lo hi few]
  have get: "arr_get ni i = Some nx" using assms(3,4) nx len by (simp add: arr_get_def)
  have "nx = 1" if "\<not> nx > 1"
    using that lo by (simp add: u64_less u64_eq_iff [of nx 1])
  then have "(if nx > 1 then nx - 1 else 0) = nx - 1" by auto
  moreover have "payload_from (log n) nx (length (next_batch (log n) nx)) =
      concat (map wire (next_batch (log n) nx))"
    using length_next_batch [OF wf lo] hi log_view_length [OF wf]
    by (subst payload_from_view [OF wf lo])
      (auto simp: next_batch_def view_entries_def min_def log_last_def)
  ultimately show ?thesis
    using assms(1-6) ni get cnt
    by (simp add: raft_replicate_to_peer_def node_ok_def Let_def del: if_split cong: if_cong)
qed



end
