(* ===== verification/Raft_Dispatch.thy ===== *)
theory Raft_Dispatch
  imports Raft_Replication
begin

text \<open>
  The entry points of a node: proposals (\<^verbatim>\<open>raft_propose\<close> of
  \<^verbatim>\<open>raft.c\<close>), the message dispatcher of \<^verbatim>\<open>election.c\<close> and the clock
  ticks of \<^verbatim>\<open>timer.c\<close>. The weak fallbacks of \<^verbatim>\<open>raft_replicate_log\<close> in
  \<^verbatim>\<open>raft.c\<close> and \<^verbatim>\<open>timer.c\<close> are replaced by the definition of
  \<^verbatim>\<open>replication.c\<close> in the linked library, so that definition is the one called
  here.
\<close>

section \<open>Proposals, dispatch and ticks\<close>

definition raft_propose ::
  "raft_node \<Rightarrow> bytes option \<Rightarrow> (raft_status_t \<times> u64 option \<times> raft_node) option"
where
  "raft_propose node command =
     (if \<not> running node then Some (RAFT_STOPPED, None, node)
      else if role node \<noteq> RAFT_LEADER then Some (RAFT_NOT_LEADER, None, node)
      else case raft_log_append (log node) (current_term node) command (wld node) of
        (status, idx, l, w) \<Rightarrow>
          let node = node\<lparr>log := l, wld := w\<rparr> in
          if status \<noteq> RAFT_OK then Some (status, None, node)
          else do {
            index \<leftarrow> idx;
            if num_nodes node = 1 then Some (RAFT_OK, Some index, node\<lparr>commit_index := index\<rparr>)
            else do {
              (st, node) \<leftarrow> raft_replicate_log node;
              Some (RAFT_OK, Some index, node)
            }
          })"

text \<open>\<^verbatim>\<open>if (status == RAFT_OK && node->send_fn) send_fn(from, response)\<close>\<close>

definition reply :: "int \<Rightarrow> raft_status_t \<Rightarrow> raft_msg \<Rightarrow> raft_node \<Rightarrow> raft_status_t \<times> raft_node" where
  "reply from_node status m node =
     (status, if status = RAFT_OK \<and> has_send_fn node then send_fn from_node m node else node)"

text \<open>
  \<open>msg_len\<close> is the length of the buffer that the caller passes. The casts of the message to its struct read the
  bytes of the struct: \<open>read_struct\<close> is undefined for a buffer that is shorter. The entries behind an AppendEntries
  header are the bytes up to \<open>msg_len\<close>; a buffer that holds fewer is undefined as well.
\<close>

definition read_struct :: "nat \<Rightarrow> nat \<Rightarrow> 'a \<Rightarrow> 'a option" where
  "read_struct bytes msg_len v = (if bytes \<le> msg_len then Some v else None)"

lemma read_struct_ok [simp]: "bytes \<le> msg_len \<Longrightarrow> read_struct bytes msg_len v = Some v"
  by (simp add: read_struct_def)

fun dispatch_message :: "raft_node \<Rightarrow> int \<Rightarrow> raft_msg \<Rightarrow> nat \<Rightarrow> (raft_status_t \<times> raft_node) option" where
  "dispatch_message node from_node (RequestVote req) msg_len =
     (if msg_len < SIZEOF_REQUEST_VOTE then Some (RAFT_INVALID_ARG, node)
      else do {
        req \<leftarrow> read_struct SIZEOF_REQUEST_VOTE msg_len req;
        (status, response, node) \<leftarrow> raft_handle_request_vote node req;
        Some (reply from_node status (RequestVoteResponse response) node)
      })"
| "dispatch_message node from_node (RequestVoteResponse resp) msg_len =
     (if msg_len < SIZEOF_REQUEST_VOTE_RESPONSE then Some (RAFT_INVALID_ARG, node)
      else do {
        resp \<leftarrow> read_struct SIZEOF_REQUEST_VOTE_RESPONSE msg_len resp;
        raft_handle_request_vote_response node from_node resp
      })"
| "dispatch_message node from_node (AppendEntries req payload) msg_len =
     (if msg_len < SIZEOF_APPEND_ENTRIES then Some (RAFT_INVALID_ARG, node)
      else do {
        req \<leftarrow> read_struct SIZEOF_APPEND_ENTRIES msg_len req;
        (status, response, node) \<leftarrow>
          (if ae_entries_count req > 0
           then do {
             entries \<leftarrow> read_buf (msg_len - SIZEOF_APPEND_ENTRIES) payload;
             raft_handle_append_entries_with_log node req entries
           }
           else raft_handle_append_entries node req);
        Some (reply from_node status (AppendEntriesResponse response) node)
      })"
| "dispatch_message node from_node (AppendEntriesResponse resp) msg_len =
     (if msg_len < SIZEOF_APPEND_ENTRIES_RESPONSE then Some (RAFT_INVALID_ARG, node)
      else do {
        resp \<leftarrow> read_struct SIZEOF_APPEND_ENTRIES_RESPONSE msg_len resp;
        raft_handle_append_entries_response node from_node resp
      })"
| "dispatch_message node from_node (PreVote req) msg_len =
     (if msg_len < SIZEOF_PRE_VOTE then Some (RAFT_INVALID_ARG, node)
      else do {
        req \<leftarrow> read_struct SIZEOF_PRE_VOTE msg_len req;
        case raft_handle_pre_vote node req of (status, response) \<Rightarrow>
          Some (reply from_node status (PreVoteResponse response) node)
      })"
| "dispatch_message node from_node (PreVoteResponse resp) msg_len =
     (if msg_len < SIZEOF_PRE_VOTE_RESPONSE then Some (RAFT_INVALID_ARG, node)
      else do {
        resp \<leftarrow> read_struct SIZEOF_PRE_VOTE_RESPONSE msg_len resp;
        raft_handle_pre_vote_response node from_node resp
      })"
| "dispatch_message node from_node (TimeoutNow req) msg_len =
     (if msg_len < SIZEOF_TIMEOUT_NOW then Some (RAFT_INVALID_ARG, node)
      else do {
        req \<leftarrow> read_struct SIZEOF_TIMEOUT_NOW msg_len req;
        raft_handle_timeout_now node req
      })"
| "dispatch_message node from_node (InstallSnapshot r d) msg_len = Some (RAFT_INVALID_ARG, node)"
| "dispatch_message node from_node (InstallSnapshotResponse r) msg_len = Some (RAFT_INVALID_ARG, node)"
| "dispatch_message node from_node (UnknownMsg t d) msg_len = Some (RAFT_INVALID_ARG, node)"

definition raft_receive_message ::
  "raft_node \<Rightarrow> int \<Rightarrow> raft_msg \<Rightarrow> nat \<Rightarrow> (raft_status_t \<times> raft_node) option"
where
  "raft_receive_message node from_node m msg_len =
     (if msg_len < SIZEOF_MSG_TYPE then Some (RAFT_INVALID_ARG, node)
      else do {
        m \<leftarrow> read_struct SIZEOF_MSG_TYPE msg_len m;
        dispatch_message node from_node m msg_len
      })"

definition raft_tick_election :: "raft_node \<Rightarrow> u64 \<Rightarrow> (raft_status_t \<times> raft_node) option" where
  "raft_tick_election node elapsed_ms =
     (if \<not> running node then Some (RAFT_STOPPED, node)
      else if role node = RAFT_LEADER then Some (RAFT_OK, node)
      else
        let node = node\<lparr>election_timer_ms := election_timer_ms node + elapsed_ms\<rparr>
        in if election_timer_ms node \<ge> election_timeout_ms node
           then raft_start_election node
           else Some (RAFT_OK, node))"

definition raft_tick_heartbeat :: "raft_node \<Rightarrow> u64 \<Rightarrow> (raft_status_t \<times> raft_node) option" where
  "raft_tick_heartbeat node elapsed_ms =
     (if \<not> running node then Some (RAFT_STOPPED, node)
      else if role node \<noteq> RAFT_LEADER then Some (RAFT_OK, node)
      else
        let node = node\<lparr>heartbeat_timer_ms := heartbeat_timer_ms node + elapsed_ms\<rparr>
        in if heartbeat_timer_ms node \<ge> RAFT_HEARTBEAT_INTERVAL_MS
           then raft_replicate_log (node\<lparr>heartbeat_timer_ms := 0\<rparr>)
           else Some (RAFT_OK, node))"

definition raft_tick :: "raft_node \<Rightarrow> u64 \<Rightarrow> (raft_status_t \<times> raft_node) option" where
  "raft_tick node elapsed_ms = do {
     (status, node) \<leftarrow> raft_tick_election node elapsed_ms;
     if status \<noteq> RAFT_OK then Some (status, node)
     else raft_tick_heartbeat node elapsed_ms
   }"

section \<open>Every entry point keeps the voting invariant\<close>

lemma reply_votes:
  assumes "node_inv B n" and "msg_ok B (node_id n) to m" and "reply to st m n = (st', n')"
  shows "node_inv B n' \<and> cast n' = cast n"
proof -
  have "node_inv B (send_fn to m n)"
    using assms(1,2) vote_inv_frame [of B n "send_fn to m n"]
    by (auto simp: node_inv_def outbox_ok_def send_fn_def)
  moreover have "cast (send_fn to m n) = cast n" by (simp add: cast_def send_fn_def)
  ultimately show ?thesis using assms by (auto simp: reply_def split: if_splits)
qed

lemma node_inv_cast: "node_inv B n \<Longrightarrow> node_inv (B \<union> cast n) n"
  by (simp add: node_inv_def vote_inv_cast)

lemma dispatch_request_vote_votes:
  assumes inv: "node_inv B n" and ok: "msg_ok B from (node_id n) (RequestVote r)"
    and eq: "dispatch_message n from (RequestVote r) len = Some (st, n')"
  shows "node_inv (B \<union> cast n') n'"
proof (cases "len < SIZEOF_REQUEST_VOTE")
  case True
  then show ?thesis using eq inv by (simp add: node_inv_cast)
next
  case False
  then obtain st1 resp m where h: "raft_handle_request_vote n r = Some (st1, resp, m)"
    and rep: "reply from st1 (RequestVoteResponse resp) m = (st, n')"
    using eq by (auto simp: bind_eq_Some_conv)
  have hv: "node_inv (B \<union> cast m) m \<and> node_id m = node_id n \<and>
    (rvr_vote_granted resp \<longrightarrow> rvr_term resp = current_term m \<and> voted_for m = rv_candidate_id r)"
    by (rule raft_handle_request_vote_votes [OF inv h]) (use ok in simp)
  have "msg_ok (B \<union> cast m) (node_id m) from (RequestVoteResponse resp)"
    using hv ok by (auto simp: cast_def)
  then show ?thesis using reply_votes [OF conjunct1 [OF hv] _ rep] by simp
qed

lemma dispatch_append_entries_votes:
  assumes inv: "node_inv B n" and eq: "dispatch_message n from (AppendEntries r p) len = Some (st, n')"
  shows "node_inv B n'"
proof (cases "len < SIZEOF_APPEND_ENTRIES")
  case True
  then show ?thesis using eq inv by simp
next
  case False
  obtain st1 resp m where h: "(if ae_entries_count r > 0
       then do { entries \<leftarrow> read_buf (len - SIZEOF_APPEND_ENTRIES) p; raft_handle_append_entries_with_log n r entries }
       else raft_handle_append_entries n r) = Some (st1, resp, m)"
    and rep: "reply from st1 (AppendEntriesResponse resp) m = (st, n')"
    using eq False by (auto simp: bind_eq_Some_conv)
  have "node_inv B m"
    using h raft_handle_append_entries_votes [OF inv] raft_handle_append_entries_with_log_votes [OF inv]
    by (auto simp: bind_eq_Some_conv split: if_splits)
  then show ?thesis using reply_votes [OF _ _ rep] by simp
qed

lemma raft_receive_message_votes:
  assumes inv: "node_inv B n" and ok: "msg_ok B from (node_id n) m"
    and eq: "raft_receive_message n from m len = Some (st, n')" and wrap: "current_term n \<noteq> - 1"
  shows "node_inv (B \<union> cast n') n'"
proof (cases "len < SIZEOF_MSG_TYPE")
  case True
  then show ?thesis using eq inv by (simp add: raft_receive_message_def node_inv_cast)
next
  case False
  then have d: "dispatch_message n from m len = Some (st, n')"
    using eq by (simp add: raft_receive_message_def)
  show ?thesis
  proof (cases m)
    case (RequestVote r)
    then show ?thesis using dispatch_request_vote_votes [OF inv] ok d by blast
  next
    case (RequestVoteResponse r)
    then have "node_inv B n'"
      using raft_handle_request_vote_response_votes [OF inv, of "from" r] ok d inv by (auto split: if_splits)
    then show ?thesis by (rule node_inv_cast)
  next
    case (AppendEntries r p)
    then show ?thesis using dispatch_append_entries_votes [OF inv] d node_inv_cast by blast
  next
    case (AppendEntriesResponse r)
    then have "node_inv B n'"
      using raft_handle_append_entries_response_votes [OF inv] d inv by (auto split: if_splits)
    then show ?thesis by (rule node_inv_cast)
  next
    case (PreVote r)
    then have "node_inv B n'" using d inv
      by (auto split: if_splits prod.splits dest!: reply_votes [OF inv, rotated])
    then show ?thesis by (rule node_inv_cast)
  next
    case (PreVoteResponse r)
    then show ?thesis
      using raft_handle_pre_vote_response_votes [OF inv _ wrap] d inv by (auto simp: node_inv_cast split: if_splits)
  next
    case (TimeoutNow r)
    then show ?thesis
      using raft_handle_timeout_now_votes [OF inv _ wrap] d inv by (auto simp: node_inv_cast split: if_splits)
  qed (use d inv in \<open>simp_all add: node_inv_cast\<close>)
qed

lemma raft_propose_neutral:
  assumes eq: "raft_propose n cmd = Some (st, idx, n')"
  shows "vote_neutral n n'"
proof -
  obtain s i l w where app: "raft_log_append (log n) (current_term n) cmd (wld n) = (s, i, l, w)"
    by (metis prod_cases4)
  let ?m = "n\<lparr>log := l, wld := w\<rparr>"
  have m: "vote_neutral n ?m" "vote_neutral n (?m\<lparr>commit_index := c\<rparr>)" for c
    by (simp_all add: vote_neutral_def)
  have "n' = n \<or> n' = ?m \<or> (\<exists>c. n' = ?m\<lparr>commit_index := c\<rparr>) \<or> (\<exists>s. raft_replicate_log ?m = Some (s, n'))"
    using eq by (auto simp: raft_propose_def app bind_eq_Some_conv Let_def split: if_splits)
  then show ?thesis
    using m vote_neutral_trans [OF m(1) raft_replicate_log_neutral] by (elim disjE exE) simp_all
qed

lemma raft_tick_heartbeat_neutral: "raft_tick_heartbeat n e = Some (st, n') \<Longrightarrow> vote_neutral n n'"
proof -
  assume eq: "raft_tick_heartbeat n e = Some (st, n')"
  have t: "vote_neutral n (n\<lparr>heartbeat_timer_ms := h\<rparr>)" for h by (simp add: vote_neutral_def)
  have "n' = n \<or> (\<exists>h. n' = n\<lparr>heartbeat_timer_ms := h\<rparr> \<or> raft_replicate_log (n\<lparr>heartbeat_timer_ms := h\<rparr>) = Some (st, n'))"
    using eq by (auto simp: raft_tick_heartbeat_def Let_def split: if_splits)
  then show ?thesis using t vote_neutral_trans [OF t raft_replicate_log_neutral] by (elim disjE exE) simp_all
qed

lemma raft_tick_votes:
  assumes inv: "node_inv B n" and eq: "raft_tick n e = Some (st, n')" and wrap: "current_term n \<noteq> - 1"
  shows "node_inv (B \<union> cast n') n'"
proof -
  obtain st1 m where m: "raft_tick_election n e = Some (st1, m)"
    and r: "m = n' \<or> raft_tick_heartbeat m e = Some (st, n')"
    using eq by (auto simp: raft_tick_def bind_eq_Some_conv split: if_splits)
  let ?t = "n\<lparr>election_timer_ms := election_timer_ms n + e\<rparr>"
  have t: "vote_neutral n ?t" by (simp add: vote_neutral_def)
  have it: "node_inv B ?t" by (rule vote_neutral_votes [OF inv t])
  have "m = n \<or> m = ?t \<or> raft_start_election ?t = Some (st1, m)"
    using m by (auto simp: raft_tick_election_def Let_def split: if_splits)
  then have im: "node_inv (B \<union> cast m) m"
    using inv it raft_start_election_votes [OF it] wrap by (auto simp: node_inv_cast)
  have "vote_neutral m n'" using r raft_tick_heartbeat_neutral by auto
  moreover from this have "cast n' = cast m" by (simp add: cast_def vote_neutral_def)
  ultimately show ?thesis using vote_neutral_votes [OF im] by simp
qed

section \<open>Every entry point is defined on well-formed nodes\<close>

text \<open>The side condition of a message with entries; every other message is always safe.\<close>

fun receivable :: "raft_node \<Rightarrow> raft_msg \<Rightarrow> bool" where
  "receivable n (AppendEntries r p) =
     ((ae_prev_log_index r = 0 \<longrightarrow> base_index (log n) = 0) \<and>
      unat (ae_prev_log_index r) + unat (ae_entries_count r) < 2 ^ 64 - 3)"
| "receivable n m = True"

text \<open>The buffer of the message has \<open>len\<close> bytes: the entries of an AppendEntries message reach that far.\<close>

fun buffer_holds :: "raft_msg \<Rightarrow> nat \<Rightarrow> bool" where
  "buffer_holds (AppendEntries r p) len = (len \<le> SIZEOF_APPEND_ENTRIES + length p)"
| "buffer_holds m len = True"

lemma reply_ok:
  assumes "node_ok n"
  shows "\<exists>st' n'. reply to st m n = (st', n') \<and> node_ok n' \<and> log n' = log n"
proof -
  have "node_ok (send_fn to m n)"
    by (rule node_ok_same [OF assms]) (use assms in \<open>simp_all add: node_ok_def send_fn_def\<close>)
  then show ?thesis using assms by (simp add: reply_def send_fn_def)
qed

lemma raft_tick_ok:
  assumes ok: "node_ok n"
  shows "\<exists>st n'. raft_tick n e = Some (st, n') \<and> node_ok n' \<and> log n' = log n"
proof -
  have t: "node_ok (n\<lparr>election_timer_ms := h\<rparr>)" for h
    by (rule node_ok_same [OF ok]) (use ok in \<open>simp_all add: node_ok_def\<close>)
  obtain st1 m1 where e: "raft_start_election (n\<lparr>election_timer_ms := election_timer_ms n + e\<rparr>) = Some (st1, m1)"
    "node_ok m1" "log m1 = log n"
    using raft_start_election_ok [OF t, of "election_timer_ms n + e"] by auto
  have "\<exists>st m. raft_tick_election n e = Some (st, m) \<and> node_ok m \<and> log m = log n"
    using ok t e by (simp add: raft_tick_election_def Let_def)
  then obtain st m where m: "raft_tick_election n e = Some (st, m)" "node_ok m" "log m = log n" by blast
  have h: "node_ok (m\<lparr>heartbeat_timer_ms := x\<rparr>)" for x
    by (rule node_ok_same [OF m(2)]) (use m in \<open>simp_all add: node_ok_def\<close>)
  obtain st2 m2 where r: "raft_replicate_log (m\<lparr>heartbeat_timer_ms := 0\<rparr>) = Some (st2, m2)"
    "node_ok m2" "log m2 = log m"
    using raft_replicate_log_ok [OF h, of 0] by auto
  have "\<exists>st n'. raft_tick_heartbeat m e = Some (st, n') \<and> node_ok n' \<and> log n' = log m"
    using m h r by (simp add: raft_tick_heartbeat_def Let_def)
  then show ?thesis using m by (simp add: raft_tick_def)
qed

lemma raft_propose_ok:
  assumes ok: "node_ok n" and room: "log_last (log n) < 2 ^ 64 - 2"
    and act: "running n" "role n = RAFT_LEADER"
  shows "\<exists>idx n'. raft_propose n cmd = Some (RAFT_OK, Some idx, n') \<and> node_ok n' \<and>
    unat idx = log_last (log n) + 1 \<and>
    log_view (log n') = spec_append (log_view (log n)) (current_term n) (cmd_bytes cmd)"
proof -
  have wf: "raft_log_wf (log n)" "alloc_ok (wld n)" using ok by (simp_all add: node_ok_def)
  obtain s i l w where app: "raft_log_append (log n) (current_term n) cmd (wld n) = (s, i, l, w)"
    by (metis prod_cases4)
  note al = raft_log_append_cases [OF app wf(1) room] raft_log_append_ok [OF app wf(2)]
  then obtain idx where i: "i = Some idx" "unat idx = log_last (log n) + 1" by auto
  have m: "node_ok (n\<lparr>log := l, wld := w\<rparr>)" "node_ok (n\<lparr>log := l, wld := w, commit_index := c\<rparr>)" for c
    using al ok by (simp_all add: node_ok_def leader_arrays_def)
  obtain st n' where "raft_replicate_log (n\<lparr>log := l, wld := w\<rparr>) = Some (st, n')" "node_ok n'" "log n' = l"
    using raft_replicate_log_ok [OF m(1)] by auto
  then show ?thesis using act al i m by (simp add: raft_propose_def app Let_def)
qed

section \<open>Properties\<close>

text \<open>Several ticks of the clock.\<close>

primrec raft_ticks :: "nat \<Rightarrow> u64 \<Rightarrow> raft_node \<Rightarrow> raft_node option" where
  "raft_ticks 0 e n = Some n"
| "raft_ticks (Suc k) e n = do { (st, n) \<leftarrow> raft_tick n e; raft_ticks k e n }"

text \<open>C9: A follower of a cluster with other nodes that hears from no leader campaigns: once its clock ticks
  add up to its election timeout, one of them starts an election in the next term. This is what the code
  does: \<^verbatim>\<open>raft_tick_election\<close> calls \<^verbatim>\<open>raft_start_election\<close> directly and never
  \<^verbatim>\<open>raft_start_pre_vote\<close>, although \<^verbatim>\<open>param.h\<close> and the architecture document announce a
  PreVote phase before the term is raised.\<close>

theorem election_timeout_campaigns:
  assumes "node_ok n" and "running n" and "role n = RAFT_FOLLOWER" and "1 < num_nodes n" and "0 < k"
    and "unat (election_timer_ms n) + k * unat e < 2 ^ 64"
    and "unat (election_timeout_ms n) \<le> unat (election_timer_ms n) + k * unat e"
  shows "\<exists>j n'. j \<le> k \<and> raft_ticks j e n = Some n' \<and> campaigning n n'"
  using assms
proof (induction k arbitrary: n)
  case 0
  then show ?case by simp
next
  case (Suc k)
  define m where "m = n\<lparr>election_timer_ms := election_timer_ms n + e\<rparr>"
  have t: "unat (election_timer_ms n + e) = unat (election_timer_ms n) + unat e"
    using Suc.prems(6) by (intro unat_add_of_nat [of _ "unat e", simplified]) simp
  have m: "node_ok m" "running m" "role m = RAFT_FOLLOWER" "1 < num_nodes m"
    using Suc.prems by (simp_all add: m_def node_ok_def leader_arrays_def)
  have same: "campaigning m = campaigning n" by (rule ext) (simp add: m_def campaigning_def send_to_peers_def)
  show ?case
  proof (cases "election_timeout_ms n \<le> election_timer_ms n + e")
    case True
    then have "raft_tick_election n e = raft_start_election m"
      using Suc.prems by (simp add: raft_tick_election_def m_def Let_def)
    then obtain n' where "raft_tick n e = Some (RAFT_OK, n')" "campaigning n n'"
      using raft_start_election_campaign [OF m(1,2,4)] same
      by (auto simp: raft_tick_def raft_tick_heartbeat_def campaigning_def)
    then show ?thesis by (intro exI [of _ "Suc 0"] exI [of _ n']) simp
  next
    case False
    then have tick: "raft_tick n e = Some (RAFT_OK, m)"
      using Suc.prems by (simp add: raft_tick_def raft_tick_election_def raft_tick_heartbeat_def m_def Let_def)
    have "0 < k" using False Suc.prems(7) t by (cases k) (simp_all add: u64_le)
    moreover have "unat (election_timer_ms m) + k * unat e < 2 ^ 64"
      "unat (election_timeout_ms m) \<le> unat (election_timer_ms m) + k * unat e"
      using Suc.prems(6,7) t by (simp_all add: m_def)
    ultimately obtain j n' where "j \<le> k" "raft_ticks j e m = Some n'" "campaigning n n'"
      using Suc.IH [OF m] same by auto
    then show ?thesis using tick by (intro exI [of _ "Suc j"] exI [of _ n']) simp
  qed
qed

theorem election_timeout_campaigns_witness:
  "\<exists>j n'. j \<le> 30 \<and> raft_ticks j 10 (sample_node 1 3 RAFT_FOLLOWER 4 two_logs) = Some n' \<and>
     role n' = RAFT_CANDIDATE \<and> current_term n' = 5 \<and> voted_for n' = 1"
  using election_timeout_campaigns [OF sample_node_ok, of two_logs 1 3 RAFT_FOLLOWER 4 30 10]
  by (force simp: sample_logs campaigning_def)

text \<open>C7: Every message is handled without undefined behaviour: on a consistent node (whose allocations succeed) the dispatcher returns for any sender, any content of the message and any length up to the size of the buffer, even one too short for the message or ending in the middle of an entry, without reading past the buffer; and the node stays consistent. The only messages excluded are AppendEntries with indices at the 64-bit limit or without a previous entry on a compacted log.\<close>

theorem raft_receive_message_ok:
  assumes ok: "node_ok n" and fit: "receivable n m" and buf: "buffer_holds m len"
  shows "\<exists>st n'. raft_receive_message n from m len = Some (st, n') \<and> node_ok n' \<and>
    base_index (log n') = base_index (log n)"
proof (cases "len < SIZEOF_MSG_TYPE")
  case True
  then show ?thesis using ok by (simp add: raft_receive_message_def)
next
  case False
  have "\<exists>st n'. dispatch_message n from m len = Some (st, n') \<and> node_ok n' \<and>
    base_index (log n') = base_index (log n)"
  proof (cases m)
    case (RequestVote r)
    obtain resp k where "raft_handle_request_vote n r = Some (RAFT_OK, resp, k)" "node_ok k" "log k = log n"
      using raft_handle_request_vote_ok [OF ok] by blast
    then show ?thesis
      using RequestVote ok reply_ok [of k "from" RAFT_OK "RequestVoteResponse resp"] by auto
  next
    case (RequestVoteResponse r)
    then show ?thesis using ok raft_handle_request_vote_response_ok [OF ok, of "from" r] by auto
  next
    case (AppendEntries r p)
    have "\<exists>resp k. raft_handle_append_entries_with_log n r (take (len - SIZEOF_APPEND_ENTRIES) p)
        = Some (RAFT_OK, resp, k) \<and> node_ok k \<and> base_index (log k) = base_index (log n)"
      by (rule raft_handle_append_entries_with_log_ok [OF ok]) (use fit AppendEntries in simp_all)
    moreover have "\<exists>resp k. raft_handle_append_entries n r = Some (RAFT_OK, resp, k) \<and> node_ok k \<and>
        base_index (log k) = base_index (log n)"
      using raft_handle_append_entries_ok [OF ok] by fastforce
    moreover have "read_buf (len - SIZEOF_APPEND_ENTRIES) p = Some (take (len - SIZEOF_APPEND_ENTRIES) p)"
      using buf AppendEntries by simp
    ultimately obtain resp k where k: "(if ae_entries_count r > 0
       then do { entries \<leftarrow> read_buf (len - SIZEOF_APPEND_ENTRIES) p; raft_handle_append_entries_with_log n r entries }
       else raft_handle_append_entries n r) = Some (RAFT_OK, resp, k)" "node_ok k"
       "base_index (log k) = base_index (log n)" by (cases "ae_entries_count r > 0") auto
    obtain st n' where "reply from RAFT_OK (AppendEntriesResponse resp) k = (st, n')" "node_ok n'" "log n' = log k"
      using reply_ok [OF k(2)] by blast
    then show ?thesis
      using AppendEntries ok k by (simp only: dispatch_message.simps) simp
  next
    case (AppendEntriesResponse r)
    then show ?thesis using ok raft_handle_append_entries_response_ok [OF ok, of "from" r] by auto
  next
    case (PreVote r)
    obtain st resp where "raft_handle_pre_vote n r = (st, resp)" by fastforce
    then show ?thesis using PreVote ok reply_ok [OF ok, of "from" st "PreVoteResponse resp"] by auto
  next
    case (PreVoteResponse r)
    then show ?thesis using ok raft_handle_pre_vote_response_ok [OF ok, of "from" r] by auto
  next
    case (TimeoutNow r)
    then show ?thesis using ok raft_handle_timeout_now_ok [OF ok, of r] by auto
  qed (use ok in simp_all)
  then show ?thesis using False by (simp add: raft_receive_message_def)
qed

theorem raft_receive_message_ok_witness:
  "\<exists>st n'. raft_receive_message (sample_node 1 3 RAFT_FOLLOWER 1 two_logs) 0
      (AppendEntries \<lparr>ae_term = 9, ae_leader_id = 0, ae_prev_log_index = 5, ae_prev_log_term = 3,
         ae_leader_commit = 77, ae_entries_count = 4\<rparr> [1, 2, 3]) 59 = Some (st, n') \<and> node_ok n'"
  using raft_receive_message_ok [OF sample_node_ok, of two_logs 1 3 RAFT_FOLLOWER 1
      "AppendEntries \<lparr>ae_term = 9, ae_leader_id = 0, ae_prev_log_index = 5, ae_prev_log_term = 3,
         ae_leader_commit = 77, ae_entries_count = 4\<rparr> [1, 2, 3]" 59 0]
  by (auto simp: sample_logs)

end
