(* ===== verification/Raft_Snapshot.thy ===== *)
theory Raft_Snapshot
  imports Raft_Node
begin

text \<open>
  Snapshots and log compaction (\<^verbatim>\<open>consensus/src/snapshot.c\<close>): the snapshot file,
  written to a temporary file and renamed, its loading, the installation of a leader's snapshot
  and the automatic compaction. The snapshot callback is user code: a parameter that returns a
  status, the state buffer and its length.
\<close>

section \<open>The snapshot file\<close>

definition RAFT_SNAPSHOT_MAGIC :: u32 where "RAFT_SNAPSHOT_MAGIC = 0x52534E50"
definition RAFT_SNAPSHOT_VERSION :: u32 where "RAFT_SNAPSHOT_VERSION = 1"
definition RAFT_SNAPSHOT_FILE :: string where "RAFT_SNAPSHOT_FILE = ''raft_snapshot.dat''"

record snapshot_header =
  sh_magic :: u32
  sh_version :: u32
  sh_crc32 :: u32
  sh_padding :: u32
  sh_last_index :: u64
  sh_last_term :: u64
  sh_state_len :: u64

definition SNAPSHOT_HEADER_SIZE :: nat where "SNAPSHOT_HEADER_SIZE = 40"

definition snapshot_header_bytes :: "snapshot_header \<Rightarrow> bytes" where
  "snapshot_header_bytes h =
     le_bytes 4 (sh_magic h) @ le_bytes 4 (sh_version h) @ le_bytes 4 (sh_crc32 h) @
     le_bytes 4 (sh_padding h) @ le_bytes 8 (sh_last_index h) @ le_bytes 8 (sh_last_term h) @
     le_bytes 8 (sh_state_len h)"

definition snapshot_header_of :: "bytes \<Rightarrow> snapshot_header" where
  "snapshot_header_of bs =
     \<lparr>sh_magic = le_word (take 4 bs), sh_version = le_word (take 4 (drop 4 bs)),
      sh_crc32 = le_word (take 4 (drop 8 bs)), sh_padding = le_word (take 4 (drop 12 bs)),
      sh_last_index = le_word (take 8 (drop 16 bs)), sh_last_term = le_word (take 8 (drop 24 bs)),
      sh_state_len = le_word (take 8 (drop 32 bs))\<rparr>"

text \<open>The checksum covers \<^verbatim>\<open>last_index\<close> and \<^verbatim>\<open>last_term\<close> only.\<close>

definition snapshot_crc :: "u64 \<Rightarrow> u64 \<Rightarrow> u32" where
  "snapshot_crc last_index last_term = crc32 (le_bytes 8 last_index @ le_bytes 8 last_term)"

record raft_snapshot_meta =
  sm_last_index :: u64
  sm_last_term :: u64

definition make_snapshot_path :: "string \<Rightarrow> world \<Rightarrow> string option \<times> world" where
  "make_snapshot_path dir w =
     (case malloc w of (ok, w) \<Rightarrow> (if ok then Some (path_of dir RAFT_SNAPSHOT_FILE) else None, w))"

definition raft_snapshot_exists :: "string \<Rightarrow> world \<Rightarrow> bool \<times> world" where
  "raft_snapshot_exists dir w =
     (case make_snapshot_path dir w of
        (None, w) \<Rightarrow> (False, w)
      | (Some path, w) \<Rightarrow>
          if w_fs w path = None then (False, w)
          else case sys_ok w of (ok, w) \<Rightarrow>
            (ok \<and> SNAPSHOT_HEADER_SIZE \<le> length (file_bytes path w), w))"

text \<open>The checks of a header read from the file.\<close>

definition snapshot_header_status :: "snapshot_header \<Rightarrow> raft_status_t" where
  "snapshot_header_status h =
     (if sh_magic h \<noteq> RAFT_SNAPSHOT_MAGIC then RAFT_CORRUPTION
      else if sh_version h \<noteq> RAFT_SNAPSHOT_VERSION then RAFT_CORRUPTION
      else if sh_crc32 h \<noteq> snapshot_crc (sh_last_index h) (sh_last_term h) then RAFT_CORRUPTION
      else RAFT_OK)"

definition header_meta :: "snapshot_header \<Rightarrow> raft_snapshot_meta" where
  "header_meta h = \<lparr>sm_last_index = sh_last_index h, sm_last_term = sh_last_term h\<rparr>"

definition raft_snapshot_load_meta ::
  "string \<Rightarrow> world \<Rightarrow> raft_status_t \<times> raft_snapshot_meta option \<times> world"
where
  "raft_snapshot_load_meta dir w =
     (case make_snapshot_path dir w of
        (None, w) \<Rightarrow> (RAFT_NO_MEMORY, None, w)
      | (Some path, w) \<Rightarrow>
          case sys_open_read path w of (opened, w) \<Rightarrow>
          if opened \<noteq> Open_ok then (RAFT_NOT_FOUND, None, w)
          else case read_full (file_bytes path w) SNAPSHOT_HEADER_SIZE w of
            (None, w) \<Rightarrow> (RAFT_IO_ERROR, None, w)
          | (Some bs, w) \<Rightarrow>
              let header = snapshot_header_of bs; status = snapshot_header_status header
              in if status \<noteq> RAFT_OK then (status, None, w)
                 else (RAFT_OK, Some (header_meta header), w))"

text \<open>\<open>state_data\<close> is the buffer, or \<open>None\<close> for a null pointer; it holds \<open>state_len\<close>
  bytes. The result of \<^verbatim>\<open>fsync\<close> is ignored by the code.\<close>

definition raft_snapshot_create ::
  "string \<Rightarrow> u64 \<Rightarrow> u64 \<Rightarrow> bytes option \<Rightarrow> nat \<Rightarrow> world \<Rightarrow> raft_status_t \<times> world"
where
  "raft_snapshot_create dir last_index last_term state_data state_len w =
     (case make_snapshot_path dir w of
        (None, w) \<Rightarrow> (RAFT_NO_MEMORY, w)
      | (Some path, w) \<Rightarrow>
          case malloc w of (ok, w) \<Rightarrow>
          if \<not> ok then (RAFT_NO_MEMORY, w)
          else
            let tmp = path @ TEMP_SUFFIX;
                header = \<lparr>sh_magic = RAFT_SNAPSHOT_MAGIC, sh_version = RAFT_SNAPSHOT_VERSION,
                  sh_crc32 = snapshot_crc last_index last_term, sh_padding = 0,
                  sh_last_index = last_index, sh_last_term = last_term,
                  sh_state_len = of_nat state_len\<rparr>
            in case sys_open_trunc tmp w of (ok, w) \<Rightarrow>
               if \<not> ok then (RAFT_IO_ERROR, w)
               else case sys_write tmp 0 (snapshot_header_bytes header) w of (n, w) \<Rightarrow>
               if n \<noteq> Some SNAPSHOT_HEADER_SIZE then (RAFT_IO_ERROR, sys_unlink tmp w)
               else case (case state_data of
                            Some d \<Rightarrow>
                              if state_len > 0 then sys_write tmp SNAPSHOT_HEADER_SIZE (take state_len d) w
                              else (Some state_len, w)
                          | None \<Rightarrow> (Some state_len, w)) of (n, w) \<Rightarrow>
               if n \<noteq> Some state_len then (RAFT_IO_ERROR, sys_unlink tmp w)
               else case sys_ok w of (synced, w) \<Rightarrow>
               case sys_rename tmp path w of (ok, w) \<Rightarrow>
               if \<not> ok then (RAFT_IO_ERROR, sys_unlink tmp w)
               else (RAFT_OK, w))"

text \<open>The outputs: the metadata, and the state buffer with its length, each \<open>None\<close> while the
  code has not written it.\<close>

definition raft_snapshot_load ::
  "string \<Rightarrow> world \<Rightarrow>
     raft_status_t \<times> (raft_snapshot_meta \<times> u64) option \<times> bytes option \<times> world"
where
  "raft_snapshot_load dir w =
     (case make_snapshot_path dir w of
        (None, w) \<Rightarrow> (RAFT_NO_MEMORY, None, None, w)
      | (Some path, w) \<Rightarrow>
          case sys_open_read path w of (opened, w) \<Rightarrow>
          if opened \<noteq> Open_ok then (RAFT_NOT_FOUND, None, None, w)
          else case read_full (file_bytes path w) SNAPSHOT_HEADER_SIZE w of
            (None, w) \<Rightarrow> (RAFT_IO_ERROR, None, None, w)
          | (Some bs, w) \<Rightarrow>
              let header = snapshot_header_of bs; status = snapshot_header_status header;
                  out = Some (header_meta header, sh_state_len header);
                  len = unat (sh_state_len header)
              in if status \<noteq> RAFT_OK then (status, None, None, w)
                 else if len > 0 then
                   (case malloc w of (ok, w) \<Rightarrow>
                      if \<not> ok then (RAFT_NO_MEMORY, out, None, w)
                      else case read_full (drop SNAPSHOT_HEADER_SIZE (file_bytes path w)) len w of
                        (None, w) \<Rightarrow> (RAFT_IO_ERROR, out, None, w)
                      | (Some d, w) \<Rightarrow> (RAFT_OK, out, Some d, w))
                 else (RAFT_OK, out, None, w))"

section \<open>Installing a snapshot and compacting the log\<close>

text \<open>\<^verbatim>\<open>free(entries[i].command)\<close> for the first \<open>k\<close> slots.\<close>

definition free_commands :: "nat \<Rightarrow> raft_entry list \<Rightarrow> raft_entry list" where
  "free_commands k es = map (\<lambda>e. e\<lparr>e_command := []\<rparr>) (take k es) @ drop k es"

definition raft_snapshot_install ::
  "raft_node \<Rightarrow> raft_snapshot_meta \<Rightarrow> bytes option \<Rightarrow> nat \<Rightarrow> raft_status_t \<times> raft_node"
where
  "raft_snapshot_install node meta state_data state_len =
     (case (case data_dir node of
              None \<Rightarrow> (RAFT_OK, wld node)
            | Some dir \<Rightarrow> raft_snapshot_create dir (sm_last_index meta) (sm_last_term meta)
                            state_data state_len (wld node)) of (status, w) \<Rightarrow>
      let node = node\<lparr>wld := w\<rparr> in
      if status \<noteq> RAFT_OK then (status, node)
      else
        let l = log node;
            l = l\<lparr>entries := free_commands (count l) (entries l), count := 0,
                  base_index := sm_last_index meta, base_term := sm_last_term meta\<rparr>;
            node = node\<lparr>log := l\<rparr>;
            node = (if sm_last_index meta > commit_index node
                    then node\<lparr>commit_index := sm_last_index meta\<rparr> else node);
            node = (if sm_last_index meta > last_applied node
                    then node\<lparr>last_applied := sm_last_index meta\<rparr> else node)
        in (RAFT_OK, node))"

type_synonym snapshot_cb = "raft_node \<Rightarrow> raft_status_t \<times> bytes option \<times> nat"

text \<open>The static \<^verbatim>\<open>g_snapshot_cb\<close>, shared by all nodes of the process, is an
  argument; setting it replaces it.\<close>

definition raft_set_snapshot_callback :: "snapshot_cb option \<Rightarrow> snapshot_cb option \<Rightarrow> snapshot_cb option" where
  "raft_set_snapshot_callback callback g_snapshot_cb = callback"

definition raft_snapshot_reset_callback :: "snapshot_cb option \<Rightarrow> snapshot_cb option" where
  "raft_snapshot_reset_callback g_snapshot_cb = None"

definition raft_entries_since_snapshot :: "raft_node \<Rightarrow> u64" where
  "raft_entries_since_snapshot node = of_nat (raft_log_count (log node))"

text \<open>The removal of the entries up to \<open>compact_index\<close> at the end of the compaction.\<close>

definition compact_log :: "u64 \<Rightarrow> u64 \<Rightarrow> raft_log \<Rightarrow> raft_log" where
  "compact_log compact_index compact_term l =
     (let entries_to_remove = unat (compact_index - base_index l);
          es = free_commands (min entries_to_remove (count l)) (entries l);
          l = (if entries_to_remove < count l then
                 let remaining = count l - entries_to_remove
                 in l\<lparr>entries := take remaining (drop entries_to_remove es) @ drop remaining es,
                      count := remaining\<rparr>
               else l\<lparr>entries := es, count := 0\<rparr>)
      in l\<lparr>base_index := compact_index, base_term := compact_term\<rparr>)"

definition raft_maybe_compact ::
  "snapshot_cb option \<Rightarrow> raft_node \<Rightarrow> raft_status_t \<times> raft_node"
where
  "raft_maybe_compact g_snapshot_cb node =
     (case data_dir node of
        None \<Rightarrow> (RAFT_OK, node)
      | Some dir \<Rightarrow>
          if raft_entries_since_snapshot node < of_nat RAFT_AUTO_COMPACTION_THRESHOLD
          then (RAFT_OK, node)
          else case g_snapshot_cb of
            None \<Rightarrow> (RAFT_OK, node)
          | Some cb \<Rightarrow>
              let compact_index = last_applied node in
              if compact_index = 0 then (RAFT_OK, node)
              else
                let compact_term = (case raft_log_get (log node) compact_index of
                                      Some e \<Rightarrow> e_term e | None \<Rightarrow> base_term (log node))
                in case cb node of (status, state_data, state_len) \<Rightarrow>
                   if status \<noteq> RAFT_OK then (status, node)
                   else case raft_snapshot_create dir compact_index compact_term state_data state_len
                               (wld node) of (status, w) \<Rightarrow>
                     let node = node\<lparr>wld := w\<rparr> in
                     if status \<noteq> RAFT_OK then (status, node)
                     else (RAFT_OK, node\<lparr>log := compact_log compact_index compact_term (log node)\<rparr>))"

section \<open>The snapshot file: atomic replacement and round trip\<close>

definition snapshot_path :: "string \<Rightarrow> string" where
  "snapshot_path dir = path_of dir RAFT_SNAPSHOT_FILE"

definition snapshot_image :: "u64 \<Rightarrow> u64 \<Rightarrow> bytes \<Rightarrow> bytes" where
  "snapshot_image i t d =
     snapshot_header_bytes \<lparr>sh_magic = RAFT_SNAPSHOT_MAGIC, sh_version = RAFT_SNAPSHOT_VERSION,
       sh_crc32 = snapshot_crc i t, sh_padding = 0, sh_last_index = i, sh_last_term = t,
       sh_state_len = of_nat (length d)\<rparr> @ d"

lemma length_snapshot_header [simp]: "length (snapshot_header_bytes h) = 40"
  by (simp add: snapshot_header_bytes_def)

lemma snapshot_header_codec [le_codec]: "snapshot_header_of (snapshot_header_bytes h) = h"
  by (simp add: snapshot_header_of_def snapshot_header_bytes_def)

lemma sys_write_append:
  "sys_write q (length a) d w = (Some (length d), w') \<Longrightarrow> w_fs w q = Some a \<Longrightarrow> w_fs w' q = Some (a @ d)"
  by (auto simp: sys_write_def file_bytes_def dest: io_next_frame arg_cong [where f = length]
      split: prod.splits io_outcome.splits)

lemma snapshot_create_all_or_nothing:
  assumes "raft_snapshot_create dir i t (Some d) (length d) w = (st, w')"
  shows "if st = RAFT_OK then w_fs w' (snapshot_path dir) = Some (snapshot_image i t d)
         else w_fs w' (snapshot_path dir) = w_fs w (snapshot_path dir)"
proof -
  let ?p = "path_of dir RAFT_SNAPSHOT_FILE"
  let ?tmp = "?p @ TEMP_SUFFIX"
  let ?h = "snapshot_header_bytes \<lparr>sh_magic = RAFT_SNAPSHOT_MAGIC, sh_version = RAFT_SNAPSHOT_VERSION,
       sh_crc32 = snapshot_crc i t, sh_padding = 0, sh_last_index = i, sh_last_term = t,
       sh_state_len = of_nat (length d)\<rparr>"
  have ne: "?p \<noteq> ?tmp" by (simp add: TEMP_SUFFIX_def)
  obtain ok0 w0 where 0: "malloc w = (ok0, w0)" by fastforce
  obtain ok1 w1 where 1: "malloc w0 = (ok1, w1)" by fastforce
  obtain ok2 w2 where 2: "sys_open_trunc ?tmp w1 = (ok2, w2)" by fastforce
  obtain n3 w3 where 3: "sys_write ?tmp 0 ?h w2 = (n3, w3)" by fastforce
  obtain n4 w4 where 4: "(if d = [] then (Some 0, w3) else sys_write ?tmp SNAPSHOT_HEADER_SIZE d w3) = (n4, w4)"
    by fastforce
  obtain ok5 w5 where 5: "sys_ok w4 = (ok5, w5)" by fastforce
  obtain ok6 w6 where 6: "sys_rename ?tmp ?p w5 = (ok6, w6)" by fastforce
  have fs01: "w_fs w0 = w_fs w" "w_fs w1 = w_fs w" using malloc_frame [OF 0] malloc_frame [OF 1] by simp_all
  have fs2: "w_fs w2 ?p = w_fs w ?p" "ok2 \<Longrightarrow> w_fs w2 ?tmp = Some []"
    using 2 ne fs01 by (auto simp: sys_open_trunc_def dest: sys_ok_frame split: prod.splits if_splits)
  have fs3: "w_fs w3 ?p = w_fs w ?p" using sys_write_other [OF 3 ne] fs2 by simp
  have new3: "w_fs w3 ?tmp = Some ?h" if "ok2" "n3 = Some 40"
    using sys_write_whole [of ?tmp ?h w2 w3] 3 fs2 that by simp
  have fs4: "w_fs w4 ?p = w_fs w ?p" using 4 fs3 sys_write_other [OF _ ne] by (auto split: if_splits)
  have new4: "w_fs w4 ?tmp = Some (?h @ d)" if "ok2" "n3 = Some 40" "n4 = Some (length d)"
    using 4 new3 [OF that(1,2)] that(3) sys_write_append [of ?tmp ?h d w3 w4]
    by (auto simp: SNAPSHOT_HEADER_SIZE_def split: if_splits)
  have fs5: "w_fs w5 = w_fs w4" using sys_ok_frame [OF 5] by simp
  have fs6: "ok6 \<Longrightarrow> w_fs w6 ?p = w_fs w5 ?tmp" "\<not> ok6 \<Longrightarrow> w_fs w6 = w_fs w5"
    using 6 ne by (auto simp: sys_rename_def dest: sys_ok_frame split: prod.splits if_splits)
  have un: "w_fs (sys_unlink ?tmp v) ?p = w_fs v ?p" for v by (rule sys_unlink_other [OF ne])
  have eq: "raft_snapshot_create dir i t (Some d) (length d) w =
     (if \<not> ok0 then (RAFT_NO_MEMORY, w0) else if \<not> ok1 then (RAFT_NO_MEMORY, w1)
      else if \<not> ok2 then (RAFT_IO_ERROR, w2)
      else if n3 \<noteq> Some 40 then (RAFT_IO_ERROR, sys_unlink ?tmp w3)
      else if n4 \<noteq> Some (length d) then (RAFT_IO_ERROR, sys_unlink ?tmp w4)
      else if \<not> ok6 then (RAFT_IO_ERROR, sys_unlink ?tmp w6) else (RAFT_OK, w6))"
    using 0 1 2 3 4 5 6
    by (simp add: raft_snapshot_create_def make_snapshot_path_def SNAPSHOT_HEADER_SIZE_def Let_def split: if_splits)
  show ?thesis
    using assms new4 fs01 fs2 fs3 fs4 fs5 fs6
    unfolding eq snapshot_path_def snapshot_image_def by (auto simp: un split: if_splits)
qed

lemma snapshot_create_ok:
  assumes "io_ok w" and "alloc_ok w"
  shows "\<exists>w'. raft_snapshot_create dir i t (Some d) (length d) w = (RAFT_OK, w') \<and> io_ok w' \<and> alloc_ok w'"
  using assms
  by (simp add: raft_snapshot_create_def make_snapshot_path_def SNAPSHOT_HEADER_SIZE_def Let_def)

lemma snapshot_image_split:
  "take 40 (snapshot_image i t d) = snapshot_header_bytes \<lparr>sh_magic = RAFT_SNAPSHOT_MAGIC,
     sh_version = RAFT_SNAPSHOT_VERSION, sh_crc32 = snapshot_crc i t, sh_padding = 0,
     sh_last_index = i, sh_last_term = t, sh_state_len = of_nat (length d)\<rparr>"
  "drop 40 (snapshot_image i t d) = d" "length (snapshot_image i t d) = 40 + length d"
  by (simp_all add: snapshot_image_def)

lemma snapshot_load_image:
  assumes "io_ok w" and "alloc_ok w" and "w_fs w (snapshot_path dir) = Some (snapshot_image i t d)"
    and "length d < 2 ^ 64"
  shows "raft_snapshot_load dir w =
    (RAFT_OK, Some (\<lparr>sm_last_index = i, sm_last_term = t\<rparr>, of_nat (length d)),
     if d = [] then None else Some d, w)"
proof -
  have "unat (of_nat (length d) :: u64) = length d" using assms(4) by (simp add: unat_of_nat)
  then show ?thesis
    using assms
    by (simp add: raft_snapshot_load_def make_snapshot_path_def sys_open_read_def snapshot_path_def
        file_bytes_def SNAPSHOT_HEADER_SIZE_def snapshot_image_split snapshot_header_codec
        snapshot_header_status_def header_meta_def Let_def)
qed

lemma snapshot_load_meta_image:
  assumes "io_ok w" and "alloc_ok w" and "w_fs w (snapshot_path dir) = Some (snapshot_image i t d)"
  shows "raft_snapshot_load_meta dir w = (RAFT_OK, Some \<lparr>sm_last_index = i, sm_last_term = t\<rparr>, w)"
    and "raft_snapshot_exists dir w = (True, w)"
  using assms
  by (simp_all add: raft_snapshot_load_meta_def raft_snapshot_exists_def make_snapshot_path_def
      sys_open_read_def snapshot_path_def file_bytes_def SNAPSHOT_HEADER_SIZE_def snapshot_image_split
      snapshot_header_codec snapshot_header_status_def header_meta_def Let_def)

section \<open>The log behind a snapshot\<close>

text \<open>Compacting up to an index inside the log is what truncating before the next one means.\<close>

lemma compact_log_refines:
  assumes wf: "raft_log_wf l" and lo: "unat (base_index l) \<le> unat i" and hi: "unat i \<le> log_last l"
    and t: "t = (case raft_log_get l i of Some e \<Rightarrow> e_term e | None \<Rightarrow> base_term l)"
  shows "raft_log_wf (compact_log i t l) \<and>
    log_view (compact_log i t l) = spec_truncate_before (log_view l) (unat i + 1)"
proof -
  let ?b = "unat (base_index l)"
  define k where "k = unat i - ?b"
  have k: "unat (i - base_index l) = k" using lo by (simp add: k_def unat_diff u64_le)
  have kc: "k \<le> count l" using lo hi by (simp add: k_def log_last_def)
  have len: "count l \<le> length (entries l)" "1 \<le> length (entries l)" "log_last l < 2 ^ 64 - 1"
    and idx: "\<And>j. j < count l \<Longrightarrow> unat (e_index (entries l ! j)) = ?b + j + 1"
    using wf by (auto simp: raft_log_wf_def)
  let ?es = "free_commands k (entries l)"
  have es: "length ?es = length (entries l)" "drop k ?es = drop k (entries l)"
    using kc len by (simp_all add: free_commands_def)
  define l' where "l' = compact_log i t l"
  have l': "count l' = count l - k" "base_index l' = i" "base_term l' = t"
    "take (count l - k) (entries l') = take (count l - k) (drop k (entries l))"
    "length (entries l') = length (entries l)"
    using k kc len es by (auto simp: l'_def compact_log_def Let_def min_def not_less)
  have nth: "entries l' ! j = entries l ! (k + j)" if "j < count l - k" for j
    using arg_cong [OF l'(4), of "\<lambda>xs. xs ! j"] that len by simp
  have ib: "unat i = ?b + k" using lo by (simp add: k_def)
  have "raft_log_wf l'"
    using l' len kc ib nth idx by (auto simp: raft_log_wf_def log_last_def)
  moreover have "log_view l' = spec_truncate_before (log_view l) (unat i + 1)"
  proof (cases "k = 0")
    case True
    then have "i = base_index l" using ib by (simp add: u64_eq_iff)
    then have "t = base_term l" using t by (simp add: raft_log_get_eq [OF wf])
    then show ?thesis
      using True l' ib by (simp add: log_view_def spec_truncate_before_def)
  next
    case False
    have get: "raft_log_get l i = Some (entries l ! (k - 1))"
      using False ib hi by (simp add: raft_log_get_eq [OF wf])
    have v: "log_view l = (?b, base_term l, map (\<lambda>e. (e_term e, e_command e)) (take (count l) (entries l)))"
      by (simp add: log_view_def)
    have vl: "log_view l' = (?b + k, e_term (entries l ! (k - 1)),
        map (\<lambda>e. (e_term e, e_command e)) (take (count l - k) (drop k (entries l))))"
      using l' ib t get by (simp add: log_view_def)
    have "take (count l - k) (drop k (entries l)) = drop k (take (count l) (entries l))"
      by (simp add: drop_take)
    then show ?thesis
      using False kc len ib unfolding vl v
      by (simp add: spec_truncate_before_def spec_lookup_def min_def drop_map Let_def)
  qed
  ultimately show ?thesis by (simp add: l'_def)
qed

section \<open>Properties\<close>

text \<open>C25: A snapshot round-trips: created with its index, term and state bytes, it is found and loaded back with exactly those.\<close>

theorem raft_snapshot_roundtrip:
  assumes "io_ok w" and "alloc_ok w" and "length d < 2 ^ 64"
  shows "\<exists>w'. raft_snapshot_create dir i t (Some d) (length d) w = (RAFT_OK, w') \<and>
    raft_snapshot_load dir w' =
      (RAFT_OK, Some (\<lparr>sm_last_index = i, sm_last_term = t\<rparr>, of_nat (length d)),
       if d = [] then None else Some d, w') \<and>
    raft_snapshot_load_meta dir w' = (RAFT_OK, Some \<lparr>sm_last_index = i, sm_last_term = t\<rparr>, w') \<and>
    raft_snapshot_exists dir w' = (True, w')"
proof -
  obtain w' where w': "raft_snapshot_create dir i t (Some d) (length d) w = (RAFT_OK, w')" "io_ok w'" "alloc_ok w'"
    using snapshot_create_ok [OF assms(1,2)] by blast
  then have "w_fs w' (snapshot_path dir) = Some (snapshot_image i t d)"
    using snapshot_create_all_or_nothing [OF w'(1)] by simp
  then show ?thesis
    using w' snapshot_load_image [OF w'(2,3) _ assms(3)] snapshot_load_meta_image [OF w'(2,3)] by blast
qed

theorem raft_snapshot_roundtrip_witness:
  "\<exists>w'. raft_snapshot_create ''d'' 7 2 (Some [1, 2, 3]) (length [1, 2, 3 :: u8]) quiet_world = (RAFT_OK, w') \<and>
    raft_snapshot_load ''d'' w' = (RAFT_OK, Some (\<lparr>sm_last_index = 7, sm_last_term = 2\<rparr>, 3), Some [1, 2, 3], w')"
  using raft_snapshot_roundtrip [of quiet_world "[1, 2, 3]" "''d''" 7 2] by auto

text \<open>Creating a snapshot never damages the previous one: whatever fails, the file still holds the old snapshot, or the call succeeded and it holds the complete new one.\<close>

theorem raft_snapshot_create_atomic:
  assumes "raft_snapshot_create dir i t (Some d) (length d) w = (st, w')" and "w_fs w (snapshot_path dir) = Some old"
  shows "w_fs w' (snapshot_path dir) = Some old \<or>
         st = RAFT_OK \<and> w_fs w' (snapshot_path dir) = Some (snapshot_image i t d)"
  using snapshot_create_all_or_nothing [OF assms(1)] assms(2) by (auto split: if_splits)

theorem raft_snapshot_create_atomic_witness:
  "\<exists>st w'. raft_snapshot_create ''d'' 7 2 (Some [1]) (length [1 :: u8])
      (quiet_world\<lparr>w_io := [Io_ok, Io_ok, Io_fail], w_fs := [snapshot_path ''d'' \<mapsto> [9]]\<rparr>) = (st, w') \<and>
     (w_fs w' (snapshot_path ''d'') = Some [9] \<or>
      st = RAFT_OK \<and> w_fs w' (snapshot_path ''d'') = Some (snapshot_image 7 2 [1]))"
proof -
  let ?w = "quiet_world\<lparr>w_io := [Io_ok, Io_ok, Io_fail], w_fs := [snapshot_path ''d'' \<mapsto> [9]]\<rparr>"
  obtain st w' where e: "raft_snapshot_create ''d'' 7 2 (Some [1]) (length [1 :: u8]) ?w = (st, w')" by fastforce
  have "w_fs ?w (snapshot_path ''d'') = Some [9]" by simp
  from raft_snapshot_create_atomic [OF e this] show ?thesis using e by blast
qed

text \<open>C26: Installing a snapshot replaces the whole log by the base the snapshot names; commit index and last applied index move forward to it and never back.\<close>

theorem raft_snapshot_install_log:
  assumes "raft_snapshot_install n m d len = (RAFT_OK, n')" and "raft_log_wf (log n)"
    and "unat (sm_last_index m) < 2 ^ 64 - 1"
  shows "raft_log_wf (log n') \<and> log_view (log n') = (unat (sm_last_index m), sm_last_term m, []) \<and>
    commit_index n' = max (commit_index n) (sm_last_index m) \<and>
    last_applied n' = max (last_applied n) (sm_last_index m)"
  using assms
  by (auto simp: raft_snapshot_install_def raft_log_wf_def log_view_def log_last_def free_commands_def
      Let_def max_def not_le split: prod.splits if_splits)

theorem raft_snapshot_install_log_witness:
  "\<exists>n'. raft_snapshot_install ((sample_node 1 3 RAFT_FOLLOWER 1 two_logs)\<lparr>data_dir := None\<rparr>)
      \<lparr>sm_last_index = 7, sm_last_term = 3\<rparr> (Some [1]) 1 = (RAFT_OK, n') \<and>
     log_view (log n') = (7, 3, []) \<and> commit_index n' = 7"
proof -
  let ?n = "(sample_node 1 3 RAFT_FOLLOWER 1 two_logs)\<lparr>data_dir := None\<rparr>"
  obtain n' where e: "raft_snapshot_install ?n \<lparr>sm_last_index = 7, sm_last_term = 3\<rparr> (Some [1]) 1 = (RAFT_OK, n')"
    by (simp add: raft_snapshot_install_def Let_def)
  from raft_snapshot_install_log [OF e] show ?thesis using e by (simp add: sample_logs max_def)
qed

end
