(* ===== verification/Raft_Recovery.thy ===== *)
theory Raft_Recovery
  imports Raft_Snapshot Raft_Election
begin

text \<open>
  Creating a node (\<^verbatim>\<open>raft_create\<close> of \<^verbatim>\<open>consensus/src/raft.c\<close>) and crash
  recovery (\<^verbatim>\<open>recovery.c\<close>): the snapshot metadata sets the base of the log, the
  state file gives term and vote, and the log file is replayed into the in-memory log.
\<close>

section \<open>Recovery\<close>

record raft_recovery_result =
  had_snapshot :: bool
  recovered_term :: u64
  recovered_voted_for :: int
  log_entries_count :: u64
  last_log_index :: u64
  last_log_term :: u64

text \<open>The context of the callback; of the node it only changes the log.\<close>

record recovery_ctx =
  rc_log :: raft_log
  rc_count :: u64
  rc_last_index :: u64
  rc_last_term :: u64

definition recover_entry_cb :: "recovery_ctx log_iter_fn" where
  "recover_entry_cb rctx w t index command =
     (case raft_log_append (rc_log rctx) t (Some command) w of (status, out_index, l, w) \<Rightarrow>
        let rctx = rctx\<lparr>rc_log := l\<rparr> in
        if status \<noteq> RAFT_OK then (status, rctx, w)
        else if out_index \<noteq> Some index then (RAFT_CORRUPTION, rctx, w)
        else (RAFT_OK, rctx\<lparr>rc_count := rc_count rctx + 1, rc_last_index := index, rc_last_term := t\<rparr>, w))"

text \<open>Step 1: the base of the log from the snapshot metadata, if they can be read.\<close>

definition recover_base :: "string \<Rightarrow> raft_node \<Rightarrow> bool \<times> raft_node" where
  "recover_base dir node =
     (case raft_snapshot_exists dir (wld node) of (present, w) \<Rightarrow>
        if \<not> present then (False, node\<lparr>wld := w\<rparr>)
        else case raft_snapshot_load_meta dir w of (status, meta, w) \<Rightarrow>
          (case meta of
             Some m \<Rightarrow> (True, node\<lparr>log := (log node)\<lparr>base_index := sm_last_index m,
                                                   base_term := sm_last_term m\<rparr>, wld := w\<rparr>)
           | None \<Rightarrow> (False, node\<lparr>wld := w\<rparr>)))"

text \<open>Step 3: the replay of the log file.\<close>

definition recover_log :: "raft_storage \<Rightarrow> raft_node \<Rightarrow> raft_status_t \<times> recovery_ctx \<times> raft_node" where
  "recover_log st node =
     (case raft_storage_iterate_log st recover_entry_cb
             \<lparr>rc_log = log node, rc_count = 0, rc_last_index = 0, rc_last_term = 0\<rparr> (wld node) of
        (status, ctx, w) \<Rightarrow> (status, ctx, node\<lparr>log := rc_log ctx, wld := w\<rparr>))"

definition raft_recover ::
  "raft_node \<Rightarrow> raft_storage \<Rightarrow> raft_status_t \<times> raft_recovery_result option \<times> raft_node"
where
  "raft_recover node st =
     (case recover_base (raft_storage_get_dir st) node of (had, node) \<Rightarrow>
      case raft_storage_load_state st (wld node) of (status, state, w) \<Rightarrow>
      let node = node\<lparr>wld := w\<rparr> in
      if status \<noteq> RAFT_OK \<and> status \<noteq> RAFT_NOT_FOUND then (status, None, node)
      else
        let (t, v) = (case state of Some (t, v) \<Rightarrow> (t, v) | None \<Rightarrow> (0, -1));
            node = (if status = RAFT_OK then node\<lparr>current_term := t, voted_for := v\<rparr> else node)
        in case recover_log st node of (status, ctx, node) \<Rightarrow>
             if status \<noteq> RAFT_OK then (status, None, node)
             else (RAFT_OK,
               Some \<lparr>had_snapshot = had, recovered_term = t, recovered_voted_for = v,
                     log_entries_count = rc_count ctx, last_log_index = rc_last_index ctx,
                     last_log_term = rc_last_term ctx\<rparr>, node))"

section \<open>Creating a node\<close>

record raft_config =
  cf_node_id :: int
  cf_num_nodes :: int
  cf_has_apply_fn :: bool
  cf_has_send_fn :: bool
  cf_data_dir :: "string option"

text \<open>The fields that \<^verbatim>\<open>raft_create\<close> sets before it opens the storage.\<close>

definition new_node :: "raft_config \<Rightarrow> raft_log \<Rightarrow> world \<Rightarrow> raft_node" where
  "new_node config l w =
     \<lparr>node_id = cf_node_id config, num_nodes = cf_num_nodes config,
      has_apply_fn = cf_has_apply_fn config, has_send_fn = cf_has_send_fn config,
      role = RAFT_FOLLOWER, current_term = 0, voted_for = -1, commit_index = 0, last_applied = 0,
      next_index = None, match_index = None, log = l, running = False, current_leader = -1,
      votes_received = 0, votes_granted = replicate (nat (cf_num_nodes config)) False,
      election_timeout_ms = 0, election_timer_ms = 0, heartbeat_timer_ms = 0,
      storage = None, data_dir = None, applied = [], outbox = [], wld = w\<rparr>"

text \<open>The status of the recovery is ignored by the code.\<close>

definition raft_create :: "raft_config \<Rightarrow> world \<Rightarrow> raft_node option \<times> world" where
  "raft_create config w =
     (if cf_node_id config < 0 \<or> cf_num_nodes config < 1 then (None, w)
      else case malloc w of (ok, w) \<Rightarrow>
      if \<not> ok then (None, w)
      else case raft_log_create w of
        (None, w) \<Rightarrow> (None, w)
      | (Some l, w) \<Rightarrow>
          case malloc w of (ok, w) \<Rightarrow>
          if \<not> ok then (None, w)
          else case cf_data_dir config of
            None \<Rightarrow> (Some (new_node config l w), w)
          | Some dir \<Rightarrow>
              case malloc w of (ok, w) \<Rightarrow>
              if \<not> ok then (None, w)
              else case raft_storage_open dir True w of (st, w) \<Rightarrow>
                let node = (new_node config l w)\<lparr>data_dir := Some dir, storage := st\<rparr>;
                    node = (case st of None \<Rightarrow> node | Some s \<Rightarrow> snd (snd (raft_recover node s)))
                in (Some node, wld node))"

text \<open>\<^verbatim>\<open>raft_destroy\<close> closes the storage and frees the node: the files are what
  remains.\<close>

definition raft_destroy :: "raft_node \<Rightarrow> world" where
  "raft_destroy node = wld node"

section \<open>What recovery restores\<close>

text \<open>Replaying the records of consecutive entries rebuilds them.\<close>

fun consecutive :: "nat \<Rightarrow> raft_entry list \<Rightarrow> bool" where
  "consecutive i [] = True"
| "consecutive i (e # es) = (unat (e_index e) = i \<and> consecutive (i + 1) es)"

lemma iterate_recover:
  assumes "io_ok w" and "alloc_ok w" and "raft_log_wf (rc_log c)" and "\<forall>e \<in> set es. fits e"
    and "consecutive (log_last (rc_log c) + 1) es" and "log_last (rc_log c) + length es < 2 ^ 64 - 2"
  shows "\<exists>c'. iterate_records recover_entry_cb c (concat (map record_image es)) s w = (RAFT_OK, c', w) \<and>
    raft_log_wf (rc_log c') \<and> rc_count c' = rc_count c + of_nat (length es) \<and>
    log_view (rc_log c') = (case log_view (rc_log c) of
       (b, bt, xs) \<Rightarrow> (b, bt, xs @ map (\<lambda>e. (e_term e, e_command e)) es))"
  using assms
proof (induction es arbitrary: c s)
  case Nil
  then show ?case by (simp add: iterate_records_end split: prod.split)
next
  case (Cons e es)
  obtain st i l w' where app: "raft_log_append (rc_log c) (e_term e) (Some (e_command e)) w = (st, i, l, w')"
    by (metis prod_cases4)
  have room: "log_last (rc_log c) < 2 ^ 64 - 2" using Cons.prems(6) by simp
  note ac = raft_log_append_cases [OF app Cons.prems(3) room] raft_log_append_ok [OF app Cons.prems(2)]
  then have st: "st = RAFT_OK" "w' = w" and l: "raft_log_wf l" "log_last l = log_last (rc_log c) + 1"
    "log_view l = spec_append (log_view (rc_log c)) (e_term e) (e_command e)"
    and i: "map_option unat i = Some (log_last (rc_log c) + 1)"
    by (auto simp: cmd_bytes_def)
  have "i = Some (e_index e)" using i Cons.prems(5) by (auto simp: u64_eq_iff)
  then have cb: "recover_entry_cb c w (e_term e) (e_index e) (e_command e) =
      (RAFT_OK, c\<lparr>rc_log := l, rc_count := rc_count c + 1, rc_last_index := e_index e, rc_last_term := e_term e\<rparr>, w)"
    using app st by (simp add: recover_entry_cb_def Let_def)
  let ?c = "c\<lparr>rc_log := l, rc_count := rc_count c + 1, rc_last_index := e_index e, rc_last_term := e_term e\<rparr>"
  have "\<exists>c'. iterate_records recover_entry_cb ?c (concat (map record_image es)) (max s (length (e_command e))) w
        = (RAFT_OK, c', w) \<and>
    raft_log_wf (rc_log c') \<and> rc_count c' = rc_count ?c + of_nat (length es) \<and>
    log_view (rc_log c') = (case log_view (rc_log ?c) of
       (b, bt, xs) \<Rightarrow> (b, bt, xs @ map (\<lambda>e. (e_term e, e_command e)) es))"
    using Cons.prems l by (intro Cons.IH) simp_all
  then show ?case
    using Cons.prems(1,2,4) cb l(3)
    by (auto simp: iterate_records_image spec_append_def algebra_simps split: prod.splits)
qed

text \<open>With working system calls the functions that only read leave the environment alone, and
  opening the storage always succeeds and touches the log file only.\<close>

lemma count_records_world: "io_ok w \<Longrightarrow> snd (count_records rest n w) = w"
proof (induction rest n w rule: count_records.induct)
  case (1 rest n w)
  then show ?case by (subst count_records.simps) (auto simp: Let_def split: prod.splits)
qed

lemma count_log_entries_world: "io_ok w \<Longrightarrow> snd (count_log_entries p w) = w"
  by (auto simp: count_log_entries_def count_records_world)

lemma sys_open_create_ok:
  "io_ok w \<Longrightarrow> sys_open_create p w =
     (True, if w_fs w p = None then w\<lparr>w_fs := (w_fs w)(p \<mapsto> [])\<rparr> else w)"
  by (simp add: sys_open_create_def)

lemma state_log_paths [simp]: "path_of d LOG_FILE \<noteq> path_of d STATE_FILE" "path_of d STATE_FILE \<noteq> path_of d LOG_FILE"
  "path_of d RAFT_SNAPSHOT_FILE \<noteq> path_of d LOG_FILE" "path_of d RAFT_SNAPSHOT_FILE \<noteq> path_of d STATE_FILE"
  by (simp_all add: path_of_def LOG_FILE_def STATE_FILE_def RAFT_SNAPSHOT_FILE_def)

lemma storage_open_ok:
  assumes "io_ok w" and "alloc_ok w"
  shows "\<exists>st w'. raft_storage_open dir s w = (Some st, w') \<and> st_data_dir st = dir \<and> st_log_open st \<and>
    st_sync_writes st = s \<and> io_ok w' \<and> alloc_ok w' \<and>
    w_fs w' = (w_fs w)(path_of dir LOG_FILE \<mapsto>
      (case w_fs w (path_of dir LOG_FILE) of None \<Rightarrow> log_image [] | Some bs \<Rightarrow>
         if bs = [] then log_image [] else bs))"
proof -
  let ?p = "path_of dir LOG_FILE"
  define w1 where "w1 = (if w_fs w ?p = None then w\<lparr>w_fs := (w_fs w)(?p \<mapsto> [])\<rparr> else w)"
  define w2 where "w2 = (if file_bytes ?p w1 = []
    then w1\<lparr>w_fs := (w_fs w1)(?p \<mapsto> log_header_bytes initial_log_header)\<rparr> else w1)"
  have w1: "io_ok w1" "alloc_ok w1" using assms by (simp_all add: w1_def)
  then have w2: "io_ok w2" "alloc_ok w2" by (simp_all add: w2_def)
  obtain k where cw: "count_log_entries ?p w2 = (k, w2)"
    using count_log_entries_world [OF w2(1), of ?p] by (metis prod.collapse)
  have wr: "file_bytes ?p w1 = [] \<Longrightarrow>
      sys_write ?p 0 (log_header_bytes initial_log_header) w1 = (Some 24, w2)"
    using w1 by (simp add: w2_def)
  have "raft_storage_open dir s w = (Some \<lparr>st_data_dir = dir, st_sync_writes = s, st_log_open = True,
      st_log_entries = k\<rparr>, w2)"
  proof (cases "file_bytes ?p w1 = []")
    case True
    then show ?thesis
      using assms w1 w2 wr cw
      by (simp add: raft_storage_open_def sys_open_create_ok w1_def [symmetric] del: io_ok_calls(4))
  next
    case False
    then have "w2 = w1" by (simp add: w2_def)
    then show ?thesis
      using assms w1 cw False by (simp add: raft_storage_open_def sys_open_create_ok w1_def [symmetric])
  qed
  moreover have "w_fs w2 = (w_fs w)(?p \<mapsto> (case w_fs w ?p of None \<Rightarrow> log_image [] | Some bs \<Rightarrow>
         if bs = [] then log_image [] else bs))"
    by (auto simp: w2_def w1_def file_bytes_def log_image_def split: option.splits)
  ultimately show ?thesis using w2 by simp
qed

lemma snapshot_exists_world: "io_ok w \<Longrightarrow> alloc_ok w \<Longrightarrow> snd (raft_snapshot_exists dir w) = w"
  by (simp add: raft_snapshot_exists_def make_snapshot_path_def)

lemma snapshot_load_meta_world: "io_ok w \<Longrightarrow> alloc_ok w \<Longrightarrow> snd (snd (raft_snapshot_load_meta dir w)) = w"
  by (simp add: raft_snapshot_load_meta_def make_snapshot_path_def sys_open_read_def Let_def)

text \<open>The term and the vote come back from the state file whatever became of the log file.\<close>

definition persisted :: "string \<Rightarrow> world \<Rightarrow> u64 \<Rightarrow> int \<Rightarrow> bool" where
  "persisted dir w t v \<longleftrightarrow>
     w_fs w (path_of dir STATE_FILE) = Some (state_image t v) \<or>
     w_fs w (path_of dir STATE_FILE) = None \<and> t = 0 \<and> v = -1"

lemma recover_base_shape:
  assumes "io_ok (wld n)" and "alloc_ok (wld n)"
  shows "\<exists>had l. recover_base dir n = (had, n\<lparr>log := l\<rparr>) \<and> count l = count (log n) \<and> entries l = entries (log n)"
proof -
  obtain present where ex: "raft_snapshot_exists dir (wld n) = (present, wld n)"
    using snapshot_exists_world [OF assms, of dir] by (metis prod.collapse)
  obtain s meta where lm: "raft_snapshot_load_meta dir (wld n) = (s, meta, wld n)"
    using snapshot_load_meta_world [OF assms, of dir] by (metis prod.collapse)
  show ?thesis
  proof (cases "present \<and> meta \<noteq> None")
    case True
    then have "recover_base dir n = (True, n\<lparr>log := (log n)\<lparr>base_index := sm_last_index (the meta),
        base_term := sm_last_term (the meta)\<rparr>\<rparr>)"
      using ex lm by (auto simp: recover_base_def)
    then show ?thesis
      by (intro exI [of _ True] exI [of _ "(log n)\<lparr>base_index := sm_last_index (the meta),
        base_term := sm_last_term (the meta)\<rparr>"]) simp
  next
    case False
    then have "recover_base dir n = (False, n\<lparr>log := log n\<rparr>)"
      using ex lm by (auto simp: recover_base_def split: option.split)
    then show ?thesis by blast
  qed
qed

lemma raft_recover_state:
  assumes io: "io_ok (wld n)" "alloc_ok (wld n)" and dir: "st_data_dir st = dir"
    and per: "persisted dir (wld n) t v" and v: "i32_range v"
    and fresh: "current_term n = 0" "voted_for n = -1"
    and eq: "raft_recover n st = (status, res, n')"
  shows "\<exists>l w. n' = n\<lparr>current_term := t, voted_for := v, log := l, wld := w\<rparr>"
proof -
  obtain had l where b: "recover_base (raft_storage_get_dir st) n = (had, n\<lparr>log := l\<rparr>)"
    using recover_base_shape [OF io] by blast
  have ls: "raft_storage_load_state st (wld n) = (RAFT_OK, Some (t, v), wld n) \<or>
      raft_storage_load_state st (wld n) = (RAFT_NOT_FOUND, None, wld n) \<and> t = 0 \<and> v = -1"
    using per load_state_image [OF io _ v, of st t] load_state_absent [OF io(2), of st] dir
    by (auto simp: persisted_def state_path_def)
  define m where "m = n\<lparr>log := l, current_term := t, voted_for := v\<rparr>"
  have m: "n\<lparr>log := l\<rparr> = m" if "t = 0" "v = -1"
    using that fresh by (simp add: m_def)
  obtain s c k where rl: "recover_log st m = (s, c, k)" by (metis prod_cases3)
  have "n' = k"
    using ls
  proof
    assume "raft_storage_load_state st (wld n) = (RAFT_OK, Some (t, v), wld n)"
    then show ?thesis using eq b rl by (auto simp: raft_recover_def m_def Let_def split: if_splits)
  next
    assume a: "raft_storage_load_state st (wld n) = (RAFT_NOT_FOUND, None, wld n) \<and> t = 0 \<and> v = -1"
    then show ?thesis using eq b rl m by (auto simp: raft_recover_def Let_def split: if_splits)
  qed
  moreover have "\<exists>l w. k = m\<lparr>log := l, wld := w\<rparr>"
    using rl by (auto simp: recover_log_def split: prod.splits)
  ultimately show ?thesis by (auto simp: m_def)
qed

text \<open>A node created on a directory whose state file is intact starts as a follower with the
  persisted term and vote.\<close>

lemma raft_create_recovers:
  assumes io: "io_ok w" "alloc_ok w" and cfg: "0 \<le> cf_node_id c" "1 \<le> cf_num_nodes c" "cf_data_dir c = Some dir"
    and per: "persisted dir w t v" and v: "i32_range v"
  shows "\<exists>n. raft_create c w = (Some n, wld n) \<and> node_id n = cf_node_id c \<and> num_nodes n = cf_num_nodes c \<and>
    current_term n = t \<and> voted_for n = v \<and> role n = RAFT_FOLLOWER \<and> outbox n = [] \<and>
    votes_granted n = replicate (nat (cf_num_nodes c)) False \<and> \<not> running n \<and>
    (\<exists>st. storage n = Some st \<and> st_data_dir st = dir)"
proof -
  obtain l where l: "raft_log_create w = (Some l, w)" using io by (simp add: raft_log_create_def)
  obtain st w' where st: "raft_storage_open dir True w = (Some st, w')" "st_data_dir st = dir"
    "io_ok w'" "alloc_ok w'" and fs: "w_fs w' (path_of dir STATE_FILE) = w_fs w (path_of dir STATE_FILE)"
    using storage_open_ok [OF io, of dir True] by auto
  let ?n = "(new_node c l w')\<lparr>data_dir := Some dir, storage := Some st\<rparr>"
  have n: "wld ?n = w'" "current_term ?n = 0" "voted_for ?n = -1" by (simp_all add: new_node_def)
  have "persisted dir (wld ?n) t v" using per fs by (simp add: n persisted_def)
  moreover obtain s r m where rec: "raft_recover ?n st = (s, r, m)" by (metis prod_cases3)
  ultimately have "\<exists>k w. m = ?n\<lparr>current_term := t, voted_for := v, log := k, wld := w\<rparr>"
    using raft_recover_state [of ?n st dir t v s r m] st n v by simp
  moreover have "raft_create c w = (Some m, wld m)"
    using io cfg l st(1) rec by (simp add: raft_create_def Let_def)
  ultimately show ?thesis using st(2) by (auto simp: new_node_def)
qed

text \<open>C18: Recovery from an intact state file and log file, without a snapshot, restores the term, the vote and every logged entry in order.\<close>

theorem raft_recover_log:
  assumes io: "io_ok (wld n)" "alloc_ok (wld n)" and st: "st_log_open st"
    and state: "w_fs (wld n) (state_path st) = Some (state_image t v)" "i32_range v"
    and snap: "w_fs (wld n) (snapshot_path (st_data_dir st)) = None"
    and log: "w_fs (wld n) (log_path st) = Some (log_image es)" "\<forall>e \<in> set es. fits e" "consecutive 1 es"
      "length es < 2 ^ 64 - 2"
    and fresh: "raft_log_wf (log n)" "log_view (log n) = (0, 0, [])"
  shows "\<exists>res n'. raft_recover n st = (RAFT_OK, Some res, n') \<and> current_term n' = t \<and> voted_for n' = v \<and>
    raft_log_wf (log n') \<and> log_view (log n') = (0, 0, map (\<lambda>e. (e_term e, e_command e)) es) \<and>
    log_entries_count res = of_nat (length es) \<and> recovered_term res = t \<and> recovered_voted_for res = v \<and>
    \<not> had_snapshot res"
proof -
  have rb: "recover_base (raft_storage_get_dir st) n = (False, n)"
    using io snap by (simp add: recover_base_def raft_storage_get_dir_def raft_snapshot_exists_def
        make_snapshot_path_def snapshot_path_def)
  have ls: "raft_storage_load_state st (wld n) = (RAFT_OK, Some (t, v), wld n)"
    by (rule load_state_image [OF io state])
  have last: "log_last (log n) = 0" using spec_lookup_def fresh
    by (auto simp: log_view_def log_last_def raft_log_wf_def)
  let ?c = "\<lparr>rc_log = log n, rc_count = 0, rc_last_index = 0, rc_last_term = 0\<rparr>"
  have "drop LOG_HEADER_SIZE (log_image es) = concat (map record_image es)" by (simp add: log_image_def)
  then have it: "raft_storage_iterate_log st recover_entry_cb ?c (wld n) =
      iterate_records recover_entry_cb ?c (concat (map record_image es)) 0 (wld n)"
    using io st log(1) by (simp add: raft_storage_iterate_log_def log_path_def file_bytes_def)
  have "\<exists>c'. iterate_records recover_entry_cb ?c (concat (map record_image es)) 0 (wld n) = (RAFT_OK, c', wld n) \<and>
    raft_log_wf (rc_log c') \<and> rc_count c' = rc_count ?c + of_nat (length es) \<and>
    log_view (rc_log c') = (case log_view (rc_log ?c) of
       (b, bt, xs) \<Rightarrow> (b, bt, xs @ map (\<lambda>e. (e_term e, e_command e)) es))"
    by (rule iterate_recover [OF io]) (use fresh log last in simp_all)
  then obtain c' where c': "raft_storage_iterate_log st recover_entry_cb ?c (wld n) = (RAFT_OK, c', wld n)"
    "raft_log_wf (rc_log c')" "rc_count c' = of_nat (length es)"
    "log_view (rc_log c') = (0, 0, map (\<lambda>e. (e_term e, e_command e)) es)"
    using it fresh(2) by auto
  then show ?thesis by (simp add: raft_recover_def recover_log_def rb ls Let_def)
qed

theorem raft_recover_log_witness:
  "\<exists>res n'. raft_recover ((sample_node 0 3 RAFT_FOLLOWER 0 (sample_log 0 0 []))\<lparr>wld := quiet_world\<lparr>w_fs :=
       [state_path sample_storage \<mapsto> state_image 4 2,
        log_path sample_storage \<mapsto> log_image [\<lparr>e_term = 3, e_index = 1, e_type = None, e_command = [5]\<rparr>]]\<rparr>\<rparr>)
       sample_storage = (RAFT_OK, Some res, n') \<and>
     current_term n' = 4 \<and> voted_for n' = 2 \<and> log_view (log n') = (0, 0, [(3, [5])])"
proof -
  let ?es = "[\<lparr>e_term = 3, e_index = 1, e_type = None, e_command = [5]\<rparr>]"
  let ?n = "(sample_node 0 3 RAFT_FOLLOWER 0 (sample_log 0 0 []))\<lparr>wld := quiet_world\<lparr>w_fs :=
       [state_path sample_storage \<mapsto> state_image 4 2, log_path sample_storage \<mapsto> log_image ?es]\<rparr>\<rparr>"
  have p: "state_path sample_storage \<noteq> log_path sample_storage"
    "snapshot_path (st_data_dir sample_storage) \<noteq> state_path sample_storage"
    "snapshot_path (st_data_dir sample_storage) \<noteq> log_path sample_storage"
    by (simp_all add: state_path_def log_path_def snapshot_path_def path_of_def sample_storage_def
        STATE_FILE_def LOG_FILE_def RAFT_SNAPSHOT_FILE_def)
  show ?thesis
    using raft_recover_log [of ?n sample_storage 4 2 ?es] p
    by (auto simp: sample_node_def sample_logs sample_storage_def i32_range_def fits_def LOG_RECORD_SIZE_def)
qed

end
