(* ===== verification/Raft_Transfer.thy ===== *)
theory Raft_Transfer
  imports Raft_Election
begin

text \<open>
  Leadership transfer (\<^verbatim>\<open>consensus/src/transfer.c\<close>). The two statics are a record that
  the functions take and return. \<open>None\<close> is the access to a missing \<^verbatim>\<open>match_index\<close> array.
\<close>

section \<open>The code\<close>

datatype raft_transfer_state_t = RAFT_TRANSFER_NONE | RAFT_TRANSFER_PENDING | RAFT_TRANSFER_SENDING

record transfer_globals =
  g_transfer_state :: raft_transfer_state_t
  g_transfer_target :: int

definition transfer_none :: transfer_globals where
  "transfer_none = \<lparr>g_transfer_state = RAFT_TRANSFER_NONE, g_transfer_target = -1\<rparr>"

definition raft_transfer_abort :: "transfer_globals \<Rightarrow> transfer_globals" where
  "raft_transfer_abort g = g\<lparr>g_transfer_state := RAFT_TRANSFER_NONE, g_transfer_target := -1\<rparr>"

definition raft_transfer_in_progress :: "transfer_globals \<Rightarrow> bool" where
  "raft_transfer_in_progress g = (g_transfer_state g \<noteq> RAFT_TRANSFER_NONE)"

definition raft_transfer_target :: "transfer_globals \<Rightarrow> int" where
  "raft_transfer_target g = g_transfer_target g"

definition raft_transfer_check_progress ::
  "raft_node \<Rightarrow> transfer_globals \<Rightarrow> (transfer_globals \<times> raft_node) option"
where
  "raft_transfer_check_progress node g =
     (if g_transfer_state g = RAFT_TRANSFER_NONE then Some (g, node)
      else if role node \<noteq> RAFT_LEADER then Some (raft_transfer_abort g, node)
      else
        let target = g_transfer_target g in
        if target < 0 \<or> target \<ge> num_nodes node then Some (raft_transfer_abort g, node)
        else do {
          let last_index = raft_log_last_index (log node);
          mi \<leftarrow> match_index node;
          target_match \<leftarrow> arr_get mi target;
          if target_match \<ge> last_index
          then Some (g\<lparr>g_transfer_state := RAFT_TRANSFER_SENDING\<rparr>,
                 if has_send_fn node
                 then send_fn target (TimeoutNow \<lparr>tn_term = current_term node, tn_leader_id = node_id node\<rparr>) node
                 else node)
          else Some (g, node)
        })"

text \<open>The scan for the follower with the largest \<^verbatim>\<open>match_index\<close> above 0.\<close>

fun pick_target :: "int \<Rightarrow> u64 list option \<Rightarrow> int list \<Rightarrow> u64 \<times> int \<Rightarrow> (u64 \<times> int) option" where
  "pick_target me mi [] best = Some best"
| "pick_target me mi (i # is) best =
     (if i \<noteq> me then do {
        a \<leftarrow> mi;
        m \<leftarrow> arr_get a i;
        pick_target me mi is (if m > fst best then (m, i) else best)
      }
      else pick_target me mi is best)"

definition raft_transfer_leadership ::
  "raft_node \<Rightarrow> int \<Rightarrow> transfer_globals \<Rightarrow> (raft_status_t \<times> transfer_globals \<times> raft_node) option"
where
  "raft_transfer_leadership node target_id g =
     (if \<not> running node then Some (RAFT_STOPPED, g, node)
      else if role node \<noteq> RAFT_LEADER then Some (RAFT_NOT_LEADER, g, node)
      else if target_id = node_id node then Some (RAFT_INVALID_ARG, g, node)
      else if target_id \<ge> 0 \<and> target_id \<ge> num_nodes node then Some (RAFT_INVALID_ARG, g, node)
      else do {
        target_id \<leftarrow> (if target_id < 0
                      then map_option snd (pick_target (node_id node) (match_index node)
                             [0..num_nodes node - 1] (0, target_id))
                      else Some target_id);
        if target_id < 0 then Some (RAFT_INVALID_ARG, g, node)
        else do {
          (g, node) \<leftarrow> raft_transfer_check_progress node
                        (g\<lparr>g_transfer_state := RAFT_TRANSFER_PENDING, g_transfer_target := target_id\<rparr>);
          Some (RAFT_OK, g, node)
        }
      })"

definition raft_transfer_reset :: "transfer_globals \<Rightarrow> transfer_globals" where
  "raft_transfer_reset g = g\<lparr>g_transfer_state := RAFT_TRANSFER_NONE, g_transfer_target := -1\<rparr>"

section \<open>Who is asked to take over\<close>

text \<open>The scan ends with the starting value, or with a peer of maximal \<^verbatim>\<open>match_index\<close>.\<close>

lemma pick_target_spec:
  assumes "\<forall>i \<in> set is. i \<noteq> me \<longrightarrow> 0 \<le> i \<and> nat i < length mi"
  shows "\<exists>r. pick_target me (Some mi) is best = Some r \<and> fst best \<le> fst r \<and>
    (r = best \<or> snd r \<in> set is \<and> snd r \<noteq> me \<and> fst r = mi ! nat (snd r) \<and> fst best < fst r) \<and>
    (\<forall>i \<in> set is. i \<noteq> me \<longrightarrow> mi ! nat i \<le> fst r)"
  using assms
proof (induction "is" arbitrary: best)
  case Nil
  then show ?case by simp
next
  case (Cons i "is")
  show ?case
  proof (cases "i = me")
    case True
    then show ?thesis using Cons.IH [of best] Cons.prems by simp blast
  next
    case False
    define b where "b = (if mi ! nat i > fst best then (mi ! nat i, i) else best)"
    have pre: "\<forall>i \<in> set is. i \<noteq> me \<longrightarrow> 0 \<le> i \<and> nat i < length mi" using Cons.prems by simp
    have g: "arr_get mi i = Some (mi ! nat i)" using Cons.prems False by (simp add: arr_get_def)
    obtain r where r: "pick_target me (Some mi) is b = Some r" "fst b \<le> fst r"
      "r = b \<or> snd r \<in> set is \<and> snd r \<noteq> me \<and> fst r = mi ! nat (snd r) \<and> fst b < fst r"
      "\<forall>i \<in> set is. i \<noteq> me \<longrightarrow> mi ! nat i \<le> fst r"
      using Cons.IH [OF pre, of b] by blast
    have le: "fst best \<le> fst r" "mi ! nat i \<le> fst r"
      by (rule order.trans [OF _ r(2)], auto simp: b_def not_less)+
    have "r = best \<or> snd r \<in> set (i # is) \<and> snd r \<noteq> me \<and> fst r = mi ! nat (snd r) \<and> fst best < fst r"
      using r(3) False by (auto simp: b_def split: if_splits)
    moreover have "pick_target me (Some mi) (i # is) best = Some r" using r(1) g False by (simp add: b_def)
    ultimately show ?thesis using r(4) le by auto
  qed
qed

lemma raft_transfer_check_progress_ok:
  assumes ok: "node_ok n"
  shows "\<exists>g' n'. raft_transfer_check_progress n g = Some (g', n') \<and> node_ok n' \<and> log n' = log n"
proof -
  have "node_ok (send_fn p m n)" for p m
    by (rule node_ok_same [OF ok]) (use ok in \<open>simp_all add: node_ok_def send_fn_def\<close>)
  then show ?thesis
    using ok by (auto simp: raft_transfer_check_progress_def Let_def node_ok_def leader_arrays_def
        arr_get_def send_fn_def)
qed

lemma raft_transfer_leadership_neutral:
  "raft_transfer_leadership n t g = Some (st, g', n') \<Longrightarrow> vote_neutral n n'"
  by (auto simp: raft_transfer_leadership_def raft_transfer_check_progress_def Let_def bind_eq_Some_conv
      vote_neutral_def send_fn_def split: if_splits option.splits)

text \<open>A leadership transfer sends the TimeoutNow message only as leader, only to a valid target, and only when that target holds the whole log; otherwise the node is unchanged.\<close>

theorem raft_transfer_check_progress_spec:
  assumes ok: "node_ok n" and eq: "raft_transfer_check_progress n g = Some (g', n')"
  shows "n' = n \<or>
    (\<exists>mi. match_index n = Some mi \<and> role n = RAFT_LEADER \<and> has_send_fn n \<and>
       0 \<le> g_transfer_target g \<and> g_transfer_target g < num_nodes n \<and>
       raft_log_last_index (log n) \<le> mi ! nat (g_transfer_target g) \<and>
       g_transfer_state g' = RAFT_TRANSFER_SENDING \<and>
       n' = send_fn (g_transfer_target g)
              (TimeoutNow \<lparr>tn_term = current_term n, tn_leader_id = node_id n\<rparr>) n)"
  using eq
  by (auto simp: raft_transfer_check_progress_def Let_def bind_eq_Some_conv arr_get_Some split: if_splits)

theorem raft_transfer_check_progress_spec_witness:
  "\<exists>g' n'. raft_transfer_check_progress ((sample_node 0 3 RAFT_LEADER 2 two_logs)\<lparr>match_index := Some [0, 2, 1]\<rparr>)
      \<lparr>g_transfer_state = RAFT_TRANSFER_PENDING, g_transfer_target = 1\<rparr> = Some (g', n') \<and>
     n' \<noteq> (sample_node 0 3 RAFT_LEADER 2 two_logs)\<lparr>match_index := Some [0, 2, 1]\<rparr> \<and>
     g_transfer_state g' = RAFT_TRANSFER_SENDING"
proof -
  let ?n = "(sample_node 0 3 RAFT_LEADER 2 two_logs)\<lparr>match_index := Some [0, 2, 1]\<rparr>"
  let ?g = "\<lparr>g_transfer_state = RAFT_TRANSFER_PENDING, g_transfer_target = 1\<rparr>"
  have ok: "node_ok ?n" by (simp add: node_ok_def leader_arrays_def sample_logs)
  have "raft_log_last_index two_logs = 2" by (simp add: sample_log_def raft_log_last_index_def)
  then obtain g' n' where e: "raft_transfer_check_progress ?n ?g = Some (g', n')" "outbox n' \<noteq> []"
    by (auto simp: raft_transfer_check_progress_def arr_get_def send_fn_def)
  then have ne: "n' \<noteq> ?n" by auto
  show ?thesis using raft_transfer_check_progress_spec [OF ok e(1)] e(1) ne by blast
qed

end
