(* ===== verification/Raft_Batch.thy ===== *)
theory Raft_Batch
  imports Raft_Election
begin

text \<open>
  Batched proposals and batched application (\<^verbatim>\<open>consensus/src/batch.c\<close>). A batch is
  a list of commands, \<open>None\<close> for a null pointer.
\<close>

section \<open>The code\<close>

text \<open>The rollback \<^verbatim>\<open>raft_log_truncate_after(node->log, first_index - 1)\<close>.\<close>

definition batch_rollback :: "u64 \<Rightarrow> raft_node \<Rightarrow> raft_node option" where
  "batch_rollback first_index node =
     map_option (\<lambda>(st, l). node\<lparr>log := l\<rparr>) (raft_log_truncate_after (log node) (first_index - 1))"

definition batch_entry :: "u64 \<Rightarrow> u64 \<Rightarrow> bytes option \<Rightarrow> raft_entry" where
  "batch_entry t index cmd =
     \<lparr>e_term = t, e_index = index, e_type = Some RAFT_ENTRY_COMMAND, e_command = cmd_bytes cmd\<rparr>"

text \<open>The loop over the commands; \<open>i\<close> is the position of the first one left.\<close>

fun batch_loop ::
  "u64 \<Rightarrow> nat \<Rightarrow> u64 \<Rightarrow> bytes option list \<Rightarrow> raft_node \<Rightarrow> (raft_status_t \<times> u64 \<times> raft_node) option"
where
  "batch_loop t i first_index [] node = Some (RAFT_OK, first_index, node)"
| "batch_loop t i first_index (cmd # cmds) node =
     (case raft_log_append (log node) t cmd (wld node) of (status, idx, l, w) \<Rightarrow>
        let node = node\<lparr>log := l, wld := w\<rparr> in
        if status \<noteq> RAFT_OK then
          (if first_index > 0
           then map_option (\<lambda>node. (status, first_index, node)) (batch_rollback first_index node)
           else Some (status, first_index, node))
        else do {
          index \<leftarrow> idx;
          let first_index = (if i = 0 then index else first_index);
          case storage node of
            None \<Rightarrow> batch_loop t (Suc i) first_index cmds node
          | Some st \<Rightarrow>
              (case raft_storage_append_entry st (batch_entry t index cmd) (wld node) of
                 (persist_status, st, w) \<Rightarrow>
                   let node = node\<lparr>storage := Some st, wld := w\<rparr> in
                   if persist_status \<noteq> RAFT_OK
                   then map_option (\<lambda>node. (persist_status, first_index, node))
                          (batch_rollback first_index node)
                   else batch_loop t (Suc i) first_index cmds node)
        })"

definition raft_propose_batch ::
  "raft_node \<Rightarrow> bytes option list \<Rightarrow> (raft_status_t \<times> u64 option \<times> raft_node) option"
where
  "raft_propose_batch node commands =
     (if \<not> running node then Some (RAFT_STOPPED, None, node)
      else if role node \<noteq> RAFT_LEADER then Some (RAFT_NOT_LEADER, None, node)
      else if commands = [] then Some (RAFT_INVALID_ARG, None, node)
      else do {
        (status, first_index, node) \<leftarrow> batch_loop (current_term node) 0 0 commands node;
        if status \<noteq> RAFT_OK then Some (status, None, node)
        else do {
          node \<leftarrow> (case match_index node of
                     None \<Rightarrow> Some node
                   | Some mi \<Rightarrow> do {
                       mi \<leftarrow> arr_set mi (node_id node) (raft_log_last_index (log node));
                       Some (node\<lparr>match_index := Some mi\<rparr>)
                     });
          Some (RAFT_OK, Some first_index, node)
        }
      })"

text \<open>The loop of \<^verbatim>\<open>raft_apply_batch\<close>: at most \<open>k\<close> entries from \<open>index\<close> on, until one is
  missing.\<close>

fun apply_batch_loop :: "nat \<Rightarrow> u64 \<Rightarrow> nat \<Rightarrow> raft_node \<Rightarrow> nat \<times> raft_node" where
  "apply_batch_loop 0 index done node = (done, node)"
| "apply_batch_loop (Suc k) index done node =
     (case raft_log_get (log node) index of
        None \<Rightarrow> (done, node)
      | Some e \<Rightarrow>
          apply_batch_loop k (index + 1) (Suc done)
            (if has_apply_fn node then node\<lparr>applied := applied node @ [e]\<rparr> else node))"

definition raft_apply_batch :: "raft_node \<Rightarrow> nat \<Rightarrow> nat \<times> raft_node" where
  "raft_apply_batch node max_entries =
     (let available = (if commit_index node > last_applied node
                       then unat (commit_index node - last_applied node) else 0);
          available = (if max_entries > 0 \<and> available > max_entries then max_entries else available)
      in case apply_batch_loop available (last_applied node + 1) 0 node of
           (done, node') \<Rightarrow> (done, node'\<lparr>last_applied := last_applied node + of_nat done\<rparr>))"

definition raft_pending_apply_count :: "raft_node \<Rightarrow> nat" where
  "raft_pending_apply_count node =
     (if commit_index node > last_applied node then unat (commit_index node - last_applied node) else 0)"

section \<open>A batch is all or nothing in memory\<close>

definition spec_append_all :: "log_spec \<Rightarrow> u64 \<Rightarrow> bytes option list \<Rightarrow> log_spec" where
  "spec_append_all s t cmds = (case s of (b, bt, es) \<Rightarrow> (b, bt, es @ map (\<lambda>c. (t, cmd_bytes c)) cmds))"

lemma batch_rollback_view:
  assumes wf: "raft_log_wf (log n)" and first: "unat first = old + 1"
    and lo: "unat (base_index (log n)) \<le> old"
    and v: "log_view (log n) = (b, bt, es @ xs)" and l0: "b + length es = old"
  shows "\<exists>n'. batch_rollback first n = Some n' \<and> log_view (log n') = (b, bt, es) \<and> raft_log_wf (log n')"
proof -
  have p: "unat (first - 1) = old"
  proof -
    have "first \<noteq> 0" using first by auto
    then show ?thesis using first by (simp add: unat_pred)
  qed
  obtain l where "raft_log_truncate_after (log n) (first - 1) = Some (RAFT_OK, l)" "raft_log_wf l"
    "log_view l = spec_truncate_after (log_view (log n)) old"
    using raft_log_truncate_after_ok [OF wf, of "first - 1"] lo p by (auto simp: u64_le)
  then show ?thesis using v l0 by (auto simp: batch_rollback_def spec_truncate_after_def)
qed

text \<open>The loop in the middle of a batch that started on the log \<open>(b, bt, es)\<close> and has appended
  \<open>xs\<close> so far.\<close>

lemma batch_loop_view:
  assumes "raft_log_wf (log n)" and "log_view (log n) = (b, bt, es @ xs)" and "i = length xs"
    and "i = 0 \<longrightarrow> first = 0" and "i > 0 \<longrightarrow> unat first = b + length es + 1"
    and "b + length es + length xs + length cmds < 2 ^ 64 - 2"
  shows "\<exists>st f n'. batch_loop t i first cmds n = Some (st, f, n') \<and> raft_log_wf (log n') \<and>
     node_id n' = node_id n \<and> num_nodes n' = num_nodes n \<and> match_index n' = match_index n \<and>
     role n' = role n \<and>
     (st = RAFT_OK \<longrightarrow> log_view (log n') = (b, bt, es @ xs @ map (\<lambda>c. (t, cmd_bytes c)) cmds) \<and>
        (cmds \<noteq> [] \<or> i > 0 \<longrightarrow> unat f = b + length es + 1)) \<and>
     (st \<noteq> RAFT_OK \<longrightarrow> log_view (log n') = (b, bt, es))"
  using assms
proof (induction cmds arbitrary: n i first xs)
  case Nil
  then show ?case by auto
next
  case (Cons c cmds)
  obtain s idx l w where app: "raft_log_append (log n) t c (wld n) = (s, idx, l, w)" by (metis prod_cases4)
  have last: "log_last (log n) = b + length es + length xs"
    using Cons.prems(1,2) by (auto simp: log_view_def log_last_def raft_log_wf_def dest: arg_cong [where f = length])
  have base: "unat (base_index (log n)) = b" using Cons.prems(2) by (simp add: log_view_def)
  have room: "log_last (log n) < 2 ^ 64 - 2" using last Cons.prems(6) by simp
  note ac = raft_log_append_cases [OF app Cons.prems(1) room]
  define m where "m = n\<lparr>log := l, wld := w\<rparr>"
  have m: "raft_log_wf (log m)" "unat (base_index (log m)) = b" "node_id m = node_id n" "num_nodes m = num_nodes n"
    "match_index m = match_index n" "role m = role n" "storage m = storage n" "wld m = w"
    using ac base by (simp_all add: m_def)
  show ?case
  proof (cases "s = RAFT_OK")
    case False
    then have v: "log_view (log m) = (b, bt, es @ xs)" using ac Cons.prems(2) by (simp add: m_def)
    show ?thesis
    proof (cases "i = 0")
      case True
      then show ?thesis
        using False Cons.prems(3,4) v m app by (simp add: m_def [symmetric] Let_def)
    next
      case i: False
      obtain n' where n': "batch_rollback first m = Some n'" "log_view (log n') = (b, bt, es)" "raft_log_wf (log n')"
        using batch_rollback_view [OF m(1) _ _ v refl] Cons.prems(5) i m(2) by auto
      have "first > 0" using Cons.prems(5) i by (auto simp: word_neq_0_conv [symmetric])
      moreover have "node_id n' = node_id m" "num_nodes n' = num_nodes m" "match_index n' = match_index m" "role n' = role m"
        using n'(1) by (auto simp: batch_rollback_def)
      ultimately show ?thesis
        using False n' m app by (simp add: m_def [symmetric] Let_def)
    qed
  next
    case True
    then obtain ix where ix: "idx = Some ix" "unat ix = b + length es + length xs + 1"
      and v: "log_view (log m) = (b, bt, es @ (xs @ [(t, cmd_bytes c)]))"
      using ac last Cons.prems(2) by (auto simp: m_def spec_append_def)
    define f where "f = (if i = 0 then ix else first)"
    have f: "unat f = b + length es + 1" using Cons.prems(3,5) ix by (auto simp: f_def)
    have IH: "\<exists>st g n'. batch_loop t (Suc i) f cmds k = Some (st, g, n') \<and> raft_log_wf (log n') \<and>
       node_id n' = node_id k \<and> num_nodes n' = num_nodes k \<and> match_index n' = match_index k \<and> role n' = role k \<and>
       (st = RAFT_OK \<longrightarrow> log_view (log n') = (b, bt, es @ (xs @ [(t, cmd_bytes c)]) @ map (\<lambda>c. (t, cmd_bytes c)) cmds) \<and>
          (cmds \<noteq> [] \<or> Suc i > 0 \<longrightarrow> unat g = b + length es + 1)) \<and>
       (st \<noteq> RAFT_OK \<longrightarrow> log_view (log n') = (b, bt, es))" if "log k = log m" for k
      by (rule Cons.IH) (use that m v f Cons.prems in auto)
    show ?thesis
    proof (cases "storage n")
      case None
      then show ?thesis
        using IH [of m] True app ix m by (simp add: m_def [symmetric] f_def [symmetric] Let_def)
    next
      case (Some st)
      obtain ps st' w' where pe: "raft_storage_append_entry st (batch_entry t ix c) w = (ps, st', w')"
        by (metis prod_cases3)
      define k where "k = m\<lparr>storage := Some st', wld := w'\<rparr>"
      have k: "log k = log m" "node_id k = node_id n" "num_nodes k = num_nodes n" "match_index k = match_index n" "role k = role n"
        using m by (simp_all add: k_def)
      have step: "batch_loop t i first (c # cmds) n =
          (if ps \<noteq> RAFT_OK then map_option (\<lambda>node. (ps, f, node)) (batch_rollback f k)
           else batch_loop t (Suc i) f cmds k)"
        using True Some app ix pe by (simp add: f_def [symmetric] k_def m_def Let_def)
      show ?thesis
      proof (cases "ps = RAFT_OK")
        case True
        then show ?thesis using step IH [OF k(1)] k by simp
      next
        case False
        have "\<exists>n'. batch_rollback f k = Some n' \<and> log_view (log n') = (b, bt, es) \<and> raft_log_wf (log n')"
          by (rule batch_rollback_view [where old = "b + length es" and xs = "xs @ [(t, cmd_bytes c)]"])
            (use m v f k in auto)
        moreover have "node_id n' = node_id k \<and> num_nodes n' = num_nodes k \<and> match_index n' = match_index k \<and> role n' = role k"
          if "batch_rollback f k = Some n'" for n'
          using that by (auto simp: batch_rollback_def)
        ultimately show ?thesis using False step k by auto
      qed
    qed
  qed
qed

section \<open>Batched application agrees with the loop of \<^verbatim>\<open>raft_apply_committed\<close>\<close>

lemma apply_batch_loop_spec:
  assumes "\<forall>i \<in> set (u64_range index k). raft_log_get (log n) i \<noteq> None"
  shows "apply_batch_loop k index d n =
    (d + k, if has_apply_fn n
            then n\<lparr>applied := applied n @ List.map_filter (raft_log_get (log n)) (u64_range index k)\<rparr> else n)"
  using assms
proof (induction k arbitrary: index d n)
  case 0
  then show ?case by (simp add: map_filter_simps)
next
  case (Suc k)
  obtain e where e: "raft_log_get (log n) index = Some e" using Suc.prems by auto
  show ?case
    using Suc.IH [of "index + 1" "n\<lparr>applied := applied n @ [e]\<rparr>" "Suc d"] Suc.IH [of "index + 1" n "Suc d"]
      Suc.prems e
    by (simp add: map_filter_simps)
qed

text \<open>C20: A batch of proposals to a running leader is all or nothing in its log, whatever allocation or write fails: either all commands are appended in order from the returned index on, or the log reads as before and no index is returned.\<close>

theorem raft_propose_batch_atomic:
  assumes wf: "raft_log_wf (log n)" and id: "0 \<le> node_id n" "node_id n < num_nodes n"
    and arrays: "\<forall>mi. match_index n = Some mi \<longrightarrow> nat (num_nodes n) \<le> length mi"
    and run: "running n" "role n = RAFT_LEADER" and cmds: "cmds \<noteq> []"
    and room: "log_last (log n) + length cmds < 2 ^ 64 - 2"
  shows "\<exists>st idx n'. raft_propose_batch n cmds = Some (st, idx, n') \<and>
    (if st = RAFT_OK
     then log_view (log n') = spec_append_all (log_view (log n)) (current_term n) cmds \<and>
          map_option unat idx = Some (log_last (log n) + 1)
     else log_view (log n') = log_view (log n) \<and> idx = None)"
proof -
  obtain b bt es where v: "log_view (log n) = (b, bt, es)" by (metis prod_cases3)
  have last: "log_last (log n) = b + length es"
    using wf v by (auto simp: log_view_def log_last_def raft_log_wf_def)
  obtain st f m where lp: "batch_loop (current_term n) 0 0 cmds n = Some (st, f, m)"
    "node_id m = node_id n" "num_nodes m = num_nodes n" "match_index m = match_index n" "role m = role n"
    "st = RAFT_OK \<longrightarrow> log_view (log m) = (b, bt, es @ map (\<lambda>c. (current_term n, cmd_bytes c)) cmds) \<and>
       unat f = b + length es + 1"
    "st \<noteq> RAFT_OK \<longrightarrow> log_view (log m) = (b, bt, es)"
    using batch_loop_view [OF wf, of b bt es "[]" 0 0 cmds "current_term n"] v room last cmds by auto
  show ?thesis
  proof (cases "match_index n")
    case None
    then show ?thesis using run cmds lp v last by (auto simp: raft_propose_batch_def spec_append_all_def)
  next
    case (Some mi)
    have "nat (node_id n) < length mi" using Some arrays id by fastforce
    then obtain mi' where "arr_set mi (node_id n) (raft_log_last_index (log m)) = Some mi'"
      using id by (simp add: arr_set_def)
    then show ?thesis using Some run cmds lp v last by (auto simp: raft_propose_batch_def spec_append_all_def)
  qed
qed

text \<open>The second command does not get its memory: the first one is rolled back.\<close>

definition poor_node :: raft_node where
  "poor_node = (sample_node 0 3 RAFT_LEADER 2 two_logs)\<lparr>wld := quiet_world\<lparr>w_alloc := [True, False]\<rparr>\<rparr>"

theorem raft_propose_batch_atomic_witness:
  "\<exists>st idx n'. raft_propose_batch poor_node [Some [1], Some [2]] = Some (st, idx, n') \<and> st \<noteq> RAFT_OK \<and>
     log_view (log n') = (0, 0, [(1, [7]), (1, [8])])"
proof -
  have "raft_log_wf (log poor_node) \<and> (\<forall>mi. match_index poor_node = Some mi \<longrightarrow> nat (num_nodes poor_node) \<le> length mi)"
    using sample_node_ok [of two_logs 0 3 RAFT_LEADER 2]
    by (auto simp: poor_node_def node_ok_def leader_arrays_def sample_logs sample_node_def)
  then obtain st idx n' where r: "raft_propose_batch poor_node [Some [1], Some [2]] = Some (st, idx, n')"
    "if st = RAFT_OK
     then log_view (log n') = spec_append_all (log_view (log poor_node)) (current_term poor_node) [Some [1], Some [2]] \<and>
          map_option unat idx = Some (log_last (log poor_node) + 1)
     else log_view (log n') = log_view (log poor_node) \<and> idx = None"
    using raft_propose_batch_atomic [of poor_node "[Some [1], Some [2]]"]
    by (auto simp: poor_node_def sample_node_def sample_logs)
  moreover have "st \<noteq> RAFT_OK"
    using r(1) by (auto simp: poor_node_def sample_node_def raft_propose_batch_def raft_log_append_def malloc_def
        sample_log_def batch_rollback_def Let_def cmd_bytes_def log_grow_def bind_eq_Some_conv)
  ultimately show ?thesis by (auto simp: poor_node_def sample_node_def sample_logs)
qed

text \<open>C21: When the log still holds every committed entry that is not applied, applying without a limit in one batch leaves, with a callback set, the same node as \<^verbatim>\<open>raft_apply_committed\<close>, and the returned count is the number of entries that were pending. Without a callback the batch marks them as applied, while \<^verbatim>\<open>raft_apply_committed\<close> does nothing.\<close>

theorem raft_apply_batch_all:
  assumes wf: "raft_log_wf (log n)"
    and lo: "unat (base_index (log n)) \<le> unat (last_applied n)" and hi: "unat (commit_index n) \<le> log_last (log n)"
  shows "raft_apply_batch n 0 =
    (raft_pending_apply_count n,
     if has_apply_fn n then raft_apply_committed n else n\<lparr>last_applied := max (last_applied n) (commit_index n)\<rparr>) \<and>
    (has_apply_fn n \<or> raft_apply_committed n = n)"
proof (cases "commit_index n > last_applied n")
  case False
  then have "apply_loop n = n" by (subst apply_loop.simps) simp
  then show ?thesis using False
    by (simp add: raft_apply_batch_def raft_pending_apply_count_def raft_apply_committed_def max_def)
next
  case True
  let ?d = "unat (commit_index n) - unat (last_applied n)"
  have d: "unat (commit_index n - last_applied n) = ?d" using True by (simp add: unat_diff)
  have s: "unat (last_applied n + 1) = unat (last_applied n) + 1" using True by (rule unat_succ_less)
  have ran: "unat (last_applied n + 1) + ?d \<le> 2 ^ 64"
    using s hi wf True by (simp add: raft_log_wf_def u64_less)
  have "raft_log_get (log n) i \<noteq> None" if "i \<in> set (u64_range (last_applied n + 1) ?d)" for i
  proof -
    have "unat i \<in> set (map unat (u64_range (last_applied n + 1) ?d))" using that by simp
    then have "unat (last_applied n) < unat i" "unat i \<le> unat (commit_index n)"
      unfolding unat_u64_range [OF ran] using s True by (auto simp: u64_less)
    then show ?thesis using lo hi by (simp add: raft_log_get_eq [OF wf])
  qed
  then have lp: "apply_batch_loop ?d (last_applied n + 1) 0 n =
      (?d, if has_apply_fn n
           then n\<lparr>applied := applied n @ List.map_filter (raft_log_get (log n)) (u64_range (last_applied n + 1) ?d)\<rparr> else n)"
    using apply_batch_loop_spec [of "last_applied n + 1" ?d n 0] by simp
  have "of_nat ?d = commit_index n - last_applied n" unfolding d [symmetric] by simp
  then have "last_applied n + of_nat ?d = commit_index n" by simp
  moreover obtain la ap where sh: "apply_loop n = n\<lparr>last_applied := la, applied := ap\<rparr>"
    using apply_loop_shape by blast
  ultimately show ?thesis
    using True lp apply_loop_spec [of n] d
    by (cases "has_apply_fn n") (simp_all add: raft_apply_batch_def raft_pending_apply_count_def raft_apply_committed_def max_def)
qed

theorem raft_apply_batch_all_witness:
  "raft_apply_batch ((sample_node 0 3 RAFT_LEADER 2 two_logs)\<lparr>commit_index := 2\<rparr>) 0 =
    (raft_pending_apply_count ((sample_node 0 3 RAFT_LEADER 2 two_logs)\<lparr>commit_index := 2\<rparr>),
     raft_apply_committed ((sample_node 0 3 RAFT_LEADER 2 two_logs)\<lparr>commit_index := 2\<rparr>))"
proof -
  let ?n = "(sample_node 0 3 RAFT_LEADER 2 two_logs)\<lparr>commit_index := 2\<rparr>"
  have "raft_log_wf (log ?n)" "unat (base_index (log ?n)) \<le> unat (last_applied ?n)" "unat (commit_index ?n) \<le> log_last (log ?n)"
    by (simp_all add: sample_node_def sample_logs, simp add: sample_log_def)
  moreover have "has_apply_fn ?n" by (simp add: sample_node_def)
  ultimately show ?thesis using raft_apply_batch_all [of ?n] by (simp only: if_True)
qed

end
