(* ===== verification/Raft_Durable.thy ===== *)
theory Raft_Durable
  imports Raft_Dispatch Raft_Recovery Raft_Transfer Raft_Batch
begin

text \<open>
  What the calls of \<^verbatim>\<open>persist_state\<close> achieve: as long as no allocation and no system call fails, the state
  file of a node always holds its current term and vote when an entry point returns, so a node created again on the same
  directory resumes with them. This is the contract between the voting code (\<^verbatim>\<open>election.c\<close>), the storage
  (\<^verbatim>\<open>storage.c\<close>) and the recovery (\<^verbatim>\<open>recovery.c\<close>).
\<close>

section \<open>Durable nodes\<close>

definition durable :: "raft_node \<Rightarrow> bool" where
  "durable n \<longleftrightarrow>
     io_ok (wld n) \<and> alloc_ok (wld n) \<and>
     (\<forall>st. storage n = Some st \<longrightarrow> persisted (st_data_dir st) (wld n) (current_term n) (voted_for n))"

lemma durable_calm: "durable n \<Longrightarrow> io_ok (wld n)" "durable n \<Longrightarrow> alloc_ok (wld n)"
  by (simp_all add: durable_def)

text \<open>Fields that are neither the environment, the storage, the term nor the vote do not matter.\<close>

lemma durable_frame:
  assumes "durable n" and "wld n' = wld n" and "storage n' = storage n"
    and "current_term n' = current_term n" and "voted_for n' = voted_for n"
  shows "durable n'"
  using assms by (simp add: durable_def)

lemma durable_upd [simp]:
  "durable (n\<lparr>role := a\<rparr>) = durable n" "durable (n\<lparr>current_leader := b\<rparr>) = durable n"
  "durable (n\<lparr>votes_received := c\<rparr>) = durable n" "durable (n\<lparr>votes_granted := d\<rparr>) = durable n"
  "durable (n\<lparr>commit_index := e\<rparr>) = durable n" "durable (n\<lparr>log := f\<rparr>) = durable n"
  "durable (n\<lparr>match_index := g\<rparr>) = durable n" "durable (n\<lparr>next_index := h\<rparr>) = durable n"
  "durable (n\<lparr>running := i\<rparr>) = durable n" "durable (n\<lparr>election_timer_ms := j\<rparr>) = durable n"
  "durable (n\<lparr>heartbeat_timer_ms := k\<rparr>) = durable n" "durable (n\<lparr>outbox := l\<rparr>) = durable n"
  by (simp_all add: durable_def)

lemma durable_timer: "durable n \<Longrightarrow> durable (raft_reset_election_timer n)"
  by (auto simp: durable_def raft_reset_election_timer_def raft_random_election_timeout_def persisted_def rand_def
      io_ok_def alloc_ok_def Let_def split: list.splits)

text \<open>\<^verbatim>\<open>persist_state\<close> makes a node durable, whatever was in the state file before.\<close>

lemma durable_persist:
  assumes "io_ok (wld n)" and "alloc_ok (wld n)"
  shows "durable (persist_state n)"
proof (cases "storage n")
  case None
  then show ?thesis using assms by (simp add: persist_state_def durable_def)
next
  case (Some st)
  obtain w where "raft_storage_save_state st (current_term n) (voted_for n) (wld n) = (RAFT_OK, w)" "io_ok w" "alloc_ok w"
    "w_fs w (state_path st) = Some (state_image (current_term n) (voted_for n))"
    using save_state_ok [OF assms] by blast
  then show ?thesis using Some by (simp add: persist_state_def durable_def persisted_def state_path_def)
qed

lemma durable_send [simp]: "durable (send_fn p m n) = durable n" "durable (send_to_peers m n) = durable n"
  by (simp_all add: durable_def send_fn_def send_to_peers_def)

lemma durable_become_leader:
  assumes "durable n" and "raft_become_leader n = (st, n')"
  shows "durable n'"
  using assms durable_calm(2) [OF assms(1)] by (auto simp: raft_become_leader_def durable_def Let_def split: if_splits)

lemma apply_loop_same:
  "wld (apply_loop n) = wld n" "storage (apply_loop n) = storage n" "current_term (apply_loop n) = current_term n"
  "voted_for (apply_loop n) = voted_for n"
proof -
  obtain la ap where "apply_loop n = n\<lparr>last_applied := la, applied := ap\<rparr>" using apply_loop_shape by blast
  then show "wld (apply_loop n) = wld n" "storage (apply_loop n) = storage n" "current_term (apply_loop n) = current_term n"
    "voted_for (apply_loop n) = voted_for n" by simp_all
qed

lemma durable_apply [simp]: "durable (raft_apply_committed n) = durable n"
  by (simp add: raft_apply_committed_def durable_def apply_loop_same)

section \<open>The handlers keep nodes durable\<close>

lemma durable_step_down:
  assumes "durable n" and "raft_step_down n t = Some n'"
  shows "durable n'"
  using assms durable_calm [OF assms(1)]
  by (auto simp: raft_step_down_def bind_eq_Some_conv intro!: durable_timer durable_persist)

lemma durable_catch_up:
  assumes "durable n" and "catch_up n t = Some n'"
  shows "durable n'"
  using assms durable_step_down by (auto simp: catch_up_def split: if_splits)

lemma durable_start_election:
  assumes d: "durable n" and eq: "raft_start_election n = Some (st, n')"
  shows "durable n'"
proof (cases "running n")
  case False
  then show ?thesis using assms by (simp add: raft_start_election_def)
next
  case True
  let ?p = "persist_state (n\<lparr>role := RAFT_CANDIDATE, current_term := current_term n + 1, voted_for := node_id n, current_leader := -1\<rparr>)"
  have p: "durable ?p" by (rule durable_persist) (use durable_calm [OF d] in simp_all)
  obtain fl where fl: "let m = raft_reset_election_timer (?p\<lparr>votes_received := 1, votes_granted := fl\<rparr>)
      in raft_become_leader m = (st, n') \<or> (\<exists>r. n' = send_to_peers r m)"
    using eq True unfolding raft_start_election_def by (auto simp: bind_eq_Some_conv Let_def split: if_splits)
  have "durable (raft_reset_election_timer (?p\<lparr>votes_received := 1, votes_granted := fl\<rparr>))"
    by (rule durable_timer, rule durable_frame [OF p]) simp_all
  then show ?thesis using fl durable_become_leader by (auto simp: Let_def)
qed

lemma durable_start_pre_vote:
  assumes d: "durable n" and eq: "raft_start_pre_vote n = Some (st, n')"
  shows "durable n'"
proof -
  have "n' = n \<or> (\<exists>f. let m = raft_reset_election_timer (n\<lparr>role := RAFT_PRE_CANDIDATE, current_leader := -1,
      votes_received := 1, votes_granted := f\<rparr>)
      in raft_start_election m = Some (st, n') \<or> (\<exists>r. n' = send_to_peers r m))"
    using eq unfolding raft_start_pre_vote_def by (auto simp: bind_eq_Some_conv Let_def split: if_splits)
  moreover have "durable (raft_reset_election_timer (n\<lparr>role := RAFT_PRE_CANDIDATE, current_leader := -1,
      votes_received := 1, votes_granted := f\<rparr>))" for f
    by (rule durable_timer, rule durable_frame [OF d]) simp_all
  ultimately show ?thesis using d durable_start_election by (auto simp: Let_def)
qed

lemma durable_pre_vote_response:
  assumes d: "durable n" and eq: "raft_handle_pre_vote_response n from r = Some (st, n')"
  shows "durable n'"
proof -
  define m where "m = n\<lparr>votes_granted := (votes_granted n)[nat from := True], votes_received := votes_received n + 1\<rparr>"
  have "n' = n \<or> raft_step_down n (pvr_term r) = Some n' \<or> n' = m \<or> raft_start_election m = Some (st, n')"
    using eq by (simp add: raft_handle_pre_vote_response_def arr_get_def arr_set_def Let_def
        m_def [symmetric] split: if_splits)
  moreover have "durable m" by (rule durable_frame [OF d]) (simp_all add: m_def)
  ultimately show ?thesis using d durable_step_down durable_start_election by blast
qed

lemma durable_timeout_now:
  assumes "durable n" and "raft_handle_timeout_now n r = Some (st, n')"
  shows "durable n'"
  using assms durable_start_election by (auto simp: raft_handle_timeout_now_def split: if_splits)

lemma durable_request_vote:
  assumes d: "durable n" and eq: "raft_handle_request_vote n r = Some (st, resp, n')"
  shows "durable n'"
proof -
  obtain m where m: "catch_up n (rv_term r) = Some m"
    using eq by (auto simp: raft_handle_request_vote_def catch_up_def bind_eq_Some_conv)
  have dm: "durable m" by (rule durable_catch_up [OF d m])
  have "n' = m \<or> n' = raft_reset_election_timer (persist_state (m\<lparr>voted_for := rv_candidate_id r\<rparr>))"
    using eq m by (auto simp: raft_handle_request_vote_def catch_up_def [symmetric] Let_def split: if_splits)
  moreover have "durable (persist_state (m\<lparr>voted_for := rv_candidate_id r\<rparr>))"
    by (rule durable_persist) (use durable_calm [OF dm] in simp_all)
  ultimately show ?thesis using dm durable_timer by blast
qed

lemma durable_request_vote_response:
  assumes d: "durable n" and eq: "raft_handle_request_vote_response n from r = Some (st, n')"
  shows "durable n'"
proof -
  define m where "m = n\<lparr>votes_granted := (votes_granted n)[nat from := True], votes_received := votes_received n + 1\<rparr>"
  have "n' = n \<or> raft_step_down n (rvr_term r) = Some n' \<or> n' = m \<or> raft_become_leader m = (st, n')"
    using eq by (simp add: raft_handle_request_vote_response_def arr_get_def arr_set_def Let_def
        m_def [symmetric] split: if_splits)
  moreover have "durable m" by (rule durable_frame [OF d]) (simp_all add: m_def)
  ultimately show ?thesis using d durable_step_down durable_become_leader by blast
qed

lemma durable_append_entries:
  assumes d: "durable n" and eq: "raft_handle_append_entries n r = Some (st, resp, n')"
  shows "durable n'"
proof -
  obtain m where m: "catch_up n (ae_term r) = Some m"
    using eq by (auto simp: raft_handle_append_entries_def catch_up_def bind_eq_Some_conv)
  have dm: "durable m" by (rule durable_catch_up [OF d m])
  then show ?thesis
    using eq m durable_timer [OF dm]
    by (auto simp: raft_handle_append_entries_def catch_up_def [symmetric] Let_def split: if_splits)
qed

lemma raft_log_append_world: "alloc_ok w \<Longrightarrow> raft_log_append l t c w = (st, i, l', w') \<Longrightarrow> w' = w"
  using raft_log_append_ok by blast

lemma store_entry_world:
  assumes "alloc_ok w" and "store_entry i t c l w = Some (l', w')"
  shows "w' = w"
proof -
  obtain m where "(l', w') = (if i > raft_log_last_index m
      then (case raft_log_append m t (Some c) w of (status, idx, l, w) \<Rightarrow> (l, w)) else (m, w))"
    using assms(2) unfolding store_entry_def Let_def bind_eq_Some_conv option.inject by (elim exE conjE) (rule that, erule sym)
  then show ?thesis using raft_log_append_world [OF assms(1)] by (auto split: if_splits prod.splits)
qed

lemma process_entries_world: "alloc_ok w \<Longrightarrow> process_entries k i bs l w = Some (l', w') \<Longrightarrow> w' = w"
proof (induction k arbitrary: i bs l w)
  case 0
  then show ?case by simp
next
  case (Suc k)
  have "w' = w \<or> (\<exists>t c m v bs'. store_entry i t c l w = Some (m, v) \<and> process_entries k (i + 1) bs' m v = Some (l', w'))"
    using Suc.prems(2) unfolding process_entries.simps
    by (auto simp: Let_def bind_eq_Some_conv simp del: read_buf_ok split: if_splits; blast)
  then show ?case using Suc store_entry_world by blast
qed

lemma durable_with_log:
  assumes d: "durable n" and eq: "raft_handle_append_entries_with_log n r p = Some (st, resp, n')"
  shows "durable n'"
proof -
  obtain m where m: "catch_up n (ae_term r) = Some m"
    using eq by (auto simp: raft_handle_append_entries_with_log_def catch_up_def bind_eq_Some_conv)
  have dm: "durable m" by (rule durable_catch_up [OF d m])
  show ?thesis
  proof (cases "ae_term r < current_term m")
    case True
    then show ?thesis
      using eq m dm unfolding raft_handle_append_entries_with_log_def catch_up_def [symmetric] by simp
  next
    case False
    have w: "w = wld m" if "process_entries k i p l (wld m) = Some (l', w)" for k i l l' w
      by (rule process_entries_world [OF durable_calm(2) [OF dm] that])
    have f: "durable (follow m r)" by (rule durable_frame [OF dm]) (simp_all add: follow_def Let_def)
    have g: "durable (follow m r\<lparr>log := a, wld := wld m\<rparr>)" for a
      by (rule durable_frame [OF dm]) (simp_all add: follow_def Let_def)
    show ?thesis
      using eq dm f g unfolding with_log_unfold [OF m False]
      by (auto simp: Let_def bind_eq_Some_conv dest!: w split: if_splits)
  qed
qed

lemma durable_world_eq: "durable n \<Longrightarrow> durable (n\<lparr>log := l, wld := wld n\<rparr>)"
  by simp

lemma durable_advance_commit:
  assumes "durable n" and "raft_advance_commit_index n = Some (st, n')"
  shows "durable n'"
  using assms by (auto simp: raft_advance_commit_index_def Let_def bind_eq_Some_conv split: if_splits)

lemma durable_append_entries_response:
  assumes d: "durable n" and eq: "raft_handle_append_entries_response n from r = Some (st, n')"
  shows "durable n'"
proof -
  have "raft_step_down n (aer_term r) = Some n' \<or> n' = n \<or> (\<exists>b. n' = n\<lparr>next_index := b\<rparr>) \<or>
      (\<exists>s. raft_advance_commit_index n = Some (s, n')) \<or>
      (\<exists>a b s. raft_advance_commit_index (n\<lparr>match_index := a, next_index := b\<rparr>) = Some (s, n'))"
    using eq unfolding raft_handle_append_entries_response_def
    by (auto simp: bind_eq_Some_conv Let_def split: if_splits)
  moreover have u: "durable (n\<lparr>match_index := a, next_index := b\<rparr>)" for a b using d by simp
  ultimately show ?thesis
    by (elim disjE exE)
      (erule durable_step_down [OF d] durable_advance_commit [OF d] durable_advance_commit [OF u] | simp add: d)+
qed

lemma durable_reply: "durable n \<Longrightarrow> reply p st m n = (st', n') \<Longrightarrow> durable n'"
  by (auto simp: reply_def split: if_splits)

lemma durable_receive_message:
  assumes dn: "durable n" and eq: "raft_receive_message n from m len = Some (st, n')"
  shows "durable n'"
proof (cases "len < SIZEOF_MSG_TYPE")
  case True
  then show ?thesis using assms by (simp add: raft_receive_message_def)
next
  case False
  then have d: "dispatch_message n from m len = Some (st, n')"
    using eq by (simp add: raft_receive_message_def)
  show ?thesis
  proof (cases m)
    case (RequestVote r)
    then show ?thesis using d dn
      by (auto simp: bind_eq_Some_conv split: if_splits dest!: durable_request_vote [OF dn] elim: durable_reply)
  next
    case (RequestVoteResponse r)
    then show ?thesis using d dn by (auto split: if_splits dest!: durable_request_vote_response [OF dn])
  next
    case (AppendEntries r p)
    then show ?thesis using d dn
      by (auto simp: bind_eq_Some_conv split: if_splits
          dest!: durable_append_entries [OF dn] durable_with_log [OF dn] elim: durable_reply)
  next
    case (AppendEntriesResponse r)
    then show ?thesis using d dn by (auto split: if_splits dest!: durable_append_entries_response [OF dn])
  next
    case (PreVote r)
    then show ?thesis using d dn by (auto split: if_splits prod.splits elim: durable_reply)
  next
    case (PreVoteResponse r)
    then show ?thesis using d dn by (auto split: if_splits dest!: durable_pre_vote_response [OF dn])
  next
    case (TimeoutNow r)
    then show ?thesis using d dn by (auto split: if_splits dest!: durable_timeout_now [OF dn])
  qed (use d dn in simp_all)
qed

section \<open>Clients and clocks\<close>

lemma durable_replicate_to_peer:
  assumes "durable n" and "raft_replicate_to_peer n i = Some (st, n')"
  shows "durable n'"
  using assms durable_calm(2) [OF assms(1)]
  by (auto simp: raft_replicate_to_peer_def bind_eq_Some_conv Let_def split: if_splits)

lemma durable_replicate_to_all: "durable n \<Longrightarrow> replicate_to_all is n = Some n' \<Longrightarrow> durable n'"
  by (induction "is" arbitrary: n)
    (auto simp: bind_eq_Some_conv split: if_splits dest: durable_replicate_to_peer)

lemma durable_replicate_log: "durable n \<Longrightarrow> raft_replicate_log n = Some (st, n') \<Longrightarrow> durable n'"
  by (auto simp: raft_replicate_log_def split: if_splits dest: durable_replicate_to_all)

lemma durable_tick:
  assumes d: "durable n" and eq: "raft_tick n e = Some (st, n')"
  shows "durable n'"
proof -
  obtain s m where m: "raft_tick_election n e = Some (s, m)" and r: "m = n' \<or> raft_tick_heartbeat m e = Some (st, n')"
    using eq by (auto simp: raft_tick_def bind_eq_Some_conv split: if_splits)
  have "durable m"
    using m d durable_start_election [of "n\<lparr>election_timer_ms := election_timer_ms n + e\<rparr>"]
    by (auto simp: raft_tick_election_def Let_def split: if_splits)
  then show ?thesis
    using r durable_replicate_log [of "m\<lparr>heartbeat_timer_ms := 0\<rparr>"]
    by (auto simp: raft_tick_heartbeat_def Let_def split: if_splits)
qed

lemma durable_propose:
  assumes d: "durable n" and eq: "raft_propose n c = Some (st, i, n')"
  shows "durable n'"
proof -
  obtain s ix l w where a: "raft_log_append (log n) (current_term n) c (wld n) = (s, ix, l, w)" by (metis prod_cases4)
  have "w = wld n" by (rule raft_log_append_world [OF durable_calm(2) [OF d] a])
  then have dl: "durable (n\<lparr>log := l, wld := w\<rparr>)" using d by simp
  then show ?thesis
    using eq a d durable_replicate_log [OF dl]
    by (auto simp: raft_propose_def bind_eq_Some_conv Let_def split: if_splits)
qed

lemma append_entry_frame:
  assumes "io_ok w" and "raft_storage_append_entry st e w = (s, st', w')"
  shows "io_ok w' \<and> (alloc_ok w \<longrightarrow> alloc_ok w') \<and> st_data_dir st' = st_data_dir st \<and>
    (\<forall>p. p \<noteq> path_of (st_data_dir st) LOG_FILE \<longrightarrow> w_fs w' p = w_fs w p)"
  using assms by (auto simp: raft_storage_append_entry_def Let_def split: if_splits prod.splits)

lemma durable_append_entry:
  assumes d: "durable n" and st: "storage n = Some st" and eq: "raft_storage_append_entry st e (wld n) = (s, st', w')"
  shows "durable (n\<lparr>storage := Some st', wld := w'\<rparr>)"
  using d st append_entry_frame [OF durable_calm(1) [OF d] eq] by (auto simp: durable_def persisted_def)

lemma durable_rollback: "durable n \<Longrightarrow> batch_rollback f n = Some n' \<Longrightarrow> durable n'"
  by (auto simp: batch_rollback_def)

lemma durable_batch_loop: "durable n \<Longrightarrow> batch_loop t i f cmds n = Some (st, g, n') \<Longrightarrow> durable n'"
proof (induction cmds arbitrary: i f n)
  case Nil
  then show ?case by simp
next
  case (Cons c cmds)
  obtain s ix l w where a: "raft_log_append (log n) t c (wld n) = (s, ix, l, w)" by (metis prod_cases4)
  define m where "m = n\<lparr>log := l, wld := w\<rparr>"
  have "w = wld n" by (rule raft_log_append_world [OF durable_calm(2) [OF Cons.prems(1)] a])
  then have dm: "durable m" and sm: "storage m = storage n" using Cons.prems(1) by (simp_all add: m_def)
  show ?case
  proof (cases "s = RAFT_OK")
    case False
    then show ?thesis
      using Cons.prems(2) a dm durable_rollback [OF dm] by (auto simp: m_def [symmetric] Let_def split: if_splits)
  next
    case True
    then obtain x where x: "ix = Some x" using Cons.prems(2) a by (auto simp: bind_eq_Some_conv Let_def)
    show ?thesis
    proof (cases "storage n")
      case None
      then show ?thesis using Cons.prems(2) a x True sm Cons.IH [OF dm] by (simp add: m_def [symmetric] Let_def)
    next
      case (Some stg)
      obtain ps st' w' where p: "raft_storage_append_entry stg (batch_entry t x c) w = (ps, st', w')" by (metis prod_cases3)
      have "durable (m\<lparr>storage := Some st', wld := w'\<rparr>)"
        by (rule durable_append_entry [OF dm]) (use sm Some p in \<open>simp_all add: m_def\<close>)
      then have dk: "durable (n\<lparr>log := l, storage := Some st', wld := w'\<rparr>)" by (simp add: m_def)
      show ?thesis
        using Cons.prems(2) a x True Some p Cons.IH [OF dk] durable_rollback [OF dk]
        by (auto simp: Let_def split: if_splits)
    qed
  qed
qed

lemma durable_propose_batch:
  assumes d: "durable n" and eq: "raft_propose_batch n cmds = Some (st, i, n')"
  shows "durable n'"
proof -
  have "n' = n \<or> (\<exists>s f m. batch_loop (current_term n) 0 0 cmds n = Some (s, f, m) \<and>
      (n' = m \<or> (\<exists>a. n' = m\<lparr>match_index := a\<rparr>)))"
    using eq by (auto simp: raft_propose_batch_def bind_eq_Some_conv split: if_splits option.splits)
  then show ?thesis using d durable_batch_loop [OF d] by auto
qed

lemma durable_transfer:
  assumes "durable n" and "raft_transfer_leadership n t g = Some (st, g', n')"
  shows "durable n'"
  using assms
  by (auto simp: raft_transfer_leadership_def raft_transfer_check_progress_def Let_def bind_eq_Some_conv split: if_splits)

lemma durable_start: "durable n \<Longrightarrow> durable (snd (raft_start n))"
  using durable_become_leader [of "n\<lparr>running := True\<rparr>"]
  by (cases "raft_become_leader (n\<lparr>running := True\<rparr>)") (auto simp: raft_start_def Let_def)

section \<open>Creating and recreating a node\<close>

lemma iterate_records_world:
  assumes fn: "\<And>c t i d. snd (snd (fn c w t i d)) = w" and io: "io_ok w" and al: "alloc_ok w"
  shows "snd (snd (iterate_records fn c rest s w)) = w"
proof (induction "length rest" arbitrary: c rest s rule: less_induct)
  case less
  have rf: "read_full r k w = (if k \<le> length r then Some (take k r) else None, w)" for r k
    using io by (auto simp: read_full_def read_bytes_def min_def)
  have fn': "fn c w t i d = (a, b, v) \<Longrightarrow> v = w" for c t i d a b v using fn [of c t i d] by simp
  show ?case
  proof (cases "28 \<le> length rest")
    case False
    then show ?thesis by (subst iterate_records.simps) (simp add: rf)
  next
    case True
    have IH: "snd (snd (iterate_records fn c' (drop k (drop 28 rest)) s' w)) = w" for c' k s'
      using True by (intro less) simp
    have step: "snd (snd (case fn c w t i d of (status, c, w) \<Rightarrow>
        if status \<noteq> RAFT_OK then (status, c, w) else iterate_records fn c (drop k (drop 28 rest)) s' w)) = w" for t i d k s'
      using IH IH [of _ 0] by (auto dest!: fn' split: prod.splits)
    show ?thesis
      using True al step
      by (subst iterate_records.simps) (auto simp: rf Let_def simp del: drop_drop split: option.splits)
  qed
qed

lemma recover_log_world:
  assumes "io_ok (wld n)" and "alloc_ok (wld n)" and "recover_log st n = (s, c, n')"
  shows "wld n' = wld n"
proof -
  have "snd (snd (recover_entry_cb c (wld n) t i d)) = wld n" for c t i d
    using raft_log_append_world [OF assms(2)] by (auto simp: recover_entry_cb_def Let_def split: prod.splits)
  then have it: "snd (snd (iterate_records recover_entry_cb c rest k (wld n))) = wld n" for c rest k
    by (intro iterate_records_world assms(1,2))
  have "snd (snd (raft_storage_iterate_log st recover_entry_cb c (wld n))) = wld n" for c
    using assms(1) it by (simp add: raft_storage_iterate_log_def)
  then show ?thesis using assms(3) by (auto simp: recover_log_def split: prod.splits) (metis snd_conv)
qed

lemma raft_recover_world:
  assumes io: "io_ok (wld n)" "alloc_ok (wld n)" and eq: "raft_recover n st = (s, r, n')"
    and per: "persisted (st_data_dir st) (wld n) t v" "i32_range v"
  shows "wld n' = wld n"
proof -
  obtain had l where b: "recover_base (raft_storage_get_dir st) n = (had, n\<lparr>log := l\<rparr>)"
    using recover_base_shape [OF io] by blast
  have ls: "raft_storage_load_state st (wld n) = (RAFT_OK, Some (t, v), wld n) \<or>
      raft_storage_load_state st (wld n) = (RAFT_NOT_FOUND, None, wld n)"
    using per load_state_image [OF io _ per(2), of st t] load_state_absent [OF io(2), of st]
    by (auto simp: persisted_def state_path_def)
  have w: "wld k = wld n" if "recover_log st m = (s', c, k)" "wld m = wld n" for s' c k m
    using recover_log_world [OF _ _ that(1)] io that(2) by simp
  from ls show ?thesis
  proof
    assume "raft_storage_load_state st (wld n) = (RAFT_OK, Some (t, v), wld n)"
    then show ?thesis using eq b w by (auto simp: raft_recover_def Let_def split: if_splits prod.splits)
  next
    assume "raft_storage_load_state st (wld n) = (RAFT_NOT_FOUND, None, wld n)"
    then show ?thesis using eq b w by (auto simp: raft_recover_def Let_def split: if_splits prod.splits)
  qed
qed

text \<open>A node created on an intact state file, or on none, is durable and resumes with its term and vote.\<close>

lemma raft_create_durable:
  assumes io: "io_ok w" "alloc_ok w" and cfg: "0 \<le> cf_node_id c" "1 \<le> cf_num_nodes c"
    and per: "\<forall>dir. cf_data_dir c = Some dir \<longrightarrow> persisted dir w t v" and v: "i32_range v"
    and eq: "raft_create c w = (Some n, w')"
  shows "durable n"
proof (cases "cf_data_dir c")
  case None
  then show ?thesis using assms by (auto simp: raft_create_def raft_log_create_def new_node_def durable_def)
next
  case (Some dir)
  obtain n0 where n0: "raft_create c w = (Some n0, wld n0)" "current_term n0 = t" "voted_for n0 = v"
    "\<exists>st. storage n0 = Some st \<and> st_data_dir st = dir"
    using raft_create_recovers [OF io cfg Some _ v] per Some by blast
  then have n: "current_term n = t" "voted_for n = v" "\<exists>st. storage n = Some st \<and> st_data_dir st = dir" using eq by auto
  obtain l where l: "raft_log_create w = (Some l, w)" using io by (simp add: raft_log_create_def)
  obtain st w1 where st: "raft_storage_open dir True w = (Some st, w1)" "st_data_dir st = dir"
    "io_ok w1" "alloc_ok w1" and fs: "w_fs w1 (path_of dir STATE_FILE) = w_fs w (path_of dir STATE_FILE)"
    using storage_open_ok [OF io, of dir True] by auto
  let ?n = "(new_node c l w1)\<lparr>data_dir := Some dir, storage := Some st\<rparr>"
  obtain s r m where rec: "raft_recover ?n st = (s, r, m)" by (metis prod_cases3)
  have p: "persisted dir w1 t v" using per Some fs by (simp add: persisted_def)
  then have "wld m = w1" using raft_recover_world [OF _ _ rec, of t v] st v by (simp add: new_node_def)
  moreover have "n = m" using eq io cfg l st(1) rec Some by (simp add: raft_create_def Let_def)
  ultimately show ?thesis using n p st by (auto simp: durable_def)
qed

end
