(* ===== verification/Raft_Cluster.thy ===== *)
theory Raft_Cluster
  imports Raft_Durable
begin

text \<open>
  A cluster of nodes: the nodes run the code of the other theories, the network keeps every
  message ever sent and may deliver it any number of times or never, and a node with a data directory may be
  restarted from its files at any time: that the files hold what the node needs is proved, not
  assumed (\<open>Raft_Durable\<close>). Allocations and system calls succeed. Two history variables record the ballots cast and the elections won.

  The network and the scheduler are the environment of the library; the repository leaves them to
  the user of \<^verbatim>\<open>send_fn\<close>. A step is one call of an entry point, run to completion.
\<close>

section \<open>Quorums\<close>

text \<open>The interface election safety rests on: every voter has one ballot per term, and a winner
  has the ballots of a majority.\<close>

locale majority_voting =
  fixes reached :: "'s \<Rightarrow> bool"
    and size :: "'s \<Rightarrow> int"
    and ballot :: "'s \<Rightarrow> 't \<Rightarrow> int \<Rightarrow> int \<Rightarrow> bool"
    and won :: "'s \<Rightarrow> 't \<Rightarrow> int \<Rightarrow> bool"
  assumes size_nonneg: "reached s \<Longrightarrow> 0 \<le> size s"
    and one_vote: "reached s \<Longrightarrow> ballot s t v c \<Longrightarrow> ballot s t v d \<Longrightarrow> c = d"
    and majority: "reached s \<Longrightarrow> won s t c \<Longrightarrow>
      \<exists>Q. Q \<subseteq> {0..<size s} \<and> size s < 2 * int (card Q) \<and> (\<forall>v\<in>Q. ballot s t v c)"
begin

lemma majorities_meet:
  assumes "P \<subseteq> {0..<n}" and "Q \<subseteq> {0..<n :: int}" and "n < 2 * int (card P)" and "n < 2 * int (card Q)"
    and "0 \<le> n"
  shows "\<exists>v. v \<in> P \<and> v \<in> Q"
proof (rule ccontr)
  assume "\<not> ?thesis"
  then have disj: "P \<inter> Q = {}" by blast
  have fin: "finite P" "finite Q" using assms(1,2) finite_subset [of _ "{0..<n}"] by auto
  have "card P + card Q = card (P \<union> Q)" using fin disj by (simp add: card_Un_disjoint)
  also have "\<dots> \<le> card {0..<n}" using assms(1,2) by (intro card_mono) auto
  finally have "card P + card Q \<le> nat n" by simp
  then show False using assms(3-5) by linarith
qed

lemma unique_winner:
  assumes "reached s" and "won s t c" and "won s t d"
  shows "c = d"
proof -
  obtain P where P: "P \<subseteq> {0..<size s}" "size s < 2 * int (card P)" "\<forall>v\<in>P. ballot s t v c"
    using majority [OF assms(1,2)] by blast
  obtain Q where Q: "Q \<subseteq> {0..<size s}" "size s < 2 * int (card Q)" "\<forall>v\<in>Q. ballot s t v d"
    using majority [OF assms(1,3)] by blast
  obtain v where "v \<in> P" "v \<in> Q" using majorities_meet [OF P(1) Q(1) P(2) Q(2) size_nonneg [OF assms(1)]] by blast
  then show ?thesis using one_vote [OF assms(1), of t v c d] P(3) Q(3) by blast
qed

end

section \<open>Steps of a cluster\<close>

text \<open>The calls of the public functions on one node.\<close>

datatype raft_event =
    Ev_start
  | Ev_stop
  | Ev_tick u64
  | Ev_receive int raft_msg
  | Ev_propose "bytes option"
  | Ev_propose_batch "bytes option list"
  | Ev_start_pre_vote
  | Ev_transfer int transfer_globals

fun run_event :: "raft_event \<Rightarrow> raft_node \<Rightarrow> raft_node option" where
  "run_event Ev_start n = Some (snd (raft_start n))"
| "run_event Ev_stop n = Some (snd (raft_stop n))"
| "run_event (Ev_tick e) n = map_option snd (raft_tick n e)"
| "run_event (Ev_receive src m) n = map_option snd (raft_receive_message n src m (sent_len m))"
| "run_event (Ev_propose cmd) n = map_option (\<lambda>(st, i, n). n) (raft_propose n cmd)"
| "run_event (Ev_propose_batch cmds) n = map_option (\<lambda>(st, i, n). n) (raft_propose_batch n cmds)"
| "run_event Ev_start_pre_vote n = map_option snd (raft_start_pre_vote n)"
| "run_event (Ev_transfer t g) n = map_option (\<lambda>(st, g, n). n) (raft_transfer_leadership n t g)"

record cluster =
  cl_nodes :: "int \<Rightarrow> raft_node"
  cl_net :: "(int \<times> int \<times> raft_msg) set"     \<comment> \<open>sender, receiver, message\<close>
  cl_ballots :: ballots                         \<comment> \<open>history\<close>
  cl_leaders :: "(u64 \<times> int) set"              \<comment> \<open>history\<close>

text \<open>Node \<open>i\<close> is now \<open>n\<close>: its outgoing messages enter the network.\<close>

definition absorb :: "int \<Rightarrow> raft_node \<Rightarrow> cluster \<Rightarrow> cluster" where
  "absorb i n c =
     \<lparr>cl_nodes = (cl_nodes c)(i := n\<lparr>outbox := []\<rparr>),
      cl_net = cl_net c \<union> (\<lambda>(p, m). (i, p, m)) ` set (outbox n),
      cl_ballots = cl_ballots c \<union> cast n,
      cl_leaders = cl_leaders c \<union> (if role n = RAFT_LEADER then {(current_term n, i)} else {})\<rparr>"

text \<open>A node created on an empty data directory, or without one.\<close>

definition fresh_node :: "int \<Rightarrow> int \<Rightarrow> raft_node \<Rightarrow> bool" where
  "fresh_node N i n \<longleftrightarrow>
     (\<exists>cfg w w'. raft_create cfg w = (Some n, w') \<and> cf_node_id cfg = i \<and> cf_num_nodes cfg = N \<and>
        io_ok w \<and> alloc_ok w \<and>
        (\<forall>dir. cf_data_dir cfg = Some dir \<longrightarrow> w_fs w (path_of dir STATE_FILE) = None))"

definition cluster_init :: "int \<Rightarrow> cluster \<Rightarrow> bool" where
  "cluster_init N c \<longleftrightarrow>
     cl_net c = {} \<and> cl_ballots c = {} \<and> cl_leaders c = {} \<and>
     (\<forall>i. 0 \<le> i \<and> i < N \<longrightarrow> fresh_node N i (cl_nodes c i))"

text \<open>
  Three kinds of steps: a node runs an event; a message of the network is delivered; a node that has a storage stops
  and is created again on its data directory, with the files as they are. Allocations and system calls
  succeed (the environments of the nodes have exhausted oracles); the library ignores a failed save of
  the term and vote, so nothing holds for a restart after one. Terms are 64-bit: a node whose term is the last
  one takes no further step.
\<close>

inductive cluster_step :: "int \<Rightarrow> cluster \<Rightarrow> cluster \<Rightarrow> bool" for N where
  step_local: "\<lbrakk>0 \<le> i; i < N; current_term (cl_nodes c i) \<noteq> - 1; \<forall>src m. ev \<noteq> Ev_receive src m;
    run_event ev (cl_nodes c i) = Some n'\<rbrakk> \<Longrightarrow> cluster_step N c (absorb i n' c)"
| step_deliver: "\<lbrakk>0 \<le> i; i < N; current_term (cl_nodes c i) \<noteq> - 1; (src, i, m) \<in> cl_net c;
    run_event (Ev_receive src m) (cl_nodes c i) = Some n'\<rbrakk> \<Longrightarrow> cluster_step N c (absorb i n' c)"
| step_restart: "\<lbrakk>0 \<le> i; i < N; storage (cl_nodes c i) = Some st; io_ok w; alloc_ok w; w_fs w = w_fs (wld (cl_nodes c i));
    cf_node_id cfg = i; cf_num_nodes cfg = N; cf_data_dir cfg = Some (st_data_dir st);
    raft_create cfg w = (Some n', w')\<rbrakk> \<Longrightarrow> cluster_step N c (absorb i n' c)"

inductive cluster_reachable :: "int \<Rightarrow> cluster \<Rightarrow> bool" for N where
  reach_init: "cluster_init N c \<Longrightarrow> cluster_reachable N c"
| reach_step: "cluster_reachable N c \<Longrightarrow> cluster_step N c c' \<Longrightarrow> cluster_reachable N c'"

section \<open>The invariant\<close>

lemma raft_start_votes:
  assumes inv: "node_inv B n" and eq: "raft_start n = (st, n')"
  shows "node_inv B n'"
proof -
  have v: "vote_inv B n" and o: "outbox_ok B n" using inv by (simp_all add: node_inv_def)
  define m where "m = n\<lparr>running := True\<rparr>"
  have m: "vote_neutral n m" by (simp add: m_def vote_neutral_def)
  have im: "node_inv B m" by (rule vote_neutral_votes [OF inv m])
  show ?thesis
  proof (cases "running n \<or> num_nodes n \<noteq> 1")
    case True
    then have "n' = n \<or> n' = m" using eq by (auto simp: raft_start_def m_def Let_def split: if_splits)
    then show ?thesis using inv im by blast
  next
    case False
    then have bl: "raft_become_leader m = (st, n')" using eq by (simp add: raft_start_def m_def Let_def)
    obtain ni mi c w where "n' = m\<lparr>role := RAFT_LEADER, current_leader := node_id m,
          next_index := ni, match_index := mi, commit_index := c, wld := w\<rparr>"
      using raft_become_leader_shape [OF bl] by blast
    moreover have "elected_by B (num_nodes m) (current_term m) (node_id m)"
      using False by (simp add: elected_by_def m_def)
    ultimately show ?thesis
      using im vote_inv_leader [of B m n'] by (simp add: node_inv_def outbox_ok_def)
  qed
qed

lemma batch_rollback_neutral: "batch_rollback f n = Some n' \<Longrightarrow> vote_neutral n n'"
  by (auto simp: batch_rollback_def vote_neutral_def)

lemma batch_loop_neutral: "batch_loop t i f cmds n = Some (st, g, n') \<Longrightarrow> vote_neutral n n'"
proof (induction cmds arbitrary: i f n)
  case Nil
  then show ?case by simp
next
  case (Cons c cmds)
  have upd: "vote_neutral n (n\<lparr>log := l, wld := w\<rparr>)"
    "vote_neutral n (n\<lparr>log := l, storage := s, wld := w\<rparr>)" for l w s
    by (simp_all add: vote_neutral_def)
  obtain s idx l w where app: "raft_log_append (log n) t c (wld n) = (s, idx, l, w)" by (metis prod_cases4)
  show ?case
  proof (cases "s = RAFT_OK")
    case False
    then show ?thesis
      using Cons.prems app upd vote_neutral_trans [OF upd(1) batch_rollback_neutral]
      by (auto simp: Let_def split: if_splits)
  next
    case True
    then obtain ix where ix: "idx = Some ix" using Cons.prems app by (auto simp: bind_eq_Some_conv Let_def)
    show ?thesis
      using Cons.prems app ix True vote_neutral_trans [OF upd(1) Cons.IH]
        vote_neutral_trans [OF upd(2) Cons.IH] vote_neutral_trans [OF upd(2) batch_rollback_neutral]
      by (auto simp: Let_def split: option.splits prod.splits if_splits)
  qed
qed

lemma raft_propose_batch_neutral:
  assumes eq: "raft_propose_batch n cmds = Some (st, idx, n')"
  shows "vote_neutral n n'"
proof -
  have upd: "vote_neutral m (m\<lparr>match_index := a\<rparr>)" for m a by (simp add: vote_neutral_def)
  have "n' = n \<or> (\<exists>s f m. batch_loop (current_term n) 0 0 cmds n = Some (s, f, m) \<and>
      (n' = m \<or> (\<exists>a. n' = m\<lparr>match_index := a\<rparr>)))"
    using eq by (auto simp: raft_propose_batch_def bind_eq_Some_conv split: if_splits option.splits)
  then show ?thesis
    using batch_loop_neutral vote_neutral_trans [OF batch_loop_neutral upd] by (elim disjE exE conjE) auto
qed

text \<open>Every event keeps the voting invariant of the node that runs it.\<close>

lemma run_event_votes:
  assumes inv: "node_inv B n" and wrap: "current_term n \<noteq> - 1" and eq: "run_event ev n = Some n'"
    and ok: "\<And>src m. ev = Ev_receive src m \<Longrightarrow> msg_ok B src (node_id n) m"
  shows "node_inv (B \<union> cast n') n'"
proof (cases ev)
  case Ev_start
  then show ?thesis
    using eq raft_start_votes [OF inv, of "fst (raft_start n)" n'] by (auto intro: node_inv_cast simp: prod_eq_iff)
next
  case Ev_stop
  have "vote_neutral n (n\<lparr>running := False\<rparr>)" by (simp add: vote_neutral_def)
  then show ?thesis
    using eq Ev_stop vote_neutral_votes [OF inv] by (auto intro: node_inv_cast simp: raft_stop_def)
next
  case (Ev_tick e)
  then show ?thesis using eq raft_tick_votes [OF inv _ wrap] by auto
next
  case (Ev_receive src m)
  then show ?thesis using eq ok raft_receive_message_votes [OF inv _ _ wrap] by auto
next
  case (Ev_propose cmd)
  then show ?thesis using eq raft_propose_neutral vote_neutral_votes [OF inv]
    by (auto intro!: node_inv_cast)
next
  case (Ev_propose_batch cmds)
  then show ?thesis using eq raft_propose_batch_neutral vote_neutral_votes [OF inv]
    by (auto intro!: node_inv_cast)
next
  case Ev_start_pre_vote
  then show ?thesis using eq raft_start_pre_vote_votes [OF inv _ wrap] by auto
next
  case (Ev_transfer t g)
  then show ?thesis using eq raft_transfer_leadership_neutral vote_neutral_votes [OF inv]
    by (auto intro!: node_inv_cast)
qed

section \<open>The cluster invariant\<close>

definition node_at :: "int \<Rightarrow> int \<Rightarrow> ballots \<Rightarrow> raft_node \<Rightarrow> bool" where
  "node_at N i B n \<longleftrightarrow> vote_inv B n \<and> durable n \<and> node_id n = i \<and> num_nodes n = N \<and> outbox n = []"

definition cluster_inv :: "int \<Rightarrow> cluster \<Rightarrow> bool" where
  "cluster_inv N c \<longleftrightarrow>
     (\<forall>i. 0 \<le> i \<and> i < N \<longrightarrow> node_at N i (cl_ballots c) (cl_nodes c i)) \<and>
     (\<forall>s d m. (s, d, m) \<in> cl_net c \<longrightarrow> msg_ok (cl_ballots c) s d m) \<and>
     (\<forall>t v a b. (t, v, a) \<in> cl_ballots c \<longrightarrow> (t, v, b) \<in> cl_ballots c \<longrightarrow> a = b) \<and>
     (\<forall>t i. (t, i) \<in> cl_leaders c \<longrightarrow> 0 \<le> i \<and> i < N \<and> elected_by (cl_ballots c) N t i)"

lemma vote_inv_other:
  assumes "vote_inv B n" and "node_id m \<noteq> node_id n"
  shows "vote_inv (B \<union> cast m) n"
  using assms candidate_inv_mono [of B n "B \<union> cast m"] elected_by_mono [of B _ _ _ "B \<union> cast m"]
  unfolding vote_inv_def by (auto simp: cast_def)

lemma absorb_inv:
  assumes inv: "cluster_inv N c" and i: "0 \<le> i" "i < N"
    and n: "node_inv (cl_ballots c \<union> cast n) n" "node_id n = i" "num_nodes n = N" and dur: "durable n"
  shows "cluster_inv N (absorb i n c)"
proof -
  let ?B = "cl_ballots c \<union> cast n"
  have v: "vote_inv ?B n" and o: "outbox_ok ?B n" using n(1) by (simp_all add: node_inv_def)
  have "node_at N j ?B (cl_nodes (absorb i n c) j)" if j: "0 \<le> j" "j < N" for j
  proof (cases "j = i")
    case True
    have "vote_inv ?B (n\<lparr>outbox := []\<rparr>)" by (rule vote_inv_frame [OF v]) simp_all
    then show ?thesis using True n dur by (simp add: absorb_def node_at_def)
  next
    case False
    then show ?thesis
      using inv j n(2) vote_inv_other [of "cl_ballots c" "cl_nodes c j" n]
      by (simp add: absorb_def node_at_def cluster_inv_def)
  qed
  moreover have "msg_ok ?B s d m" if "(s, d, m) \<in> cl_net (absorb i n c)" for s d m
    using that inv o n(2) msg_ok_mono [of "cl_ballots c" s d m ?B]
    by (fastforce simp: absorb_def cluster_inv_def outbox_ok_def)
  moreover have "a = b" if "(t, u, a) \<in> ?B" "(t, u, b) \<in> ?B" for t u a b
  proof (cases "u = i \<and> t = current_term n")
    case True
    then show ?thesis using v that n(2) unfolding vote_inv_def by metis
  next
    case False
    then have "(t, u, a) \<in> cl_ballots c" "(t, u, b) \<in> cl_ballots c"
      using that n(2) by (auto simp: cast_def split: if_splits)
    then show ?thesis using inv by (auto simp: cluster_inv_def)
  qed
  moreover have "0 \<le> j \<and> j < N \<and> elected_by ?B N t j" if "(t, j) \<in> cl_leaders (absorb i n c)" for t j
  proof (cases "(t, j) \<in> cl_leaders c")
    case True
    then have "0 \<le> j \<and> j < N \<and> elected_by (cl_ballots c) N t j" using inv by (simp add: cluster_inv_def)
    then show ?thesis using elected_by_mono [of "cl_ballots c" N t j ?B] by simp
  next
    case False
    then have j: "j = i" "t = current_term n" "role n = RAFT_LEADER"
      using that by (auto simp: absorb_def split: if_splits)
    have "role n = RAFT_LEADER \<longrightarrow> elected_by ?B (num_nodes n) (current_term n) (node_id n)"
      using v unfolding vote_inv_def by blast
    then show ?thesis using j i n(2,3) by simp
  qed
  ultimately show ?thesis by (simp add: cluster_inv_def absorb_def)
qed

text \<open>No event changes who the node is or how large its cluster is.\<close>

definition same_id :: "raft_node \<Rightarrow> raft_node \<Rightarrow> bool" where
  "same_id n n' \<longleftrightarrow> node_id n' = node_id n \<and> num_nodes n' = num_nodes n"

lemma same_id_refl [simp]: "same_id n n"
  by (simp add: same_id_def)

lemma same_id_neutral: "vote_neutral n n' \<Longrightarrow> same_id n n'"
  by (simp add: same_id_def vote_neutral_def)

lemma raft_step_down_id: "raft_step_down n t = Some n' \<Longrightarrow> same_id n n'"
  by (auto simp: raft_step_down_def bind_eq_Some_conv same_id_def)

lemma catch_up_id: "catch_up n t = Some n' \<Longrightarrow> same_id n n'"
  by (auto simp: catch_up_def raft_step_down_id split: if_splits)

lemma raft_become_leader_id: "raft_become_leader n = (st, n') \<Longrightarrow> same_id n n'"
  by (drule raft_become_leader_shape) (auto simp: same_id_def)

lemma raft_start_election_id: "raft_start_election n = Some (st, n') \<Longrightarrow> same_id n n'"
  by (auto simp: raft_start_election_def bind_eq_Some_conv Let_def same_id_def split: if_splits
      dest!: raft_become_leader_id)

lemma raft_start_pre_vote_id: "raft_start_pre_vote n = Some (st, n') \<Longrightarrow> same_id n n'"
proof -
  assume eq: "raft_start_pre_vote n = Some (st, n')"
  have "n' = n \<or> (\<exists>f. let m = raft_reset_election_timer (n\<lparr>role := RAFT_PRE_CANDIDATE, current_leader := -1,
      votes_received := 1, votes_granted := f\<rparr>)
      in raft_start_election m = Some (st, n') \<or> (\<exists>r. n' = send_to_peers r m))"
    using eq unfolding raft_start_pre_vote_def by (auto simp: bind_eq_Some_conv Let_def split: if_splits)
  then show ?thesis
    by (auto simp: Let_def same_id_def dest!: raft_start_election_id)
qed

lemma raft_handle_pre_vote_response_id:
  assumes "raft_handle_pre_vote_response n from r = Some (st, n')"
  shows "same_id n n'"
proof -
  define m where "m = n\<lparr>votes_granted := (votes_granted n)[nat from := True], votes_received := votes_received n + 1\<rparr>"
  have "n' = n \<or> raft_step_down n (pvr_term r) = Some n' \<or> n' = m \<or> raft_start_election m = Some (st, n')"
    using assms by (simp add: raft_handle_pre_vote_response_def arr_get_def arr_set_def Let_def
        m_def [symmetric] split: if_splits)
  moreover have "same_id n m" by (simp add: m_def same_id_def)
  ultimately show ?thesis
    by (elim disjE) (auto simp: same_id_def dest: raft_step_down_id raft_start_election_id)
qed

lemma raft_handle_request_vote_response_id:
  assumes "raft_handle_request_vote_response n from r = Some (st, n')"
  shows "same_id n n'"
  using assms refl
  by (cases rule: raft_handle_request_vote_response_cases)
    (auto simp: same_id_def dest!: raft_step_down_id raft_become_leader_id)

lemma raft_handle_append_entries_with_log_id:
  assumes "raft_handle_append_entries_with_log n r p = Some (st, resp, n')"
  shows "same_id n n'"
proof -
  obtain m where m: "catch_up n (ae_term r) = Some m"
    using assms by (auto simp: raft_handle_append_entries_with_log_def catch_up_def bind_eq_Some_conv)
  have "same_id m n'"
  proof (cases "ae_term r < current_term m")
    case True
    then show ?thesis
      using assms m unfolding raft_handle_append_entries_with_log_def catch_up_def [symmetric] by simp
  next
    case False
    then show ?thesis
      using assms unfolding with_log_unfold [OF m False]
      by (auto simp: Let_def bind_eq_Some_conv same_id_def split: if_splits)
  qed
  then show ?thesis using catch_up_id [OF m] by (simp add: same_id_def)
qed

lemma raft_handle_append_entries_id:
  assumes "raft_handle_append_entries n r = Some (st, resp, n')"
  shows "same_id n n'"
proof -
  obtain m where m: "catch_up n (ae_term r) = Some m"
    using assms by (auto simp: raft_handle_append_entries_def catch_up_def bind_eq_Some_conv)
  have "same_id m n'"
    using assms m by (auto simp: raft_handle_append_entries_def catch_up_def [symmetric] same_id_def Let_def
        split: if_splits)
  then show ?thesis using catch_up_id [OF m] by (simp add: same_id_def)
qed

lemma raft_handle_request_vote_id:
  assumes "raft_handle_request_vote n r = Some (st, resp, n')"
  shows "same_id n n'"
proof -
  obtain m where m: "catch_up n (rv_term r) = Some m"
    using assms by (auto simp: raft_handle_request_vote_def catch_up_def bind_eq_Some_conv)
  have "same_id m n'"
    using assms m by (auto simp: raft_handle_request_vote_def catch_up_def [symmetric] same_id_def Let_def
        split: if_splits)
  then show ?thesis using catch_up_id [OF m] by (simp add: same_id_def)
qed

lemma raft_handle_append_entries_response_id:
  assumes "raft_handle_append_entries_response n from r = Some (st, n')"
  shows "same_id n n'"
proof -
  have "raft_step_down n (aer_term r) = Some n' \<or> n' = n \<or> (\<exists>b. n' = n\<lparr>next_index := b\<rparr>) \<or>
      (\<exists>s. raft_advance_commit_index n = Some (s, n')) \<or>
      (\<exists>a b s. raft_advance_commit_index (n\<lparr>match_index := a, next_index := b\<rparr>) = Some (s, n'))"
    using assms unfolding raft_handle_append_entries_response_def
    by (auto simp: bind_eq_Some_conv Let_def split: if_splits)
  then show ?thesis
    by (elim disjE exE)
      (auto simp: same_id_def dest: raft_step_down_id same_id_neutral [OF raft_advance_commit_index_neutral])
qed

lemma reply_id: "reply p st m n = (st', n') \<Longrightarrow> same_id n n'"
  by (auto simp: reply_def send_fn_def same_id_def split: if_splits)


lemma raft_receive_message_id:
  assumes "raft_receive_message n from m len = Some (st, n')"
  shows "same_id n n'"
proof (cases "len < SIZEOF_MSG_TYPE")
  case True
  then show ?thesis using assms by (simp add: raft_receive_message_def)
next
  case False
  then have d: "dispatch_message n from m len = Some (st, n')"
    using assms by (simp add: raft_receive_message_def)
  have tr: "same_id n k \<Longrightarrow> same_id k n' \<Longrightarrow> same_id n n'" for k by (simp add: same_id_def)
  show ?thesis
  proof (cases m)
    case (RequestVote r)
    then show ?thesis using d
      by (auto simp: bind_eq_Some_conv split: if_splits intro: tr dest!: reply_id raft_handle_request_vote_id)
  next
    case (RequestVoteResponse r)
    then show ?thesis using d by (auto split: if_splits dest!: raft_handle_request_vote_response_id)
  next
    case (AppendEntries r p)
    then show ?thesis using d
      by (auto simp: bind_eq_Some_conv split: if_splits intro: tr
          dest!: reply_id raft_handle_append_entries_id raft_handle_append_entries_with_log_id)
  next
    case (AppendEntriesResponse r)
    then show ?thesis using d by (auto split: if_splits dest!: raft_handle_append_entries_response_id)
  next
    case (PreVote r)
    then show ?thesis using d by (auto split: if_splits prod.splits dest!: reply_id)
  next
    case (PreVoteResponse r)
    then show ?thesis using d by (auto split: if_splits dest!: raft_handle_pre_vote_response_id)
  next
    case (TimeoutNow r)
    then show ?thesis using d
      by (auto simp: raft_handle_timeout_now_def split: if_splits dest!: raft_start_election_id)
  qed (use d in simp_all)
qed

lemma raft_tick_id:
  assumes "raft_tick n e = Some (st, n')"
  shows "same_id n n'"
proof -
  obtain s m where m: "raft_tick_election n e = Some (s, m)" and r: "m = n' \<or> raft_tick_heartbeat m e = Some (st, n')"
    using assms by (auto simp: raft_tick_def bind_eq_Some_conv split: if_splits)
  let ?t = "n\<lparr>election_timer_ms := election_timer_ms n + e\<rparr>"
  have "m = n \<or> m = ?t \<or> raft_start_election ?t = Some (s, m)"
    using m by (auto simp: raft_tick_election_def Let_def split: if_splits)
  then have "same_id n m" by (elim disjE) (auto simp: same_id_def dest: raft_start_election_id)
  moreover have "same_id m n'" using r same_id_neutral [OF raft_tick_heartbeat_neutral] by auto
  ultimately show ?thesis by (simp add: same_id_def)
qed


lemma run_event_id:
  assumes "run_event ev n = Some n'"
  shows "same_id n n'"
proof (cases ev)
  case Ev_start
  then show ?thesis
    using assms raft_become_leader_id [of "n\<lparr>running := True\<rparr>"]
    by (cases "raft_become_leader (n\<lparr>running := True\<rparr>)") (auto simp: raft_start_def same_id_def Let_def)
next
  case Ev_stop
  then show ?thesis using assms by (auto simp: raft_stop_def same_id_def)
qed (use assms raft_tick_id raft_receive_message_id raft_propose_neutral raft_propose_batch_neutral
      raft_start_pre_vote_id raft_transfer_leadership_neutral same_id_neutral in \<open>auto\<close>)

lemma run_event_durable:
  assumes d: "durable n" and eq: "run_event ev n = Some n'"
  shows "durable n'"
proof (cases ev)
  case Ev_start
  then show ?thesis using eq durable_start [OF d] by simp
next
  case Ev_stop
  then show ?thesis using eq d by (auto simp: raft_stop_def)
qed (use eq durable_tick [OF d] durable_receive_message [OF d] durable_propose [OF d] durable_propose_batch [OF d]
      durable_start_pre_vote [OF d] durable_transfer [OF d] in auto)

section \<open>Reachable clusters\<close>

lemma fresh_node_shape:
  assumes "fresh_node N i n" and "0 \<le> i" "i < N" "N < 2 ^ 31"
  shows "node_at N i {} n \<and> role n = RAFT_FOLLOWER"
proof -
  obtain cfg w w' where c: "raft_create cfg w = (Some n, w')" "cf_node_id cfg = i" "cf_num_nodes cfg = N"
    "io_ok w" "alloc_ok w" "\<forall>dir. cf_data_dir cfg = Some dir \<longrightarrow> w_fs w (path_of dir STATE_FILE) = None"
    using assms(1) by (auto simp: fresh_node_def)
  have "node_id n = i \<and> num_nodes n = N \<and> voted_for n = -1 \<and> role n = RAFT_FOLLOWER \<and> outbox n = [] \<and>
      votes_granted n = replicate (nat N) False"
  proof (cases "cf_data_dir cfg")
    case None
    then show ?thesis
      using c assms by (auto simp: raft_create_def new_node_def raft_log_create_def)
  next
    case (Some dir)
    then have "persisted dir w 0 (-1)" using c(6) by (simp add: persisted_def)
    then show ?thesis
      using raft_create_recovers [OF c(4,5), of cfg dir 0 "-1"] c Some assms by auto
  qed
  moreover have "durable n"
    by (rule raft_create_durable [OF c(4,5) _ _ _ _ c(1), of 0 "-1"])
      (use c(2,3,6) assms in \<open>auto simp: persisted_def i32_range_def\<close>)
  ultimately show ?thesis using assms(2-4) by (simp add: node_at_def vote_inv_def)
qed

lemma restart_inv:
  assumes inv: "vote_inv B old" "node_id old = i" "num_nodes old = N"
    and w: "io_ok w" "alloc_ok w" "persisted dir w (current_term old) (voted_for old)"
    and cfg: "cf_node_id cfg = i" "cf_num_nodes cfg = N" "cf_data_dir cfg = Some dir"
    and eq: "raft_create cfg w = (Some n', w')"
  shows "node_inv B n' \<and> node_id n' = i \<and> num_nodes n' = N \<and> durable n'"
proof -
  have r: "0 \<le> i" "i < N" "i32_range (voted_for old)" "length (votes_granted old) = nat N"
    using inv by (simp_all add: vote_inv_def)
  have n: "node_id n' = i" "num_nodes n' = N" "current_term n' = current_term old" "voted_for n' = voted_for old"
    "role n' = RAFT_FOLLOWER" "outbox n' = []" "votes_granted n' = replicate (nat N) False"
    using raft_create_recovers [OF w(1,2) _ _ cfg(3) w(3) r(3)] cfg eq r by auto
  have "vote_inv B n'" by (rule vote_inv_follower [OF inv(1)]) (use n inv r in simp_all)
  moreover have "durable n'"
    by (rule raft_create_durable [OF w(1,2) _ _ _ _ eq]) (use cfg w(3) r in auto)
  ultimately show ?thesis using n by (simp add: node_inv_def outbox_ok_def)
qed

lemma cluster_step_inv:
  assumes "cluster_step N c c'" and inv: "cluster_inv N c"
  shows "cluster_inv N c'"
  using assms(1)
proof cases
  case (step_local i ev n')
  have at: "node_at N i (cl_ballots c) (cl_nodes c i)" using inv step_local by (simp add: cluster_inv_def)
  then have ni: "node_inv (cl_ballots c) (cl_nodes c i)" by (simp add: node_at_def node_inv_def outbox_ok_def)
  have "node_inv (cl_ballots c \<union> cast n') n'"
    by (rule run_event_votes [OF ni step_local(4) step_local(6)]) (use step_local(5) in blast)
  then show ?thesis
    unfolding step_local(1) using run_event_id [OF step_local(6)] run_event_durable [OF _ step_local(6)] at step_local
    by (intro absorb_inv [OF inv]) (simp_all add: same_id_def node_at_def)
next
  case (step_deliver i src m n')
  have at: "node_at N i (cl_ballots c) (cl_nodes c i)" using inv step_deliver by (simp add: cluster_inv_def)
  then have ni: "node_inv (cl_ballots c) (cl_nodes c i)" by (simp add: node_at_def node_inv_def outbox_ok_def)
  have ok: "msg_ok (cl_ballots c) src i m" using inv step_deliver by (simp add: cluster_inv_def)
  have "node_inv (cl_ballots c \<union> cast n') n'"
    by (rule run_event_votes [OF ni step_deliver(4) step_deliver(6)]) (use ok at in \<open>auto simp: node_at_def\<close>)
  then show ?thesis
    unfolding step_deliver(1) using run_event_id [OF step_deliver(6)] run_event_durable [OF _ step_deliver(6)] at step_deliver
    by (intro absorb_inv [OF inv]) (simp_all add: same_id_def node_at_def)
next
  case (step_restart i st w cfg n' w')
  have at: "vote_inv (cl_ballots c) (cl_nodes c i)" "node_id (cl_nodes c i) = i" "num_nodes (cl_nodes c i) = N"
    and dur: "durable (cl_nodes c i)"
    using inv step_restart by (auto simp: cluster_inv_def node_at_def)
  have "persisted (st_data_dir st) w (current_term (cl_nodes c i)) (voted_for (cl_nodes c i))"
    using dur step_restart by (simp add: durable_def persisted_def)
  then have "node_inv (cl_ballots c) n' \<and> node_id n' = i \<and> num_nodes n' = N \<and> durable n'"
    by (intro restart_inv [OF at]) (use step_restart in auto)
  then show ?thesis
    unfolding step_restart(1) using step_restart node_inv_cast by (intro absorb_inv [OF inv]) auto
qed

lemma cluster_reachable_inv:
  "cluster_reachable N c \<Longrightarrow> N < 2 ^ 31 \<Longrightarrow> cluster_inv N c"
proof (induction rule: cluster_reachable.induct)
  case (reach_init c)
  then show ?case by (auto simp: cluster_inv_def cluster_init_def fresh_node_shape)
next
  case (reach_step c c')
  then show ?case using cluster_step_inv by blast
qed

interpretation el: majority_voting
  "\<lambda>(N, c). 2 \<le> N \<and> N < 2 ^ 31 \<and> cluster_reachable N c" fst
  "\<lambda>(N, c) t v a. (t, v, a) \<in> cl_ballots c" "\<lambda>(N, c) t i. (t, i) \<in> cl_leaders c"
proof (unfold_locales, goal_cases)
  case (1 s)
  then show ?case by auto
next
  case (2 s t v a b)
  then show ?case
    using cluster_reachable_inv [of "fst s" "snd s"] unfolding cluster_inv_def by (auto split: prod.splits)
next
  case (3 s t i)
  then have "elected_by (cl_ballots (snd s)) (fst s) t i" "fst s \<noteq> 1"
    using cluster_reachable_inv [of "fst s" "snd s"] unfolding cluster_inv_def by (auto split: prod.splits)
  then show ?case by (cases s) (simp add: elected_by_def)
qed

lemma leaders_unique:
  assumes "cluster_reachable N c" and "1 \<le> N" "N < 2 ^ 31" and "(t, i) \<in> cl_leaders c" and "(t, j) \<in> cl_leaders c"
  shows "i = j"
proof (cases "N = 1")
  case True
  have "0 \<le> i" "i < N" "0 \<le> j" "j < N"
    using cluster_reachable_inv [OF assms(1,3)] assms(4,5) unfolding cluster_inv_def by blast+
  then show ?thesis using True by simp
next
  case False
  then show ?thesis using el.unique_winner [of "(N, c)" t i j] assms by simp
qed

lemma leader_recorded:
  assumes "cluster_reachable N c" and "0 \<le> i" "i < N" and "role (cl_nodes c i) = RAFT_LEADER"
    and "N < 2 ^ 31"
  shows "(current_term (cl_nodes c i), i) \<in> cl_leaders c"
  using assms
proof (induction rule: cluster_reachable.induct)
  case (reach_init c)
  then have "fresh_node N i (cl_nodes c i)" by (simp add: cluster_init_def)
  then have "role (cl_nodes c i) = RAFT_FOLLOWER" using fresh_node_shape reach_init by simp
  then show ?case using reach_init by simp
next
  case (reach_step c c')
  obtain j n where c': "c' = absorb j n c" using reach_step.hyps(2) by (cases rule: cluster_step.cases) auto
  show ?case
    using reach_step c' by (cases "j = i") (auto simp: absorb_def)
qed

section \<open>A run that elects a leader\<close>

definition sample_cluster :: cluster where
  "sample_cluster = \<lparr>cl_nodes = (\<lambda>i. new_node \<lparr>cf_node_id = i, cf_num_nodes = 3, cf_has_apply_fn = True,
        cf_has_send_fn = True, cf_data_dir = None\<rparr> (the (fst (raft_log_create quiet_world))) quiet_world),
     cl_net = {}, cl_ballots = {}, cl_leaders = {}\<rparr>"

lemma sample_cluster_init: "cluster_init 3 sample_cluster"
proof -
  have "fresh_node 3 i (cl_nodes sample_cluster i)" if "0 \<le> i" for i
    unfolding fresh_node_def
    by (rule exI [of _ "\<lparr>cf_node_id = i, cf_num_nodes = 3, cf_has_apply_fn = True,
        cf_has_send_fn = True, cf_data_dir = None\<rparr>"], intro exI [of _ quiet_world])
      (use that in \<open>simp add: sample_cluster_def raft_create_def raft_log_create_def\<close>)
  then show ?thesis by (simp add: cluster_init_def sample_cluster_def)
qed

text \<open>Node 0 starts, times out, asks for votes, gets the one of node 1 and leads.\<close>

definition sample_request :: raft_msg where
  "sample_request = RequestVote \<lparr>rv_term = 1, rv_candidate_id = 0, rv_last_log_index = 0, rv_last_log_term = 0\<rparr>"

definition sample_vote :: raft_msg where
  "sample_vote = RequestVoteResponse \<lparr>rvr_term = 1, rvr_vote_granted = True\<rparr>"

abbreviation sample_start :: "int \<Rightarrow> raft_node" where
  "sample_start i \<equiv> cl_nodes sample_cluster i"

lemma sample_start_fields [simp]:
  "node_id (sample_start i) = i" "num_nodes (sample_start i) = 3" "running (sample_start i) = False"
  "has_send_fn (sample_start i)" "role (sample_start i) = RAFT_FOLLOWER" "current_term (sample_start i) = 0"
  "voted_for (sample_start i) = -1" "votes_granted (sample_start i) = replicate 3 False"
  "election_timeout_ms (sample_start i) = 0" "election_timer_ms (sample_start i) = 0"
  "outbox (sample_start i) = []" "storage (sample_start i) = None" "wld (sample_start i) = quiet_world"
  "raft_log_last_index (log (sample_start i)) = 0" "raft_log_last_term (log (sample_start i)) = 0"
  "raft_log_wf (log (sample_start i))"
  by (simp_all add: sample_cluster_def new_node_def raft_log_create_def raft_log_last_index_def
      raft_log_last_term_def raft_log_wf_def log_last_def)

lemma sample_campaign:
  "\<exists>n. run_event (Ev_tick 1) ((sample_start 0)\<lparr>running := True\<rparr>) = Some n \<and> (1, sample_request) \<in> set (outbox n) \<and>
     current_term n = 1 \<and> role n = RAFT_CANDIDATE \<and> num_nodes n = 3 \<and> votes_received n = 1 \<and>
     votes_granted n = [True, False, False]"
proof -
  let ?n = "(sample_start 0)\<lparr>running := True\<rparr>" and ?m = "(sample_start 0)\<lparr>running := True, election_timer_ms := 1\<rparr>"
  have m: "node_ok ?m" by (simp add: node_ok_def)
  have "raft_tick_election ?n 1 = raft_start_election ?m" by (simp add: raft_tick_election_def Let_def)
  then obtain n where n: "run_event (Ev_tick 1) ?n = Some n" "campaigning ?m n" "num_nodes n = 3"
    "votes_received n = 1" "votes_granted n = (replicate 3 False)[0 := True]"
    using raft_start_election_campaign [OF m] by (auto simp: raft_tick_def raft_tick_heartbeat_def campaigning_def)
  have "(1, sample_request) \<in> set (outbox n)"
    using n(2) by (simp add: campaigning_def send_to_peers_def sample_request_def)
  then show ?thesis using n by (auto simp: campaigning_def numeral_eq_Suc)
qed

lemma sample_grant:
  "\<exists>n. run_event (Ev_receive 0 sample_request) (sample_start 1) = Some n \<and> (0, sample_vote) \<in> set (outbox n)"
  by (simp add: sample_request_def sample_vote_def raft_receive_message_def raft_handle_request_vote_def
      raft_step_down_def clear_flags_def is_log_up_to_date_def reply_def send_fn_def Let_def)

lemma sample_win:
  assumes "role n = RAFT_CANDIDATE" "current_term n = 1" "num_nodes n = 3" "votes_received n = 1"
    "votes_granted n = [True, False, False]"
  shows "\<exists>n'. run_event (Ev_receive 1 sample_vote) (n\<lparr>outbox := []\<rparr>) = Some n' \<and> role n' = RAFT_LEADER \<and>
     current_term n' = 1"
proof -
  let ?m = "n\<lparr>outbox := [], votes_granted := [True, True, False], votes_received := 2\<rparr>"
  obtain st n' where b: "raft_become_leader ?m = (st, n')" by fastforce
  have "role n' = RAFT_LEADER" "current_term n' = 1" using raft_become_leader_shape [OF b] assms by auto
  then show ?thesis
    using assms b by (simp add: sample_vote_def raft_receive_message_def raft_handle_request_vote_response_def
        arr_get_def arr_set_def Let_def)
qed

text \<open>A reachable cluster of three nodes with a leader.\<close>

lemma sample_leader: "\<exists>c. cluster_reachable 3 c \<and> role (cl_nodes c 0) = RAFT_LEADER \<and> current_term (cl_nodes c 0) = 1"
proof -
  let ?s = "(sample_start 0)\<lparr>running := True\<rparr>"
  obtain n where n: "run_event (Ev_tick 1) ?s = Some n" "(1, sample_request) \<in> set (outbox n)"
    "current_term n = 1" "role n = RAFT_CANDIDATE" "num_nodes n = 3" "votes_received n = 1"
    "votes_granted n = [True, False, False]"
    using sample_campaign by blast
  obtain v where v: "run_event (Ev_receive 0 sample_request) (sample_start 1) = Some v" "(0, sample_vote) \<in> set (outbox v)"
    using sample_grant by blast
  obtain l where l: "run_event (Ev_receive 1 sample_vote) (n\<lparr>outbox := []\<rparr>) = Some l" "role l = RAFT_LEADER"
    "current_term l = 1"
    using sample_win [OF n(4,3,5-7)] by blast
  define c1 where "c1 = absorb 0 ?s sample_cluster"
  define c2 where "c2 = absorb 0 n c1"
  define c3 where "c3 = absorb 1 v c2"
  define c4 where "c4 = absorb 0 l c3"
  have "cluster_step 3 sample_cluster c1"
    unfolding c1_def by (rule step_local [where ev = Ev_start]) (simp_all add: raft_start_def)
  moreover have s: "cl_nodes c1 0 = ?s" by (simp add: c1_def absorb_def)
  then have "cluster_step 3 c1 c2"
    unfolding c2_def by (intro step_local [where ev = "Ev_tick 1"]) (use n(1) in simp_all)
  moreover have m: "(0, 1, sample_request) \<in> cl_net c2" using n(2) by (force simp: c2_def absorb_def)
  have o: "cl_nodes c2 1 = sample_start 1" by (simp add: c1_def c2_def absorb_def)
  then have "cluster_step 3 c2 c3"
    unfolding c3_def by (intro step_deliver [OF _ _ _ m]) (use v(1) in simp_all)
  moreover have m: "(1, 0, sample_vote) \<in> cl_net c3" using v(2) by (force simp: c3_def absorb_def)
  have o: "cl_nodes c3 0 = n\<lparr>outbox := []\<rparr>" by (simp add: c3_def c2_def absorb_def)
  then have "cluster_step 3 c3 c4"
    unfolding c4_def by (intro step_deliver [OF _ _ _ m]) (use l(1) n(3) in simp_all)
  ultimately have "cluster_reachable 3 c4"
    by (meson cluster_reachable.intros sample_cluster_init)
  then show ?thesis using l by (intro exI [of _ c4]) (simp add: c4_def absorb_def)
qed

section \<open>Election safety\<close>

text \<open>C1: Election safety: in every reachable state of a cluster whose allocations and system calls succeed, with messages lost, duplicated, delayed and reordered, and nodes that have a data directory stopped at any time and created again on the files they left, two nodes that are leader in the same term are the same node.\<close>

theorem election_safety:
  assumes "cluster_reachable N c" and "N < 2 ^ 31" and "0 \<le> i" "i < N" "0 \<le> j" "j < N"
    and "role (cl_nodes c i) = RAFT_LEADER" "role (cl_nodes c j) = RAFT_LEADER"
    and "current_term (cl_nodes c i) = current_term (cl_nodes c j)"
  shows "i = j"
  using leader_recorded [OF assms(1,3,4,7,2)] leader_recorded [OF assms(1,5,6,8,2)] assms
    leaders_unique [OF assms(1) _ assms(2)] by auto

theorem election_safety_witness:
  "\<exists>c. cluster_reachable 3 c \<and> role (cl_nodes c 0) = RAFT_LEADER \<and> current_term (cl_nodes c 0) = 1 \<and>
     \<not> (role (cl_nodes c 2) = RAFT_LEADER \<and> current_term (cl_nodes c 2) = 1)"
proof -
  obtain c where c: "cluster_reachable 3 c" "role (cl_nodes c 0) = RAFT_LEADER" "current_term (cl_nodes c 0) = 1"
    using sample_leader by blast
  then show ?thesis using election_safety [OF c(1), of 0 2] by auto
qed



end
