(* ===== verification/Raft_Membership.thy ===== *)
theory Raft_Membership
  imports Raft_Election
begin

text \<open>
  Membership changes (\<^verbatim>\<open>consensus/src/membership.c\<close>): one node is added or removed at
  a time through a configuration entry of the log. The static \<^verbatim>\<open>g_config\<close> is a record
  that the functions take and return.
\<close>

section \<open>The code\<close>

datatype raft_config_type_t = RAFT_CONFIG_STABLE | RAFT_CONFIG_TRANSITIONING

record raft_cluster_config =
  cc_nodes :: "int list option"
  cc_node_count :: int
  cc_pending_node :: int
  cc_pending_add :: bool

definition initial_config :: raft_cluster_config where
  "initial_config = \<lparr>cc_nodes = None, cc_node_count = 0, cc_pending_node = -1, cc_pending_add = False\<rparr>"

definition CONFIG_CMD_ADD :: u8 where "CONFIG_CMD_ADD = 65"
definition CONFIG_CMD_REMOVE :: u8 where "CONFIG_CMD_REMOVE = 82"
definition CONFIG_CMD_SIZE :: nat where "CONFIG_CMD_SIZE = 5"

definition ensure_config_initialized ::
  "raft_node \<Rightarrow> raft_cluster_config \<Rightarrow> raft_cluster_config \<times> raft_node"
where
  "ensure_config_initialized node g =
     (if cc_nodes g = None \<and> num_nodes node > 0 then
        (case malloc (wld node) of (ok, w) \<Rightarrow>
           (if ok then g\<lparr>cc_nodes := Some [0..num_nodes node - 1], cc_node_count := num_nodes node\<rparr> else g,
            node\<lparr>wld := w\<rparr>))
      else (g, node))"

text \<open>\<^verbatim>\<open>for (i = 0; i < node_count; i++) if (nodes[i] == node_id)\<close>\<close>

definition is_member :: "raft_cluster_config \<Rightarrow> int \<Rightarrow> bool" where
  "is_member g nid =
     (case cc_nodes g of None \<Rightarrow> False | Some ns \<Rightarrow> nid \<in> set (take (nat (cc_node_count g)) ns))"

definition config_command :: "u8 \<Rightarrow> int \<Rightarrow> bytes" where
  "config_command op nid = op # i32_bytes nid"

text \<open>\<^verbatim>\<open>entry->type = RAFT_ENTRY_CONFIG\<close> through the pointer of
  \<^verbatim>\<open>raft_log_get\<close>.\<close>

definition mark_config :: "u64 \<Rightarrow> raft_log \<Rightarrow> raft_log" where
  "mark_config index l =
     (if raft_log_get l index = None then l
      else let offset = unat (index - base_index l - 1)
           in l\<lparr>entries := (entries l)[offset := (entries l ! offset)\<lparr>e_type := Some RAFT_ENTRY_CONFIG\<rparr>]\<rparr>)"

text \<open>The common end of \<^verbatim>\<open>raft_add_node\<close> and \<^verbatim>\<open>raft_remove_node\<close>: log
  the command, mark the entry, set the pending change, persist (the result is ignored).\<close>

definition log_config_change ::
  "u8 \<Rightarrow> int \<Rightarrow> bool \<Rightarrow> raft_node \<Rightarrow> raft_cluster_config \<Rightarrow>
     (raft_status_t \<times> raft_cluster_config \<times> raft_node) option"
where
  "log_config_change op nid add node g =
     (let cmd = config_command op nid in
      case raft_log_append (log node) (current_term node) (Some cmd) (wld node) of
        (status, idx, l, w) \<Rightarrow>
          let node = node\<lparr>log := l, wld := w\<rparr> in
          if status \<noteq> RAFT_OK then Some (status, g, node)
          else do {
            index \<leftarrow> idx;
            let node = node\<lparr>log := mark_config index (log node)\<rparr>;
            let g = g\<lparr>cc_pending_node := nid, cc_pending_add := add\<rparr>;
            let node = (case storage node of
                          None \<Rightarrow> node
                        | Some st \<Rightarrow>
                            (case raft_storage_append_entry st
                                    \<lparr>e_term = current_term node, e_index = index,
                                     e_type = Some RAFT_ENTRY_CONFIG, e_command = cmd\<rparr> (wld node) of
                               (s, st, w) \<Rightarrow> node\<lparr>storage := Some st, wld := w\<rparr>));
            Some (RAFT_OK, g, node)
          })"

definition raft_add_node ::
  "raft_node \<Rightarrow> int \<Rightarrow> raft_cluster_config \<Rightarrow> (raft_status_t \<times> raft_cluster_config \<times> raft_node) option"
where
  "raft_add_node node new_node_id g =
     (if role node \<noteq> RAFT_LEADER then Some (RAFT_NOT_LEADER, g, node)
      else case ensure_config_initialized node g of (g, node) \<Rightarrow>
        if is_member g new_node_id then Some (RAFT_INVALID_ARG, g, node)
        else if cc_pending_node g \<ge> 0 then Some (RAFT_INVALID_ARG, g, node)
        else log_config_change CONFIG_CMD_ADD new_node_id True node g)"

definition raft_remove_node ::
  "raft_node \<Rightarrow> int \<Rightarrow> raft_cluster_config \<Rightarrow> (raft_status_t \<times> raft_cluster_config \<times> raft_node) option"
where
  "raft_remove_node node nid g =
     (if role node \<noteq> RAFT_LEADER then Some (RAFT_NOT_LEADER, g, node)
      else case ensure_config_initialized node g of (g, node) \<Rightarrow>
        if \<not> is_member g nid then Some (RAFT_INVALID_ARG, g, node)
        else if cc_pending_node g \<ge> 0 then Some (RAFT_INVALID_ARG, g, node)
        else log_config_change CONFIG_CMD_REMOVE nid False node g)"

definition raft_is_voting_member ::
  "raft_node \<Rightarrow> int \<Rightarrow> raft_cluster_config \<Rightarrow> bool \<times> raft_cluster_config \<times> raft_node"
where
  "raft_is_voting_member node nid g =
     (case ensure_config_initialized node g of (g, node) \<Rightarrow>
        (is_member g nid \<or> cc_pending_add g \<and> cc_pending_node g = nid, g, node))"

definition raft_get_config_type ::
  "raft_node \<Rightarrow> raft_cluster_config \<Rightarrow> raft_config_type_t \<times> raft_cluster_config \<times> raft_node"
where
  "raft_get_config_type node g =
     (case ensure_config_initialized node g of (g, node) \<Rightarrow>
        (if cc_pending_node g \<ge> 0 then RAFT_CONFIG_TRANSITIONING else RAFT_CONFIG_STABLE, g, node))"

definition raft_get_cluster_size ::
  "raft_node \<Rightarrow> raft_cluster_config \<Rightarrow> int \<times> raft_cluster_config \<times> raft_node"
where
  "raft_get_cluster_size node g =
     (case ensure_config_initialized node g of (g, node) \<Rightarrow>
        (cc_node_count g + (if cc_pending_add g \<and> cc_pending_node g \<ge> 0 then 1 else 0), g, node))"

text \<open>\<^verbatim>\<open>memmove\<close> over the first occurrence; the count drops by one.\<close>

definition remove_member :: "int \<Rightarrow> raft_cluster_config \<Rightarrow> raft_cluster_config" where
  "remove_member nid g =
     (if is_member g nid
      then g\<lparr>cc_nodes := map_option (remove1 nid) (cc_nodes g), cc_node_count := cc_node_count g - 1\<rparr>
      else g)"

definition add_member :: "int \<Rightarrow> raft_cluster_config \<Rightarrow> raft_cluster_config" where
  "add_member nid g =
     g\<lparr>cc_nodes := Some (take (nat (cc_node_count g)) (case cc_nodes g of None \<Rightarrow> [] | Some ns \<Rightarrow> ns) @ [nid]),
       cc_node_count := cc_node_count g + 1\<rparr>"

text \<open>\<open>None\<close> when the type of the entry was never written.\<close>

definition raft_apply_config_change ::
  "raft_node \<Rightarrow> raft_entry \<Rightarrow> raft_cluster_config \<Rightarrow> (raft_cluster_config \<times> raft_node) option"
where
  "raft_apply_config_change node entry g =
     (case e_type entry of
        None \<Rightarrow> None
      | Some ty \<Rightarrow>
          if ty \<noteq> RAFT_ENTRY_CONFIG then Some (g, node)
          else if length (e_command entry) < CONFIG_CMD_SIZE then Some (g, node)
          else
            (case ensure_config_initialized node g of (g, node) \<Rightarrow>
             let op = e_command entry ! 0;
                 target_node = i32_word (take 4 (drop 1 (e_command entry)));
                 (g, node) =
                   (if op = CONFIG_CMD_ADD then
                      (case malloc (wld node) of (ok, w) \<Rightarrow>
                         let g = (if ok then add_member target_node g else g)
                         in (g, node\<lparr>wld := w, num_nodes := cc_node_count g\<rparr>))
                    else if op = CONFIG_CMD_REMOVE then
                      let g = remove_member target_node g in (g, node\<lparr>num_nodes := cc_node_count g\<rparr>)
                    else (g, node))
             in Some (g\<lparr>cc_pending_node := -1, cc_pending_add := False\<rparr>, node)))"

definition raft_membership_reset :: "raft_cluster_config \<Rightarrow> raft_cluster_config" where
  "raft_membership_reset g =
     \<lparr>cc_nodes = None, cc_node_count = 0, cc_pending_node = -1, cc_pending_add = False\<rparr>"

section \<open>Properties\<close>

text \<open>The node list has no duplicates, and the count is its length.\<close>

definition config_ok :: "raft_cluster_config \<Rightarrow> bool" where
  "config_ok g \<longleftrightarrow>
     (case cc_nodes g of None \<Rightarrow> cc_node_count g = 0
      | Some ns \<Rightarrow> distinct ns \<and> cc_node_count g = int (length ns))"

definition members :: "raft_cluster_config \<Rightarrow> int set" where
  "members g = (case cc_nodes g of None \<Rightarrow> {} | Some ns \<Rightarrow> set ns)"

lemma is_member_iff: "config_ok g \<Longrightarrow> is_member g nid \<longleftrightarrow> nid \<in> members g"
  by (auto simp: config_ok_def is_member_def members_def split: option.splits)

lemma initial_config_ok: "config_ok initial_config"
  by (simp add: config_ok_def initial_config_def)

lemma ensure_config_initialized_ok:
  "ensure_config_initialized n g = (g', n') \<Longrightarrow> config_ok g \<Longrightarrow>
     config_ok g' \<and> cc_pending_node g' = cc_pending_node g \<and> cc_pending_add g' = cc_pending_add g \<and>
     log n' = log n \<and> role n' = role n \<and> current_term n' = current_term n \<and> num_nodes n' = num_nodes n \<and>
     (cc_nodes g \<noteq> None \<longrightarrow> g' = g \<and> n' = n)"
  by (auto simp: ensure_config_initialized_def config_ok_def split: if_splits prod.splits)

lemma add_member_ok:
  "config_ok g \<Longrightarrow> \<not> is_member g nid \<Longrightarrow>
     config_ok (add_member nid g) \<and> members (add_member nid g) = insert nid (members g)"
  by (auto simp: config_ok_def add_member_def is_member_def members_def split: option.splits)

lemma remove_member_ok:
  "config_ok g \<Longrightarrow> config_ok (remove_member nid g) \<and> members (remove_member nid g) = members g - {nid}"
  by (auto simp: config_ok_def remove_member_def is_member_def members_def length_remove1 of_nat_diff
      Suc_le_eq split: option.splits dest: length_pos_if_in_set)

text \<open>While a change is pending, no other one is logged.\<close>

lemma pending_blocks_change:
  assumes "0 \<le> cc_pending_node g" and "config_ok g" and "role n = RAFT_LEADER"
  shows "\<exists>g' n'. raft_add_node n nid g = Some (RAFT_INVALID_ARG, g', n') \<and> log n' = log n \<and>
           cc_pending_node g' = cc_pending_node g"
    and "\<exists>g' n'. raft_remove_node n nid g = Some (RAFT_INVALID_ARG, g', n') \<and> log n' = log n \<and>
           cc_pending_node g' = cc_pending_node g"
proof -
  obtain g' n' where e: "ensure_config_initialized n g = (g', n')" by fastforce
  note ok = ensure_config_initialized_ok [OF e assms(2)]
  show "\<exists>g' n'. raft_add_node n nid g = Some (RAFT_INVALID_ARG, g', n') \<and> log n' = log n \<and>
           cc_pending_node g' = cc_pending_node g"
    using assms e ok by (simp add: raft_add_node_def)
  show "\<exists>g' n'. raft_remove_node n nid g = Some (RAFT_INVALID_ARG, g', n') \<and> log n' = log n \<and>
           cc_pending_node g' = cc_pending_node g"
    using assms e ok by (simp add: raft_remove_node_def)
qed

lemma config_command_codec:
  "i32_range nid \<Longrightarrow> length (config_command op nid) = CONFIG_CMD_SIZE \<and> config_command op nid ! 0 = op \<and>
     i32_word (take 4 (drop 1 (config_command op nid))) = nid"
  by (simp add: config_command_def CONFIG_CMD_SIZE_def i32_codec)

text \<open>Applying the logged command of an addition or a removal does what was asked for.\<close>

lemma apply_add_command:
  assumes ok: "config_ok g" "cc_nodes g \<noteq> None" and new: "nid \<notin> members g" and i: "i32_range nid"
    and mem: "alloc_ok (wld n)" and e: "e_type e = Some RAFT_ENTRY_CONFIG" "e_command e = config_command CONFIG_CMD_ADD nid"
  shows "\<exists>g' n'. raft_apply_config_change n e g = Some (g', n') \<and> config_ok g' \<and>
    members g' = insert nid (members g) \<and> cc_pending_node g' = -1 \<and>
    num_nodes n' = int (card (members g')) \<and> votes_granted n' = votes_granted n"
proof -
  have "\<not> is_member g nid" using ok new by (simp add: is_member_iff)
  note am = add_member_ok [OF ok(1) this]
  have card: "cc_node_count h = int (card (members h))" if "config_ok h" "cc_nodes h \<noteq> None" for h
    using that by (auto simp: config_ok_def members_def distinct_card split: option.splits)
  have "ensure_config_initialized n g = (g, n)" using ok(2) by (auto simp: ensure_config_initialized_def)
  moreover have "cc_node_count (add_member nid g) = int (card (members (add_member nid g)))"
    using am by (intro card) (simp_all add: add_member_def)
  moreover have "config_ok (h\<lparr>cc_pending_node := p, cc_pending_add := a\<rparr>) = config_ok h"
    "members (h\<lparr>cc_pending_node := p, cc_pending_add := a\<rparr>) = members h" for h p a
    by (simp_all add: config_ok_def members_def split: option.split)
  ultimately show ?thesis
    using am mem e config_command_codec [OF i, of CONFIG_CMD_ADD]
    by (simp add: raft_apply_config_change_def Let_def)
qed

section \<open>Properties\<close>

text \<open>One membership change at a time: while a change is pending, adding or removing any node is refused and the log is left alone.\<close>

theorem one_change_at_a_time:
  assumes "0 \<le> cc_pending_node g" and "config_ok g" and "role n = RAFT_LEADER"
  shows "(\<exists>g' n'. raft_add_node n nid g = Some (RAFT_INVALID_ARG, g', n') \<and> log n' = log n \<and>
           cc_pending_node g' = cc_pending_node g) \<and>
         (\<exists>g' n'. raft_remove_node n nid g = Some (RAFT_INVALID_ARG, g', n') \<and> log n' = log n \<and>
           cc_pending_node g' = cc_pending_node g)"
  using pending_blocks_change [OF assms] by blast

theorem one_change_at_a_time_witness:
  "\<exists>g' n'. raft_add_node (sample_node 0 3 RAFT_LEADER 2 two_logs) 3
     \<lparr>cc_nodes = Some [0, 1, 2], cc_node_count = 3, cc_pending_node = 4, cc_pending_add = True\<rparr> =
       Some (RAFT_INVALID_ARG, g', n') \<and> log n' = two_logs \<and> cc_pending_node g' = 4"
  using one_change_at_a_time [of "\<lparr>cc_nodes = Some [0, 1, 2], cc_node_count = 3, cc_pending_node = 4,
      cc_pending_add = True\<rparr>" "sample_node 0 3 RAFT_LEADER 2 two_logs" 3]
  by (simp add: config_ok_def sample_node_def)

text \<open>C28: Applying the addition of a node raises \<^verbatim>\<open>num_nodes\<close> without enlarging \<^verbatim>\<open>votes_granted\<close>; the next step down clears the array with the new size, which is undefined behaviour.\<close>

theorem add_then_step_down_undefined:
  assumes "length (votes_granted n) = nat (num_nodes n)" and "config_ok g" "cc_nodes g \<noteq> None"
    and "cc_node_count g = num_nodes n" and "nid \<notin> members g" "i32_range nid" and "alloc_ok (wld n)"
    and "e_type e = Some RAFT_ENTRY_CONFIG" "e_command e = config_command CONFIG_CMD_ADD nid"
  shows "\<exists>g' n'. raft_apply_config_change n e g = Some (g', n') \<and> raft_step_down n' t = None"
proof -
  obtain g' n' where r: "raft_apply_config_change n e g = Some (g', n')" "members g' = insert nid (members g)"
    "num_nodes n' = int (card (members g'))" "votes_granted n' = votes_granted n"
    using apply_add_command [OF assms(2,3,5,6,7,8,9)] by blast
  have "num_nodes n = int (card (members g))" and "finite (members g)"
    using assms(2,3,4) by (auto simp: config_ok_def members_def distinct_card split: option.splits)
  then have "num_nodes n' = num_nodes n + 1" "0 \<le> num_nodes n" using r assms(5) by simp_all
  then have "\<not> nat (num_nodes n') \<le> length (votes_granted n')" using assms(1) r(4) by simp
  then have "raft_step_down n' t = None" by (simp add: raft_step_down_def clear_flags_def Let_def)
  then show ?thesis using r(1) by blast
qed

theorem add_then_step_down_undefined_witness:
  "\<exists>g' n'. raft_apply_config_change (sample_node 0 3 RAFT_LEADER 2 two_logs)
       \<lparr>e_term = 2, e_index = 3, e_type = Some RAFT_ENTRY_CONFIG, e_command = config_command CONFIG_CMD_ADD 7\<rparr>
       \<lparr>cc_nodes = Some [0, 1, 2], cc_node_count = 3, cc_pending_node = 7, cc_pending_add = True\<rparr> = Some (g', n') \<and>
     raft_step_down n' 5 = None"
  by (rule add_then_step_down_undefined) (simp_all add: sample_node_def config_ok_def members_def i32_range_def)

end
