(* ===== verification/Raft_Read.thy ===== *)
theory Raft_Read
  imports Raft_Node
begin

text \<open>
  Linearizable reads (\<^verbatim>\<open>consensus/src/read.c\<close>). The static list of pending requests
  is an argument and a result; the callbacks are user code, so a call is recorded as the pair of
  its context and status, in order.
\<close>

section \<open>The code\<close>

record raft_read_request =
  rr_read_index :: u64
  rr_ctx :: nat
  rr_acks_needed :: int
  rr_acks_received :: int
  rr_acked :: "bool list"

type_synonym read_call = "nat \<times> raft_status_t"

definition raft_read_index ::
  "raft_node \<Rightarrow> nat \<Rightarrow> raft_read_request list \<Rightarrow>
     raft_status_t \<times> raft_read_request list \<times> read_call list \<times> raft_node"
where
  "raft_read_index node ctx pending =
     (if \<not> running node then (RAFT_STOPPED, pending, [], node)
      else if role node \<noteq> RAFT_LEADER then (RAFT_NOT_LEADER, pending, [], node)
      else if num_nodes node = 1 then (RAFT_OK, pending, [(ctx, RAFT_OK)], node)
      else case malloc (wld node) of (ok1, w) \<Rightarrow>
        if \<not> ok1 then (RAFT_NO_MEMORY, pending, [], node\<lparr>wld := w\<rparr>)
        else case malloc w of (ok2, w) \<Rightarrow>
          if \<not> ok2 then (RAFT_NO_MEMORY, pending, [], node\<lparr>wld := w\<rparr>)
          else (RAFT_OK,
                pending @ [\<lparr>rr_read_index = commit_index node, rr_ctx = ctx,
                            rr_acks_needed = num_nodes node div 2, rr_acks_received = 0,
                            rr_acked = replicate (nat (num_nodes node)) False\<rparr>],
                [], node\<lparr>wld := w\<rparr>))"

text \<open>One request: count the acknowledgement if it is new.\<close>

definition count_ack :: "int \<Rightarrow> raft_read_request \<Rightarrow> raft_read_request option" where
  "count_ack from_node req = do {
     already \<leftarrow> arr_get (rr_acked req) from_node;
     if already then Some req
     else do {
       acked \<leftarrow> arr_set (rr_acked req) from_node True;
       Some (req\<lparr>rr_acked := acked, rr_acks_received := rr_acks_received req + 1\<rparr>)
     }
   }"

text \<open>The walk over the list: what stays pending, and the callbacks invoked.\<close>

fun process_acks ::
  "int \<Rightarrow> raft_read_request list \<Rightarrow> (raft_read_request list \<times> read_call list) option"
where
  "process_acks from_node [] = Some ([], [])"
| "process_acks from_node (req # reqs) = do {
     req \<leftarrow> count_ack from_node req;
     (pending, calls) \<leftarrow> process_acks from_node reqs;
     if rr_acks_received req \<ge> rr_acks_needed req
     then Some (pending, (rr_ctx req, RAFT_OK) # calls)
     else Some (req # pending, calls)
   }"

definition raft_read_process_ack ::
  "raft_node \<Rightarrow> int \<Rightarrow> raft_read_request list \<Rightarrow> (raft_read_request list \<times> read_call list) option"
where
  "raft_read_process_ack node from_node pending =
     (if from_node < 0 \<or> from_node \<ge> num_nodes node then Some (pending, [])
      else if role node \<noteq> RAFT_LEADER then Some (pending, [])
      else process_acks from_node pending)"

definition raft_read_cancel_all :: "raft_read_request list \<Rightarrow> raft_read_request list \<times> read_call list" where
  "raft_read_cancel_all pending = ([], map (\<lambda>req. (rr_ctx req, RAFT_NOT_LEADER)) pending)"

definition raft_read_pending_count :: "raft_read_request list \<Rightarrow> nat" where
  "raft_read_pending_count pending = length pending"

definition raft_read_reset :: "raft_read_request list \<Rightarrow> raft_read_request list" where
  "raft_read_reset pending = []"

section \<open>Acknowledgements\<close>

text \<open>A pending request counts each node once, and still waits.\<close>

definition read_inv :: "int \<Rightarrow> raft_read_request \<Rightarrow> bool" where
  "read_inv N req \<longleftrightarrow>
     length (rr_acked req) = nat N \<and> rr_acks_received req = int (count_true (rr_acked req)) \<and>
     rr_acks_needed req = N div 2 \<and> rr_acks_received req < rr_acks_needed req"

lemma count_ack_spec:
  assumes "length (rr_acked req) = nat N" and "0 \<le> i" and "i < N"
    and "rr_acks_received req = int (count_true (rr_acked req))"
  shows "\<exists>req'. count_ack i req = Some req' \<and> rr_acked req' = (rr_acked req)[nat i := True] \<and>
    rr_acks_received req' = int (count_true (rr_acked req')) \<and>
    rr_acks_needed req' = rr_acks_needed req \<and> rr_ctx req' = rr_ctx req \<and> rr_read_index req' = rr_read_index req"
proof (cases "rr_acked req ! nat i")
  case True
  then have "(rr_acked req)[nat i := True] = rr_acked req" by (metis list_update_id)
  then show ?thesis using assms True by (simp add: count_ack_def arr_get_def)
next
  case False
  then show ?thesis using assms
    by (simp add: count_ack_def arr_get_def arr_set_def count_true_update)
qed

lemma raft_read_index_inv:
  assumes "raft_read_index n ctx pending = (st, pending', calls, n')" and "1 \<le> num_nodes n"
    and "\<forall>r \<in> set pending. read_inv (num_nodes n) r"
  shows "\<forall>r \<in> set pending'. read_inv (num_nodes n) r"
proof -
  have "pending' = pending \<or> num_nodes n \<noteq> 1 \<and> (\<exists>r. pending' = pending @ [r] \<and>
      rr_acks_needed r = num_nodes n div 2 \<and> rr_acks_received r = 0 \<and>
      rr_acked r = replicate (nat (num_nodes n)) False)"
    using assms(1) by (auto simp: raft_read_index_def split: if_splits prod.splits)
  then show ?thesis using assms(2,3) by (auto simp: read_inv_def)
qed

text \<open>Processing an acknowledgement keeps the invariant, answers exactly the requests that have
  now been acknowledged by half of the cluster, and keeps the others in order.\<close>

definition ack_done :: "int \<Rightarrow> int \<Rightarrow> raft_read_request \<Rightarrow> bool" where
  "ack_done N i req \<longleftrightarrow> N div 2 \<le> int (count_true ((rr_acked req)[nat i := True]))"

section \<open>Properties\<close>

definition sample_read :: "nat \<Rightarrow> raft_read_request" where
  "sample_read c = \<lparr>rr_read_index = 1, rr_ctx = c, rr_acks_needed = 2, rr_acks_received = 0,
     rr_acked = replicate 5 False\<rparr>"

text \<open>An acknowledgement completes exactly the pending reads that half of the cluster has now acknowledged, each node counted once, in the order they were requested; the others stay pending with their counters consistent.\<close>

theorem process_acks_spec:
  assumes "\<forall>r \<in> set pending. read_inv N r" and "0 \<le> i" and "i < N"
  shows "\<exists>pending'. process_acks i pending =
      Some (pending', map (\<lambda>r. (rr_ctx r, RAFT_OK)) (filter (ack_done N i) pending)) \<and>
    (\<forall>r \<in> set pending'. read_inv N r) \<and>
    map rr_ctx pending' = map rr_ctx (filter (\<lambda>r. \<not> ack_done N i r) pending)"
  using assms
proof (induction pending)
  case Nil
  then show ?case by simp
next
  case (Cons r rs)
  obtain r' where r': "count_ack i r = Some r'" "rr_acked r' = (rr_acked r)[nat i := True]"
    "rr_acks_received r' = int (count_true (rr_acked r'))" "rr_acks_needed r' = N div 2" "rr_ctx r' = rr_ctx r"
    using count_ack_spec [of r N i] Cons.prems by (auto simp: read_inv_def)
  have len: "length (rr_acked r') = nat N" using r'(2) Cons.prems(1) by (simp add: read_inv_def)
  obtain p where p: "process_acks i rs = Some (p, map (\<lambda>r. (rr_ctx r, RAFT_OK)) (filter (ack_done N i) rs))"
    "\<forall>r \<in> set p. read_inv N r" "map rr_ctx p = map rr_ctx (filter (\<lambda>r. \<not> ack_done N i r) rs)"
    using Cons by auto
  have ad: "ack_done N i r \<longleftrightarrow> rr_acks_needed r' \<le> rr_acks_received r'" by (simp add: ack_done_def r')
  show ?case
  proof (cases "ack_done N i r")
    case True
    then show ?thesis using ad r' p by simp
  next
    case False
    moreover have "read_inv N r'" using False ad r' len by (simp add: read_inv_def)
    ultimately show ?thesis using ad r' p by simp
  qed
qed

theorem process_acks_spec_witness:
  "\<exists>pending'. process_acks 3 [sample_read 8, (sample_read 9)\<lparr>rr_acked := [True, False, False, False, False],
       rr_acks_received := 1\<rparr>] = Some (pending', [(9, RAFT_OK)]) \<and> map rr_ctx pending' = [8]"
proof -
  let ?p = "[sample_read 8, (sample_read 9)\<lparr>rr_acked := [True, False, False, False, False], rr_acks_received := 1\<rparr>]"
  have "\<forall>r \<in> set ?p. read_inv 5 r" by (simp add: read_inv_def sample_read_def)
  moreover have "filter (ack_done 5 3) ?p = [?p ! 1]" "filter (\<lambda>r. \<not> ack_done 5 3 r) ?p = [?p ! 0]"
    by (simp_all add: ack_done_def sample_read_def numeral_eq_Suc)
  moreover have "rr_ctx (?p ! 1) = 9" "rr_ctx (?p ! 0) = 8" by (simp_all add: sample_read_def)
  ultimately show ?thesis using process_acks_spec [of ?p 5 3] by (auto simp del: process_acks.simps)
qed

end
