(* ===== verification/SE_Keys.thy ===== *)
theory SE_Keys
  imports C_Runtime
begin

text \<open>
  Keys of the storage engine: byte strings under a comparison function
  (\<^verbatim>\<open>storage-engine/src/types.h\<close>, \<^verbatim>\<open>default_compare\<close> of
  \<^verbatim>\<open>skiplist.c\<close>). The status codes of the engine are here too.

  The order laws the ordered structures rely on are the locale \<open>key_order\<close>; the default
  comparison is shown to satisfy them.
\<close>

datatype status_t =
    STATUS_OK
  | STATUS_NOT_FOUND
  | STATUS_CORRUPTION
  | STATUS_IO_ERROR
  | STATUS_INVALID_ARG
  | STATUS_NO_MEMORY

type_synonym compare_fn = "bytes \<Rightarrow> bytes \<Rightarrow> int"

text \<open>\<^verbatim>\<open>memcmp\<close> on equally long buffers: the sign is that of the first differing
  (unsigned) byte.\<close>

fun memcmp :: "bytes \<Rightarrow> bytes \<Rightarrow> int" where
  "memcmp (x # xs) (y # ys) = (if x < y then -1 else if y < x then 1 else memcmp xs ys)"
| "memcmp _ _ = 0"

definition default_compare :: compare_fn where
  "default_compare a b =
     (let min_len = (if length a < length b then length a else length b);
          cmp = memcmp (take min_len a) (take min_len b)
      in if cmp \<noteq> 0 then cmp
         else if length a < length b then -1
         else if length a > length b then 1
         else 0)"

section \<open>Order laws\<close>

locale key_order =
  fixes cmp :: compare_fn
  assumes cmp_eq: "cmp a b = 0 \<longleftrightarrow> a = b"
    and cmp_flip: "cmp a b < 0 \<longleftrightarrow> 0 < cmp b a"
    and cmp_trans: "cmp a b < 0 \<Longrightarrow> cmp b c < 0 \<Longrightarrow> cmp a c < 0"
begin

lemma cmp_refl [simp]: "cmp a a = 0"
  by (simp add: cmp_eq)

lemma cmp_asym: "cmp a b < 0 \<Longrightarrow> \<not> cmp b a < 0"
  using cmp_flip [of a b] by simp

lemma cmp_cases: obtains "cmp a b < 0" | "a = b" | "cmp b a < 0"
  using cmp_eq [of a b] cmp_flip [of b a] by (cases "cmp a b" "0 :: int" rule: linorder_cases) auto

lemma cmp_gt_trans: "0 < cmp a b \<Longrightarrow> 0 < cmp b c \<Longrightarrow> 0 < cmp a c"
  using cmp_trans [of c b a] by (simp add: cmp_flip [symmetric])

lemma cmp_not_less: "\<not> cmp a b < 0 \<longleftrightarrow> a = b \<or> cmp b a < 0"
  by (rule cmp_cases [of a b]) (auto dest: cmp_asym)

text \<open>In a strictly increasing list the elements below a bound are a prefix.\<close>

lemma sorted_filter_split:
  assumes "sorted_wrt (\<lambda>a b. cmp (f a) (f b) < 0) xs"
  shows "xs = filter (\<lambda>a. cmp (f a) k < 0) xs @ filter (\<lambda>a. \<not> cmp (f a) k < 0) xs"
  using assms
proof (induction xs)
  case Nil
  then show ?case by simp
next
  case (Cons x xs)
  show ?case
  proof (cases "cmp (f x) k < 0")
    case True
    then show ?thesis using Cons by simp
  next
    case False
    have "\<not> cmp (f a) k < 0" if "a \<in> set xs" for a
      using that Cons.prems False cmp_trans by auto
    then have "filter (\<lambda>a. cmp (f a) k < 0) xs = []" "filter (\<lambda>a. \<not> cmp (f a) k < 0) xs = xs"
      by (simp_all add: filter_empty_conv)
    then show ?thesis using False by simp
  qed
qed

lemma sorted_takeWhile:
  assumes "sorted_wrt (\<lambda>a b. cmp (f a) (f b) < 0) xs"
  shows "takeWhile (\<lambda>a. cmp (f a) k < 0) xs = filter (\<lambda>a. cmp (f a) k < 0) xs \<and>
    dropWhile (\<lambda>a. cmp (f a) k < 0) xs = filter (\<lambda>a. \<not> cmp (f a) k < 0) xs"
  using assms
proof (induction xs)
  case Nil
  then show ?case by simp
next
  case (Cons x xs)
  have "\<not> cmp (f a) k < 0" if "a \<in> set xs" "\<not> cmp (f x) k < 0" for a
    using that Cons.prems cmp_trans by auto
  then have "filter (\<lambda>a. cmp (f a) k < 0) xs = []" "filter (\<lambda>a. \<not> cmp (f a) k < 0) xs = xs"
    if "\<not> cmp (f x) k < 0"
    using that by (simp_all add: filter_empty_conv filter_id_conv)
  then show ?case using Cons by simp
qed

text \<open>At most one element equals the bound, and it is the first that is not below.\<close>

lemma sorted_hit:
  assumes "sorted_wrt (\<lambda>a b. cmp (f a) (f b) < 0) xs"
  shows "filter (\<lambda>a. \<not> cmp (f a) k < 0) xs =
    filter (\<lambda>a. f a = k) xs @ filter (\<lambda>a. 0 < cmp (f a) k) xs"
    and "length (filter (\<lambda>a. f a = k) xs) \<le> 1"
proof -
  have "filter (\<lambda>a. \<not> cmp (f a) k < 0) xs = filter (\<lambda>a. f a = k) xs @ filter (\<lambda>a. 0 < cmp (f a) k) xs \<and>
    length (filter (\<lambda>a. f a = k) xs) \<le> 1"
    using assms
  proof (induction xs)
    case Nil
    then show ?case by simp
  next
    case (Cons x xs)
    have above: "cmp (f x) (f a) < 0" if "a \<in> set xs" for a using that Cons.prems by simp
    consider "cmp (f x) k < 0" | "f x = k" | "0 < cmp (f x) k"
      using cmp_eq [of "f x" k] by linarith
    then show ?case
    proof cases
      case 1
      then show ?thesis using Cons by (auto simp: cmp_eq)
    next
      case 2
      have "filter (\<lambda>a. f a = k) xs = []" using above 2 by (fastforce simp: filter_empty_conv)
      moreover have "0 < cmp (f a) k" if "a \<in> set xs" for a
        using above [OF that] 2 by (simp add: cmp_flip)
      ultimately show ?thesis using 2 by (auto simp: filter_id_conv dest: order.asym)
    next
      case 3
      have gt: "0 < cmp (f a) k" if "a \<in> set xs" for a
        using above [OF that] 3 cmp_gt_trans by (auto simp: cmp_flip)
      then have "filter (\<lambda>a. f a = k) xs = []" by (fastforce simp: filter_empty_conv)
      moreover have "filter (\<lambda>a. \<not> cmp (f a) k < 0) xs = xs" "filter (\<lambda>a. 0 < cmp (f a) k) xs = xs"
        using gt by (auto simp: filter_id_conv dest: order.asym)
      moreover have "f x \<noteq> k" using 3 by auto
      ultimately show ?thesis using 3 by simp
    qed
  qed
  then show "filter (\<lambda>a. \<not> cmp (f a) k < 0) xs = filter (\<lambda>a. f a = k) xs @ filter (\<lambda>a. 0 < cmp (f a) k) xs"
    "length (filter (\<lambda>a. f a = k) xs) \<le> 1" by blast+
qed

end

section \<open>The default comparison is a strict order\<close>

lemma default_compare_simps [simp]:
  "default_compare [] [] = 0"
  "default_compare [] (y # ys) = -1"
  "default_compare (x # xs) [] = 1"
  "default_compare (x # xs) (y # ys) =
     (if x < y then -1 else if y < x then 1 else default_compare xs ys)"
  by (simp_all add: default_compare_def Let_def min_def)

interpretation dk: key_order default_compare
proof
  show "default_compare a b = 0 \<longleftrightarrow> a = b" for a b
    by (induction a b rule: list_induct2') auto
  show "default_compare a b < 0 \<longleftrightarrow> 0 < default_compare b a" for a b
    by (induction a b rule: list_induct2') auto
  show "default_compare a c < 0" if "default_compare a b < 0" "default_compare b c < 0" for a b c
    using that
  proof (induction a arbitrary: b c)
    case Nil
    then show ?case by (cases b; cases c) auto
  next
    case (Cons x xs)
    then show ?case by (cases b; cases c) (auto split: if_splits)
  qed
qed

text \<open>A common prefix does not matter.\<close>

lemma default_compare_append [simp]: "default_compare (p @ a) (p @ b) = default_compare a b"
  by (induction p) simp_all

end
