(* ===== verification/Tx_Version.thy ===== *)
theory Tx_Version
  imports SE_Keys
begin

text \<open>
  Versioned keys of the transaction manager (\<^verbatim>\<open>tx-manager/src/types.h\<close>,
  \<^verbatim>\<open>param.h\<close>, \<^verbatim>\<open>version.c\<close>): a key, a zero byte and the inverted
  timestamp, most significant byte first. The encoding is shown to be invertible and, for keys without
  a zero byte, to sort by key first and by descending timestamp second.
\<close>

unbundle bit_operations_syntax

datatype tx_status_t =
    TX_OK
  | TX_NOT_FOUND
  | TX_CONFLICT
  | TX_ABORTED
  | TX_IO_ERROR
  | TX_INVALID_ARG
  | TX_NO_MEMORY
  | TX_CORRUPTION

datatype tx_state_t = TX_STATE_ACTIVE | TX_STATE_COMMITTED | TX_STATE_ABORTED

definition TX_VERSION_SEP :: u8 where "TX_VERSION_SEP = 0"

definition UINT64_MAX :: u64 where "UINT64_MAX = - 1"

section \<open>The code\<close>

definition be_bytes :: "u64 \<Rightarrow> bytes" where
  "be_bytes w = map (\<lambda>i. ucast (drop_bit (56 - i * 8) w AND 0xFF)) [0..<8]"

definition be_word :: "bytes \<Rightarrow> u64" where
  "be_word bs = foldl (\<lambda>inverted b. push_bit 8 inverted OR ucast b) 0 bs"

definition encoded_key :: "bytes \<Rightarrow> u64 \<Rightarrow> bytes" where
  "encoded_key key version = key @ TX_VERSION_SEP # be_bytes (NOT version)"

definition version_encode_key :: "bytes \<Rightarrow> u64 \<Rightarrow> world \<Rightarrow> (tx_status_t \<times> bytes) \<times> world" where
  "version_encode_key key version w =
     (case malloc w of (ok, w) \<Rightarrow>
        (if \<not> ok then (TX_NO_MEMORY, []) else (TX_OK, encoded_key key version), w))"

definition version_decode_key :: "bytes \<Rightarrow> tx_status_t \<times> bytes \<times> u64" where
  "version_decode_key vk =
     (if length vk < 10 then (TX_CORRUPTION, [], 0)
      else
        let key_len = length vk - 1 - 8
        in if vk ! key_len \<noteq> TX_VERSION_SEP then (TX_CORRUPTION, [], 0)
           else (TX_OK, take key_len vk, NOT (be_word (take 8 (drop (key_len + 1) vk)))))"

definition version_compare_keys :: "bytes \<Rightarrow> bytes \<Rightarrow> int" where
  "version_compare_keys key1 key2 =
     (let min_len = (if length key1 < length key2 then length key1 else length key2);
          cmp = memcmp (take min_len key1) (take min_len key2)
      in if cmp \<noteq> 0 then cmp
         else if length key1 < length key2 then -1
         else if length key1 > length key2 then 1
         else 0)"

section \<open>Round trip\<close>

lemma upt_8: "[0..<8] = [0, 1, 2, 3, 4, 5, 6, 7 :: nat]"
  by (simp add: upt_conv_Cons)

lemma length_be_bytes [simp]: "length (be_bytes w) = 8"
  by (simp add: be_bytes_def)

lemma ucast_and_255: "(ucast (w AND 0xFF :: u64) :: u8) = ucast w"
proof -
  have "(0xFF :: u64) = mask 8" by (simp add: mask_eq_exp_minus_1)
  then have "w AND 0xFF = take_bit 8 w" by (simp only: take_bit_eq_mask)
  then show ?thesis by (simp only:) (rule bit_word_eqI, simp add: bit_simps)
qed

lemma be_bytes_le: "be_bytes w = rev (le_bytes 8 w)"
  by (simp add: be_bytes_def upt_8 ucast_and_255 numeral_eq_Suc)

lemma be_word_rev: "be_word (rev bs) = le_word bs"
  unfolding be_word_def by (induction bs) (simp_all add: or.commute)

lemma be_codec [simp]: "be_word (be_bytes w) = w"
  by (simp add: be_bytes_le be_word_rev)

lemma length_encoded_key [simp]: "length (encoded_key k v) = length k + 9"
  by (simp add: encoded_key_def)

lemma encoded_key_ne [simp]: "encoded_key k v \<noteq> []"
  by (simp add: encoded_key_def)

lemma version_decode_encode:
  "k \<noteq> [] \<Longrightarrow> version_decode_key (encoded_key k v) = (TX_OK, k, v)"
  by (cases k) (auto simp: version_decode_key_def Let_def encoded_key_def nth_append nth_Cons' Suc_diff_Suc)

lemma encoded_key_inj: "encoded_key k v = encoded_key k' v' \<longleftrightarrow> k = k' \<and> v = v'"
proof
  assume eq: "encoded_key k v = encoded_key k' v'"
  then have "length k = length k'" by (metis add_right_cancel length_encoded_key)
  then have "k = k'" "be_bytes (NOT v) = be_bytes (NOT v')" using eq by (auto simp: encoded_key_def)
  moreover from this have "NOT v = NOT v'" by (metis be_codec)
  ultimately show "k = k' \<and> v = v'" by (metis bit.double_compl)
qed simp

section \<open>Order\<close>

text \<open>Big-endian images of the same length compare as the numbers they denote.\<close>

fun be_nat :: "bytes \<Rightarrow> nat" where
  "be_nat [] = 0"
| "be_nat (b # bs) = unat b * 256 ^ length bs + be_nat bs"

lemma be_nat_bound: "be_nat bs < 256 ^ length bs"
proof (induction bs)
  case Nil
  then show ?case by simp
next
  case (Cons b bs)
  have "unat b + 1 \<le> 256" using unsigned_less [of b, where 'a = nat] by simp
  then have "(unat b + 1) * 256 ^ length bs \<le> 256 * 256 ^ length bs" by (rule mult_le_mono1)
  then show ?case using Cons unfolding add_mult_distrib be_nat.simps length_Cons power_Suc by linarith
qed

lemma be_nat_less:
  "length xs = length ys \<Longrightarrow> default_compare xs ys < 0 \<longleftrightarrow> be_nat xs < be_nat ys"
proof (induction xs ys rule: list_induct2)
  case Nil
  then show ?case by simp
next
  case (Cons x xs y ys)
  have bx: "be_nat xs < 256 ^ length ys" and b: "be_nat ys < 256 ^ length ys"
    using be_nat_bound [of xs] be_nat_bound [of ys] Cons.hyps by simp_all
  have mono: "p * 256 ^ length ys + a < q * 256 ^ length ys + c"
    if "p < q" "a < 256 ^ length ys" for p q a c :: nat
  proof -
    have "(p + 1) * 256 ^ length ys \<le> q * 256 ^ length ys" using that(1) by (intro mult_le_mono1) simp
    then show ?thesis using that(2) by simp
  qed
  consider "unat x < unat y" | "unat y < unat x" | "x = y" by (metis linorder_less_linear word_unat_eq_iff)
  then show ?case
  proof cases
    case 1
    then show ?thesis using mono [OF 1 bx, of "be_nat ys"] Cons.hyps by (simp add: word_less_nat_alt)
  next
    case 2
    then show ?thesis using mono [OF 2 b, of "be_nat xs"] Cons.hyps by (simp add: word_less_nat_alt)
  next
    case 3
    then show ?thesis using Cons by simp
  qed
qed

lemma be_nat_snoc: "be_nat (bs @ [b]) = be_nat bs * 256 + unat b"
  by (induction bs) (simp_all add: algebra_simps)

lemma u8_u64: "unat (ucast (b :: u8) :: u64) = unat b"
  by (simp add: unsigned_ucast_eq take_bit_nat_eq_self unsigned_less [THEN order.strict_trans])

lemma unat_be_word: "length bs \<le> 8 \<Longrightarrow> unat (be_word bs) = be_nat bs"
proof (induction bs rule: rev_induct)
  case Nil
  then show ?case by (simp add: be_word_def)
next
  case (snoc b bs)
  have ih: "unat (be_word bs) = be_nat bs" using snoc by simp
  have "be_nat bs < 256 ^ 7"
    using be_nat_bound [of bs] power_increasing [of "length bs" 7 "256 :: nat"] snoc.prems by simp
  then have small: "unat (be_word bs) * 256 + unat b < 2 ^ 64"
    using ih unsigned_less [of b, where 'a = nat] by simp
  have "push_bit 8 (be_word bs) AND ucast b = 0"
    by (rule bit_word_eqI) (auto simp: bit_simps dest: bit_imp_le_length)
  then have "push_bit 8 (be_word bs) OR ucast b = be_word bs * 256 + ucast b"
    by (simp add: disjunctive_add_eq_or [symmetric] push_bit_eq_mult)
  then have "unat (be_word (bs @ [b])) = (unat (be_word bs) * 256 + unat b) mod 2 ^ 64"
    by (simp add: be_word_def unat_word_ariths u8_u64 mod_simps)
  then show ?case using ih small by (simp add: be_nat_snoc)
qed

lemma be_bytes_less: "default_compare (be_bytes v) (be_bytes w) < 0 \<longleftrightarrow> v < w"
  using unat_be_word [of "be_bytes v"] unat_be_word [of "be_bytes w"]
  by (simp add: be_nat_less word_less_nat_alt)

lemma uint_not: "uint (NOT v :: u64) = 2 ^ 64 - 1 - uint v"
proof -
  have "uint (NOT v) = (- uint v - 1) mod 2 ^ 64"
    by (simp add: unsigned_not_eq take_bit_eq_mod) (simp add: not_eq_complement)
  also have "\<dots> = (2 ^ 64 - 1 - uint v) mod 2 ^ 64" using mod_add_self2 [of "- uint v - 1" "2 ^ 64"] by (simp add: algebra_simps)
  also have "\<dots> = 2 ^ 64 - 1 - uint v"
  proof (rule mod_pos_pos_trivial)
    have "uint v < 2 ^ 64" using unsigned_less [of v, where 'a = int] by simp
    moreover have "0 \<le> uint v" by simp
    ultimately show "0 \<le> 2 ^ 64 - 1 - uint v" "2 ^ 64 - 1 - uint v < 2 ^ 64" by linarith+
  qed
  finally show ?thesis .
qed

text \<open>Versions of one key: the newer one comes first.\<close>

lemma encoded_key_newer: "default_compare (encoded_key k v) (encoded_key k w) < 0 \<longleftrightarrow> w < v"
proof -
  have "NOT v < NOT w \<longleftrightarrow> w < v" by (simp add: word_less_def uint_not)
  then show ?thesis by (simp add: encoded_key_def be_bytes_less)
qed

text \<open>Different keys without zero bytes sort as the keys do.\<close>

definition plain_key :: "bytes \<Rightarrow> bool" where
  "plain_key k \<longleftrightarrow> k \<noteq> [] \<and> 0 \<notin> set k"

lemma compare_zero_terminated:
  "0 \<notin> set k \<Longrightarrow> 0 \<notin> set k' \<Longrightarrow> k \<noteq> k' \<Longrightarrow>
    default_compare (k @ 0 # x) (k' @ 0 # y) < 0 \<longleftrightarrow> default_compare k k' < (0 :: int)"
proof (induction k k' rule: list_induct2')
  case (4 a k b k')
  then show ?case by auto
qed (auto simp: word_gt_0)

lemma encoded_key_other:
  "plain_key k \<Longrightarrow> plain_key k' \<Longrightarrow> k \<noteq> k' \<Longrightarrow>
    default_compare (encoded_key k v) (encoded_key k' w) < 0 \<longleftrightarrow> default_compare k k' < 0"
  by (simp add: encoded_key_def TX_VERSION_SEP_def plain_key_def compare_zero_terminated)

lemma version_compare_default: "version_compare_keys = default_compare"
  by (simp add: fun_eq_iff version_compare_keys_def default_compare_def)

end
