(* ===== verification/Tx_Core.thy ===== *)
theory Tx_Core
  imports Tx_Version
begin

text \<open>
  A transaction and its write set (\<^verbatim>\<open>tx-manager/src/tx.c\<close>,
  \<^verbatim>\<open>write_set.c\<close>). The write set is the list of the entries in use; only the capacity of
  the array behind it is kept beside it. A lookup scans the entries in order.
\<close>

definition TX_WRITE_SET_INIT_CAPACITY :: nat where "TX_WRITE_SET_INIT_CAPACITY = 16"

record write_entry =
  we_key :: bytes
  we_value :: "bytes option"
  we_value_len :: nat
  we_is_delete :: bool

record tx =
  tx_id :: u64
  start_ts :: u64
  commit_ts :: u64
  tx_state :: tx_state_t
  write_set :: "write_entry list"
  write_capacity :: nat

section \<open>The code\<close>

definition tx_create :: "u64 \<Rightarrow> u64 \<Rightarrow> world \<Rightarrow> tx option \<times> world" where
  "tx_create i ts w =
     (case malloc w of (ok, w) \<Rightarrow>
      if \<not> ok then (None, w)
      else case malloc w of (ok, w) \<Rightarrow>
      if \<not> ok then (None, w)
      else (Some \<lparr>tx_id = i, start_ts = ts, commit_ts = 0, tx_state = TX_STATE_ACTIVE, write_set = [],
                  write_capacity = TX_WRITE_SET_INIT_CAPACITY\<rparr>, w))"

definition tx_clear_writes :: "tx \<Rightarrow> tx" where
  "tx_clear_writes tx = tx\<lparr>write_set := []\<rparr>"

fun find_write :: "write_entry list \<Rightarrow> bytes \<Rightarrow> nat \<Rightarrow> nat option" where
  "find_write [] key i = None"
| "find_write (e # es) key i = (if we_key e = key then Some i else find_write es key (i + 1))"

definition tx_find_write :: "tx \<Rightarrow> bytes \<Rightarrow> nat option" where
  "tx_find_write tx key = find_write (write_set tx) key 0"

definition update_write ::
  "tx \<Rightarrow> nat \<Rightarrow> bytes option \<Rightarrow> bool \<Rightarrow> world \<Rightarrow> tx_status_t \<times> tx \<times> world"
where
  "update_write tx i value is_delete w =
     (let e = write_set tx ! i;
          store = (\<lambda>e. tx\<lparr>write_set := (write_set tx)[i := e]\<rparr>)
      in if is_delete
         then (TX_OK, store (e\<lparr>we_value := None, we_value_len := 0, we_is_delete := True\<rparr>), w)
         else case malloc w of (ok, w) \<Rightarrow>
           if \<not> ok then (TX_NO_MEMORY, store (e\<lparr>we_value := None\<rparr>), w)
           else (TX_OK, store (e\<lparr>we_value := value, we_value_len := (case value of None \<Rightarrow> 0 | Some v \<Rightarrow> length v),
                                 we_is_delete := False\<rparr>), w))"

definition append_write ::
  "tx \<Rightarrow> bytes \<Rightarrow> bytes option \<Rightarrow> bool \<Rightarrow> world \<Rightarrow> tx_status_t \<times> tx \<times> world"
where
  "append_write tx key value is_delete w =
     (case malloc w of (ok, w) \<Rightarrow>
      if \<not> ok then (TX_NO_MEMORY, tx, w)
      else
        let add = (\<lambda>e. tx\<lparr>write_set := write_set tx @ [e]\<rparr>)
        in if is_delete
           then (TX_OK, add \<lparr>we_key = key, we_value = None, we_value_len = 0, we_is_delete = True\<rparr>, w)
           else case malloc w of (ok, w) \<Rightarrow>
             if \<not> ok then (TX_NO_MEMORY, tx, w)
             else (TX_OK, add \<lparr>we_key = key, we_value = value,
                               we_value_len = (case value of None \<Rightarrow> 0 | Some v \<Rightarrow> length v),
                               we_is_delete = False\<rparr>, w))"

definition tx_add_write ::
  "tx \<Rightarrow> bytes \<Rightarrow> bytes option \<Rightarrow> bool \<Rightarrow> world \<Rightarrow> tx_status_t \<times> tx \<times> world"
where
  "tx_add_write tx key value is_delete w =
     (if \<not> is_delete \<and> value = None then (TX_INVALID_ARG, tx, w)
      else case tx_find_write tx key of
        Some i \<Rightarrow> update_write tx i value is_delete w
      | None \<Rightarrow>
          if length (write_set tx) \<ge> write_capacity tx
          then case malloc w of (ok, w) \<Rightarrow>
            if \<not> ok then (TX_NO_MEMORY, tx, w)
            else append_write (tx\<lparr>write_capacity := write_capacity tx * 2\<rparr>) key value is_delete w
          else append_write tx key value is_delete w)"

definition write_set_get_keys :: "tx \<Rightarrow> world \<Rightarrow> (tx_status_t \<times> bytes list) \<times> world" where
  "write_set_get_keys tx w =
     (if write_set tx = [] then ((TX_OK, []), w)
      else case malloc w of (ok1, w) \<Rightarrow>
      case malloc w of (ok2, w) \<Rightarrow>
      (if \<not> ok1 \<or> \<not> ok2 then (TX_NO_MEMORY, []) else (TX_OK, map we_key (write_set tx)), w))"

section \<open>The write set as a map\<close>

text \<open>What a transaction wrote: \<open>None\<close> for a key it did not write, \<open>Some None\<close> for a deleted
  one.\<close>

definition entry_effect :: "write_entry \<Rightarrow> bytes option" where
  "entry_effect e = (if we_is_delete e then None else we_value e)"

definition pending :: "tx \<Rightarrow> bytes \<Rightarrow> bytes option option" where
  "pending tx = map_of (map (\<lambda>e. (we_key e, entry_effect e)) (write_set tx))"

definition entry_wf :: "write_entry \<Rightarrow> bool" where
  "entry_wf e \<longleftrightarrow> (if we_is_delete e then we_value e = None \<and> we_value_len e = 0
     else we_value e \<noteq> None \<and> we_value_len e = length (the (we_value e)))"

definition tx_wf :: "tx \<Rightarrow> bool" where
  "tx_wf tx \<longleftrightarrow> distinct (map we_key (write_set tx)) \<and> (\<forall>e \<in> set (write_set tx). entry_wf e) \<and>
     0 < write_capacity tx \<and> length (write_set tx) \<le> write_capacity tx"

lemma find_write_None: "find_write es key i = None \<longleftrightarrow> key \<notin> we_key ` set es"
  by (induction es key i rule: find_write.induct) auto

lemma find_write_Some:
  "find_write es key i = Some j \<Longrightarrow>
     i \<le> j \<and> j - i < length es \<and> we_key (es ! (j - i)) = key \<and> (\<forall>n < j - i. we_key (es ! n) \<noteq> key)"
proof (induction es key i rule: find_write.induct)
  case (1 key i)
  then show ?case by simp
next
  case (2 e es key i)
  show ?case
  proof (cases "we_key e = key")
    case True
    then show ?thesis using "2.prems" by simp
  next
    case False
    have "i + 1 \<le> j \<and> j - (i + 1) < length es \<and> we_key (es ! (j - (i + 1))) = key \<and>
        (\<forall>n < j - (i + 1). we_key (es ! n) \<noteq> key)"
      using "2.IH" [OF False] "2.prems" False by simp
    moreover from this have "j - i = Suc (j - (i + 1))" by linarith
    ultimately show ?thesis using False by (auto simp: less_Suc_eq_0_disj)
  qed
qed

lemma tx_find_write_None: "tx_find_write tx key = None \<longleftrightarrow> pending tx key = None"
  by (force simp: tx_find_write_def find_write_None pending_def map_of_eq_None_iff)

lemma tx_find_write_Some:
  assumes "tx_wf tx" and "tx_find_write tx key = Some i"
  shows "i < length (write_set tx)" and "we_key (write_set tx ! i) = key"
    and "pending tx key = Some (entry_effect (write_set tx ! i))"
proof -
  show i: "i < length (write_set tx)" "we_key (write_set tx ! i) = key"
    using find_write_Some [of "write_set tx" key 0 i] assms(2) by (auto simp: tx_find_write_def)
  have "(key, entry_effect (write_set tx ! i)) \<in> set (map (\<lambda>e. (we_key e, entry_effect e)) (write_set tx))"
    using i by auto
  then show "pending tx key = Some (entry_effect (write_set tx ! i))"
    using assms(1) unfolding pending_def by (intro map_of_is_SomeI) (simp_all add: tx_wf_def comp_def)
qed

lemma map_of_entry_update:
  assumes "distinct (map fst ps)" and "i < length ps" and "fst (ps ! i) = k"
  shows "map_of (ps[i := (k, v)]) = (map_of ps)(k \<mapsto> v)"
  using assms
proof (induction ps arbitrary: i)
  case Nil
  then show ?case by simp
next
  case (Cons p ps)
  show ?case
  proof (cases i)
    case 0
    then show ?thesis using Cons.prems by (cases p) (auto simp: fun_eq_iff)
  next
    case (Suc j)
    then have "fst p \<noteq> k" using Cons.prems nth_mem [of j ps] by fastforce
    then show ?thesis using Suc Cons by (cases p) (auto simp: fun_eq_iff)
  qed
qed

text \<open>A successful put or delete is an update of the pending writes; whatever the outcome, the write
  set stays well formed unless an update ran out of memory.\<close>

lemma tx_add_write_ok:
  assumes wf: "tx_wf tx" and mem: "alloc_ok w" and arg: "is_delete \<or> value \<noteq> None"
  shows "\<exists>tx'. tx_add_write tx key value is_delete w = (TX_OK, tx', w) \<and> tx_wf tx' \<and>
    pending tx' = (pending tx)(key \<mapsto> (if is_delete then None else value)) \<and>
    tx_id tx' = tx_id tx \<and> start_ts tx' = start_ts tx \<and> commit_ts tx' = commit_ts tx \<and> tx_state tx' = tx_state tx"
proof (cases "tx_find_write tx key")
  case (Some i)
  note at = tx_find_write_Some [OF wf Some]
  define e where "e = (write_set tx ! i)\<lparr>we_value := (if is_delete then None else value),
     we_value_len := (if is_delete then 0 else case value of None \<Rightarrow> 0 | Some v \<Rightarrow> length v), we_is_delete := is_delete\<rparr>"
  define tx' where "tx' = tx\<lparr>write_set := (write_set tx)[i := e]\<rparr>"
  have "tx_add_write tx key value is_delete w = (TX_OK, tx', w)"
    using Some mem arg by (auto simp: tx_add_write_def update_write_def Let_def tx'_def e_def)
  moreover have "map we_key (write_set tx') = map we_key (write_set tx)"
    using at(1) by (simp add: tx'_def map_update e_def list_update_id [of "map we_key (write_set tx)" i, simplified])
      (metis list_update_id map_update)
  moreover have "entry_wf e" using arg by (auto simp: entry_wf_def e_def)
  moreover have "pending tx' = (pending tx)(key \<mapsto> (if is_delete then None else value))"
    using map_of_entry_update [of "map (\<lambda>e. (we_key e, entry_effect e)) (write_set tx)" i key] wf at
    by (simp add: pending_def tx'_def map_update e_def entry_effect_def tx_wf_def comp_def)
  ultimately show ?thesis
    using wf at(1) by (auto simp: tx_wf_def tx'_def dest!: set_update_subset_insert [THEN subsetD])
next
  case None
  then have new: "key \<notin> we_key ` set (write_set tx)" by (simp add: tx_find_write_def find_write_None)
  define e where "e = \<lparr>we_key = key, we_value = (if is_delete then None else value),
     we_value_len = (if is_delete then 0 else case value of None \<Rightarrow> 0 | Some v \<Rightarrow> length v), we_is_delete = is_delete\<rparr>"
  define tx' where "tx' = tx\<lparr>write_set := write_set tx @ [e],
     write_capacity := (if length (write_set tx) \<ge> write_capacity tx then write_capacity tx * 2 else write_capacity tx)\<rparr>"
  have "tx_add_write tx key value is_delete w = (TX_OK, tx', w)"
    using None mem arg by (auto simp: tx_add_write_def append_write_def Let_def tx'_def e_def)
  moreover have "tx_wf tx'" using wf new arg by (auto simp: tx_wf_def tx'_def e_def entry_wf_def)
  moreover have "pending tx' = (pending tx)(key \<mapsto> (if is_delete then None else value))"
  proof -
    have "map_of (map (\<lambda>e. (we_key e, entry_effect e)) (write_set tx)) key = None"
      using None tx_find_write_None [of tx key] by (simp add: pending_def)
    then show ?thesis
      by (auto simp: pending_def tx'_def e_def entry_effect_def map_add_def fun_eq_iff split: option.split)
  qed
  ultimately show ?thesis by (simp add: tx'_def)
qed

end
