(* ===== verification/SE_Wal.thy ===== *)
theory SE_Wal
  imports SE_Keys Raft_Crc32
begin

text \<open>
  The write-ahead log of the storage engine (\<^verbatim>\<open>storage-engine/src/wal.c\<close>): records
  appended to a file, replayed by a callback. The checksum is that of
  \<^verbatim>\<open>storage-engine/src/crc32.c\<close>, whose code is that of
  \<^verbatim>\<open>consensus/src/crc32.c\<close> word for word, so its definitions are shared.

  A failing system call is one whose error is not \<^verbatim>\<open>EINTR\<close>; an interrupted call is
  repeated and leaves no trace.
\<close>

definition WAL_LENGTH_SIZE :: nat where "WAL_LENGTH_SIZE = 4"
definition WAL_CRC_SIZE :: nat where "WAL_CRC_SIZE = 4"
definition WAL_TYPE_SIZE :: nat where "WAL_TYPE_SIZE = 1"
definition WAL_KEYLEN_SIZE :: nat where "WAL_KEYLEN_SIZE = 4"
definition WAL_VALLEN_SIZE :: nat where "WAL_VALLEN_SIZE = 4"

lemmas wal_sizes [simp] = WAL_LENGTH_SIZE_def WAL_CRC_SIZE_def WAL_TYPE_SIZE_def WAL_KEYLEN_SIZE_def WAL_VALLEN_SIZE_def

definition WAL_RECORD_PUT :: u8 where "WAL_RECORD_PUT = 1"
definition WAL_RECORD_DELETE :: u8 where "WAL_RECORD_DELETE = 2"

record wal =
  wal_path :: string
  wal_file_size :: u64
  wal_sync_writes :: bool

section \<open>Whole writes and reads\<close>

text \<open>The file is open for appending: every write goes to its end.\<close>

function write_all :: "string \<Rightarrow> bytes \<Rightarrow> world \<Rightarrow> bool \<times> world" where
  "write_all p buf w =
     (if buf = [] then (True, w)
      else case sys_write p (length (file_bytes p w)) buf w of
        (None, w) \<Rightarrow> (False, w)
      | (Some written, w) \<Rightarrow> write_all p (drop written buf) w)"
  by pat_completeness auto
termination
  by (relation "measure (\<lambda>(p, buf, w). length buf + length (w_io w))")
    (auto simp: sys_write_def io_next_def split: list.splits io_outcome.splits)

declare write_all.simps [simp del]

text \<open>Up to \<open>n\<close> bytes from the unread rest of a file; \<open>None\<close> is -1.\<close>

definition read_some :: "bytes \<Rightarrow> nat \<Rightarrow> world \<Rightarrow> bytes option \<times> world" where
  "read_some rest n w =
     (case io_next w of (x, w) \<Rightarrow>
        (case x of
           Io_fail \<Rightarrow> None
         | Io_ok \<Rightarrow> Some (take n rest)
         | Io_short k \<Rightarrow> Some (take (min n k) rest), w))"

function read_all :: "bytes \<Rightarrow> nat \<Rightarrow> world \<Rightarrow> bytes option \<times> world" where
  "read_all rest n w =
     (if n = 0 then (Some [], w)
      else case read_some rest n w of
        (None, w) \<Rightarrow> (None, w)
      | (Some got, w) \<Rightarrow>
          if got = [] then (Some [], w)
          else case read_all (drop (length got) rest) (n - length got) w of
            (None, w) \<Rightarrow> (None, w)
          | (Some tail, w) \<Rightarrow> (Some (got @ tail), w))"
  by pat_completeness auto
termination
  by (relation "measure (\<lambda>(rest, n, w). n)") (auto simp: read_some_def split: prod.splits io_outcome.splits)

declare read_all.simps [simp del]

section \<open>Opening and appending\<close>

definition wal_open :: "string option \<Rightarrow> bool \<Rightarrow> world \<Rightarrow> wal option \<times> world" where
  "wal_open path sync_writes w =
     (case path of
        None \<Rightarrow> (None, w)
      | Some p \<Rightarrow>
          (case malloc w of (ok, w) \<Rightarrow>
           if \<not> ok then (None, w)
           else case malloc w of (ok, w) \<Rightarrow>
           if \<not> ok then (None, w)
           else case sys_open_create p w of (ok, w) \<Rightarrow>
           if \<not> ok then (None, w)
           else case sys_ok w of (ok, w) \<Rightarrow>
             (Some \<lparr>wal_path = p, wal_file_size = (if ok then of_nat (length (file_bytes p w)) else 0),
                    wal_sync_writes = sync_writes\<rparr>, w)))"

text \<open>The bytes of a record after the checksum, and the record.\<close>

definition wal_record_body :: "u8 \<Rightarrow> bytes \<Rightarrow> bytes \<Rightarrow> bytes" where
  "wal_record_body type key val =
     type # le_bytes 4 (of_nat (length key) :: u32) @ key @ le_bytes 4 (of_nat (length val) :: u32) @ val"

definition wal_record_bytes :: "u8 \<Rightarrow> bytes \<Rightarrow> bytes \<Rightarrow> bytes" where
  "wal_record_bytes type key val =
     (let record_size = WAL_CRC_SIZE + WAL_TYPE_SIZE + WAL_KEYLEN_SIZE + length key + WAL_VALLEN_SIZE + length val
      in le_bytes 4 (of_nat record_size :: u32) @ le_bytes 4 (crc32 (wal_record_body type key val)) @
         wal_record_body type key val)"

text \<open>The key pointer is not null: \<open>key\<close> may be empty. A value of length 0 is not copied.\<close>

definition wal_write_record ::
  "wal \<Rightarrow> u8 \<Rightarrow> bytes \<Rightarrow> bytes \<Rightarrow> world \<Rightarrow> status_t \<times> wal \<times> world"
where
  "wal_write_record wal type key val w =
     (case malloc w of (ok, w) \<Rightarrow>
      if \<not> ok then (STATUS_NO_MEMORY, wal, w)
      else
        let buf = wal_record_bytes type key val
        in case write_all (wal_path wal) buf w of (ok, w) \<Rightarrow>
           if \<not> ok then (STATUS_IO_ERROR, wal, w)
           else
             let wal = wal\<lparr>wal_file_size := wal_file_size wal + of_nat (length buf)\<rparr>
             in if wal_sync_writes wal
                then case sys_ok w of (ok, w) \<Rightarrow> (if ok then STATUS_OK else STATUS_IO_ERROR, wal, w)
                else (STATUS_OK, wal, w))"

definition wal_write_put :: "wal \<Rightarrow> bytes \<Rightarrow> bytes \<Rightarrow> world \<Rightarrow> status_t \<times> wal \<times> world" where
  "wal_write_put wal key val w = wal_write_record wal WAL_RECORD_PUT key val w"

definition wal_write_delete :: "wal \<Rightarrow> bytes \<Rightarrow> world \<Rightarrow> status_t \<times> wal \<times> world" where
  "wal_write_delete wal key w = wal_write_record wal WAL_RECORD_DELETE key [] w"

definition wal_sync :: "wal \<Rightarrow> world \<Rightarrow> status_t \<times> world" where
  "wal_sync wal w = (case sys_ok w of (ok, w) \<Rightarrow> (if ok then STATUS_OK else STATUS_IO_ERROR, w))"

definition wal_truncate :: "wal \<Rightarrow> world \<Rightarrow> status_t \<times> wal \<times> world" where
  "wal_truncate wal w =
     (case sys_ftruncate (wal_path wal) 0 w of (ok, w) \<Rightarrow>
      if \<not> ok then (STATUS_IO_ERROR, wal, w)
      else case sys_ok w of (ok, w) \<Rightarrow>
      if \<not> ok then (STATUS_IO_ERROR, wal, w)
      else (STATUS_OK, wal\<lparr>wal_file_size := 0\<rparr>, w))"

section \<open>Replay\<close>

text \<open>The callback gets the context, the type byte, the key and the value (null when empty); its
  result is an option like that of every operation that may have undefined behaviour.\<close>

type_synonym 'c wal_recover_fn = "'c \<Rightarrow> u8 \<Rightarrow> bytes \<Rightarrow> bytes option \<Rightarrow> world \<Rightarrow> (status_t \<times> 'c \<times> world) option"

text \<open>A record with a valid checksum whose lengths do not fit in it makes the code read outside its
  buffer: \<open>None\<close>.\<close>

definition wal_parse :: "bytes \<Rightarrow> (u8 \<times> bytes \<times> bytes option) option" where
  "wal_parse record =
     (let key_len = unat (le_word (take 4 (drop 5 record)) :: u32);
          val_len = unat (le_word (take 4 (drop (9 + key_len) record)) :: u32)
      in if 9 + key_len + 4 \<le> length record \<and> 13 + key_len + val_len \<le> length record
         then Some (record ! 4, take key_len (drop 9 record),
                    if val_len > 0 then Some (take val_len (drop (13 + key_len) record)) else None)
         else None)"

function wal_replay ::
  "'c wal_recover_fn \<Rightarrow> 'c \<Rightarrow> bytes \<Rightarrow> world \<Rightarrow> (status_t \<times> 'c \<times> world) option"
where
  "wal_replay fn ctx rest w =
     (case read_all rest WAL_LENGTH_SIZE w of
        (None, w) \<Rightarrow> Some (STATUS_OK, ctx, w)
      | (Some header, w) \<Rightarrow>
        if length header \<noteq> WAL_LENGTH_SIZE then Some (STATUS_OK, ctx, w)
        else
          let record_len = unat (le_word header :: u32) in
          if record_len < WAL_CRC_SIZE + WAL_TYPE_SIZE + WAL_KEYLEN_SIZE + WAL_VALLEN_SIZE
          then Some (STATUS_CORRUPTION, ctx, w)
          else case malloc w of (ok, w) \<Rightarrow>
          if \<not> ok then Some (STATUS_NO_MEMORY, ctx, w)
          else case read_all (drop WAL_LENGTH_SIZE rest) record_len w of
            (None, w) \<Rightarrow> Some (STATUS_OK, ctx, w)
          | (Some record, w) \<Rightarrow>
            if length record \<noteq> record_len then Some (STATUS_OK, ctx, w)
            else if (le_word (take 4 record) :: u32) \<noteq> crc32 (drop 4 record) then Some (STATUS_CORRUPTION, ctx, w)
            else do {
              (type, key, val) \<leftarrow> wal_parse record;
              (result, ctx, w) \<leftarrow> fn ctx type key val w;
              if result \<noteq> STATUS_OK then Some (result, ctx, w)
              else wal_replay fn ctx (drop (WAL_LENGTH_SIZE + record_len) rest) w
            })"
  by pat_completeness auto

lemma read_some_prefix: "read_some rest n w = (Some got, w') \<Longrightarrow> length got \<le> n \<and> length got \<le> length rest"
  by (auto simp: read_some_def split: prod.splits io_outcome.splits)

lemma read_all_length: "read_all rest n w = (Some got, w') \<Longrightarrow> length got \<le> length rest"
proof (induction rest n w arbitrary: got w' rule: read_all.induct)
  case (1 rest n w)
  show ?case
  proof (cases "n = 0")
    case True
    then show ?thesis using "1.prems" by (simp add: read_all.simps)
  next
    case False
    obtain r v where r: "read_some rest n w = (r, v)" by fastforce
    then show ?thesis
      using "1.prems" False read_some_prefix [of rest n w _ v] "1.IH" [OF False r [symmetric]]
      by (subst (asm) read_all.simps) (fastforce split: option.splits if_splits prod.splits)
  qed
qed

termination wal_replay
  by (relation "measure (\<lambda>(fn, ctx, rest, w). length rest)") (auto dest!: sym [of _ "read_all _ _ _"] read_all_length)

declare wal_replay.simps [simp del]

definition wal_recover ::
  "string option \<Rightarrow> 'c wal_recover_fn \<Rightarrow> 'c \<Rightarrow> world \<Rightarrow> (status_t \<times> 'c \<times> world) option"
where
  "wal_recover path fn ctx w =
     (case path of
        None \<Rightarrow> Some (STATUS_INVALID_ARG, ctx, w)
      | Some p \<Rightarrow>
          (case sys_open_read p w of
             (Open_enoent, w) \<Rightarrow> Some (STATUS_OK, ctx, w)
           | (Open_error, w) \<Rightarrow> Some (STATUS_IO_ERROR, ctx, w)
           | (Open_ok, w) \<Rightarrow> wal_replay fn ctx (file_bytes p w) w))"

section \<open>Appending and replaying in a quiet world\<close>

lemma read_all_quiet [simp]: "io_ok w \<Longrightarrow> read_all rest n w = (Some (take n rest), w)"
proof (induction n arbitrary: rest rule: less_induct)
  case (less n)
  show ?case
  proof (cases "n = 0 \<or> rest = []")
    case True
    then show ?thesis using less.prems by (subst read_all.simps) (auto simp: read_some_def)
  next
    case False
    then have "read_all (drop (length (take n rest)) rest) (n - length (take n rest)) w =
        (Some (take (n - length (take n rest)) (drop (length (take n rest)) rest)), w)"
      by (intro less.IH) (use less.prems in auto)
    then show ?thesis using False less.prems by (subst read_all.simps) (simp add: read_some_def min_def split: if_splits)
  qed
qed

lemma write_all_quiet:
  assumes "io_ok w" and "buf \<noteq> []"
  shows "write_all p buf w = (True, w\<lparr>w_fs := (w_fs w)(p \<mapsto> file_bytes p w @ buf)\<rparr>)"
  using assms by (subst write_all.simps) (simp add: write_all.simps [of _ "[]"])

lemma length_wal_record_body [simp]: "length (wal_record_body t k v) = 9 + length k + length v"
  by (simp add: wal_record_body_def)

lemma length_wal_record [simp]: "length (wal_record_bytes t k v) = 17 + length k + length v"
  by (simp add: wal_record_bytes_def)

lemma wal_record_ne [simp]: "wal_record_bytes t k v \<noteq> []"
  by (metis length_wal_record add_is_0 list.size(3) zero_neq_numeral)

lemma wal_write_record_quiet:
  assumes "alloc_ok w" and "io_ok w"
  shows "wal_write_record wal t k v w =
    (STATUS_OK, wal\<lparr>wal_file_size := wal_file_size wal + of_nat (17 + length k + length v)\<rparr>,
     w\<lparr>w_fs := (w_fs w)(wal_path wal \<mapsto> file_bytes (wal_path wal) w @ wal_record_bytes t k v)\<rparr>)"
  using assms by (simp add: wal_write_record_def write_all_quiet Let_def)

text \<open>Records whose lengths fit in 32 bits, and the image of a list of them.\<close>

definition wal_entry_ok :: "u8 \<times> bytes \<times> bytes \<Rightarrow> bool" where
  "wal_entry_ok e \<longleftrightarrow> (case e of (t, k, v) \<Rightarrow> 13 + length k + length v < 2 ^ 32)"

definition wal_image :: "(u8 \<times> bytes \<times> bytes) list \<Rightarrow> bytes" where
  "wal_image es = concat (map (\<lambda>(t, k, v). wal_record_bytes t k v) es)"

text \<open>What is left of a record when a crash cuts its write short.\<close>

definition wal_torn :: "bytes \<Rightarrow> bool" where
  "wal_torn tail \<longleftrightarrow> (\<exists>t k v n. wal_entry_ok (t, k, v) \<and> n < length (wal_record_bytes t k v) \<and>
     tail = take n (wal_record_bytes t k v))"

lemma wal_torn_Nil [simp]: "wal_torn []"
  unfolding wal_torn_def by (rule exI [of _ 0], rule exI [of _ "[]"], rule exI [of _ "[]"], rule exI [of _ 0])
    (simp add: wal_entry_ok_def)

lemma wal_parse_record:
  assumes "wal_entry_ok (t, k, v)"
  shows "wal_parse (le_bytes 4 c @ wal_record_body t k v) = Some (t, k, if v = [] then None else Some v)"
proof -
  have len: "unat (of_nat (length k) :: u32) = length k" "unat (of_nat (length v) :: u32) = length v"
    using assms by (simp_all add: wal_entry_ok_def unat_of_nat)
  let ?r = "le_bytes 4 c @ wal_record_body t k v"
  have "take 4 (drop 5 ?r) = le_bytes 4 (of_nat (length k) :: u32)"
    "take 4 (drop (9 + length k) ?r) = le_bytes 4 (of_nat (length v) :: u32)"
    "take (length k) (drop 9 ?r) = k" "take (length v) (drop (13 + length k) ?r) = v" "?r ! 4 = t"
    by (simp_all add: wal_record_body_def nth_append drop_Cons')
  then show ?thesis by (simp add: wal_parse_def Let_def len)
qed

definition quiet :: "world \<Rightarrow> bool" where
  "quiet w \<longleftrightarrow> alloc_ok w \<and> io_ok w"

lemma quietD: "quiet w \<Longrightarrow> alloc_ok w" "quiet w \<Longrightarrow> io_ok w"
  by (simp_all add: quiet_def)

text \<open>Bytes that replay takes for an incomplete record: fewer than a length field, or fewer than the
  length field promises. A torn record is incomplete, and stays so when a few more bytes follow.\<close>

definition wal_incomplete :: "bytes \<Rightarrow> bool" where
  "wal_incomplete tail \<longleftrightarrow> length tail < 4 \<or>
     (let n = unat (le_word (take 4 tail) :: u32) in 13 \<le> n \<and> length tail < 4 + n)"

lemma wal_record_length_field:
  assumes "wal_entry_ok (t, k, v)" and "4 \<le> n"
  shows "unat (le_word (take 4 (take n (wal_record_bytes t k v) @ rest)) :: u32) = 13 + length k + length v"
proof -
  let ?len = "of_nat (13 + length k + length v) :: u32"
  have "take 4 (take n (wal_record_bytes t k v) @ rest) = le_bytes 4 ?len"
    using assms(2) by (simp add: wal_record_bytes_def min_def Let_def add.assoc)
  moreover have "unat ?len = 13 + length k + length v"
    using assms(1) by (simp only: wal_entry_ok_def unat_of_nat prod.case) simp
  ultimately show ?thesis by (simp del: of_nat_add)
qed

lemma wal_torn_incomplete: "wal_torn tail \<Longrightarrow> wal_incomplete tail"
proof -
  assume "wal_torn tail"
  then obtain t k v n where tail: "wal_entry_ok (t, k, v)" "n < 17 + length k + length v"
    "tail = take n (wal_record_bytes t k v)"
    by (auto simp: wal_torn_def)
  show ?thesis
    using wal_record_length_field [OF tail(1), of n "[]"] tail(2) by (auto simp: wal_incomplete_def tail(3) Let_def)
qed

lemma wal_swallow_incomplete:
  assumes "wal_entry_ok (t, k, v)" and "4 \<le> n" and "n + length later < length (wal_record_bytes t k v)"
  shows "wal_incomplete (take n (wal_record_bytes t k v) @ later)"
  using wal_record_length_field [OF assms(1,2), of later] assms(2,3) by (simp add: wal_incomplete_def Let_def)

lemma wal_replay_incomplete:
  assumes "quiet w" and "wal_incomplete tail"
  shows "wal_replay fn ctx tail w = Some (STATUS_OK, ctx, w)"
proof (cases "length tail < 4")
  case True
  then show ?thesis using assms(1) by (subst wal_replay.simps) (simp add: quietD)
next
  case False
  define n where "n = unat (le_word (take 4 tail) :: u32)"
  have n: "13 \<le> n" "length tail - 4 < n" using assms(2) False by (auto simp: wal_incomplete_def n_def Let_def)
  have "length (take 4 tail) = 4" using False by simp
  then show ?thesis
    using assms(1) n by (subst wal_replay.simps) (simp add: quietD Let_def n_def [symmetric])
qed

lemma wal_replay_record:
  assumes "quiet w" and ok: "wal_entry_ok (t, k, v)"
  shows "wal_replay fn ctx (wal_record_bytes t k v @ rest) w = do {
    (r, ctx, w) \<leftarrow> fn ctx t k (if v = [] then None else Some v) w;
    if r \<noteq> STATUS_OK then Some (r, ctx, w) else wal_replay fn ctx rest w }"
proof -
  let ?len = "of_nat (13 + length k + length v) :: u32"
  let ?r = "le_bytes 4 (crc32 (wal_record_body t k v)) @ wal_record_body t k v"
  have bytes: "wal_record_bytes t k v = le_bytes 4 ?len @ ?r"
    by (simp add: wal_record_bytes_def Let_def add.assoc)
  have len: "unat ?len = 13 + length k + length v"
    using ok by (simp only: wal_entry_ok_def unat_of_nat prod.case) simp
  have lenr: "length ?r = 13 + length k + length v" by simp
  have "take (13 + length k + length v) (?r @ rest) = ?r"
    "drop (13 + length k + length v) (?r @ rest) = rest"
    by (simp_all only: lenr [symmetric] take_append drop_append) simp_all
  moreover have "take 4 ?r = le_bytes 4 (crc32 (wal_record_body t k v))" "drop 4 ?r = wal_record_body t k v"
    by simp_all
  ultimately show ?thesis
    unfolding bytes append_assoc
    using assms(1) len lenr wal_parse_record [OF ok, of "crc32 (wal_record_body t k v)"]
    by (subst wal_replay.simps) (simp add: quietD Let_def cong: if_cong del: of_nat_add append_assoc)
qed

section \<open>What a log client relies on\<close>

text \<open>A callback that leaves a quiet world quiet. Replaying a file is then folding the callback over
  the records in it, whatever part of one more record follows them.\<close>

primrec replay_fold :: "'c wal_recover_fn \<Rightarrow> 'c \<Rightarrow> (u8 \<times> bytes \<times> bytes) list \<Rightarrow> world \<Rightarrow> (status_t \<times> 'c \<times> world) option" where
  "replay_fold fn ctx [] w = Some (STATUS_OK, ctx, w)"
| "replay_fold fn ctx (e # es) w = (case e of (t, k, v) \<Rightarrow> do {
     (r, ctx, w) \<leftarrow> fn ctx t k (if v = [] then None else Some v) w;
     if r \<noteq> STATUS_OK then Some (r, ctx, w) else replay_fold fn ctx es w })"

locale wal_client =
  fixes fn :: "'c wal_recover_fn"
  assumes fn_quiet: "fn ctx t k v w = Some (r, ctx', w') \<Longrightarrow> quiet w \<Longrightarrow> quiet w'"
begin

lemma replay_image:
  assumes "quiet w" and "\<forall>e \<in> set es. wal_entry_ok e" and "wal_incomplete tail"
  shows "wal_replay fn ctx (wal_image es @ tail) w = replay_fold fn ctx es w"
  using assms(1,2)
proof (induction es arbitrary: ctx w)
  case Nil
  then show ?case by (simp add: wal_image_def wal_replay_incomplete assms(3))
next
  case (Cons e es)
  obtain t k v where e: "e = (t, k, v)" by (cases e)
  have ok: "wal_entry_ok (t, k, v)" using Cons.prems e by simp
  have img: "wal_image (e # es) @ tail = wal_record_bytes t k v @ (wal_image es @ tail)"
    by (simp add: wal_image_def e)
  show ?case
    unfolding img wal_replay_record [OF Cons.prems(1) ok] unfolding e replay_fold.simps prod.case
    by (intro Option.bind_cong refl) (auto simp: Cons.IH Cons.prems dest: fn_quiet [OF _ Cons.prems(1)])
qed

end

end
