(* ===== verification/Tx_Wal.thy ===== *)
theory Tx_Wal
  imports Tx_Core SE_Wal
begin

text \<open>
  The transaction log (\<^verbatim>\<open>tx-manager/src/tx_wal.c\<close>) and the scan of it at recovery
  (\<^verbatim>\<open>recovery.c\<close>). A record is a header of 32 bytes (\<^verbatim>\<open>tx_wal_header_t\<close> with
  four bytes of padding behind the type, written as zeros here and ignored by the reader), then the
  data. The checksum is that of the storage engine.
\<close>

definition TX_WAL_FILENAME :: string where "TX_WAL_FILENAME = ''tx.wal''"

definition MAX_TRACKED_TXS :: nat where "MAX_TRACKED_TXS = 1024"

definition TX_WAL_BEGIN :: u32 where "TX_WAL_BEGIN = 1"
definition TX_WAL_WRITE :: u32 where "TX_WAL_WRITE = 2"
definition TX_WAL_COMMIT :: u32 where "TX_WAL_COMMIT = 3"
definition TX_WAL_ABORT :: u32 where "TX_WAL_ABORT = 4"

record tx_wal_header =
  th_type :: u32
  th_tx_id :: u64
  th_timestamp :: u64
  th_data_len :: u32
  th_checksum :: u32

definition TX_WAL_HEADER_SIZE :: nat where "TX_WAL_HEADER_SIZE = 32"

definition header_bytes :: "tx_wal_header \<Rightarrow> bytes" where
  "header_bytes h =
     le_bytes 4 (th_type h) @ [0, 0, 0, 0] @ le_bytes 8 (th_tx_id h) @ le_bytes 8 (th_timestamp h) @
     le_bytes 4 (th_data_len h) @ le_bytes 4 (th_checksum h)"

definition header_of :: "bytes \<Rightarrow> tx_wal_header" where
  "header_of bs =
     \<lparr>th_type = le_word (take 4 bs), th_tx_id = le_word (take 8 (drop 8 bs)),
      th_timestamp = le_word (take 8 (drop 16 bs)), th_data_len = le_word (take 4 (drop 24 bs)),
      th_checksum = le_word (take 4 (drop 28 bs))\<rparr>"

definition header_crc :: "tx_wal_header \<Rightarrow> u32" where
  "header_crc h =
     (let crc = crc32_update 0 (le_bytes 4 (th_type h));
          crc = crc32_update crc (le_bytes 8 (th_tx_id h));
          crc = crc32_update crc (le_bytes 8 (th_timestamp h))
      in crc32_update crc (le_bytes 4 (th_data_len h)))"

section \<open>Writing\<close>

definition tx_wal_path :: "string \<Rightarrow> string" where
  "tx_wal_path path = path @ ''/'' @ TX_WAL_FILENAME"

text \<open>An open log is its path.\<close>

definition tx_wal_open :: "string \<Rightarrow> world \<Rightarrow> string option \<times> world" where
  "tx_wal_open path w =
     (case malloc w of (ok, w) \<Rightarrow>
      if \<not> ok then (None, w)
      else case malloc w of (ok, w) \<Rightarrow>
      if \<not> ok then (None, w)
      else case sys_open_create (tx_wal_path path) w of (ok, w) \<Rightarrow>
        (if ok then Some (tx_wal_path path) else None, w))"

definition record_header :: "u32 \<Rightarrow> u64 \<Rightarrow> u64 \<Rightarrow> bytes \<Rightarrow> tx_wal_header" where
  "record_header type i ts data =
     (let h = \<lparr>th_type = type, th_tx_id = i, th_timestamp = ts, th_data_len = of_nat (length data), th_checksum = 0\<rparr>;
          crc = header_crc h;
          crc = (if data \<noteq> [] then crc32_update crc data else crc)
      in h\<lparr>th_checksum := crc\<rparr>)"

definition write_record :: "string \<Rightarrow> u32 \<Rightarrow> u64 \<Rightarrow> u64 \<Rightarrow> bytes \<Rightarrow> world \<Rightarrow> tx_status_t \<times> world" where
  "write_record p type i ts data w =
     (case sys_write p (length (file_bytes p w)) (header_bytes (record_header type i ts data)) w of (n, w) \<Rightarrow>
      if n \<noteq> Some TX_WAL_HEADER_SIZE then (TX_IO_ERROR, w)
      else if data = [] then (TX_OK, w)
      else case sys_write p (length (file_bytes p w)) data w of (n, w) \<Rightarrow>
        (if n \<noteq> Some (length data) then TX_IO_ERROR else TX_OK, w))"

definition tx_wal_log_begin :: "string \<Rightarrow> tx \<Rightarrow> world \<Rightarrow> tx_status_t \<times> world" where
  "tx_wal_log_begin p tx w = write_record p TX_WAL_BEGIN (tx_id tx) (start_ts tx) [] w"

definition tx_wal_log_commit :: "string \<Rightarrow> tx \<Rightarrow> world \<Rightarrow> tx_status_t \<times> world" where
  "tx_wal_log_commit p tx w = write_record p TX_WAL_COMMIT (tx_id tx) (commit_ts tx) [] w"

definition tx_wal_log_abort :: "string \<Rightarrow> tx \<Rightarrow> world \<Rightarrow> tx_status_t \<times> world" where
  "tx_wal_log_abort p tx w = write_record p TX_WAL_ABORT (tx_id tx) 0 [] w"

definition tx_wal_log_write :: "string \<Rightarrow> tx \<Rightarrow> bytes \<Rightarrow> bytes \<Rightarrow> bool \<Rightarrow> world \<Rightarrow> tx_status_t \<times> world" where
  "tx_wal_log_write p tx key value is_delete w =
     (case malloc w of (ok, w) \<Rightarrow>
      if \<not> ok then (TX_NO_MEMORY, w)
      else write_record p TX_WAL_WRITE (tx_id tx) 0
             (le_bytes 4 (of_nat (length key) :: u32) @ key @ le_bytes 4 (of_nat (length value) :: u32) @ value @
              [if is_delete then 1 else 0]) w)"

definition tx_wal_sync :: "string \<Rightarrow> world \<Rightarrow> tx_status_t \<times> world" where
  "tx_wal_sync p w = (case sys_ok w of (ok, w) \<Rightarrow> (if ok then TX_OK else TX_IO_ERROR, w))"

section \<open>Scanning\<close>

record tx_track =
  tr_tx_id :: u64
  tr_committed :: bool
  tr_aborted :: bool

record tx_recovery_result =
  rr_max_tx_id :: u64
  rr_max_ts :: u64
  rr_committed_count :: nat
  rr_aborted_count :: nat

definition no_recovery :: tx_recovery_result where
  "no_recovery = \<lparr>rr_max_tx_id = 0, rr_max_ts = 0, rr_committed_count = 0, rr_aborted_count = 0\<rparr>"

fun track_index :: "tx_track list \<Rightarrow> u64 \<Rightarrow> nat \<Rightarrow> nat option" where
  "track_index [] i n = None"
| "track_index (t # ts) i n = (if tr_tx_id t = i then Some n else track_index ts i (n + 1))"

definition find_or_add_tx :: "tx_track list \<Rightarrow> u64 \<Rightarrow> nat option \<times> tx_track list" where
  "find_or_add_tx tracked i =
     (case track_index tracked i 0 of
        Some n \<Rightarrow> (Some n, tracked)
      | None \<Rightarrow>
          if length tracked < MAX_TRACKED_TXS
          then (Some (length tracked), tracked @ [\<lparr>tr_tx_id = i, tr_committed = False, tr_aborted = False\<rparr>])
          else (None, tracked))"

definition process_record ::
  "tx_wal_header \<Rightarrow> tx_track list \<times> tx_recovery_result \<Rightarrow> tx_track list \<times> tx_recovery_result"
where
  "process_record h s =
     (case s of (tracked, res) \<Rightarrow>
      let res = (if th_tx_id h > rr_max_tx_id res then res\<lparr>rr_max_tx_id := th_tx_id h\<rparr> else res);
          res = (if th_timestamp h > rr_max_ts res then res\<lparr>rr_max_ts := th_timestamp h\<rparr> else res)
      in case find_or_add_tx tracked (th_tx_id h) of
           (None, tracked) \<Rightarrow> (tracked, res)
         | (Some n, tracked) \<Rightarrow>
             if th_type h = TX_WAL_COMMIT
             then (tracked[n := (tracked ! n)\<lparr>tr_committed := True\<rparr>], res\<lparr>rr_committed_count := rr_committed_count res + 1\<rparr>)
             else if th_type h = TX_WAL_ABORT
             then (tracked[n := (tracked ! n)\<lparr>tr_aborted := True\<rparr>], res\<lparr>rr_aborted_count := rr_aborted_count res + 1\<rparr>)
             else (tracked, res))"

function scan_records ::
  "tx_track list \<times> tx_recovery_result \<Rightarrow> bytes \<Rightarrow> world \<Rightarrow> (tx_track list \<times> tx_recovery_result) \<times> world"
where
  "scan_records s rest w =
     (case read_some rest TX_WAL_HEADER_SIZE w of (r, w) \<Rightarrow>
      case r of None \<Rightarrow> (s, w) | Some bs \<Rightarrow>
      if length bs \<noteq> TX_WAL_HEADER_SIZE then (s, w)
      else
        let h = header_of bs; n = unat (th_data_len h); crc = header_crc h
        in if n > 0
           then case malloc w of (ok, w) \<Rightarrow>
             if \<not> ok then (s, w)
             else case read_some (drop TX_WAL_HEADER_SIZE rest) n w of (r, w) \<Rightarrow>
             case r of None \<Rightarrow> (s, w) | Some data \<Rightarrow>
             if length data \<noteq> n then (s, w)
             else if crc32_update crc data \<noteq> th_checksum h then (s, w)
             else scan_records (process_record h s) (drop (TX_WAL_HEADER_SIZE + n) rest) w
           else if crc \<noteq> th_checksum h then (s, w)
           else scan_records (process_record h s) (drop TX_WAL_HEADER_SIZE rest) w)"
  by pat_completeness auto
termination
  by (relation "measure (\<lambda>(s, rest, w). length rest)")
    (auto simp: TX_WAL_HEADER_SIZE_def dest!: sym [of _ "read_some _ _ _"] read_some_prefix)

declare scan_records.simps [simp del]

section \<open>Scanning reads back what was written\<close>

type_synonym tx_record = "u32 \<times> u64 \<times> u64 \<times> bytes"

definition tx_record_bytes :: "tx_record \<Rightarrow> bytes" where
  "tx_record_bytes r = (case r of (t, i, ts, d) \<Rightarrow> header_bytes (record_header t i ts d) @ d)"

definition tx_record_ok :: "tx_record \<Rightarrow> bool" where
  "tx_record_ok r \<longleftrightarrow> (case r of (t, i, ts, d) \<Rightarrow> length d < 2 ^ 32)"

definition tx_image :: "tx_record list \<Rightarrow> bytes" where
  "tx_image rs = concat (map tx_record_bytes rs)"

lemma length_header_bytes [simp]: "length (header_bytes h) = 32"
  by (simp add: header_bytes_def)

lemma header_codec: "header_of (header_bytes h) = h"
  by (simp add: header_of_def header_bytes_def)

lemma write_record_quiet:
  assumes "io_ok w"
  shows "write_record p t i ts d w =
    (TX_OK, w\<lparr>w_fs := (w_fs w)(p \<mapsto> file_bytes p w @ tx_record_bytes (t, i, ts, d))\<rparr>)"
  using assms by (auto simp: write_record_def TX_WAL_HEADER_SIZE_def tx_record_bytes_def file_bytes_def)

lemma scan_record:
  assumes "quiet w" and "tx_record_ok r"
  shows "scan_records s (tx_record_bytes r @ rest) w =
    scan_records (process_record (case r of (t, i, ts, d) \<Rightarrow> record_header t i ts d) s) rest w"
proof -
  obtain t i ts d where r: "r = (t, i, ts, d)" by (cases r)
  let ?h = "record_header t i ts d"
  have len: "unat (th_data_len ?h) = length d"
    using assms(2) by (simp add: r tx_record_ok_def record_header_def Let_def unat_of_nat)
  have crc: "th_checksum ?h = (if d \<noteq> [] then crc32_update (header_crc ?h) d else header_crc ?h)"
    by (simp add: record_header_def Let_def header_crc_def)
  have rd: "read_some xs n w = (Some (take n xs), w)" for xs n
    using assms(1) by (simp add: read_some_def quietD)
  show ?thesis
    unfolding r tx_record_bytes_def prod.case
    using assms(1) len crc by (subst scan_records.simps)
      (auto simp: rd header_codec TX_WAL_HEADER_SIZE_def quietD Let_def)
qed

text \<open>Too few bytes for a header end the scan.\<close>

lemma scan_short: "quiet w \<Longrightarrow> length tail < 32 \<Longrightarrow> scan_records s tail w = (s, w)"
  by (subst scan_records.simps) (simp add: read_some_def quietD TX_WAL_HEADER_SIZE_def)

lemma scan_image:
  assumes "quiet w" and "\<forall>r \<in> set rs. tx_record_ok r" and "length tail < 32"
  shows "scan_records s (tx_image rs @ tail) w =
    (foldl (\<lambda>s (t, i, ts, d). process_record (record_header t i ts d) s) s rs, w)"
  using assms(2)
proof (induction rs arbitrary: s)
  case Nil
  then show ?case by (simp add: tx_image_def scan_short assms(1,3))
next
  case (Cons r rs)
  have "tx_image (r # rs) @ tail = tx_record_bytes r @ (tx_image rs @ tail)" by (simp add: tx_image_def)
  then show ?case using Cons scan_record [OF assms(1), of r s "tx_image rs @ tail"] by (cases r) simp
qed

text \<open>The maxima dominate what the records held.\<close>

lemma process_record_max:
  assumes "process_record h (tr, res) = (tr', res')"
  shows "rr_max_tx_id res' = max (rr_max_tx_id res) (th_tx_id h)" and "rr_max_ts res' = max (rr_max_ts res) (th_timestamp h)"
  using assms by (auto simp: process_record_def Let_def max_def split: prod.splits option.splits if_splits)

lemma scan_max:
  assumes "foldl (\<lambda>s (t, i, ts, d). process_record (record_header t i ts d) s) (tr, res) rs = (tr', res')"
  shows "rr_max_tx_id res' = foldl max (rr_max_tx_id res) (map (\<lambda>(t, i, ts, d). i) rs)"
    and "rr_max_ts res' = foldl max (rr_max_ts res) (map (\<lambda>(t, i, ts, d). ts) rs)"
proof -
  have "rr_max_tx_id res' = foldl max (rr_max_tx_id res) (map (\<lambda>(t, i, ts, d). i) rs) \<and>
    rr_max_ts res' = foldl max (rr_max_ts res) (map (\<lambda>(t, i, ts, d). ts) rs)"
    using assms
  proof (induction rs arbitrary: tr res)
    case Nil
    then show ?case by simp
  next
    case (Cons r rs)
    obtain t i ts d where r: "r = (t, i, ts, d)" by (cases r)
    obtain tr1 res1 where s: "process_record (record_header t i ts d) (tr, res) = (tr1, res1)" by fastforce
    have "th_tx_id (record_header t i ts d) = i" "th_timestamp (record_header t i ts d) = ts"
      by (simp_all add: record_header_def Let_def)
    then show ?case using Cons.IH [of tr1 res1] Cons.prems s process_record_max [OF s] by (simp add: r)
  qed
  then show "rr_max_tx_id res' = foldl max (rr_max_tx_id res) (map (\<lambda>(t, i, ts, d). i) rs)"
    "rr_max_ts res' = foldl max (rr_max_ts res) (map (\<lambda>(t, i, ts, d). ts) rs)" by blast+
qed

lemma foldl_max_bounds: "a \<le> foldl max a xs \<and> (\<forall>x \<in> set xs. (x :: 'a::linorder) \<le> foldl max a xs)"
proof (induction xs arbitrary: a)
  case Nil
  then show ?case by simp
next
  case (Cons y ys)
  have "a \<le> foldl max (max a y) ys \<and> y \<le> foldl max (max a y) ys"
    using Cons.IH [of "max a y"] by (meson max.boundedE)
  then show ?case using Cons.IH [of "max a y"] by simp
qed

end
