(* ===== verification/SE_Skiplist.thy ===== *)
theory SE_Skiplist
  imports SE_Keys
begin

text \<open>
  The skip list (\<^verbatim>\<open>storage-engine/src/skiplist.c\<close>).

  The nodes live in a list, the heap of this skip list: an address is a position in it and address
  0 is the header. Nodes are never moved or freed while the list exists. A pointer is an
  \<open>nat option\<close>, \<open>None\<close> for null. Following a dangling pointer or indexing a
  \<^verbatim>\<open>forward\<close> array outside its length is \<open>None\<close> of the outer option, and so is a
  walk that never ends.
\<close>

section \<open>The structure\<close>

definition SKIPLIST_MAX_LEVEL :: nat where "SKIPLIST_MAX_LEVEL = 12"

definition RAND_MAX :: nat where "RAND_MAX = 2147483647"

record skiplist_node =
  sn_key :: bytes
  sn_value :: "bytes option"
  sn_value_len :: nat
  sn_deleted :: bool
  sn_level :: nat
  sn_forward :: "nat option list"

record skiplist =
  sl_nodes :: "skiplist_node list"
  sl_level :: nat
  sl_count :: nat
  sl_memory_usage :: u64
  sl_compare :: compare_fn

text \<open>Sizes on LP64: the list header, a node, a pointer.\<close>

definition SIZEOF_SKIPLIST :: nat where "SIZEOF_SKIPLIST = 40"
definition SIZEOF_SKIPLIST_NODE :: nat where "SIZEOF_SKIPLIST_NODE = 48"
definition SIZEOF_POINTER :: nat where "SIZEOF_POINTER = 8"

lemmas skiplist_params [simp] = SKIPLIST_MAX_LEVEL_def RAND_MAX_def

section \<open>The code\<close>

text \<open>The bytes behind a value pointer: none for a null pointer.\<close>

definition opt_bytes :: "bytes option \<Rightarrow> bytes" where
  "opt_bytes v = (case v of None \<Rightarrow> [] | Some bs \<Rightarrow> bs)"

text \<open>\<^verbatim>\<open>rand() / (double)RAND_MAX < 0.25\<close>, in integers; one more number is drawn when the
  maximal level is reached.\<close>

function random_level_loop :: "nat \<Rightarrow> world \<Rightarrow> nat \<times> world" where
  "random_level_loop level w =
     (case rand w of (r, w) \<Rightarrow>
        if 4 * r < RAND_MAX \<and> level < SKIPLIST_MAX_LEVEL
        then random_level_loop (level + 1) w else (level, w))"
  by pat_completeness auto
termination by (relation "measure (\<lambda>(level, w). SKIPLIST_MAX_LEVEL - level)") auto

declare random_level_loop.simps [simp del]

definition random_level :: "world \<Rightarrow> nat \<times> world" where
  "random_level w = random_level_loop 1 w"

text \<open>Three allocations, and a fourth for a non-empty value.\<close>

definition create_node :: "nat \<Rightarrow> bytes \<Rightarrow> bytes option \<Rightarrow> world \<Rightarrow> skiplist_node option \<times> world" where
  "create_node level key value w =
     (case malloc w of (ok, w) \<Rightarrow>
      if \<not> ok then (None, w)
      else case malloc w of (ok, w) \<Rightarrow>
      if \<not> ok then (None, w)
      else case malloc w of (ok, w) \<Rightarrow>
      if \<not> ok then (None, w)
      else
        let node = \<lparr>sn_key = key, sn_value = None, sn_value_len = 0, sn_deleted = False,
                    sn_level = level, sn_forward = replicate level None\<rparr>
        in case value of
             None \<Rightarrow> (Some node, w)
           | Some v \<Rightarrow>
               if v = [] then (Some node, w)
               else case malloc w of (ok, w) \<Rightarrow>
                 if \<not> ok then (None, w)
                 else (Some (node\<lparr>sn_value := Some v, sn_value_len := length v\<rparr>), w))"

definition skiplist_create :: "compare_fn option \<Rightarrow> world \<Rightarrow> skiplist option \<times> world" where
  "skiplist_create cmp w =
     (case malloc w of (ok, w) \<Rightarrow>
      if \<not> ok then (None, w)
      else case malloc w of (ok, w) \<Rightarrow>
      if \<not> ok then (None, w)
      else case malloc w of (ok, w) \<Rightarrow>
      if \<not> ok then (None, w)
      else
        (Some \<lparr>sl_nodes = [\<lparr>sn_key = [], sn_value = None, sn_value_len = 0, sn_deleted = False,
                            sn_level = SKIPLIST_MAX_LEVEL,
                            sn_forward = replicate SKIPLIST_MAX_LEVEL None\<rparr>],
               sl_level = 1, sl_count = 0,
               sl_memory_usage = of_nat (SIZEOF_SKIPLIST + SIZEOF_SKIPLIST_NODE +
                                         SIZEOF_POINTER * SKIPLIST_MAX_LEVEL),
               sl_compare = (case cmp of None \<Rightarrow> default_compare | Some f \<Rightarrow> f)\<rparr>, w))"

definition get_node :: "skiplist \<Rightarrow> nat \<Rightarrow> skiplist_node option" where
  "get_node s a = (if a < length (sl_nodes s) then Some (sl_nodes s ! a) else None)"

definition forward :: "skiplist \<Rightarrow> nat \<Rightarrow> nat \<Rightarrow> nat option option" where
  "forward s i x = do {
     node \<leftarrow> get_node s x;
     if i < length (sn_forward node) then Some (sn_forward node ! i) else None
   }"

text \<open>\<^verbatim>\<open>while (x->forward[i] && compare(x->forward[i]->key, key) < 0) x = x->forward[i];\<close>\<close>

partial_function (option) walk :: "skiplist \<Rightarrow> bytes \<Rightarrow> nat \<Rightarrow> nat \<Rightarrow> nat option" where
  "walk s key i x = do {
     next \<leftarrow> forward s i x;
     case next of
       None \<Rightarrow> Some x
     | Some y \<Rightarrow> do {
         node \<leftarrow> get_node s y;
         if sl_compare s (sn_key node) key < 0 then walk s key i y else Some x
       }
   }"

declare walk.simps [code]

text \<open>The loop over the levels, from the top down; the second result is the array
  \<^verbatim>\<open>update\<close>, lowest level first.\<close>

primrec descend :: "skiplist \<Rightarrow> bytes \<Rightarrow> nat \<Rightarrow> nat \<Rightarrow> nat list \<Rightarrow> (nat \<times> nat list) option" where
  "descend s key 0 x update = Some (x, update)"
| "descend s key (Suc i) x update = do {
     x \<leftarrow> walk s key i x;
     descend s key i x (x # update)
   }"

text \<open>The node before the key's position, the array \<^verbatim>\<open>update\<close>, and the pointer to the
  node with that key, if there is one (\<^verbatim>\<open>x && compare(x->key, key) == 0\<close>).\<close>

definition search :: "skiplist \<Rightarrow> bytes \<Rightarrow> (nat list \<times> nat option \<times> bool) option" where
  "search s key = do {
     (x, update) \<leftarrow> descend s key (sl_level s) 0 [];
     next \<leftarrow> forward s 0 x;
     case next of
       None \<Rightarrow> Some (update, None, False)
     | Some y \<Rightarrow> do {
         node \<leftarrow> get_node s y;
         Some (update, Some y, sl_compare s (sn_key node) key = 0)
       }
   }"

definition set_node :: "skiplist \<Rightarrow> nat \<Rightarrow> skiplist_node \<Rightarrow> skiplist" where
  "set_node s a node = s\<lparr>sl_nodes := (sl_nodes s)[a := node]\<rparr>"

definition update_value :: "skiplist \<Rightarrow> nat \<Rightarrow> bytes option \<Rightarrow> world \<Rightarrow> status_t \<times> skiplist \<times> world" where
  "update_value s a value w =
     (let node = sl_nodes s ! a;
          s = s\<lparr>sl_memory_usage := sl_memory_usage s - of_nat (sn_value_len node)\<rparr>;
          value_len = (case value of None \<Rightarrow> 0 | Some v \<Rightarrow> length v);
          finish = (\<lambda>node. set_node (s\<lparr>sl_memory_usage := sl_memory_usage s + of_nat value_len\<rparr>) a
                             (node\<lparr>sn_deleted := False\<rparr>))
      in case value of
           Some v \<Rightarrow>
             if v = [] then (STATUS_OK, finish (node\<lparr>sn_value := None, sn_value_len := 0\<rparr>), w)
             else (case malloc w of (ok, w) \<Rightarrow>
                     if \<not> ok then (STATUS_NO_MEMORY, set_node s a (node\<lparr>sn_value := None\<rparr>), w)
                     else (STATUS_OK, finish (node\<lparr>sn_value := Some v, sn_value_len := length v\<rparr>), w))
         | None \<Rightarrow> (STATUS_OK, finish (node\<lparr>sn_value := None, sn_value_len := 0\<rparr>), w))"

text \<open>\<^verbatim>\<open>new_node->forward[i] = update[i]->forward[i]; update[i]->forward[i] = new_node\<close>\<close>

definition link_level :: "nat \<Rightarrow> nat \<Rightarrow> nat \<Rightarrow> skiplist \<Rightarrow> skiplist option" where
  "link_level new u i s = do {
     node \<leftarrow> get_node s u;
     if i < length (sn_forward node) then
       let s = set_node s new ((sl_nodes s ! new)\<lparr>sn_forward := (sn_forward (sl_nodes s ! new))[i := sn_forward node ! i]\<rparr>)
       in Some (set_node s u ((sl_nodes s ! u)\<lparr>sn_forward := (sn_forward (sl_nodes s ! u))[i := Some new]\<rparr>))
     else None
   }"

primrec link_levels :: "nat \<Rightarrow> nat list \<Rightarrow> nat \<Rightarrow> skiplist \<Rightarrow> skiplist option" where
  "link_levels new update 0 s = Some s"
| "link_levels new update (Suc i) s = do {
     s \<leftarrow> link_levels new update i s;
     if i < length update then link_level new (update ! i) i s else None
   }"

definition insert_node ::
  "skiplist \<Rightarrow> nat list \<Rightarrow> bytes \<Rightarrow> bytes option \<Rightarrow> world \<Rightarrow> (status_t \<times> skiplist \<times> world) option"
where
  "insert_node s update key value w =
     (case random_level w of (new_level, w) \<Rightarrow>
      let (update, s) = (if new_level > sl_level s
                         then (update @ replicate (new_level - sl_level s) 0, s\<lparr>sl_level := new_level\<rparr>)
                         else (update, s))
      in case create_node new_level key value w of
           (None, w) \<Rightarrow> Some (STATUS_NO_MEMORY, s, w)
         | (Some node, w) \<Rightarrow> do {
             let new = length (sl_nodes s);
             s \<leftarrow> link_levels new update new_level (s\<lparr>sl_nodes := sl_nodes s @ [node]\<rparr>);
             let value_len = (case value of None \<Rightarrow> 0 | Some v \<Rightarrow> length v);
             Some (STATUS_OK,
                   s\<lparr>sl_count := sl_count s + 1,
                     sl_memory_usage := sl_memory_usage s + of_nat (SIZEOF_SKIPLIST_NODE +
                       SIZEOF_POINTER * new_level + length key + value_len)\<rparr>, w)
           })"

definition skiplist_put ::
  "skiplist \<Rightarrow> bytes \<Rightarrow> bytes option \<Rightarrow> world \<Rightarrow> (status_t \<times> skiplist \<times> world) option"
where
  "skiplist_put s key value w =
     (if key = [] then Some (STATUS_INVALID_ARG, s, w)
      else do {
        (update, x, found) \<leftarrow> search s key;
        case x of
          Some a \<Rightarrow> if found then Some (update_value s a value w) else insert_node s update key value w
        | None \<Rightarrow> insert_node s update key value w
      })"

text \<open>The value pointer and its length.\<close>

definition skiplist_get :: "skiplist \<Rightarrow> bytes \<Rightarrow> (status_t \<times> (bytes option \<times> nat) option) option" where
  "skiplist_get s key =
     (if key = [] then Some (STATUS_INVALID_ARG, None)
      else do {
        (update, x, found) \<leftarrow> search s key;
        case x of
          Some a \<Rightarrow>
            if found then do {
              node \<leftarrow> get_node s a;
              Some (if sn_deleted node then (STATUS_NOT_FOUND, None)
                    else (STATUS_OK, Some (sn_value node, sn_value_len node)))
            }
            else Some (STATUS_NOT_FOUND, None)
        | None \<Rightarrow> Some (STATUS_NOT_FOUND, None)
      })"

definition mark_deleted :: "skiplist \<Rightarrow> bytes \<Rightarrow> (skiplist \<times> bool) option" where
  "mark_deleted s key = do {
     (update, x, found) \<leftarrow> search s key;
     Some (case x of
             Some a \<Rightarrow> if found then (set_node s a ((sl_nodes s ! a)\<lparr>sn_deleted := True\<rparr>), True) else (s, False)
           | None \<Rightarrow> (s, False))
   }"

definition skiplist_delete :: "skiplist \<Rightarrow> bytes \<Rightarrow> world \<Rightarrow> (status_t \<times> skiplist \<times> world) option" where
  "skiplist_delete s key w =
     (if key = [] then Some (STATUS_INVALID_ARG, s, w)
      else do {
        (s, found) \<leftarrow> mark_deleted s key;
        if found then Some (STATUS_OK, s, w)
        else do {
          (status, s, w) \<leftarrow> skiplist_put s key None w;
          if status \<noteq> STATUS_OK then Some (status, s, w)
          else do {
            (s, found) \<leftarrow> mark_deleted s key;
            Some (STATUS_OK, s, w)
          }
        }
      })"

definition skiplist_contains :: "skiplist \<Rightarrow> bytes \<Rightarrow> bool option" where
  "skiplist_contains s key =
     (if key = [] then Some False else do { (update, x, found) \<leftarrow> search s key; Some found })"

definition skiplist_count :: "skiplist \<Rightarrow> nat" where
  "skiplist_count s = sl_count s"

definition skiplist_memory_usage :: "skiplist \<Rightarrow> u64" where
  "skiplist_memory_usage s = sl_memory_usage s"

section \<open>Iterators\<close>

text \<open>An iterator is its \<^verbatim>\<open>current\<close> pointer; the list is an argument.\<close>

type_synonym skiplist_iter = "nat option"

definition skiplist_iter_create :: "world \<Rightarrow> skiplist_iter option \<times> world" where
  "skiplist_iter_create w = (case malloc w of (ok, w) \<Rightarrow> (if ok then Some None else None, w))"

definition skiplist_iter_seek_to_first :: "skiplist \<Rightarrow> skiplist_iter option" where
  "skiplist_iter_seek_to_first s = forward s 0 0"

definition skiplist_iter_seek :: "skiplist \<Rightarrow> bytes \<Rightarrow> skiplist_iter \<Rightarrow> skiplist_iter option" where
  "skiplist_iter_seek s key it =
     (if key = [] then Some it
      else do {
        (x, update) \<leftarrow> descend s key (sl_level s) 0 [];
        forward s 0 x
      })"

definition skiplist_iter_valid :: "skiplist_iter \<Rightarrow> bool" where
  "skiplist_iter_valid it = (it \<noteq> None)"

definition skiplist_iter_next :: "skiplist \<Rightarrow> skiplist_iter \<Rightarrow> skiplist_iter option" where
  "skiplist_iter_next s it = (case it of None \<Rightarrow> Some None | Some a \<Rightarrow> forward s 0 a)"

definition skiplist_iter_key :: "skiplist \<Rightarrow> skiplist_iter \<Rightarrow> bytes option" where
  "skiplist_iter_key s it = (case it of None \<Rightarrow> None | Some a \<Rightarrow> map_option sn_key (get_node s a))"

definition skiplist_iter_value :: "skiplist \<Rightarrow> skiplist_iter \<Rightarrow> (bytes option \<times> nat) option" where
  "skiplist_iter_value s it =
     (case it of None \<Rightarrow> None | Some a \<Rightarrow> map_option (\<lambda>n. (sn_value n, sn_value_len n)) (get_node s a))"

definition skiplist_iter_is_deleted :: "skiplist \<Rightarrow> skiplist_iter \<Rightarrow> bool option" where
  "skiplist_iter_is_deleted s it =
     (case it of None \<Rightarrow> Some False | Some a \<Rightarrow> map_option sn_deleted (get_node s a))"

section \<open>The representation invariant\<close>

text \<open>\<open>linked f x xs\<close>: following \<open>f\<close> from \<open>x\<close> visits exactly \<open>xs\<close> and ends in null. The chain of level
  \<open>i\<close> is the sublist of the nodes whose level is above \<open>i\<close>.\<close>

fun linked :: "(nat \<Rightarrow> nat option option) \<Rightarrow> nat \<Rightarrow> nat list \<Rightarrow> bool" where
  "linked f x [] = (f x = Some None)"
| "linked f x (y # ys) = (f x = Some (Some y) \<and> linked f y ys)"

definition chain :: "skiplist \<Rightarrow> nat list \<Rightarrow> nat \<Rightarrow> nat list" where
  "chain s ns i = filter (\<lambda>a. i < sn_level (sl_nodes s ! a)) ns"

definition node_wf :: "nat \<Rightarrow> skiplist_node \<Rightarrow> bool" where
  "node_wf lim n \<longleftrightarrow> 1 \<le> sn_level n \<and> sn_level n \<le> lim \<and> length (sn_forward n) = sn_level n \<and>
     sn_key n \<noteq> [] \<and> sn_value_len n = length (opt_bytes (sn_value n))"

definition key_at :: "skiplist \<Rightarrow> nat \<Rightarrow> bytes" where
  "key_at s a = sn_key (sl_nodes s ! a)"

definition sl_inv :: "skiplist \<Rightarrow> nat list \<Rightarrow> bool" where
  "sl_inv s ns \<longleftrightarrow>
     sl_nodes s \<noteq> [] \<and> length (sn_forward (sl_nodes s ! 0)) = SKIPLIST_MAX_LEVEL \<and>
     1 \<le> sl_level s \<and> sl_level s \<le> SKIPLIST_MAX_LEVEL \<and>
     (\<forall>a \<in> set ns. 0 < a \<and> a < length (sl_nodes s) \<and> node_wf (sl_level s) (sl_nodes s ! a)) \<and>
     sorted_wrt (\<lambda>a b. sl_compare s (key_at s a) (key_at s b) < 0) ns \<and>
     (\<forall>i < SKIPLIST_MAX_LEVEL. linked (forward s i) 0 (chain s ns i)) \<and>
     sl_count s = length ns"

text \<open>The abstract content: (key, value, deleted) in key order.\<close>

type_synonym kv_list = "(bytes \<times> bytes \<times> bool) list"

definition node_entry :: "skiplist_node \<Rightarrow> bytes \<times> bytes \<times> bool" where
  "node_entry n = (sn_key n, opt_bytes (sn_value n), sn_deleted n)"

definition sl_view :: "skiplist \<Rightarrow> nat list \<Rightarrow> kv_list" where
  "sl_view s ns = map (\<lambda>a. node_entry (sl_nodes s ! a)) ns"

definition kv_insert :: "compare_fn \<Rightarrow> bytes \<Rightarrow> bytes \<Rightarrow> bool \<Rightarrow> kv_list \<Rightarrow> kv_list" where
  "kv_insert cmp k v d m =
     filter (\<lambda>e. cmp (fst e) k < 0) m @ (k, v, d) # filter (\<lambda>e. 0 < cmp (fst e) k) m"

lemma forward_eq:
  "forward s i x = Some p \<longleftrightarrow> x < length (sl_nodes s) \<and> i < length (sn_forward (sl_nodes s ! x)) \<and>
     p = sn_forward (sl_nodes s ! x) ! i"
  by (auto simp: forward_def get_node_def)

lemma linked_append:
  "linked f x (A @ B) \<Longrightarrow> linked f (last (x # A)) B"
  by (induction A arbitrary: x) auto

lemma linked_cong:
  "(\<And>a. a = x \<or> a \<in> set xs \<Longrightarrow> f a = g a) \<Longrightarrow> linked f x xs \<longleftrightarrow> linked g x xs"
  by (induction xs arbitrary: x) auto

text \<open>Splicing a new node in behind the end of \<open>A\<close>.\<close>

lemma linked_insert:
  assumes "linked f x (A @ B)" and "distinct (x # A @ B)" and "new \<notin> set (x # A @ B)"
    and "p = last (x # A)" and "\<And>a. g a = (if a = new then f p else if a = p then Some (Some new) else f a)"
  shows "linked g x (A @ new # B)"
  using assms
proof (induction A arbitrary: x)
  case Nil
  then have "linked f x B" "g x = Some (Some new)" "g new = f x" by simp_all
  moreover have "linked g y ys \<longleftrightarrow> linked f y ys" if "set (y # ys) \<subseteq> set B" for y ys
    by (rule linked_cong) (use that Nil.prems in auto)
  ultimately show ?case by (cases B) auto
next
  case (Cons a A)
  have "linked g a (A @ new # B)" by (rule Cons.IH) (use Cons.prems in auto)
  moreover have "p \<noteq> x" using Cons.prems(2,4) by (cases A rule: rev_cases) auto
  moreover have "g x = f x" using Cons.prems(3,5) \<open>p \<noteq> x\<close> by auto
  ultimately show ?case using Cons.prems(1) by simp
qed

lemma sl_inv_addr: "sl_inv s ns \<Longrightarrow> a \<in> set ns \<Longrightarrow> 0 < a \<and> a < length (sl_nodes s) \<and> node_wf (sl_level s) (sl_nodes s ! a)"
  by (simp add: sl_inv_def)

lemma chain_zero: "sl_inv s ns \<Longrightarrow> chain s ns 0 = ns"
  by (auto simp: chain_def sl_inv_def node_wf_def filter_id_conv)

lemma chain_top: "sl_inv s ns \<Longrightarrow> sl_level s \<le> i \<Longrightarrow> chain s ns i = []"
  by (fastforce simp: chain_def sl_inv_def node_wf_def filter_empty_conv)

lemma chain_Suc: "chain s ns (Suc i) = filter (\<lambda>a. Suc i < sn_level (sl_nodes s ! a)) (chain s ns i)"
  by (auto simp: chain_def intro: filter_cong)

section \<open>Linking a new node\<close>

text \<open>\<open>s'\<close> differs from \<open>s\<close> only in the contents of forward arrays.\<close>

definition node_body :: "skiplist_node \<Rightarrow> bytes \<times> bytes option \<times> nat \<times> bool \<times> nat \<times> nat" where
  "node_body n = (sn_key n, sn_value n, sn_value_len n, sn_deleted n, sn_level n, length (sn_forward n))"

definition same_shape :: "skiplist \<Rightarrow> skiplist \<Rightarrow> bool" where
  "same_shape s s' \<longleftrightarrow>
     map node_body (sl_nodes s') = map node_body (sl_nodes s) \<and> sl_level s' = sl_level s \<and>
     sl_count s' = sl_count s \<and> sl_memory_usage s' = sl_memory_usage s \<and> sl_compare s' = sl_compare s"

lemma same_shape_node:
  assumes "same_shape s s'" and "a < length (sl_nodes s)"
  shows "node_body (sl_nodes s' ! a) = node_body (sl_nodes s ! a)"
  using assms unfolding same_shape_def by (metis length_map nth_map)

lemma same_shape_length: "same_shape s s' \<Longrightarrow> length (sl_nodes s') = length (sl_nodes s)"
  unfolding same_shape_def by (metis length_map)

lemma node_wf_body: "node_body n = node_body m \<Longrightarrow> node_wf l n = node_wf l m"
  by (auto simp: node_body_def node_wf_def)

lemma link_level_effect:
  assumes "u < length (sl_nodes s)" "new < length (sl_nodes s)" "u \<noteq> new"
    "i < length (sn_forward (sl_nodes s ! u))" "i < length (sn_forward (sl_nodes s ! new))"
  shows "\<exists>s'. link_level new u i s = Some s' \<and> same_shape s s' \<and>
    (\<forall>j a. forward s' j a = (if j = i \<and> a = new then forward s i u
                             else if j = i \<and> a = u then Some (Some new) else forward s j a))"
proof -
  have "map node_body ((sl_nodes s)[new := N, u := U]) = map node_body (sl_nodes s)"
    if "node_body N = node_body (sl_nodes s ! new)" "node_body U = node_body (sl_nodes s ! u)" for N U
    using that by (simp add: map_update list_update_id [of "map node_body (sl_nodes s)", simplified])
      (metis assms(1,2) length_map list_update_id nth_map)
  then show ?thesis
    using assms by (auto simp: link_level_def get_node_def set_node_def Let_def same_shape_def forward_def
        nth_list_update node_body_def)
qed

lemma link_levels_effect:
  assumes "j \<le> length update" "new < length (sl_nodes s)" "j \<le> length (sn_forward (sl_nodes s ! new))"
    and "\<forall>i < j. update ! i < length (sl_nodes s) \<and> update ! i \<noteq> new \<and>
           i < length (sn_forward (sl_nodes s ! (update ! i)))"
  shows "\<exists>s'. link_levels new update j s = Some s' \<and> same_shape s s' \<and>
    (\<forall>i a. forward s' i a = (if i < j \<and> a = new then forward s i (update ! i)
                             else if i < j \<and> a = update ! i then Some (Some new) else forward s i a))"
  using assms
proof (induction j)
  case 0
  then show ?case by (simp add: same_shape_def)
next
  case (Suc j)
  then obtain s1 where s1: "link_levels new update j s = Some s1" "same_shape s s1"
    "\<forall>i a. forward s1 i a = (if i < j \<and> a = new then forward s i (update ! i)
                             else if i < j \<and> a = update ! i then Some (Some new) else forward s i a)"
    by auto
  have u: "update ! j < length (sl_nodes s1)" "new < length (sl_nodes s1)" "update ! j \<noteq> new"
    "j < length (sn_forward (sl_nodes s1 ! (update ! j)))" "j < length (sn_forward (sl_nodes s1 ! new))"
    using Suc.prems same_shape_length [OF s1(2)] same_shape_node [OF s1(2)] by (auto simp: node_body_def)
  obtain s2 where s2: "link_level new (update ! j) j s1 = Some s2" "same_shape s1 s2"
    "\<forall>i a. forward s2 i a = (if i = j \<and> a = new then forward s1 j (update ! j)
                             else if i = j \<and> a = update ! j then Some (Some new) else forward s1 i a)"
    using link_level_effect [OF u] by blast
  have "forward s2 i a = (if i < Suc j \<and> a = new then forward s i (update ! i)
        else if i < Suc j \<and> a = update ! i then Some (Some new) else forward s i a)" for i a
    using s1(3) s2(3) u(3) by (auto simp: less_Suc_eq)
  moreover have "link_levels new update (Suc j) s = Some s2" using s1(1) s2(1) Suc.prems(1) by simp
  ultimately show ?case using s1(2) s2(2) by (auto simp: same_shape_def)
qed

text \<open>The last node of level above \<open>i\<close> before the key, or the header.\<close>

definition pos :: "skiplist \<Rightarrow> bytes \<Rightarrow> nat list \<Rightarrow> nat \<Rightarrow> nat" where
  "pos s k ns i = last (0 # filter (\<lambda>a. sl_compare s (key_at s a) k < 0) (chain s ns i))"

context key_order
begin

lemma sl_inv_distinct: "sl_inv s ns \<Longrightarrow> sl_compare s = cmp \<Longrightarrow> distinct (0 # ns)"
proof -
  assume inv: "sl_inv s ns" and c: "sl_compare s = cmp"
  have so: "sorted_wrt (\<lambda>a b. cmp (key_at s a) (key_at s b) < 0) ns" using inv c by (simp add: sl_inv_def)
  then have "distinct ns"
  proof (induction ns)
    case Nil
    then show ?case by simp
  next
    case (Cons a ns)
    then show ?case using cmp_refl [of "key_at s a"] by auto
  qed
  then show ?thesis using inv by (auto simp: sl_inv_def)
qed

lemma walk_linked:
  assumes "sl_compare s = cmp" and "linked (forward s i) x xs" and "\<forall>a \<in> set xs. a < length (sl_nodes s)"
  shows "walk s k i x = Some (last (x # takeWhile (\<lambda>a. cmp (key_at s a) k < 0) xs))"
  using assms
proof (induction xs arbitrary: x)
  case Nil
  then show ?case by (subst walk.simps) simp
next
  case (Cons y ys)
  then have "get_node s y = Some (sl_nodes s ! y)" by (simp add: get_node_def)
  then show ?case using Cons by (subst walk.simps) (simp add: key_at_def)
qed

lemma sorted_chain:
  assumes "sl_inv s ns" and "sl_compare s = cmp"
  shows "sorted_wrt (\<lambda>a b. cmp (key_at s a) (key_at s b) < 0) (chain s ns i)"
  using assms unfolding sl_inv_def chain_def by (auto intro: sorted_wrt_filter)

lemma walk_pos:
  assumes inv: "sl_inv s ns" and c: "sl_compare s = cmp" and i: "i < SKIPLIST_MAX_LEVEL"
  shows "walk s k i (pos s k ns (Suc i)) = Some (pos s k ns i)"
proof -
  let ?below = "\<lambda>a. cmp (key_at s a) k < 0" and ?C = "chain s ns i"
  have lk: "linked (forward s i) 0 ?C" using inv i by (simp add: sl_inv_def)
  have len: "\<forall>a \<in> set ?C. a < length (sl_nodes s)" using inv by (auto simp: chain_def sl_inv_def)
  have so: "sorted_wrt (\<lambda>a b. cmp (key_at s a) (key_at s b) < 0) ?C" by (rule sorted_chain [OF inv c])
  show ?thesis
  proof (cases "filter ?below (chain s ns (Suc i)) = []")
    case True
    then show ?thesis
      using walk_linked [OF c lk len] sorted_takeWhile [OF so] c by (simp add: pos_def)
  next
    case False
    define x where "x = pos s k ns (Suc i)"
    have "x \<in> set (filter ?below (chain s ns (Suc i)))" using False c last_in_set [OF False] by (simp add: x_def pos_def del: set_filter)
    then have x: "x \<in> set ?C" "?below x" by (auto simp: chain_def)
    then obtain A B where C: "?C = A @ x # B" by (meson split_list)
    have "linked (forward s i) x B" using linked_append [of "forward s i" 0 "A @ [x]" B] lk C by simp
    then have "walk s k i x = Some (last (x # takeWhile ?below B))"
      by (rule walk_linked [OF c]) (use len C in auto)
    also have "takeWhile ?below B = filter ?below B"
      using so C sorted_takeWhile [of "key_at s" B] by (simp add: sorted_wrt_append)
    finally have "walk s k i x = Some (last (x # filter ?below B))" .
    moreover have "pos s k ns i = last (x # filter ?below B)" using C x(2) c by (simp add: pos_def)
    ultimately show ?thesis by (simp add: x_def)
  qed
qed

lemma descend_pos:
  assumes inv: "sl_inv s ns" and c: "sl_compare s = cmp" and "j \<le> SKIPLIST_MAX_LEVEL"
  shows "descend s k j (pos s k ns j) update = Some (pos s k ns 0, map (pos s k ns) [0..<j] @ update)"
  using assms(3)
proof (induction j arbitrary: update)
  case 0
  then show ?case by simp
next
  case (Suc j)
  then show ?case using walk_pos [OF inv c, of j] by simp
qed

lemma descend_spec:
  assumes inv: "sl_inv s ns" and c: "sl_compare s = cmp"
  shows "descend s k (sl_level s) 0 [] = Some (pos s k ns 0, map (pos s k ns) [0..<sl_level s])"
proof -
  have "pos s k ns (sl_level s) = 0" by (simp add: pos_def chain_top [OF inv])
  moreover have "sl_level s \<le> SKIPLIST_MAX_LEVEL" using inv by (simp add: sl_inv_def)
  ultimately show ?thesis using descend_pos [OF inv c, of "sl_level s" k "[]"] by simp
qed

text \<open>The first node not before the key.\<close>

lemma forward_pos:
  assumes inv: "sl_inv s ns" and c: "sl_compare s = cmp" and i: "i < SKIPLIST_MAX_LEVEL"
  shows "forward s i (pos s k ns i) =
    Some (case filter (\<lambda>a. \<not> cmp (key_at s a) k < 0) (chain s ns i) of [] \<Rightarrow> None | a # _ \<Rightarrow> Some a)"
proof -
  let ?below = "\<lambda>a. cmp (key_at s a) k < 0" and ?C = "chain s ns i"
  have "linked (forward s i) 0 ?C" using inv i by (simp add: sl_inv_def)
  then have "linked (forward s i) (pos s k ns i) (filter (\<lambda>a. \<not> ?below a) ?C)"
    unfolding pos_def c
    using sorted_filter_split [OF sorted_chain [OF inv c]] by (metis (no_types, lifting) linked_append)
  then show ?thesis by (cases "filter (\<lambda>a. \<not> ?below a) ?C") auto
qed

lemma search_spec:
  assumes inv: "sl_inv s ns" and c: "sl_compare s = cmp"
  shows "search s k = Some (map (pos s k ns) [0..<sl_level s],
    (case filter (\<lambda>a. \<not> cmp (key_at s a) k < 0) ns of [] \<Rightarrow> (None, False) | a # _ \<Rightarrow> (Some a, key_at s a = k)))"
proof (cases "filter (\<lambda>a. \<not> cmp (key_at s a) k < 0) ns")
  case Nil
  then show ?thesis
    using descend_spec [OF inv c] forward_pos [OF inv c, of 0] chain_zero [OF inv] by (simp add: search_def)
next
  case (Cons a as)
  then have "a \<in> set ns" by (metis filter_is_subset list.set_intros(1) subset_iff)
  then have "get_node s a = Some (sl_nodes s ! a)" using inv by (auto simp: get_node_def sl_inv_def)
  then show ?thesis
    using Cons descend_spec [OF inv c] forward_pos [OF inv c, of 0] chain_zero [OF inv]
    by (simp add: search_def c cmp_eq key_at_def)
qed

end

end
