(* ===== verification/SE_Skiplist_Map.thy ===== *)
theory SE_Skiplist_Map
  imports SE_Skiplist
begin

text \<open>
  The skip list as an ordered map: every operation of \<^verbatim>\<open>storage-engine/src/skiplist.c\<close>
  keeps the representation invariant and acts on the abstract content, the list of (key, value,
  tombstone) in key order, as the corresponding operation on sorted lists does.
\<close>

text \<open>Deletion keeps the value and sets the tombstone; an absent key gets an empty value.\<close>

definition kv_delete :: "compare_fn \<Rightarrow> bytes \<Rightarrow> kv_list \<Rightarrow> kv_list" where
  "kv_delete cmp k m =
     (case map_of m k of Some (v, d) \<Rightarrow> kv_insert cmp k v True m | None \<Rightarrow> kv_insert cmp k [] True m)"

context key_order
begin

section \<open>Insertion\<close>

lemma chain_split:
  fixes k :: bytes
  assumes inv: "sl_inv s ns" and c: "sl_compare s = cmp"
  defines "A \<equiv> filter (\<lambda>a. cmp (key_at s a) k < 0) ns" and "B \<equiv> filter (\<lambda>a. \<not> cmp (key_at s a) k < 0) ns"
  shows "ns = A @ B" and "chain s ns i = chain s A i @ chain s B i" and "pos s k ns i = last (0 # chain s A i)"
proof -
  have "sorted_wrt (\<lambda>a b. cmp (key_at s a) (key_at s b) < 0) ns" using inv c by (simp add: sl_inv_def)
  then show "ns = A @ B" unfolding A_def B_def by (rule sorted_filter_split)
  then show "chain s ns i = chain s A i @ chain s B i" by (simp add: chain_def)
  have "filter (\<lambda>a. cmp (key_at s a) k < 0) (chain s ns i) = chain s A i"
    by (simp add: chain_def A_def conj_commute)
  then show "pos s k ns i = last (0 # chain s A i)" by (simp only: pos_def c)
qed

lemma pos_addr:
  assumes inv: "sl_inv s ns" and c: "sl_compare s = cmp" and i: "i < SKIPLIST_MAX_LEVEL"
  shows "pos s k ns i < length (sl_nodes s) \<and> i < length (sn_forward (sl_nodes s ! pos s k ns i))"
proof (cases "chain s (filter (\<lambda>a. cmp (key_at s a) k < 0) ns) i = []")
  case True
  then have "pos s k ns i = 0" by (simp add: chain_split(3) [OF inv c])
  then show ?thesis using inv i by (auto simp: sl_inv_def)
next
  case False
  let ?C = "chain s (filter (\<lambda>a. cmp (key_at s a) k < 0) ns) i"
  have "pos s k ns i = last ?C" using False by (simp only: chain_split(3) [OF inv c] last.simps if_False)
  then have "pos s k ns i \<in> set ?C" using last_in_set [OF False] by simp
  then have "pos s k ns i \<in> set ns" "i < sn_level (sl_nodes s ! pos s k ns i)" by (auto simp: chain_def)
  then show ?thesis using inv by (auto simp: sl_inv_def node_wf_def)
qed

lemma insert_links:
  assumes inv: "sl_inv s ns" and c: "sl_compare s = cmp"
    and L: "1 \<le> L" "L \<le> SKIPLIST_MAX_LEVEL" "sn_level node = L" "sn_forward node = replicate L None"
  defines "s1 \<equiv> s\<lparr>sl_level := max (sl_level s) L, sl_nodes := sl_nodes s @ [node]\<rparr>"
  shows "\<exists>s'. link_levels (length (sl_nodes s))
      (map (pos s k ns) [0..<sl_level s] @ replicate (L - sl_level s) 0) L s1 = Some s' \<and> same_shape s1 s' \<and>
    (\<forall>i a. forward s' i a =
       (if i < L \<and> a = length (sl_nodes s) then forward s i (pos s k ns i)
        else if i < L \<and> a = pos s k ns i then Some (Some (length (sl_nodes s)))
        else if a < length (sl_nodes s) then forward s i a else None))"
proof -
  let ?new = "length (sl_nodes s)" and ?u = "map (pos s k ns) [0..<sl_level s] @ replicate (L - sl_level s) 0"
  have u: "?u ! i = pos s k ns i" if "i < L" for i
  proof (cases "i < sl_level s")
    case True
    then show ?thesis by (simp add: nth_append)
  next
    case False
    then have "pos s k ns i = 0" using chain_top [OF inv, of i] by (simp add: pos_def)
    then show ?thesis using False that by (simp add: nth_append)
  qed
  have bound: "pos s k ns i < ?new" "i < length (sn_forward (sl_nodes s ! pos s k ns i))" if "i < L" for i
    using pos_addr [OF inv c, of i k] L(2) that by simp_all
  have pre: "\<forall>i < L. ?u ! i < length (sl_nodes s1) \<and> ?u ! i \<noteq> ?new \<and>
      i < length (sn_forward (sl_nodes s1 ! (?u ! i)))"
  proof (intro allI impI)
    fix i assume i: "i < L"
    show "?u ! i < length (sl_nodes s1) \<and> ?u ! i \<noteq> ?new \<and> i < length (sn_forward (sl_nodes s1 ! (?u ! i)))"
      unfolding u [OF i] using bound [OF i] by (simp add: s1_def nth_append)
  qed
  have f1: "forward s1 i a = (if a < ?new then forward s i a else if a = ?new \<and> i < L then Some None else None)" for i a
    using L by (auto simp: forward_def get_node_def s1_def nth_append)
  have d: "L \<le> length ?u" "?new < length (sl_nodes s1)" "L \<le> length (sn_forward (sl_nodes s1 ! ?new))"
    using L by (simp_all add: s1_def)
  obtain s' where s': "link_levels ?new ?u L s1 = Some s'" "same_shape s1 s'"
    "\<forall>i a. forward s' i a = (if i < L \<and> a = ?new then forward s1 i (?u ! i)
       else if i < L \<and> a = ?u ! i then Some (Some ?new) else forward s1 i a)"
    using link_levels_effect [OF d pre] by blast
  have "forward s' i a = (if i < L \<and> a = ?new then forward s i (pos s k ns i)
        else if i < L \<and> a = pos s k ns i then Some (Some ?new)
        else if a < ?new then forward s i a else None)" for i a
    using s'(3) u bound(1) by (auto simp: f1)
  then show ?thesis using s'(1,2) by blast
qed

text \<open>What the new list says of the nodes, old and new.\<close>

lemma insert_nodes:
  assumes inv: "sl_inv s ns" and shape: "same_shape (s\<lparr>sl_level := l, sl_nodes := sl_nodes s @ [node]\<rparr>) t"
  shows "length (sl_nodes t) = Suc (length (sl_nodes s))"
    and "\<And>a. a < length (sl_nodes s) \<Longrightarrow> node_body (sl_nodes t ! a) = node_body (sl_nodes s ! a)"
    and "node_body (sl_nodes t ! length (sl_nodes s)) = node_body node"
    and "\<And>a. a \<in> set ns \<Longrightarrow> key_at t a = key_at s a"
    and "\<And>a. a \<in> set ns \<Longrightarrow> sn_level (sl_nodes t ! a) = sn_level (sl_nodes s ! a)"
proof -
  show "length (sl_nodes t) = Suc (length (sl_nodes s))" using same_shape_length [OF shape] by simp
  show b: "node_body (sl_nodes t ! a) = node_body (sl_nodes s ! a)" if "a < length (sl_nodes s)" for a
    using same_shape_node [OF shape, of a] that by (simp add: nth_append)
  show "node_body (sl_nodes t ! length (sl_nodes s)) = node_body node"
    using same_shape_node [OF shape, of "length (sl_nodes s)"] by simp
  show "key_at t a = key_at s a" "sn_level (sl_nodes t ! a) = sn_level (sl_nodes s ! a)" if "a \<in> set ns" for a
    using b [of a] sl_inv_addr [OF inv that] by (simp_all add: node_body_def key_at_def)
qed

lemma insert_linked:
  assumes inv: "sl_inv s ns" and c: "sl_compare s = cmp" and i: "i < SKIPLIST_MAX_LEVEL"
    and chn: "C = chain s (filter (\<lambda>a. cmp (key_at s a) k < 0) ns) i @ (if i < L then [length (sl_nodes s)] else []) @
      chain s (filter (\<lambda>a. \<not> cmp (key_at s a) k < 0) ns) i"
    and fwd: "\<And>a. f a =
       (if i < L \<and> a = length (sl_nodes s) then forward s i (pos s k ns i)
        else if i < L \<and> a = pos s k ns i then Some (Some (length (sl_nodes s)))
        else if a < length (sl_nodes s) then forward s i a else None)"
  shows "linked f 0 C"
proof -
  let ?new = "length (sl_nodes s)"
  define A where "A = chain s (filter (\<lambda>a. cmp (key_at s a) k < 0) ns) i"
  define B where "B = chain s (filter (\<lambda>a. \<not> cmp (key_at s a) k < 0) ns) i"
  have lk: "linked (forward s i) 0 (A @ B)"
    unfolding A_def B_def chain_split(2) [OF inv c, of i k, symmetric] using inv i by (simp add: sl_inv_def)
  have addr: "a < ?new \<and> 0 < a" if "a \<in> set (A @ B)" for a
    using that sl_inv_addr [OF inv, of a] by (auto simp: A_def B_def chain_def)
  have ne: "0 < ?new" using inv by (simp add: sl_inv_def)
  show ?thesis
  proof (cases "i < L")
    case True
    have "linked f 0 (A @ ?new # B)"
    proof (rule linked_insert [OF lk])
      have "distinct (A @ B)"
        using sl_inv_distinct [OF inv c] chain_split(2) [OF inv c, of i k] unfolding A_def B_def
        by (metis chain_def distinct.simps(2) distinct_filter)
      then show "distinct (0 # A @ B)" using addr by fastforce
      show "?new \<notin> set (0 # A @ B)" using addr ne by fastforce
      show "pos s k ns i = last (0 # A)" unfolding A_def by (rule chain_split(3) [OF inv c])
      show "f a = (if a = ?new then forward s i (pos s k ns i)
          else if a = pos s k ns i then Some (Some ?new) else forward s i a)" for a
        using True by (simp add: fwd) (simp add: forward_def get_node_def)
    qed
    then show ?thesis using True chn by (simp add: A_def B_def)
  next
    case False
    have "linked f 0 (A @ B) \<longleftrightarrow> linked (forward s i) 0 (A @ B)"
      by (rule linked_cong) (use False addr ne in \<open>auto simp: fwd\<close>)
    then show ?thesis using False lk chn by (simp add: A_def B_def)
  qed
qed

lemma insert_inv:
  assumes inv: "sl_inv s ns" and c: "sl_compare s = cmp" and absent: "\<forall>a \<in> set ns. key_at s a \<noteq> k"
    and node: "sn_key node = k" "sn_level node = L" "node_wf L node" "L \<le> SKIPLIST_MAX_LEVEL"
    and shape: "same_shape (s\<lparr>sl_level := max (sl_level s) L, sl_nodes := sl_nodes s @ [node]\<rparr>) t"
    and fwd: "\<And>i a. forward t i a =
       (if i < L \<and> a = length (sl_nodes s) then forward s i (pos s k ns i)
        else if i < L \<and> a = pos s k ns i then Some (Some (length (sl_nodes s)))
        else if a < length (sl_nodes s) then forward s i a else None)"
  defines "A \<equiv> filter (\<lambda>a. cmp (key_at s a) k < 0) ns" and "B \<equiv> filter (\<lambda>a. \<not> cmp (key_at s a) k < 0) ns"
  shows "sl_inv (t\<lparr>sl_count := sl_count t + 1, sl_memory_usage := mem\<rparr>) (A @ length (sl_nodes s) # B)"
proof -
  let ?new = "length (sl_nodes s)"
  let ?t = "t\<lparr>sl_count := sl_count t + 1, sl_memory_usage := mem\<rparr>"
  note nodes = insert_nodes [OF inv shape]
  have ns: "ns = A @ B" unfolding A_def B_def by (rule chain_split(1) [OF inv c])
  have t: "sl_level t = max (sl_level s) L" "sl_compare t = cmp" "sl_count t = sl_count s"
    using shape c by (simp_all add: same_shape_def)
  have knew: "key_at t ?new = k" "sn_level (sl_nodes t ! ?new) = L"
    using nodes(3) node(1,2) by (simp_all add: node_body_def key_at_def)
  have AB: "set A \<subseteq> set ns" "set B \<subseteq> set ns" by (auto simp: A_def B_def)
  have frame: "forward ?t = forward t" "chain ?t = chain t" "key_at ?t = key_at t"
    by (simp_all add: fun_eq_iff forward_def get_node_def chain_def key_at_def)
  have ch: "chain t X i = chain s X i" if "set X \<subseteq> set ns" for X i
    unfolding chain_def by (rule filter_cong) (use nodes(5) that in auto)
  have "chain t (A @ ?new # B) i = chain s A i @ (if i < L then [?new] else []) @ chain s B i" for i
    using ch [OF AB(1), of i] ch [OF AB(2), of i] knew by (simp add: chain_def)
  then have "linked (forward t i) 0 (chain t (A @ ?new # B) i)" if "i < SKIPLIST_MAX_LEVEL" for i
    using insert_linked [OF inv c that _ fwd] unfolding A_def B_def by blast
  moreover have "sorted_wrt (\<lambda>a b. cmp (key_at t a) (key_at t b) < 0) (A @ ?new # B)"
  proof -
    have so: "sorted_wrt (\<lambda>a b. cmp (key_at s a) (key_at s b) < 0) ns" using inv c by (simp add: sl_inv_def)
    have "sorted_wrt (\<lambda>a b. cmp (key_at t a) (key_at t b) < 0) ns"
      by (rule sorted_wrt_mono_rel [OF _ so]) (simp add: nodes(4))
    moreover have "cmp (key_at t a) k < 0" if "a \<in> set A" for a using that nodes(4) [of a] by (simp add: A_def)
    moreover have "cmp k (key_at t b) < 0" if "b \<in> set B" for b
      using that nodes(4) [of b] absent cmp_not_less [of "key_at s b" k] by (auto simp: B_def)
    ultimately show ?thesis unfolding ns by (simp add: sorted_wrt_append knew)
  qed
  moreover have "0 < a \<and> a < length (sl_nodes t) \<and> node_wf (sl_level t) (sl_nodes t ! a)" if "a \<in> set (A @ ?new # B)" for a
  proof (cases "a = ?new")
    case True
    have "node_wf (sl_level t) node" using node(3) unfolding node_wf_def t(1) by linarith
    then show ?thesis using True inv nodes(1) node_wf_body [OF nodes(3)] by (simp add: sl_inv_def)
  next
    case False
    then have "a \<in> set ns" using that AB by auto
    note a = sl_inv_addr [OF inv this]
    then have "node_wf (sl_level t) (sl_nodes s ! a)" unfolding node_wf_def t(1) by linarith
    then show ?thesis using a nodes(1) node_wf_body [OF nodes(2), of a] by simp
  qed
  moreover have "sl_nodes t \<noteq> []" "length (sn_forward (sl_nodes t ! 0)) = SKIPLIST_MAX_LEVEL"
    using inv nodes(1) nodes(2) [of 0] by (auto simp: sl_inv_def node_body_def)
  moreover have "1 \<le> sl_level t" "sl_level t \<le> SKIPLIST_MAX_LEVEL" using inv node(4) t(1) by (auto simp: sl_inv_def)
  moreover have "sl_count t + 1 = length (A @ ?new # B)" using inv t(3) ns by (simp add: sl_inv_def)
  ultimately show ?thesis unfolding sl_inv_def frame using t(2) by simp
qed


lemma random_level_bounds:
  "1 \<le> l \<Longrightarrow> l \<le> SKIPLIST_MAX_LEVEL \<Longrightarrow> random_level_loop l w = (l', w') \<Longrightarrow>
     1 \<le> l' \<and> l' \<le> SKIPLIST_MAX_LEVEL \<and> w_alloc w' = w_alloc w"
proof (induction l w rule: random_level_loop.induct)
  case (1 l w)
  obtain r v where r: "rand w = (r, v)" by fastforce
  have "w_alloc v = w_alloc w" using rand_frame [OF r] by simp
  then show ?case
    using "1.IH" [OF r [symmetric]] "1.prems" r
    by (subst (asm) random_level_loop.simps) (auto split: if_splits)
qed

lemma create_node_ok:
  assumes "create_node l k v w = (Some node, w')" and "1 \<le> l" and "k \<noteq> []"
  shows "sn_key node = k \<and> sn_level node = l \<and> node_wf l node \<and> sn_forward node = replicate l None \<and>
    opt_bytes (sn_value node) = opt_bytes v \<and> \<not> sn_deleted node"
  using assms by (auto simp: create_node_def node_wf_def opt_bytes_def Let_def split: prod.splits if_splits option.splits)

lemma create_node_alloc:
  "alloc_ok w \<Longrightarrow> \<exists>node. create_node l k v w = (Some node, w)"
  by (auto simp: create_node_def Let_def split: option.split)

lemma sl_view_simps:
  "sl_view s [] = []" "sl_view s (a # ns) = node_entry (sl_nodes s ! a) # sl_view s ns"
  "sl_view s (ns @ ms) = sl_view s ns @ sl_view s ms"
  by (simp_all add: sl_view_def)

lemma view_filter:
  "filter (\<lambda>e. P (fst e)) (sl_view s ns) = sl_view s (filter (\<lambda>a. P (key_at s a)) ns)"
  by (simp add: sl_view_def filter_map comp_def node_entry_def key_at_def)

lemma absent_above:
  assumes inv: "sl_inv s ns" and c: "sl_compare s = cmp" and absent: "\<forall>a \<in> set ns. key_at s a \<noteq> k"
  shows "filter (\<lambda>a. 0 < cmp (key_at s a) k) ns = filter (\<lambda>a. \<not> cmp (key_at s a) k < 0) ns"
  by (rule filter_cong) (use absent cmp_eq in \<open>auto simp: not_less order.order_iff_strict\<close>)

text \<open>Inserting a key that is absent.\<close>

lemma insert_node_spec:
  assumes inv: "sl_inv s ns" and c: "sl_compare s = cmp" and absent: "\<forall>a \<in> set ns. key_at s a \<noteq> k"
    and k: "k \<noteq> []"
  shows "\<exists>st s' w'. insert_node s (map (pos s k ns) [0..<sl_level s]) k v w = Some (st, s', w') \<and>
    sl_compare s' = cmp \<and> (alloc_ok w \<longrightarrow> st = STATUS_OK \<and> alloc_ok w') \<and>
    (if st = STATUS_OK
     then \<exists>ns'. sl_inv s' ns' \<and> sl_view s' ns' = kv_insert cmp k (opt_bytes v) False (sl_view s ns)
     else st = STATUS_NO_MEMORY \<and> sl_inv s' ns \<and> sl_view s' ns = sl_view s ns)"
proof -
  let ?A = "filter (\<lambda>a. cmp (key_at s a) k < 0) ns" and ?B = "filter (\<lambda>a. \<not> cmp (key_at s a) k < 0) ns"
  let ?new = "length (sl_nodes s)"
  obtain L w1 where L: "random_level w = (L, w1)" by fastforce
  have Lb: "1 \<le> L" "L \<le> SKIPLIST_MAX_LEVEL" "w_alloc w1 = w_alloc w"
    using random_level_bounds [of 1 w L w1] L by (simp_all add: random_level_def)
  define u where "u = map (pos s k ns) [0..<sl_level s] @ replicate (L - sl_level s) 0"
  define s0 where "s0 = s\<lparr>sl_level := max (sl_level s) L\<rparr>"
  have start: "(if L > sl_level s then (map (pos s k ns) [0..<sl_level s] @ replicate (L - sl_level s) 0, s\<lparr>sl_level := L\<rparr>)
      else (map (pos s k ns) [0..<sl_level s], s)) = (u, s0)"
    by (simp add: u_def s0_def)
  have inv0: "sl_inv s0 ns" "sl_view s0 ns = sl_view s ns"
  proof -
    have "forward s0 = forward s" "chain s0 = chain s" "key_at s0 = key_at s"
      by (simp_all add: s0_def fun_eq_iff forward_def get_node_def chain_def key_at_def)
    then show "sl_inv s0 ns"
      using inv Lb(2) unfolding sl_inv_def by (auto simp: s0_def node_wf_def max_def)
    show "sl_view s0 ns = sl_view s ns" by (simp add: sl_view_def s0_def)
  qed
  obtain r w2 where r: "create_node L k v w1 = (r, w2)" by fastforce
  show ?thesis
  proof (cases r)
    case None
    then have "\<not> alloc_ok w" using create_node_alloc [of w1 L k v] r Lb(3) by (auto simp: alloc_ok_def)
    then show ?thesis
      using None L r start inv0 c by (simp add: insert_node_def s0_def)
  next
    case (Some node)
    have node: "sn_key node = k" "sn_level node = L" "node_wf L node" "sn_forward node = replicate L None"
      "opt_bytes (sn_value node) = opt_bytes v" "\<not> sn_deleted node"
      using create_node_ok [of L k v w1 node w2] r Some Lb(1) k by simp_all
    obtain t where t: "link_levels ?new u L (s0\<lparr>sl_nodes := sl_nodes s @ [node]\<rparr>) = Some t"
      "same_shape (s\<lparr>sl_level := max (sl_level s) L, sl_nodes := sl_nodes s @ [node]\<rparr>) t"
      "\<And>i a. forward t i a = (if i < L \<and> a = ?new then forward s i (pos s k ns i)
          else if i < L \<and> a = pos s k ns i then Some (Some ?new)
          else if a < ?new then forward s i a else None)"
      using insert_links [OF inv c Lb(1,2) node(2,4), of k] by (auto simp: u_def s0_def)
    define t' where "t' = t\<lparr>sl_count := sl_count t + 1, sl_memory_usage := sl_memory_usage t +
       of_nat (SIZEOF_SKIPLIST_NODE + SIZEOF_POINTER * L + length k + (case v of None \<Rightarrow> 0 | Some v \<Rightarrow> length v))\<rparr>"
    have inv': "sl_inv t' (?A @ ?new # ?B)"
      unfolding t'_def by (rule insert_inv [OF inv c absent node(1-3) Lb(2) t(2,3)])
    have "sl_view t' (?A @ ?new # ?B) = sl_view s ?A @ (k, opt_bytes v, False) # sl_view s ?B"
    proof -
      note nodes = insert_nodes [OF inv t(2)]
      have vw: "sl_view t' X = sl_view s X" if "set X \<subseteq> set ns" for X
        using that nodes(2) sl_inv_addr [OF inv]
        by (auto simp: sl_view_def t'_def node_entry_def node_body_def intro!: map_cong)
      have "node_entry (sl_nodes t' ! ?new) = (k, opt_bytes v, False)"
        using nodes(3) node by (simp add: node_entry_def node_body_def t'_def)
      then show ?thesis using vw [of ?A] vw [of ?B] by (simp add: sl_view_simps)
    qed
    then have "sl_view t' (?A @ ?new # ?B) = kv_insert cmp k (opt_bytes v) False (sl_view s ns)"
      using absent_above [OF inv c absent] by (simp add: kv_insert_def view_filter [of "\<lambda>x. cmp x k < 0"] view_filter [of "\<lambda>x. 0 < cmp x k"])
    moreover have "insert_node s (map (pos s k ns) [0..<sl_level s]) k v w = Some (STATUS_OK, t', w2)"
      using L r Some t(1) start by (simp add: insert_node_def t'_def s0_def)
    moreover have "alloc_ok w \<longrightarrow> alloc_ok w2"
      using create_node_alloc [of w1 L k v] r Lb(3) by (auto simp: alloc_ok_def)
    moreover have "sl_compare t' = cmp" using t(2) c by (simp add: same_shape_def t'_def)
    ultimately show ?thesis using inv' by (intro exI [of _ STATUS_OK] exI [of _ t'] exI [of _ w2]) auto
  qed
qed

text \<open>Changing the value or the tombstone mark of a node.\<close>

lemma set_node_inv:
  assumes inv: "sl_inv s ns" and a: "a \<in> set ns"
    and n: "sn_key n = key_at s a" "sn_level n = sn_level (sl_nodes s ! a)" "sn_forward n = sn_forward (sl_nodes s ! a)"
      "sn_value_len n = length (opt_bytes (sn_value n))"
  shows "sl_inv ((set_node s a n)\<lparr>sl_memory_usage := mem\<rparr>) ns"
proof -
  let ?t = "(set_node s a n)\<lparr>sl_memory_usage := mem\<rparr>"
  have len: "a < length (sl_nodes s)" "0 < a" using sl_inv_addr [OF inv a] by simp_all
  have f: "forward ?t = forward s" "key_at ?t = key_at s"
    "(\<lambda>b. sn_level (sl_nodes ?t ! b)) = (\<lambda>b. sn_level (sl_nodes s ! b))"
    using n len by (auto simp: fun_eq_iff forward_def get_node_def key_at_def set_node_def nth_list_update)
  then have ch: "chain ?t = chain s" by (simp add: fun_eq_iff chain_def)
  have wf: "node_wf (sl_level s) (sl_nodes ?t ! b)" if "b \<in> set ns" for b
    using sl_inv_addr [OF inv that] n len by (cases "b = a") (auto simp: set_node_def node_wf_def key_at_def)
  have "sn_forward (sl_nodes ?t ! 0) = sn_forward (sl_nodes s ! 0)" using len by (simp add: set_node_def)
  then show ?thesis
    using inv wf unfolding sl_inv_def f ch by (simp add: set_node_def)
qed

text \<open>A found node: the list splits around it.\<close>

lemma found_split:
  assumes inv: "sl_inv s ns" and c: "sl_compare s = cmp"
    and hit: "filter (\<lambda>b. \<not> cmp (key_at s b) k < 0) ns = a # as" "key_at s a = k"
  shows "ns = filter (\<lambda>b. cmp (key_at s b) k < 0) ns @ a # filter (\<lambda>b. 0 < cmp (key_at s b) k) ns"
    and "a \<in> set ns"
proof -
  have so: "sorted_wrt (\<lambda>a b. cmp (key_at s a) (key_at s b) < 0) ns" using inv c by (simp add: sl_inv_def)
  have "a # as = filter (\<lambda>b. key_at s b = k) ns @ filter (\<lambda>b. 0 < cmp (key_at s b) k) ns"
    using sorted_hit(1) [OF so] hit(1) by simp
  moreover have "length (filter (\<lambda>b. key_at s b = k) ns) \<le> 1" by (rule sorted_hit(2) [OF so])
  moreover have "0 < cmp (key_at s a) k \<longleftrightarrow> False" using hit(2) by simp
  ultimately have "a # as = a # filter (\<lambda>b. 0 < cmp (key_at s b) k) ns"
    by (cases "filter (\<lambda>b. key_at s b = k) ns") (auto dest: Cons_eq_filterD)
  then show "ns = filter (\<lambda>b. cmp (key_at s b) k < 0) ns @ a # filter (\<lambda>b. 0 < cmp (key_at s b) k) ns"
    using sorted_filter_split [OF so, of k] hit(1) by simp
  then show "a \<in> set ns" by (metis in_set_conv_decomp)
qed

lemma set_node_view:
  assumes inv: "sl_inv s ns" and c: "sl_compare s = cmp"
    and hit: "filter (\<lambda>b. \<not> cmp (key_at s b) k < 0) ns = a # as" "key_at s a = k"
    and n: "node_entry n = (k, v, d)"
  shows "sl_view ((set_node s a n)\<lparr>sl_memory_usage := mem\<rparr>) ns = kv_insert cmp k v d (sl_view s ns)"
proof -
  let ?A = "filter (\<lambda>b. cmp (key_at s b) k < 0) ns" and ?B = "filter (\<lambda>b. 0 < cmp (key_at s b) k) ns"
  let ?t = "(set_node s a n)\<lparr>sl_memory_usage := mem\<rparr>"
  note sp = found_split [OF inv c hit]
  have len: "a < length (sl_nodes s)" using sl_inv_addr [OF inv sp(2)] by simp
  have vw: "sl_view ?t X = sl_view s X" if "a \<notin> set X" for X
    unfolding sl_view_def by (rule map_cong) (use that in \<open>auto simp: set_node_def intro: arg_cong [OF nth_list_update_neq]\<close>)
  have "sl_view ?t (?A @ a # ?B) = sl_view s ?A @ (k, v, d) # sl_view s ?B"
    using vw [of ?A] vw [of ?B] hit(2) n len by (simp add: sl_view_simps) (simp add: set_node_def)
  then show ?thesis using sp(1) by (simp add: kv_insert_def view_filter [of "\<lambda>x. cmp x k < 0"] view_filter [of "\<lambda>x. 0 < cmp x k"])
qed

lemma update_value_ok:
  assumes mem: "alloc_ok w"
  shows "\<exists>n mem'. update_value s a v w = (STATUS_OK, (set_node s a n)\<lparr>sl_memory_usage := mem'\<rparr>, w) \<and>
    sn_key n = key_at s a \<and> sn_level n = sn_level (sl_nodes s ! a) \<and> sn_forward n = sn_forward (sl_nodes s ! a) \<and>
    sn_value_len n = length (opt_bytes (sn_value n)) \<and> node_entry n = (key_at s a, opt_bytes v, False)"
proof -
  define n where "n = (sl_nodes s ! a)\<lparr>sn_value := (if opt_bytes v = [] then None else v),
    sn_value_len := length (opt_bytes v), sn_deleted := False\<rparr>"
  define mem' where "mem' = sl_memory_usage s - of_nat (sn_value_len (sl_nodes s ! a)) + of_nat (length (opt_bytes v))"
  have "update_value s a v w = (STATUS_OK, (set_node s a n)\<lparr>sl_memory_usage := mem'\<rparr>, w)"
    using mem by (cases v) (simp_all add: update_value_def Let_def set_node_def opt_bytes_def n_def mem'_def)
  then show ?thesis
    by (intro exI [of _ n] exI [of _ mem']) (cases v; simp add: n_def opt_bytes_def node_entry_def key_at_def)
qed

section \<open>Lookup, deletion and iteration\<close>

lemma view_sorted:
  assumes "sl_inv s ns" and "sl_compare s = cmp"
  shows "sorted_wrt (\<lambda>x y. cmp (fst x) (fst y) < 0) (sl_view s ns)"
  using assms by (simp add: sl_inv_def sl_view_def sorted_wrt_map node_entry_def key_at_def)

lemma view_lookup_hit:
  assumes inv: "sl_inv s ns" and c: "sl_compare s = cmp"
    and hit: "filter (\<lambda>b. \<not> cmp (key_at s b) k < 0) ns = a # as" "key_at s a = k"
  shows "map_of (sl_view s ns) k = Some (snd (node_entry (sl_nodes s ! a)))"
proof -
  let ?A = "filter (\<lambda>b. cmp (key_at s b) k < 0) ns"
  have "map_of (sl_view s ?A) k = None" by (auto simp: map_of_eq_None_iff sl_view_def node_entry_def key_at_def)
  moreover have "fst (node_entry (sl_nodes s ! a)) = k" using hit(2) by (simp add: node_entry_def key_at_def)
  ultimately show ?thesis
    by (subst found_split(1) [OF inv c hit]) (cases "node_entry (sl_nodes s ! a)", simp add: sl_view_simps map_add_def)
qed

lemma view_lookup_miss:
  assumes "\<forall>a \<in> set ns. key_at s a \<noteq> k"
  shows "map_of (sl_view s ns) k = None"
  using assms by (auto simp: map_of_eq_None_iff sl_view_def node_entry_def key_at_def)

text \<open>The three outcomes of a search, once and for all.\<close>

lemma search_cases:
  assumes inv: "sl_inv s ns" and c: "sl_compare s = cmp"
  obtains (hit) a as where "filter (\<lambda>b. \<not> cmp (key_at s b) k < 0) ns = a # as" "key_at s a = k" "a \<in> set ns"
      "search s k = Some (map (pos s k ns) [0..<sl_level s], Some a, True)"
      "map_of (sl_view s ns) k = Some (snd (node_entry (sl_nodes s ! a)))"
  | (miss) x where "\<forall>a \<in> set ns. key_at s a \<noteq> k" "search s k = Some (map (pos s k ns) [0..<sl_level s], x, False)"
      "map_of (sl_view s ns) k = None"
proof (cases "\<exists>a as. filter (\<lambda>b. \<not> cmp (key_at s b) k < 0) ns = a # as \<and> key_at s a = k")
  case True
  then obtain a as where a: "filter (\<lambda>b. \<not> cmp (key_at s b) k < 0) ns = a # as" "key_at s a = k" by blast
  then show ?thesis
    using search_spec [OF inv c, of k] found_split(2) [OF inv c a] view_lookup_hit [OF inv c a] by (intro hit) simp_all
next
  case False
  have so: "sorted_wrt (\<lambda>a b. cmp (key_at s a) (key_at s b) < 0) ns" using inv c by (simp add: sl_inv_def)
  have "filter (\<lambda>b. key_at s b = k) ns = []"
  proof (rule ccontr)
    assume ne: "filter (\<lambda>b. key_at s b = k) ns \<noteq> []"
    then obtain a as where a: "filter (\<lambda>b. key_at s b = k) ns = a # as" by (cases "filter (\<lambda>b. key_at s b = k) ns") auto
    then have "key_at s a = k" by (metis (mono_tags, lifting) filter_eq_ConsD)
    then show False using False sorted_hit(1) [OF so, of k] a by simp
  qed
  then have absent: "\<forall>a \<in> set ns. key_at s a \<noteq> k" by (simp add: filter_empty_conv)
  obtain x where "search s k = Some (map (pos s k ns) [0..<sl_level s], x, False)"
    using search_spec [OF inv c, of k] False by (cases "filter (\<lambda>b. \<not> cmp (key_at s b) k < 0) ns") auto
  then show ?thesis using absent view_lookup_miss [OF absent] by (intro miss)
qed

lemma skiplist_put_spec:
  assumes inv: "sl_inv s ns" and c: "sl_compare s = cmp" and k: "k \<noteq> []" and mem: "alloc_ok w"
  shows "\<exists>s' w' ns'. skiplist_put s k v w = Some (STATUS_OK, s', w') \<and> sl_inv s' ns' \<and>
    sl_view s' ns' = kv_insert cmp k (opt_bytes v) False (sl_view s ns) \<and> sl_compare s' = cmp \<and> alloc_ok w'"
  using inv c
proof (cases rule: search_cases [where k = k])
  case (miss x)
  then show ?thesis
    using insert_node_spec [OF inv c miss(1) k, of v w] k mem by (auto simp: skiplist_put_def split: option.split)
next
  case (hit a as)
  obtain n mem' where u: "update_value s a v w = (STATUS_OK, (set_node s a n)\<lparr>sl_memory_usage := mem'\<rparr>, w)"
    and n: "sn_key n = key_at s a" "sn_level n = sn_level (sl_nodes s ! a)" "sn_forward n = sn_forward (sl_nodes s ! a)"
    "sn_value_len n = length (opt_bytes (sn_value n))" "node_entry n = (k, opt_bytes v, False)"
    using update_value_ok [OF mem, of s a v] hit(2) by auto
  show ?thesis
    using set_node_inv [OF inv hit(3) n(1-4)] set_node_view [OF inv c hit(1,2) n(5)] u k mem hit(4) c
    by (auto simp: skiplist_put_def set_node_def)
qed

lemma skiplist_get_spec:
  assumes inv: "sl_inv s ns" and c: "sl_compare s = cmp" and k: "k \<noteq> []"
  shows "case map_of (sl_view s ns) k of
      Some (v, False) \<Rightarrow> \<exists>p. skiplist_get s k = Some (STATUS_OK, Some (p, length v)) \<and> opt_bytes p = v
    | _ \<Rightarrow> skiplist_get s k = Some (STATUS_NOT_FOUND, None)"
  using inv c
proof (cases rule: search_cases [where k = k])
  case (miss x)
  then show ?thesis using k by (auto simp: skiplist_get_def split: option.split)
next
  case (hit a as)
  have "get_node s a = Some (sl_nodes s ! a)" "node_wf (sl_level s) (sl_nodes s ! a)"
    using sl_inv_addr [OF inv hit(3)] by (simp_all add: get_node_def)
  then show ?thesis
    using hit(4,5) k by (cases "sn_deleted (sl_nodes s ! a)") (auto simp: skiplist_get_def node_entry_def node_wf_def)
qed

lemma skiplist_contains_spec:
  assumes inv: "sl_inv s ns" and c: "sl_compare s = cmp" and k: "k \<noteq> []"
  shows "skiplist_contains s k = Some (map_of (sl_view s ns) k \<noteq> None)"
  using inv c by (cases rule: search_cases [where k = k]) (use k in \<open>simp_all add: skiplist_contains_def\<close>)

lemma mark_deleted_spec:
  assumes inv: "sl_inv s ns" and c: "sl_compare s = cmp"
  shows "case map_of (sl_view s ns) k of
      None \<Rightarrow> mark_deleted s k = Some (s, False)
    | Some (v, d) \<Rightarrow> \<exists>s'. mark_deleted s k = Some (s', True) \<and> sl_inv s' ns \<and> sl_compare s' = cmp \<and>
        sl_view s' ns = kv_insert cmp k v True (sl_view s ns)"
  using inv c
proof (cases rule: search_cases [where k = k])
  case (miss x)
  then show ?thesis by (auto simp: mark_deleted_def split: option.split)
next
  case (hit a as)
  let ?n = "(sl_nodes s ! a)\<lparr>sn_deleted := True\<rparr>"
  have n: "sn_key ?n = key_at s a" "sn_level ?n = sn_level (sl_nodes s ! a)" "sn_forward ?n = sn_forward (sl_nodes s ! a)"
    "sn_value_len ?n = length (opt_bytes (sn_value ?n))" "node_entry ?n = (k, opt_bytes (sn_value (sl_nodes s ! a)), True)"
    using sl_inv_addr [OF inv hit(3)] hit(2) by (simp_all add: key_at_def node_wf_def node_entry_def)
  have same: "(set_node s a ?n)\<lparr>sl_memory_usage := sl_memory_usage s\<rparr> = set_node s a ?n" by (simp add: set_node_def)
  show ?thesis
    using set_node_inv [OF inv hit(3) n(1-4), of "sl_memory_usage s"] c hit(4,5)
      set_node_view [OF inv c hit(1,2) n(5), of "sl_memory_usage s"]
    unfolding same by (auto simp: mark_deleted_def node_entry_def set_node_def)
qed

text \<open>Reference lookups and updates on the abstract content.\<close>

lemma map_of_kv_insert: "map_of (kv_insert cmp k v d m) = (map_of m)(k \<mapsto> (v, d))"
proof -
  have below: "map_of (filter (\<lambda>e. P (fst e)) m) x = (if P x then map_of m x else None)" for P x
    by (induction m) auto
  have "cmp x k < 0 \<or> 0 < cmp x k" if "x \<noteq> k" for x using that cmp_eq [of x k] by linarith
  then show ?thesis
    by (auto simp: fun_eq_iff kv_insert_def map_add_def below [of "\<lambda>x. cmp x k < 0"] below [of "\<lambda>x. 0 < cmp x k"]
        cmp_eq split: option.split)
qed

lemma kv_insert_twice: "kv_insert cmp k v d (kv_insert cmp k v' d' m) = kv_insert cmp k v d m"
proof -
  have "filter (\<lambda>e. cmp (fst e) k < 0) (filter (\<lambda>e. 0 < cmp (fst e) k) m) = []"
    "filter (\<lambda>e. 0 < cmp (fst e) k) (filter (\<lambda>e. cmp (fst e) k < 0) m) = []"
    by (auto simp: filter_empty_conv)
  then show ?thesis by (simp add: kv_insert_def)
qed

lemma skiplist_delete_spec:
  assumes inv: "sl_inv s ns" and c: "sl_compare s = cmp" and k: "k \<noteq> []" and mem: "alloc_ok w"
  shows "\<exists>s' w' ns'. skiplist_delete s k w = Some (STATUS_OK, s', w') \<and> sl_inv s' ns' \<and>
    sl_view s' ns' = kv_delete cmp k (sl_view s ns) \<and> sl_compare s' = cmp \<and> alloc_ok w'"
proof (cases "map_of (sl_view s ns) k")
  case (Some e)
  then show ?thesis
    using mark_deleted_spec [OF inv c, of k] k mem by (cases e) (auto simp: skiplist_delete_def kv_delete_def)
next
  case None
  obtain s1 w1 ns1 where p: "skiplist_put s k None w = Some (STATUS_OK, s1, w1)" "sl_inv s1 ns1"
    "sl_view s1 ns1 = kv_insert cmp k [] False (sl_view s ns)" "sl_compare s1 = cmp" "alloc_ok w1"
    using skiplist_put_spec [OF inv c k mem, of None] by (auto simp: opt_bytes_def)
  then show ?thesis
    using mark_deleted_spec [OF p(2,4), of k] mark_deleted_spec [OF inv c, of k] k None
    by (auto simp: skiplist_delete_def kv_delete_def map_of_kv_insert kv_insert_twice)
qed

text \<open>Iterators: a position stands for the nodes still to come.\<close>

lemma linked_head: "linked f x xs \<Longrightarrow> f x = Some (case xs of [] \<Rightarrow> None | a # _ \<Rightarrow> Some a)"
  by (cases xs) auto

lemma linked_bottom:
  assumes inv: "sl_inv s ns"
  shows "linked (forward s 0) 0 ns"
proof -
  have "\<forall>i < SKIPLIST_MAX_LEVEL. linked (forward s i) 0 (chain s ns i)" using inv unfolding sl_inv_def by blast
  then have "linked (forward s 0) 0 (chain s ns 0)" by simp
  then show ?thesis by (simp only: chain_zero [OF inv])
qed

lemma iter_next_spec:
  assumes inv: "sl_inv s (A @ a # B)"
  shows "forward s 0 a = Some (case B of [] \<Rightarrow> None | b # _ \<Rightarrow> Some b)"
proof -
  have "linked (forward s 0) 0 (A @ a # B)" by (rule linked_bottom [OF inv])
  then have "linked (forward s 0) a B" using linked_append [of "forward s 0" 0 "A @ [a]" B] by simp
  then show ?thesis by (rule linked_head)
qed

lemma iter_first_spec:
  assumes inv: "sl_inv s ns"
  shows "forward s 0 0 = Some (case ns of [] \<Rightarrow> None | b # _ \<Rightarrow> Some b)"
  by (rule linked_head [OF linked_bottom [OF inv]])

lemma iter_seek_spec:
  assumes inv: "sl_inv s ns" and c: "sl_compare s = cmp" and k: "k \<noteq> []"
  shows "skiplist_iter_seek s k it = Some (case dropWhile (\<lambda>a. cmp (key_at s a) k < 0) ns of [] \<Rightarrow> None | b # _ \<Rightarrow> Some b)"
proof -
  have so: "sorted_wrt (\<lambda>a b. cmp (key_at s a) (key_at s b) < 0) ns" using inv c by (simp add: sl_inv_def)
  show ?thesis
    using descend_spec [OF inv c, of k] forward_pos [OF inv c, of 0 k] k chain_zero [OF inv] sorted_takeWhile [OF so, of k]
    by (simp add: skiplist_iter_seek_def)
qed

end

section \<open>Stores of keys and values\<close>

text \<open>The reference: a list of (key, value, tombstone) in key order, and its updates.\<close>

datatype kv_op = Put bytes "bytes option" | Delete bytes

fun op_key :: "kv_op \<Rightarrow> bytes" where
  "op_key (Put k v) = k"
| "op_key (Delete k) = k"

fun kv_step :: "compare_fn \<Rightarrow> kv_list \<Rightarrow> kv_op \<Rightarrow> kv_list" where
  "kv_step cmp m (Put k v) = kv_insert cmp k (opt_bytes v) False m"
| "kv_step cmp m (Delete k) = kv_delete cmp k m"

text \<open>What a reader of the reference finds: the value of a key that is present and not deleted.\<close>

definition kv_get :: "kv_list \<Rightarrow> bytes \<Rightarrow> bytes option" where
  "kv_get m k = (case map_of m k of Some (v, False) \<Rightarrow> Some v | _ \<Rightarrow> None)"

text \<open>A sequence of operations that all have to succeed.\<close>

fun kv_run ::
  "('s \<Rightarrow> kv_op \<Rightarrow> world \<Rightarrow> (status_t \<times> 's \<times> world) option) \<Rightarrow> 's \<Rightarrow> kv_op list \<Rightarrow> world \<Rightarrow> ('s \<times> world) option"
where
  "kv_run step s [] w = Some (s, w)"
| "kv_run step s (x # xs) w =
     (case step s x w of Some (STATUS_OK, s, w) \<Rightarrow> kv_run step s xs w | _ \<Rightarrow> None)"

text \<open>Operations every store accepts: the key is not empty, and key and value fit in a log record.\<close>

fun op_ok :: "kv_op \<Rightarrow> bool" where
  "op_ok (Put k v) \<longleftrightarrow> k \<noteq> [] \<and> 13 + length k + length (opt_bytes v) < 2 ^ 32"
| "op_ok (Delete k) \<longleftrightarrow> k \<noteq> [] \<and> 13 + length k < 2 ^ 32"

lemma op_ok_key: "op_ok x \<Longrightarrow> op_key x \<noteq> []"
  by (cases x) auto

text \<open>The contract of a store: every acceptable operation succeeds and acts on the represented content
  as on the reference. What a state represents may depend on the world (a log file). The skip list,
  the memtable and the storage engine all satisfy the contract.\<close>

locale kv_store = key_order +
  fixes step :: "'s \<Rightarrow> kv_op \<Rightarrow> world \<Rightarrow> (status_t \<times> 's \<times> world) option"
    and rep :: "'s \<Rightarrow> world \<Rightarrow> kv_list \<Rightarrow> bool"
  assumes step_refines: "rep s w m \<Longrightarrow> op_ok x \<Longrightarrow>
      \<exists>s' w'. step s x w = Some (STATUS_OK, s', w') \<and> rep s' w' (kv_step cmp m x)"
begin

lemma run_refines:
  assumes "rep s w m" and "\<forall>x \<in> set xs. op_ok x"
  shows "\<exists>s' w'. kv_run step s xs w = Some (s', w') \<and> rep s' w' (foldl (kv_step cmp) m xs)"
  using assms
proof (induction xs arbitrary: s m w)
  case Nil
  then show ?case by simp
next
  case (Cons x xs)
  obtain s1 w1 where "step s x w = Some (STATUS_OK, s1, w1)" "rep s1 w1 (kv_step cmp m x)"
    using step_refines [OF Cons.prems(1), of x] Cons.prems(2) by auto
  then show ?case using Cons.IH [of s1 w1 "kv_step cmp m x"] Cons.prems(2) by simp
qed

end

context key_order
begin

lemma kv_get_step:
  "kv_get (kv_step cmp m x) k =
     (if k = op_key x then (case x of Put _ v \<Rightarrow> Some (opt_bytes v) | Delete _ \<Rightarrow> None) else kv_get m k)"
  by (cases x) (auto simp: kv_get_def kv_delete_def map_of_kv_insert split: option.split)

text \<open>Of a sequence of operations a reader sees the last one on its key.\<close>

lemma kv_get_steps:
  "kv_get (foldl (kv_step cmp) m xs) k =
     (case filter (\<lambda>x. op_key x = k) (rev xs) of
        [] \<Rightarrow> kv_get m k
      | Put _ v # _ \<Rightarrow> Some (opt_bytes v)
      | Delete _ # _ \<Rightarrow> None)"
  by (induction xs rule: rev_induct) (auto simp: kv_get_step split: kv_op.split)

lemma kv_get_Nil [simp]: "kv_get [] k = None"
  by (simp add: kv_get_def)

lemma kv_keys_steps: "fst ` set (foldl (kv_step cmp) m xs) = fst ` set m \<union> op_key ` set xs"
proof (induction xs rule: rev_induct)
  case Nil
  then show ?case by simp
next
  case (snoc x xs)
  have ins: "fst ` set (kv_insert cmp k v d m) = insert k (fst ` set m)" for k v d m
    using map_of_kv_insert [of k v d m] by (metis dom_fun_upd dom_map_of_conv_image_fst option.distinct(1))
  then have "fst ` set (kv_step cmp m x) = insert (op_key x) (fst ` set m)" for m
    by (cases x) (auto simp: kv_delete_def split: option.split)
  then show ?case using snoc by auto
qed

lemma sorted_distinct:
  "sorted_wrt (\<lambda>x y. cmp (fst x) (fst y) < 0) m \<Longrightarrow> distinct (map fst m)"
  by (induction m) (fastforce simp: cmp_eq [symmetric])+

lemma sorted_kv_insert:
  assumes "sorted_wrt (\<lambda>x y. cmp (fst x) (fst y) < 0) m"
  shows "sorted_wrt (\<lambda>x y. cmp (fst x) (fst y) < 0) (kv_insert cmp k v d m)"
proof -
  have "cmp k b < 0" if "0 < cmp b k" for b using that by (simp add: cmp_flip)
  moreover have "cmp a b < 0" if "cmp a k < 0" "0 < cmp b k" for a b
    using that by (auto simp: cmp_flip [of k b, symmetric] intro: cmp_trans)
  ultimately show ?thesis
    using assms by (auto simp: kv_insert_def sorted_wrt_append intro: sorted_wrt_filter)
qed

end

section \<open>The skip list refines a sorted list\<close>

definition sl_rep :: "compare_fn \<Rightarrow> skiplist \<Rightarrow> kv_list \<Rightarrow> bool" where
  "sl_rep cmp s m \<longleftrightarrow> (\<exists>ns. sl_inv s ns \<and> sl_compare s = cmp \<and> sl_view s ns = m)"

fun sl_step :: "skiplist \<Rightarrow> kv_op \<Rightarrow> world \<Rightarrow> (status_t \<times> skiplist \<times> world) option" where
  "sl_step s (Put k v) w = skiplist_put s k v w"
| "sl_step s (Delete k) w = skiplist_delete s k w"

context key_order
begin

lemma sl_step_refines:
  assumes "sl_rep cmp s m" and "alloc_ok w" and "op_key x \<noteq> []"
  shows "\<exists>s' w'. sl_step s x w = Some (STATUS_OK, s', w') \<and> alloc_ok w' \<and> sl_rep cmp s' (kv_step cmp m x)"
proof -
  obtain ns where ns: "sl_inv s ns" "sl_compare s = cmp" "m = sl_view s ns" using assms(1) by (auto simp: sl_rep_def)
  show ?thesis
    using skiplist_put_spec [OF ns(1,2) _ assms(2)] skiplist_delete_spec [OF ns(1,2) _ assms(2)] assms(3)
    unfolding sl_rep_def ns(3) by (cases x) fastforce+
qed

lemma sl_rep_sorted: "sl_rep cmp s m \<Longrightarrow> sorted_wrt (\<lambda>x y. cmp (fst x) (fst y) < 0) m"
  by (auto simp: sl_rep_def dest: view_sorted)

lemma sl_rep_get:
  assumes "sl_rep cmp s m" and "k \<noteq> []"
  shows "case kv_get m k of
      Some v \<Rightarrow> \<exists>p. skiplist_get s k = Some (STATUS_OK, Some (p, length v)) \<and> opt_bytes p = v
    | None \<Rightarrow> skiplist_get s k = Some (STATUS_NOT_FOUND, None)"
proof -
  obtain ns where ns: "sl_inv s ns" "sl_compare s = cmp" "m = sl_view s ns" using assms(1) by (auto simp: sl_rep_def)
  show ?thesis
    using skiplist_get_spec [OF ns(1,2) assms(2)] by (auto simp: kv_get_def ns(3) split: option.splits bool.splits)
qed

lemma sl_rep_count: "sl_rep cmp s m \<Longrightarrow> skiplist_count s = length m"
  by (auto simp: sl_rep_def sl_inv_def sl_view_def skiplist_count_def)

lemma sl_rep_search: "sl_rep cmp s m \<Longrightarrow> \<exists>r. search s k = Some r"
  unfolding sl_rep_def using search_spec by blast

end

interpretation sl_store: kv_store default_compare sl_step "\<lambda>s w m. sl_rep default_compare s m \<and> alloc_ok w"
  by unfold_locales (auto dest: op_ok_key dk.sl_step_refines)

lemma skiplist_create_rep:
  assumes "alloc_ok w"
  shows "\<exists>s. skiplist_create cmp w = (Some s, w) \<and>
    sl_rep (case cmp of None \<Rightarrow> default_compare | Some f \<Rightarrow> f) s []"
proof -
  obtain s where s: "skiplist_create cmp w = (Some s, w)"
    using assms by (simp add: skiplist_create_def)
  then have "sl_inv s []" "sl_compare s = (case cmp of None \<Rightarrow> default_compare | Some f \<Rightarrow> f)"
    using assms by (auto simp: skiplist_create_def sl_inv_def chain_def forward_def get_node_def)
  then show ?thesis using s by (auto simp: sl_rep_def sl_view_def)
qed

section \<open>What the operations leave alone\<close>

text \<open>The skip list allocates and draws random numbers; it does no input or output.\<close>

definition same_io :: "world \<Rightarrow> world \<Rightarrow> bool" where
  "same_io w w' \<longleftrightarrow> w_io w' = w_io w \<and> w_fs w' = w_fs w \<and> (alloc_ok w \<longrightarrow> alloc_ok w')"

lemma malloc_io: "malloc w = (b, w') \<Longrightarrow> w_io w' = w_io w \<and> w_fs w' = w_fs w \<and> (alloc_ok w \<longrightarrow> alloc_ok w')"
  by (auto simp: malloc_def alloc_ok_def split: list.splits)

lemma same_io_simps [simp]: "same_io w w" "malloc w = (b, w') \<Longrightarrow> same_io w w'"
  by (auto simp: same_io_def dest: malloc_io)

lemma same_io_trans: "same_io w w' \<Longrightarrow> same_io w' w'' \<Longrightarrow> same_io w w''"
  by (simp add: same_io_def)

lemma random_level_loop_io: "random_level_loop l w = (l', w') \<Longrightarrow> same_io w w'"
proof (induction l w rule: random_level_loop.induct)
  case (1 l w)
  obtain r v where r: "rand w = (r, v)" by fastforce
  have "same_io w v" using rand_frame [OF r] by (simp add: same_io_def alloc_ok_def)
  then show ?case
    using "1.IH" [OF r [symmetric]] "1.prems" r
    by (subst (asm) random_level_loop.simps) (auto split: if_splits intro: same_io_trans)
qed

lemma create_node_io: "create_node l k v w = (r, w') \<Longrightarrow> same_io w w'"
  by (auto simp: create_node_def Let_def same_io_def split: prod.splits if_splits option.splits dest!: malloc_io)

lemma insert_node_io: "insert_node s u k v w = Some (st, s', w') \<Longrightarrow> same_io w w'"
proof -
  assume ins: "insert_node s u k v w = Some (st, s', w')"
  obtain l w1 where l: "random_level w = (l, w1)" by fastforce
  obtain r w2 where r: "create_node l k v w1 = (r, w2)" by fastforce
  have "same_io w w1" "same_io w1 w2"
    using random_level_loop_io [of 1 w l w1] create_node_io [OF r] l by (simp_all add: random_level_def)
  moreover have "w' = w2"
    using ins l r by (auto simp: insert_node_def Let_def split: option.splits if_splits prod.splits bind_splits)
  ultimately show ?thesis by (auto intro: same_io_trans)
qed

lemma skiplist_put_io: "skiplist_put s k v w = Some (st, s', w') \<Longrightarrow> same_io w w'"
  by (auto simp: skiplist_put_def update_value_def Let_def split: bind_splits option.splits if_splits prod.splits
      dest: insert_node_io)

lemma sl_step_io: "sl_step s x w = Some (st, s', w') \<Longrightarrow> same_io w w'"
  by (cases x) (auto simp: skiplist_delete_def split: bind_splits if_splits prod.splits dest: skiplist_put_io)

section \<open>Properties\<close>

text \<open>The content after a sequence of operations on a new list.\<close>

lemma skiplist_run:
  assumes "skiplist_create None w = (Some s, w0)" and "alloc_ok w" and "\<forall>x \<in> set xs. op_ok x"
  shows "\<exists>s' w'. kv_run sl_step s xs w0 = Some (s', w') \<and> sl_rep default_compare s' (foldl (kv_step default_compare) [] xs)"
proof -
  have "w0 = w" "sl_rep default_compare s []" using skiplist_create_rep [OF assms(2), of None] assms(1) by auto
  then show ?thesis using sl_store.run_refines [where s = s and w = w and m = "[]" and xs = xs] assms(2,3) by auto
qed

text \<open>C10: The skip list refines a map. After any sequence of puts and deletes with non-empty keys on a
  new list, whatever levels the random generator draws, every call has succeeded, a lookup finds the
  value of the last put of the key, or reports not found when the key was never put or was deleted
  last, and the count is the number of distinct keys used.\<close>

theorem skiplist_refines_map:
  assumes "skiplist_create None w = (Some s, w0)" and "alloc_ok w" and "\<forall>x \<in> set xs. op_ok x"
  shows "\<exists>s' w'. kv_run sl_step s xs w0 = Some (s', w') \<and>
    (\<forall>k. k \<noteq> [] \<longrightarrow> (case filter (\<lambda>x. op_key x = k) (rev xs) of
        Put _ v # _ \<Rightarrow> \<exists>p. skiplist_get s' k = Some (STATUS_OK, Some (p, length (opt_bytes v))) \<and> opt_bytes p = opt_bytes v
      | _ \<Rightarrow> skiplist_get s' k = Some (STATUS_NOT_FOUND, None))) \<and>
    skiplist_count s' = card (op_key ` set xs)"
proof -
  let ?m = "foldl (kv_step default_compare) [] xs"
  obtain s' w' where run: "kv_run sl_step s xs w0 = Some (s', w')" and rep: "sl_rep default_compare s' ?m"
    using skiplist_run [OF assms] by blast
  have last: "kv_get ?m k = (case filter (\<lambda>x. op_key x = k) (rev xs) of Put _ v # _ \<Rightarrow> Some (opt_bytes v) | _ \<Rightarrow> None)" for k
    by (auto simp: dk.kv_get_steps split: list.split)
  have get: "case filter (\<lambda>x. op_key x = k) (rev xs) of
      Put _ v # _ \<Rightarrow> \<exists>p. skiplist_get s' k = Some (STATUS_OK, Some (p, length (opt_bytes v))) \<and> opt_bytes p = opt_bytes v
    | _ \<Rightarrow> skiplist_get s' k = Some (STATUS_NOT_FOUND, None)" if "k \<noteq> []" for k
    using dk.sl_rep_get [OF rep that] unfolding last by (auto split: list.splits kv_op.splits)
  have "length ?m = card (set (map fst ?m))"
    using dk.sorted_distinct [OF dk.sl_rep_sorted [OF rep]] by (metis distinct_card length_map)
  also have "set (map fst ?m) = op_key ` set xs" by (simp add: dk.kv_keys_steps)
  finally show ?thesis using run get dk.sl_rep_count [OF rep] by auto
qed

theorem skiplist_refines_map_witness:
  "\<exists>s s' w'. skiplist_create None quiet_world = (Some s, quiet_world) \<and>
    kv_run sl_step s [Put [2] (Some [7]), Put [1] (Some [8]), Delete [2], Put [1] (Some [9])] quiet_world = Some (s', w') \<and>
    skiplist_get s' [2] = Some (STATUS_NOT_FOUND, None) \<and>
    (\<exists>p. skiplist_get s' [1] = Some (STATUS_OK, Some (p, 1)) \<and> opt_bytes p = [9]) \<and> skiplist_count s' = 2"
proof -
  let ?xs = "[Put [2] (Some [7]), Put [1] (Some [8]), Delete [2], Put [1] (Some [9])] :: kv_op list"
  obtain s where s: "skiplist_create None quiet_world = (Some s, quiet_world)"
    using skiplist_create_rep [of quiet_world None] by auto
  have ok: "\<forall>x \<in> set ?xs. op_ok x" by (simp add: opt_bytes_def)
  obtain s' w' where r: "kv_run sl_step s ?xs quiet_world = Some (s', w')"
    "\<forall>k. k \<noteq> [] \<longrightarrow> (case filter (\<lambda>x. op_key x = k) (rev ?xs) of
        Put _ v # _ \<Rightarrow> \<exists>p. skiplist_get s' k = Some (STATUS_OK, Some (p, length (opt_bytes v))) \<and> opt_bytes p = opt_bytes v
      | _ \<Rightarrow> skiplist_get s' k = Some (STATUS_NOT_FOUND, None))"
    "skiplist_count s' = card (op_key ` set ?xs)"
    using skiplist_refines_map [OF s _ ok] by auto
  have "card (op_key ` set ?xs) = 2" by (simp add: card_insert_if)
  then show ?thesis
    using s r(1,3) r(2) [rule_format, of "[1]"] r(2) [rule_format, of "[2]"] by (auto simp: opt_bytes_def)
qed

text \<open>C32: Searches end. In a list reached by puts and deletes the walk along the forward pointers
  returns for every key: it leaves one predecessor per level in use, each an allocated node whose
  forward array has that level.\<close>

theorem skiplist_search_returns:
  assumes "skiplist_create None w = (Some s, w0)" and "alloc_ok w" and "\<forall>x \<in> set xs. op_ok x"
    and "kv_run sl_step s xs w0 = Some (s', w')"
  shows "\<exists>update x found. search s' k = Some (update, x, found) \<and> length update = sl_level s' \<and>
    (\<forall>i < sl_level s'. update ! i < length (sl_nodes s') \<and> i < length (sn_forward (sl_nodes s' ! (update ! i))))"
proof -
  obtain ns where ns: "sl_inv s' ns" "sl_compare s' = default_compare"
    using skiplist_run [OF assms(1-3)] assms(4) by (auto simp: sl_rep_def)
  have "sl_level s' \<le> SKIPLIST_MAX_LEVEL" using ns(1) by (simp add: sl_inv_def)
  then show ?thesis
    using dk.search_spec [OF ns, of k] dk.pos_addr [OF ns, of _ k] by (auto split: list.split)
qed

theorem skiplist_search_returns_witness:
  "\<exists>s s' w' update x found. skiplist_create None quiet_world = (Some s, quiet_world) \<and>
    kv_run sl_step s [Put [1] (Some [8])] quiet_world = Some (s', w') \<and>
    search s' [1] = Some (update, x, found) \<and> length update = sl_level s'"
proof -
  obtain s where s: "skiplist_create None quiet_world = (Some s, quiet_world)"
    using skiplist_create_rep [of quiet_world None] by auto
  have ok: "\<forall>x \<in> set [Put [1] (Some [8])]. op_ok x" by (simp add: opt_bytes_def)
  obtain s' w' where r: "kv_run sl_step s [Put [1] (Some [8])] quiet_world = Some (s', w')"
    using skiplist_run [OF s _ ok] by auto
  then show ?thesis using s skiplist_search_returns [OF s _ ok r, of "[1]"] by auto
qed

end
