(* ===== verification/SE_Memtable.thy ===== *)
theory SE_Memtable
  imports SE_Skiplist_Map
begin

text \<open>
  The memtable (\<^verbatim>\<open>storage-engine/src/memtable.c\<close>): a skip list with a size limit. A
  memtable pointer may be null (after an allocation failed during a flush), so the operations take
  an \<open>option\<close>; the operations that change the memtable return it. The outer option is
  undefined behaviour or a walk that never ends, as in the skip list.
\<close>

definition MEMTABLE_SIZE_LIMIT :: u64 where "MEMTABLE_SIZE_LIMIT = 4 * 1024 * 1024"

record memtable =
  mt_list :: skiplist
  mt_size_limit :: u64
  mt_seq_num :: u64

section \<open>The code\<close>

definition memtable_create :: "u64 \<Rightarrow> compare_fn option \<Rightarrow> world \<Rightarrow> memtable option \<times> world" where
  "memtable_create size_limit cmp w =
     (case malloc w of (ok, w) \<Rightarrow>
      if \<not> ok then (None, w)
      else case skiplist_create cmp w of
        (None, w) \<Rightarrow> (None, w)
      | (Some list, w) \<Rightarrow>
          (Some \<lparr>mt_list = list,
                 mt_size_limit = (if size_limit > 0 then size_limit else MEMTABLE_SIZE_LIMIT),
                 mt_seq_num = 0\<rparr>, w))"

definition memtable_put ::
  "memtable option \<Rightarrow> bytes \<Rightarrow> bytes option \<Rightarrow> world \<Rightarrow> (status_t \<times> memtable option \<times> world) option"
where
  "memtable_put mt key value w =
     (case mt of
        None \<Rightarrow> Some (STATUS_INVALID_ARG, None, w)
      | Some m \<Rightarrow> do {
          (st, list, w) \<leftarrow> skiplist_put (mt_list m) key value w;
          Some (st, Some (m\<lparr>mt_list := list\<rparr>), w)
        })"

definition memtable_get ::
  "memtable option \<Rightarrow> bytes \<Rightarrow> (status_t \<times> (bytes option \<times> nat) option) option"
where
  "memtable_get mt key =
     (case mt of None \<Rightarrow> Some (STATUS_INVALID_ARG, None) | Some m \<Rightarrow> skiplist_get (mt_list m) key)"

definition memtable_delete ::
  "memtable option \<Rightarrow> bytes \<Rightarrow> world \<Rightarrow> (status_t \<times> memtable option \<times> world) option"
where
  "memtable_delete mt key w =
     (case mt of
        None \<Rightarrow> Some (STATUS_INVALID_ARG, None, w)
      | Some m \<Rightarrow> do {
          (st, list, w) \<leftarrow> skiplist_delete (mt_list m) key w;
          Some (st, Some (m\<lparr>mt_list := list\<rparr>), w)
        })"

definition memtable_should_flush :: "memtable option \<Rightarrow> bool" where
  "memtable_should_flush mt =
     (case mt of None \<Rightarrow> False | Some m \<Rightarrow> skiplist_memory_usage (mt_list m) \<ge> mt_size_limit m)"

definition memtable_count :: "memtable option \<Rightarrow> nat" where
  "memtable_count mt = (case mt of None \<Rightarrow> 0 | Some m \<Rightarrow> skiplist_count (mt_list m))"

definition memtable_memory_usage :: "memtable option \<Rightarrow> u64" where
  "memtable_memory_usage mt = (case mt of None \<Rightarrow> 0 | Some m \<Rightarrow> skiplist_memory_usage (mt_list m))"

text \<open>The iterator of a memtable is that of its list.\<close>

definition memtable_iter_create :: "memtable option \<Rightarrow> world \<Rightarrow> skiplist_iter option \<times> world" where
  "memtable_iter_create mt w = (case mt of None \<Rightarrow> (None, w) | Some m \<Rightarrow> skiplist_iter_create w)"

definition memtable_iter_seek_to_first :: "memtable \<Rightarrow> skiplist_iter option" where
  "memtable_iter_seek_to_first m = skiplist_iter_seek_to_first (mt_list m)"

definition memtable_iter_seek :: "memtable \<Rightarrow> bytes \<Rightarrow> skiplist_iter \<Rightarrow> skiplist_iter option" where
  "memtable_iter_seek m key it = skiplist_iter_seek (mt_list m) key it"

definition memtable_iter_next :: "memtable \<Rightarrow> skiplist_iter \<Rightarrow> skiplist_iter option" where
  "memtable_iter_next m it = skiplist_iter_next (mt_list m) it"

definition memtable_iter_valid :: "skiplist_iter \<Rightarrow> bool" where
  "memtable_iter_valid it = skiplist_iter_valid it"

definition memtable_iter_key :: "memtable \<Rightarrow> skiplist_iter \<Rightarrow> bytes option" where
  "memtable_iter_key m it = skiplist_iter_key (mt_list m) it"

definition memtable_iter_value :: "memtable \<Rightarrow> skiplist_iter \<Rightarrow> (bytes option \<times> nat) option" where
  "memtable_iter_value m it = skiplist_iter_value (mt_list m) it"

definition memtable_iter_is_deleted :: "memtable \<Rightarrow> skiplist_iter \<Rightarrow> bool option" where
  "memtable_iter_is_deleted m it = skiplist_iter_is_deleted (mt_list m) it"

section \<open>The memtable refines a sorted list\<close>

definition mt_rep :: "compare_fn \<Rightarrow> memtable option \<Rightarrow> kv_list \<Rightarrow> bool" where
  "mt_rep cmp mt m \<longleftrightarrow> (case mt of None \<Rightarrow> False | Some t \<Rightarrow> sl_rep cmp (mt_list t) m)"

fun mt_step :: "memtable option \<Rightarrow> kv_op \<Rightarrow> world \<Rightarrow> (status_t \<times> memtable option \<times> world) option" where
  "mt_step mt (Put k v) w = memtable_put mt k v w"
| "mt_step mt (Delete k) w = memtable_delete mt k w"

lemma mt_step_list:
  "mt_step (Some t) x w =
     map_option (\<lambda>(st, l, w). (st, Some (t\<lparr>mt_list := l\<rparr>), w)) (sl_step (mt_list t) x w)"
  by (cases x) (auto simp: memtable_put_def memtable_delete_def split: bind_split)

lemma memtable_create_rep:
  assumes "alloc_ok w"
  shows "\<exists>t. memtable_create limit cmp w = (Some t, w) \<and>
    mt_rep (case cmp of None \<Rightarrow> default_compare | Some f \<Rightarrow> f) (Some t) []"
  using skiplist_create_rep [OF assms, of cmp] assms
  by (auto simp: memtable_create_def mt_rep_def)

context key_order
begin

lemma mt_step_refines:
  assumes "mt_rep cmp mt m" and "alloc_ok w" and "op_key x \<noteq> []"
  shows "\<exists>mt' w'. mt_step mt x w = Some (STATUS_OK, mt', w') \<and> alloc_ok w' \<and> mt_rep cmp mt' (kv_step cmp m x)"
proof -
  obtain t where t: "mt = Some t" "sl_rep cmp (mt_list t) m"
    using assms(1) by (auto simp: mt_rep_def split: option.splits)
  obtain s' w' where "sl_step (mt_list t) x w = Some (STATUS_OK, s', w')" "alloc_ok w'"
    "sl_rep cmp s' (kv_step cmp m x)"
    using sl_step_refines [OF t(2) assms(2,3)] by blast
  then show ?thesis by (simp add: t(1) mt_step_list mt_rep_def)
qed

lemma mt_rep_get:
  assumes "mt_rep cmp mt m" and "k \<noteq> []"
  shows "case kv_get m k of
      Some v \<Rightarrow> \<exists>p. memtable_get mt k = Some (STATUS_OK, Some (p, length v)) \<and> opt_bytes p = v
    | None \<Rightarrow> memtable_get mt k = Some (STATUS_NOT_FOUND, None)"
  using assms sl_rep_get [of _ m k] by (auto simp: mt_rep_def memtable_get_def split: option.splits)

lemma mt_rep_count: "mt_rep cmp mt m \<Longrightarrow> memtable_count mt = length m"
  by (auto simp: mt_rep_def memtable_count_def sl_rep_count split: option.splits)

lemma mt_rep_sorted: "mt_rep cmp mt m \<Longrightarrow> sorted_wrt (\<lambda>x y. cmp (fst x) (fst y) < 0) m"
  by (auto simp: mt_rep_def sl_rep_sorted split: option.splits)

end

interpretation mt_store: kv_store default_compare mt_step "\<lambda>t w m. mt_rep default_compare t m \<and> alloc_ok w"
  by unfold_locales (auto dest: op_ok_key dk.mt_step_refines)

lemma mt_step_io: "mt_step mt x w = Some (st, mt', w') \<Longrightarrow> same_io w w'"
proof (cases mt)
  case None
  then show "mt_step mt x w = Some (st, mt', w') \<Longrightarrow> same_io w w'"
    by (cases x) (auto simp: memtable_put_def memtable_delete_def)
next
  case (Some t)
  then show "mt_step mt x w = Some (st, mt', w') \<Longrightarrow> same_io w w'"
    by (auto simp: mt_step_list dest: sl_step_io)
qed

section \<open>Iterators\<close>

text \<open>An iterator stands for the entries from its position on.\<close>

definition node_at :: "nat list \<Rightarrow> skiplist_iter" where
  "node_at B = (case B of [] \<Rightarrow> None | b # _ \<Rightarrow> Some b)"

definition mt_iter :: "compare_fn \<Rightarrow> memtable \<Rightarrow> kv_list \<Rightarrow> skiplist_iter \<Rightarrow> kv_list \<Rightarrow> bool" where
  "mt_iter cmp t m it rest \<longleftrightarrow> (\<exists>A B. sl_inv (mt_list t) (A @ B) \<and> sl_compare (mt_list t) = cmp \<and>
     sl_view (mt_list t) (A @ B) = m \<and> sl_view (mt_list t) B = rest \<and> it = node_at B)"

lemma node_at_simps [simp]: "node_at [] = None" "node_at (b # B) = Some b" "node_at B = None \<longleftrightarrow> B = []"
  by (simp_all add: node_at_def split: list.split)

lemma mt_iter_rest: "mt_iter cmp t m it rest \<Longrightarrow> \<exists>seen. m = seen @ rest"
  by (auto simp: mt_iter_def sl_view_def)

lemma mt_iter_valid: "mt_iter cmp t m it rest \<Longrightarrow> memtable_iter_valid it \<longleftrightarrow> rest \<noteq> []"
  by (auto simp: mt_iter_def sl_view_def memtable_iter_valid_def skiplist_iter_valid_def simp del: not_None_eq)

lemma mt_iter_at:
  assumes "mt_iter cmp t m it ((k, v, d) # rest)"
  shows "memtable_iter_key t it = Some k" and "memtable_iter_is_deleted t it = Some d"
    and "\<exists>p. memtable_iter_value t it = Some (p, length v) \<and> opt_bytes p = v"
proof -
  obtain A b B where inv: "sl_inv (mt_list t) (A @ b # B)" and it: "it = Some b"
    and e: "node_entry (sl_nodes (mt_list t) ! b) = (k, v, d)"
    using assms by (auto simp: mt_iter_def sl_view_def map_eq_Cons_conv)
  have "get_node (mt_list t) b = Some (sl_nodes (mt_list t) ! b)"
    "node_wf (sl_level (mt_list t)) (sl_nodes (mt_list t) ! b)"
    using sl_inv_addr [OF inv, of b] by (simp_all add: get_node_def)
  then show "memtable_iter_key t it = Some k" "memtable_iter_is_deleted t it = Some d"
    "\<exists>p. memtable_iter_value t it = Some (p, length v) \<and> opt_bytes p = v"
    using e by (auto simp: it memtable_iter_key_def skiplist_iter_key_def memtable_iter_is_deleted_def
        skiplist_iter_is_deleted_def memtable_iter_value_def skiplist_iter_value_def node_entry_def node_wf_def)
qed

lemma mt_iter_next:
  assumes "mt_iter cmp t m it (e # rest)"
  shows "\<exists>it'. memtable_iter_next t it = Some it' \<and> mt_iter cmp t m it' rest"
proof -
  obtain A b B where it: "sl_inv (mt_list t) (A @ b # B)" "sl_compare (mt_list t) = cmp" "it = Some b"
    "sl_view (mt_list t) (A @ b # B) = m" "sl_view (mt_list t) B = rest"
    using assms by (auto simp: mt_iter_def sl_view_def map_eq_Cons_conv)
  have "memtable_iter_next t it = Some (node_at B)"
    using dk.iter_next_spec [OF it(1)] by (simp add: memtable_iter_next_def skiplist_iter_next_def it(3) node_at_def)
  moreover have "mt_iter cmp t m (node_at B) rest"
    unfolding mt_iter_def by (rule exI [of _ "A @ [b]"], rule exI [of _ B]) (use it in simp)
  ultimately show ?thesis by blast
qed

lemma mt_iter_first:
  assumes "mt_rep cmp (Some t) m"
  shows "\<exists>it. memtable_iter_seek_to_first t = Some it \<and> mt_iter cmp t m it m"
proof -
  obtain ns where ns: "sl_inv (mt_list t) ns" "sl_compare (mt_list t) = cmp" "sl_view (mt_list t) ns = m"
    using assms by (auto simp: mt_rep_def sl_rep_def)
  have "memtable_iter_seek_to_first t = Some (node_at ns)"
    using dk.iter_first_spec [OF ns(1)]
    by (simp add: memtable_iter_seek_to_first_def skiplist_iter_seek_to_first_def node_at_def)
  moreover have "mt_iter cmp t m (node_at ns) m"
    unfolding mt_iter_def by (rule exI [of _ "[]"], rule exI [of _ ns]) (use ns in simp)
  ultimately show ?thesis by blast
qed

context key_order
begin

lemma mt_iter_seek:
  assumes "mt_rep cmp (Some t) m" and "k \<noteq> []"
  shows "\<exists>it'. memtable_iter_seek t k it = Some it' \<and> mt_iter cmp t m it' (dropWhile (\<lambda>e. cmp (fst e) k < 0) m)"
proof -
  obtain ns where ns: "sl_inv (mt_list t) ns" "sl_compare (mt_list t) = cmp" "m = sl_view (mt_list t) ns"
    using assms by (auto simp: mt_rep_def sl_rep_def)
  let ?P = "\<lambda>a. cmp (key_at (mt_list t) a) k < 0"
  have "memtable_iter_seek t k it = Some (node_at (dropWhile ?P ns))"
    using iter_seek_spec [OF ns(1,2) assms(2)] by (simp add: memtable_iter_seek_def node_at_def)
  moreover have "mt_iter cmp t m (node_at (dropWhile ?P ns)) (sl_view (mt_list t) (dropWhile ?P ns))"
    unfolding mt_iter_def
    by (rule exI [of _ "takeWhile ?P ns"], rule exI [of _ "dropWhile ?P ns"]) (use ns in simp)
  moreover have "sl_view (mt_list t) (dropWhile ?P ns) = dropWhile (\<lambda>e. cmp (fst e) k < 0) m"
    by (simp add: ns(3) sl_view_def dropWhile_map comp_def node_entry_def key_at_def)
  ultimately show ?thesis by auto
qed

end

end
