(* ===== verification/SE_Storage.thy ===== *)
theory SE_Storage
  imports SE_Memtable SE_Wal
begin

text \<open>
  The storage engine on top of memtable and write-ahead log
  (\<^verbatim>\<open>storage-engine/src/storage.c\<close>): put, delete and the iterators, and recovery from the log. None
  of them reads the level manager below the memtable, whose type is the parameter \<open>'l\<close>; the
  operations that do are in SE_Database.
\<close>

record storage_opts =
  so_memtable_size :: u64
  so_block_cache_size :: u64
  so_sync_writes :: bool
  so_comparator :: "compare_fn option"

definition STORAGE_OPTS_DEFAULT :: storage_opts where
  "STORAGE_OPTS_DEFAULT = \<lparr>so_memtable_size = MEMTABLE_SIZE_LIMIT, so_block_cache_size = 8 * 1024 * 1024,
     so_sync_writes = False, so_comparator = None\<rparr>"

record 'l storage =
  db_path :: "string option"
  db_opts :: storage_opts
  db_memtable :: "memtable option"
  db_wal :: "wal option"
  db_levels :: "'l option"

section \<open>The callback of recovery\<close>

definition recover_callback :: "memtable option wal_recover_fn" where
  "recover_callback mt type key val w =
     (if type = WAL_RECORD_PUT then memtable_put mt key val w
      else if type = WAL_RECORD_DELETE then memtable_delete mt key w
      else Some (STATUS_CORRUPTION, mt, w))"

section \<open>Reading and writing\<close>

text \<open>A null key pointer is not modelled: the key may be empty.\<close>

definition storage_put ::
  "'l storage \<Rightarrow> bytes \<Rightarrow> bytes option \<Rightarrow> world \<Rightarrow> (status_t \<times> 'l storage \<times> world) option"
where
  "storage_put db key val w =
     (case (case db_wal db of
              None \<Rightarrow> (STATUS_OK, db, w)
            | Some l \<Rightarrow> (case wal_write_put l key (opt_bytes val) w of (st, l, w) \<Rightarrow> (st, db\<lparr>db_wal := Some l\<rparr>, w))) of
        (status, db, w) \<Rightarrow>
        if status \<noteq> STATUS_OK then Some (status, db, w)
        else do {
          (status, mt, w) \<leftarrow> memtable_put (db_memtable db) key val w;
          Some (status, db\<lparr>db_memtable := mt\<rparr>, w)
        })"

definition storage_delete ::
  "'l storage \<Rightarrow> bytes \<Rightarrow> world \<Rightarrow> (status_t \<times> 'l storage \<times> world) option"
where
  "storage_delete db key w =
     (case (case db_wal db of
              None \<Rightarrow> (STATUS_OK, db, w)
            | Some l \<Rightarrow> (case wal_write_delete l key w of (st, l, w) \<Rightarrow> (st, db\<lparr>db_wal := Some l\<rparr>, w))) of
        (status, db, w) \<Rightarrow>
        if status \<noteq> STATUS_OK then Some (status, db, w)
        else do {
          (status, mt, w) \<leftarrow> memtable_delete (db_memtable db) key w;
          Some (status, db\<lparr>db_memtable := mt\<rparr>, w)
        })"

definition storage_count :: "'l storage \<Rightarrow> nat" where
  "storage_count db = memtable_count (db_memtable db)"

definition storage_memory_usage :: "'l storage \<Rightarrow> u64" where
  "storage_memory_usage db = memtable_memory_usage (db_memtable db)"

section \<open>Iterators\<close>

text \<open>A storage iterator is the iterator of the memtable; it is used while that memtable exists, which
  is the argument \<open>mt\<close>. \<open>skip_deleted\<close> is the loop that ends every move.\<close>

partial_function (option) skip_deleted :: "memtable \<Rightarrow> skiplist_iter \<Rightarrow> skiplist_iter option" where
  "skip_deleted mt it =
     (if \<not> memtable_iter_valid it then Some it
      else do {
        deleted \<leftarrow> memtable_iter_is_deleted mt it;
        if deleted then do { it \<leftarrow> memtable_iter_next mt it; skip_deleted mt it } else Some it
      })"

declare skip_deleted.simps [code]

definition storage_iter_create :: "'l storage \<Rightarrow> world \<Rightarrow> skiplist_iter option \<times> world" where
  "storage_iter_create db w =
     (case malloc w of (ok, w) \<Rightarrow> if \<not> ok then (None, w) else memtable_iter_create (db_memtable db) w)"

definition storage_iter_seek_to_first :: "memtable \<Rightarrow> skiplist_iter option" where
  "storage_iter_seek_to_first mt = do { it \<leftarrow> memtable_iter_seek_to_first mt; skip_deleted mt it }"

definition storage_iter_seek :: "memtable \<Rightarrow> bytes \<Rightarrow> skiplist_iter \<Rightarrow> skiplist_iter option" where
  "storage_iter_seek mt key it = do { it \<leftarrow> memtable_iter_seek mt key it; skip_deleted mt it }"

definition storage_iter_valid :: "skiplist_iter \<Rightarrow> bool" where
  "storage_iter_valid it = memtable_iter_valid it"

definition storage_iter_next :: "memtable \<Rightarrow> skiplist_iter \<Rightarrow> skiplist_iter option" where
  "storage_iter_next mt it = do { it \<leftarrow> memtable_iter_next mt it; skip_deleted mt it }"

definition storage_iter_key :: "memtable \<Rightarrow> skiplist_iter \<Rightarrow> bytes option" where
  "storage_iter_key mt it = memtable_iter_key mt it"

definition storage_iter_value :: "memtable \<Rightarrow> skiplist_iter \<Rightarrow> (bytes option \<times> nat) option" where
  "storage_iter_value mt it = memtable_iter_value mt it"

section \<open>Iteration visits the live entries in key order\<close>

lemma skip_deleted_spec:
  assumes "mt_iter cmp t m it rest"
  shows "\<exists>it'. skip_deleted t it = Some it' \<and> mt_iter cmp t m it' (dropWhile (\<lambda>(k, v, d). d) rest)"
  using assms
proof (induction rest arbitrary: it)
  case Nil
  then show ?case using mt_iter_valid [OF Nil] by (subst skip_deleted.simps) auto
next
  case (Cons e rest)
  obtain k v d where e: "e = (k, v, d)" by (cases e)
  obtain it1 where it1: "memtable_iter_next t it = Some it1" "mt_iter cmp t m it1 rest"
    using mt_iter_next [OF Cons.prems] by blast
  show ?case
    using mt_iter_valid [OF Cons.prems] mt_iter_at(2) [OF Cons.prems [unfolded e]] it1 Cons.IH [OF it1(2)] Cons.prems e
    by (subst skip_deleted.simps) auto
qed

lemma storage_iter_next_spec:
  assumes "mt_iter cmp t m it (e # rest)"
  shows "\<exists>it'. storage_iter_next t it = Some it' \<and> mt_iter cmp t m it' (dropWhile (\<lambda>(k, v, d). d) rest)"
  using mt_iter_next [OF assms] skip_deleted_spec by (fastforce simp: storage_iter_next_def)

lemma storage_iter_first_spec:
  assumes "mt_rep cmp (Some t) m"
  shows "\<exists>it'. storage_iter_seek_to_first t = Some it' \<and> mt_iter cmp t m it' (dropWhile (\<lambda>(k, v, d). d) m)"
  using mt_iter_first [OF assms] skip_deleted_spec by (fastforce simp: storage_iter_seek_to_first_def)

lemma storage_iter_seek_spec:
  assumes "mt_rep default_compare (Some t) m" and "k \<noteq> []"
  shows "\<exists>it'. storage_iter_seek t k it = Some it' \<and>
    mt_iter default_compare t m it' (dropWhile (\<lambda>(k, v, d). d) (dropWhile (\<lambda>e. default_compare (fst e) k < 0) m))"
  using dk.mt_iter_seek [OF assms, of it] skip_deleted_spec by (fastforce simp: storage_iter_seek_def)

section \<open>Durability\<close>

lemma recover_callback_step:
  "recover_callback mt WAL_RECORD_PUT k v w = mt_step mt (Put k v) w"
  "recover_callback mt WAL_RECORD_DELETE k v w = mt_step mt (Delete k) w"
  by (simp_all add: recover_callback_def WAL_RECORD_PUT_def WAL_RECORD_DELETE_def)

interpretation recovery: wal_client recover_callback
proof
  fix mt t k v w r mt' w'
  assume cb: "recover_callback mt t k v w = Some (r, mt', w')" and q: "quiet w"
  have "same_io w w'"
    using cb mt_step_io [of mt "Put k v" w r mt' w'] mt_step_io [of mt "Delete k" w r mt' w']
    by (auto simp: recover_callback_def split: if_splits)
  then show "quiet w'" using q by (simp add: same_io_def quiet_def io_ok_def)
qed

text \<open>The log record of an operation, and the operation a record stands for.\<close>

fun log_entry :: "kv_op \<Rightarrow> u8 \<times> bytes \<times> bytes" where
  "log_entry (Put k v) = (WAL_RECORD_PUT, k, opt_bytes v)"
| "log_entry (Delete k) = (WAL_RECORD_DELETE, k, [])"

lemma log_entry_ok: "op_ok x \<Longrightarrow> wal_entry_ok (log_entry x)"
  by (cases x) (simp_all add: wal_entry_ok_def)

lemma replay_ops:
  assumes "mt_rep default_compare mt m" and "quiet w" and "\<forall>x \<in> set xs. op_ok x"
  shows "\<exists>mt' w'. replay_fold recover_callback mt (map log_entry xs) w = Some (STATUS_OK, mt', w') \<and>
    mt_rep default_compare mt' (foldl (kv_step default_compare) m xs) \<and> quiet w' \<and> w_fs w' = w_fs w"
  using assms
proof (induction xs arbitrary: mt m w)
  case Nil
  then show ?case by simp
next
  case (Cons x xs)
  define y where "y = (case x of Put k v \<Rightarrow> Put k (if opt_bytes v = [] then None else Some (opt_bytes v)) | Delete k \<Rightarrow> Delete k)"
  have y: "op_key y \<noteq> []" "kv_step default_compare m y = kv_step default_compare m x"
    using Cons.prems(3) by (cases x; simp add: y_def opt_bytes_def)+
  obtain mt1 w1 where s: "mt_step mt y w = Some (STATUS_OK, mt1, w1)" "alloc_ok w1"
    "mt_rep default_compare mt1 (kv_step default_compare m x)"
    using dk.mt_step_refines [OF Cons.prems(1) quietD(1) [OF Cons.prems(2)] y(1)] y(2) by auto
  have io: "same_io w w1" by (rule mt_step_io [OF s(1)])
  then have "quiet w1" "w_fs w1 = w_fs w" using Cons.prems(2) by (simp_all add: same_io_def quiet_def io_ok_def)
  moreover have "replay_fold recover_callback mt (map log_entry (x # xs)) w = replay_fold recover_callback mt1 (map log_entry xs) w1"
    using s(1) by (cases x) (auto simp: recover_callback_step y_def simp del: mt_step.simps)
  ultimately show ?case using Cons.IH [OF s(3), of w1] Cons.prems(3) by (simp del: replay_fold.simps) 
qed

text \<open>The state of a database whose log holds all its writes.\<close>

definition db_rep :: "'l storage \<Rightarrow> world \<Rightarrow> kv_list \<Rightarrow> bool" where
  "db_rep db w m \<longleftrightarrow> quiet w \<and> mt_rep default_compare (db_memtable db) m \<and>
     (\<forall>l. db_wal db = Some l \<longrightarrow> (\<exists>xs. (\<forall>x \<in> set xs. op_ok x) \<and> file_bytes (wal_path l) w = wal_image (map log_entry xs) \<and>
        m = foldl (kv_step default_compare) [] xs))"

fun db_step :: "'l storage \<Rightarrow> kv_op \<Rightarrow> world \<Rightarrow> (status_t \<times> 'l storage \<times> world) option" where
  "db_step db (Put k v) w = storage_put db k v w"
| "db_step db (Delete k) w = storage_delete db k w"

definition db_log :: "'l storage \<Rightarrow> kv_op \<Rightarrow> world \<Rightarrow> status_t \<times> 'l storage \<times> world" where
  "db_log db x w = (case db_wal db of
      None \<Rightarrow> (STATUS_OK, db, w)
    | Some l \<Rightarrow> (case log_entry x of (t, k, v) \<Rightarrow>
        (case wal_write_record l t k v w of (st, l, w) \<Rightarrow> (st, db\<lparr>db_wal := Some l\<rparr>, w))))"

lemma db_step_log:
  "db_step db x w = (case db_log db x w of (status, db, w) \<Rightarrow>
     if status \<noteq> STATUS_OK then Some (status, db, w)
     else do { (status, mt, w) \<leftarrow> mt_step (db_memtable db) x w; Some (status, db\<lparr>db_memtable := mt\<rparr>, w) })"
  by (cases x; cases "db_wal db")
    (simp_all add: db_log_def storage_put_def storage_delete_def wal_write_put_def wal_write_delete_def split: prod.split)

lemma db_step_refines:
  assumes rep: "db_rep db w m" and ok: "op_ok x"
  shows "\<exists>db' w'. db_step db x w = Some (STATUS_OK, db', w') \<and> db_rep db' w' (kv_step default_compare m x)"
proof -
  have q: "quiet w" and mt: "mt_rep default_compare (db_memtable db) m" using rep by (simp_all add: db_rep_def)
  obtain db1 w1 where l: "db_log db x w = (STATUS_OK, db1, w1)" "db_memtable db1 = db_memtable db" "quiet w1"
    "\<forall>l. db_wal db1 = Some l \<longrightarrow> (\<exists>xs. (\<forall>x \<in> set xs. op_ok x) \<and> file_bytes (wal_path l) w1 = wal_image (map log_entry xs) \<and>
        kv_step default_compare m x = foldl (kv_step default_compare) [] xs)"
  proof (cases "db_wal db")
    case None
    then show ?thesis using q by (intro that [of db w]) (simp_all add: db_log_def)
  next
    case (Some l)
    obtain xs where xs: "\<forall>x \<in> set xs. op_ok x" "file_bytes (wal_path l) w = wal_image (map log_entry xs)"
      "m = foldl (kv_step default_compare) [] xs"
      using rep Some by (auto simp: db_rep_def)
    obtain t k v where e: "log_entry x = (t, k, v)" by (cases "log_entry x")
    show ?thesis
    proof (rule that)
      show "db_log db x w = (STATUS_OK, db\<lparr>db_wal := Some (l\<lparr>wal_file_size := wal_file_size l + of_nat (17 + length k + length v)\<rparr>)\<rparr>,
          w\<lparr>w_fs := (w_fs w)(wal_path l \<mapsto> file_bytes (wal_path l) w @ wal_record_bytes t k v)\<rparr>)"
        using q by (simp add: db_log_def Some e wal_write_record_quiet quiet_def)
    qed (use q xs ok e in \<open>auto simp: quiet_def file_bytes_def wal_image_def intro!: exI [of _ "xs @ [x]"]\<close>)
  qed
  obtain mt' w' where s: "mt_step (db_memtable db) x w1 = Some (STATUS_OK, mt', w')" "alloc_ok w'"
    "mt_rep default_compare mt' (kv_step default_compare m x)"
    using dk.mt_step_refines [OF mt quietD(1) [OF l(3)] op_ok_key [OF ok]] by auto
  have io: "same_io w1 w'" by (rule mt_step_io [OF s(1)])
  then have "file_bytes p w' = file_bytes p w1" "quiet w'" for p
    using l(3) by (simp_all add: same_io_def quiet_def io_ok_def file_bytes_def)
  then have "db_rep (db1\<lparr>db_memtable := mt'\<rparr>) w' (kv_step default_compare m x)"
    using l(4) s(3) by (simp add: db_rep_def)
  then show ?thesis using l(1,2) s(1) by (simp add: db_step_log)
qed

interpretation db_store: kv_store default_compare db_step db_rep
  by unfold_locales (rule db_step_refines)

lemma db_step_wal: "db_step db x w = Some (st, db', w') \<Longrightarrow> (db_wal db' = None) = (db_wal db = None)"
  by (auto simp: db_step_log db_log_def split: prod.splits if_splits bind_splits option.splits)

lemma db_run_wal: "kv_run db_step db xs w = Some (db', w') \<Longrightarrow> (db_wal db' = None) = (db_wal db = None)"
proof (induction xs arbitrary: db w)
  case Nil
  then show ?case by simp
next
  case (Cons x xs)
  then show ?case using db_step_wal [of db x w] by (auto split: option.splits status_t.splits)
qed

lemma replay_fold_append:
  "replay_fold fn ctx (es @ fs) w = do {
     (r, ctx, w) \<leftarrow> replay_fold fn ctx es w;
     if r \<noteq> STATUS_OK then Some (r, ctx, w) else replay_fold fn ctx fs w }"
proof (induction es arbitrary: ctx w)
  case Nil
  then show ?case by simp
next
  case (Cons e es)
  obtain t k v where e: "e = (t, k, v)" by (cases e)
  show ?case
    by (cases "fn ctx t k (if v = [] then None else Some v) w") (auto simp: e Cons.IH simp del: if_split_asm if_split)
qed

text \<open>Recovery: the log of a database, followed by whatever a crash left of one more record, rebuilds
  the content.\<close>

lemma wal_recover_db:
  assumes "db_rep db w m" and "db_wal db = Some l" and "wal_torn tail"
    and "file_bytes (wal_path l) w' = file_bytes (wal_path l) w @ tail" and "w_fs w' (wal_path l) \<noteq> None"
    and "quiet w'" and "mt_rep default_compare mt []"
  shows "\<exists>mt' w''. wal_recover (Some (wal_path l)) recover_callback mt w' = Some (STATUS_OK, mt', w'') \<and>
    mt_rep default_compare mt' m \<and> quiet w'' \<and> w_fs w'' = w_fs w'"
proof -
  obtain xs where xs: "\<forall>x \<in> set xs. op_ok x" "file_bytes (wal_path l) w = wal_image (map log_entry xs)"
    "m = foldl (kv_step default_compare) [] xs"
    using assms(1,2) by (auto simp: db_rep_def)
  have "wal_replay recover_callback mt (file_bytes (wal_path l) w') w' = replay_fold recover_callback mt (map log_entry xs) w'"
    unfolding assms(4) xs(2)
    by (rule recovery.replay_image [OF assms(6) _ wal_torn_incomplete [OF assms(3)]]) (use xs(1) log_entry_ok in auto)
  then show ?thesis
    using replay_ops [OF assms(7,6) xs(1)] assms(5,6) xs(3)
    by (auto simp: wal_recover_def sys_open_read_def quietD)
qed

section \<open>Properties\<close>

text \<open>A database in memory only, and one with an empty log.\<close>

definition fresh_memtable :: memtable where
  "fresh_memtable = \<lparr>mt_list = \<lparr>sl_nodes = [\<lparr>sn_key = [], sn_value = None, sn_value_len = 0, sn_deleted = False,
       sn_level = SKIPLIST_MAX_LEVEL, sn_forward = replicate SKIPLIST_MAX_LEVEL None\<rparr>],
     sl_level = 1, sl_count = 0, sl_memory_usage = 184, sl_compare = default_compare\<rparr>,
     mt_size_limit = MEMTABLE_SIZE_LIMIT, mt_seq_num = 0\<rparr>"

lemma fresh_memtable_create: "memtable_create 0 None quiet_world = (Some fresh_memtable, quiet_world)"
  by (simp add: memtable_create_def skiplist_create_def fresh_memtable_def SIZEOF_SKIPLIST_def
      SIZEOF_SKIPLIST_NODE_def SIZEOF_POINTER_def)

lemma fresh_memtable_rep: "mt_rep default_compare (Some fresh_memtable) []"
  using memtable_create_rep [of quiet_world 0 None] by (simp add: fresh_memtable_create)

definition fresh_db :: "unit storage" where
  "fresh_db = \<lparr>db_path = Some ''d'', db_opts = STORAGE_OPTS_DEFAULT, db_memtable = Some fresh_memtable,
     db_wal = Some \<lparr>wal_path = ''d/wal.log'', wal_file_size = 0, wal_sync_writes = False\<rparr>, db_levels = None\<rparr>"

lemma quiet_quiet_world [simp]: "quiet quiet_world"
  by (simp add: quiet_def)

lemma fresh_db_rep: "db_rep fresh_db quiet_world []"
  by (auto simp: db_rep_def fresh_db_def fresh_memtable_rep file_bytes_def wal_image_def intro!: exI [of _ "[]"])

text \<open>C12: Crash recovery. Let a database have performed any sequence of puts and deletes, all
  acknowledged, and let a crash leave part of one more log record behind. Replaying the log into an
  empty memtable succeeds and gives exactly the content the acknowledged operations gave, so every
  acknowledged write is found again and nothing of the interrupted one is.\<close>

theorem storage_crash_recovery:
  assumes "db_rep db w m" and "\<forall>x \<in> set xs. op_ok x" and "db_wal db = Some l0"
    and "kv_run db_step db xs w = Some (db', w1)" and "db_wal db' = Some l" and "wal_torn tail"
    and "w' = w1\<lparr>w_fs := (w_fs w1)(wal_path l \<mapsto> file_bytes (wal_path l) w1 @ tail)\<rparr>"
    and "mt_rep default_compare mt []"
  shows "\<exists>mt' w''. wal_recover (Some (wal_path l)) recover_callback mt w' = Some (STATUS_OK, mt', w'') \<and>
    mt_rep default_compare mt' (foldl (kv_step default_compare) m xs) \<and>
    mt_rep default_compare (db_memtable db') (foldl (kv_step default_compare) m xs)"
proof -
  have rep: "db_rep db' w1 (foldl (kv_step default_compare) m xs)"
    using db_store.run_refines [where s = db and w = w and m = m and xs = xs] assms(1,2,4) by auto
  then have q: "quiet w'" by (simp add: db_rep_def assms(7) quiet_def)
  show ?thesis
    using wal_recover_db [OF rep assms(5,6) _ _ q assms(8)] rep
    by (auto simp: assms(7) file_bytes_def db_rep_def)
qed

theorem storage_crash_recovery_witness:
  "\<exists>db' w1 l mt' w''. kv_run db_step fresh_db [Put [1] (Some [7]), Delete [1], Put [2] (Some [8])] quiet_world = Some (db', w1) \<and>
    db_wal db' = Some l \<and>
    wal_recover (Some (wal_path l)) recover_callback (Some fresh_memtable)
      (w1\<lparr>w_fs := (w_fs w1)(wal_path l \<mapsto> file_bytes (wal_path l) w1 @ take 9 (wal_record_bytes 1 [3] [9]))\<rparr>)
      = Some (STATUS_OK, mt', w'') \<and>
    mt_rep default_compare mt' [([1], [7], True), ([2], [8], False)]"
proof -
  let ?xs = "[Put [1] (Some [7]), Delete [1], Put [2] (Some [8])] :: kv_op list"
  have ok: "\<forall>x \<in> set ?xs. op_ok x" by (simp add: opt_bytes_def)
  obtain db' w1 where r: "kv_run db_step fresh_db ?xs quiet_world = Some (db', w1)"
    using db_store.run_refines [OF fresh_db_rep ok] by auto
  obtain l where l: "db_wal db' = Some l" using db_run_wal [OF r] by (auto simp: fresh_db_def)
  have torn: "wal_torn (take 9 (wal_record_bytes 1 [3] [9]))"
    unfolding wal_torn_def
    by (rule exI [of _ 1], rule exI [of _ "[3]"], rule exI [of _ "[9]"], rule exI [of _ 9]) (simp add: wal_entry_ok_def)
  have m: "foldl (kv_step default_compare) [] ?xs = [([1], [7], True), ([2], [8], False)]"
    by (simp add: kv_insert_def kv_delete_def opt_bytes_def)
  obtain l0 where l0: "db_wal fresh_db = Some l0" by (simp add: fresh_db_def)
  show ?thesis
    using storage_crash_recovery [OF fresh_db_rep ok l0 r l torn refl fresh_memtable_rep] r l unfolding m by blast
qed

end
