(* ===== verification/SE_Block.thy ===== *)
theory SE_Block
  imports SE_Keys Raft_Crc32
begin

text \<open>
  Data blocks of a table (the first half of \<^verbatim>\<open>storage-engine/src/sstable.c\<close> and
  \<^verbatim>\<open>search_block\<close>): variable-length integers, prefix-compressed entries, restart points, and the
  search in a block. A block is a list of bytes; every access checks that it stays inside
  (\<open>None\<close> otherwise). Sizes are natural numbers; where a block's own content can make a
  \<^verbatim>\<open>size_t\<close> sum or difference wrap, the wrap-around is written out.
\<close>

definition SIZE_MOD :: nat where "SIZE_MOD = 2 ^ 64"

definition size_add :: "nat \<Rightarrow> nat \<Rightarrow> nat" where
  "size_add a b = (a + b) mod SIZE_MOD"

definition size_sub :: "nat \<Rightarrow> nat \<Rightarrow> nat" where
  "size_sub a b = (if b \<le> a then a - b else SIZE_MOD + a - b)"

definition slice :: "bytes \<Rightarrow> nat \<Rightarrow> nat \<Rightarrow> bytes option" where
  "slice arr pos n = (if pos + n \<le> length arr then Some (take n (drop pos arr)) else None)"

definition byte_at :: "bytes \<Rightarrow> nat \<Rightarrow> u8 option" where
  "byte_at arr pos = (if pos < length arr then Some (arr ! pos) else None)"

definition u32_at :: "bytes \<Rightarrow> nat \<Rightarrow> u32 option" where
  "u32_at arr pos = map_option le_word (slice arr pos 4)"

section \<open>Variable-length integers\<close>

function encode_varint :: "u64 \<Rightarrow> bytes" where
  "encode_varint value =
     (if value \<ge> 0x80 then ucast (value OR 0x80) # encode_varint (drop_bit 7 value) else [ucast value])"
  by pat_completeness auto
termination
  by (relation "measure unat") (auto simp: drop_bit_eq_div unat_div word_le_nat_alt)

declare encode_varint.simps [simp del]

text \<open>The number of bytes read (0 for an error) and the value, from \<open>len\<close> bytes at \<open>pos\<close>.\<close>

function decode_loop :: "bytes \<Rightarrow> nat \<Rightarrow> nat \<Rightarrow> nat \<Rightarrow> u64 \<Rightarrow> (nat \<times> u64) option" where
  "decode_loop arr pos len i value =
     (if i < len \<and> i < 10 then do {
        b \<leftarrow> byte_at arr (pos + i);
        let value = value OR push_bit (7 * i) (ucast b AND 0x7F);
        if b AND 0x80 = 0 then Some (i + 1, value) else decode_loop arr pos len (i + 1) value
      }
      else Some (0, value))"
  by pat_completeness auto
termination
  by (relation "measure (\<lambda>(arr, pos, len, i, value). 10 - i)") auto

declare decode_loop.simps [simp del]

definition decode_varint :: "bytes \<Rightarrow> nat \<Rightarrow> nat \<Rightarrow> (nat \<times> u64) option" where
  "decode_varint arr pos len = decode_loop arr pos len 0 0"

fun shared_prefix_len :: "bytes \<Rightarrow> bytes \<Rightarrow> nat" where
  "shared_prefix_len (a # as) (b # bs) = (if a = b then Suc (shared_prefix_len as bs) else 0)"
| "shared_prefix_len _ _ = 0"

section \<open>Binary search\<close>

text \<open>The loop \<^verbatim>\<open>while (left < right)\<close> that the readers and the level manager write out at every
  use. The test says whether the element at an index is below the key sought; it may also end the
  search with a status.\<close>

function lower_bound :: "(nat \<Rightarrow> (status_t + bool) option) \<Rightarrow> nat \<Rightarrow> nat \<Rightarrow> (status_t + nat) option" where
  "lower_bound below left right =
     (if left < right then
        let mid = left + (right - left) div 2
        in case below mid of
             None \<Rightarrow> None
           | Some (Inl st) \<Rightarrow> Some (Inl st)
           | Some (Inr b) \<Rightarrow> if b then lower_bound below (mid + 1) right else lower_bound below left mid
      else Some (Inr left))"
  by pat_completeness auto
termination
  by (relation "measure (\<lambda>(below, left, right). right - left)") auto

declare lower_bound.simps [simp del]

section \<open>Searching a block\<close>

text \<open>The key at a restart point; a corrupt entry ends the search.\<close>

definition restart_key :: "bytes \<Rightarrow> nat \<Rightarrow> nat \<Rightarrow> (status_t + bytes) option" where
  "restart_key block restarts_start pos = do {
     (n, shared) \<leftarrow> decode_varint block pos (size_sub restarts_start pos);
     if n = 0 \<or> shared \<noteq> 0 then Some (Inl STATUS_CORRUPTION)
     else do {
       let pos = pos + n;
       (n, unshared) \<leftarrow> decode_varint block pos (size_sub restarts_start pos);
       if n = 0 then Some (Inl STATUS_CORRUPTION)
       else do {
         let pos = pos + n;
         (n, val_len) \<leftarrow> decode_varint block pos (size_sub restarts_start pos);
         if n = 0 then Some (Inl STATUS_CORRUPTION)
         else do {
           let pos = pos + n + 1;
           if size_add pos (unat unshared) > restarts_start then Some (Inl STATUS_CORRUPTION)
           else map_option Inr (slice block pos (unat unshared))
         }
       }
     }
   }"

definition restart_below :: "compare_fn \<Rightarrow> bytes \<Rightarrow> nat \<Rightarrow> bytes \<Rightarrow> nat \<Rightarrow> (status_t + bool) option" where
  "restart_below cmp block restarts_start key mid = do {
     restart_offset \<leftarrow> u32_at block (size_add restarts_start (4 * mid));
     r \<leftarrow> restart_key block restarts_start (unat restart_offset);
     Some (case r of Inl st \<Rightarrow> Inl st | Inr k \<Rightarrow> Inr (cmp k key < 0))
   }"

text \<open>A lookup returns a status, the value (null when it is empty or deleted) and whether it is a
  tombstone.\<close>

type_synonym lookup_result = "status_t \<times> bytes option \<times> bool"

text \<open>The linear scan; \<open>current\<close> is the key of the entry before, null at the start. The bytes of a
  key that no \<^verbatim>\<open>memcpy\<close> wrote are indeterminate, and comparing them is undefined.\<close>

definition copied_prefix :: "nat \<Rightarrow> bytes option \<Rightarrow> bytes option" where
  "copied_prefix shared current =
     (if shared > 0 then (case current of None \<Rightarrow> None | Some c \<Rightarrow> slice c 0 shared) else Some [])"

partial_function (option) scan_block ::
  "compare_fn \<Rightarrow> bytes \<Rightarrow> nat \<Rightarrow> bytes \<Rightarrow> nat \<Rightarrow> bytes option \<Rightarrow> world \<Rightarrow> (lookup_result \<times> world) option"
where
  "scan_block cmp block restarts_start key pos current w =
     (if \<not> pos < restarts_start then Some ((STATUS_NOT_FOUND, None, False), w)
      else do {
        (n, shared) \<leftarrow> decode_varint block pos (size_sub restarts_start pos);
        if n = 0 then Some ((STATUS_NOT_FOUND, None, False), w)
        else do {
          let pos = pos + n;
          (n, unshared) \<leftarrow> decode_varint block pos (size_sub restarts_start pos);
          if n = 0 then Some ((STATUS_NOT_FOUND, None, False), w)
          else do {
            let pos = pos + n;
            (n, val_len) \<leftarrow> decode_varint block pos (size_sub restarts_start pos);
            if n = 0 then Some ((STATUS_NOT_FOUND, None, False), w)
            else do {
              let pos = pos + n;
              is_deleted \<leftarrow> byte_at block pos;
              let pos = pos + 1;
              if size_add (size_add pos (unat unshared)) (unat val_len) > restarts_start
              then Some ((STATUS_NOT_FOUND, None, False), w)
              else case malloc w of (ok, w) \<Rightarrow>
                if \<not> ok then Some ((STATUS_NO_MEMORY, None, False), w)
                else do {
                  prefix \<leftarrow> copied_prefix (unat shared) current;
                  delta \<leftarrow> slice block pos (unat unshared);
                  let full_key = prefix @ delta;
                  let pos = pos + unat unshared;
                  if cmp full_key key = 0 then
                    if is_deleted = 0 \<and> val_len > 0 then
                      (case malloc w of (ok, w) \<Rightarrow>
                       if \<not> ok then Some ((STATUS_NO_MEMORY, None, False), w)
                       else do { v \<leftarrow> slice block pos (unat val_len); Some ((STATUS_OK, Some v, False), w) })
                    else Some ((STATUS_OK, None, is_deleted \<noteq> 0), w)
                  else if cmp full_key key > 0 then Some ((STATUS_NOT_FOUND, None, False), w)
                  else scan_block cmp block restarts_start key (pos + unat val_len) (Some full_key) w
                }
            }
          }
        }
      })"

declare scan_block.simps [code]

definition search_block ::
  "compare_fn \<Rightarrow> bytes \<Rightarrow> bytes \<Rightarrow> world \<Rightarrow> (lookup_result \<times> world) option"
where
  "search_block cmp block key w =
     (if length block < 8 then Some ((STATUS_CORRUPTION, None, False), w)
      else do {
        num_restarts \<leftarrow> u32_at block (length block - 8);
        stored_crc \<leftarrow> u32_at block (length block - 4);
        if crc32 (take (length block - 4) block) \<noteq> stored_crc then Some ((STATUS_CORRUPTION, None, False), w)
        else do {
          let restarts_start = size_sub (length block - 8) (unat (num_restarts * 4));
          r \<leftarrow> lower_bound (restart_below cmp block restarts_start key) 0 (unat num_restarts);
          case r of
            Inl st \<Rightarrow> Some ((st, None, False), w)
          | Inr left \<Rightarrow> do {
              let start_restart = (if left > 0 then left - 1 else 0);
              pos \<leftarrow> u32_at block (size_add restarts_start (4 * start_restart));
              scan_block cmp block restarts_start key (unat pos) None w
            }
        }
      })"

section \<open>Round trip of variable-length integers\<close>

lemma size_add_small [simp]: "a + b < SIZE_MOD \<Longrightarrow> size_add a b = a + b"
  by (simp add: size_add_def)

lemma size_sub_small [simp]: "b \<le> a \<Longrightarrow> size_sub a b = a - b"
  by (simp add: size_sub_def)

lemma length_encode_varint:
  "unat v < 2 ^ (7 * Suc n) \<Longrightarrow> length (encode_varint v) \<le> Suc n"
proof (induction n arbitrary: v)
  case 0
  then have "\<not> 0x80 \<le> v" by (simp add: word_le_nat_alt)
  then show ?case by (subst encode_varint.simps) simp
next
  case (Suc n)
  have "unat (drop_bit 7 v) < 2 ^ (7 * Suc n)"
    using Suc.prems by (auto simp: drop_bit_eq_div unat_div power_add intro!: less_mult_imp_div_less)
  then show ?case using Suc.IH [of "drop_bit 7 v"] by (subst encode_varint.simps) simp
qed

lemma encode_varint_ne [simp]: "encode_varint v \<noteq> []"
  by (subst encode_varint.simps) simp

lemma length_varint_max: "length (encode_varint v) \<le> 10"
proof -
  have "unat v < 2 ^ LENGTH(64)" by (rule unsigned_less)
  also have "(2 :: nat) ^ LENGTH(64) \<le> 2 ^ (7 * Suc 9)" by simp
  finally have "unat v < 2 ^ (7 * Suc 9)" .
  then show ?thesis using length_encode_varint [of v 9] by simp
qed

lemma varint_low:
  fixes v :: u64
  shows "ucast (ucast (v OR 0x80) :: u8) AND 0x7F = take_bit 7 v" "(ucast (v OR 0x80) :: u8) AND 0x80 \<noteq> 0"
    "\<not> v \<ge> 0x80 \<Longrightarrow> ucast (ucast v :: u8) AND 0x7F = v" "\<not> v \<ge> 0x80 \<Longrightarrow> (ucast v :: u8) AND 0x80 = 0"
proof -
  have m: "(0x7F :: u64) = mask 7" "(0x80 :: u64) = 2 ^ 7" "(0x80 :: u8) = 2 ^ 7" by (simp_all add: mask_eq_exp_minus_1)
  have "(v OR 0x80) AND 0x7F = v AND 0x7F" by (simp add: bit.conj_disj_distrib2)
  moreover have "ucast (ucast x :: u8) AND mask 7 = x AND mask 7" for x :: u64
    by (rule bit_word_eqI) (auto simp: bit_simps)
  ultimately show "ucast (ucast (v OR 0x80) :: u8) AND 0x7F = take_bit 7 v"
    unfolding m(1) take_bit_eq_mask by simp
  show "(ucast (v OR 0x80) :: u8) AND 0x80 \<noteq> 0"
    by (simp add: unsigned_or_eq bit.conj_disj_distrib2 or_eq_0_iff)
  assume "\<not> v \<ge> 0x80"
  then have "take_bit 7 v = v" by (simp add: word_unat_eq_iff unsigned_take_bit_eq word_le_nat_alt take_bit_nat_eq_self)
  then have b: "bit v n \<Longrightarrow> n < 7" for n by (metis bit_take_bit_iff)
  show "ucast (ucast v :: u8) AND 0x7F = v"
    unfolding m by (rule bit_word_eqI) (auto simp: bit_simps dest: b)
  have "\<not> bit (ucast v :: u8) 7" by (auto simp: bit_simps dest: b)
  then show "(ucast v :: u8) AND 0x80 = 0" using and_exp_eq_0_iff_not_bit [of "ucast v :: u8" 7] by simp
qed

lemma take_drop_Cons:
  assumes "take (Suc n) (drop p arr) = b # bs"
  shows "p < length arr" "arr ! p = b" "take n (drop (Suc p) arr) = bs"
proof -
  show p: "p < length arr" using assms by (cases "p < length arr") auto
  show "arr ! p = b" "take n (drop (Suc p) arr) = bs"
    using assms by (simp_all add: Cons_nth_drop_Suc [OF p, symmetric])
qed

lemma push_bit_split: "push_bit (7 * i) (take_bit 7 v) OR push_bit (7 * Suc i) (drop_bit 7 v) = push_bit (7 * i) (v :: u64)"
proof (rule bit_word_eqI)
  fix n
  show "bit (push_bit (7 * i) (take_bit 7 v) OR push_bit (7 * Suc i) (drop_bit 7 v)) n = bit (push_bit (7 * i) v) n"
    by (cases "n < 7 * Suc i") (auto simp: bit_simps)
qed

lemma decode_loop_encode:
  assumes "take (length (encode_varint v)) (drop (pos + i) arr) = encode_varint v"
    and "i + length (encode_varint v) \<le> len" and "i + length (encode_varint v) \<le> 10"
  shows "decode_loop arr pos len i acc = Some (i + length (encode_varint v), acc OR push_bit (7 * i) v)"
  using assms
proof (induction v arbitrary: i acc rule: encode_varint.induct)
  case (1 v)
  show ?case
  proof (cases "v \<ge> 0x80")
    case True
    let ?e = "encode_varint (drop_bit 7 v)"
    have e: "encode_varint v = ucast (v OR 0x80) # ?e" using True by (subst encode_varint.simps) simp
    note at = take_drop_Cons [OF "1.prems"(1) [unfolded e length_Cons]]
    have "decode_loop arr pos len i acc = decode_loop arr pos len (Suc i) (acc OR push_bit (7 * i) (take_bit 7 v))"
      using "1.prems"(2,3) at e by (subst decode_loop.simps) (simp add: byte_at_def varint_low del: push_bit_and)
    also have "\<dots> = Some (Suc i + length ?e, (acc OR push_bit (7 * i) (take_bit 7 v)) OR push_bit (7 * Suc i) (drop_bit 7 v))"
      using "1.IH" [OF True, of "Suc i"] "1.prems"(2,3) at(3) e by simp
    finally show ?thesis using push_bit_split [of i v] e by (simp add: or.assoc)
  next
    case False
    have e: "encode_varint v = [ucast v]" using False by (subst encode_varint.simps) simp
    note at = take_drop_Cons [OF "1.prems"(1) [unfolded e length_Cons]]
    show ?thesis using "1.prems"(2,3) at e False
      by (subst decode_loop.simps) (simp add: byte_at_def varint_low(3,4) [OF False] del: push_bit_and)
  qed
qed

lemma decode_encode:
  assumes "take (length (encode_varint v)) (drop pos arr) = encode_varint v"
    and "length (encode_varint v) \<le> len"
  shows "decode_varint arr pos len = Some (length (encode_varint v), v)"
  using decode_loop_encode [of v pos 0 arr len 0] assms length_varint_max [of v] by (simp add: decode_varint_def)

section \<open>Binary search finds the first element that is not below\<close>

lemma lower_bound_correct:
  assumes "\<And>i. left \<le> i \<Longrightarrow> i < right \<Longrightarrow> below i = Some (Inr (P i))"
    and "\<And>i j. left \<le> i \<Longrightarrow> i \<le> j \<Longrightarrow> j < right \<Longrightarrow> P j \<Longrightarrow> P i" and "left \<le> right"
  shows "\<exists>r. lower_bound below left right = Some (Inr r) \<and> left \<le> r \<and> r \<le> right \<and>
    (\<forall>i. left \<le> i \<and> i < r \<longrightarrow> P i) \<and> (\<forall>i. r \<le> i \<and> i < right \<longrightarrow> \<not> P i)"
  using assms
proof (induction below left right rule: lower_bound.induct)
  case (1 below left right)
  define mid where "mid = left + (right - left) div 2"
  show ?case
  proof (cases "left < right")
    case True
    then have mid: "left \<le> mid" "mid < right" unfolding mid_def by auto
    then have b: "below mid = Some (Inr (P mid))" using "1.prems"(1) by blast
    show ?thesis
    proof (cases "P mid")
      case lo: True
      have "\<exists>r. lower_bound below (mid + 1) right = Some (Inr r) \<and> mid + 1 \<le> r \<and> r \<le> right \<and>
          (\<forall>i. mid + 1 \<le> i \<and> i < r \<longrightarrow> P i) \<and> (\<forall>i. r \<le> i \<and> i < right \<longrightarrow> \<not> P i)"
        using "1.IH"(1) [OF True mid_def b refl lo] "1.prems"(1,2) mid by auto
      then obtain r where r: "lower_bound below (mid + 1) right = Some (Inr r)" "mid + 1 \<le> r" "r \<le> right"
        "\<And>i. mid + 1 \<le> i \<Longrightarrow> i < r \<Longrightarrow> P i" "\<And>i. r \<le> i \<Longrightarrow> i < right \<Longrightarrow> \<not> P i" by blast
      have "P i" if "left \<le> i" "i < r" for i
        using r(4) [of i] "1.prems"(2) [of i mid] that mid lo by (cases "i \<le> mid") auto
      then show ?thesis using r True b lo mid
        by (subst lower_bound.simps) (auto simp: mid_def [symmetric] Let_def)
    next
      case hi: False
      have "\<exists>r. lower_bound below left mid = Some (Inr r) \<and> left \<le> r \<and> r \<le> mid \<and>
          (\<forall>i. left \<le> i \<and> i < r \<longrightarrow> P i) \<and> (\<forall>i. r \<le> i \<and> i < mid \<longrightarrow> \<not> P i)"
        using "1.IH"(2) [OF True mid_def b refl hi] "1.prems"(1,2) mid by auto
      then obtain r where r: "lower_bound below left mid = Some (Inr r)" "left \<le> r" "r \<le> mid"
        "\<And>i. left \<le> i \<Longrightarrow> i < r \<Longrightarrow> P i" "\<And>i. r \<le> i \<Longrightarrow> i < mid \<Longrightarrow> \<not> P i" by blast
      have "\<not> P i" if "r \<le> i" "i < right" for i
        using r(5) [of i] "1.prems"(2) [of mid i] that mid hi by (cases "i < mid") auto
      then show ?thesis using r True b hi mid
        by (subst lower_bound.simps) (auto simp: mid_def [symmetric] Let_def)
    qed
  next
    case False
    then show ?thesis using "1.prems"(3) by (subst lower_bound.simps) auto
  qed
qed

section \<open>Blocks as lists of entries\<close>

text \<open>An entry with the length of the prefix it shares with the key before it.\<close>

type_synonym item = "nat \<times> bytes \<times> bytes \<times> bool"

definition entry_bytes :: "nat \<Rightarrow> bytes \<Rightarrow> bytes \<Rightarrow> bool \<Rightarrow> bytes" where
  "entry_bytes s k v d = encode_varint (of_nat s) @ encode_varint (of_nat (length k - s)) @
     encode_varint (of_nat (length v)) @ [if d then 1 else 0] @ drop s k @ v"

definition items_bytes :: "item list \<Rightarrow> bytes" where
  "items_bytes xs = concat (map (\<lambda>(s, k, v, d). entry_bytes s k v d) xs)"

fun items_wf :: "bytes option \<Rightarrow> item list \<Rightarrow> bool" where
  "items_wf prev [] = True"
| "items_wf prev ((s, k, v, d) # xs) =
     (s \<le> length k \<and> (s > 0 \<longrightarrow> (\<exists>p. prev = Some p \<and> s \<le> length p \<and> take s p = take s k)) \<and> items_wf (Some k) xs)"

fun item_lookup :: "compare_fn \<Rightarrow> bytes \<Rightarrow> item list \<Rightarrow> lookup_result" where
  "item_lookup cmp key [] = (STATUS_NOT_FOUND, None, False)"
| "item_lookup cmp key ((s, k, v, d) # xs) =
     (if cmp k key = 0 then (STATUS_OK, if d \<or> v = [] then None else Some v, d)
      else if cmp k key > 0 then (STATUS_NOT_FOUND, None, False)
      else item_lookup cmp key xs)"

text \<open>The block that \<^verbatim>\<open>flush_block\<close> writes for entries and the indices of its restart points.\<close>

definition restart_offset :: "item list \<Rightarrow> nat \<Rightarrow> nat" where
  "restart_offset xs i = length (items_bytes (take i xs))"

definition block_body :: "item list \<Rightarrow> nat list \<Rightarrow> bytes" where
  "block_body xs ri = items_bytes xs @ concat (map (\<lambda>i. le_bytes 4 (of_nat (restart_offset xs i) :: u32)) ri) @
     le_bytes 4 (of_nat (length ri) :: u32)"

definition block_bytes :: "item list \<Rightarrow> nat list \<Rightarrow> bytes" where
  "block_bytes xs ri = block_body xs ri @ le_bytes 4 (crc32 (block_body xs ri))"

lemma items_bytes_simps [simp]:
  "items_bytes [] = []"
  "items_bytes ((s, k, v, d) # xs) = entry_bytes s k v d @ items_bytes xs"
  "items_bytes (xs @ ys) = items_bytes xs @ items_bytes ys"
  by (simp_all add: items_bytes_def)

lemma slice_at: "block = pre @ x @ post \<Longrightarrow> pos = length pre \<Longrightarrow> n = length x \<Longrightarrow> slice block pos n = Some x"
  by (simp add: slice_def)

lemma byte_at_at: "block = pre @ b # post \<Longrightarrow> pos = length pre \<Longrightarrow> byte_at block pos = Some b"
  by (simp add: byte_at_def)

lemma decode_at:
  "block = pre @ encode_varint v @ post \<Longrightarrow> pos = length pre \<Longrightarrow> length (encode_varint v) \<le> len \<Longrightarrow>
    decode_varint block pos len = Some (length (encode_varint v), v)"
  by (rule decode_encode) simp_all

lemma u32_at_at: "block = pre @ le_bytes 4 x @ post \<Longrightarrow> pos = length pre \<Longrightarrow> u32_at block pos = Some (x :: u32)"
  by (simp add: u32_at_def slice_def)

text \<open>Decoding one entry, with room for it before \<open>rs\<close>.\<close>

lemma entry_decode:
  assumes block: "block = pre @ entry_bytes s k v d @ post" and s: "s \<le> length k" "length k < SIZE_MOD"
    and rs: "length pre + length (entry_bytes s k v d) \<le> rs" "rs < SIZE_MOD"
  defines "n1 \<equiv> length (encode_varint (of_nat s))" and "n2 \<equiv> length (encode_varint (of_nat (length k - s)))"
    and "n3 \<equiv> length (encode_varint (of_nat (length v)))"
  defines "p \<equiv> length pre + n1 + n2 + n3 + 1"
  shows "decode_varint block (length pre) (size_sub rs (length pre)) = Some (n1, of_nat s)"
    and "decode_varint block (length pre + n1) (size_sub rs (length pre + n1)) = Some (n2, of_nat (length k - s))"
    and "decode_varint block (length pre + n1 + n2) (size_sub rs (length pre + n1 + n2)) = Some (n3, of_nat (length v))"
    and "byte_at block (length pre + n1 + n2 + n3) = Some (if d then 1 else 0)"
    and "slice block p (length k - s) = Some (drop s k)"
    and "slice block (p + (length k - s)) (length v) = Some v"
    and "p + (length k - s) + length v = length pre + length (entry_bytes s k v d)"
    and "0 < n1" "0 < n2" "0 < n3"
    and "unat (of_nat s :: u64) = s" "unat (of_nat (length k - s) :: u64) = length k - s" "unat (of_nat (length v) :: u64) = length v"
proof -
  let ?e1 = "encode_varint (of_nat s)" and ?e2 = "encode_varint (of_nat (length k - s))" and ?e3 = "encode_varint (of_nat (length v))"
  have len: "length (entry_bytes s k v d) = n1 + n2 + n3 + 1 + (length k - s) + length v"
    by (simp add: entry_bytes_def n1_def n2_def n3_def)
  show "p + (length k - s) + length v = length pre + length (entry_bytes s k v d)" by (simp add: len p_def)
  show "0 < n1" "0 < n2" "0 < n3" by (simp_all add: n1_def n2_def n3_def)
  show "decode_varint block (length pre) (size_sub rs (length pre)) = Some (n1, of_nat s)" unfolding n1_def
    by (rule decode_at [where pre = pre]) (use rs len in \<open>auto simp: block entry_bytes_def n1_def\<close>)
  show "decode_varint block (length pre + n1) (size_sub rs (length pre + n1)) = Some (n2, of_nat (length k - s))" unfolding n2_def
    by (rule decode_at [where pre = "pre @ ?e1"]) (use rs len in \<open>auto simp: block entry_bytes_def n1_def n2_def\<close>)
  show "decode_varint block (length pre + n1 + n2) (size_sub rs (length pre + n1 + n2)) = Some (n3, of_nat (length v))" unfolding n3_def
    by (rule decode_at [where pre = "pre @ ?e1 @ ?e2"]) (use rs len in \<open>auto simp: block entry_bytes_def n1_def n2_def n3_def\<close>)
  show "byte_at block (length pre + n1 + n2 + n3) = Some (if d then 1 else 0)"
    by (rule byte_at_at [where pre = "pre @ ?e1 @ ?e2 @ ?e3"]) (auto simp: block entry_bytes_def n1_def n2_def n3_def)
  show "slice block p (length k - s) = Some (drop s k)"
    by (rule slice_at [where pre = "pre @ ?e1 @ ?e2 @ ?e3 @ [if d then 1 else 0]"])
      (auto simp: block entry_bytes_def n1_def n2_def n3_def p_def)
  show "slice block (p + (length k - s)) (length v) = Some v"
    by (rule slice_at [where pre = "pre @ ?e1 @ ?e2 @ ?e3 @ [if d then 1 else 0] @ drop s k"])
      (auto simp: block entry_bytes_def n1_def n2_def n3_def p_def)
  have small: "length k - s < SIZE_MOD" "length v < SIZE_MOD" "s < SIZE_MOD" using rs len s by simp_all
  then show "unat (of_nat s :: u64) = s" "unat (of_nat (length k - s) :: u64) = length k - s" "unat (of_nat (length v) :: u64) = length v"
    by (simp_all add: SIZE_MOD_def unat_of_nat)
qed

lemma restart_key_spec:
  assumes block: "block = pre @ entry_bytes 0 k v d @ post" and k: "length k < SIZE_MOD"
    and rs: "length pre + length (entry_bytes 0 k v d) \<le> rs" "rs < SIZE_MOD"
  shows "restart_key block rs (length pre) = Some (Inr k)"
proof -
  note E = entry_decode [OF block le0 k rs]
  have "\<not> rs < size_add (length pre + length (encode_varint (of_nat 0)) + length (encode_varint (of_nat (length k - 0))) +
      length (encode_varint (of_nat (length v))) + 1) (length k)"
    using E(7) rs by (simp add: size_add_small)
  then show ?thesis using E(1-3,5,8-10,12) by (simp add: restart_key_def Let_def)
qed

lemma scan_block_step:
  assumes "pos < rs"
    and "decode_varint block pos (size_sub rs pos) = Some (n1, shared)" "0 < n1"
    and "decode_varint block (pos + n1) (size_sub rs (pos + n1)) = Some (n2, unshared)" "0 < n2"
    and "decode_varint block (pos + n1 + n2) (size_sub rs (pos + n1 + n2)) = Some (n3, val_len)" "0 < n3"
    and "byte_at block (pos + n1 + n2 + n3) = Some del"
    and "\<not> rs < size_add (size_add (pos + n1 + n2 + n3 + 1) (unat unshared)) (unat val_len)"
    and "alloc_ok w" and "copied_prefix (unat shared) current = Some prefix"
    and "slice block (pos + n1 + n2 + n3 + 1) (unat unshared) = Some delta"
    and "slice block (pos + n1 + n2 + n3 + 1 + unat unshared) (unat val_len) = Some v"
  shows "scan_block cmp block rs key pos current w =
    (if cmp (prefix @ delta) key = 0
     then if del = 0 \<and> val_len > 0 then Some ((STATUS_OK, Some v, False), w) else Some ((STATUS_OK, None, del \<noteq> 0), w)
     else if cmp (prefix @ delta) key > 0 then Some ((STATUS_NOT_FOUND, None, False), w)
     else scan_block cmp block rs key (pos + n1 + n2 + n3 + 1 + unat unshared + unat val_len) (Some (prefix @ delta)) w)"
  using assms by (subst scan_block.simps) (simp add: Let_def del: size_sub_small)

lemma scan_block_spec:
  assumes "alloc_ok w" and "block = pre @ items_bytes xs @ post" and "rs = length pre + length (items_bytes xs)"
    and "rs < SIZE_MOD" and "items_wf current xs" and "\<forall>x \<in> set xs. length (fst (snd x)) < SIZE_MOD"
  shows "scan_block cmp block rs key (length pre) current w = Some (item_lookup cmp key xs, w)"
  using assms(2-)
proof (induction xs arbitrary: pre current)
  case Nil
  then show ?case by (subst scan_block.simps) simp
next
  case (Cons x xs)
  obtain s k v d where x: "x = (s, k, v, d)" by (cases x)
  let ?e = "entry_bytes s k v d"
  have block: "block = pre @ ?e @ items_bytes xs @ post" using Cons.prems(1) by (simp add: x)
  have wf: "s \<le> length k" "length k < SIZE_MOD" "items_wf (Some k) xs"
    and sh: "s > 0 \<longrightarrow> (\<exists>p. current = Some p \<and> s \<le> length p \<and> take s p = take s k)"
    using Cons.prems(4,5) by (auto simp: x)
  have rs: "length pre + length ?e \<le> rs" using Cons.prems(2) by (simp add: x)
  note E = entry_decode [OF block wf(1,2) rs Cons.prems(3)]
  have fits: "\<not> rs < size_add (size_add (length pre + length (encode_varint (of_nat s)) +
      length (encode_varint (of_nat (length k - s))) + length (encode_varint (of_nat (length v))) + 1)
      (unat (of_nat (length k - s) :: u64))) (unat (of_nat (length v) :: u64))"
    using E(7,12,13) rs Cons.prems(3) by (simp add: size_add_small)
  have lt: "length pre < rs" using rs E(7,8) by linarith
  have key: "copied_prefix (unat (of_nat s :: u64)) current = Some (take s k)"
    using sh E(11) by (auto simp: copied_prefix_def slice_def)
  have IH: "scan_block cmp block rs key (length (pre @ ?e)) (Some k) w = Some (item_lookup cmp key xs, w)"
    by (rule Cons.IH) (use Cons.prems block wf in \<open>auto simp: x\<close>)
  have val: "(of_nat (length v) :: u64) > 0 \<longleftrightarrow> v \<noteq> []" using E(13) by (auto simp: word_gt_0)
  let ?p = "length pre + length (encode_varint (of_nat s)) + length (encode_varint (of_nat (length k - s))) +
      length (encode_varint (of_nat (length v))) + 1"
  have sl: "slice block ?p (unat (of_nat (length k - s) :: u64)) = Some (drop s k)"
    "slice block (?p + unat (of_nat (length k - s) :: u64)) (unat (of_nat (length v) :: u64)) = Some v"
    unfolding E(12,13) by (rule E(5), rule E(6))
  have "scan_block cmp block rs key (length pre) current w =
    (if cmp k key = 0
     then if \<not> d \<and> v \<noteq> [] then Some ((STATUS_OK, Some v, False), w) else Some ((STATUS_OK, None, d), w)
     else if cmp k key > 0 then Some ((STATUS_NOT_FOUND, None, False), w)
     else scan_block cmp block rs key (length (pre @ ?e)) (Some k) w)"
    unfolding scan_block_step [OF lt E(1,8,2,9,3,10,4) fits assms(1) key sl] E(12,13) E(7) append_take_drop_id val
    by simp
  then show ?case using IH by (simp add: x)
qed

lemma u32_array_at:
  assumes "i < length xs"
  shows "u32_at (pre @ concat (map (\<lambda>x. le_bytes 4 (f x :: u32)) xs) @ post) (length pre + 4 * i) = Some (f (xs ! i))"
  using assms
proof (induction xs arbitrary: i pre)
  case Nil
  then show ?case by simp
next
  case (Cons x xs)
  show ?case
  proof (cases i)
    case 0
    then show ?thesis by (auto intro!: u32_at_at [where pre = pre])
  next
    case (Suc j)
    then show ?thesis using Cons.IH [of j "pre @ le_bytes 4 (f x)"] Cons.prems by (simp add: add.assoc)
  qed
qed

lemma length_u32_array: "length (concat (map (\<lambda>x. le_bytes 4 (f x :: u32)) xs)) = 4 * length xs"
  by (induction xs) simp_all

definition restarts_ok :: "item list \<Rightarrow> nat list \<Rightarrow> bool" where
  "restarts_ok xs ri \<longleftrightarrow> ri \<noteq> [] \<and> hd ri = 0 \<and> sorted_wrt (<) ri \<and> (\<forall>i \<in> set ri. i < length xs \<and> fst (xs ! i) = 0)"

definition block_ok :: "compare_fn \<Rightarrow> item list \<Rightarrow> nat list \<Rightarrow> bool" where
  "block_ok cmp xs ri \<longleftrightarrow> items_wf None xs \<and> restarts_ok xs ri \<and> length (block_bytes xs ri) < 2 ^ 32 \<and>
     sorted_wrt (\<lambda>a b. cmp a b < 0) (map (fst \<circ> snd) xs)"

lemma items_wf_drop:
  assumes "items_wf prev xs" and "i < length xs" and "fst (xs ! i) = 0"
  shows "items_wf None (drop i xs)"
  using assms
proof (induction xs arbitrary: prev i)
  case (Cons x xs)
  then show ?case by (cases x; cases i) auto
qed simp

lemma items_split:
  assumes "i < length xs" and "xs ! i = (s, k, v, d)"
  shows "items_bytes xs = items_bytes (take i xs) @ entry_bytes s k v d @ items_bytes (drop (Suc i) xs)"
proof -
  have "xs = take i xs @ (s, k, v, d) # drop (Suc i) xs" using assms id_take_nth_drop by metis
  then show ?thesis by (metis append_assoc items_bytes_simps(2,3))
qed

lemma item_key_length:
  "items_wf prev xs \<Longrightarrow> x \<in> set xs \<Longrightarrow>
    length (fst (snd x)) \<le> (case prev of None \<Rightarrow> 0 | Some p \<Rightarrow> length p) + length (items_bytes xs)"
proof (induction xs arbitrary: prev)
  case (Cons y xs)
  obtain s k v d where y: "y = (s, k, v, d)" by (cases y)
  have k: "length k \<le> (case prev of None \<Rightarrow> 0 | Some p \<Rightarrow> length p) + length (drop s k)"
    using Cons.prems(1) by (cases "s = 0") (auto simp: y)
  have e: "length (drop s k) \<le> length (entry_bytes s k v d)" by (simp add: entry_bytes_def)
  show ?case
  proof (cases "x = y")
    case True
    then show ?thesis using k e by (simp add: y)
  next
    case False
    then have "length (fst (snd x)) \<le> length k + length (items_bytes xs)"
      using Cons.IH [of "Some k"] Cons.prems by (simp add: y)
    then show ?thesis using k e by (simp add: y)
  qed
qed simp

context key_order
begin

lemma item_lookup_skip:
  assumes "\<forall>x \<in> set xs. cmp (fst (snd x)) key < 0"
  shows "item_lookup cmp key (xs @ ys) = item_lookup cmp key ys"
  using assms by (induction xs) (auto split: prod.splits)

text \<open>The search in a block finds what the entries say.\<close>

lemma search_block_spec:
  assumes ok: "block_ok cmp xs ri" and w: "alloc_ok w"
  shows "search_block cmp (block_bytes xs ri) key w = Some (item_lookup cmp key xs, w)"
proof -
  let ?b = "block_bytes xs ri" and ?rs = "length (items_bytes xs)" and ?n = "length ri"
  let ?off = "\<lambda>i. of_nat (restart_offset xs i) :: u32"
  let ?R = "concat (map (\<lambda>i. le_bytes 4 (?off i)) ri)"
  have b: "?b = items_bytes xs @ ?R @ le_bytes 4 (of_nat ?n :: u32) @ le_bytes 4 (crc32 (block_body xs ri))"
    by (simp add: block_bytes_def block_body_def)
  have len: "length ?b = ?rs + 4 * ?n + 8" by (simp add: b length_u32_array)
  have small: "?rs + 4 * ?n + 8 < 2 ^ 32" using ok len by (simp add: block_ok_def)
  have ri: "ri \<noteq> []" "hd ri = 0" "sorted_wrt (<) ri" "\<And>i. i \<in> set ri \<Longrightarrow> i < length xs \<and> fst (xs ! i) = 0"
    using ok by (auto simp: block_ok_def restarts_ok_def)
  have num: "u32_at ?b (length ?b - 8) = Some (of_nat ?n)"
    by (rule u32_at_at [where pre = "items_bytes xs @ ?R"]) (simp_all add: b length_u32_array)
  have crc: "u32_at ?b (length ?b - 4) = Some (crc32 (block_body xs ri))"
    by (rule u32_at_at [where pre = "block_body xs ri" and post = "[]"]) (simp_all add: block_bytes_def)
  have body: "take (length ?b - 4) ?b = block_body xs ri" by (simp add: block_bytes_def)
  have rs: "size_sub (length ?b - 8) (unat ((of_nat ?n :: u32) * 4)) = ?rs"
    using small len by (simp add: unat_word_ariths unat_of_nat)
  have restart: "u32_at ?b (size_add ?rs (4 * j)) = Some (?off (ri ! j))" if "j < ?n" for j
    using u32_array_at [OF that, of "items_bytes xs" ?off] that small b by (simp add: SIZE_MOD_def)
  have pre: "length (items_bytes (take i xs)) \<le> ?rs" for i
    by (metis append_take_drop_id items_bytes_simps(3) le_add1 length_append)
  have off: "unat (?off i) = length (items_bytes (take i xs))" for i
    using pre [of i] small by (simp add: restart_offset_def unat_of_nat)
  have klen: "\<forall>x \<in> set xs. length (fst (snd x)) < SIZE_MOD"
    using item_key_length [of None xs] ok small by (fastforce simp: block_ok_def SIZE_MOD_def)
  let ?K = "\<lambda>i. fst (snd (xs ! i))"
  have mono: "cmp (?K i) (?K j) < 0" if "i < j" "j < length xs" for i j
    using ok that by (auto simp: block_ok_def sorted_wrt_iff_nth_less)
  have below: "restart_below cmp ?b ?rs key j = Some (Inr (cmp (?K (ri ! j)) key < 0))" if j: "j < ?n" for j
  proof -
    let ?i = "ri ! j"
    have i: "?i < length xs" "fst (xs ! ?i) = 0" using ri(4) j by simp_all
    then obtain k v d where x: "xs ! ?i = (0, k, v, d)" by (cases "xs ! ?i") auto
    have "length k < SIZE_MOD" using klen i(1) x by (metis fst_conv nth_mem snd_conv)
    moreover have "?b = items_bytes (take ?i xs) @ entry_bytes 0 k v d @ items_bytes (drop (Suc ?i) xs) @ ?R @
        le_bytes 4 (of_nat ?n :: u32) @ le_bytes 4 (crc32 (block_body xs ri))"
      using b items_split [OF i(1) x] by simp
    moreover have "length (items_bytes (take ?i xs)) + length (entry_bytes 0 k v d) \<le> ?rs"
      using items_split [OF i(1) x] by simp
    ultimately have "restart_key ?b ?rs (length (items_bytes (take ?i xs))) = Some (Inr k)"
      using small by (intro restart_key_spec) (auto simp: SIZE_MOD_def)
    then show ?thesis using restart [OF j] off [of ?i] x by (simp add: restart_below_def)
  qed
  have "\<exists>r. lower_bound (restart_below cmp ?b ?rs key) 0 ?n = Some (Inr r) \<and> 0 \<le> r \<and> r \<le> ?n \<and>
      (\<forall>i. 0 \<le> i \<and> i < r \<longrightarrow> cmp (?K (ri ! i)) key < 0) \<and> (\<forall>i. r \<le> i \<and> i < ?n \<longrightarrow> \<not> cmp (?K (ri ! i)) key < 0)"
  proof (rule lower_bound_correct)
    fix i j assume ij: "0 \<le> i" "i \<le> j" "j < ?n" and P: "cmp (?K (ri ! j)) key < 0"
    show "cmp (?K (ri ! i)) key < 0"
    proof (cases "i = j")
      case False
      then have "ri ! i < ri ! j" using ri(3) ij by (simp add: sorted_wrt_iff_nth_less)
      then show ?thesis using mono [of "ri ! i" "ri ! j"] ri(4) [of "ri ! j"] ij(3) P cmp_trans by auto
    qed (use P in simp)
  qed (use below in auto)
  then obtain r where r: "lower_bound (restart_below cmp ?b ?rs key) 0 ?n = Some (Inr r)" "r \<le> ?n"
    "\<And>i. i < r \<Longrightarrow> cmp (?K (ri ! i)) key < 0" by auto
  define st where "st = (if r > 0 then r - 1 else 0)"
  let ?i = "ri ! st"
  have st: "st < ?n" using r(2) ri(1) by (auto simp: st_def)
  then have i: "?i < length xs" "fst (xs ! ?i) = 0" using ri(4) by simp_all
  have less: "\<forall>x \<in> set (take ?i xs). cmp (fst (snd x)) key < 0"
  proof (cases "r = 0")
    case True
    then show ?thesis using ri(1,2) by (simp add: st_def hd_conv_nth)
  next
    case False
    then have "cmp (?K ?i) key < 0" using r(3) [of st] by (simp add: st_def)
    then show ?thesis using mono [of _ ?i] i(1) cmp_trans by (fastforce simp: in_set_conv_nth)
  qed
  have "scan_block cmp ?b ?rs key (length (items_bytes (take ?i xs))) None w = Some (item_lookup cmp key (drop ?i xs), w)"
  proof (rule scan_block_spec [OF w])
    show "?b = items_bytes (take ?i xs) @ items_bytes (drop ?i xs) @ ?R @ le_bytes 4 (of_nat ?n :: u32) @
        le_bytes 4 (crc32 (block_body xs ri))"
      unfolding b by (metis append_assoc append_take_drop_id items_bytes_simps(3))
    show "?rs = length (items_bytes (take ?i xs)) + length (items_bytes (drop ?i xs))"
      by (metis append_take_drop_id items_bytes_simps(3) length_append)
    show "?rs < SIZE_MOD" using small by (simp add: SIZE_MOD_def)
    show "items_wf None (drop ?i xs)" using items_wf_drop [OF _ i] ok by (auto simp: block_ok_def)
    show "\<forall>x \<in> set (drop ?i xs). length (fst (snd x)) < SIZE_MOD" using klen by (auto dest: in_set_dropD)
  qed
  moreover have "item_lookup cmp key xs = item_lookup cmp key (drop ?i xs)"
    using item_lookup_skip [OF less, of "drop ?i xs"] by simp
  moreover have "unat (of_nat ?n :: u32) = ?n" using small by (simp add: unat_of_nat)
  moreover have "\<not> length ?b < 8" using len by simp
  ultimately show ?thesis
    using num crc body rs r(1) restart [OF st] off [of ?i]
    by (simp add: search_block_def Let_def st_def [symmetric] del: size_sub_small)
qed

end

end
