(* ===== verification/SE_Bloom.thy ===== *)
theory SE_Bloom
  imports SE_Keys C_Runtime
begin

text \<open>
  The Bloom filter of a table (\<^verbatim>\<open>storage-engine/src/bloom.c\<close>). The bit array is a list of bytes;
  an access outside it and the remainder by zero are undefined (\<open>None\<close>). Lengths of keys are below
  \<open>2 ^ 31\<close>, the range of the block counter of the hash function.
\<close>

definition BLOOM_BITS_PER_KEY :: u64 where "BLOOM_BITS_PER_KEY = 10"

record bloom_filter =
  bf_bits :: bytes
  bf_num_bits :: u64
  bf_num_keys :: u64
  bf_num_hashes :: u8

section \<open>The hash function\<close>

definition rotl32 :: "nat \<Rightarrow> u32 \<Rightarrow> u32" where
  "rotl32 n x = push_bit n x OR drop_bit (32 - n) x"

definition murmur_scramble :: "u32 \<Rightarrow> u32" where
  "murmur_scramble k1 = rotl32 15 (k1 * 0xcc9e2d51) * 0x1b873593"

text \<open>The loop over the blocks of four bytes; what is left is the tail.\<close>

fun murmur_body :: "u32 \<Rightarrow> bytes \<Rightarrow> u32 \<times> bytes" where
  "murmur_body h1 (a # b # c # d # rest) =
     murmur_body (rotl32 13 (h1 XOR murmur_scramble (le_word [a, b, c, d])) * 5 + 0xe6546b64) rest"
| "murmur_body h1 tail = (h1, tail)"

fun murmur_tail :: "u32 \<Rightarrow> bytes \<Rightarrow> u32" where
  "murmur_tail h1 [a] = h1 XOR murmur_scramble (ucast a)"
| "murmur_tail h1 [a, b] = h1 XOR murmur_scramble (push_bit 8 (ucast b) XOR ucast a)"
| "murmur_tail h1 [a, b, c] = h1 XOR murmur_scramble (push_bit 16 (ucast c) XOR push_bit 8 (ucast b) XOR ucast a)"
| "murmur_tail h1 _ = h1"

definition murmur_finalize :: "u32 \<Rightarrow> u32" where
  "murmur_finalize h1 =
     (let h1 = h1 XOR drop_bit 16 h1; h1 = h1 * 0x85ebca6b;
          h1 = h1 XOR drop_bit 13 h1; h1 = h1 * 0xc2b2ae35
      in h1 XOR drop_bit 16 h1)"

definition murmur_hash3_32 :: "bytes \<Rightarrow> u32 \<Rightarrow> u32" where
  "murmur_hash3_32 key seed =
     (case murmur_body seed key of (h1, tail) \<Rightarrow> murmur_finalize (murmur_tail h1 tail XOR of_nat (length key)))"

section \<open>The filter\<close>

definition num_bytes :: "u64 \<Rightarrow> u64" where
  "num_bytes num_bits = (num_bits + 7) div 8"

definition bloom_create :: "u64 \<Rightarrow> world \<Rightarrow> bloom_filter option \<times> world" where
  "bloom_create estimated_keys w =
     (let estimated_keys = (if estimated_keys = 0 then 1 else estimated_keys)
      in case malloc w of (ok, w) \<Rightarrow>
         if \<not> ok then (None, w)
         else
           let n = num_bytes (estimated_keys * BLOOM_BITS_PER_KEY)
           in case malloc w of (ok, w) \<Rightarrow>
              if \<not> ok then (None, w)
              else (Some \<lparr>bf_bits = replicate (unat n) 0, bf_num_bits = n * 8, bf_num_keys = 0, bf_num_hashes = 7\<rparr>, w))"

text \<open>The position of the \<open>i\<close>-th probe: 32-bit arithmetic, then the remainder in 64 bits.\<close>

definition bit_pos :: "u64 \<Rightarrow> u32 \<Rightarrow> u32 \<Rightarrow> nat \<Rightarrow> u32 option" where
  "bit_pos num_bits h1 h2 i =
     (if num_bits = 0 then None else Some (ucast ((ucast (h1 + of_nat i * h2) :: u64) mod num_bits)))"

fun set_bits :: "u64 \<Rightarrow> u32 \<Rightarrow> u32 \<Rightarrow> nat list \<Rightarrow> bytes \<Rightarrow> bytes option" where
  "set_bits num_bits h1 h2 [] bits = Some bits"
| "set_bits num_bits h1 h2 (i # is) bits = do {
     p \<leftarrow> bit_pos num_bits h1 h2 i;
     let j = unat (p div 8);
     if j < length bits
     then set_bits num_bits h1 h2 is (bits[j := bits ! j OR push_bit (unat (p mod 8)) 1])
     else None
   }"

definition bloom_add :: "bloom_filter \<Rightarrow> bytes \<Rightarrow> bloom_filter option" where
  "bloom_add bf key = do {
     let h1 = murmur_hash3_32 key 0;
     let h2 = murmur_hash3_32 key h1;
     bits \<leftarrow> set_bits (bf_num_bits bf) h1 h2 [0..<unat (bf_num_hashes bf)] (bf_bits bf);
     Some (bf\<lparr>bf_bits := bits, bf_num_keys := bf_num_keys bf + 1\<rparr>)
   }"

fun test_bits :: "u64 \<Rightarrow> u32 \<Rightarrow> u32 \<Rightarrow> nat list \<Rightarrow> bytes \<Rightarrow> bool option" where
  "test_bits num_bits h1 h2 [] bits = Some True"
| "test_bits num_bits h1 h2 (i # is) bits = do {
     p \<leftarrow> bit_pos num_bits h1 h2 i;
     let j = unat (p div 8);
     if j < length bits
     then if bits ! j AND push_bit (unat (p mod 8)) 1 = 0 then Some False else test_bits num_bits h1 h2 is bits
     else None
   }"

definition bloom_may_contain :: "bloom_filter \<Rightarrow> bytes \<Rightarrow> bool option" where
  "bloom_may_contain bf key =
     (let h1 = murmur_hash3_32 key 0; h2 = murmur_hash3_32 key h1
      in test_bits (bf_num_bits bf) h1 h2 [0..<unat (bf_num_hashes bf)] (bf_bits bf))"

section \<open>Serialization\<close>

definition bloom_serialized_size :: "bloom_filter \<Rightarrow> u64" where
  "bloom_serialized_size bf = 8 + 1 + num_bytes (bf_num_bits bf)"

text \<open>The buffer before is replaced by the buffer after; its length is the argument \<^verbatim>\<open>len\<close>.\<close>

definition bloom_serialize :: "bloom_filter \<Rightarrow> bytes \<Rightarrow> (status_t \<times> bytes) option" where
  "bloom_serialize bf buf =
     (if length buf < unat (bloom_serialized_size bf) then Some (STATUS_INVALID_ARG, buf)
      else
        let n = unat (num_bytes (bf_num_bits bf))
        in if length (bf_bits bf) < n then None
           else Some (STATUS_OK, le_bytes 8 (bf_num_bits bf) @ [bf_num_hashes bf] @ take n (bf_bits bf) @ drop (9 + n) buf))"

definition bloom_deserialize :: "bytes \<Rightarrow> world \<Rightarrow> bloom_filter option \<times> world" where
  "bloom_deserialize buf w =
     (if length buf < 9 then (None, w)
      else
        let num_bits = le_word (take 8 buf) :: u64; num_hashes = buf ! 8; n = num_bytes num_bits
        in if length buf < unat (9 + n) then (None, w)
           else case malloc w of (ok, w) \<Rightarrow>
                if \<not> ok then (None, w)
                else case malloc w of (ok, w) \<Rightarrow>
                if \<not> ok then (None, w)
                else (Some \<lparr>bf_bits = take (unat n) (drop 9 buf), bf_num_bits = num_bits, bf_num_keys = 0,
                            bf_num_hashes = num_hashes\<rparr>, w))"

section \<open>Probes and bits\<close>

definition probe :: "u64 \<Rightarrow> u32 \<Rightarrow> u32 \<Rightarrow> nat \<Rightarrow> nat" where
  "probe num_bits h1 h2 i = unat (h1 + of_nat i * h2) mod unat num_bits"

definition has_bit :: "bytes \<Rightarrow> nat \<Rightarrow> bool" where
  "has_bit bits p \<longleftrightarrow> bit (bits ! (p div 8)) (p mod 8)"

definition bloom_wf :: "bloom_filter \<Rightarrow> bool" where
  "bloom_wf bf \<longleftrightarrow> bf_num_bits bf \<noteq> 0 \<and> unat (bf_num_bits bf) = 8 * length (bf_bits bf) \<and>
     unat (bf_num_bits bf) + 7 < 2 ^ 64"

lemma bit_pos_probe:
  assumes "num_bits \<noteq> 0"
  shows "\<exists>p. bit_pos num_bits h1 h2 i = Some p \<and> unat (p div 8) = probe num_bits h1 h2 i div 8 \<and>
    unat (p mod 8) = probe num_bits h1 h2 i mod 8"
proof -
  let ?x = "h1 + of_nat i * h2" and ?p = "ucast ((ucast (h1 + of_nat i * h2) :: u64) mod num_bits) :: u32"
  have x: "unat (ucast ?x :: u64) = unat ?x"
    using unsigned_less [of ?x, where 'a = nat] by (simp add: unsigned_ucast_eq take_bit_nat_eq_self)
  have "unat ?x mod unat num_bits \<le> unat ?x" by simp
  also have "unat ?x < 2 ^ 32" using unsigned_less [of ?x, where 'a = nat] by simp
  finally have "unat ?x mod unat num_bits < 2 ^ 32" .
  moreover have "unat ?p = take_bit 32 (unat ((ucast ?x :: u64) mod num_bits))" by (simp add: unsigned_ucast_eq)
  ultimately have "unat ?p = probe num_bits h1 h2 i" unfolding unat_mod x by (simp add: probe_def take_bit_nat_eq_self)
  then show ?thesis using assms by (simp add: bit_pos_def unat_div unat_mod)
qed

lemma has_bit_set:
  assumes "j < length bits" and "k < 8"
  shows "has_bit (bits[j := bits ! j OR push_bit k 1]) p \<longleftrightarrow> has_bit bits p \<or> p = 8 * j + k"
proof -
  have "p = 8 * j + k \<longleftrightarrow> p div 8 = j \<and> p mod 8 = k" using assms(2) by auto
  then show ?thesis using assms by (auto simp: has_bit_def nth_list_update bit_simps)
qed

lemma and_bit_zero: "(b :: u8) AND 2 ^ k = 0 \<longleftrightarrow> \<not> bit b k"
  by (simp add: and_exp_eq_0_iff_not_bit)

lemma probe_index:
  "num_bits \<noteq> 0 \<Longrightarrow> unat num_bits = 8 * n \<Longrightarrow> probe num_bits h1 h2 i div 8 < n"
  by (auto simp: probe_def unat_eq_0 intro!: less_mult_imp_div_less)
     (metis gr0I mod_less_divisor mult.commute unat_eq_0)

lemma set_bits_effect:
  assumes "num_bits \<noteq> 0" and "unat num_bits = 8 * length bits"
  shows "\<exists>bits'. set_bits num_bits h1 h2 is bits = Some bits' \<and> length bits' = length bits \<and>
    (\<forall>p. has_bit bits' p \<longleftrightarrow> has_bit bits p \<or> p \<in> probe num_bits h1 h2 ` set is)"
  using assms
proof (induction "is" arbitrary: bits)
  case Nil
  then show ?case by simp
next
  case (Cons i "is")
  let ?q = "probe num_bits h1 h2 i"
  obtain p where p: "bit_pos num_bits h1 h2 i = Some p" "unat (p div 8) = ?q div 8" "unat (p mod 8) = ?q mod 8"
    using bit_pos_probe [OF Cons.prems(1)] by blast
  have j: "?q div 8 < length bits" using probe_index [OF Cons.prems] .
  show ?case
    using Cons.IH [of "bits[?q div 8 := bits ! (?q div 8) OR 2 ^ (?q mod 8)]"] Cons.prems j
      has_bit_set [OF j, of "?q mod 8"]
    by (auto simp: p)
qed

lemma test_bits_iff:
  assumes "num_bits \<noteq> 0" and "unat num_bits = 8 * length bits"
  shows "test_bits num_bits h1 h2 is bits = Some (\<forall>i \<in> set is. has_bit bits (probe num_bits h1 h2 i))"
proof (induction "is")
  case Nil
  then show ?case by simp
next
  case (Cons i "is")
  let ?q = "probe num_bits h1 h2 i"
  obtain p where p: "bit_pos num_bits h1 h2 i = Some p" "unat (p div 8) = ?q div 8" "unat (p mod 8) = ?q mod 8"
    using bit_pos_probe [OF assms(1)] by blast
  show ?case using Cons probe_index [OF assms] by (simp add: p and_bit_zero has_bit_def)
qed

section \<open>Added keys are found\<close>

definition probes :: "bloom_filter \<Rightarrow> bytes \<Rightarrow> nat set" where
  "probes bf key = probe (bf_num_bits bf) (murmur_hash3_32 key 0) (murmur_hash3_32 key (murmur_hash3_32 key 0)) `
     {..<unat (bf_num_hashes bf)}"

lemma bloom_may_contain_iff:
  "bloom_wf bf \<Longrightarrow> bloom_may_contain bf key = Some (\<forall>p \<in> probes bf key. has_bit (bf_bits bf) p)"
  by (simp add: bloom_may_contain_def Let_def bloom_wf_def test_bits_iff probes_def lessThan_atLeast0)

lemma bloom_add_ok:
  assumes "bloom_wf bf"
  shows "\<exists>bf'. bloom_add bf key = Some bf' \<and> bloom_wf bf' \<and> bf_num_bits bf' = bf_num_bits bf \<and>
    bf_num_hashes bf' = bf_num_hashes bf \<and>
    (\<forall>p. has_bit (bf_bits bf') p \<longleftrightarrow> has_bit (bf_bits bf) p \<or> p \<in> probes bf key)"
proof -
  let ?h = "murmur_hash3_32 key 0"
  obtain bits where "set_bits (bf_num_bits bf) ?h (murmur_hash3_32 key ?h) [0..<unat (bf_num_hashes bf)] (bf_bits bf) = Some bits"
    "length bits = length (bf_bits bf)"
    "\<forall>p. has_bit bits p \<longleftrightarrow> has_bit (bf_bits bf) p \<or> p \<in> probes bf key"
    using set_bits_effect [of "bf_num_bits bf" "bf_bits bf" ?h "murmur_hash3_32 key ?h" "[0..<unat (bf_num_hashes bf)]"] assms
    by (auto simp: bloom_wf_def probes_def lessThan_atLeast0)
  then show ?thesis using assms by (simp add: bloom_add_def bloom_wf_def)
qed

fun bloom_add_all :: "bloom_filter \<Rightarrow> bytes list \<Rightarrow> bloom_filter option" where
  "bloom_add_all bf [] = Some bf"
| "bloom_add_all bf (k # ks) = do { bf \<leftarrow> bloom_add bf k; bloom_add_all bf ks }"

lemma bloom_add_all_ok:
  assumes "bloom_wf bf"
  shows "\<exists>bf'. bloom_add_all bf keys = Some bf' \<and> bloom_wf bf' \<and> bf_num_bits bf' = bf_num_bits bf \<and>
    bf_num_hashes bf' = bf_num_hashes bf \<and>
    (\<forall>p. has_bit (bf_bits bf') p \<longleftrightarrow> has_bit (bf_bits bf) p \<or> (\<exists>k \<in> set keys. p \<in> probes bf k))"
  using assms
proof (induction keys arbitrary: bf)
  case Nil
  then show ?case by simp
next
  case (Cons k ks)
  obtain bf1 where bf1: "bloom_add bf k = Some bf1" "bloom_wf bf1" "bf_num_bits bf1 = bf_num_bits bf"
    "bf_num_hashes bf1 = bf_num_hashes bf"
    "\<forall>p. has_bit (bf_bits bf1) p \<longleftrightarrow> has_bit (bf_bits bf) p \<or> p \<in> probes bf k"
    using bloom_add_ok [OF Cons.prems] by blast
  then have "probes bf1 = probes bf" by (simp add: probes_def fun_eq_iff)
  then show ?case using Cons.IH [OF bf1(2)] bf1 by auto
qed

lemma bloom_create_ok:
  assumes "alloc_ok w" and "unat n * 10 + 7 < 2 ^ 64"
  shows "\<exists>bf. bloom_create n w = (Some bf, w) \<and> bloom_wf bf \<and> bf_num_hashes bf = 7 \<and>
    unat (bf_num_bits bf) \<le> unat n * 10 + 17"
proof -
  define e :: u64 where "e = (if n = 0 then 1 else n)"
  have e: "e \<noteq> 0" "unat e * 10 + 7 < 2 ^ 64" using assms(2) by (auto simp: e_def)
  let ?m = "unat (num_bytes (e * BLOOM_BITS_PER_KEY))"
  have b: "?m = (unat e * 10 + 7) div 8"
    using e(2) by (simp add: num_bytes_def BLOOM_BITS_PER_KEY_def unat_div unat_word_ariths)
  have "unat e > 0" using e(1) by (simp add: unat_gt_0)
  then have p: "?m > 0" using b by simp
  have "8 * ?m \<le> unat e * 10 + 7" unfolding b by simp
  then have "unat (num_bytes (e * BLOOM_BITS_PER_KEY) * 8) = 8 * ?m"
    using e(2) by (simp add: unat_word_ariths)
  moreover have "8 * ?m + 7 < 2 ^ 64"
  proof -
    have *: "8 * k < 18446744073709551616 \<Longrightarrow> 8 * k + 7 < (18446744073709551616 :: nat)" for k by presburger
    have "8 * ?m < 18446744073709551616" using \<open>8 * ?m \<le> unat e * 10 + 7\<close> e(2) by simp
    from * [OF this] show ?thesis by simp
  qed
  moreover have "8 * ?m \<le> unat n * 10 + 17" using \<open>8 * ?m \<le> unat e * 10 + 7\<close> by (simp add: e_def split: if_splits)
  ultimately show ?thesis using assms(1) p
    by (auto simp: bloom_create_def Let_def e_def [symmetric] bloom_wf_def unat_eq_zero)
qed

lemma bloom_codec:
  assumes wf: "bloom_wf bf" and w: "alloc_ok w"
  defines "buf \<equiv> replicate (unat (bloom_serialized_size bf)) 0"
  shows "\<exists>out. bloom_serialize bf buf = Some (STATUS_OK, out) \<and>
    length out = unat (bloom_serialized_size bf) \<and>
    bloom_deserialize out w = (Some (bf\<lparr>bf_num_keys := 0\<rparr>), w)"
proof -
  let ?n = "num_bytes (bf_num_bits bf)" and ?L = "length (bf_bits bf)"
  have n: "unat ?n = ?L" using wf by (simp add: bloom_wf_def num_bytes_def unat_div unat_word_ariths)
  have L: "8 * ?L + 7 < 2 ^ 64" using wf by (simp add: bloom_wf_def)
  have sz: "unat (9 + ?n) = 9 + ?L" using n L by (simp add: unat_word_ariths)
  let ?out = "le_bytes 8 (bf_num_bits bf) @ [bf_num_hashes bf] @ bf_bits bf"
  have "bloom_serialize bf buf = Some (STATUS_OK, ?out)"
    using n sz by (simp add: bloom_serialize_def buf_def bloom_serialized_size_def)
  moreover have "bloom_deserialize ?out w = (Some (bf\<lparr>bf_num_keys := 0\<rparr>), w)"
    using n sz w by (simp add: bloom_deserialize_def nth_append)
  ultimately show ?thesis using sz by (simp add: bloom_serialized_size_def)
qed

section \<open>No false negatives\<close>

text \<open>C37: A Bloom filter has no false negatives, before and after it went through a file. For every
  list of keys added to a new filter, every added key is reported as possibly contained, no access
  leaves the bit array, and the filter read back from its serialized form answers every query as the
  filter that was written.\<close>

theorem bloom_no_false_negatives:
  assumes "alloc_ok w" and "unat estimated_keys * 10 + 7 < 2 ^ 64"
  shows "\<exists>bf bf1 out bf2. bloom_create estimated_keys w = (Some bf, w) \<and> bloom_add_all bf keys = Some bf1 \<and>
    (\<forall>k \<in> set keys. bloom_may_contain bf1 k = Some True) \<and>
    bloom_serialize bf1 (replicate (unat (bloom_serialized_size bf1)) 0) = Some (STATUS_OK, out) \<and>
    bloom_deserialize out w = (Some bf2, w) \<and> (\<forall>k. bloom_may_contain bf2 k = bloom_may_contain bf1 k)"
proof -
  obtain bf where bf: "bloom_create estimated_keys w = (Some bf, w)" "bloom_wf bf"
    using bloom_create_ok [OF assms] by blast
  obtain bf1 where bf1: "bloom_add_all bf keys = Some bf1" "bloom_wf bf1" "bf_num_bits bf1 = bf_num_bits bf"
    "bf_num_hashes bf1 = bf_num_hashes bf"
    "\<forall>p. has_bit (bf_bits bf1) p \<longleftrightarrow> has_bit (bf_bits bf) p \<or> (\<exists>k \<in> set keys. p \<in> probes bf k)"
    using bloom_add_all_ok [OF bf(2)] by blast
  have "probes bf1 k = probes bf k" for k using bf1 by (simp add: probes_def)
  then have "\<forall>k \<in> set keys. bloom_may_contain bf1 k = Some True"
    using bf1(5) by (auto simp: bloom_may_contain_iff [OF bf1(2)])
  moreover have "bloom_may_contain (bf1\<lparr>bf_num_keys := 0\<rparr>) k = bloom_may_contain bf1 k" for k
    by (simp add: bloom_may_contain_def)
  ultimately show ?thesis using bf bf1 bloom_codec [OF bf1(2) assms(1)] by blast
qed

theorem bloom_no_false_negatives_witness:
  "\<exists>bf bf1. bloom_create 2 quiet_world = (Some bf, quiet_world) \<and> bloom_add_all bf [[97], [98, 99]] = Some bf1 \<and>
    bloom_may_contain bf1 [97] = Some True \<and> bloom_may_contain bf1 [98, 99] = Some True"
  using bloom_no_false_negatives [of quiet_world 2 "[[97], [98, 99]]"] by auto

end
