(* ===== verification/SE_Table.thy ===== *)
theory SE_Table
  imports SE_Block SE_Bloom SE_Wal
begin

text \<open>
  Tables on disk (\<^verbatim>\<open>storage-engine/src/sstable.c\<close>): the writer that packs sorted entries into
  blocks and ends the file with an index, a Bloom filter and a footer, and the reader. The block buffer
  has \<open>2 * SSTABLE_BLOCK_SIZE\<close> bytes; a write beyond it is undefined (\<open>None\<close>). Keys are not
  empty, so that \<^verbatim>\<open>malloc\<close> of their length returns null only when it fails. Padding bytes of the
  footer are zero.
\<close>

definition SSTABLE_BLOCK_SIZE :: nat where "SSTABLE_BLOCK_SIZE = 4096"
definition SSTABLE_RESTART_INTERVAL :: nat where "SSTABLE_RESTART_INTERVAL = 16"
definition SSTABLE_MAX_KEY_SIZE :: nat where "SSTABLE_MAX_KEY_SIZE = 256"
definition SSTABLE_MAGIC :: u64 where "SSTABLE_MAGIC = 0x535354424C455631"

record sstable_footer =
  ft_index_offset :: u64
  ft_index_size :: u32
  ft_bloom_offset :: u64
  ft_bloom_size :: u32
  ft_num_entries :: u64
  ft_min_key_len :: u32
  ft_min_key :: bytes
  ft_max_key_len :: u32
  ft_max_key :: bytes
  ft_magic :: u64

record sstable_index_entry =
  ie_last_key :: bytes
  ie_offset :: u64
  ie_size :: u32

text \<open>An index entry whose key could not be allocated is \<open>None\<close>: its fields are indeterminate.\<close>

record sstable_writer =
  sw_path :: string
  sw_cmp :: compare_fn
  sw_block :: bytes
  sw_restarts :: "u32 list"
  sw_restart_capacity :: nat
  sw_entries_since_restart :: nat
  sw_prev_key :: "bytes option"
  sw_index :: "sstable_index_entry option list"
  sw_index_capacity :: nat
  sw_bloom :: bloom_filter
  sw_num_entries :: u64
  sw_file_offset :: u64
  sw_min_key :: "bytes option"
  sw_max_key :: "bytes option"

record sstable_reader =
  sr_path :: string
  sr_cmp :: compare_fn
  sr_footer :: sstable_footer
  sr_index :: "sstable_index_entry option list"
  sr_bloom :: bloom_filter

text \<open>\<^verbatim>\<open>write_all\<close>: the descriptor stands at the end of the file; a write that moves nothing is an
  error here.\<close>

function file_write_all :: "string \<Rightarrow> bytes \<Rightarrow> world \<Rightarrow> bool \<times> world" where
  "file_write_all p buf w =
     (if buf = [] then (True, w)
      else case sys_write p (length (file_bytes p w)) buf w of
        (None, w) \<Rightarrow> (False, w)
      | (Some n, w) \<Rightarrow> if n = 0 then (False, w) else file_write_all p (drop n buf) w)"
  by pat_completeness auto
termination
  by (relation "measure (\<lambda>(p, buf, w). length buf)") auto

declare file_write_all.simps [simp del]

section \<open>The writer\<close>

text \<open>\<^verbatim>\<open>malloc\<close> only when \<open>b\<close> holds.\<close>

definition malloc_if :: "bool \<Rightarrow> world \<Rightarrow> bool \<times> world" where
  "malloc_if b w = (if b then malloc w else (True, w))"

definition sstable_writer_create ::
  "string \<Rightarrow> u64 \<Rightarrow> compare_fn option \<Rightarrow> world \<Rightarrow> sstable_writer option \<times> world"
where
  "sstable_writer_create path estimated_entries cmp w =
     (case malloc w of (ok, w) \<Rightarrow>
      if \<not> ok then (None, w)
      else case malloc w of (ok, w) \<Rightarrow>
      if \<not> ok then (None, w)
      else case sys_open_trunc path w of (ok, w) \<Rightarrow>
      if \<not> ok then (None, w)
      else case malloc w of (ok, w) \<Rightarrow>
      if \<not> ok then (None, w)
      else case malloc w of (ok, w) \<Rightarrow>
      if \<not> ok then (None, w)
      else case malloc w of (ok, w) \<Rightarrow>
      if \<not> ok then (None, w)
      else case bloom_create (if estimated_entries > 0 then estimated_entries else 1000) w of
        (None, w) \<Rightarrow> (None, w)
      | (Some bloom, w) \<Rightarrow>
          (Some \<lparr>sw_path = path, sw_cmp = (case cmp of None \<Rightarrow> default_compare | Some f \<Rightarrow> f), sw_block = [],
                 sw_restarts = [], sw_restart_capacity = 64, sw_entries_since_restart = SSTABLE_RESTART_INTERVAL,
                 sw_prev_key = None, sw_index = [], sw_index_capacity = 64, sw_bloom = bloom, sw_num_entries = 0,
                 sw_file_offset = 0, sw_min_key = None, sw_max_key = None\<rparr>, w))"

definition put_block :: "sstable_writer \<Rightarrow> bytes \<Rightarrow> sstable_writer option" where
  "put_block sw bs =
     (if length (sw_block sw) + length bs \<le> SSTABLE_BLOCK_SIZE * 2 then Some (sw\<lparr>sw_block := sw_block sw @ bs\<rparr>)
      else None)"

definition flush_block ::
  "sstable_writer \<Rightarrow> bytes option \<Rightarrow> world \<Rightarrow> (status_t \<times> sstable_writer \<times> world) option"
where
  "flush_block sw last_key w =
     (if sw_block sw = [] then Some (STATUS_OK, sw, w)
      else do {
        sw \<leftarrow> put_block sw (concat (map (\<lambda>off. le_bytes 4 off) (sw_restarts sw)));
        sw \<leftarrow> put_block sw (le_bytes 4 (of_nat (length (sw_restarts sw)) :: u32));
        sw \<leftarrow> put_block sw (le_bytes 4 (crc32 (sw_block sw)));
        case file_write_all (sw_path sw) (sw_block sw) w of (ok, w) \<Rightarrow>
        if \<not> ok then Some (STATUS_IO_ERROR, sw, w)
        else
          let grow = length (sw_index sw) \<ge> sw_index_capacity sw
          in case malloc_if grow w of (ok, w) \<Rightarrow>
             if \<not> ok then Some (STATUS_NO_MEMORY, sw, w)
             else
               let sw = (if grow then sw\<lparr>sw_index_capacity := sw_index_capacity sw * 2\<rparr> else sw)
               in case malloc w of (ok, w) \<Rightarrow>
                  if \<not> ok then Some (STATUS_NO_MEMORY, sw\<lparr>sw_index := sw_index sw @ [None]\<rparr>, w)
                  else do {
                    k \<leftarrow> last_key;
                    Some (STATUS_OK,
                      sw\<lparr>sw_index := sw_index sw @ [Some \<lparr>ie_last_key = k, ie_offset = sw_file_offset sw,
                           ie_size = of_nat (length (sw_block sw))\<rparr>],
                         sw_file_offset := sw_file_offset sw + of_nat (length (sw_block sw)),
                         sw_block := [], sw_restarts := [], sw_entries_since_restart := SSTABLE_RESTART_INTERVAL,
                         sw_prev_key := None\<rparr>, w)
                  }
      })"

text \<open>The three lengths and the tombstone flag in front of an entry.\<close>

definition entry_header :: "nat \<Rightarrow> nat \<Rightarrow> nat \<Rightarrow> bool \<Rightarrow> bytes" where
  "entry_header shared unshared value_len deleted =
     encode_varint (of_nat shared) @ encode_varint (of_nat unshared) @ encode_varint (of_nat value_len) @
     [if deleted then 1 else 0]"

text \<open>The second half of \<^verbatim>\<open>sstable_writer_add\<close>: restart point, entry, previous key.\<close>

definition append_entry ::
  "sstable_writer \<Rightarrow> bool \<Rightarrow> nat \<Rightarrow> bytes \<Rightarrow> bytes option \<Rightarrow> nat \<Rightarrow> bool \<Rightarrow> world \<Rightarrow>
   (status_t \<times> sstable_writer \<times> world) option"
where
  "append_entry sw is_restart shared key value value_len deleted w =
     (let grow = is_restart \<and> length (sw_restarts sw) \<ge> sw_restart_capacity sw
      in case malloc_if grow w of (ok, w) \<Rightarrow>
         if \<not> ok then Some (STATUS_NO_MEMORY, sw, w)
         else do {
           let sw = (if grow then sw\<lparr>sw_restart_capacity := sw_restart_capacity sw * 2\<rparr> else sw);
           let sw = (if is_restart
                     then sw\<lparr>sw_restarts := sw_restarts sw @ [of_nat (length (sw_block sw))], sw_entries_since_restart := 0\<rparr>
                     else sw);
           sw \<leftarrow> put_block sw (entry_header shared (length key - shared) value_len deleted);
           sw \<leftarrow> put_block sw (drop shared key);
           sw \<leftarrow> (case value of
                   None \<Rightarrow> Some sw
                 | Some v \<Rightarrow> if value_len > 0 then do { v \<leftarrow> slice v 0 value_len; put_block sw v } else Some sw);
           Some (case malloc w of (ok, w) \<Rightarrow>
             if \<not> ok then (STATUS_NO_MEMORY, sw\<lparr>sw_prev_key := None\<rparr>, w)
             else (STATUS_OK, sw\<lparr>sw_prev_key := Some key, sw_num_entries := sw_num_entries sw + 1,
                                 sw_entries_since_restart := sw_entries_since_restart sw + 1\<rparr>, w))
         })"

definition sstable_writer_add ::
  "sstable_writer \<Rightarrow> bytes \<Rightarrow> bytes option \<Rightarrow> nat \<Rightarrow> bool \<Rightarrow> world \<Rightarrow> (status_t \<times> sstable_writer \<times> world) option"
where
  "sstable_writer_add sw key value value_len deleted w = do {
     bloom \<leftarrow> bloom_add (sw_bloom sw) key;
     let sw = sw\<lparr>sw_bloom := bloom\<rparr>;
     case malloc_if (sw_min_key sw = None) w of (ok, w) \<Rightarrow>
     if \<not> ok then Some (STATUS_NO_MEMORY, sw, w)
     else
       let sw = (if sw_min_key sw = None then sw\<lparr>sw_min_key := Some key\<rparr> else sw)
       in case malloc w of (ok, w) \<Rightarrow>
          if \<not> ok then Some (STATUS_NO_MEMORY, sw\<lparr>sw_max_key := None\<rparr>, w)
          else do {
            let sw = sw\<lparr>sw_max_key := Some key\<rparr>;
            let is_restart = (sw_entries_since_restart sw \<ge> SSTABLE_RESTART_INTERVAL);
            let shared = (case sw_prev_key sw of
                            Some p \<Rightarrow> if is_restart then 0 else shared_prefix_len p key
                          | None \<Rightarrow> 0);
            let unshared = length key - shared;
            let total_entry_size = length (entry_header shared unshared value_len deleted) + unshared + value_len;
            let overhead = (length (sw_restarts sw) + 1) * 4 + 8;
            if length (sw_block sw) + total_entry_size + overhead > SSTABLE_BLOCK_SIZE \<and> length (sw_block sw) > 0
            then do {
              (st, sw, w) \<leftarrow> flush_block sw (sw_prev_key sw) w;
              if st \<noteq> STATUS_OK then Some (st, sw, w)
              else append_entry sw True 0 key value value_len deleted w
            }
            else append_entry sw is_restart shared key value value_len deleted w
          }
   }"

fun write_index ::
  "string \<Rightarrow> sstable_index_entry option list \<Rightarrow> u64 \<Rightarrow> world \<Rightarrow> (status_t \<times> u64 \<times> world) option"
where
  "write_index p [] off w = Some (STATUS_OK, off, w)"
| "write_index p (None # es) off w = None"
| "write_index p (Some e # es) off w =
     (let buf = encode_varint (of_nat (length (ie_last_key e)))
      in case file_write_all p buf w of (ok, w) \<Rightarrow>
         if \<not> ok then Some (STATUS_IO_ERROR, off, w)
         else case file_write_all p (ie_last_key e) w of (ok, w) \<Rightarrow>
         if \<not> ok then Some (STATUS_IO_ERROR, off, w)
         else case file_write_all p (le_bytes 8 (ie_offset e)) w of (ok, w) \<Rightarrow>
         if \<not> ok then Some (STATUS_IO_ERROR, off, w)
         else case file_write_all p (le_bytes 4 (ie_size e)) w of (ok, w) \<Rightarrow>
         if \<not> ok then Some (STATUS_IO_ERROR, off, w)
         else write_index p es (off + of_nat (length buf + length (ie_last_key e) + 12)) w)"

text \<open>The bytes of the footer before its checksum, and the footer.\<close>

definition footer_key :: "bytes option \<Rightarrow> u32 \<times> bytes" where
  "footer_key k =
     (case k of
        Some k \<Rightarrow> if length k \<le> SSTABLE_MAX_KEY_SIZE
                  then (of_nat (length k), k @ replicate (SSTABLE_MAX_KEY_SIZE - length k) 0)
                  else (0, replicate SSTABLE_MAX_KEY_SIZE 0)
      | None \<Rightarrow> (0, replicate SSTABLE_MAX_KEY_SIZE 0))"

definition footer_body :: "sstable_footer \<Rightarrow> bytes" where
  "footer_body ft = le_bytes 8 (ft_index_offset ft) @ le_bytes 4 (ft_index_size ft) @ replicate 4 0 @
     le_bytes 8 (ft_bloom_offset ft) @ le_bytes 4 (ft_bloom_size ft) @ replicate 4 0 @ le_bytes 8 (ft_num_entries ft) @
     le_bytes 4 (ft_min_key_len ft) @ ft_min_key ft @ le_bytes 4 (ft_max_key_len ft) @ ft_max_key ft @
     le_bytes 8 (ft_magic ft)"

definition footer_bytes :: "sstable_footer \<Rightarrow> bytes" where
  "footer_bytes ft = footer_body ft @ le_bytes 4 (crc32 (footer_body ft)) @ replicate 4 0"

definition FOOTER_SIZE :: nat where "FOOTER_SIZE = 576"
definition FOOTER_CRC_OFFSET :: nat where "FOOTER_CRC_OFFSET = 568"

text \<open>The second half of \<^verbatim>\<open>sstable_writer_finish\<close>: filter and footer.\<close>

definition write_tail ::
  "sstable_writer \<Rightarrow> u64 \<Rightarrow> world \<Rightarrow> (status_t \<times> world) option"
where
  "write_tail sw index_offset w =
     (case malloc w of (ok, w) \<Rightarrow>
      if \<not> ok then Some (STATUS_NO_MEMORY, w)
      else do {
        let bloom_offset = sw_file_offset sw;
        let bloom_size = bloom_serialized_size (sw_bloom sw);
        (st, bloom_buf) \<leftarrow> bloom_serialize (sw_bloom sw) (replicate (unat bloom_size) 0);
        Some (case file_write_all (sw_path sw) bloom_buf w of (ok, w) \<Rightarrow>
          if \<not> ok then (STATUS_IO_ERROR, w)
          else
            let (min_len, min_key) = footer_key (sw_min_key sw);
                (max_len, max_key) = footer_key (sw_max_key sw);
                footer = \<lparr>ft_index_offset = index_offset, ft_index_size = ucast (bloom_offset - index_offset),
                          ft_bloom_offset = bloom_offset, ft_bloom_size = ucast bloom_size,
                          ft_num_entries = sw_num_entries sw, ft_min_key_len = min_len, ft_min_key = min_key,
                          ft_max_key_len = max_len, ft_max_key = max_key, ft_magic = SSTABLE_MAGIC\<rparr>
            in case file_write_all (sw_path sw) (footer_bytes footer) w of (ok, w) \<Rightarrow>
               (if ok then STATUS_OK else STATUS_IO_ERROR, w))
      })"

definition sstable_writer_finish :: "sstable_writer \<Rightarrow> world \<Rightarrow> (status_t \<times> world) option" where
  "sstable_writer_finish sw w = do {
     (st, sw, w) \<leftarrow> (if sw_block sw \<noteq> [] \<and> sw_prev_key sw \<noteq> None then flush_block sw (sw_prev_key sw) w
                     else Some (STATUS_OK, sw, w));
     if st \<noteq> STATUS_OK then Some (st, w)
     else do {
       (st, off, w) \<leftarrow> write_index (sw_path sw) (sw_index sw) (sw_file_offset sw) w;
       if st \<noteq> STATUS_OK then Some (st, w)
       else write_tail (sw\<lparr>sw_file_offset := off\<rparr>) (sw_file_offset sw) w
     }
   }"

definition sstable_writer_abort :: "sstable_writer \<Rightarrow> world \<Rightarrow> world" where
  "sstable_writer_abort sw w = sys_unlink (sw_path sw) w"

section \<open>The reader\<close>

definition parse_footer :: "bytes \<Rightarrow> sstable_footer" where
  "parse_footer bs = \<lparr>ft_index_offset = le_word (take 8 bs), ft_index_size = le_word (take 4 (drop 8 bs)),
     ft_bloom_offset = le_word (take 8 (drop 16 bs)), ft_bloom_size = le_word (take 4 (drop 24 bs)),
     ft_num_entries = le_word (take 8 (drop 32 bs)), ft_min_key_len = le_word (take 4 (drop 40 bs)),
     ft_min_key = take SSTABLE_MAX_KEY_SIZE (drop 44 bs), ft_max_key_len = le_word (take 4 (drop 300 bs)),
     ft_max_key = take SSTABLE_MAX_KEY_SIZE (drop 304 bs), ft_magic = le_word (take 8 (drop 560 bs))\<rparr>"

text \<open>The loop that parses the index. \<open>Inl\<close>: the array could not grow; the reader gives up.\<close>

function parse_index ::
  "bytes \<Rightarrow> nat \<Rightarrow> nat \<Rightarrow> sstable_index_entry option list \<Rightarrow> world \<Rightarrow>
   ((unit + sstable_index_entry option list) \<times> world) option"
where
  "parse_index buf pos capacity acc w =
     (if \<not> pos < length buf then Some (Inr acc, w)
      else case malloc_if (length acc \<ge> capacity) w of (ok, w) \<Rightarrow>
        if \<not> ok then Some (Inl (), w)
        else do {
          (n, key_len) \<leftarrow> decode_varint buf pos (length buf - pos);
          if n = 0 \<or> size_add (pos + n) (unat key_len + 12) > length buf then Some (Inr acc, w)
          else case malloc w of (ok, w) \<Rightarrow>
            if \<not> ok then Some (Inr (acc @ [None]), w)
            else do {
              k \<leftarrow> slice buf (pos + n) (unat key_len);
              off \<leftarrow> slice buf (pos + n + unat key_len) 8;
              sz \<leftarrow> slice buf (pos + n + unat key_len + 8) 4;
              parse_index buf (pos + n + unat key_len + 12) (if length acc \<ge> capacity then capacity * 2 else capacity)
                (acc @ [Some \<lparr>ie_last_key = k, ie_offset = le_word off, ie_size = le_word sz\<rparr>]) w
            }
        })"
  by pat_completeness auto
termination
  by (relation "measure (\<lambda>(buf, pos, capacity, acc, w). length buf - pos)") auto

declare parse_index.simps [simp del]

text \<open>\<^verbatim>\<open>read_all\<close> of exactly \<open>n\<close> bytes at \<open>off\<close>.\<close>

definition read_exact :: "string \<Rightarrow> nat \<Rightarrow> nat \<Rightarrow> world \<Rightarrow> bytes option \<times> world" where
  "read_exact p off n w =
     (case read_all (drop off (file_bytes p w)) n w of
        (None, w) \<Rightarrow> (None, w)
      | (Some bs, w) \<Rightarrow> (if length bs = n then Some bs else None, w))"

definition read_footer :: "string \<Rightarrow> world \<Rightarrow> sstable_footer option \<times> world" where
  "read_footer path w =
     (case sys_ok w of (ok, w) \<Rightarrow>
      if \<not> ok \<or> length (file_bytes path w) < FOOTER_SIZE then (None, w)
      else case sys_ok w of (ok, w) \<Rightarrow>
      if \<not> ok then (None, w)
      else case read_exact path (length (file_bytes path w) - FOOTER_SIZE) FOOTER_SIZE w of
        (None, w) \<Rightarrow> (None, w)
      | (Some bs, w) \<Rightarrow>
          let ft = parse_footer bs
          in (if ft_magic ft \<noteq> SSTABLE_MAGIC \<or> le_word (take 4 (drop FOOTER_CRC_OFFSET bs)) \<noteq> crc32 (take FOOTER_CRC_OFFSET bs)
              then None else Some ft, w))"

definition read_bloom :: "string \<Rightarrow> sstable_footer \<Rightarrow> world \<Rightarrow> bloom_filter option \<times> world" where
  "read_bloom path ft w =
     (case sys_ok w of (ok, w) \<Rightarrow>
      if \<not> ok then (None, w)
      else case malloc w of (ok, w) \<Rightarrow>
      if \<not> ok then (None, w)
      else case read_exact path (unat (ft_bloom_offset ft)) (unat (ft_bloom_size ft)) w of
        (None, w) \<Rightarrow> (None, w)
      | (Some buf, w) \<Rightarrow> bloom_deserialize buf w)"

definition read_index ::
  "string \<Rightarrow> sstable_footer \<Rightarrow> world \<Rightarrow> (sstable_index_entry option list option \<times> world) option"
where
  "read_index path ft w =
     (case sys_ok w of (ok, w) \<Rightarrow>
      if \<not> ok then Some (None, w)
      else case malloc w of (ok, w) \<Rightarrow>
      if \<not> ok then Some (None, w)
      else case read_exact path (unat (ft_index_offset ft)) (unat (ft_index_size ft)) w of
        (None, w) \<Rightarrow> Some (None, w)
      | (Some buf, w) \<Rightarrow>
          (case malloc w of (ok, w) \<Rightarrow>
           if \<not> ok then Some (None, w)
           else do {
             (r, w) \<leftarrow> parse_index buf 0 16 [] w;
             Some (case r of Inl _ \<Rightarrow> None | Inr ies \<Rightarrow> Some ies, w)
           }))"

definition sstable_reader_open ::
  "string \<Rightarrow> compare_fn option \<Rightarrow> world \<Rightarrow> (sstable_reader option \<times> world) option"
where
  "sstable_reader_open path cmp w =
     (case malloc w of (ok, w) \<Rightarrow>
      if \<not> ok then Some (None, w)
      else case malloc w of (ok, w) \<Rightarrow>
      if \<not> ok then Some (None, w)
      else case sys_open_read path w of (r, w) \<Rightarrow>
      if r \<noteq> Open_ok then Some (None, w)
      else case read_footer path w of
        (None, w) \<Rightarrow> Some (None, w)
      | (Some ft, w) \<Rightarrow>
          (case read_bloom path ft w of
             (None, w) \<Rightarrow> Some (None, w)
           | (Some bloom, w) \<Rightarrow> do {
               (ies, w) \<leftarrow> read_index path ft w;
               Some (case ies of
                   None \<Rightarrow> (None, w)
                 | Some ies \<Rightarrow>
                     (Some \<lparr>sr_path = path, sr_cmp = (case cmp of None \<Rightarrow> default_compare | Some f \<Rightarrow> f), sr_footer = ft,
                            sr_index = ies, sr_bloom = bloom\<rparr>, w))
             }))"

definition index_below :: "sstable_reader \<Rightarrow> bytes \<Rightarrow> nat \<Rightarrow> (status_t + bool) option" where
  "index_below r key mid =
     (case sr_index r ! mid of None \<Rightarrow> None | Some e \<Rightarrow> Some (Inr (sr_cmp r (ie_last_key e) key < 0)))"

definition sstable_reader_get :: "sstable_reader \<Rightarrow> bytes \<Rightarrow> world \<Rightarrow> (lookup_result \<times> world) option" where
  "sstable_reader_get r key w = do {
     may \<leftarrow> bloom_may_contain (sr_bloom r) key;
     if \<not> may then Some ((STATUS_NOT_FOUND, None, False), w)
     else do {
       res \<leftarrow> lower_bound (index_below r key) 0 (length (sr_index r));
       case res of
         Inl st \<Rightarrow> Some ((st, None, False), w)
       | Inr left \<Rightarrow>
           if left \<ge> length (sr_index r) then Some ((STATUS_NOT_FOUND, None, False), w)
           else do {
             e \<leftarrow> sr_index r ! left;
             case malloc w of (ok, w) \<Rightarrow>
             if \<not> ok then Some ((STATUS_NO_MEMORY, None, False), w)
             else case sys_ok w of (ok, w) \<Rightarrow>
             if \<not> ok then Some ((STATUS_IO_ERROR, None, False), w)
             else case read_exact (sr_path r) (unat (ie_offset e)) (unat (ie_size e)) w of
               (None, w) \<Rightarrow> Some ((STATUS_IO_ERROR, None, False), w)
             | (Some block, w) \<Rightarrow> search_block (sr_cmp r) block key w
           }
     }
   }"

definition sstable_reader_min_key :: "sstable_reader \<Rightarrow> bytes" where
  "sstable_reader_min_key r = take (unat (ft_min_key_len (sr_footer r))) (ft_min_key (sr_footer r))"

definition sstable_reader_max_key :: "sstable_reader \<Rightarrow> bytes" where
  "sstable_reader_max_key r = take (unat (ft_max_key_len (sr_footer r))) (ft_max_key (sr_footer r))"

definition sstable_reader_num_entries :: "sstable_reader \<Rightarrow> u64" where
  "sstable_reader_num_entries r = ft_num_entries (sr_footer r)"

end
