(* ===== verification/SE_Table_Rep.thy ===== *)
theory SE_Table_Rep
  imports SE_Table
begin

text \<open>
  What the writer of a table has written: the blocks on disk and the entries of the block in its
  buffer. Adding an entry and finishing keep this correspondence.
\<close>

section \<open>Files in a quiet world\<close>

definition with_file :: "world \<Rightarrow> string \<Rightarrow> bytes \<Rightarrow> world" where
  "with_file w p c = w\<lparr>w_fs := (w_fs w)(p \<mapsto> c)\<rparr>"

lemma with_file_simps [simp]:
  "quiet (with_file w p c) = quiet w"
  "file_bytes p (with_file w p c) = c"
  "w_fs (with_file w p c) p = Some c"
  "with_file (with_file w p c) p c' = with_file w p c'"
  by (simp_all add: with_file_def quiet_def file_bytes_def)

lemma quiet_calls [simp]:
  assumes "quiet w"
  shows "malloc w = (True, w)" "malloc_if b w = (True, w)" "sys_ok w = (True, w)"
  using assms by (simp_all add: quiet_def malloc_if_def)

lemma file_write_all_Nil [simp]: "file_write_all p [] w = (True, w)"
  by (subst file_write_all.simps) simp

lemma file_write_all_quiet [simp]:
  assumes "quiet w"
  shows "file_write_all p buf (with_file w p c) = (True, with_file w p (c @ buf))"
proof (cases "buf = []")
  case False
  have "io_ok (with_file w p c)" using assms by (simp add: with_file_def quiet_def)
  then have "sys_write p (length c) buf (with_file w p c) = (Some (length buf), with_file w p (c @ buf))"
    by (simp add: with_file_def file_bytes_def)
  then show ?thesis using False by (subst file_write_all.simps) simp
qed simp

lemma read_exact_quiet:
  assumes "quiet w" and "off + n \<le> length (file_bytes p w)"
  shows "read_exact p off n w = (Some (take n (drop off (file_bytes p w))), w)"
  using assms by (simp add: read_exact_def quietD)

section \<open>The correspondence\<close>

type_synonym block = "item list \<times> nat list"

definition item_key :: "item \<Rightarrow> bytes" where
  "item_key x = fst (snd x)"

definition blocks_bytes :: "block list \<Rightarrow> bytes" where
  "blocks_bytes bs = concat (map (\<lambda>(xs, ri). block_bytes xs ri) bs)"

fun index_of :: "nat \<Rightarrow> block list \<Rightarrow> sstable_index_entry list" where
  "index_of off [] = []"
| "index_of off ((xs, ri) # bs) =
     \<lparr>ie_last_key = item_key (last xs), ie_offset = of_nat off, ie_size = of_nat (length (block_bytes xs ri))\<rparr> #
     index_of (off + length (block_bytes xs ri)) bs"

definition table_items :: "block list \<Rightarrow> item list" where
  "table_items bs = concat (map fst bs)"

lemma blocks_simps [simp]:
  "blocks_bytes [] = []" "blocks_bytes (bs @ [(xs, ri)]) = blocks_bytes bs @ block_bytes xs ri"
  "blocks_bytes ((xs, ri) # bs) = block_bytes xs ri @ blocks_bytes bs"
  "table_items [] = []" "table_items (bs @ [(xs, ri)]) = table_items bs @ xs" "table_items ((xs, ri) # bs) = xs @ table_items bs"
  by (simp_all add: blocks_bytes_def table_items_def)

lemma index_of_snoc:
  "index_of off (bs @ [(xs, ri)]) = index_of off bs @
     [\<lparr>ie_last_key = item_key (last xs), ie_offset = of_nat (off + length (blocks_bytes bs)),
       ie_size = of_nat (length (block_bytes xs ri))\<rparr>]"
  by (induction off bs rule: index_of.induct) (simp_all add: add.assoc)

definition keys_sorted :: "compare_fn \<Rightarrow> item list \<Rightarrow> bool" where
  "keys_sorted cmp xs \<longleftrightarrow> sorted_wrt (\<lambda>a b. cmp a b < 0) (map item_key xs)"

text \<open>The buffer holds the entries \<open>xs\<close> with restart points \<open>ri\<close>.\<close>

definition buffer_rep :: "sstable_writer \<Rightarrow> item list \<Rightarrow> nat list \<Rightarrow> bool" where
  "buffer_rep sw xs ri \<longleftrightarrow>
     sw_block sw = items_bytes xs \<and> sw_restarts sw = map (\<lambda>i. of_nat (restart_offset xs i)) ri \<and> items_wf None xs \<and>
     length (items_bytes xs) + 4 * length ri + 8 \<le> 8192 \<and>
     (if xs = [] then ri = [] \<and> sw_prev_key sw = None \<and> sw_entries_since_restart sw = SSTABLE_RESTART_INTERVAL
      else restarts_ok xs ri \<and> sw_prev_key sw = Some (item_key (last xs)))"

definition filter_rep :: "bloom_filter \<Rightarrow> bytes set \<Rightarrow> bool" where
  "filter_rep bf K \<longleftrightarrow> bloom_wf bf \<and> unat (bf_num_bits bf) \<le> 2 ^ 34 \<and> (\<forall>k \<in> K. \<forall>p \<in> probes bf k. has_bit (bf_bits bf) p)"

definition stats_rep :: "sstable_writer \<Rightarrow> item list \<Rightarrow> bool" where
  "stats_rep sw all \<longleftrightarrow> sw_num_entries sw = of_nat (length all) \<and>
     sw_min_key sw = (if all = [] then None else Some (item_key (hd all))) \<and>
     sw_max_key sw = (if all = [] then None else Some (item_key (last all)))"

definition table_rep :: "compare_fn \<Rightarrow> sstable_writer \<Rightarrow> block list \<Rightarrow> item list \<Rightarrow> nat list \<Rightarrow> bool" where
  "table_rep cmp sw bs xs ri \<longleftrightarrow> sw_cmp sw = cmp \<and> buffer_rep sw xs ri \<and>
     (\<forall>(ys, rj) \<in> set bs. block_ok cmp ys rj \<and> ys \<noteq> [] \<and> length (block_bytes ys rj) \<le> 8192) \<and>
     sw_index sw = map Some (index_of 0 bs) \<and> sw_file_offset sw = of_nat (length (blocks_bytes bs)) \<and>
     keys_sorted cmp (table_items bs @ xs)"

definition sw_rep :: "compare_fn \<Rightarrow> sstable_writer \<Rightarrow> block list \<Rightarrow> item list \<Rightarrow> nat list \<Rightarrow> bool" where
  "sw_rep cmp sw bs xs ri \<longleftrightarrow> table_rep cmp sw bs xs ri \<and>
     filter_rep (sw_bloom sw) (item_key ` set (table_items bs @ xs)) \<and> stats_rep sw (table_items bs @ xs)"

definition same_stats :: "sstable_writer \<Rightarrow> sstable_writer \<Rightarrow> bool" where
  "same_stats sw sw' \<longleftrightarrow> sw_path sw' = sw_path sw \<and> sw_bloom sw' = sw_bloom sw \<and> sw_num_entries sw' = sw_num_entries sw \<and>
     sw_min_key sw' = sw_min_key sw \<and> sw_max_key sw' = sw_max_key sw"

section \<open>Appending to the buffer\<close>

lemma items_wf_snoc:
  "items_wf prev (xs @ [x]) \<longleftrightarrow> items_wf prev xs \<and> items_wf (if xs = [] then prev else Some (item_key (last xs))) [x]"
  by (induction prev xs rule: items_wf.induct) (auto simp: item_key_def)

lemma restart_offset_snoc: "i \<le> length xs \<Longrightarrow> restart_offset (xs @ [x]) i = restart_offset xs i"
  by (simp add: restart_offset_def)

lemma restarts_ok_snoc:
  "restarts_ok xs ri \<Longrightarrow> restarts_ok (xs @ [x]) ri"
  "restarts_ok xs ri \<or> xs = [] \<and> ri = [] \<Longrightarrow> fst x = 0 \<Longrightarrow> restarts_ok (xs @ [x]) (ri @ [length xs])"
  by (auto simp: restarts_ok_def nth_append sorted_wrt_append)

lemma entry_header_bytes: "entry_bytes s k v d = entry_header s (length k - s) (length v) d @ drop s k @ v"
  by (simp add: entry_bytes_def entry_header_def)

lemma append_entry_spec:
  assumes q: "quiet w" and rep: "buffer_rep sw xs ri" and r: "xs = [] \<longrightarrow> b" "b \<longrightarrow> s = 0"
    and wf: "items_wf None (xs @ [(s, k, v, d)])"
    and fit: "length (items_bytes xs) + length (entry_bytes s k v d) + 4 * (length ri + 1) + 8 \<le> 8192"
    and val: "value = Some v \<or> value = None \<and> v = []" "n = length v"
  shows "\<exists>sw'. append_entry sw b s k value n d w = Some (STATUS_OK, sw', w) \<and>
    buffer_rep sw' (xs @ [(s, k, v, d)]) (if b then ri @ [length xs] else ri) \<and>
    sw_num_entries sw' = sw_num_entries sw + 1 \<and> sw_path sw' = sw_path sw \<and> sw_cmp sw' = sw_cmp sw \<and>
    sw_index sw' = sw_index sw \<and> sw_file_offset sw' = sw_file_offset sw \<and> sw_bloom sw' = sw_bloom sw \<and>
    sw_min_key sw' = sw_min_key sw \<and> sw_max_key sw' = sw_max_key sw"
proof -
  let ?x = "(s, k, v, d)"
  let ?ri = "if b then ri @ [length xs] else ri"
  have ro: "restarts_ok xs ri \<or> xs = [] \<and> ri = []" using rep by (auto simp: buffer_rep_def split: if_splits)
  have ok: "restarts_ok (xs @ [?x]) ?ri"
    using restarts_ok_snoc(1) [of xs ri ?x] restarts_ok_snoc(2) [OF ro, of ?x] ro r by auto
  have "\<forall>i \<in> set ri. i \<le> length xs" using ro by (auto simp: restarts_ok_def)
  then have offs: "map (\<lambda>i. of_nat (restart_offset (xs @ [?x]) i)) ?ri =
      (if b then sw_restarts sw @ [of_nat (length (sw_block sw)) :: u32] else sw_restarts sw)"
    using rep by (auto simp: buffer_rep_def restart_offset_snoc restart_offset_def)
  have blk: "sw_block sw = items_bytes xs" using rep by (simp add: buffer_rep_def)
  have len: "length (items_bytes xs) + length (entry_header s (length k - s) (length v) d) + (length k - s) + length v \<le> 8192"
    using fit by (simp add: entry_header_bytes)
  show ?thesis
    using q len val(1) ok offs wf fit val(2)
    by (auto simp: append_entry_def Let_def put_block_def SSTABLE_BLOCK_SIZE_def blk slice_def buffer_rep_def
        entry_header_bytes item_key_def split: if_splits)
qed

section \<open>Flushing and adding\<close>

lemma flush_block_spec:
  assumes q: "quiet w" and rep: "table_rep cmp sw bs xs ri" and ne: "xs \<noteq> []"
  shows "\<exists>sw'. flush_block sw (sw_prev_key sw) (with_file w (sw_path sw) (blocks_bytes bs)) =
      Some (STATUS_OK, sw', with_file w (sw_path sw) (blocks_bytes (bs @ [(xs, ri)]))) \<and>
    table_rep cmp sw' (bs @ [(xs, ri)]) [] [] \<and> same_stats sw sw'"
proof -
  have buf: "sw_block sw = items_bytes xs" "sw_restarts sw = map (\<lambda>i. of_nat (restart_offset xs i)) ri"
    "items_wf None xs" "length (items_bytes xs) + 4 * length ri + 8 \<le> 8192" "restarts_ok xs ri"
    "sw_prev_key sw = Some (item_key (last xs))"
    using rep ne by (auto simp: table_rep_def buffer_rep_def)
  have ib: "items_bytes xs \<noteq> []" using ne by (cases xs) (auto simp: entry_bytes_def)
  have len: "length (block_bytes xs ri) = length (items_bytes xs) + 4 * length ri + 8"
    by (simp add: block_bytes_def block_body_def length_u32_array)
  have "keys_sorted cmp xs" using rep by (simp add: table_rep_def keys_sorted_def sorted_wrt_append)
  then have ok: "block_ok cmp xs ri"
    using buf(3-5) len by (simp add: block_ok_def keys_sorted_def item_key_def [abs_def] comp_def)
  let ?sw = "sw\<lparr>sw_block := block_bytes xs ri\<rparr>"
  define sw1 where "sw1 = (if length (sw_index sw) \<ge> sw_index_capacity sw
    then ?sw\<lparr>sw_index_capacity := sw_index_capacity sw * 2\<rparr> else ?sw)"
  let ?sw' = "sw1\<lparr>sw_index := sw_index sw @ [Some \<lparr>ie_last_key = item_key (last xs), ie_offset = sw_file_offset sw,
      ie_size = of_nat (length (block_bytes xs ri))\<rparr>],
      sw_file_offset := sw_file_offset sw + of_nat (length (block_bytes xs ri)),
      sw_block := [], sw_restarts := [], sw_entries_since_restart := SSTABLE_RESTART_INTERVAL, sw_prev_key := None\<rparr>"
  have 1: "put_block sw (concat (map (\<lambda>off. le_bytes 4 off) (sw_restarts sw))) =
      Some (sw\<lparr>sw_block := items_bytes xs @ concat (map (\<lambda>i. le_bytes 4 (of_nat (restart_offset xs i) :: u32)) ri)\<rparr>)"
    using buf(4) by (simp add: put_block_def buf(1,2) SSTABLE_BLOCK_SIZE_def comp_def length_u32_array)
  have 2: "put_block (sw\<lparr>sw_block := items_bytes xs @ concat (map (\<lambda>i. le_bytes 4 (of_nat (restart_offset xs i) :: u32)) ri)\<rparr>)
      (le_bytes 4 (of_nat (length ri) :: u32)) = Some (sw\<lparr>sw_block := block_body xs ri\<rparr>)"
    using buf(4) by (simp add: put_block_def SSTABLE_BLOCK_SIZE_def length_u32_array block_body_def)
  have 3: "put_block (sw\<lparr>sw_block := block_body xs ri\<rparr>) (le_bytes 4 (crc32 (block_body xs ri))) = Some ?sw"
    using buf(4) by (simp add: put_block_def SSTABLE_BLOCK_SIZE_def length_u32_array block_body_def block_bytes_def)
  have "flush_block sw (sw_prev_key sw) (with_file w (sw_path sw) (blocks_bytes bs)) =
      Some (STATUS_OK, ?sw', with_file w (sw_path sw) (blocks_bytes bs @ block_bytes xs ri))"
    using q ib unfolding flush_block_def 1 by (simp add: buf(1,2,6) 2 3 Let_def sw1_def)
  moreover have "table_rep cmp ?sw' (bs @ [(xs, ri)]) [] []"
    using rep ok ne len buf(4) by (auto simp: table_rep_def buffer_rep_def index_of_snoc sw1_def)
  moreover have "same_stats sw ?sw'" by (simp add: sw1_def same_stats_def)
  ultimately show ?thesis by (auto simp del: sstable_writer.simps)
qed

lemma shared_prefix_len:
  "shared_prefix_len p k \<le> length p" "shared_prefix_len p k \<le> length k"
  "take (shared_prefix_len p k) p = take (shared_prefix_len p k) k"
  by (induction p k rule: shared_prefix_len.induct) auto

lemma length_entry_bytes: "s \<le> length k \<Longrightarrow> length (entry_bytes s k v d) \<le> 31 + (length k - s) + length v"
  using length_varint_max [of "of_nat s"] length_varint_max [of "of_nat (length k - s)"] length_varint_max [of "of_nat (length v)"]
  by (simp add: entry_bytes_def)

lemma filter_rep_add:
  assumes "filter_rep bf K"
  shows "\<exists>bf'. bloom_add bf k = Some bf' \<and> filter_rep bf' (insert k K)"
proof -
  obtain bf' where bf': "bloom_add bf k = Some bf'" "bloom_wf bf'" "bf_num_bits bf' = bf_num_bits bf"
    "bf_num_hashes bf' = bf_num_hashes bf" "\<forall>p. has_bit (bf_bits bf') p \<longleftrightarrow> has_bit (bf_bits bf) p \<or> p \<in> probes bf k"
    using bloom_add_ok [of bf k] assms by (auto simp: filter_rep_def)
  then have "probes bf' = probes bf" by (simp add: probes_def fun_eq_iff)
  then show ?thesis using bf' assms by (auto simp: filter_rep_def)
qed

text \<open>The part of \<^verbatim>\<open>sstable_writer_add\<close> behind the filter and the key range.\<close>

lemma append_table:
  assumes q: "quiet w" and rep: "table_rep cmp sw bs xs ri" and r: "xs = [] \<longrightarrow> b" "b \<longrightarrow> s = 0"
    and wf: "items_wf None (xs @ [(s, k, v, d)])"
    and fit: "length (items_bytes xs) + length (entry_bytes s k v d) + 4 * (length ri + 1) + 8 \<le> 8192"
    and val: "value = Some v \<or> value = None \<and> v = []" "n = length v"
    and above: "\<forall>x \<in> set (table_items bs @ xs). cmp (item_key x) k < 0"
  shows "\<exists>sw' ri'. append_entry sw b s k value n d w = Some (STATUS_OK, sw', w) \<and>
    table_rep cmp sw' bs (xs @ [(s, k, v, d)]) ri' \<and> same_stats (sw\<lparr>sw_num_entries := sw_num_entries sw + 1\<rparr>) sw'"
proof -
  have "buffer_rep sw xs ri" using rep by (simp add: table_rep_def)
  moreover have "keys_sorted cmp (table_items bs @ xs @ [(s, k, v, d)])"
    using rep above by (auto simp: table_rep_def keys_sorted_def sorted_wrt_append item_key_def)
  ultimately show ?thesis
    using append_entry_spec [OF q _ r wf fit val] rep by (fastforce simp: table_rep_def same_stats_def)
qed

lemma append_after_flush:
  assumes q: "quiet w" and rep: "table_rep cmp sw bs xs ri" and ne: "xs \<noteq> []" and small: "length k + length v \<le> 8149"
    and val: "value = Some v \<or> value = None \<and> v = []" "n = length v"
    and above: "\<forall>x \<in> set (table_items bs @ xs). cmp (item_key x) k < 0"
  shows "\<exists>sw1 sw' ri'. flush_block sw (sw_prev_key sw) (with_file w (sw_path sw) (blocks_bytes bs)) =
      Some (STATUS_OK, sw1, with_file w (sw_path sw) (blocks_bytes (bs @ [(xs, ri)]))) \<and>
    append_entry sw1 True 0 k value n d (with_file w (sw_path sw) (blocks_bytes (bs @ [(xs, ri)]))) =
      Some (STATUS_OK, sw', with_file w (sw_path sw) (blocks_bytes (bs @ [(xs, ri)]))) \<and>
    table_rep cmp sw' (bs @ [(xs, ri)]) [(0, k, v, d)] ri' \<and> same_stats (sw\<lparr>sw_num_entries := sw_num_entries sw + 1\<rparr>) sw'"
proof -
  let ?w = "with_file w (sw_path sw) (blocks_bytes (bs @ [(xs, ri)]))"
  obtain sw1 where f: "flush_block sw (sw_prev_key sw) (with_file w (sw_path sw) (blocks_bytes bs)) = Some (STATUS_OK, sw1, ?w)"
    "table_rep cmp sw1 (bs @ [(xs, ri)]) [] []" "same_stats sw sw1"
    using flush_block_spec [OF q rep ne] by auto
  have "quiet ?w" using q by simp
  moreover have "length (items_bytes []) + length (entry_bytes 0 k v d) + 4 * (length ([] :: nat list) + 1) + 8 \<le> 8192"
    using length_entry_bytes [of 0 k v d] small by simp
  ultimately obtain sw' ri' where "append_entry sw1 True 0 k value n d ?w = Some (STATUS_OK, sw', ?w)"
    "table_rep cmp sw' (bs @ [(xs, ri)]) [(0, k, v, d)] ri'" "same_stats (sw1\<lparr>sw_num_entries := sw_num_entries sw1 + 1\<rparr>) sw'"
    using append_table [OF _ f(2) _ _ _ _ val, of ?w True 0 k d] above by auto
  moreover from this(3) f(3) have "same_stats (sw\<lparr>sw_num_entries := sw_num_entries sw + 1\<rparr>) sw'"
    by (simp add: same_stats_def)
  ultimately show ?thesis using f(1) by blast
qed

text \<open>The writer after the key was added to the filter and to the range of keys.\<close>

definition note_key :: "sstable_writer \<Rightarrow> bytes \<Rightarrow> bloom_filter \<Rightarrow> sstable_writer" where
  "note_key sw k bf = (if sw_min_key sw = None then sw\<lparr>sw_bloom := bf, sw_min_key := Some k\<rparr> else sw\<lparr>sw_bloom := bf\<rparr>)
     \<lparr>sw_max_key := Some k\<rparr>"

lemma note_key_rep: "table_rep cmp sw bs xs ri \<Longrightarrow> table_rep cmp (note_key sw k bf) bs xs ri"
  by (auto simp: note_key_def table_rep_def buffer_rep_def)

lemma note_key_simps [simp]: "sw_path (note_key sw k bf) = sw_path sw" "sw_bloom (note_key sw k bf) = bf"
  by (simp_all add: note_key_def)

lemma noted_rep:
  assumes rep: "sw_rep cmp sw bs xs ri" and bf: "filter_rep bf (insert k (item_key ` set (table_items bs @ xs)))"
    and t: "table_rep cmp sw' bs' xs' ri'" "table_items bs' @ xs' = (table_items bs @ xs) @ [(s, k, v, d)]"
    and st: "same_stats ((note_key sw k bf)\<lparr>sw_num_entries := sw_num_entries (note_key sw k bf) + 1\<rparr>) sw'"
  shows "sw_rep cmp sw' bs' xs' ri'" "sw_path sw' = sw_path sw"
proof -
  have "stats_rep sw' ((table_items bs @ xs) @ [(s, k, v, d)])"
    using rep st by (auto simp: sw_rep_def stats_rep_def same_stats_def note_key_def item_key_def hd_append split: if_splits)
  then show "sw_rep cmp sw' bs' xs' ri'"
    unfolding sw_rep_def t(2) using t(1) st bf by (simp add: same_stats_def item_key_def)
  show "sw_path sw' = sw_path sw" using st by (simp add: same_stats_def)
qed

definition shared_len :: "sstable_writer \<Rightarrow> bytes \<Rightarrow> nat" where
  "shared_len sw k = (case sw_prev_key sw of
     Some p \<Rightarrow> if sw_entries_since_restart sw \<ge> SSTABLE_RESTART_INTERVAL then 0 else shared_prefix_len p k | None \<Rightarrow> 0)"

lemma shared_len_wf:
  assumes "buffer_rep sw xs ri"
  shows "items_wf None (xs @ [(shared_len sw k, k, v, d)])"
  using assms shared_prefix_len [of "item_key (last xs)" k]
  by (auto simp: items_wf_snoc buffer_rep_def shared_len_def split: if_splits)

definition add_noted ::
  "sstable_writer \<Rightarrow> bytes \<Rightarrow> bytes option \<Rightarrow> nat \<Rightarrow> bool \<Rightarrow> world \<Rightarrow> (status_t \<times> sstable_writer \<times> world) option"
where
  "add_noted sw k value n d w =
     (if length (sw_block sw) + (length (entry_header (shared_len sw k) (length k - shared_len sw k) n d) +
         (length k - shared_len sw k) + n) + ((length (sw_restarts sw) + 1) * 4 + 8) > SSTABLE_BLOCK_SIZE \<and> sw_block sw \<noteq> []
      then do {
        (st, sw, w) \<leftarrow> flush_block sw (sw_prev_key sw) w;
        if st \<noteq> STATUS_OK then Some (st, sw, w) else append_entry sw True 0 k value n d w }
      else append_entry sw (sw_entries_since_restart sw \<ge> SSTABLE_RESTART_INTERVAL) (shared_len sw k) k value n d w)"

lemma sstable_writer_add_quiet:
  assumes "quiet w" and "bloom_add (sw_bloom sw) k = Some bf"
  shows "sstable_writer_add sw k value n d w = add_noted (note_key sw k bf) k value n d w"
proof -
  define sw1 where "sw1 = note_key sw k bf"
  have "sstable_writer_add sw k value n d w = add_noted sw1 k value n d w"
  proof (cases "sw_min_key sw = None")
    case True
    then have "sw1 = sw\<lparr>sw_bloom := bf, sw_min_key := Some k, sw_max_key := Some k\<rparr>" by (simp add: sw1_def note_key_def)
    then show ?thesis using assms True
      by (simp add: sstable_writer_add_def add_noted_def Let_def shared_len_def)
  next
    case False
    then obtain y where y: "sw_min_key sw = Some y" by blast
    then have "sw1 = sw\<lparr>sw_bloom := bf, sw_max_key := Some k\<rparr>" by (simp add: sw1_def note_key_def)
    then show ?thesis using assms y
      by (simp add: sstable_writer_add_def add_noted_def Let_def shared_len_def)
  qed
  then show ?thesis by (simp add: sw1_def)
qed

lemma sstable_writer_add_spec:
  assumes q: "quiet w" and rep: "sw_rep cmp sw bs xs ri" and small: "length k + length v \<le> 8149"
    and val: "value = Some v \<or> value = None \<and> v = []"
    and above: "\<forall>x \<in> set (table_items bs @ xs). cmp (item_key x) k < 0"
  shows "\<exists>sw' bs' xs' ri' s. sstable_writer_add sw k value (length v) d (with_file w (sw_path sw) (blocks_bytes bs)) =
      Some (STATUS_OK, sw', with_file w (sw_path sw) (blocks_bytes bs')) \<and>
    sw_rep cmp sw' bs' xs' ri' \<and> sw_path sw' = sw_path sw \<and> table_items bs' @ xs' = (table_items bs @ xs) @ [(s, k, v, d)]"
proof -
  let ?w = "with_file w (sw_path sw) (blocks_bytes bs)"
  obtain bf where bf: "bloom_add (sw_bloom sw) k = Some bf" "filter_rep bf (insert k (item_key ` set (table_items bs @ xs)))"
    using filter_rep_add rep unfolding sw_rep_def by blast
  define sw1 where "sw1 = note_key sw k bf"
  have T: "table_rep cmp sw1 bs xs ri" using rep by (simp add: sw_rep_def sw1_def note_key_rep)
  then have B: "buffer_rep sw1 xs ri" by (simp add: table_rep_def)
  let ?b = "sw_entries_since_restart sw1 \<ge> SSTABLE_RESTART_INTERVAL" and ?s = "shared_len sw1 k"
  let ?full = "length (items_bytes xs) + length (entry_bytes ?s k v d) + ((length ri + 1) * 4 + 8) > SSTABLE_BLOCK_SIZE \<and> xs \<noteq> []"
  have ib: "items_bytes xs = [] \<longleftrightarrow> xs = []" by (cases xs) (auto simp: entry_bytes_def)
  have "sw_block sw1 = items_bytes xs" "length (sw_restarts sw1) = length ri" using B by (auto simp: buffer_rep_def)
  then have add: "sstable_writer_add sw k value (length v) d ?w =
      (if ?full then do {
         (st, sw, w) \<leftarrow> flush_block sw1 (sw_prev_key sw1) ?w;
         if st \<noteq> STATUS_OK then Some (st, sw, w) else append_entry sw True 0 k value (length v) d w }
       else append_entry sw1 ?b ?s k value (length v) d ?w)"
    using sstable_writer_add_quiet [of ?w sw k bf] q bf(1) ib
    by (simp add: sw1_def [symmetric] add_noted_def entry_header_bytes add.assoc)
  note fin = noted_rep [OF rep bf(2)]
  show ?thesis
  proof (cases ?full)
    case True
    then obtain sw2 sw' ri' where f: "flush_block sw1 (sw_prev_key sw1) ?w =
        Some (STATUS_OK, sw2, with_file w (sw_path sw) (blocks_bytes (bs @ [(xs, ri)])))"
      "append_entry sw2 True 0 k value (length v) d (with_file w (sw_path sw) (blocks_bytes (bs @ [(xs, ri)]))) =
        Some (STATUS_OK, sw', with_file w (sw_path sw) (blocks_bytes (bs @ [(xs, ri)])))"
      "table_rep cmp sw' (bs @ [(xs, ri)]) [(0, k, v, d)] ri'" "same_stats (sw1\<lparr>sw_num_entries := sw_num_entries sw1 + 1\<rparr>) sw'"
      using append_after_flush [OF q T _ small val refl above, of d] unfolding sw1_def note_key_simps by blast
    then have "sstable_writer_add sw k value (length v) d ?w =
        Some (STATUS_OK, sw', with_file w (sw_path sw) (blocks_bytes (bs @ [(xs, ri)])))"
      unfolding add using True by simp
    moreover have eq: "table_items (bs @ [(xs, ri)]) @ [(0, k, v, d)] = (table_items bs @ xs) @ [(0, k, v, d)]" by simp
    ultimately show ?thesis using fin [OF f(3) eq f(4) [unfolded sw1_def]] eq by blast
  next
    case False
    have "length (items_bytes xs) + length (entry_bytes ?s k v d) + 4 * (length ri + 1) + 8 \<le> 8192"
      using False B length_entry_bytes [of ?s k v d] small shared_len_wf [OF B, of k v d]
      by (cases "xs = []") (auto simp: SSTABLE_BLOCK_SIZE_def buffer_rep_def)
    then obtain sw' ri' where "append_entry sw1 ?b ?s k value (length v) d ?w = Some (STATUS_OK, sw', ?w)"
      "table_rep cmp sw' bs (xs @ [(?s, k, v, d)]) ri'" "same_stats (sw1\<lparr>sw_num_entries := sw_num_entries sw1 + 1\<rparr>) sw'"
      using append_table [OF _ T _ _ shared_len_wf [OF B] _ val refl above, of ?w ?b d] q B
      by (auto simp: buffer_rep_def shared_len_def split: if_splits option.splits)
    note a = this
    have "sstable_writer_add sw k value (length v) d ?w = Some (STATUS_OK, sw', ?w)"
      unfolding add if_not_P [OF False] by (rule a(1))
    moreover have eq: "table_items bs @ xs @ [(?s, k, v, d)] = (table_items bs @ xs) @ [(?s, k, v, d)]" by simp
    ultimately show ?thesis using fin [OF a(2) eq a(3) [unfolded sw1_def]] eq by blast
  qed
qed

section \<open>Adding all entries\<close>

fun writer_add_all :: "sstable_writer \<Rightarrow> (bytes \<times> bytes \<times> bool) list \<Rightarrow> world \<Rightarrow> (status_t \<times> sstable_writer \<times> world) option" where
  "writer_add_all sw [] w = Some (STATUS_OK, sw, w)"
| "writer_add_all sw ((k, v, d) # es) w = do {
     (st, sw, w) \<leftarrow> sstable_writer_add sw k (Some v) (length v) d w;
     if st \<noteq> STATUS_OK then Some (st, sw, w) else writer_add_all sw es w
   }"

definition item_entry :: "item \<Rightarrow> bytes \<times> bytes \<times> bool" where
  "item_entry x = snd x"

definition entries_ok :: "compare_fn \<Rightarrow> (bytes \<times> bytes \<times> bool) list \<Rightarrow> bool" where
  "entries_ok cmp es \<longleftrightarrow> sorted_wrt (\<lambda>a b. cmp (fst a) (fst b) < 0) es \<and>
     (\<forall>(k, v, d) \<in> set es. length k + length v \<le> 8149)"

lemma writer_add_all_spec:
  assumes q: "quiet w" and rep: "sw_rep cmp sw bs xs ri" and es: "entries_ok cmp es"
    and above: "\<forall>x \<in> set (table_items bs @ xs). \<forall>e \<in> set es. cmp (item_key x) (fst e) < 0"
  shows "\<exists>sw' bs' xs' ri'. writer_add_all sw es (with_file w (sw_path sw) (blocks_bytes bs)) =
      Some (STATUS_OK, sw', with_file w (sw_path sw) (blocks_bytes bs')) \<and>
    sw_rep cmp sw' bs' xs' ri' \<and> sw_path sw' = sw_path sw \<and>
    map item_entry (table_items bs' @ xs') = map item_entry (table_items bs @ xs) @ es"
  using rep es above
proof (induction es arbitrary: sw bs xs ri)
  case Nil
  then show ?case by auto
next
  case (Cons e es)
  obtain k v d where e: "e = (k, v, d)" by (cases e)
  have 1: "length k + length v \<le> 8149" "\<forall>x \<in> set (table_items bs @ xs). cmp (item_key x) k < 0" "entries_ok cmp es"
    "\<forall>e \<in> set es. cmp k (fst e) < 0"
    using Cons.prems(2,3) by (auto simp: entries_ok_def e)
  obtain sw1 bs1 xs1 ri1 s where a: "sstable_writer_add sw k (Some v) (length v) d (with_file w (sw_path sw) (blocks_bytes bs)) =
      Some (STATUS_OK, sw1, with_file w (sw_path sw) (blocks_bytes bs1))"
    "sw_rep cmp sw1 bs1 xs1 ri1" "sw_path sw1 = sw_path sw" "table_items bs1 @ xs1 = (table_items bs @ xs) @ [(s, k, v, d)]"
    using sstable_writer_add_spec [OF q Cons.prems(1) 1(1) _ 1(2), of "Some v" d] by blast
  have "\<forall>x \<in> set (table_items bs1 @ xs1). \<forall>e \<in> set es. cmp (item_key x) (fst e) < 0"
    unfolding a(4) using Cons.prems(3) 1(4) by (auto simp: item_key_def)
  then obtain sw' bs' xs' ri' where r: "writer_add_all sw1 es (with_file w (sw_path sw) (blocks_bytes bs1)) =
      Some (STATUS_OK, sw', with_file w (sw_path sw) (blocks_bytes bs'))"
    "sw_rep cmp sw' bs' xs' ri'" "sw_path sw' = sw_path sw"
    "map item_entry (table_items bs' @ xs') = map item_entry (table_items bs1 @ xs1) @ es"
    using Cons.IH [OF a(2) 1(3)] a(3) by auto
  have "map item_entry (table_items bs1 @ xs1) = map item_entry (table_items bs @ xs) @ [(k, v, d)]"
    unfolding a(4) by (simp add: item_entry_def)
  then show ?case using a(1) r by (auto simp: e)
qed

section \<open>Index and footer\<close>

definition ie_bytes :: "sstable_index_entry \<Rightarrow> bytes" where
  "ie_bytes e = encode_varint (of_nat (length (ie_last_key e))) @ ie_last_key e @ le_bytes 8 (ie_offset e) @ le_bytes 4 (ie_size e)"

definition index_bytes :: "sstable_index_entry list \<Rightarrow> bytes" where
  "index_bytes es = concat (map ie_bytes es)"

lemma write_index_spec:
  assumes "quiet w"
  shows "write_index p (map Some es) off (with_file w p c) =
    Some (STATUS_OK, off + of_nat (length (index_bytes es)), with_file w p (c @ index_bytes es))"
  using assms by (induction es arbitrary: off c) (simp_all add: index_bytes_def ie_bytes_def Let_def add.assoc)

lemma parse_index_spec:
  assumes "quiet w" and "buf = pre @ index_bytes es" and "length buf < SIZE_MOD"
  shows "parse_index buf (length pre) cap acc w = Some (Inr (acc @ map Some es), w)"
  using assms(2,3)
proof (induction es arbitrary: pre cap acc)
  case Nil
  then show ?case by (subst parse_index.simps) (simp add: index_bytes_def)
next
  case (Cons e es)
  let ?k = "ie_last_key e"
  let ?v = "encode_varint (of_nat (length ?k))"
  have buf: "buf = pre @ ?v @ ?k @ le_bytes 8 (ie_offset e) @ le_bytes 4 (ie_size e) @ index_bytes es"
    using Cons.prems(1) by (simp add: index_bytes_def ie_bytes_def)
  have len: "length pre + length ?v + length ?k + 12 \<le> length buf" by (simp add: buf)
  have k: "unat (of_nat (length ?k) :: u64) = length ?k" using len Cons.prems(2) by (simp add: SIZE_MOD_def unat_of_nat)
  have d: "decode_varint buf (length pre) (length buf - length pre) = Some (length ?v, of_nat (length ?k))"
    by (rule decode_at [where pre = pre]) (auto simp: buf)
  have s: "slice buf (length pre + length ?v) (length ?k) = Some ?k"
    "slice buf (length pre + length ?v + length ?k) 8 = Some (le_bytes 8 (ie_offset e))"
    "slice buf (length pre + length ?v + length ?k + 8) 4 = Some (le_bytes 4 (ie_size e))"
    by (simp_all add: buf slice_def)
  have fit: "size_add (length pre + length ?v) (length ?k + 12) \<le> length buf"
    using len Cons.prems(2) by (simp add: size_add_small)
  have IH: "parse_index buf (length (pre @ ie_bytes e)) cap' (acc @ [Some e]) w = Some (Inr ((acc @ [Some e]) @ map Some es), w)" for cap'
    by (rule Cons.IH) (use Cons.prems in \<open>auto simp: index_bytes_def\<close>)
  have "parse_index buf (length pre) cap acc w =
      parse_index buf (length (pre @ ie_bytes e)) (if length acc \<ge> cap then cap * 2 else cap) (acc @ [Some e]) w"
  proof -
    have p: "length (pre @ ie_bytes e) = length pre + length ?v + length ?k + 12" by (simp add: ie_bytes_def)
    have r: "\<lparr>ie_last_key = ie_last_key e, ie_offset = ie_offset e, ie_size = ie_size e\<rparr> = e" by simp
    show ?thesis unfolding p using assms(1) len d fit by (subst parse_index.simps) (simp add: k s r)
  qed
  then show ?case using IH by simp
qed

lemma length_footer_bytes [simp]:
  "length (ft_min_key ft) = 256 \<Longrightarrow> length (ft_max_key ft) = 256 \<Longrightarrow> length (footer_body ft) = 568 \<and> length (footer_bytes ft) = 576"
  by (simp add: footer_body_def footer_bytes_def)

lemma parse_footer_bytes:
  assumes "length (ft_min_key ft) = 256" and "length (ft_max_key ft) = 256"
  shows "parse_footer (footer_bytes ft) = ft"
  using assms by (simp add: parse_footer_def footer_bytes_def footer_body_def SSTABLE_MAX_KEY_SIZE_def)

lemma footer_crc:
  assumes "length (ft_min_key ft) = 256" and "length (ft_max_key ft) = 256"
  shows "take FOOTER_CRC_OFFSET (footer_bytes ft) = footer_body ft"
    "le_word (take 4 (drop FOOTER_CRC_OFFSET (footer_bytes ft))) = crc32 (footer_body ft)"
  using length_footer_bytes [OF assms] by (simp_all add: FOOTER_CRC_OFFSET_def footer_bytes_def)

lemma length_footer_key [simp]: "length (snd (footer_key k)) = 256"
  by (auto simp: footer_key_def SSTABLE_MAX_KEY_SIZE_def split: option.splits)

end
