(* ===== verification/SE_Table_Spec.thy ===== *)
theory SE_Table_Spec
  imports SE_Table_Rep
begin

text \<open>
  A table that was finished can be opened, and the reader returns for every key what was added.
\<close>

section \<open>What a lookup should return\<close>

definition table_lookup :: "(bytes \<times> bytes \<times> bool) list \<Rightarrow> bytes \<Rightarrow> lookup_result" where
  "table_lookup es key =
     (case map_of es key of
        None \<Rightarrow> (STATUS_NOT_FOUND, None, False)
      | Some (v, d) \<Rightarrow> (STATUS_OK, if d \<or> v = [] then None else Some v, d))"

definition blocks_ok :: "compare_fn \<Rightarrow> block list \<Rightarrow> bool" where
  "blocks_ok cmp bs \<longleftrightarrow> (\<forall>(ys, rj) \<in> set bs. block_ok cmp ys rj \<and> ys \<noteq> [] \<and> length (block_bytes ys rj) \<le> 8192) \<and>
     keys_sorted cmp (table_items bs)"

definition reader_rep :: "compare_fn \<Rightarrow> sstable_reader \<Rightarrow> world \<Rightarrow> (bytes \<times> bytes \<times> bool) list \<Rightarrow> bool" where
  "reader_rep cmp r w es \<longleftrightarrow> sr_cmp r = cmp \<and> (\<exists>bs rest. file_bytes (sr_path r) w = blocks_bytes bs @ rest \<and>
     blocks_ok cmp bs \<and> length (blocks_bytes bs) < 2 ^ 64 \<and> sr_index r = map Some (index_of 0 bs) \<and>
     filter_rep (sr_bloom r) (item_key ` set (table_items bs)) \<and> map item_entry (table_items bs) = es)"

lemma item_simps [simp]: "item_entry (s, k, v, d) = (k, v, d)" "item_key (s, k, v, d) = k"
  by (simp_all add: item_entry_def item_key_def)

lemma fst_item_entry [simp]: "fst (item_entry x) = item_key x"
  by (simp add: item_entry_def item_key_def)

lemma block_okD:
  assumes "blocks_ok cmp bs" and "i < length bs"
  shows "fst (bs ! i) \<noteq> []" "block_ok cmp (fst (bs ! i)) (snd (bs ! i))" "length (block_bytes (fst (bs ! i)) (snd (bs ! i))) \<le> 8192"
  using assms nth_mem [OF assms(2)] by (cases "bs ! i"; auto simp: blocks_ok_def)+

context key_order
begin

lemma item_lookup_stop:
  "\<exists>x \<in> set xs. \<not> cmp (item_key x) key < 0 \<Longrightarrow> item_lookup cmp key (xs @ ys) = item_lookup cmp key xs"
proof (induction xs)
  case (Cons x xs)
  then show ?case by (cases x) (auto simp: item_key_def cmp_eq)
qed simp

lemma item_lookup_all_below: "\<forall>x \<in> set xs. cmp (item_key x) key < 0 \<Longrightarrow> item_lookup cmp key xs = (STATUS_NOT_FOUND, None, False)"
  using item_lookup_skip [of xs key "[]"] by (simp add: item_key_def)

lemma item_lookup_map:
  assumes "keys_sorted cmp xs"
  shows "item_lookup cmp key xs = table_lookup (map item_entry xs) key"
  using assms
proof (induction xs)
  case Nil
  then show ?case by (simp add: table_lookup_def)
next
  case (Cons x xs)
  obtain s k v d where x: "x = (s, k, v, d)" by (cases x)
  have above: "cmp k (item_key y) < 0" if "y \<in> set xs" for y using Cons.prems that by (auto simp: keys_sorted_def x item_key_def)
  have "map_of (map item_entry xs) key = None" if "cmp k key > 0"
  proof -
    have "cmp key (item_key y) < 0" if "y \<in> set xs" for y
      using above [OF that] \<open>cmp k key > 0\<close> cmp_flip [of key k] cmp_trans by blast
    then have "key \<noteq> item_key y" if "y \<in> set xs" for y using that by fastforce
    then show ?thesis by (auto simp: map_of_eq_None_iff image_image)
  qed
  then show ?case using Cons by (auto simp: x cmp_eq table_lookup_def keys_sorted_def)
qed

text \<open>The search in the index finds the only block that can hold the key.\<close>

lemma index_of_nth:
  "i < length bs \<Longrightarrow> bs ! i = (xs, ri) \<Longrightarrow> index_of off bs ! i =
     \<lparr>ie_last_key = item_key (last xs), ie_offset = of_nat (off + length (blocks_bytes (take i bs))),
      ie_size = of_nat (length (block_bytes xs ri))\<rparr>"
proof (induction off bs arbitrary: i rule: index_of.induct)
  case (2 off ys rj bs)
  then show ?case by (cases i) (auto simp: add.assoc)
qed simp

lemma length_index_of [simp]: "length (index_of off bs) = length bs"
  by (induction off bs rule: index_of.induct) simp_all

lemma table_items_split: "i < length bs \<Longrightarrow> bs ! i = (xs, ri) \<Longrightarrow>
    table_items bs = table_items (take i bs) @ xs @ table_items (drop (Suc i) bs) \<and>
    blocks_bytes bs = blocks_bytes (take i bs) @ block_bytes xs ri @ blocks_bytes (drop (Suc i) bs)"
proof (induction bs arbitrary: i)
  case (Cons b bs)
  then show ?case by (cases b; cases i) auto
qed simp

lemma last_key_order:
  assumes "blocks_ok cmp bs" and "i < j" and "j < length bs" and "x \<in> set (fst (bs ! i))"
  shows "cmp (item_key x) (item_key (last (fst (bs ! j)))) < 0"
proof -
  obtain ys rj where j: "bs ! j = (ys, rj)" by (cases "bs ! j")
  have ys: "ys \<noteq> []" using block_okD(1) [OF assms(1,3)] j by simp
  have "bs ! i \<in> set (take j bs)" using assms(2,3) by (metis in_set_conv_nth length_take min.absorb4 nth_take)
  then have "x \<in> set (table_items (take j bs))" using assms(4) by (auto simp: table_items_def)
  then show ?thesis
    using assms(1) table_items_split [OF assms(3) j] ys by (auto simp: blocks_ok_def keys_sorted_def sorted_wrt_append j)
qed

lemma block_last: "blocks_ok cmp bs \<Longrightarrow> i < length bs \<Longrightarrow> x \<in> set (fst (bs ! i)) \<Longrightarrow>
    x = last (fst (bs ! i)) \<or> cmp (item_key x) (item_key (last (fst (bs ! i)))) < 0"
proof -
  assume a: "blocks_ok cmp bs" "i < length bs" "x \<in> set (fst (bs ! i))"
  obtain ys rj where i: "bs ! i = (ys, rj)" by (cases "bs ! i")
  have ks: "keys_sorted cmp ys"
    using a(1) table_items_split [OF a(2) i] by (auto simp: blocks_ok_def keys_sorted_def sorted_wrt_append)
  obtain m where m: "m < length ys" "x = ys ! m" using a(3) i by (auto simp: in_set_conv_nth)
  then have "last ys = ys ! (length ys - 1)" by (cases ys) (auto simp: last_conv_nth)
  then show ?thesis
    using ks m unfolding keys_sorted_def sorted_wrt_iff_nth_less
    by (cases "m = length ys - 1") (auto simp: i)
qed

lemma table_items_mem: "x \<in> set (table_items bs) \<Longrightarrow> \<exists>i < length bs. x \<in> set (fst (bs ! i))"
proof -
  assume "x \<in> set (table_items bs)"
  then obtain b where "b \<in> set bs" "x \<in> set (fst b)" by (auto simp: table_items_def)
  then show ?thesis by (metis in_set_conv_nth)
qed

text \<open>The binary search over the index stops at the first block that ends at or after the key.\<close>

lemma index_search:
  assumes ok: "blocks_ok cmp bs" and idx: "sr_index r = map Some (index_of 0 bs)" and c: "sr_cmp r = cmp"
  shows "\<exists>l \<le> length bs. lower_bound (index_below r key) 0 (length bs) = Some (Inr l) \<and>
    (\<forall>x \<in> set (table_items (take l bs)). cmp (item_key x) key < 0) \<and>
    (l < length bs \<longrightarrow> \<not> cmp (item_key (last (fst (bs ! l)))) key < 0)"
proof -
  let ?last = "\<lambda>i. item_key (last (fst (bs ! i)))"
  have below: "index_below r key i = Some (Inr (cmp (?last i) key < 0))" if "i < length bs" for i
    using that index_of_nth [of i bs "fst (bs ! i)" "snd (bs ! i)" 0] idx c by (simp add: index_below_def)
  have "\<exists>l. lower_bound (index_below r key) 0 (length bs) = Some (Inr l) \<and> 0 \<le> l \<and> l \<le> length bs \<and>
      (\<forall>i. 0 \<le> i \<and> i < l \<longrightarrow> cmp (?last i) key < 0) \<and> (\<forall>i. l \<le> i \<and> i < length bs \<longrightarrow> \<not> cmp (?last i) key < 0)"
  proof (rule lower_bound_correct)
    fix i j assume ij: "0 \<le> i" "i \<le> j" "j < length bs" and P: "cmp (?last j) key < 0"
    have "fst (bs ! i) \<noteq> []" using block_okD(1) [OF ok, of i] ij by simp
    then show "cmp (?last i) key < 0"
      using last_key_order [OF ok _ ij(3), of i "last (fst (bs ! i))"] P cmp_trans ij(2) by (cases "i = j") auto
  qed (use below in auto)
  then obtain l where l: "lower_bound (index_below r key) 0 (length bs) = Some (Inr l)" "l \<le> length bs"
    "\<And>i. i < l \<Longrightarrow> cmp (?last i) key < 0" "\<And>i. l \<le> i \<Longrightarrow> i < length bs \<Longrightarrow> \<not> cmp (?last i) key < 0" by auto
  have "cmp (item_key x) key < 0" if x: "x \<in> set (table_items (take l bs))" for x
  proof -
    obtain i where "i < l" "x \<in> set (fst (bs ! i))" using table_items_mem [OF x] l(2) by auto
    then show ?thesis using block_last [OF ok, of i x] l(2) l(3) [of i] cmp_trans by fastforce
  qed
  then show ?thesis using l by blast
qed

lemma reader_get_spec:
  assumes q: "quiet w" and rep: "reader_rep cmp r w es"
  shows "sstable_reader_get r key w = Some (table_lookup es key, w)"
proof -
  obtain bs rest where R: "sr_cmp r = cmp" "file_bytes (sr_path r) w = blocks_bytes bs @ rest" "blocks_ok cmp bs"
    "length (blocks_bytes bs) < 2 ^ 64" "sr_index r = map Some (index_of 0 bs)"
    "filter_rep (sr_bloom r) (item_key ` set (table_items bs))" "map item_entry (table_items bs) = es"
    using rep by (auto simp: reader_rep_def)
  have lk: "item_lookup cmp key (table_items bs) = table_lookup es key"
    using R(3,7) item_lookup_map by (auto simp: blocks_ok_def)
  obtain l where l: "l \<le> length bs" "lower_bound (index_below r key) 0 (length bs) = Some (Inr l)"
    "\<forall>x \<in> set (table_items (take l bs)). cmp (item_key x) key < 0"
    "l < length bs \<longrightarrow> \<not> cmp (item_key (last (fst (bs ! l)))) key < 0"
    using index_search [OF R(3,5,1)] by blast
  consider "\<not> (\<forall>p \<in> probes (sr_bloom r) key. has_bit (bf_bits (sr_bloom r)) p)"
    | "bloom_may_contain (sr_bloom r) key = Some True" "l = length bs" | "bloom_may_contain (sr_bloom r) key = Some True" "l < length bs"
    using R(6) l(1) by (fastforce simp: filter_rep_def bloom_may_contain_iff)
  then show ?thesis
  proof cases
    case 1
    then have "key \<notin> item_key ` set (table_items bs)" using R(6) by (auto simp: filter_rep_def)
    then have "map_of es key = None" by (auto simp: map_of_eq_None_iff R(7) [symmetric] image_image)
    then show ?thesis using 1 R(6)
      by (simp add: sstable_reader_get_def table_lookup_def filter_rep_def bloom_may_contain_iff)
  next
    case 2
    then have "item_lookup cmp key (table_items bs) = (STATUS_NOT_FOUND, None, False)" using item_lookup_all_below l(3) by simp
    then show ?thesis using 2 l(2) R(5) lk by (simp add: sstable_reader_get_def)
  next
    case 3
    obtain xs ri where b: "bs ! l = (xs, ri)" by (cases "bs ! l")
    note B = block_okD [OF R(3) 3(2), unfolded b fst_conv snd_conv] and sp = table_items_split [OF 3(2) b]
    have "\<exists>x \<in> set xs. \<not> cmp (item_key x) key < 0" using l(4) 3(2) b B(1) last_in_set by fastforce
    then have look: "item_lookup cmp key (table_items bs) = item_lookup cmp key xs"
      using item_lookup_skip l(3) item_lookup_stop conjunct1 [OF sp] by (simp add: item_key_def)
    have e: "sr_index r ! l = Some \<lparr>ie_last_key = item_key (last xs), ie_offset = of_nat (length (blocks_bytes (take l bs))),
        ie_size = of_nat (length (block_bytes xs ri))\<rparr>" "length (sr_index r) = length bs"
      using index_of_nth [OF 3(2) b, of 0] 3(2) R(5) by simp_all
    have off: "unat (of_nat (length (blocks_bytes (take l bs))) :: u64) = length (blocks_bytes (take l bs))"
      "unat (of_nat (length (block_bytes xs ri)) :: u32) = length (block_bytes xs ri)"
      using R(4) conjunct2 [OF sp] B(3) by (simp_all add: unat_of_nat)
    have "read_exact (sr_path r) (length (blocks_bytes (take l bs))) (length (block_bytes xs ri)) w = (Some (block_bytes xs ri), w)"
      using read_exact_quiet [OF q, of "length (blocks_bytes (take l bs))" "length (block_bytes xs ri)" "sr_path r"] R(2) conjunct2 [OF sp]
      by simp
    then show ?thesis using 3 l(2) e off q R(1) lk look search_block_spec [OF B(2) quietD(1) [OF q], of key]
      by (simp add: sstable_reader_get_def)
  qed
qed

end

section \<open>The finished file\<close>

definition table_footer :: "block list \<Rightarrow> sstable_writer \<Rightarrow> sstable_footer" where
  "table_footer bs sw =
     (let n = length (blocks_bytes bs); i = length (index_bytes (index_of 0 bs))
      in \<lparr>ft_index_offset = of_nat n, ft_index_size = ucast (of_nat i :: u64), ft_bloom_offset = of_nat (n + i),
          ft_bloom_size = ucast (bloom_serialized_size (sw_bloom sw)), ft_num_entries = sw_num_entries sw,
          ft_min_key_len = fst (footer_key (sw_min_key sw)), ft_min_key = snd (footer_key (sw_min_key sw)),
          ft_max_key_len = fst (footer_key (sw_max_key sw)), ft_max_key = snd (footer_key (sw_max_key sw)),
          ft_magic = SSTABLE_MAGIC\<rparr>)"

definition table_file :: "block list \<Rightarrow> bytes \<Rightarrow> sstable_footer \<Rightarrow> bytes" where
  "table_file bs bloom ft = blocks_bytes bs @ index_bytes (index_of 0 bs) @ bloom @ footer_bytes ft"

lemma write_tail_spec:
  assumes q: "quiet w" and wf: "bloom_wf (sw_bloom sw)"
    and off: "sw_file_offset sw = of_nat (length (blocks_bytes bs) + length (index_bytes (index_of 0 bs)))"
    and c: "c = blocks_bytes bs @ index_bytes (index_of 0 bs)"
  shows "\<exists>out. write_tail sw (of_nat (length (blocks_bytes bs))) (with_file w (sw_path sw) c) =
      Some (STATUS_OK, with_file w (sw_path sw) (table_file bs out (table_footer bs sw))) \<and>
    length out = unat (bloom_serialized_size (sw_bloom sw)) \<and>
    (\<forall>w. alloc_ok w \<longrightarrow> bloom_deserialize out w = (Some ((sw_bloom sw)\<lparr>bf_num_keys := 0\<rparr>), w))"
proof -
  obtain out where out: "bloom_serialize (sw_bloom sw) (replicate (unat (bloom_serialized_size (sw_bloom sw))) 0) = Some (STATUS_OK, out)"
    "length out = unat (bloom_serialized_size (sw_bloom sw))"
    using bloom_codec [OF wf quietD(1) [OF q]] by auto
  have d: "bloom_deserialize out w = (Some ((sw_bloom sw)\<lparr>bf_num_keys := 0\<rparr>), w)" if "alloc_ok w" for w
    using bloom_codec [OF wf that] out(1) by auto
  have "write_tail sw (of_nat (length (blocks_bytes bs))) (with_file w (sw_path sw) c) =
      Some (STATUS_OK, with_file w (sw_path sw) (table_file bs out (table_footer bs sw)))"
    using q out(1) off by (simp add: write_tail_def Let_def table_file_def table_footer_def c split: prod.split)
  then show ?thesis using out(2) d by blast
qed

lemma finish_spec:
  assumes q: "quiet w" and rep: "sw_rep cmp sw bs xs ri"
  shows "\<exists>bs' out sw1. sstable_writer_finish sw (with_file w (sw_path sw) (blocks_bytes bs)) =
      Some (STATUS_OK, with_file w (sw_path sw) (table_file bs' out (table_footer bs' sw1))) \<and>
    blocks_ok cmp bs' \<and> table_items bs' = table_items bs @ xs \<and> same_stats sw sw1 \<and>
    length out = unat (bloom_serialized_size (sw_bloom sw)) \<and>
    (\<forall>w. alloc_ok w \<longrightarrow> bloom_deserialize out w = (Some ((sw_bloom sw)\<lparr>bf_num_keys := 0\<rparr>), w))"
proof -
  have T: "table_rep cmp sw bs xs ri" and F: "bloom_wf (sw_bloom sw)" using rep by (auto simp: sw_rep_def filter_rep_def)
  have buf: "sw_block sw = items_bytes xs" "xs \<noteq> [] \<longrightarrow> sw_prev_key sw \<noteq> None"
    using T by (auto simp: table_rep_def buffer_rep_def)
  have ib: "items_bytes xs = [] \<longleftrightarrow> xs = []" by (cases xs) (auto simp: entry_bytes_def)
  define bs' where "bs' = (if xs = [] then bs else bs @ [(xs, ri)])"
  obtain sw1 where f: "(if sw_block sw \<noteq> [] \<and> sw_prev_key sw \<noteq> None
      then flush_block sw (sw_prev_key sw) (with_file w (sw_path sw) (blocks_bytes bs))
      else Some (STATUS_OK, sw, with_file w (sw_path sw) (blocks_bytes bs))) =
      Some (STATUS_OK, sw1, with_file w (sw_path sw) (blocks_bytes bs'))"
    "table_rep cmp sw1 bs' [] []" "same_stats sw sw1"
  proof (cases "xs = []")
    case True
    moreover from True T have "ri = []" by (simp add: table_rep_def buffer_rep_def)
    ultimately show thesis using that [of sw] T by (simp add: buf ib bs'_def same_stats_def)
  next
    case False
    then show thesis using that flush_block_spec [OF q T False] buf ib by (auto simp: bs'_def)
  qed
  have B: "blocks_ok cmp bs'" "sw_index sw1 = map Some (index_of 0 bs')" "sw_file_offset sw1 = of_nat (length (blocks_bytes bs'))"
    using f(2) by (auto simp: table_rep_def blocks_ok_def)
  have S: "sw_path sw1 = sw_path sw" "sw_bloom sw1 = sw_bloom sw" using f(3) by (simp_all add: same_stats_def)
  let ?ib = "index_bytes (index_of 0 bs')"
  let ?sw2 = "sw1\<lparr>sw_file_offset := sw_file_offset sw1 + of_nat (length ?ib)\<rparr>"
  have wi: "write_index (sw_path sw1) (sw_index sw1) (sw_file_offset sw1) (with_file w (sw_path sw) (blocks_bytes bs')) =
      Some (STATUS_OK, sw_file_offset sw1 + of_nat (length ?ib), with_file w (sw_path sw) (blocks_bytes bs' @ ?ib))"
    using write_index_spec [OF q] B(2) S(1) by simp
  obtain out where o: "write_tail ?sw2 (of_nat (length (blocks_bytes bs'))) (with_file w (sw_path sw) (blocks_bytes bs' @ ?ib)) =
      Some (STATUS_OK, with_file w (sw_path sw) (table_file bs' out (table_footer bs' ?sw2)))"
    "length out = unat (bloom_serialized_size (sw_bloom sw))"
    "\<forall>w. alloc_ok w \<longrightarrow> bloom_deserialize out w = (Some ((sw_bloom sw)\<lparr>bf_num_keys := 0\<rparr>), w)"
    using write_tail_spec [OF q, of ?sw2 bs' "blocks_bytes bs' @ ?ib"] F S B(3) by auto
  have "sstable_writer_finish sw (with_file w (sw_path sw) (blocks_bytes bs)) =
      Some (STATUS_OK, with_file w (sw_path sw) (table_file bs' out (table_footer bs' ?sw2)))"
    unfolding sstable_writer_finish_def f(1) using wi o(1) B(3) by simp
  moreover have "same_stats sw ?sw2" using f(3) by (simp add: same_stats_def)
  moreover have "table_items bs' = table_items bs @ xs" by (simp add: bs'_def)
  ultimately show ?thesis using B(1) o(2,3) by blast
qed

section \<open>Opening the finished file\<close>

lemma footer_lengths [simp]:
  "length (ft_min_key (table_footer bs sw)) = 256" "length (ft_max_key (table_footer bs sw)) = 256"
  by (simp_all add: table_footer_def Let_def)

definition small_table :: "block list \<Rightarrow> bytes \<Rightarrow> bool" where
  "small_table bs out \<longleftrightarrow> length (blocks_bytes bs) < 2 ^ 32 \<and> length (index_bytes (index_of 0 bs)) < 2 ^ 32 \<and> length out < 2 ^ 32"

lemma read_footer_spec:
  assumes q: "quiet w" and fl: "file_bytes p w = table_file bs out (table_footer bs sw)"
  shows "read_footer p w = (Some (table_footer bs sw), w)"
proof -
  let ?ft = "table_footer bs sw" and ?pre = "blocks_bytes bs @ index_bytes (index_of 0 bs) @ out"
  have f: "file_bytes p w = ?pre @ footer_bytes ?ft" by (simp add: fl table_file_def)
  have len: "length (footer_bytes ?ft) = 576" using length_footer_bytes [of ?ft] by simp
  have "read_exact p (length (file_bytes p w) - FOOTER_SIZE) FOOTER_SIZE w = (Some (footer_bytes ?ft), w)"
    using read_exact_quiet [OF q, of "length ?pre" 576 p] len by (simp add: f FOOTER_SIZE_def)
  moreover have "ft_magic ?ft = SSTABLE_MAGIC" by (simp add: table_footer_def Let_def)
  ultimately show ?thesis using q len parse_footer_bytes [of ?ft] footer_crc [of ?ft] f
    by (simp add: read_footer_def Let_def FOOTER_SIZE_def)
qed

lemma open_spec:
  assumes q: "quiet w" and fl: "w_fs w p = Some (table_file bs out (table_footer bs sw))" and small: "small_table bs out"
    and out: "length out = unat (bloom_serialized_size (sw_bloom sw))" "bloom_deserialize out w = (Some bf, w)"
  shows "sstable_reader_open p c w = Some (Some \<lparr>sr_path = p, sr_cmp = (case c of None \<Rightarrow> default_compare | Some f \<Rightarrow> f),
    sr_footer = table_footer bs sw, sr_index = map Some (index_of 0 bs), sr_bloom = bf\<rparr>, w)"
proof -
  let ?ft = "table_footer bs sw" and ?ib = "index_bytes (index_of 0 bs)" and ?n = "length (blocks_bytes bs)"
  have fb: "file_bytes p w = table_file bs out ?ft" by (simp add: file_bytes_def fl)
  have S: "?n < 2 ^ 32" "length ?ib < 2 ^ 32" "length out < 2 ^ 32" using small by (auto simp: small_table_def)
  have u: "unat (ft_index_offset ?ft) = ?n" "unat (ft_index_size ?ft) = length ?ib" "unat (ft_bloom_offset ?ft) = ?n + length ?ib"
    "unat (ft_bloom_size ?ft) = length out"
    using S out(1) by (simp_all add: table_footer_def Let_def unat_of_nat unsigned_ucast_eq take_bit_nat_eq_self
        del: of_nat_add)
  have b: "read_exact p (?n + length ?ib) (length out) w = (Some out, w)"
    using read_exact_quiet [OF q, of "?n + length ?ib" "length out" p] by (simp add: fb table_file_def)
  have i: "read_exact p ?n (length ?ib) w = (Some ?ib, w)"
    using read_exact_quiet [OF q, of ?n "length ?ib" p] by (simp add: fb table_file_def)
  have pi: "parse_index ?ib 0 16 [] w = Some (Inr (map Some (index_of 0 bs)), w)"
    using parse_index_spec [OF q, of ?ib "[]" "index_of 0 bs" 16 "[]"] S(2) by (simp add: SIZE_MOD_def)
  have "read_bloom p ?ft w = (Some bf, w)" using q b out(2) by (simp add: read_bloom_def u)
  moreover have "read_index p ?ft w = Some (Some (map Some (index_of 0 bs)), w)" using q i pi by (simp add: read_index_def u)
  moreover have "sys_open_read p w = (Open_ok, w)" using q fl by (simp add: sys_open_read_def)
  ultimately show ?thesis using q read_footer_spec [OF q fb] by (simp add: sstable_reader_open_def)
qed

section \<open>Sizes\<close>

lemma length_blocks:
  assumes "blocks_ok cmp bs"
  shows "length bs \<le> length (table_items bs)" "length (blocks_bytes bs) \<le> 8192 * length bs"
proof -
  have "\<forall>b \<in> set bs. fst b \<noteq> [] \<and> length (block_bytes (fst b) (snd b)) \<le> 8192" using assms by (auto simp: blocks_ok_def)
  then have "length bs \<le> length (table_items bs) \<and> length (blocks_bytes bs) \<le> 8192 * length bs"
  proof (induction bs)
    case (Cons b bs)
    then show ?case by (cases b; cases "fst b") auto
  qed simp
  then show "length bs \<le> length (table_items bs)" "length (blocks_bytes bs) \<le> 8192 * length bs" by blast+
qed

lemma length_index:
  assumes "blocks_ok cmp bs" and "\<forall>x \<in> set (table_items bs). length (item_key x) \<le> n"
  shows "length (index_bytes (index_of off bs)) \<le> (n + 22) * length bs"
proof -
  have "\<forall>b \<in> set bs. fst b \<noteq> []" using assms(1) by (auto simp: blocks_ok_def)
  then show ?thesis using assms(2)
  proof (induction bs arbitrary: off)
    case Nil
    then show ?case by (simp add: index_bytes_def)
  next
    case (Cons b bs)
    obtain xs ri where b: "b = (xs, ri)" by (cases b)
    have k: "length (item_key (last xs)) \<le> n" using Cons.prems by (simp add: b)
    have "length (index_bytes (index_of off (b # bs))) = length (encode_varint (of_nat (length (item_key (last xs))))) +
        length (item_key (last xs)) + 12 + length (index_bytes (index_of (off + length (block_bytes xs ri)) bs))"
      by (simp add: b index_bytes_def ie_bytes_def)
    also have "\<dots> \<le> 10 + n + 12 + (n + 22) * length bs"
      using Cons.IH [of "off + length (block_bytes xs ri)"] Cons.prems k length_varint_max [of "of_nat (length (item_key (last xs)))"]
      by (intro add_mono) (auto simp: b)
    finally show ?case by simp
  qed
qed

section \<open>Round trip\<close>

text \<open>At most \<open>2 ^ 18\<close> entries keep the blocks and the index below \<open>2 ^ 32\<close> bytes, and an estimate of
  at most \<open>2 ^ 30\<close> entries the filter.\<close>

definition table_size_ok :: "(bytes \<times> bytes \<times> bool) list \<Rightarrow> u64 \<Rightarrow> bool" where
  "table_size_ok es n \<longleftrightarrow> length es \<le> 2 ^ 18 \<and> unat n \<le> 2 ^ 30"

lemma create_spec:
  assumes q: "quiet w" and n: "unat n \<le> 2 ^ 30"
  shows "\<exists>sw. sstable_writer_create p n c w = (Some sw, with_file w p []) \<and> sw_path sw = p \<and>
    sw_rep (case c of None \<Rightarrow> default_compare | Some f \<Rightarrow> f) sw [] [] []"
proof -
  let ?n = "if n > 0 then n else 1000 :: u64" and ?w = "with_file w p []"
  have u: "unat ?n \<le> 2 ^ 30" using n by simp
  have al: "alloc_ok ?w" using q by (simp add: quietD)
  obtain bf where bf: "bloom_create ?n ?w = (Some bf, ?w)" "bloom_wf bf" "unat (bf_num_bits bf) \<le> unat ?n * 10 + 17"
    using bloom_create_ok [OF al, of ?n] u by auto
  have o: "sys_open_trunc p w = (True, ?w)" using quietD(2) [OF q] by (simp add: with_file_def)
  have "sw_rep (case c of None \<Rightarrow> default_compare | Some f \<Rightarrow> f) \<lparr>sw_path = p,
      sw_cmp = (case c of None \<Rightarrow> default_compare | Some f \<Rightarrow> f), sw_block = [],
      sw_restarts = [], sw_restart_capacity = 64, sw_entries_since_restart = SSTABLE_RESTART_INTERVAL,
      sw_prev_key = None, sw_index = [], sw_index_capacity = 64, sw_bloom = bf, sw_num_entries = 0,
      sw_file_offset = 0, sw_min_key = None, sw_max_key = None\<rparr> [] [] []"
    using bf(2,3) u by (simp add: sw_rep_def table_rep_def buffer_rep_def keys_sorted_def filter_rep_def stats_rep_def)
  then show ?thesis using q o bf(1) by (simp add: sstable_writer_create_def)
qed

lemma bloom_size:
  assumes "bloom_wf bf" and "unat (bf_num_bits bf) \<le> 2 ^ 34"
  shows "unat (bloom_serialized_size bf) < 2 ^ 32"
proof -
  have "unat (num_bytes (bf_num_bits bf)) = (unat (bf_num_bits bf) + 7) div 8"
    using assms(1) by (simp add: num_bytes_def unat_div unat_word_ariths bloom_wf_def)
  also have "\<dots> \<le> 2 ^ 31" using assms(2) by simp
  finally show ?thesis by (simp add: bloom_serialized_size_def unat_word_ariths)
qed

text \<open>The footer carries the smallest and the largest key, unless they are longer than it has room for.\<close>

definition range_key :: "bytes option \<Rightarrow> bytes" where
  "range_key k = (case k of None \<Rightarrow> [] | Some k \<Rightarrow> if length k \<le> 256 then k else [])"

lemma footer_key_range: "take (unat (fst (footer_key k))) (snd (footer_key k)) = range_key k"
  by (auto simp: footer_key_def range_key_def SSTABLE_MAX_KEY_SIZE_def unat_of_nat split: option.splits)

lemma small_tableI:
  assumes bs: "blocks_ok cmp bs" and es: "entries_ok cmp (map item_entry (table_items bs))" "length (map item_entry (table_items bs)) \<le> 2 ^ 18"
    and out: "length out < 2 ^ 32"
  shows "small_table bs out"
proof -
  have keys: "\<forall>x \<in> set (table_items bs). length (item_key x) \<le> 8149"
  proof
    fix x assume x: "x \<in> set (table_items bs)"
    obtain s k v d where "x = (s, k, v, d)" by (cases x)
    then show "length (item_key x) \<le> 8149" using x es(1) by (force simp: entries_ok_def)
  qed
  have n: "length bs \<le> 2 ^ 18" using length_blocks(1) [OF bs] es(2) by simp
  have "length (blocks_bytes bs) \<le> 8192 * 2 ^ 18" using length_blocks(2) [OF bs] n by simp
  moreover have "length (index_bytes (index_of 0 bs)) \<le> 8171 * 2 ^ 18" using length_index [OF bs keys, of 0] n by simp
  ultimately show ?thesis using out by (simp add: small_table_def)
qed

context key_order
begin

text \<open>Writing a table and opening it.\<close>

lemma table_written:
  assumes q: "quiet w" and es: "entries_ok cmp es" and size: "table_size_ok es n"
    and c: "(case c of None \<Rightarrow> default_compare | Some f \<Rightarrow> f) = cmp"
  shows "\<exists>sw sw1 w1 file r. sstable_writer_create p n c w = (Some sw, with_file w p []) \<and>
    writer_add_all sw es (with_file w p []) = Some (STATUS_OK, sw1, w1) \<and>
    sstable_writer_finish sw1 w1 = Some (STATUS_OK, with_file w p file) \<and>
    sstable_reader_open p c (with_file w p file) = Some (Some r, with_file w p file) \<and>
    sr_path r = p \<and> reader_rep cmp r (with_file w p file) es \<and> sstable_reader_num_entries r = of_nat (length es) \<and>
    sstable_reader_min_key r = range_key (if es = [] then None else Some (fst (hd es))) \<and>
    sstable_reader_max_key r = range_key (if es = [] then None else Some (fst (last es)))"
proof -
  obtain sw where sw: "sstable_writer_create p n c w = (Some sw, with_file w p [])" "sw_path sw = p" "sw_rep cmp sw [] [] []"
    using create_spec [OF q, of n p c] size c by (auto simp: table_size_ok_def)
  obtain sw1 bs xs ri where a: "writer_add_all sw es (with_file w p []) = Some (STATUS_OK, sw1, with_file w p (blocks_bytes bs))"
    "sw_rep cmp sw1 bs xs ri" "sw_path sw1 = p" "map item_entry (table_items bs @ xs) = es"
    using writer_add_all_spec [OF q sw(3) es] sw(2) by auto
  obtain bs' out sw2 where f: "sstable_writer_finish sw1 (with_file w p (blocks_bytes bs)) =
      Some (STATUS_OK, with_file w p (table_file bs' out (table_footer bs' sw2)))" "blocks_ok cmp bs'"
    "table_items bs' = table_items bs @ xs" "same_stats sw1 sw2" "length out = unat (bloom_serialized_size (sw_bloom sw1))"
    "\<forall>w. alloc_ok w \<longrightarrow> bloom_deserialize out w = (Some ((sw_bloom sw1)\<lparr>bf_num_keys := 0\<rparr>), w)"
    using finish_spec [OF q a(2)] a(3) by auto
  let ?file = "table_file bs' out (table_footer bs' sw2)" and ?all = "table_items bs'"
  have S: "filter_rep (sw_bloom sw1) (item_key ` set ?all)" "stats_rep sw1 ?all" using a(2) f(3) by (auto simp: sw_rep_def)
  have es': "map item_entry ?all = es" using a(4) f(3) by simp
  have small: "small_table bs' out"
    using small_tableI [OF f(2)] es size es' S(1) f(5) bloom_size by (simp add: table_size_ok_def filter_rep_def)
  let ?w = "with_file w p ?file" and ?bf = "(sw_bloom sw1)\<lparr>bf_num_keys := 0\<rparr>"
  define r where "r = \<lparr>sr_path = p, sr_cmp = cmp, sr_footer = table_footer bs' sw2, sr_index = map Some (index_of 0 bs'), sr_bloom = ?bf\<rparr>"
  have "length out = unat (bloom_serialized_size (sw_bloom sw2))" using f(4,5) by (simp add: same_stats_def)
  moreover have "bloom_deserialize out ?w = (Some ?bf, ?w)" using f(6) q by (simp add: quietD)
  ultimately have o: "sstable_reader_open p c ?w = Some (Some r, ?w)"
    using open_spec [OF _ _ small, of ?w p sw2 ?bf c] q c by (simp add: r_def)
  have "filter_rep ?bf (item_key ` set ?all)" using S(1) by (simp add: filter_rep_def bloom_wf_def probes_def)
  then have rep: "reader_rep cmp r ?w es"
    using f(2) small es' unfolding reader_rep_def by (auto simp: r_def small_table_def table_file_def)
  have "sw_num_entries sw2 = of_nat (length es)" "sw_min_key sw2 = (if es = [] then None else Some (fst (hd es)))"
    "sw_max_key sw2 = (if es = [] then None else Some (fst (last es)))"
    using f(4) S(2) by (auto simp: stats_rep_def same_stats_def es' [symmetric] hd_map last_map)
  then have "sstable_reader_num_entries r = of_nat (length es)"
    "sstable_reader_min_key r = range_key (if es = [] then None else Some (fst (hd es)))"
    "sstable_reader_max_key r = range_key (if es = [] then None else Some (fst (last es)))"
    using footer_key_range [of "sw_min_key sw2"] footer_key_range [of "sw_max_key sw2"]
    by (simp_all add: r_def sstable_reader_num_entries_def sstable_reader_min_key_def sstable_reader_max_key_def table_footer_def Let_def)
  then show ?thesis using sw(1) a(1) f(1) o rep by (fastforce simp: r_def)
qed

end

text \<open>C13: A table returns what was written into it. For every strictly sorted list of at most
  \<open>2 ^ 18\<close> entries whose key and value together have at most 8149 bytes, creating a table, adding the
  entries and finishing it succeeds without leaving the block buffer; the file opens, the reader
  reports the number of entries, and a lookup of any key gives the value that was added, the tombstone
  flag, or \<^verbatim>\<open>STATUS_NOT_FOUND\<close> for a key that was not added.\<close>

theorem sstable_roundtrip:
  assumes "quiet w" and "entries_ok default_compare es" and "table_size_ok es n"
  shows "\<exists>sw sw1 w1 w2 r. sstable_writer_create p n None w = (Some sw, with_file w p []) \<and>
    writer_add_all sw es (with_file w p []) = Some (STATUS_OK, sw1, w1) \<and>
    sstable_writer_finish sw1 w1 = Some (STATUS_OK, w2) \<and>
    sstable_reader_open p None w2 = Some (Some r, w2) \<and> sstable_reader_num_entries r = of_nat (length es) \<and>
    (\<forall>key. sstable_reader_get r key w2 = Some (table_lookup es key, w2))"
proof -
  obtain sw sw1 w1 c r where t: "sstable_writer_create p n None w = (Some sw, with_file w p [])"
    "writer_add_all sw es (with_file w p []) = Some (STATUS_OK, sw1, w1)"
    "sstable_writer_finish sw1 w1 = Some (STATUS_OK, with_file w p c)"
    "sstable_reader_open p None (with_file w p c) = Some (Some r, with_file w p c)"
    "reader_rep default_compare r (with_file w p c) es" "sstable_reader_num_entries r = of_nat (length es)"
    using dk.table_written [OF assms, of None p] by auto
  have "quiet (with_file w p c)" using assms(1) by simp
  then show ?thesis using t dk.reader_get_spec [OF _ t(5)] by blast
qed

theorem sstable_roundtrip_witness:
  "\<exists>sw sw1 w1 w2 r. sstable_writer_create ''t'' 2 None quiet_world = (Some sw, with_file quiet_world ''t'' []) \<and>
    writer_add_all sw [([97], [1, 2], False), ([97, 98], [], True)] (with_file quiet_world ''t'' []) = Some (STATUS_OK, sw1, w1) \<and>
    sstable_writer_finish sw1 w1 = Some (STATUS_OK, w2) \<and> sstable_reader_open ''t'' None w2 = Some (Some r, w2) \<and>
    sstable_reader_get r [97] w2 = Some ((STATUS_OK, Some [1, 2], False), w2) \<and>
    sstable_reader_get r [97, 98] w2 = Some ((STATUS_OK, None, True), w2) \<and>
    sstable_reader_get r [98] w2 = Some ((STATUS_NOT_FOUND, None, False), w2)"
proof -
  let ?es = "[([97], [1, 2], False), ([97, 98], [], True)] :: (bytes \<times> bytes \<times> bool) list"
  have "quiet quiet_world" by (simp add: quiet_def)
  moreover have "entries_ok default_compare ?es" "table_size_ok ?es 2" by (simp_all add: entries_ok_def table_size_ok_def)
  ultimately show ?thesis
    using sstable_roundtrip [of quiet_world ?es 2 "''t''"] by (fastforce simp: table_lookup_def)
qed

end
