(* ===== verification/SE_Level.thy ===== *)
theory SE_Level
  imports SE_Table_Spec SE_Skiplist
begin

text \<open>
  The level manager (\<^verbatim>\<open>storage-engine/src/level.c\<close>): which tables are at which level, and the
  lookup through them. Levels are \<^verbatim>\<open>int\<close> arguments, checked against the number of levels where the
  code checks them. A null key pointer always comes with the length 0; comparing it compares the empty
  key (\<^verbatim>\<open>memcmp\<close> of no bytes), which \<open>opt_bytes\<close> gives.
\<close>

definition MAX_LEVELS :: int where "MAX_LEVELS = 7"
definition L0_COMPACTION_TRIGGER :: nat where "L0_COMPACTION_TRIGGER = 4"
definition LEVEL_SIZE_MULTIPLIER :: u64 where "LEVEL_SIZE_MULTIPLIER = 10"
definition L1_MAX_BYTES :: u64 where "L1_MAX_BYTES = 10 * 1024 * 1024"

record sstable_meta =
  sm_file_number :: u64
  sm_path :: string
  sm_reader :: sstable_reader
  sm_min_key :: "bytes option"
  sm_max_key :: "bytes option"
  sm_file_size :: u64

record level =
  lv_files :: "sstable_meta list"
  lv_file_capacity :: nat
  lv_total_bytes :: u64

record level_manager =
  lm_db_path :: "string option"
  lm_cmp :: compare_fn
  lm_levels :: "level list"
  lm_next_file_number :: u64

definition empty_level :: level where
  "empty_level = \<lparr>lv_files = [], lv_file_capacity = 0, lv_total_bytes = 0\<rparr>"

definition level_manager_create :: "string option \<Rightarrow> compare_fn option \<Rightarrow> world \<Rightarrow> level_manager option \<times> world" where
  "level_manager_create db_path cmp w =
     (case malloc w of (ok, w) \<Rightarrow>
      if \<not> ok then (None, w)
      else case malloc_if (db_path \<noteq> None) w of (ok, w) \<Rightarrow>
      if \<not> ok then (None, w)
      else (Some \<lparr>lm_db_path = db_path, lm_cmp = (case cmp of None \<Rightarrow> default_compare | Some f \<Rightarrow> f),
                  lm_levels = replicate (nat MAX_LEVELS) empty_level, lm_next_file_number = 1\<rparr>, w))"

definition level_at :: "level_manager \<Rightarrow> int \<Rightarrow> level" where
  "level_at lm i = lm_levels lm ! nat i"

definition set_level :: "level_manager \<Rightarrow> int \<Rightarrow> level \<Rightarrow> level_manager" where
  "set_level lm i lv = lm\<lparr>lm_levels := (lm_levels lm)[nat i := lv]\<rparr>"

definition get_file_size :: "string \<Rightarrow> world \<Rightarrow> u64 \<times> world" where
  "get_file_size path w =
     (case sys_ok w of (ok, w) \<Rightarrow> (if ok then of_nat (length (file_bytes path w)) else 0, w))"

text \<open>A binary search whose test only compares.\<close>

definition search_files :: "(sstable_meta \<Rightarrow> bool) \<Rightarrow> sstable_meta list \<Rightarrow> nat" where
  "search_files below files =
     (case lower_bound (\<lambda>mid. Some (Inr (below (files ! mid)))) 0 (length files) of Some (Inr l) \<Rightarrow> l | _ \<Rightarrow> 0)"

definition find_insert_pos :: "level_manager \<Rightarrow> level \<Rightarrow> bytes option \<Rightarrow> nat" where
  "find_insert_pos lm lv min_key =
     search_files (\<lambda>m. lm_cmp lm (opt_bytes (sm_min_key m)) (opt_bytes min_key) < 0) (lv_files lv)"

definition copy_key :: "bytes \<Rightarrow> world \<Rightarrow> bytes option \<times> world" where
  "copy_key k w = (if k = [] then (None, w) else case malloc w of (ok, w) \<Rightarrow> (if ok then Some k else None, w))"

definition level_add_sstable ::
  "level_manager \<Rightarrow> int \<Rightarrow> u64 \<Rightarrow> string \<Rightarrow> sstable_reader \<Rightarrow> world \<Rightarrow> status_t \<times> level_manager \<times> world"
where
  "level_add_sstable lm level file_num path reader w =
     (if level < 0 \<or> level \<ge> MAX_LEVELS then (STATUS_INVALID_ARG, lm, w)
      else
        let lvl = level_at lm level;
            grow = length (lv_files lvl) \<ge> lv_file_capacity lvl
        in case malloc_if grow w of (ok, w) \<Rightarrow>
           if \<not> ok then (STATUS_NO_MEMORY, lm, w)
           else
             let lvl = (if grow then lvl\<lparr>lv_file_capacity := (if lv_file_capacity lvl = 0 then 4 else lv_file_capacity lvl * 2)\<rparr> else lvl);
                 lm = set_level lm level lvl
             in case malloc w of (ok_path, w) \<Rightarrow>
                case get_file_size path w of (file_size, w) \<Rightarrow>
                case copy_key (sstable_reader_min_key reader) w of (min_key, w) \<Rightarrow>
                case copy_key (sstable_reader_max_key reader) w of (max_key, w) \<Rightarrow>
                if \<not> ok_path then (STATUS_NO_MEMORY, lm, w)
                else
                  let meta = \<lparr>sm_file_number = file_num, sm_path = path, sm_reader = reader, sm_min_key = min_key,
                              sm_max_key = max_key, sm_file_size = file_size\<rparr>;
                      pos = (if level = 0 then length (lv_files lvl) else find_insert_pos lm lvl min_key);
                      lvl = lvl\<lparr>lv_files := take pos (lv_files lvl) @ meta # drop pos (lv_files lvl),
                                lv_total_bytes := lv_total_bytes lvl + file_size\<rparr>;
                      lm = set_level lm level lvl
                  in (STATUS_OK,
                      if file_num \<ge> lm_next_file_number lm then lm\<lparr>lm_next_file_number := file_num + 1\<rparr> else lm, w))"

text \<open>The position of the first file with a number.\<close>

fun file_index :: "sstable_meta list \<Rightarrow> u64 \<Rightarrow> nat option" where
  "file_index [] n = None"
| "file_index (m # ms) n = (if sm_file_number m = n then Some 0 else map_option Suc (file_index ms n))"

definition level_remove_sstable :: "level_manager \<Rightarrow> int \<Rightarrow> u64 \<Rightarrow> status_t \<times> level_manager" where
  "level_remove_sstable lm level file_num =
     (if level < 0 \<or> level \<ge> MAX_LEVELS then (STATUS_INVALID_ARG, lm)
      else
        let lvl = level_at lm level
        in case file_index (lv_files lvl) file_num of
             None \<Rightarrow> (STATUS_NOT_FOUND, lm)
           | Some i \<Rightarrow>
               (STATUS_OK,
                set_level lm level
                  (lvl\<lparr>lv_total_bytes := lv_total_bytes lvl - sm_file_size (lv_files lvl ! i),
                       lv_files := take i (lv_files lvl) @ drop (Suc i) (lv_files lvl)\<rparr>)))"

section \<open>Lookup\<close>

definition key_in_range :: "compare_fn \<Rightarrow> bytes \<Rightarrow> bytes option \<Rightarrow> bytes option \<Rightarrow> bool" where
  "key_in_range cmp key min_key max_key \<longleftrightarrow>
     \<not> (min_key \<noteq> None \<and> cmp key (opt_bytes min_key) < 0) \<and> \<not> (max_key \<noteq> None \<and> cmp key (opt_bytes max_key) > 0)"

text \<open>Looking at one file: \<open>None\<close> inside says to go on.\<close>

definition get_in_file ::
  "level_manager \<Rightarrow> bytes \<Rightarrow> sstable_meta \<Rightarrow> world \<Rightarrow> (lookup_result option \<times> world) option"
where
  "get_in_file lm key meta w =
     (if \<not> key_in_range (lm_cmp lm) key (sm_min_key meta) (sm_max_key meta) then Some (None, w)
      else do {
        (r, w) \<leftarrow> sstable_reader_get (sm_reader meta) key w;
        Some (if fst r = STATUS_NOT_FOUND then None else Some r, w)
      })"

fun get_in_files ::
  "level_manager \<Rightarrow> bytes \<Rightarrow> sstable_meta list \<Rightarrow> world \<Rightarrow> (lookup_result option \<times> world) option"
where
  "get_in_files lm key [] w = Some (None, w)"
| "get_in_files lm key (m # ms) w = do {
     (r, w) \<leftarrow> get_in_file lm key m w;
     case r of Some r \<Rightarrow> Some (Some r, w) | None \<Rightarrow> get_in_files lm key ms w
   }"

definition level_candidate :: "level_manager \<Rightarrow> bytes \<Rightarrow> level \<Rightarrow> sstable_meta list" where
  "level_candidate lm key lvl =
     (let left = search_files (\<lambda>m. lm_cmp lm (opt_bytes (sm_max_key m)) key < 0) (lv_files lvl)
      in if left < length (lv_files lvl) then [lv_files lvl ! left] else [])"

text \<open>Level 0 from the newest file to the oldest, then one candidate of each level below.\<close>

definition level_get :: "level_manager \<Rightarrow> bytes \<Rightarrow> world \<Rightarrow> (lookup_result \<times> world) option" where
  "level_get lm key w = do {
     (r, w) \<leftarrow> get_in_files lm key
       (rev (lv_files (level_at lm 0)) @ concat (map (level_candidate lm key) (tl (lm_levels lm)))) w;
     Some (case r of None \<Rightarrow> (STATUS_NOT_FOUND, None, False) | Some r \<Rightarrow> r, w)
   }"

section \<open>Sizes and overlaps\<close>

definition level_max_bytes_for_level :: "int \<Rightarrow> u64" where
  "level_max_bytes_for_level level =
     (if level = 0 then - 1 else ((\<lambda>x. x * LEVEL_SIZE_MULTIPLIER) ^^ nat (level - 1)) L1_MAX_BYTES)"

definition level_needs_compaction :: "level_manager \<Rightarrow> int \<Rightarrow> bool" where
  "level_needs_compaction lm level =
     (if level < 0 \<or> level \<ge> MAX_LEVELS - 1 then False
      else if level = 0 then length (lv_files (level_at lm level)) \<ge> L0_COMPACTION_TRIGGER
      else lv_total_bytes (level_at lm level) > level_max_bytes_for_level level)"

definition ranges_overlap ::
  "compare_fn \<Rightarrow> bytes option \<Rightarrow> bytes option \<Rightarrow> bytes option \<Rightarrow> bytes option \<Rightarrow> bool"
where
  "ranges_overlap cmp min1 max1 min2 max2 \<longleftrightarrow>
     \<not> (max1 \<noteq> None \<and> min2 \<noteq> None \<and> cmp (opt_bytes max1) (opt_bytes min2) < 0) \<and>
     \<not> (max2 \<noteq> None \<and> min1 \<noteq> None \<and> cmp (opt_bytes max2) (opt_bytes min1) < 0)"

definition level_find_overlapping ::
  "level_manager \<Rightarrow> int \<Rightarrow> bytes option \<Rightarrow> bytes option \<Rightarrow> world \<Rightarrow> u64 list \<times> world"
where
  "level_find_overlapping lm level min_key max_key w =
     (if level < 0 \<or> level \<ge> MAX_LEVELS \<or> lv_files (level_at lm level) = [] then ([], w)
      else case malloc w of (ok, w) \<Rightarrow>
        if \<not> ok then ([], w)
        else
          let files = lv_files (level_at lm level)
          in (map sm_file_number
                (if level = 0 then filter (\<lambda>m. ranges_overlap (lm_cmp lm) min_key max_key (sm_min_key m) (sm_max_key m)) files
                 else takeWhile (\<lambda>m. \<not> lm_cmp lm (opt_bytes (sm_min_key m)) (opt_bytes max_key) > 0)
                        (drop (search_files (\<lambda>m. lm_cmp lm (opt_bytes (sm_max_key m)) (opt_bytes min_key) < 0) files) files)), w))"

definition level_file_count :: "level_manager \<Rightarrow> int \<Rightarrow> nat" where
  "level_file_count lm level = (if level < 0 \<or> level \<ge> MAX_LEVELS then 0 else length (lv_files (level_at lm level)))"

definition level_next_file_number :: "level_manager \<Rightarrow> u64" where
  "level_next_file_number lm = lm_next_file_number lm"

definition level_set_next_file_number :: "level_manager \<Rightarrow> u64 \<Rightarrow> level_manager" where
  "level_set_next_file_number lm num = lm\<lparr>lm_next_file_number := num\<rparr>"

end
