(* ===== verification/SE_Manifest.thy ===== *)
theory SE_Manifest
  imports SE_Level
begin

text \<open>
  The manifest (\<^verbatim>\<open>storage-engine/src/manifest.c\<close>): a log of which tables exist, replayed when a
  database is opened. Without a manifest the directory is scanned; the names that
  \<^verbatim>\<open>readdir\<close> yields, in its order, are the argument \<open>names\<close> (empty when the directory cannot be
  opened).
\<close>

definition MANIFEST_ADD_FILE :: u8 where "MANIFEST_ADD_FILE = 1"
definition MANIFEST_REMOVE_FILE :: u8 where "MANIFEST_REMOVE_FILE = 2"
definition MANIFEST_NEXT_FILE_NUM :: u8 where "MANIFEST_NEXT_FILE_NUM = 3"

section \<open>Names and numbers\<close>

definition digit_char :: "nat \<Rightarrow> char" where
  "digit_char d = char_of (48 + d)"

fun decimal :: "nat \<Rightarrow> string" where
  "decimal n = (if n < 10 then [digit_char n] else decimal (n div 10) @ [digit_char (n mod 10)])"

declare decimal.simps [simp del]

text \<open>\<^verbatim>\<open>%06llu\<close> and the name of a table file.\<close>

definition decimal6 :: "nat \<Rightarrow> string" where
  "decimal6 n = replicate (6 - length (decimal n)) (digit_char 0) @ decimal n"

definition sst_name :: "string \<Rightarrow> u64 \<Rightarrow> string" where
  "sst_name db_path file_num = db_path @ ''/'' @ decimal6 (unat file_num) @ ''.sst''"

text \<open>\<^verbatim>\<open>snprintf\<close> into a buffer of 512 bytes.\<close>

definition path_buffer :: "string \<Rightarrow> string" where
  "path_buffer s = take 511 s"

definition is_digit :: "char \<Rightarrow> bool" where
  "is_digit c \<longleftrightarrow> 48 \<le> (of_char c :: nat) \<and> (of_char c :: nat) \<le> 57"

definition digits_value :: "string \<Rightarrow> nat" where
  "digits_value s = foldl (\<lambda>n c. n * 10 + ((of_char c :: nat) - 48)) 0 s"

definition is_space :: "char \<Rightarrow> bool" where
  "is_space c \<longleftrightarrow> (of_char c :: nat) = 32 \<or> (9 \<le> (of_char c :: nat) \<and> (of_char c :: nat) \<le> 13)"

text \<open>\<^verbatim>\<open>strtoull\<close> in base 10: leading space, a sign, digits; too large a number gives the maximum.\<close>

definition strtoull :: "string \<Rightarrow> u64" where
  "strtoull s =
     (let s = dropWhile is_space s;
          negative = (s \<noteq> [] \<and> hd s = CHR ''-'');
          s = (if s \<noteq> [] \<and> (hd s = CHR ''-'' \<or> hd s = CHR ''+'') then tl s else s);
          n = digits_value (takeWhile is_digit s)
      in if n \<ge> 2 ^ 64 then - 1 else if negative then - of_nat n else of_nat n)"

section \<open>Writing\<close>

definition manifest_path :: "string \<Rightarrow> string" where
  "manifest_path db_path = db_path @ ''/MANIFEST''"

definition manifest_create :: "string \<Rightarrow> world \<Rightarrow> status_t \<times> world" where
  "manifest_create db_path w =
     (case malloc w of (ok, w) \<Rightarrow>
      if \<not> ok then (STATUS_NO_MEMORY, w)
      else case sys_open_trunc (manifest_path db_path) w of (ok, w) \<Rightarrow> (if ok then STATUS_OK else STATUS_IO_ERROR, w))"

definition manifest_record :: "u8 \<Rightarrow> bytes \<Rightarrow> bytes" where
  "manifest_record type data =
     (let body = type # le_bytes 4 (of_nat (length data) :: u32) @ data in le_bytes 4 (crc32 body) @ body)"

definition manifest_append :: "string \<Rightarrow> u8 \<Rightarrow> bytes \<Rightarrow> world \<Rightarrow> status_t \<times> world" where
  "manifest_append db_path type data w =
     (case malloc w of (ok, w) \<Rightarrow>
      if \<not> ok then (STATUS_NO_MEMORY, w)
      else case sys_open_create (manifest_path db_path) w of (ok, w) \<Rightarrow>
      if \<not> ok then (STATUS_IO_ERROR, w)
      else case malloc w of (ok, w) \<Rightarrow>
      if \<not> ok then (STATUS_NO_MEMORY, w)
      else case file_write_all (manifest_path db_path) (manifest_record type data) w of (ok, w) \<Rightarrow>
        (if ok then STATUS_OK else STATUS_IO_ERROR, w))"

definition file_data :: "int \<Rightarrow> u64 \<Rightarrow> bytes" where
  "file_data level file_num = le_bytes 4 (word_of_int level :: u32) @ le_bytes 8 file_num"

definition manifest_log_add_file :: "string \<Rightarrow> int \<Rightarrow> u64 \<Rightarrow> world \<Rightarrow> status_t \<times> world" where
  "manifest_log_add_file db_path level file_num w =
     manifest_append db_path MANIFEST_ADD_FILE (file_data level file_num) w"

definition manifest_log_remove_file :: "string \<Rightarrow> int \<Rightarrow> u64 \<Rightarrow> world \<Rightarrow> status_t \<times> world" where
  "manifest_log_remove_file db_path level file_num w =
     manifest_append db_path MANIFEST_REMOVE_FILE (file_data level file_num) w"

definition manifest_log_next_file_num :: "string \<Rightarrow> u64 \<Rightarrow> world \<Rightarrow> status_t \<times> world" where
  "manifest_log_next_file_num db_path next_num w =
     manifest_append db_path MANIFEST_NEXT_FILE_NUM (le_bytes 8 next_num) w"

section \<open>Recovery\<close>

text \<open>Opening a table and adding it; a table that does not open is skipped.\<close>

definition adopt_table ::
  "level_manager \<Rightarrow> int \<Rightarrow> u64 \<Rightarrow> string \<Rightarrow> world \<Rightarrow> (level_manager \<times> world) option"
where
  "adopt_table lm level file_num path w = do {
     (reader, w) \<leftarrow> sstable_reader_open path (Some (lm_cmp lm)) w;
     Some (case reader of
         None \<Rightarrow> (lm, w)
       | Some r \<Rightarrow> (case level_add_sstable lm level file_num path r w of (st, lm, w) \<Rightarrow> (lm, w)))
   }"

definition is_sst_name :: "string \<Rightarrow> bool" where
  "is_sst_name n \<longleftrightarrow> length n > 4 \<and> drop (length n - 4) n = ''.sst''"

fun scan_directory :: "string \<Rightarrow> string list \<Rightarrow> level_manager \<Rightarrow> world \<Rightarrow> (level_manager \<times> world) option" where
  "scan_directory db_path [] lm w = Some (lm, w)"
| "scan_directory db_path (n # ns) lm w =
     (if is_sst_name n then do {
        (lm, w) \<leftarrow> adopt_table lm 0 (strtoull n) (path_buffer (db_path @ ''/'' @ n)) w;
        scan_directory db_path ns lm w
      }
      else scan_directory db_path ns lm w)"

definition process_manifest_record ::
  "string \<Rightarrow> u8 \<Rightarrow> bytes \<Rightarrow> level_manager \<Rightarrow> world \<Rightarrow> (level_manager \<times> world) option"
where
  "process_manifest_record db_path type data lm w =
     (let level = sint (le_word (take 4 data) :: u32); file_num = le_word (take 8 (drop 4 data)) :: u64
      in if type = MANIFEST_ADD_FILE \<and> length data \<ge> 12
         then adopt_table lm level file_num (path_buffer (sst_name db_path file_num)) w
         else if type = MANIFEST_REMOVE_FILE \<and> length data \<ge> 12
         then Some (snd (level_remove_sstable lm level file_num), w)
         else if type = MANIFEST_NEXT_FILE_NUM \<and> length data \<ge> 8
         then Some (level_set_next_file_number lm (le_word (take 8 data)), w)
         else Some (lm, w))"

text \<open>The loop over the records; \<open>rest\<close> is what has not been read yet.\<close>

function manifest_replay ::
  "string \<Rightarrow> bytes \<Rightarrow> level_manager \<Rightarrow> world \<Rightarrow> (status_t \<times> level_manager \<times> world) option"
where
  "manifest_replay db_path rest lm w =
     (case read_all rest 9 w of
        (None, w) \<Rightarrow> Some (STATUS_OK, lm, w)
      | (Some header, w) \<Rightarrow>
          if length header < 9 then Some (STATUS_OK, lm, w)
          else
            let type = header ! 4; data_len = unat (le_word (take 4 (drop 5 header)) :: u32)
            in case malloc_if (data_len > 0) w of (ok, w) \<Rightarrow>
               if \<not> ok then Some (STATUS_NO_MEMORY, lm, w)
               else case read_all (drop 9 rest) data_len w of
                 (None, w) \<Rightarrow> Some (STATUS_OK, lm, w)
               | (Some data, w) \<Rightarrow>
                   if length data \<noteq> data_len then Some (STATUS_OK, lm, w)
                   else case malloc w of (ok, w) \<Rightarrow>
                     if \<not> ok then Some (STATUS_NO_MEMORY, lm, w)
                     else if crc32 (drop 4 header @ data) \<noteq> le_word (take 4 header) then Some (STATUS_CORRUPTION, lm, w)
                     else do {
                       (lm, w) \<leftarrow> process_manifest_record db_path type data lm w;
                       manifest_replay db_path (drop (9 + data_len) rest) lm w
                     })"
  by pat_completeness auto
termination
proof (relation "measure (\<lambda>(p, rest, lm, w). length rest)", goal_cases)
  case (2 db_path rest lm w x w1 header)
  then have "length header \<le> length rest" "\<not> length header < 9" using read_all_length [of rest 9 w header w1] by simp_all
  then show ?case by auto
qed simp

declare manifest_replay.simps [simp del]

definition manifest_recover ::
  "string list \<Rightarrow> string \<Rightarrow> level_manager \<Rightarrow> world \<Rightarrow> (status_t \<times> level_manager \<times> world) option"
where
  "manifest_recover names db_path lm w =
     (case malloc w of (ok, w) \<Rightarrow>
      if \<not> ok then Some (STATUS_NO_MEMORY, lm, w)
      else case sys_open_read (manifest_path db_path) w of (r, w) \<Rightarrow>
      if r \<noteq> Open_ok then do {
        (lm, w) \<leftarrow> scan_directory db_path names lm w;
        Some (STATUS_OK, lm, w)
      }
      else manifest_replay db_path (file_bytes (manifest_path db_path) w) lm w)"

end
