(* ===== verification/SE_Compact.thy ===== *)
theory SE_Compact
  imports SE_Manifest
begin

text \<open>
  Compaction (\<^verbatim>\<open>storage-engine/src/compact.c\<close>): iterators over tables, the merge of several iterators
  with a binary heap, and the replacement of the tables of one level by one table of the next. The
  block buffer of an iterator holds exactly the bytes of the current block; reading outside it is
  undefined, as is using the key of an iterator that has none.
\<close>

section \<open>Table iterators\<close>

record sstable_iter =
  si_reader :: sstable_reader
  si_current_block :: nat
  si_block :: "bytes option"
  si_pos :: nat
  si_data_end :: nat
  si_key :: "bytes option"
  si_value :: "bytes option"
  si_deleted :: bool
  si_valid :: bool

definition sstable_iter_create :: "sstable_reader \<Rightarrow> world \<Rightarrow> sstable_iter option \<times> world" where
  "sstable_iter_create reader w =
     (case malloc w of (ok, w) \<Rightarrow>
      if \<not> ok then (None, w)
      else (Some \<lparr>si_reader = reader, si_current_block = 0, si_block = None, si_pos = 0, si_data_end = 0, si_key = None,
                  si_value = None, si_deleted = False, si_valid = False\<rparr>, w))"

definition load_block :: "sstable_iter \<Rightarrow> nat \<Rightarrow> world \<Rightarrow> (bool \<times> sstable_iter \<times> world) option" where
  "load_block it block_idx w =
     (if block_idx \<ge> length (sr_index (si_reader it)) then Some (False, it\<lparr>si_valid := False\<rparr>, w)
      else do {
        e \<leftarrow> sr_index (si_reader it) ! block_idx;
        let size = unat (ie_size e);
        case malloc_if (case si_block it of None \<Rightarrow> True | Some b \<Rightarrow> length b < size) w of (ok, w) \<Rightarrow>
        if \<not> ok then Some (False, it\<lparr>si_block := None, si_valid := False\<rparr>, w)
        else case sys_ok w of (ok, w) \<Rightarrow>
        if \<not> ok then Some (False, it\<lparr>si_valid := False\<rparr>, w)
        else case read_exact (sr_path (si_reader it)) (unat (ie_offset e)) size w of
          (None, w) \<Rightarrow> Some (False, it\<lparr>si_valid := False\<rparr>, w)
        | (Some block, w) \<Rightarrow>
            if size < 8 then Some (False, it\<lparr>si_block := Some block, si_valid := False\<rparr>, w)
            else do {
              num_restarts \<leftarrow> u32_at block (size - 8);
              Some (True, it\<lparr>si_block := Some block, si_data_end := size_sub (size - 8) (unat (num_restarts * 4)), si_pos := 0,
                             si_current_block := block_idx, si_key := None\<rparr>, w)
            }
      })"

definition parse_next_entry :: "sstable_iter \<Rightarrow> world \<Rightarrow> (bool \<times> sstable_iter \<times> world) option" where
  "parse_next_entry it w =
     (if si_pos it \<ge> si_data_end it then Some (False, it, w)
      else do {
        block \<leftarrow> si_block it;
        let pos = si_pos it;
        (n, shared) \<leftarrow> decode_varint block pos (size_sub (si_data_end it) pos);
        if n = 0 then Some (False, it, w)
        else do {
          let pos = pos + n;
          (n, unshared) \<leftarrow> decode_varint block pos (size_sub (si_data_end it) pos);
          if n = 0 then Some (False, it\<lparr>si_pos := pos\<rparr>, w)
          else do {
            let pos = pos + n;
            (n, val_len) \<leftarrow> decode_varint block pos (size_sub (si_data_end it) pos);
            if n = 0 then Some (False, it\<lparr>si_pos := pos\<rparr>, w)
            else do {
              let pos = pos + n;
              if pos \<ge> si_data_end it then Some (False, it\<lparr>si_pos := pos\<rparr>, w)
              else do {
                b \<leftarrow> byte_at block pos;
                let pos = pos + 1;
                let it = it\<lparr>si_pos := pos, si_deleted := (b \<noteq> 0)\<rparr>;
                if size_add (size_add pos (unat unshared)) (unat val_len) > si_data_end it then Some (False, it, w)
                else case malloc w of (ok, w) \<Rightarrow>
                  if \<not> ok then Some (False, it, w)
                  else do {
                    prefix \<leftarrow> copied_prefix (unat shared) (si_key it);
                    delta \<leftarrow> slice block pos (unat unshared);
                    let pos = pos + unat unshared;
                    let it = it\<lparr>si_pos := pos, si_key := Some (prefix @ delta)\<rparr>;
                    if val_len > 0 then
                      (case malloc w of (ok, w) \<Rightarrow>
                       if \<not> ok then Some (False, it\<lparr>si_value := None\<rparr>, w)
                       else do {
                         v \<leftarrow> slice block pos (unat val_len);
                         Some (True, it\<lparr>si_value := Some v, si_pos := pos + unat val_len\<rparr>, w)
                       })
                    else Some (True, it\<lparr>si_value := None\<rparr>, w)
                  }
              }
            }
          }
        }
      })"

definition sstable_iter_seek_to_first :: "sstable_iter \<Rightarrow> world \<Rightarrow> (sstable_iter \<times> world) option" where
  "sstable_iter_seek_to_first it w =
     (if sr_index (si_reader it) = [] then Some (it\<lparr>si_valid := False\<rparr>, w)
      else do {
        (ok, it, w) \<leftarrow> load_block it 0 w;
        if \<not> ok then Some (it, w)
        else do { (v, it, w) \<leftarrow> parse_next_entry it w; Some (it\<lparr>si_valid := v\<rparr>, w) }
      })"

definition sstable_iter_valid :: "sstable_iter \<Rightarrow> bool" where
  "sstable_iter_valid it = si_valid it"

definition sstable_iter_next :: "sstable_iter \<Rightarrow> world \<Rightarrow> (sstable_iter \<times> world) option" where
  "sstable_iter_next it w =
     (if \<not> si_valid it then Some (it, w)
      else do {
        (ok, it, w) \<leftarrow> parse_next_entry it w;
        if ok then Some (it, w)
        else if si_current_block it + 1 < length (sr_index (si_reader it)) then do {
          (ok, it, w) \<leftarrow> load_block it (si_current_block it + 1) w;
          if ok then do { (v, it, w) \<leftarrow> parse_next_entry it w; Some (it\<lparr>si_valid := v\<rparr>, w) }
          else Some (it\<lparr>si_valid := False\<rparr>, w)
        }
        else Some (it\<lparr>si_valid := False\<rparr>, w)
      })"

definition sstable_iter_key :: "sstable_iter \<Rightarrow> bytes option" where
  "sstable_iter_key it = (if si_valid it then si_key it else None)"

definition sstable_iter_value :: "sstable_iter \<Rightarrow> bytes option" where
  "sstable_iter_value it = (if si_valid it then si_value it else None)"

definition sstable_iter_is_deleted :: "sstable_iter \<Rightarrow> bool" where
  "sstable_iter_is_deleted it \<longleftrightarrow> si_valid it \<and> si_deleted it"

section \<open>Merging\<close>

text \<open>The heap holds indices of iterators; its length is \<^verbatim>\<open>heap_size\<close>.\<close>

record merge_iter =
  mi_iters :: "sstable_iter list"
  mi_heap :: "nat list"
  mi_cmp :: compare_fn

definition merge_compare :: "merge_iter \<Rightarrow> nat \<Rightarrow> nat \<Rightarrow> int option" where
  "merge_compare mi a b = do {
     ka \<leftarrow> sstable_iter_key (mi_iters mi ! a);
     kb \<leftarrow> sstable_iter_key (mi_iters mi ! b);
     Some (if mi_cmp mi ka kb \<noteq> 0 then mi_cmp mi ka kb else if a < b then 1 else -1)
   }"

text \<open>One round of \<^verbatim>\<open>heap_sift_down\<close>: the smallest of a position and its children.\<close>

definition heap_smallest :: "merge_iter \<Rightarrow> nat \<Rightarrow> nat option" where
  "heap_smallest mi idx = do {
     let h = mi_heap mi;
     let left = 2 * idx + 1;
     let right = 2 * idx + 2;
     s \<leftarrow> (if left < length h then do { c \<leftarrow> merge_compare mi (h ! left) (h ! idx); Some (if c < 0 then left else idx) }
          else Some idx);
     if right < length h then do { c \<leftarrow> merge_compare mi (h ! right) (h ! s); Some (if c < 0 then right else s) }
     else Some s
   }"

lemma heap_smallest_cases: "heap_smallest mi idx = Some s \<Longrightarrow> s = idx \<or> idx < s \<and> s < length (mi_heap mi)"
  by (auto simp: heap_smallest_def Let_def split: if_splits bind_splits)

function heap_sift_down :: "merge_iter \<Rightarrow> nat \<Rightarrow> merge_iter option" where
  "heap_sift_down mi idx =
     (case heap_smallest mi idx of
        None \<Rightarrow> None
      | Some s \<Rightarrow>
          if s = idx then Some mi
          else
            let h = mi_heap mi
            in heap_sift_down (mi\<lparr>mi_heap := h[idx := h ! s, s := h ! idx]\<rparr>) s)"
  by pat_completeness auto
termination
  by (relation "measure (\<lambda>(mi, idx). length (mi_heap mi) - idx)") (auto dest: heap_smallest_cases)

declare heap_sift_down.simps [simp del]

text \<open>The loop that builds the heap sifts the positions \<open>n - 1, ..., 0\<close>.\<close>

fun build_heap :: "merge_iter \<Rightarrow> nat \<Rightarrow> merge_iter option" where
  "build_heap mi 0 = Some mi"
| "build_heap mi (Suc n) = do { mi \<leftarrow> heap_sift_down mi n; build_heap mi n }"

definition merge_iter_create :: "sstable_iter list \<Rightarrow> compare_fn \<Rightarrow> world \<Rightarrow> (merge_iter option \<times> world) option" where
  "merge_iter_create iters cmp w =
     (case malloc w of (ok, w) \<Rightarrow>
      if \<not> ok then Some (None, w)
      else case malloc w of (ok, w) \<Rightarrow>
      if \<not> ok then Some (None, w)
      else do {
        let heap = filter (\<lambda>i. sstable_iter_valid (iters ! i)) [0..<length iters];
        mi \<leftarrow> build_heap \<lparr>mi_iters = iters, mi_heap = heap, mi_cmp = cmp\<rparr> (length heap div 2);
        mi \<leftarrow> (if heap \<noteq> [] then heap_sift_down mi 0 else Some mi);
        Some (Some mi, w)
      })"

definition merge_iter_valid :: "merge_iter \<Rightarrow> bool" where
  "merge_iter_valid mi \<longleftrightarrow> mi_heap mi \<noteq> []"

definition merge_iter_current :: "merge_iter \<Rightarrow> (bytes \<times> bytes option \<times> bool) option" where
  "merge_iter_current mi = do {
     let it = mi_iters mi ! (mi_heap mi ! 0);
     k \<leftarrow> sstable_iter_key it;
     Some (k, sstable_iter_value it, sstable_iter_is_deleted it)
   }"

definition pop_heap :: "nat list \<Rightarrow> nat list" where
  "pop_heap h = (if length h \<le> 1 then [] else (butlast h)[0 := last h])"

text \<open>The loop of \<^verbatim>\<open>merge_iter_next\<close>: every iterator that stands at the saved key moves on.\<close>

partial_function (option) skip_key_loop :: "bytes \<Rightarrow> merge_iter \<Rightarrow> world \<Rightarrow> (merge_iter \<times> world) option" where
  "skip_key_loop saved mi w =
     (if mi_heap mi = [] then Some (mi, w)
      else do {
        let top = mi_heap mi ! 0;
        key \<leftarrow> sstable_iter_key (mi_iters mi ! top);
        if mi_cmp mi key saved \<noteq> 0 then Some (mi, w)
        else do {
          (it, w) \<leftarrow> sstable_iter_next (mi_iters mi ! top) w;
          let mi = mi\<lparr>mi_iters := (mi_iters mi)[top := it]\<rparr>;
          let mi = (if sstable_iter_valid it then mi else mi\<lparr>mi_heap := pop_heap (mi_heap mi)\<rparr>);
          mi \<leftarrow> (if mi_heap mi \<noteq> [] then heap_sift_down mi 0 else Some mi);
          skip_key_loop saved mi w
        }
      })"

declare skip_key_loop.simps [code]

definition merge_iter_next :: "merge_iter \<Rightarrow> world \<Rightarrow> (merge_iter \<times> world) option" where
  "merge_iter_next mi w =
     (if mi_heap mi = [] then Some (mi, w)
      else do {
        key \<leftarrow> sstable_iter_key (mi_iters mi ! (mi_heap mi ! 0));
        case malloc w of (ok, w) \<Rightarrow>
        if \<not> ok then Some (mi, w) else skip_key_loop key mi w
      })"

section \<open>Compacting a level\<close>

fun pick_from :: "level_manager \<Rightarrow> int list \<Rightarrow> int" where
  "pick_from lm [] = -1"
| "pick_from lm (l # ls) = (if level_needs_compaction lm l then l else pick_from lm ls)"

definition compact_pick_level :: "level_manager \<Rightarrow> int" where
  "compact_pick_level lm = pick_from lm [0 .. MAX_LEVELS - 2]"

definition find_meta :: "level_manager \<Rightarrow> int \<Rightarrow> u64 \<Rightarrow> sstable_meta option" where
  "find_meta lm level n =
     (case file_index (lv_files (level_at lm level)) n of None \<Rightarrow> None | Some i \<Rightarrow> Some (lv_files (level_at lm level) ! i))"

text \<open>The range of keys of the files of level 0; the pointer is null until the first file with a key.\<close>

fun key_span :: "compare_fn \<Rightarrow> sstable_meta list \<Rightarrow> bytes option \<times> bytes option \<Rightarrow> bytes option \<times> bytes option" where
  "key_span cmp [] span = span"
| "key_span cmp (m # ms) (min_key, max_key) =
     key_span cmp ms
       (if min_key = None \<or> cmp (opt_bytes (sm_min_key m)) (opt_bytes min_key) < 0 then sm_min_key m else min_key,
        if max_key = None \<or> cmp (opt_bytes (sm_max_key m)) (opt_bytes max_key) > 0 then sm_max_key m else max_key)"

text \<open>An iterator at the first entry of each file found; one that cannot be allocated is left out.\<close>

fun open_iters :: "level_manager \<Rightarrow> int \<Rightarrow> u64 list \<Rightarrow> world \<Rightarrow> (sstable_iter list \<times> world) option" where
  "open_iters lm level [] w = Some ([], w)"
| "open_iters lm level (n # ns) w =
     (case find_meta lm level n of
        None \<Rightarrow> open_iters lm level ns w
      | Some m \<Rightarrow>
          (case sstable_iter_create (sm_reader m) w of
             (None, w) \<Rightarrow> open_iters lm level ns w
           | (Some it, w) \<Rightarrow> do {
               (it, w) \<leftarrow> sstable_iter_seek_to_first it w;
               (its, w) \<leftarrow> open_iters lm level ns w;
               Some (it # its, w)
             }))"

fun count_entries :: "level_manager \<Rightarrow> int \<Rightarrow> u64 list \<Rightarrow> u64" where
  "count_entries lm level [] = 0"
| "count_entries lm level (n # ns) =
     (case find_meta lm level n of None \<Rightarrow> 0 | Some m \<Rightarrow> sstable_reader_num_entries (sm_reader m)) + count_entries lm level ns"

text \<open>The loop that writes the merged entries. When the key cannot be saved the merge iterator does not
  move, and the entry is written again.\<close>

partial_function (option) merge_loop ::
  "bool \<Rightarrow> sstable_writer \<Rightarrow> merge_iter \<Rightarrow> world \<Rightarrow> (status_t \<times> sstable_writer \<times> world) option"
where
  "merge_loop bottommost sw mi w =
     (if \<not> merge_iter_valid mi then Some (STATUS_OK, sw, w)
      else do {
        (key, val, deleted) \<leftarrow> merge_iter_current mi;
        (st, sw, w) \<leftarrow> (if deleted \<and> bottommost then Some (STATUS_OK, sw, w)
                        else sstable_writer_add sw key val (length (opt_bytes val)) deleted w);
        if st \<noteq> STATUS_OK then Some (st, sw, w)
        else do {
          (mi, w) \<leftarrow> merge_iter_next mi w;
          merge_loop bottommost sw mi w
        }
      })"

declare merge_loop.simps [code]

fun remove_files :: "level_manager \<Rightarrow> int \<Rightarrow> u64 list \<Rightarrow> world \<Rightarrow> level_manager \<times> world" where
  "remove_files lm level [] w = (lm, w)"
| "remove_files lm level (n # ns) w =
     (case find_meta lm level n of
        None \<Rightarrow> remove_files lm level ns w
      | Some m \<Rightarrow>
          (case malloc w of (ok, w) \<Rightarrow>
           let lm = snd (level_remove_sstable lm level n)
           in remove_files lm level ns (if ok then sys_unlink (sm_path m) w else w)))"

definition compact_level :: "level_manager \<Rightarrow> int \<Rightarrow> world \<Rightarrow> (status_t \<times> level_manager \<times> world) option" where
  "compact_level lm level w =
     (if level < 0 \<or> level \<ge> MAX_LEVELS - 1 then Some (STATUS_INVALID_ARG, lm, w)
      else if lv_files (level_at lm level) = [] then Some (STATUS_OK, lm, w)
      else case malloc w of (ok, w) \<Rightarrow>
      if \<not> ok then Some (STATUS_NO_MEMORY, lm, w)
      else do {
        let src = lv_files (level_at lm level);
        let input = (if level = 0 then src else take 1 src);
        let input_files = map sm_file_number input;
        let span = (if level = 0 then key_span (lm_cmp lm) src (None, None) else (sm_min_key (hd src), sm_max_key (hd src)));
        let target_level = level + 1;
        case level_find_overlapping lm target_level (fst span) (snd span) w of (target_files, w) \<Rightarrow>
        case malloc w of (ok, w) \<Rightarrow>
        if \<not> ok then Some (STATUS_NO_MEMORY, lm, w)
        else do {
          (its1, w) \<leftarrow> open_iters lm level input_files w;
          (its2, w) \<leftarrow> open_iters lm target_level target_files w;
          (merge, w) \<leftarrow> merge_iter_create (its1 @ its2) (lm_cmp lm) w;
          case merge of
            None \<Rightarrow> Some (STATUS_NO_MEMORY, lm, w)
          | Some mi \<Rightarrow> do {
              db_path \<leftarrow> lm_db_path lm;
              let output_file_num = level_next_file_number lm;
              let output_path = path_buffer (sst_name db_path output_file_num);
              let estimated = count_entries lm level input_files + count_entries lm target_level target_files;
              case sstable_writer_create output_path estimated (Some (lm_cmp lm)) w of
                (None, w) \<Rightarrow> Some (STATUS_IO_ERROR, lm, w)
              | (Some sw, w) \<Rightarrow> do {
                  (st, sw, w) \<leftarrow> merge_loop (target_level = MAX_LEVELS - 1) sw mi w;
                  if st \<noteq> STATUS_OK then Some (st, lm, sstable_writer_abort sw w)
                  else do {
                    (st, w) \<leftarrow> sstable_writer_finish sw w;
                    if st \<noteq> STATUS_OK then Some (st, lm, w)
                    else case remove_files lm level input_files w of (lm, w) \<Rightarrow>
                      case remove_files lm target_level target_files w of (lm, w) \<Rightarrow>
                      do {
                        (reader, w) \<leftarrow> sstable_reader_open output_path (Some (lm_cmp lm)) w;
                        case reader of
                          None \<Rightarrow> Some (STATUS_IO_ERROR, lm, w)
                        | Some r \<Rightarrow> Some (level_add_sstable lm target_level output_file_num output_path r w)
                      }
                  }
                }
            }
        }
      })"

end
