(* ===== verification/SE_Database.thy ===== *)
theory SE_Database
  imports SE_Storage SE_Compact
begin

text \<open>
  The rest of \<^verbatim>\<open>storage-engine/src/storage.c\<close>: what it does with the levels of tables below the
  memtable. Opening recovers log and manifest, a lookup goes from the memtable to the levels, a flush
  writes the memtable to a new table of level 0 and may start a compaction.
\<close>

section \<open>Opening\<close>

text \<open>\<^verbatim>\<open>stat\<close> finds a directory, or \<^verbatim>\<open>mkdir\<close> makes one.\<close>

definition ensure_directory :: "world \<Rightarrow> bool \<times> world" where
  "ensure_directory w = (case sys_ok w of (ok, w) \<Rightarrow> if ok then (True, w) else sys_ok w)"

definition wal_file :: "string \<Rightarrow> string" where
  "wal_file path = path @ ''/wal.log''"

text \<open>\<open>names\<close> is the listing of the directory, for a database without a manifest.\<close>

definition open_log ::
  "string list \<Rightarrow> string \<Rightarrow> level_manager storage \<Rightarrow> world \<Rightarrow> (level_manager storage option \<times> world) option"
where
  "open_log names path db w =
     (case ensure_directory w of (ok, w) \<Rightarrow>
      if \<not> ok then Some (None, w)
      else case malloc w of (ok, w) \<Rightarrow>
      if \<not> ok then Some (None, w)
      else do {
        (status, mt, w) \<leftarrow> wal_recover (Some (wal_file path)) recover_callback (db_memtable db) w;
        if status \<noteq> STATUS_OK \<and> status \<noteq> STATUS_NOT_FOUND then Some (None, w)
        else case wal_open (Some (wal_file path)) (so_sync_writes (db_opts db)) w of
            (None, w) \<Rightarrow> Some (None, w)
          | (Some l, w) \<Rightarrow> do {
              levels \<leftarrow> db_levels db;
              (status, levels, w) \<leftarrow> manifest_recover names path levels w;
              if status \<noteq> STATUS_OK then Some (None, w)
              else Some (Some (db\<lparr>db_memtable := mt, db_wal := Some l, db_levels := Some levels\<rparr>), w)
            }
      })"

definition storage_open ::
  "string list \<Rightarrow> string option \<Rightarrow> storage_opts option \<Rightarrow> world \<Rightarrow> (level_manager storage option \<times> world) option"
where
  "storage_open names path opts w =
     (case malloc w of (ok, w) \<Rightarrow>
      if \<not> ok then Some (None, w)
      else case malloc_if (path \<noteq> None) w of (ok, w) \<Rightarrow>
      if \<not> ok then Some (None, w)
      else
        let o' = (case opts of Some o' \<Rightarrow> o' | None \<Rightarrow> STORAGE_OPTS_DEFAULT)
        in case memtable_create (so_memtable_size o') (so_comparator o') w of
             (None, w) \<Rightarrow> Some (None, w)
           | (Some mt, w) \<Rightarrow>
             (case level_manager_create path (so_comparator o') w of
                (None, w) \<Rightarrow> Some (None, w)
              | (Some levels, w) \<Rightarrow>
                  let db = \<lparr>db_path = path, db_opts = o', db_memtable = Some mt, db_wal = None, db_levels = Some levels\<rparr>
                  in case path of
                       None \<Rightarrow> Some (Some db, w)
                     | Some p \<Rightarrow> open_log names p db w))"

section \<open>Lookup\<close>

definition storage_get ::
  "level_manager storage \<Rightarrow> bytes \<Rightarrow> world \<Rightarrow> (status_t \<times> bytes option \<times> world) option"
where
  "storage_get db key w = do {
     (status, found) \<leftarrow> memtable_get (db_memtable db) key;
     if status = STATUS_OK then do {
       (p, n) \<leftarrow> found;
       Some (case malloc w of (ok, w) \<Rightarrow>
               if \<not> ok then (STATUS_NO_MEMORY, None, w) else (STATUS_OK, Some (take n (opt_bytes p)), w))
     }
     else if status \<noteq> STATUS_NOT_FOUND then Some (status, None, w)
     else case db_levels db of
         None \<Rightarrow> Some (STATUS_NOT_FOUND, None, w)
       | Some levels \<Rightarrow> do {
           ((status, val, deleted), w) \<leftarrow> level_get levels key w;
           Some (if status = STATUS_OK
                 then if deleted then (STATUS_NOT_FOUND, None, w) else (STATUS_OK, val, w)
                 else if status \<noteq> STATUS_NOT_FOUND then (status, None, w)
                 else (STATUS_NOT_FOUND, None, w))
         }
   }"

section \<open>Compaction and flush\<close>

definition storage_compact ::
  "level_manager storage \<Rightarrow> world \<Rightarrow> (status_t \<times> level_manager storage \<times> world) option"
where
  "storage_compact db w =
     (case db_levels db of
        None \<Rightarrow> Some (STATUS_INVALID_ARG, db, w)
      | Some levels \<Rightarrow>
          let level = compact_pick_level levels
          in if level \<ge> 0 then do {
               (status, levels, w) \<leftarrow> compact_level levels level w;
               Some (status, db\<lparr>db_levels := Some levels\<rparr>, w)
             }
             else Some (STATUS_OK, db, w))"

text \<open>The loop of a flush: every entry of the memtable, tombstones included, goes to the writer.\<close>

partial_function (option) flush_loop ::
  "memtable \<Rightarrow> skiplist_iter \<Rightarrow> sstable_writer \<Rightarrow> world \<Rightarrow> (status_t \<times> sstable_writer \<times> world) option"
where
  "flush_loop mt it sw w =
     (if \<not> memtable_iter_valid it then Some (STATUS_OK, sw, w)
      else do {
        key \<leftarrow> memtable_iter_key mt it;
        (val, val_len) \<leftarrow> memtable_iter_value mt it;
        deleted \<leftarrow> memtable_iter_is_deleted mt it;
        (status, sw, w) \<leftarrow> sstable_writer_add sw key val val_len deleted w;
        if status \<noteq> STATUS_OK then Some (status, sw, w)
        else do {
          it \<leftarrow> memtable_iter_next mt it;
          flush_loop mt it sw w
        }
      })"

declare flush_loop.simps [code]

text \<open>Writing the table: the first half of \<^verbatim>\<open>storage_flush\<close>, up to the finished and reopened file.\<close>

definition flush_table ::
  "level_manager storage \<Rightarrow> memtable \<Rightarrow> string \<Rightarrow> world \<Rightarrow> ((status_t + sstable_reader) \<times> world) option"
where
  "flush_table db mt sst_path w =
     (case sstable_writer_create sst_path (of_nat (memtable_count (db_memtable db))) (so_comparator (db_opts db)) w of
        (None, w) \<Rightarrow> Some (Inl STATUS_IO_ERROR, w)
      | (Some sw, w) \<Rightarrow>
          (case memtable_iter_create (db_memtable db) w of
             (None, w) \<Rightarrow> Some (Inl STATUS_NO_MEMORY, sstable_writer_abort sw w)
           | (Some _, w) \<Rightarrow> do {
               it \<leftarrow> memtable_iter_seek_to_first mt;
               (status, sw, w) \<leftarrow> flush_loop mt it sw w;
               if status \<noteq> STATUS_OK then Some (Inl status, sstable_writer_abort sw w)
               else do {
                 (status, w) \<leftarrow> sstable_writer_finish sw w;
                 if status \<noteq> STATUS_OK then Some (Inl status, w)
                 else do {
                   (reader, w) \<leftarrow> sstable_reader_open sst_path (so_comparator (db_opts db)) w;
                   Some (case reader of None \<Rightarrow> (Inl STATUS_IO_ERROR, w) | Some r \<Rightarrow> (Inr r, w))
                 }
               }
             }))"

text \<open>The second half: the memtable starts anew and the log is closed and opened again, with its content.
  When the path of the log cannot be allocated, the closed log stays in the database.\<close>

definition reset_log ::
  "string \<Rightarrow> level_manager storage \<Rightarrow> world \<Rightarrow> status_t \<times> level_manager storage \<times> world"
where
  "reset_log path db w =
     (if db_wal db = None then (STATUS_OK, db, w)
      else case malloc w of (ok, w) \<Rightarrow>
      if \<not> ok then (STATUS_NO_MEMORY, db, w)
      else case wal_open (Some (wal_file path)) (so_sync_writes (db_opts db)) w of (l, w) \<Rightarrow>
        (if l = None then STATUS_IO_ERROR else STATUS_OK, db\<lparr>db_wal := l\<rparr>, w))"

definition storage_flush ::
  "level_manager storage \<Rightarrow> world \<Rightarrow> (status_t \<times> level_manager storage \<times> world) option"
where
  "storage_flush db w =
     (case (db_path db, db_levels db) of
        (Some path, Some levels) \<Rightarrow>
          if memtable_count (db_memtable db) = 0 then Some (STATUS_OK, db, w)
          else do {
            mt \<leftarrow> db_memtable db;
            let file_num = level_next_file_number levels;
            case malloc w of (ok, w) \<Rightarrow>
            if \<not> ok then Some (STATUS_NO_MEMORY, db, w)
            else do {
              let sst_path = sst_name path file_num;
              (r, w) \<leftarrow> flush_table db mt sst_path w;
              case r of
                Inl status \<Rightarrow> Some (status, db, w)
              | Inr reader \<Rightarrow>
                  (case level_add_sstable levels 0 file_num sst_path reader w of (status, levels, w) \<Rightarrow>
                   let db = db\<lparr>db_levels := Some levels\<rparr>
                   in if status \<noteq> STATUS_OK then Some (status, db, w)
                      else case manifest_log_add_file path 0 file_num w of (_, w) \<Rightarrow>
                        case manifest_log_next_file_num path (level_next_file_number levels) w of (_, w) \<Rightarrow>
                        case memtable_create (so_memtable_size (db_opts db)) (so_comparator (db_opts db)) w of (mt, w) \<Rightarrow>
                        let db = db\<lparr>db_memtable := mt\<rparr>
                        in if mt = None then Some (STATUS_NO_MEMORY, db, w)
                           else case reset_log path db w of (status, db, w) \<Rightarrow>
                             if status \<noteq> STATUS_OK then Some (status, db, w)
                             else if level_needs_compaction levels 0 then do {
                               (_, db, w) \<leftarrow> storage_compact db w;
                               Some (STATUS_OK, db, w)
                             }
                             else Some (STATUS_OK, db, w))
            }
          }
      | _ \<Rightarrow> Some (STATUS_INVALID_ARG, db, w))"

end
