(* ===== verification/Tx_Manager.thy ===== *)
theory Tx_Manager
  imports Tx_Wal SE_Database
begin

text \<open>
  The transaction manager (\<^verbatim>\<open>tx-manager/src/tx_manager.c\<close>, \<^verbatim>\<open>conflict.c\<close>,
  \<^verbatim>\<open>visibility.c\<close>, \<^verbatim>\<open>gc.c\<close>, \<^verbatim>\<open>recovery.c\<close>) over the storage
  engine.

  Transactions are objects on a heap inside the manager: a handle is a position, a freed object is
  \<open>None\<close> and using it is undefined behaviour. The mutex makes the operations that take it atomic
  steps; the reads and writes of a transaction belong to one thread.
\<close>

definition TX_DEFAULT_MAX_ACTIVE_TXS :: nat where "TX_DEFAULT_MAX_ACTIVE_TXS = 64"

record tx_manager_opts =
  max_active_txs :: nat
  sync_on_commit :: bool

record 'l tx_manager =
  tm_storage :: "'l storage"
  tm_path :: string
  tm_wal :: string
  next_tx_id :: u64
  next_ts :: u64
  active_txs :: "nat option list"
  active_count :: nat
  tm_opts :: tx_manager_opts
  tm_heap :: "tx option list"

definition default_opts :: tx_manager_opts where
  "default_opts = \<lparr>max_active_txs = TX_DEFAULT_MAX_ACTIVE_TXS, sync_on_commit = True\<rparr>"

section \<open>Opening\<close>

text \<open>\<open>names\<close> is the listing of the directory that \<^const>\<open>storage_open\<close> may read.\<close>

definition tx_manager_open ::
  "string list \<Rightarrow> string \<Rightarrow> tx_manager_opts option \<Rightarrow> world \<Rightarrow> (level_manager tx_manager option \<times> world) option"
where
  "tx_manager_open names path opts w =
     (case malloc w of (ok, w) \<Rightarrow>
      if \<not> ok then Some (None, w)
      else case malloc w of (ok, w) \<Rightarrow>
      if \<not> ok then Some (None, w)
      else do {
        let opts = (case opts of Some o' \<Rightarrow> o' | None \<Rightarrow> default_opts);
        (db, w) \<leftarrow> storage_open names (Some path) None w;
        Some (case db of
            None \<Rightarrow> (None, w)
          | Some db \<Rightarrow>
              (case malloc w of (ok, w) \<Rightarrow>
               if \<not> ok then (None, w)
               else case tx_wal_open path w of
                 (None, w) \<Rightarrow> (None, w)
               | (Some wal, w) \<Rightarrow>
                   (Some \<lparr>tm_storage = db, tm_path = path, tm_wal = wal, next_tx_id = 1, next_ts = 1,
                          active_txs = replicate (max_active_txs opts) None, active_count = 0,
                          tm_opts = opts, tm_heap = []\<rparr>, w)))
      })"

section \<open>Active transactions\<close>

fun first_free :: "nat option list \<Rightarrow> nat \<Rightarrow> nat option" where
  "first_free [] i = None"
| "first_free (a # as) i = (if a = None then Some i else first_free as (i + 1))"

definition add_active_tx :: "'l tx_manager \<Rightarrow> nat \<Rightarrow> 'l tx_manager" where
  "add_active_tx tm h =
     (case first_free (active_txs tm) 0 of
        None \<Rightarrow> tm
      | Some i \<Rightarrow> tm\<lparr>active_txs := (active_txs tm)[i := Some h], active_count := active_count tm + 1\<rparr>)"

fun slot_of :: "nat option list \<Rightarrow> nat \<Rightarrow> nat \<Rightarrow> nat option" where
  "slot_of [] h i = None"
| "slot_of (a # as) h i = (if a = Some h then Some i else slot_of as h (i + 1))"

definition remove_active_tx :: "'l tx_manager \<Rightarrow> nat \<Rightarrow> 'l tx_manager" where
  "remove_active_tx tm h =
     (case slot_of (active_txs tm) h 0 of
        None \<Rightarrow> tm
      | Some i \<Rightarrow> tm\<lparr>active_txs := (active_txs tm)[i := None], active_count := active_count tm - 1\<rparr>)"

definition tx_at :: "'l tx_manager \<Rightarrow> nat \<Rightarrow> tx option" where
  "tx_at tm h = (if h < length (tm_heap tm) then tm_heap tm ! h else None)"

definition set_tx :: "'l tx_manager \<Rightarrow> nat \<Rightarrow> tx option \<Rightarrow> 'l tx_manager" where
  "set_tx tm h t = tm\<lparr>tm_heap := (tm_heap tm)[h := t]\<rparr>"

definition tx_begin :: "'l tx_manager \<Rightarrow> world \<Rightarrow> nat option \<times> 'l tx_manager \<times> world" where
  "tx_begin tm w =
     (if active_count tm \<ge> length (active_txs tm) then (None, tm, w)
      else
        let i = next_tx_id tm; ts = next_ts tm;
            tm = tm\<lparr>next_tx_id := next_tx_id tm + 1, next_ts := next_ts tm + 1\<rparr>
        in case tx_create i ts w of
             (None, w) \<Rightarrow> (None, tm, w)
           | (Some tx, w) \<Rightarrow>
               (case tx_wal_log_begin (tm_wal tm) tx w of (st, w) \<Rightarrow>
                let h = length (tm_heap tm);
                    tm = tm\<lparr>tm_heap := tm_heap tm @ [Some tx]\<rparr>
                in (Some h, add_active_tx tm h, w)))"

definition tx_abort :: "'l tx_manager \<Rightarrow> nat \<Rightarrow> world \<Rightarrow> (tx_status_t \<times> 'l tx_manager \<times> world) option" where
  "tx_abort tm h w = do {
     tx \<leftarrow> tx_at tm h;
     if tx_state tx \<noteq> TX_STATE_ACTIVE then Some (TX_ABORTED, tm, w)
     else
       let tx = tx_clear_writes (tx\<lparr>tx_state := TX_STATE_ABORTED\<rparr>);
           tm = remove_active_tx tm h
       in case tx_wal_log_abort (tm_wal tm) tx w of (st, w) \<Rightarrow> Some (TX_OK, set_tx tm h None, w)
   }"

section \<open>Conflicts\<close>

definition get_latest_commit_ts :: "'l tx_manager \<Rightarrow> bytes \<Rightarrow> world \<Rightarrow> ((tx_status_t \<times> u64) \<times> world) option" where
  "get_latest_commit_ts tm key w =
     (case storage_iter_create (tm_storage tm) w of
        (None, w) \<Rightarrow> Some ((TX_IO_ERROR, 0), w)
      | (Some it, w) \<Rightarrow>
          (case version_encode_key key UINT64_MAX w of ((st, prefix), w) \<Rightarrow>
           if st \<noteq> TX_OK then Some ((st, 0), w)
           else do {
             mt \<leftarrow> db_memtable (tm_storage tm);
             it \<leftarrow> storage_iter_seek mt prefix it;
             if \<not> storage_iter_valid it then Some ((TX_OK, 0), w)
             else do {
               found \<leftarrow> storage_iter_key mt it;
               case version_decode_key found of (st, orig, version) \<Rightarrow>
                 Some ((TX_OK, if st = TX_OK \<and> orig = key then version else 0), w)
             }
           }))"

fun check_writes :: "'l tx_manager \<Rightarrow> u64 \<Rightarrow> write_entry list \<Rightarrow> world \<Rightarrow> (tx_status_t \<times> world) option" where
  "check_writes tm ts [] w = Some (TX_OK, w)"
| "check_writes tm ts (e # es) w = do {
     ((st, latest), w) \<leftarrow> get_latest_commit_ts tm (we_key e) w;
     if st \<noteq> TX_OK then Some (st, w)
     else if latest > ts then Some (TX_CONFLICT, w)
     else check_writes tm ts es w
   }"

definition check_write_conflicts :: "'l tx_manager \<Rightarrow> tx \<Rightarrow> world \<Rightarrow> (tx_status_t \<times> world) option" where
  "check_write_conflicts tm tx w = check_writes tm (start_ts tx) (write_set tx) w"

section \<open>Commit\<close>

text \<open>A buffered value that was lost when an update ran out of memory (a null pointer with a positive
  length) is read outside any object when it is applied.\<close>

fun apply_writes ::
  "'l storage \<Rightarrow> u64 \<Rightarrow> write_entry list \<Rightarrow> world \<Rightarrow> (tx_status_t \<times> 'l storage \<times> world) option"
where
  "apply_writes db ts [] w = Some (TX_OK, db, w)"
| "apply_writes db ts (e # es) w =
     (case version_encode_key (we_key e) ts w of ((st, vk), w) \<Rightarrow>
      if st \<noteq> TX_OK then Some (st, db, w)
      else do {
        val \<leftarrow> (if we_is_delete e then Some (Some []) else if we_value e = None \<and> we_value_len e > 0 then None
                else Some (we_value e));
        (sst, db, w) \<leftarrow> storage_put db vk val w;
        if sst \<noteq> STATUS_OK then Some (TX_IO_ERROR, db, w)
        else apply_writes db ts es w
      })"

definition tx_commit :: "'l tx_manager \<Rightarrow> nat \<Rightarrow> world \<Rightarrow> (tx_status_t \<times> 'l tx_manager \<times> world) option" where
  "tx_commit tm h w = do {
     tx \<leftarrow> tx_at tm h;
     if tx_state tx \<noteq> TX_STATE_ACTIVE then Some (TX_ABORTED, tm, w)
     else do {
       (conflict_st, w) \<leftarrow> check_write_conflicts tm tx w;
       if conflict_st = TX_CONFLICT then Some (TX_CONFLICT, set_tx (remove_active_tx tm h) h None, w)
       else do {
         let ts = next_ts tm;
         let tx = tx\<lparr>commit_ts := ts\<rparr>;
         let tm = set_tx (tm\<lparr>next_ts := next_ts tm + 1\<rparr>) h (Some tx);
         (st, db, w) \<leftarrow> apply_writes (tm_storage tm) ts (write_set tx) w;
         let tm = tm\<lparr>tm_storage := db\<rparr>;
         if st \<noteq> TX_OK then Some (st, tm, w)
         else
           (let tx = tx\<lparr>tx_state := TX_STATE_COMMITTED\<rparr>;
                tm = remove_active_tx tm h
            in case tx_wal_log_commit (tm_wal tm) tx w of (st, w) \<Rightarrow>
               case (if sync_on_commit (tm_opts tm) then tx_wal_sync (tm_wal tm) w else (TX_OK, w)) of (st, w) \<Rightarrow>
               Some (TX_OK, set_tx tm h None, w))
       }
     }
   }"

section \<open>Reads and writes of a transaction\<close>

text \<open>The value pointer is not null.\<close>

definition tx_put ::
  "'l tx_manager \<Rightarrow> nat \<Rightarrow> bytes \<Rightarrow> bytes \<Rightarrow> world \<Rightarrow> (tx_status_t \<times> 'l tx_manager \<times> world) option"
where
  "tx_put tm h key value w = do {
     tx \<leftarrow> tx_at tm h;
     if tx_state tx \<noteq> TX_STATE_ACTIVE then Some (TX_ABORTED, tm, w)
     else case tx_add_write tx key (Some value) False w of (st, tx, w) \<Rightarrow> Some (st, set_tx tm h (Some tx), w)
   }"

definition tx_delete ::
  "'l tx_manager \<Rightarrow> nat \<Rightarrow> bytes \<Rightarrow> world \<Rightarrow> (tx_status_t \<times> 'l tx_manager \<times> world) option"
where
  "tx_delete tm h key w = do {
     tx \<leftarrow> tx_at tm h;
     if tx_state tx \<noteq> TX_STATE_ACTIVE then Some (TX_ABORTED, tm, w)
     else case tx_add_write tx key None True w of (st, tx, w) \<Rightarrow> Some (st, set_tx tm h (Some tx), w)
   }"

partial_function (option) find_visible ::
  "memtable \<Rightarrow> bytes \<Rightarrow> u64 \<Rightarrow> skiplist_iter \<Rightarrow> world \<Rightarrow> ((tx_status_t \<times> bytes option) \<times> world) option"
where
  "find_visible mt key ts it w =
     (if \<not> storage_iter_valid it then Some ((TX_NOT_FOUND, None), w)
      else do {
        found \<leftarrow> storage_iter_key mt it;
        case version_decode_key found of (st, orig, version) \<Rightarrow>
        if st \<noteq> TX_OK then do { it \<leftarrow> storage_iter_next mt it; find_visible mt key ts it w }
        else if orig \<noteq> key then Some ((TX_NOT_FOUND, None), w)
        else if version \<le> ts then do {
          (p, n) \<leftarrow> storage_iter_value mt it;
          if n = 0 then Some ((TX_NOT_FOUND, None), w)
          else case malloc w of (ok, w) \<Rightarrow>
            Some (if \<not> ok then (TX_NO_MEMORY, None) else (TX_OK, Some (take n (opt_bytes p))), w)
        }
        else do { it \<leftarrow> storage_iter_next mt it; find_visible mt key ts it w }
      })"

declare find_visible.simps [code]

definition tx_get :: "'l tx_manager \<Rightarrow> nat \<Rightarrow> bytes \<Rightarrow> world \<Rightarrow> ((tx_status_t \<times> bytes option) \<times> world) option" where
  "tx_get tm h key w = do {
     tx \<leftarrow> tx_at tm h;
     if tx_state tx \<noteq> TX_STATE_ACTIVE then Some ((TX_ABORTED, None), w)
     else case tx_find_write tx key of
       Some i \<Rightarrow>
         let local = write_set tx ! i
         in if we_is_delete local then Some ((TX_NOT_FOUND, None), w)
            else (case malloc w of (ok, w) \<Rightarrow>
              if \<not> ok then Some ((TX_NO_MEMORY, None), w)
              else case we_value local of
                Some v \<Rightarrow> Some ((TX_OK, Some (take (we_value_len local) v)), w)
              | None \<Rightarrow> if we_value_len local = 0 then Some ((TX_OK, Some []), w) else None)
     | None \<Rightarrow>
         (case storage_iter_create (tm_storage tm) w of
            (None, w) \<Rightarrow> Some ((TX_IO_ERROR, None), w)
          | (Some it, w) \<Rightarrow>
              (case version_encode_key key (start_ts tx) w of ((st, prefix), w) \<Rightarrow>
               if st \<noteq> TX_OK then Some ((st, None), w)
               else do {
                 mt \<leftarrow> db_memtable (tm_storage tm);
                 it \<leftarrow> storage_iter_seek mt prefix it;
                 find_visible mt key (start_ts tx) it w
               }))
   }"

section \<open>Visibility and garbage collection\<close>

definition is_version_visible :: "u64 \<Rightarrow> tx \<Rightarrow> bool" where
  "is_version_visible version_ts tx \<longleftrightarrow> version_ts \<le> start_ts tx"

fun min_start :: "'l tx_manager \<Rightarrow> nat option list \<Rightarrow> u64 \<Rightarrow> u64 option" where
  "min_start tm [] m = Some m"
| "min_start tm (None # as) m = min_start tm as m"
| "min_start tm (Some h # as) m = do {
     tx \<leftarrow> tx_at tm h;
     min_start tm as (if start_ts tx < m then start_ts tx else m)
   }"

definition get_min_active_snapshot :: "'l tx_manager \<Rightarrow> u64 option" where
  "get_min_active_snapshot tm = min_start tm (active_txs tm) UINT64_MAX"

definition tx_gc_safe_ts :: "'l tx_manager \<Rightarrow> u64 option" where
  "tx_gc_safe_ts tm = get_min_active_snapshot tm"

record tx_gc_stats =
  versions_scanned :: nat
  versions_removed :: nat

text \<open>The scan keeps the previous key (null at the start or after a failed allocation) and whether its
  version was safe.\<close>

partial_function (option) gc_scan ::
  "memtable \<Rightarrow> u64 \<Rightarrow> bytes option \<Rightarrow> bool \<Rightarrow> tx_gc_stats \<Rightarrow> skiplist_iter \<Rightarrow> world \<Rightarrow> (tx_gc_stats \<times> world) option"
where
  "gc_scan mt safe prev prev_safe stats it w =
     (if \<not> storage_iter_valid it then Some (stats, w)
      else do {
        let stats = stats\<lparr>versions_scanned := versions_scanned stats + 1\<rparr>;
        vkey \<leftarrow> storage_iter_key mt it;
        case version_decode_key vkey of (st, key, version) \<Rightarrow>
        if st \<noteq> TX_OK then do { it \<leftarrow> storage_iter_next mt it; gc_scan mt safe prev prev_safe stats it w }
        else if prev \<noteq> Some key then
          (case malloc w of (ok, w) \<Rightarrow>
            do { it \<leftarrow> storage_iter_next mt it;
                 gc_scan mt safe (if ok then Some key else None) (version \<le> safe) stats it w })
        else do {
          let stats = (if prev_safe \<and> version \<le> safe
                       then stats\<lparr>versions_removed := versions_removed stats + 1\<rparr> else stats);
          it \<leftarrow> storage_iter_next mt it;
          gc_scan mt safe prev (version \<le> safe) stats it w
        }
      })"

declare gc_scan.simps [code]

definition tx_gc_run :: "'l tx_manager \<Rightarrow> world \<Rightarrow> ((tx_status_t \<times> tx_gc_stats option) \<times> world) option" where
  "tx_gc_run tm w = do {
     safe \<leftarrow> tx_gc_safe_ts tm;
     let safe = (if safe = UINT64_MAX then next_ts tm - 1 else safe);
     case storage_iter_create (tm_storage tm) w of
       (None, w) \<Rightarrow> Some ((TX_IO_ERROR, None), w)
     | (Some it, w) \<Rightarrow> do {
         mt \<leftarrow> db_memtable (tm_storage tm);
         it \<leftarrow> storage_iter_seek_to_first mt;
         (stats, w) \<leftarrow> gc_scan mt safe None False \<lparr>versions_scanned = 0, versions_removed = 0\<rparr> it w;
         Some ((TX_OK, Some stats), w)
       }
   }"

section \<open>Recovery\<close>

definition tx_recover ::
  "'l tx_manager \<Rightarrow> world \<Rightarrow> (tx_status_t \<times> tx_recovery_result) \<times> 'l tx_manager \<times> world"
where
  "tx_recover tm w =
     (case malloc w of (ok, w) \<Rightarrow>
      if \<not> ok then ((TX_NO_MEMORY, no_recovery), tm, w)
      else case sys_open_read (tx_wal_path (tm_path tm)) w of (r, w) \<Rightarrow>
      if r \<noteq> Open_ok then ((TX_OK, no_recovery), tm, w)
      else case malloc w of (ok, w) \<Rightarrow>
      if \<not> ok then ((TX_NO_MEMORY, no_recovery), tm, w)
      else case scan_records ([], no_recovery) (file_bytes (tx_wal_path (tm_path tm)) w) w of ((tracked, res), w) \<Rightarrow>
        let tm = (if rr_max_tx_id res \<ge> next_tx_id tm then tm\<lparr>next_tx_id := rr_max_tx_id res + 1\<rparr> else tm);
            tm = (if rr_max_ts res \<ge> next_ts tm then tm\<lparr>next_ts := rr_max_ts res + 1\<rparr> else tm)
        in ((TX_OK, res), tm, w))"

end
