(* ===== verification/Tx_Store.thy ===== *)
theory Tx_Store
  imports Tx_Manager
begin

text \<open>
  What the transaction manager reads from the storage engine: the versions of a key in the content of
  the memtable, newest first, and the snapshot of it at a timestamp. The scans of
  \<^verbatim>\<open>tx_get\<close> and \<^verbatim>\<open>get_latest_commit_ts\<close> are shown to compute them for keys
  without zero bytes.
\<close>

text \<open>The versions of a key, in the order of the content.\<close>

definition versions :: "kv_list \<Rightarrow> bytes \<Rightarrow> (u64 \<times> bytes) list" where
  "versions m k = map (\<lambda>(ek, v, d). (snd (snd (version_decode_key ek)), v))
     (filter (\<lambda>(ek, v, d). fst (version_decode_key ek) = TX_OK \<and> fst (snd (version_decode_key ek)) = k) m)"

definition snapshot :: "kv_list \<Rightarrow> u64 \<Rightarrow> bytes \<Rightarrow> bytes option" where
  "snapshot m ts k = (case filter (\<lambda>(ver, v). ver \<le> ts) (versions m k) of [] \<Rightarrow> None | (ver, v) # _ \<Rightarrow> Some v)"

definition newest :: "kv_list \<Rightarrow> bytes \<Rightarrow> u64" where
  "newest m k = (case versions m k of [] \<Rightarrow> 0 | (ver, v) # _ \<Rightarrow> ver)"

text \<open>The content the manager writes: versions of plain keys, none deleted.\<close>

definition entry_ok :: "bytes \<times> bytes \<times> bool \<Rightarrow> bool" where
  "entry_ok e \<longleftrightarrow> (case e of (ek, v, d) \<Rightarrow> \<not> d \<and> (\<exists>k ts. plain_key k \<and> ek = encoded_key k ts))"

abbreviation kv_sorted :: "kv_list \<Rightarrow> bool" where
  "kv_sorted m \<equiv> sorted_wrt (\<lambda>x y. default_compare (fst x) (fst y) < 0) m"

definition versioned :: "kv_list \<Rightarrow> bool" where
  "versioned m \<longleftrightarrow> kv_sorted m \<and> (\<forall>e \<in> set m. entry_ok e)"

lemma decode_plain [simp]: "plain_key k \<Longrightarrow> version_decode_key (encoded_key k ts) = (TX_OK, k, ts)"
  by (simp add: plain_key_def version_decode_encode)

lemma entry_okE:
  assumes "entry_ok e"
  obtains k ts v where "e = (encoded_key k ts, v, False)" and "plain_key k"
  using assms by (cases e) (auto simp: entry_ok_def)

lemma versions_simps [simp]:
  "versions [] k = []"
  "plain_key k' \<Longrightarrow> versions ((encoded_key k' ts, v, d) # m) k = (if k' = k then (ts, v) # versions m k else versions m k)"
  "versions (m1 @ m2) k = versions m1 k @ versions m2 k"
  by (auto simp: versions_def)

lemma versions_mem:
  assumes "\<forall>e \<in> set m. entry_ok e" and "plain_key k"
  shows "(ts, v) \<in> set (versions m k) \<longleftrightarrow> (encoded_key k ts, v, False) \<in> set m"
  using assms(1)
proof (induction m)
  case Nil
  then show ?case by simp
next
  case (Cons e m)
  then obtain k' ts' v' where e: "e = (encoded_key k' ts', v', False)" "plain_key k'" by (auto elim: entry_okE)
  then show ?case using Cons by (auto simp: encoded_key_inj)
qed

lemma versions_none:
  assumes "\<forall>e \<in> set m. entry_ok e" and "\<And>ts v. (encoded_key k ts, v, False) \<notin> set m"
  shows "versions m k = []"
  using assms
proof (induction m)
  case Nil
  then show ?case by simp
next
  case (Cons e m)
  then obtain k' ts' v' where e: "e = (encoded_key k' ts', v', False)" "plain_key k'" by (auto elim: entry_okE)
  then have "k' \<noteq> k" using Cons.prems(2) by auto
  then show ?case using Cons e by auto
qed

lemma versioned_filter: "versioned m \<Longrightarrow> versioned (filter P m)"
  by (auto simp: versioned_def intro: sorted_wrt_filter)

section \<open>Seeking to a version\<close>

text \<open>Behind the position of version \<open>ts\<close> of a key the versions of that key are those up to
  \<open>ts\<close>.\<close>

lemma versions_seek:
  assumes "versioned m"
  shows "versions (dropWhile (\<lambda>e. default_compare (fst e) (encoded_key k ts) < 0) m) k =
    filter (\<lambda>(ver, v). ver \<le> ts) (versions m k)"
proof -
  have "dropWhile (\<lambda>e. default_compare (fst e) (encoded_key k ts) < 0) m =
      filter (\<lambda>e. \<not> default_compare (fst e) (encoded_key k ts) < 0) m"
    using dk.sorted_takeWhile [of fst m "encoded_key k ts"] assms by (simp add: versioned_def)
  moreover have "versions (filter (\<lambda>e. \<not> default_compare (fst e) (encoded_key k ts) < 0) m) k =
      filter (\<lambda>(ver, v). ver \<le> ts) (versions m k)" if "\<forall>e \<in> set m. entry_ok e" for m
    using that
  proof (induction m)
    case Nil
    then show ?case by simp
  next
    case (Cons e m)
    then obtain k' ts' v' where e: "e = (encoded_key k' ts', v', False)" "plain_key k'" by (auto elim: entry_okE)
    then show ?case using Cons by (auto simp: encoded_key_newer)
  qed
  ultimately show ?thesis using assms by (simp add: versioned_def)
qed

text \<open>If the first entry behind that position belongs to another key, there is no such version.\<close>

lemma versions_seek_other:
  assumes vm: "versioned m" and k: "plain_key k"
    and R: "dropWhile (\<lambda>e. default_compare (fst e) (encoded_key k ts) < 0) m = (encoded_key k' ts', v, d) # R"
    and k': "plain_key k'" "k' \<noteq> k"
  shows "versions ((encoded_key k' ts', v, d) # R) k = []"
proof -
  let ?e = "(encoded_key k' ts', v, d)"
  have "\<not> default_compare (encoded_key k' ts') (encoded_key k ts) < 0"
    using hd_dropWhile [of "\<lambda>e. default_compare (fst e) (encoded_key k ts) < 0" m] R by simp
  then have less: "default_compare k k' < 0"
    using dk.cmp_not_less [of "encoded_key k' ts'" "encoded_key k ts"] k'(2) encoded_key_other [OF k k'(1)]
    by (auto simp: encoded_key_inj)
  have suffix: "m = takeWhile (\<lambda>e. default_compare (fst e) (encoded_key k ts) < 0) m @ ?e # R"
    using R by (metis takeWhile_dropWhile_id)
  have ok: "\<forall>e \<in> set R. entry_ok e" and above: "\<forall>e \<in> set R. default_compare (encoded_key k' ts') (fst e) < 0"
    using vm unfolding versioned_def by (subst (asm) (1 2) suffix, auto simp: sorted_wrt_append)+
  have "(encoded_key k ts'', v', False) \<notin> set R" for ts'' v'
    using above less encoded_key_other [OF k'(1) k k'(2), of ts' ts''] dk.cmp_asym by fastforce
  then show ?thesis using versions_none [OF ok] k' by simp
qed

lemma snapshot_seek:
  assumes vm: "versioned m" and k: "plain_key k"
  shows "case dropWhile (\<lambda>e. default_compare (fst e) (encoded_key k ts) < 0) m of
      [] \<Rightarrow> snapshot m ts k = None \<and> (ts = UINT64_MAX \<longrightarrow> newest m k = 0)
    | (ek, v, d) # _ \<Rightarrow> \<not> d \<and> (case version_decode_key ek of (st, k', ver) \<Rightarrow> st = TX_OK \<and>
        (if k' = k then ver \<le> ts \<and> snapshot m ts k = Some v \<and> (ts = UINT64_MAX \<longrightarrow> newest m k = ver)
         else snapshot m ts k = None \<and> (ts = UINT64_MAX \<longrightarrow> newest m k = 0)))"
proof -
  let ?R = "dropWhile (\<lambda>e. default_compare (fst e) (encoded_key k ts) < 0) m"
  have vs: "versions ?R k = filter (\<lambda>(ver, v). ver \<le> ts) (versions m k)" by (rule versions_seek [OF vm])
  have all: "filter (\<lambda>(ver, v). ver \<le> UINT64_MAX) xs = xs" for xs :: "(u64 \<times> bytes) list"
    by (auto simp: UINT64_MAX_def filter_id_conv)
  show ?thesis
  proof (cases ?R)
    case Nil
    show ?thesis using vs all [of "versions m k"] unfolding Nil by (auto simp: snapshot_def newest_def)
  next
    case (Cons e R)
    have "e \<in> set m" using Cons by (metis list.set_intros(1) set_dropWhileD)
    then have "entry_ok e" using vm by (simp add: versioned_def)
    then obtain k' ts' v where e: "e = (encoded_key k' ts', v, False)" "plain_key k'" by (rule entry_okE)
    show ?thesis
    proof (cases "k' = k")
      case True
      then have "(ts', v) # versions R k = filter (\<lambda>(ver, v). ver \<le> ts) (versions m k)" using vs Cons e by simp
      moreover from this have "ts' \<le> ts" by (metis (mono_tags, lifting) case_prod_conv filter_eq_ConsD)
      ultimately show ?thesis
        using Cons e True all [of "versions m k"] by (auto simp: snapshot_def newest_def split: list.splits)
    next
      case False
      then have "filter (\<lambda>(ver, v). ver \<le> ts) (versions m k) = []"
        using versions_seek_other [OF vm k Cons [unfolded e(1)] e(2) False] vs Cons e(1) by simp
      then show ?thesis
        using Cons e False all [of "versions m k"] by (auto simp: snapshot_def newest_def)
    qed
  qed
qed

section \<open>Adding versions\<close>

lemma kv_split:
  assumes "kv_sorted m" and "x \<notin> fst ` set m"
  shows "m = filter (\<lambda>e. default_compare (fst e) x < 0) m @ filter (\<lambda>e. 0 < default_compare (fst e) x) m"
proof -
  have "filter (\<lambda>e. fst e = x) m = []" using assms(2) by (auto simp: filter_empty_conv)
  then show ?thesis
    using dk.sorted_filter_split [of fst m x] dk.sorted_hit(1) [of fst m x] assms(1) by simp
qed

text \<open>A new version on top of the old ones.\<close>

lemma versions_insert:
  assumes vm: "versioned m" and k: "plain_key k" and new: "\<forall>(ver, v) \<in> set (versions m k). ver < ts"
  shows "versions (kv_insert default_compare (encoded_key k ts) v False m) k' =
    (if k' = k then (ts, v) # versions m k else versions m k')"
    and "versioned (kv_insert default_compare (encoded_key k ts) v False m)"
proof -
  let ?x = "encoded_key k ts"
  let ?A = "filter (\<lambda>e. default_compare (fst e) ?x < 0) m" and ?B = "filter (\<lambda>e. 0 < default_compare (fst e) ?x) m"
  have ok: "\<forall>e \<in> set m. entry_ok e" using vm by (simp add: versioned_def)
  have old: "ver < ts" if "(encoded_key k ver, v, False) \<in> set m" for ver v
    using new versions_mem [OF ok k] that by blast
  have "?x \<notin> fst ` set m"
  proof
    assume "?x \<in> fst ` set m"
    then obtain e where e: "e \<in> set m" "fst e = ?x" by auto
    then obtain k2 ts2 v2 where "e = (encoded_key k2 ts2, v2, False)" using ok entry_okE by blast
    then show False using e old [of ts v2] by (auto simp: encoded_key_inj)
  qed
  then have m: "m = ?A @ ?B" using vm by (intro kv_split) (simp_all add: versioned_def)
  have "versions ?A k = []"
    by (rule versions_none) (use ok old in \<open>auto simp: encoded_key_newer dest: order.asym\<close>)
  moreover have "versions m k'' = versions ?A k'' @ versions ?B k''" for k''
    by (subst m) (rule versions_simps(3))
  ultimately show "versions (kv_insert default_compare ?x v False m) k' =
      (if k' = k then (ts, v) # versions m k else versions m k')"
    using k by (auto simp: kv_insert_def)
  show "versioned (kv_insert default_compare ?x v False m)"
    using vm k dk.sorted_kv_insert [of m ?x v False] unfolding versioned_def
    by (auto simp: kv_insert_def entry_ok_def)
qed

text \<open>The operation that applies a buffered write at a commit timestamp.\<close>

definition put_op :: "u64 \<Rightarrow> write_entry \<Rightarrow> kv_op" where
  "put_op ts e = Put (encoded_key (we_key e) ts) (Some (opt_bytes (entry_effect e)))"

definition commit_content :: "kv_list \<Rightarrow> u64 \<Rightarrow> write_entry list \<Rightarrow> kv_list" where
  "commit_content m ts es = foldl (kv_step default_compare) m (map (put_op ts) es)"

definition fresh_ts :: "kv_list \<Rightarrow> u64 \<Rightarrow> bool" where
  "fresh_ts m ts \<longleftrightarrow> (\<forall>k. plain_key k \<longrightarrow> (\<forall>(ver, v) \<in> set (versions m k). ver < ts))"

lemma commit_content_versions:
  assumes "versioned m" and "fresh_ts m ts" and "distinct (map we_key es)" and "\<forall>e \<in> set es. plain_key (we_key e)"
  shows "versioned (commit_content m ts es)"
    and "versions (commit_content m ts es) k = (case map_of (map (\<lambda>e. (we_key e, entry_effect e)) es) k of
        None \<Rightarrow> versions m k | Some v \<Rightarrow> (ts, opt_bytes v) # versions m k)"
proof -
  have "versioned (commit_content m ts es) \<and> (\<forall>k. versions (commit_content m ts es) k =
      (case map_of (map (\<lambda>e. (we_key e, entry_effect e)) es) k of
        None \<Rightarrow> versions m k | Some v \<Rightarrow> (ts, opt_bytes v) # versions m k))"
    using assms(3,4)
  proof (induction es rule: rev_induct)
    case Nil
    then show ?case using assms(1) by (simp add: commit_content_def)
  next
    case (snoc e es)
    let ?m = "commit_content m ts es" and ?es = "map (\<lambda>e. (we_key e, entry_effect e)) es"
    have ih: "versioned ?m" "\<And>k. versions ?m k = (case map_of ?es k of None \<Rightarrow> versions m k | Some v \<Rightarrow> (ts, opt_bytes v) # versions m k)"
      using snoc by simp_all
    have k: "plain_key (we_key e)" and none: "map_of ?es (we_key e) = None"
      using snoc.prems by (auto simp: map_of_eq_None_iff)
    have top: "\<forall>(ver, v) \<in> set (versions ?m (we_key e)). ver < ts"
      using assms(2) k by (simp add: ih(2) none fresh_ts_def)
    have step: "commit_content m ts (es @ [e]) =
        kv_insert default_compare (encoded_key (we_key e) ts) (opt_bytes (entry_effect e)) False ?m"
      by (simp add: commit_content_def put_op_def opt_bytes_def)
    show ?case
      unfolding step using versions_insert [OF ih(1) k top] ih(2) none
      by (auto simp: map_add_def split: option.split)
  qed
  then show "versioned (commit_content m ts es)"
    and "versions (commit_content m ts es) k = (case map_of (map (\<lambda>e. (we_key e, entry_effect e)) es) k of
        None \<Rightarrow> versions m k | Some v \<Rightarrow> (ts, opt_bytes v) # versions m k)" by blast+
qed

section \<open>The scans of the code\<close>

lemma iter_create_ok:
  "alloc_ok w \<Longrightarrow> mt_rep cmp (db_memtable db) m \<Longrightarrow> \<exists>t. db_memtable db = Some t \<and> storage_iter_create db w = (Some None, w)"
  by (auto simp: storage_iter_create_def memtable_iter_create_def skiplist_iter_create_def mt_rep_def split: option.splits)

lemma no_deleted: "\<forall>e \<in> set R. entry_ok e \<Longrightarrow> dropWhile (\<lambda>(k, v, d). d) R = R"
  by (cases R) (auto simp: entry_ok_def)

lemma versioned_seek:
  assumes "mt_rep default_compare (Some t) m" and "versioned m" and "x \<noteq> []"
  shows "\<exists>it'. storage_iter_seek t x it = Some it' \<and>
    mt_iter default_compare t m it' (dropWhile (\<lambda>e. default_compare (fst e) x < 0) m)"
proof -
  let ?R = "dropWhile (\<lambda>e. default_compare (fst e) x < 0) m"
  have "\<forall>e \<in> set ?R. entry_ok e" using assms(2) by (auto simp: versioned_def dest: set_dropWhileD)
  then have "dropWhile (\<lambda>(k, v, d). d) ?R = ?R" by (rule no_deleted)
  then show ?thesis using storage_iter_seek_spec [OF assms(1,3), of it] by simp
qed

lemma get_latest_commit_ts_spec:
  assumes w: "alloc_ok w" and rep: "mt_rep default_compare (db_memtable (tm_storage tm)) m" and vm: "versioned m"
    and k: "plain_key k"
  shows "get_latest_commit_ts tm k w = Some ((TX_OK, newest m k), w)"
proof -
  obtain t where t: "db_memtable (tm_storage tm) = Some t" "storage_iter_create (tm_storage tm) w = (Some None, w)"
    using iter_create_ok [OF w rep] by blast
  let ?x = "encoded_key k UINT64_MAX"
  let ?R = "dropWhile (\<lambda>e. default_compare (fst e) ?x < 0) m"
  obtain it where it: "storage_iter_seek t ?x None = Some it" "mt_iter default_compare t m it ?R"
    using versioned_seek [OF rep [unfolded t(1)] vm, of ?x None] by auto
  have enc: "version_encode_key k UINT64_MAX w = ((TX_OK, ?x), w)" using w by (simp add: version_encode_key_def)
  show ?thesis
  proof (cases ?R)
    case Nil
    have "newest m k = 0" using snapshot_seek [OF vm k, of UINT64_MAX] unfolding Nil by simp
    moreover have "\<not> storage_iter_valid it" using mt_iter_valid [OF it(2)] Nil by (simp add: storage_iter_valid_def del: dropWhile_eq_Nil_conv)
    ultimately show ?thesis using t enc it(1) by (simp add: get_latest_commit_ts_def)
  next
    case (Cons e R)
    obtain ek v d where e: "e = (ek, v, d)" by (cases e)
    have "storage_iter_valid it" "storage_iter_key t it = Some ek"
      using mt_iter_valid [OF it(2)] mt_iter_at(1) [OF it(2) [unfolded Cons e]] Cons
      by (auto simp: storage_iter_valid_def storage_iter_key_def)
    then show ?thesis
      using t enc it(1) snapshot_seek [OF vm k, of UINT64_MAX] unfolding Cons e
      by (auto simp: get_latest_commit_ts_def split: prod.splits if_splits)
  qed
qed

lemma check_writes_spec:
  assumes w: "alloc_ok w" and rep: "mt_rep default_compare (db_memtable (tm_storage tm)) m" and vm: "versioned m"
    and "\<forall>e \<in> set es. plain_key (we_key e)"
  shows "check_writes tm ts es w =
    Some (if \<exists>e \<in> set es. newest m (we_key e) > ts then TX_CONFLICT else TX_OK, w)"
  using assms(4) by (induction es) (auto simp: get_latest_commit_ts_spec [OF w rep vm])

lemma find_visible_spec:
  assumes w: "alloc_ok w" and vm: "versioned m" and k: "plain_key k"
    and it: "mt_iter default_compare t m it (dropWhile (\<lambda>e. default_compare (fst e) (encoded_key k ts) < 0) m)"
  shows "find_visible t k ts it w = Some (case snapshot m ts k of
      None \<Rightarrow> (TX_NOT_FOUND, None) | Some v \<Rightarrow> if v = [] then (TX_NOT_FOUND, None) else (TX_OK, Some v), w)"
proof -
  let ?R = "dropWhile (\<lambda>e. default_compare (fst e) (encoded_key k ts) < 0) m"
  show ?thesis
  proof (cases ?R)
    case Nil
    have "snapshot m ts k = None" using snapshot_seek [OF vm k, of ts] unfolding Nil by simp
    moreover have "\<not> storage_iter_valid it" using mt_iter_valid [OF it] Nil by (simp add: storage_iter_valid_def del: dropWhile_eq_Nil_conv)
    ultimately show ?thesis by (subst find_visible.simps) simp
  next
    case (Cons e R)
    obtain ek v d where e: "e = (ek, v, d)" by (cases e)
    obtain p where at: "storage_iter_valid it" "storage_iter_key t it = Some ek"
      "storage_iter_value t it = Some (p, length v)" "opt_bytes p = v"
      using mt_iter_valid [OF it] mt_iter_at(1,3) [OF it [unfolded Cons e]] Cons
      by (auto simp: storage_iter_valid_def storage_iter_key_def storage_iter_value_def)
    obtain st k' ver where d: "version_decode_key ek = (st, k', ver)" by (cases "version_decode_key ek")
    have sn: "st = TX_OK \<and> (if k' = k then ver \<le> ts \<and> snapshot m ts k = Some v else snapshot m ts k = None)"
      using snapshot_seek [OF vm k, of ts] unfolding Cons e by (auto simp: d split: if_splits)
    then show ?thesis using at d w by (subst find_visible.simps) auto
  qed
qed

end
