(* ===== verification/Tx_Isolation.thy ===== *)
theory Tx_Isolation
  imports Tx_Store
begin

text \<open>
  The transaction manager as a whole: its invariant, what each operation does to it, and snapshot
  isolation. The theorems are about worlds in which allocations and system calls succeed.
\<close>

section \<open>Slots of active transactions\<close>

lemma first_free_None: "first_free as i = None \<longleftrightarrow> None \<notin> set as"
  by (induction as i rule: first_free.induct) auto

lemma first_free_Some: "first_free as i = Some j \<Longrightarrow> i \<le> j \<and> j - i < length as \<and> as ! (j - i) = None"
proof (induction as i rule: first_free.induct)
  case (1 i)
  then show ?case by simp
next
  case (2 a as i)
  then show ?case by (cases "a = None") (auto simp: nth_Cons' Suc_le_eq)
qed

lemma slot_of_None: "slot_of as h i = None \<longleftrightarrow> Some h \<notin> set as"
  by (induction as h i rule: slot_of.induct) auto

lemma slot_of_Some: "slot_of as h i = Some j \<Longrightarrow> i \<le> j \<and> j - i < length as \<and> as ! (j - i) = Some h"
proof (induction as h i rule: slot_of.induct)
  case (1 h i)
  then show ?case by simp
next
  case (2 a as h i)
  then show ?case by (cases "a = Some h") (auto simp: nth_Cons' Suc_le_eq)
qed

text \<open>The array holds the live handles, each once, and the counter counts them.\<close>

definition active_inv :: "'l tx_manager \<Rightarrow> bool" where
  "active_inv tm \<longleftrightarrow>
     active_count tm = length (filter (\<lambda>a. a \<noteq> None) (active_txs tm)) \<and>
     distinct (filter (\<lambda>a. a \<noteq> None) (active_txs tm)) \<and>
     (\<forall>h. Some h \<in> set (active_txs tm) \<longleftrightarrow> tx_at tm h \<noteq> None)"

lemma list_split_update:
  assumes "i < length xs"
  obtains ys zs where "xs = ys @ xs ! i # zs" and "\<And>x. xs[i := x] = ys @ x # zs"
  using assms id_take_nth_drop [OF assms] upd_conv_take_nth_drop [OF assms] by blast

lemma add_active_slot:
  assumes "active_count tm = length (filter (\<lambda>a. a \<noteq> None) (active_txs tm))" and "active_count tm < length (active_txs tm)"
  obtains ys zs where "active_txs tm = ys @ None # zs"
    and "add_active_tx tm h = tm\<lparr>active_txs := ys @ Some h # zs, active_count := active_count tm + 1\<rparr>"
proof -
  have "None \<in> set (active_txs tm)"
  proof (rule ccontr)
    assume "None \<notin> set (active_txs tm)"
    then have "\<forall>a \<in> set (active_txs tm). a \<noteq> None" by metis
    then have "filter (\<lambda>a. a \<noteq> None) (active_txs tm) = active_txs tm" by (rule filter_True)
    then show False using assms by simp
  qed
  then obtain i where i: "first_free (active_txs tm) 0 = Some i" using first_free_None [of "active_txs tm" 0] by blast
  have at: "i < length (active_txs tm)" "active_txs tm ! i = None" using first_free_Some [OF i] by simp_all
  obtain ys zs where "active_txs tm = ys @ None # zs" "\<And>x. (active_txs tm)[i := x] = ys @ x # zs"
    using list_split_update [OF at(1)] at(2) by metis
  then show ?thesis using i that by (simp add: add_active_tx_def)
qed

lemma remove_active_slot:
  assumes "Some h \<in> set (active_txs tm)"
  obtains ys zs where "active_txs tm = ys @ Some h # zs"
    and "remove_active_tx tm h = tm\<lparr>active_txs := ys @ None # zs, active_count := active_count tm - 1\<rparr>"
proof -
  obtain i where i: "slot_of (active_txs tm) h 0 = Some i" using assms slot_of_None [of "active_txs tm" h 0] by blast
  have at: "i < length (active_txs tm)" "active_txs tm ! i = Some h" using slot_of_Some [OF i] by simp_all
  obtain ys zs where "active_txs tm = ys @ Some h # zs" "\<And>x. (active_txs tm)[i := x] = ys @ x # zs"
    using list_split_update [OF at(1)] at(2) by metis
  then show ?thesis using i that by (simp add: remove_active_tx_def)
qed

section \<open>The heap of transactions\<close>

lemma tx_at_set: "tx_at (set_tx tm h t) h' = (if h' = h \<and> h < length (tm_heap tm) then t else tx_at tm h')"
  by (auto simp: tx_at_def set_tx_def)

lemma tx_at_simps [simp]:
  "tx_at (tm\<lparr>next_ts := a\<rparr>) h = tx_at tm h" "tx_at (tm\<lparr>tm_storage := d\<rparr>) h = tx_at tm h"
  "tx_at (tm\<lparr>next_tx_id := b\<rparr>) h = tx_at tm h" "tx_at (tm\<lparr>active_count := c\<rparr>) h = tx_at tm h"
  "tx_at (tm\<lparr>active_txs := l\<rparr>) h = tx_at tm h"
  by (simp_all add: tx_at_def)

lemma tx_at_less: "tx_at tm h = Some tx \<Longrightarrow> h < length (tm_heap tm)"
  by (simp add: tx_at_def split: if_splits)

lemma remove_active_heap [simp]:
  "tm_heap (remove_active_tx tm h) = tm_heap tm" "tx_at (remove_active_tx tm h) h' = tx_at tm h'"
  "tm_storage (remove_active_tx tm h) = tm_storage tm" "tm_wal (remove_active_tx tm h) = tm_wal tm"
  "next_ts (remove_active_tx tm h) = next_ts tm" "tm_opts (remove_active_tx tm h) = tm_opts tm"
  by (simp_all add: remove_active_tx_def tx_at_def split: option.split)

lemma set_tx_simps [simp]:
  "tm_storage (set_tx tm h t) = tm_storage tm" "tm_wal (set_tx tm h t) = tm_wal tm" "next_ts (set_tx tm h t) = next_ts tm"
  "active_txs (set_tx tm h t) = active_txs tm" "active_count (set_tx tm h t) = active_count tm"
  "tm_opts (set_tx tm h t) = tm_opts tm"
  by (simp_all add: set_tx_def)

lemma active_inv_update:
  "active_inv tm \<Longrightarrow> tx_at tm h = Some tx \<Longrightarrow> active_inv (set_tx tm h (Some tx'))"
  by (auto simp: active_inv_def tx_at_set dest: tx_at_less)

lemma active_inv_remove:
  assumes inv: "active_inv tm" and h: "tx_at tm h = Some tx"
  shows "active_inv (set_tx (remove_active_tx tm h) h None)"
proof -
  have mem: "Some h \<in> set (active_txs tm)" using inv h by (simp add: active_inv_def)
  obtain ys zs where sl: "active_txs tm = ys @ Some h # zs"
    "remove_active_tx tm h = tm\<lparr>active_txs := ys @ None # zs, active_count := active_count tm - 1\<rparr>"
    by (rule remove_active_slot [OF mem])
  have len: "h < length (tm_heap tm)" by (rule tx_at_less [OF h])
  have "(Some h' \<in> set (ys @ None # zs)) = (h' \<noteq> h \<and> tx_at tm h' \<noteq> None)" for h'
    using inv sl(1) unfolding active_inv_def by (cases "h' = h") auto
  then show ?thesis
    using inv sl(1) len unfolding active_inv_def sl(2) by (auto simp: tx_at_set)
qed

text \<open>A transaction that ends leaves a free slot.\<close>

lemma remove_active_room:
  assumes inv: "active_inv tm" and h: "tx_at tm h \<noteq> None"
  shows "active_count (set_tx (remove_active_tx tm h) h None) < length (active_txs (set_tx (remove_active_tx tm h) h None))"
proof -
  have mem: "Some h \<in> set (active_txs tm)" using inv h by (simp add: active_inv_def)
  obtain ys zs where sl: "active_txs tm = ys @ Some h # zs"
    "remove_active_tx tm h = tm\<lparr>active_txs := ys @ None # zs, active_count := active_count tm - 1\<rparr>"
    by (rule remove_active_slot [OF mem])
  have "active_count tm \<le> length (active_txs tm)" using inv unfolding active_inv_def by (metis length_filter_le)
  moreover have "0 < active_count tm" using inv unfolding active_inv_def sl(1) by simp
  ultimately show ?thesis unfolding set_tx_simps sl(2) using sl(1) by simp
qed

section \<open>The invariant\<close>

definition write_small :: "write_entry \<Rightarrow> bool" where
  "write_small e \<longleftrightarrow> 22 + length (we_key e) + length (opt_bytes (entry_effect e)) < 2 ^ 32"

definition tx_ok :: "u64 \<Rightarrow> tx \<Rightarrow> bool" where
  "tx_ok ts tx \<longleftrightarrow> tx_state tx = TX_STATE_ACTIVE \<and> tx_wf tx \<and> start_ts tx < ts \<and>
     (\<forall>e \<in> set (write_set tx). plain_key (we_key e) \<and> write_small e)"

definition tm_inv :: "'l tx_manager \<Rightarrow> world \<Rightarrow> kv_list \<Rightarrow> bool" where
  "tm_inv tm w m \<longleftrightarrow> db_rep (tm_storage tm) w m \<and> versioned m \<and> fresh_ts m (next_ts tm) \<and> active_inv tm \<and>
     (\<forall>h tx. tx_at tm h = Some tx \<longrightarrow> tx_ok (next_ts tm) tx) \<and>
     (\<forall>l. db_wal (tm_storage tm) = Some l \<longrightarrow> wal_path l \<noteq> tm_wal tm)"

lemma tm_invD:
  assumes "tm_inv tm w m"
  shows "db_rep (tm_storage tm) w m" "versioned m" "fresh_ts m (next_ts tm)" "active_inv tm"
    "tx_at tm h = Some tx \<Longrightarrow> tx_ok (next_ts tm) tx" "quiet w" "mt_rep default_compare (db_memtable (tm_storage tm)) m"
  using assms by (auto simp: tm_inv_def db_rep_def)

text \<open>Writing the transaction log does not touch the storage log.\<close>

lemma db_rep_other_file:
  assumes "db_rep db w m" and "\<forall>l. db_wal db = Some l \<longrightarrow> wal_path l \<noteq> p"
  shows "db_rep db (w\<lparr>w_fs := (w_fs w)(p \<mapsto> x)\<rparr>) m"
  using assms by (auto simp: db_rep_def quiet_def file_bytes_def)

lemma log_path_step: "db_step db x w = Some (st, db', w') \<Longrightarrow> map_option wal_path (db_wal db') = map_option wal_path (db_wal db)"
proof -
  have wr: "wal_write_record l t k v w = (st, l', w') \<Longrightarrow> wal_path l' = wal_path l" for l t k v w st l' w'
    by (auto simp: wal_write_record_def Let_def split: prod.splits if_splits)
  assume "db_step db x w = Some (st, db', w')"
  then show ?thesis
    by (auto simp: db_step_log db_log_def split: prod.splits if_splits bind_splits option.splits dest: wr)
qed

lemma apply_writes_spec:
  assumes "db_rep db w m" and "\<forall>e \<in> set es. entry_wf e \<and> write_small e"
  shows "\<exists>db' w'. apply_writes db ts es w = Some (TX_OK, db', w') \<and> db_rep db' w' (commit_content m ts es) \<and>
    map_option wal_path (db_wal db') = map_option wal_path (db_wal db)"
  using assms
proof (induction es arbitrary: db w m)
  case Nil
  then show ?case by (simp add: commit_content_def)
next
  case (Cons e es)
  have ok: "op_ok (put_op ts e)" using Cons.prems(2) by (simp add: put_op_def write_small_def opt_bytes_def)
  obtain db1 w1 where s: "db_step db (put_op ts e) w = Some (STATUS_OK, db1, w1)"
    "db_rep db1 w1 (kv_step default_compare m (put_op ts e))"
    using db_step_refines [OF Cons.prems(1) ok] by blast
  obtain db' w' where r: "apply_writes db1 ts es w1 = Some (TX_OK, db', w')"
    "db_rep db' w' (commit_content (kv_step default_compare m (put_op ts e)) ts es)"
    "map_option wal_path (db_wal db') = map_option wal_path (db_wal db1)"
    using Cons.IH [OF s(2)] Cons.prems(2) by auto
  have enc: "version_encode_key (we_key e) ts w = ((TX_OK, encoded_key (we_key e) ts), w)"
    using Cons.prems(1) by (simp add: version_encode_key_def db_rep_def quiet_def)
  have "(if we_is_delete e then Some (Some []) else if we_value e = None \<and> we_value_len e > 0 then None else Some (we_value e))
      = Some (Some (opt_bytes (entry_effect e)))"
    using Cons.prems(2) by (auto simp: entry_wf_def entry_effect_def opt_bytes_def split: if_splits)
  then have "apply_writes db ts (e # es) w = apply_writes db1 ts es w1"
    using enc s(1) by (simp add: put_op_def)
  then show ?case using r log_path_step [OF s(1)] by (simp add: commit_content_def)
qed

section \<open>What the operations do\<close>

text \<open>A read: the transaction's own write if there is one, otherwise the snapshot; an empty stored value
  is a deleted key.\<close>

definition tx_read :: "kv_list \<Rightarrow> tx \<Rightarrow> bytes \<Rightarrow> tx_status_t \<times> bytes option" where
  "tx_read m tx k =
     (case pending tx k of
        Some None \<Rightarrow> (TX_NOT_FOUND, None)
      | Some (Some v) \<Rightarrow> (TX_OK, Some v)
      | None \<Rightarrow> (case snapshot m (start_ts tx) k of
                  None \<Rightarrow> (TX_NOT_FOUND, None)
                | Some v \<Rightarrow> if v = [] then (TX_NOT_FOUND, None) else (TX_OK, Some v)))"

lemma tx_get_spec:
  assumes inv: "tm_inv tm w m" and h: "tx_at tm h = Some tx" and k: "plain_key k"
  shows "tx_get tm h k w = Some (tx_read m tx k, w)"
proof -
  note I = tm_invD [OF inv]
  have ok: "tx_ok (next_ts tm) tx" by (rule I(5) [OF h])
  then have act: "tx_state tx = TX_STATE_ACTIVE" and wf: "tx_wf tx" by (simp_all add: tx_ok_def)
  have al: "alloc_ok w" using I(6) by (simp add: quiet_def)
  show ?thesis
  proof (cases "tx_find_write tx k")
    case (Some i)
    note at = tx_find_write_Some [OF wf Some]
    have "entry_wf (write_set tx ! i)" using wf at(1) by (simp add: tx_wf_def)
    then show ?thesis
      using h act Some at(3) al by (auto simp: tx_get_def tx_read_def entry_wf_def entry_effect_def Let_def split: if_splits)
  next
    case None
    obtain t where t: "db_memtable (tm_storage tm) = Some t" "storage_iter_create (tm_storage tm) w = (Some None, w)"
      using iter_create_ok [OF al I(7)] by blast
    obtain it where it: "storage_iter_seek t (encoded_key k (start_ts tx)) None = Some it"
      "mt_iter default_compare t m it (dropWhile (\<lambda>e. default_compare (fst e) (encoded_key k (start_ts tx)) < 0) m)"
      using versioned_seek [OF I(7) [unfolded t(1)] I(2), of "encoded_key k (start_ts tx)" None] by auto
    have "tx_read m tx k = (case snapshot m (start_ts tx) k of None \<Rightarrow> (TX_NOT_FOUND, None)
        | Some v \<Rightarrow> if v = [] then (TX_NOT_FOUND, None) else (TX_OK, Some v))"
      using None tx_find_write_None [of tx k] by (simp add: tx_read_def)
    then show ?thesis
      using h act None t it(1) find_visible_spec [OF al I(2) k it(2)] al
      by (simp add: tx_get_def version_encode_key_def)
  qed
qed

lemma tx_begin_spec:
  assumes inv: "tm_inv tm w m" and room: "active_count tm < length (active_txs tm)" and ts: "next_ts tm < UINT64_MAX"
  shows "\<exists>h tm' w'. tx_begin tm w = (Some h, tm', w') \<and> tm_inv tm' w' m \<and> next_ts tm' = next_ts tm + 1 \<and>
    h = length (tm_heap tm) \<and>
    (\<exists>tx. tx_at tm' h = Some tx \<and> start_ts tx = next_ts tm \<and> pending tx = Map.empty) \<and>
    (\<forall>h' tx. tx_at tm h' = Some tx \<longrightarrow> tx_at tm' h' = Some tx)"
proof -
  note I = tm_invD [OF inv]
  let ?h = "length (tm_heap tm)"
  define tx where "tx = \<lparr>tx_id = next_tx_id tm, start_ts = next_ts tm, commit_ts = 0, tx_state = TX_STATE_ACTIVE,
    write_set = [], write_capacity = TX_WRITE_SET_INIT_CAPACITY\<rparr>"
  define tm1 where "tm1 = tm\<lparr>next_tx_id := next_tx_id tm + 1, next_ts := next_ts tm + 1, tm_heap := tm_heap tm @ [Some tx]\<rparr>"
  define w' where "w' = w\<lparr>w_fs := (w_fs w)(tm_wal tm \<mapsto> file_bytes (tm_wal tm) w @
     tx_record_bytes (TX_WAL_BEGIN, tx_id tx, start_ts tx, []))\<rparr>"
  have q: "alloc_ok w" "io_ok w" using I(6) by (simp_all add: quiet_def)
  obtain ys zs where sl: "active_txs tm1 = ys @ None # zs"
    "add_active_tx tm1 ?h = tm1\<lparr>active_txs := ys @ Some ?h # zs, active_count := active_count tm1 + 1\<rparr>"
    using I(4) room by (rule_tac add_active_slot [of tm1 ?h]) (auto simp: active_inv_def tm1_def)
  have run: "tx_begin tm w = (Some ?h, add_active_tx tm1 ?h, w')"
    using room q by (simp add: tx_begin_def Let_def tx_create_def tx_wal_log_begin_def write_record_quiet tm1_def w'_def tx_def)
  have at: "tx_at (add_active_tx tm1 ?h) h' = (if h' = ?h then Some tx else tx_at tm h')" for h'
    unfolding sl(2) by (auto simp: tx_at_def tm1_def nth_append)
  have less: "next_ts tm < next_ts tm + 1"
    using ts by (simp add: UINT64_MAX_def word_less_nat_alt word_index unat_succ_less)
  have "active_inv (add_active_tx tm1 ?h)"
  proof -
    have none: "tx_at tm ?h = None" by (simp add: tx_at_def)
    have act: "active_txs tm = ys @ None # zs" "active_count tm1 = active_count tm" using sl(1) by (simp_all add: tm1_def)
    have "Some ?h \<notin> set (active_txs tm)" using I(4) none by (simp add: active_inv_def)
    moreover have "(Some h' \<in> set (ys @ Some ?h # zs)) = (h' = ?h \<or> tx_at tm h' \<noteq> None)" for h'
      using I(4) act(1) unfolding active_inv_def by auto
    ultimately show ?thesis
      using I(4) act at unfolding active_inv_def sl(2) by auto
  qed
  moreover have "fresh_ts m (next_ts tm + 1)" using I(3) less unfolding fresh_ts_def by (fastforce dest: order.strict_trans)
  moreover have "tx_ok (next_ts tm + 1) tx'" if "tx_at (add_active_tx tm1 ?h) h' = Some tx'" for h' tx'
    using that I(5) [of h' tx'] less
    by (auto simp: at tx_ok_def tx_def tx_wf_def TX_WRITE_SET_INIT_CAPACITY_def split: if_splits dest: order.strict_trans)
  moreover have "db_rep (tm_storage tm) w' m"
    using db_rep_other_file [OF I(1)] inv by (simp add: w'_def tm_inv_def)
  ultimately have "tm_inv (add_active_tx tm1 ?h) w' m"
    using inv sl(2) by (simp add: tm_inv_def tm1_def)
  moreover have "next_ts (add_active_tx tm1 ?h) = next_ts tm + 1" unfolding sl(2) by (simp add: tm1_def)
  moreover have "pending tx = Map.empty" "start_ts tx = next_ts tm" by (simp_all add: pending_def tx_def)
  ultimately show ?thesis using run at tx_at_less by (fastforce simp: at)
qed

text \<open>Buffered writes change nothing but the write set.\<close>

lemma tx_update_inv:
  assumes inv: "tm_inv tm w m" and h: "tx_at tm h = Some tx" and ok: "tx_ok (next_ts tm) tx'"
  shows "tm_inv (set_tx tm h (Some tx')) w m"
proof -
  note I = tm_invD [OF inv]
  have "active_inv (set_tx tm h (Some tx'))" by (rule active_inv_update [OF I(4) h])
  then show ?thesis using inv ok by (auto simp: tm_inv_def tx_at_set split: if_splits)
qed

lemma pending_entry: "tx_wf tx \<Longrightarrow> e \<in> set (write_set tx) \<Longrightarrow> pending tx (we_key e) = Some (entry_effect e)"
  unfolding pending_def by (rule map_of_is_SomeI) (auto simp: tx_wf_def comp_def)

lemma tx_write_spec:
  assumes inv: "tm_inv tm w m" and h: "tx_at tm h = Some tx" and k: "plain_key k"
    and small: "22 + length k + length (opt_bytes v) < 2 ^ 32"
    and arg: "is_delete = (v = None)"
  shows "\<exists>tx'. tx_add_write tx k v is_delete w = (TX_OK, tx', w) \<and> tm_inv (set_tx tm h (Some tx')) w m \<and>
    pending tx' = (pending tx)(k \<mapsto> v) \<and> start_ts tx' = start_ts tx"
proof -
  note I = tm_invD [OF inv]
  have ok: "tx_ok (next_ts tm) tx" by (rule I(5) [OF h])
  obtain tx' where t: "tx_add_write tx k v is_delete w = (TX_OK, tx', w)" "tx_wf tx'"
    "pending tx' = (pending tx)(k \<mapsto> v)" "start_ts tx' = start_ts tx" "tx_state tx' = tx_state tx"
    using tx_add_write_ok [of tx w is_delete v k] ok I(6) arg by (auto simp: tx_ok_def quiet_def)
  have "plain_key (we_key e) \<and> write_small e" if e: "e \<in> set (write_set tx')" for e
  proof (cases "we_key e = k")
    case True
    then show ?thesis using pending_entry [OF t(2) e] t(3) k small by (simp add: write_small_def)
  next
    case False
    then have "pending tx (we_key e) = Some (entry_effect e)" using pending_entry [OF t(2) e] t(3) by simp
    then obtain e' where "e' \<in> set (write_set tx)" "we_key e' = we_key e" "entry_effect e' = entry_effect e"
      unfolding pending_def by (auto dest!: map_of_SomeD)
    then show ?thesis using ok unfolding tx_ok_def write_small_def by metis
  qed
  then have "tx_ok (next_ts tm) tx'" using ok t by (simp add: tx_ok_def)
  then show ?thesis using t tx_update_inv [OF inv h] by blast
qed

lemma tx_put_spec:
  assumes "tm_inv tm w m" and "tx_at tm h = Some tx" and "plain_key k" and "22 + length k + length v < 2 ^ 32"
  shows "\<exists>tx'. tx_put tm h k v w = Some (TX_OK, set_tx tm h (Some tx'), w) \<and> tm_inv (set_tx tm h (Some tx')) w m \<and>
    pending tx' = (pending tx)(k \<mapsto> Some v) \<and> start_ts tx' = start_ts tx"
  using tx_write_spec [OF assms(1-3), of "Some v" False] assms(2,4) tm_invD(5) [OF assms(1,2)]
  by (auto simp: tx_put_def opt_bytes_def tx_ok_def)

lemma tx_delete_spec:
  assumes "tm_inv tm w m" and "tx_at tm h = Some tx" and "plain_key k" and "22 + length k < 2 ^ 32"
  shows "\<exists>tx'. tx_delete tm h k w = Some (TX_OK, set_tx tm h (Some tx'), w) \<and> tm_inv (set_tx tm h (Some tx')) w m \<and>
    pending tx' = (pending tx)(k \<mapsto> None) \<and> start_ts tx' = start_ts tx"
  using tx_write_spec [OF assms(1-3), of None True] assms(2,4) tm_invD(5) [OF assms(1,2)]
  by (auto simp: tx_delete_def opt_bytes_def tx_ok_def)

text \<open>Dropping a transaction.\<close>

lemma tx_drop_inv:
  assumes inv: "tm_inv tm w m" and h: "tx_at tm h = Some tx"
  shows "tm_inv (set_tx (remove_active_tx tm h) h None) w m"
proof -
  note I = tm_invD [OF inv]
  have "active_inv (set_tx (remove_active_tx tm h) h None)" by (rule active_inv_remove [OF I(4) h])
  then show ?thesis using inv by (auto simp: tm_inv_def tx_at_set split: if_splits)
qed

lemma tx_abort_spec:
  assumes inv: "tm_inv tm w m" and h: "tx_at tm h = Some tx"
  shows "\<exists>w'. tx_abort tm h w = Some (TX_OK, set_tx (remove_active_tx tm h) h None, w') \<and>
    tm_inv (set_tx (remove_active_tx tm h) h None) w' m"
proof -
  note I = tm_invD [OF inv]
  let ?w = "w\<lparr>w_fs := (w_fs w)(tm_wal tm \<mapsto> file_bytes (tm_wal tm) w @ tx_record_bytes (TX_WAL_ABORT, tx_id tx, 0, []))\<rparr>"
  have "tx_abort tm h w = Some (TX_OK, set_tx (remove_active_tx tm h) h None, ?w)"
    using h I(5) [OF h] I(6)
    by (simp add: tx_abort_def tx_ok_def Let_def tx_clear_writes_def tx_wal_log_abort_def write_record_quiet quiet_def)
  moreover have "db_rep (tm_storage tm) ?w m" using db_rep_other_file [OF I(1)] inv by (simp add: tm_inv_def)
  ultimately show ?thesis using tx_drop_inv [OF inv h] by (auto simp: tm_inv_def)
qed

text \<open>A commit fails exactly when some key it writes has a version newer than its snapshot; otherwise
  it adds one version per written key.\<close>

definition conflicting :: "kv_list \<Rightarrow> tx \<Rightarrow> bool" where
  "conflicting m tx \<longleftrightarrow> (\<exists>k. pending tx k \<noteq> None \<and> newest m k > start_ts tx)"

lemma conflicting_writes:
  "(\<exists>e \<in> set (write_set tx). newest m (we_key e) > start_ts tx) \<longleftrightarrow> conflicting m tx"
proof -
  have "pending tx k \<noteq> None \<longleftrightarrow> k \<in> we_key ` set (write_set tx)" for k
    by (simp add: pending_def map_of_eq_None_iff image_image)
  then show ?thesis by (auto simp: conflicting_def)
qed

lemma tx_commit_conflict:
  assumes inv: "tm_inv tm w m" and h: "tx_at tm h = Some tx" and c: "conflicting m tx"
  shows "tx_commit tm h w = Some (TX_CONFLICT, set_tx (remove_active_tx tm h) h None, w)"
proof -
  note I = tm_invD [OF inv]
  have ok: "tx_ok (next_ts tm) tx" by (rule I(5) [OF h])
  then have "check_write_conflicts tm tx w = Some (TX_CONFLICT, w)"
    using check_writes_spec [OF quietD(1) [OF I(6)] I(7,2), of "write_set tx" "start_ts tx"] c
    by (simp add: check_write_conflicts_def tx_ok_def conflicting_writes)
  then show ?thesis using h ok by (simp add: tx_commit_def tx_ok_def)
qed

lemma tx_commit_ok:
  assumes inv: "tm_inv tm w m" and h: "tx_at tm h = Some tx" and c: "\<not> conflicting m tx" and ts: "next_ts tm < UINT64_MAX"
  shows "\<exists>tm' w'. tx_commit tm h w = Some (TX_OK, tm', w') \<and>
    tm_inv tm' w' (commit_content m (next_ts tm) (write_set tx)) \<and> next_ts tm' = next_ts tm + 1 \<and>
    (\<forall>h'. tx_at tm' h' = (if h' = h then None else tx_at tm h')) \<and> active_count tm' < length (active_txs tm')"
proof -
  note I = tm_invD [OF inv]
  let ?ts = "next_ts tm"
  let ?m = "commit_content m ?ts (write_set tx)"
  have ok: "tx_ok ?ts tx" by (rule I(5) [OF h])
  have chk: "check_write_conflicts tm tx w = Some (TX_OK, w)"
    using check_writes_spec [OF quietD(1) [OF I(6)] I(7,2), of "write_set tx" "start_ts tx"] ok c
    by (simp add: check_write_conflicts_def tx_ok_def conflicting_writes)
  obtain db' w1 where ap: "apply_writes (tm_storage tm) ?ts (write_set tx) w = Some (TX_OK, db', w1)"
    "db_rep db' w1 ?m" "map_option wal_path (db_wal db') = map_option wal_path (db_wal (tm_storage tm))"
    using apply_writes_spec [OF I(1), of "write_set tx" ?ts] ok by (auto simp: tx_ok_def tx_wf_def)
  define tm1 where "tm1 = (set_tx (tm\<lparr>next_ts := ?ts + 1\<rparr>) h (Some (tx\<lparr>commit_ts := ?ts\<rparr>)))\<lparr>tm_storage := db'\<rparr>"
  define w' where "w' = w1\<lparr>w_fs := (w_fs w1)(tm_wal tm \<mapsto> file_bytes (tm_wal tm) w1 @
     tx_record_bytes (TX_WAL_COMMIT, tx_id tx, ?ts, []))\<rparr>"
  have paths: "wal_path l \<noteq> tm_wal tm" if "db_wal db' = Some l" for l
    using ap(3) that inv unfolding tm_inv_def by (cases "db_wal (tm_storage tm)") auto
  have rep: "db_rep db' w' ?m" unfolding w'_def by (rule db_rep_other_file [OF ap(2)]) (use paths in blast)
  have q: "io_ok w1" using ap(2) by (simp add: db_rep_def quiet_def)
  have run: "tx_commit tm h w = Some (TX_OK, set_tx (remove_active_tx tm1 h) h None, w')"
    using h ok chk ap(1) q
    by (simp add: tx_commit_def tx_ok_def Let_def tx_wal_log_commit_def write_record_quiet tx_wal_sync_def tm1_def w'_def)
  have less: "?ts < ?ts + 1" using ts by (simp add: UINT64_MAX_def word_less_nat_alt word_index unat_succ_less)
  have keys: "distinct (map we_key (write_set tx))" "\<forall>e \<in> set (write_set tx). plain_key (we_key e)"
    using ok by (simp_all add: tx_ok_def tx_wf_def)
  note cc = commit_content_versions [OF I(2,3) keys]
  have fresh: "fresh_ts ?m (?ts + 1)"
    unfolding fresh_ts_def
  proof (intro allI impI ballI)
    fix k p
    assume k: "plain_key k" and p: "p \<in> set (versions ?m k)"
    obtain ver v where v: "p = (ver, v)" by (cases p)
    have "ver = ?ts \<or> (ver, v) \<in> set (versions m k)" using p v cc(2) [of k] by (auto split: option.splits)
    then have "ver = ?ts \<or> ver < ?ts" using I(3) k unfolding fresh_ts_def by blast
    then show "case p of (ver, v) \<Rightarrow> ver < ?ts + 1" using less v by auto
  qed
  have at: "tx_at tm1 h' = (if h' = h then Some (tx\<lparr>commit_ts := ?ts\<rparr>) else tx_at tm h')" for h'
    using tx_at_less [OF h] by (simp add: tm1_def tx_at_set)
  have act: "active_inv tm1"
    using active_inv_update [of "tm\<lparr>next_ts := ?ts + 1\<rparr>" h tx "tx\<lparr>commit_ts := ?ts\<rparr>"] I(4) h
    by (simp add: active_inv_def tm1_def)
  have "tx_ok (?ts + 1) tx'" if "tx_at tm1 h' = Some tx'" for h' tx'
    using that ok I(5) [of h' tx'] less by (auto simp: at tx_ok_def tx_wf_def split: if_splits dest: order.strict_trans)
  then have "tm_inv tm1 w' ?m"
    using act rep cc(1) fresh paths by (simp add: tm_inv_def tm1_def)
  then have "tm_inv (set_tx (remove_active_tx tm1 h) h None) w' ?m" by (rule tx_drop_inv) (simp add: at)
  moreover have "next_ts (set_tx (remove_active_tx tm1 h) h None) = ?ts + 1" by (simp add: tm1_def)
  moreover have "tx_at (set_tx (remove_active_tx tm1 h) h None) h' = (if h' = h then None else tx_at tm h')" for h'
    using tx_at_less [of tm1 h] by (auto simp: tx_at_set at)
  moreover have "active_count (set_tx (remove_active_tx tm1 h) h None) < length (active_txs (set_tx (remove_active_tx tm1 h) h None))"
    using act by (intro remove_active_room) (simp_all add: at)
  ultimately show ?thesis using run by blast
qed

section \<open>Executions\<close>

datatype tx_op =
    Begin
  | Tx_put nat bytes bytes
  | Tx_delete nat bytes
  | Commit nat
  | Abort nat

fun tm_step :: "'l tx_manager \<Rightarrow> tx_op \<Rightarrow> world \<Rightarrow> ('l tx_manager \<times> world) option" where
  "tm_step tm Begin w = Some (snd (tx_begin tm w))"
| "tm_step tm (Tx_put h k v) w = map_option snd (tx_put tm h k v w)"
| "tm_step tm (Tx_delete h k) w = map_option snd (tx_delete tm h k w)"
| "tm_step tm (Commit h) w = map_option snd (tx_commit tm h w)"
| "tm_step tm (Abort h) w = map_option snd (tx_abort tm h w)"

fun tm_run :: "'l tx_manager \<Rightarrow> tx_op list \<Rightarrow> world \<Rightarrow> ('l tx_manager \<times> world) option" where
  "tm_run tm [] w = Some (tm, w)"
| "tm_run tm (x # xs) w = do { (tm, w) \<leftarrow> tm_step tm x w; tm_run tm xs w }"

text \<open>Keys without zero bytes, and sizes that fit in a log record.\<close>

fun tx_op_ok :: "tx_op \<Rightarrow> bool" where
  "tx_op_ok (Tx_put h k v) \<longleftrightarrow> plain_key k \<and> 22 + length k + length v < 2 ^ 32"
| "tx_op_ok (Tx_delete h k) \<longleftrightarrow> plain_key k \<and> 22 + length k < 2 ^ 32"
| "tx_op_ok x \<longleftrightarrow> True"

fun op_target :: "tx_op \<Rightarrow> nat option" where
  "op_target Begin = None"
| "op_target (Tx_put h k v) = Some h"
| "op_target (Tx_delete h k) = Some h"
| "op_target (Commit h) = Some h"
| "op_target (Abort h) = Some h"

text \<open>One content extends another: the snapshots of the past are the same.\<close>

definition same_past :: "u64 \<Rightarrow> kv_list \<Rightarrow> kv_list \<Rightarrow> bool" where
  "same_past ts m m' \<longleftrightarrow> (\<forall>k. \<exists>new. versions m' k = new @ versions m k \<and> (\<forall>(ver, v) \<in> set new. ts \<le> ver))"

lemma same_past_refl [simp]: "same_past ts m m"
  by (simp add: same_past_def)

lemma same_past_trans:
  assumes "same_past ts m m1" and "same_past ts1 m1 m2" and "ts \<le> ts1"
  shows "same_past ts m m2"
  unfolding same_past_def
proof
  fix k
  obtain n1 where n1: "versions m1 k = n1 @ versions m k" "\<forall>(ver, v) \<in> set n1. ts \<le> ver"
    using assms(1) by (auto simp: same_past_def)
  obtain n2 where n2: "versions m2 k = n2 @ versions m1 k" "\<forall>(ver, v) \<in> set n2. ts1 \<le> ver"
    using assms(2) unfolding same_past_def by blast
  have "\<forall>(ver, v) \<in> set n2. ts \<le> ver" using n2(2) assms(3) by (auto dest: order_trans)
  then show "\<exists>new. versions m2 k = new @ versions m k \<and> (\<forall>(ver, v) \<in> set new. ts \<le> ver)"
    using n1 n2(1) by (intro exI [of _ "n2 @ n1"]) auto
qed

lemma same_past_snapshot:
  assumes "same_past ts m m'" and "s < ts"
  shows "snapshot m' s k = snapshot m s k"
proof -
  obtain new where new: "versions m' k = new @ versions m k" "\<forall>(ver, v) \<in> set new. ts \<le> ver"
    using assms(1) by (auto simp: same_past_def)
  have "filter (\<lambda>(ver, v). ver \<le> s) new = []" using new(2) assms(2) by (auto simp: filter_empty_conv)
  then show ?thesis by (simp add: snapshot_def new(1))
qed

lemma commit_same_past:
  assumes "versioned m" and "fresh_ts m ts" and "distinct (map we_key es)" and "\<forall>e \<in> set es. plain_key (we_key e)"
  shows "same_past ts m (commit_content m ts es)"
  unfolding same_past_def commit_content_versions(2) [OF assms] by (auto split: option.split)

lemma unat_UINT64_MAX: "unat UINT64_MAX = 2 ^ 64 - 1"
  by (simp add: UINT64_MAX_def unsigned_minus_1_eq_mask mask_eq_exp_minus_1)

lemma u64_succ_le: "a < UINT64_MAX \<Longrightarrow> a \<le> a + 1 \<and> unat (a + 1) = unat a + 1"
  by (simp add: UINT64_MAX_def word_le_nat_alt unat_succ_less)

lemma tm_step_inv:
  assumes inv: "tm_inv tm w m" and ok: "tx_op_ok x" and ts: "next_ts tm < UINT64_MAX" and step: "tm_step tm x w = Some (tm', w')"
  shows "\<exists>m'. tm_inv tm' w' m' \<and> same_past (next_ts tm) m m' \<and> next_ts tm \<le> next_ts tm' \<and> unat (next_ts tm') \<le> unat (next_ts tm) + 1 \<and>
    (\<forall>h tx. tx_at tm h = Some tx \<and> op_target x \<noteq> Some h \<longrightarrow> tx_at tm' h = Some tx)"
proof -
  note I = tm_invD [OF inv] and suc = u64_succ_le [OF ts]
  have live: "\<exists>tx. tx_at tm h = Some tx" if "op_target x = Some h" for h
    using step that by (cases x) (auto simp: tx_put_def tx_delete_def tx_commit_def tx_abort_def split: bind_splits)
  show ?thesis
  proof (cases x)
    case Begin
    show ?thesis
    proof (cases "active_count tm < length (active_txs tm)")
      case True
      then show ?thesis using tx_begin_spec [OF inv True ts] step Begin suc by auto
    next
      case False
      then have "tm' = tm" "w' = w" using step Begin by (simp_all add: tx_begin_def)
      then show ?thesis using inv by auto
    qed
  next
    case (Tx_put h k v)
    then obtain tx where tx: "tx_at tm h = Some tx" using live by auto
    then show ?thesis using tx_put_spec [OF inv tx, of k v] step ok Tx_put by (auto simp: tx_at_set intro!: exI [of _ m])
  next
    case (Tx_delete h k)
    then obtain tx where tx: "tx_at tm h = Some tx" using live by auto
    then show ?thesis using tx_delete_spec [OF inv tx, of k] step ok Tx_delete by (auto simp: tx_at_set intro!: exI [of _ m])
  next
    case (Commit h)
    then obtain tx where tx: "tx_at tm h = Some tx" using live by auto
    show ?thesis
    proof (cases "conflicting m tx")
      case True
      then show ?thesis
        using tx_commit_conflict [OF inv tx True] tx_drop_inv [OF inv tx] step Commit by (auto simp: tx_at_set intro!: exI [of _ m])
    next
      case False
      have "same_past (next_ts tm) m (commit_content m (next_ts tm) (write_set tx))"
        using commit_same_past [OF I(2,3), of "write_set tx"] I(5) [OF tx] by (simp add: tx_ok_def tx_wf_def)
      then show ?thesis using tx_commit_ok [OF inv tx False ts] step Commit suc by auto
    qed
  next
    case (Abort h)
    then obtain tx where tx: "tx_at tm h = Some tx" using live by auto
    then show ?thesis using tx_abort_spec [OF inv tx] step Abort by (auto simp: tx_at_set intro!: exI [of _ m])
  qed
qed

lemma tm_run_inv:
  assumes "tm_inv tm w m" and "\<forall>x \<in> set xs. tx_op_ok x" and "unat (next_ts tm) + length xs < 2 ^ 64 - 1"
    and "tm_run tm xs w = Some (tm', w')"
  shows "\<exists>m'. tm_inv tm' w' m' \<and> same_past (next_ts tm) m m' \<and> next_ts tm \<le> next_ts tm' \<and>
    unat (next_ts tm') \<le> unat (next_ts tm) + length xs \<and>
    (\<forall>h tx. tx_at tm h = Some tx \<and> Some h \<notin> op_target ` set xs \<longrightarrow> tx_at tm' h = Some tx)"
  using assms
proof (induction xs arbitrary: tm w m)
  case Nil
  then show ?case by auto
next
  case (Cons x xs)
  have ts: "next_ts tm < UINT64_MAX" using Cons.prems(3) by (simp add: word_less_nat_alt unat_UINT64_MAX)
  obtain tm1 w1 where s: "tm_step tm x w = Some (tm1, w1)" "tm_run tm1 xs w1 = Some (tm', w')"
    using Cons.prems(4) by (auto split: bind_splits)
  obtain m1 where m1: "tm_inv tm1 w1 m1" "same_past (next_ts tm) m m1" "next_ts tm \<le> next_ts tm1"
    "unat (next_ts tm1) \<le> unat (next_ts tm) + 1"
    "\<forall>h tx. tx_at tm h = Some tx \<and> op_target x \<noteq> Some h \<longrightarrow> tx_at tm1 h = Some tx"
    using tm_step_inv [OF Cons.prems(1) _ ts s(1)] Cons.prems(2) by auto
  have "unat (next_ts tm1) + length xs < 2 ^ 64 - 1" using m1(4) Cons.prems(3) by simp
  then obtain m' where m': "tm_inv tm' w' m'" "same_past (next_ts tm1) m1 m'" "next_ts tm1 \<le> next_ts tm'"
    "unat (next_ts tm') \<le> unat (next_ts tm1) + length xs"
    "\<forall>h tx. tx_at tm1 h = Some tx \<and> Some h \<notin> op_target ` set xs \<longrightarrow> tx_at tm' h = Some tx"
    using Cons.IH [OF m1(1) _ _ s(2)] Cons.prems(2) by auto
  have "unat (next_ts tm') \<le> unat (next_ts tm) + length (x # xs)" using m1(4) m'(4) by simp
  moreover have "\<forall>h tx. tx_at tm h = Some tx \<and> Some h \<notin> op_target ` set (x # xs) \<longrightarrow> tx_at tm' h = Some tx"
    using m1(5) m'(5) by auto
  ultimately show ?case
    using m'(1) same_past_trans [OF m1(2) m'(2) m1(3)] order_trans [OF m1(3) m'(3)] by blast
qed

end
