(* ===== verification/Tx_Properties.thy ===== *)
theory Tx_Properties
  imports Tx_Isolation
begin

text \<open>
  Properties of the transaction manager: snapshot isolation, first committer wins, visibility of
  committed writes, the version encoding, recovery of the counters, the garbage collection horizon,
  and what happens to keys that contain a zero byte.
\<close>

section \<open>A manager with two open transactions\<close>

text \<open>Both have put a value for the same key.\<close>

definition sample_tx :: "u64 \<Rightarrow> tx" where
  "sample_tx ts = \<lparr>tx_id = ts, start_ts = ts, commit_ts = 0, tx_state = TX_STATE_ACTIVE,
     write_set = [\<lparr>we_key = [97], we_value = Some [ucast ts], we_value_len = 1, we_is_delete = False\<rparr>],
     write_capacity = 16\<rparr>"

definition sample_tm :: "unit tx_manager" where
  "sample_tm = \<lparr>tm_storage = fresh_db, tm_path = ''d'', tm_wal = ''d/tx.wal'', next_tx_id = 3, next_ts = 3,
     active_txs = [Some 0, Some 1, None, None], active_count = 2, tm_opts = default_opts,
     tm_heap = [Some (sample_tx 1), Some (sample_tx 2)]\<rparr>"

lemma plain_97 [simp]: "plain_key [97]"
  by (simp add: plain_key_def)

lemma sample_tx_at [simp]: "tx_at sample_tm 0 = Some (sample_tx 1)" "tx_at sample_tm (Suc 0) = Some (sample_tx 2)"
  "tx_at sample_tm h = Some tx \<Longrightarrow> tx = sample_tx 1 \<or> tx = sample_tx 2"
  by (auto simp: tx_at_def sample_tm_def nth_Cons' split: if_splits)

lemma sample_pending [simp]: "pending (sample_tx ts) = [[97] \<mapsto> Some [ucast ts]]" "start_ts (sample_tx ts) = ts"
  by (simp_all add: pending_def sample_tx_def entry_effect_def)

lemma sample_next [simp]: "next_ts sample_tm = 3"
  by (simp add: sample_tm_def)

lemma sample_tx_ok: "ts < 3 \<Longrightarrow> tx_ok 3 (sample_tx ts)"
  by (simp add: tx_ok_def sample_tx_def tx_wf_def entry_wf_def write_small_def entry_effect_def opt_bytes_def)

lemma sample_tm_inv: "tm_inv sample_tm quiet_world []"
proof -
  have "active_inv sample_tm"
    by (auto simp: active_inv_def sample_tm_def tx_at_def nth_Cons' split: if_splits)
  moreover have "tx_ok 3 tx" if "tx_at sample_tm h = Some tx" for h tx
    using sample_tx_at(3) [OF that] sample_tx_ok [of 1] sample_tx_ok [of 2] by auto
  ultimately show ?thesis
    using fresh_db_rep unfolding tm_inv_def sample_next
    by (simp add: sample_tm_def versioned_def fresh_ts_def fresh_db_def)
qed

lemma sample_not_conflicting: "\<not> conflicting [] (sample_tx ts)"
  by (auto simp: conflicting_def newest_def)

lemma sample_small: "next_ts sample_tm < UINT64_MAX" "unat (next_ts sample_tm) + 2 < 2 ^ 64 - 1"
  by (simp_all add: word_less_nat_alt unat_UINT64_MAX)

section \<open>Snapshot isolation\<close>

text \<open>C2: Repeatable reads, for plain keys (not empty and without a zero byte). In a store that holds only
  versions of plain keys, whatever other transactions do meanwhile (begin, put and delete plain keys,
  commit, abort, in any order, never using a transaction that has ended), a transaction that is not touched itself reads the same status and value
  for every plain key as before, while allocations and system calls succeed, values and keys fit a log
  record and the timestamps stay below the 64-bit limit. The restriction to plain keys is needed: a key
  that extends another one by a zero byte is sorted among its versions and ends their scan.\<close>

theorem snapshot_reads_stable:
  assumes "tm_inv tm w m" and "tx_at tm h = Some tx" and "\<forall>x \<in> set xs. tx_op_ok x" and "Some h \<notin> op_target ` set xs"
    and "unat (next_ts tm) + length xs < 2 ^ 64 - 1" and "tm_run tm xs w = Some (tm', w')" and "plain_key k"
  shows "\<exists>r. tx_get tm h k w = Some (r, w) \<and> tx_get tm' h k w' = Some (r, w')"
proof -
  obtain m' where m': "tm_inv tm' w' m'" "same_past (next_ts tm) m m'" "tx_at tm' h = Some tx"
    using tm_run_inv [OF assms(1,3,5,6)] assms(2,4) by blast
  have "start_ts tx < next_ts tm" using tm_invD(5) [OF assms(1,2)] by (simp add: tx_ok_def)
  then have "snapshot m' (start_ts tx) k = snapshot m (start_ts tx) k" by (rule same_past_snapshot [OF m'(2)])
  then have "tx_read m' tx k = tx_read m tx k" by (simp only: tx_read_def)
  then show ?thesis using tx_get_spec [OF assms(1,2,7)] tx_get_spec [OF m'(1,3) assms(7)] by simp
qed

theorem snapshot_reads_stable_witness:
  "\<exists>tm' w' r. tm_run sample_tm [Commit 0, Begin] quiet_world = Some (tm', w') \<and>
    tx_get sample_tm 1 [97] quiet_world = Some (r, quiet_world) \<and> tx_get tm' 1 [97] w' = Some (r, w')"
proof -
  obtain tm1 w1 where c: "tx_commit sample_tm 0 quiet_world = Some (TX_OK, tm1, w1)"
    using tx_commit_ok [OF sample_tm_inv sample_tx_at(1) sample_not_conflicting sample_small(1)] by blast
  obtain tm' w' where run: "tm_run sample_tm [Commit 0, Begin] quiet_world = Some (tm', w')"
    using c by (cases "tx_begin tm1 w1") auto
  have ok: "\<forall>x \<in> set [Commit 0, Begin]. tx_op_ok x" "Some 1 \<notin> op_target ` set [Commit 0, Begin]" by simp_all
  have len: "unat (next_ts sample_tm) + length [Commit 0, Begin] < 2 ^ 64 - 1" using sample_small(2) by simp
  have at: "tx_at sample_tm 1 = Some (sample_tx 2)" by simp
  show ?thesis using snapshot_reads_stable [OF sample_tm_inv at ok len run plain_97] run by blast
qed

text \<open>C3: First committer wins, for plain keys (not empty and without a zero byte). In a store and a
  manager that have only seen plain keys, when two open transactions have both written a key and one of
  them commits, the other one's commit reports a conflict, whatever other transactions do with plain keys
  in between; so no update of a plain key is lost. Allocations and system calls succeed and the
  timestamps stay below the 64-bit limit. With keys that contain a zero byte the conflict can be missed,
  as the section on such keys shows.\<close>

theorem first_committer_wins:
  assumes "tm_inv tm w m" and "tx_at tm h1 = Some tx1" and "tx_at tm h2 = Some tx2" and "h1 \<noteq> h2"
    and "pending tx1 k \<noteq> None" and "pending tx2 k \<noteq> None"
    and "tx_commit tm h1 w = Some (TX_OK, tm1, w1)"
    and "\<forall>x \<in> set xs. tx_op_ok x" and "Some h2 \<notin> op_target ` set xs"
    and "unat (next_ts tm) + length xs + 1 < 2 ^ 64 - 1" and "tm_run tm1 xs w1 = Some (tm2, w2)"
  shows "\<exists>tm3. tx_commit tm2 h2 w2 = Some (TX_CONFLICT, tm3, w2)"
proof -
  let ?c = "next_ts tm"
  have ts: "?c < UINT64_MAX" using assms(10) by (simp add: word_less_nat_alt unat_UINT64_MAX)
  note I = tm_invD [OF assms(1)]
  have "\<not> conflicting m tx1" using tx_commit_conflict [OF assms(1,2)] assms(7) by auto
  then have c: "tm_inv tm1 w1 (commit_content m ?c (write_set tx1))" "next_ts tm1 = ?c + 1" "tx_at tm1 h2 = Some tx2"
    using tx_commit_ok [OF assms(1,2) _ ts] assms(3,4,7) by auto
  have keys: "distinct (map we_key (write_set tx1))" "\<forall>e \<in> set (write_set tx1). plain_key (we_key e)"
    using I(5) [OF assms(2)] by (simp_all add: tx_ok_def tx_wf_def)
  obtain v where v: "versions (commit_content m ?c (write_set tx1)) k = (?c, v) # versions m k"
    using commit_content_versions(2) [OF I(2,3) keys, of k] assms(5) by (auto simp: pending_def)
  have "unat (next_ts tm1) + length xs < 2 ^ 64 - 1" using c(2) u64_succ_le [OF ts] assms(10) by simp
  then obtain m2 where m2: "tm_inv tm2 w2 m2" "same_past (next_ts tm1) (commit_content m ?c (write_set tx1)) m2" "tx_at tm2 h2 = Some tx2"
    using tm_run_inv [OF c(1) assms(8) _ assms(11)] c(3) assms(9) by blast
  obtain new where new: "versions m2 k = new @ (?c, v) # versions m k" "\<forall>(ver, v) \<in> set new. next_ts tm1 \<le> ver"
    using m2(2) v unfolding same_past_def by metis
  have "?c \<le> newest m2 k"
    using new u64_succ_le [OF ts] c(2) by (cases new) (auto simp: newest_def intro: order_trans)
  moreover have "start_ts tx2 < ?c" using I(5) [OF assms(3)] by (simp add: tx_ok_def)
  ultimately have "conflicting m2 tx2" using assms(6) by (auto simp: conflicting_def intro: order.strict_trans2)
  then show ?thesis using tx_commit_conflict [OF m2(1,3)] by blast
qed

theorem first_committer_wins_witness:
  "\<exists>tm1 w1 tm2 w2 tm3. tx_commit sample_tm 0 quiet_world = Some (TX_OK, tm1, w1) \<and>
    tm_run tm1 [Begin] w1 = Some (tm2, w2) \<and> tx_commit tm2 1 w2 = Some (TX_CONFLICT, tm3, w2)"
proof -
  obtain tm1 w1 where c: "tx_commit sample_tm 0 quiet_world = Some (TX_OK, tm1, w1)"
    using tx_commit_ok [OF sample_tm_inv sample_tx_at(1) sample_not_conflicting sample_small(1)] by blast
  obtain tm2 w2 where run: "tm_run tm1 [Begin] w1 = Some (tm2, w2)" by (cases "tx_begin tm1 w1") auto
  have at: "tx_at sample_tm 1 = Some (sample_tx 2)" by simp
  have pend: "pending (sample_tx 1) [97] \<noteq> None" "pending (sample_tx 2) [97] \<noteq> None" by simp_all
  have ok: "\<forall>x \<in> set [Begin]. tx_op_ok x" "Some 1 \<notin> op_target ` set [Begin]" by simp_all
  have len: "unat (next_ts sample_tm) + length [Begin] + 1 < 2 ^ 64 - 1" using sample_small(2) by simp
  show ?thesis
    using first_committer_wins [OF sample_tm_inv sample_tx_at(1) at _ pend c ok len run] c run by auto
qed

text \<open>C17: Committed writes of plain keys (not empty and without a zero byte) become visible. In a store
  and a manager that have only seen plain keys, after a successful commit the transaction begun next
  reads, for every plain key the committed one had put, the value it put (an empty value reads as not
  found), not found for every plain key it had deleted, and for every other plain key what was stored
  before. Allocations and system calls succeed and the timestamps stay below the 64-bit limit. The empty
  key is excluded because a version of it is stored but never decoded.\<close>

theorem commit_becomes_visible:
  assumes "tm_inv tm w m" and "tx_at tm h = Some tx" and "tx_commit tm h w = Some (TX_OK, tm1, w1)"
    and "unat (next_ts tm) + 2 < 2 ^ 64 - 1" and "tx_begin tm1 w1 = (Some h2, tm2, w2)" and "plain_key k"
  shows "tx_get tm2 h2 k w2 = Some ((case pending tx k of
      Some None \<Rightarrow> (TX_NOT_FOUND, None)
    | Some (Some v) \<Rightarrow> if v = [] then (TX_NOT_FOUND, None) else (TX_OK, Some v)
    | None \<Rightarrow> (case snapshot m (next_ts tm) k of
        None \<Rightarrow> (TX_NOT_FOUND, None) | Some v \<Rightarrow> if v = [] then (TX_NOT_FOUND, None) else (TX_OK, Some v))), w2)"
proof -
  let ?c = "next_ts tm"
  let ?m = "commit_content m ?c (write_set tx)"
  have ts: "?c < UINT64_MAX" using assms(4) by (simp add: word_less_nat_alt unat_UINT64_MAX)
  note I = tm_invD [OF assms(1)] and suc = u64_succ_le [OF ts]
  have "\<not> conflicting m tx" using tx_commit_conflict [OF assms(1,2)] assms(3) by auto
  then have c: "tm_inv tm1 w1 ?m" "next_ts tm1 = ?c + 1"
    using tx_commit_ok [OF assms(1,2) _ ts] assms(3) by auto
  have room: "active_count tm1 < length (active_txs tm1)" using assms(5) by (auto simp: tx_begin_def split: if_splits)
  have ts1: "next_ts tm1 < UINT64_MAX" using assms(4) suc c(2) by (simp add: word_less_nat_alt unat_UINT64_MAX)
  obtain tx2 where b: "tm_inv tm2 w2 ?m" "tx_at tm2 h2 = Some tx2" "start_ts tx2 = ?c + 1" "pending tx2 = Map.empty"
    using tx_begin_spec [OF c(1) room ts1] assms(5) c(2) by auto
  have keys: "distinct (map we_key (write_set tx))" "\<forall>e \<in> set (write_set tx). plain_key (we_key e)"
    using I(5) [OF assms(2)] by (simp_all add: tx_ok_def tx_wf_def)
  have vs: "versions ?m k = (case pending tx k of None \<Rightarrow> versions m k | Some v \<Rightarrow> (?c, opt_bytes v) # versions m k)"
    using commit_content_versions(2) [OF I(2,3) keys, of k] by (simp add: pending_def)
  have all: "filter (\<lambda>(ver, v). ver \<le> s) (versions m k) = versions m k" if "?c \<le> s" for s
    using I(3) assms(6) that unfolding fresh_ts_def by (fastforce simp: filter_id_conv)
  have "snapshot ?m (?c + 1) k = (case pending tx k of None \<Rightarrow> snapshot m ?c k | Some v \<Rightarrow> Some (opt_bytes v))"
    using vs all [of "?c + 1"] all [of ?c] suc by (auto simp: snapshot_def split: option.splits)
  then show ?thesis
    using tx_get_spec [OF b(1,2) assms(6)] b(3,4)
    by (auto simp: tx_read_def opt_bytes_def split: option.splits)
qed

theorem commit_becomes_visible_witness:
  "\<exists>tm1 w1 h2 tm2 w2. tx_commit sample_tm 0 quiet_world = Some (TX_OK, tm1, w1) \<and>
    tx_begin tm1 w1 = (Some h2, tm2, w2) \<and> tx_get tm2 h2 [97] w2 = Some ((TX_OK, Some [1]), w2)"
proof -
  obtain tm1 w1 where c: "tx_commit sample_tm 0 quiet_world = Some (TX_OK, tm1, w1)"
    "tm_inv tm1 w1 (commit_content [] 3 (write_set (sample_tx 1)))" "next_ts tm1 = 4" "active_count tm1 < length (active_txs tm1)"
    using tx_commit_ok [OF sample_tm_inv sample_tx_at(1) sample_not_conflicting sample_small(1)] by auto
  have "next_ts tm1 < UINT64_MAX" using c(3) by (simp add: word_less_nat_alt unat_UINT64_MAX)
  then obtain h2 tm2 w2 where b: "tx_begin tm1 w1 = (Some h2, tm2, w2)" using tx_begin_spec [OF c(2,4)] by auto
  have "unat (next_ts sample_tm) + 2 < 2 ^ 64 - 1" by (rule sample_small(2))
  then show ?thesis
    using commit_becomes_visible [OF sample_tm_inv sample_tx_at(1) c(1) _ b plain_97] c(1) b by auto
qed

section \<open>The version encoding\<close>

text \<open>C29: The version encoding can be inverted and sorts correctly, for keys that are not empty and
  contain no zero byte: decoding what \<^verbatim>\<open>version_encode_key\<close> produced for such a key gives the
  key and the timestamp back, and the encoded keys sort by key first and, for one key, newest version
  first.\<close>

theorem version_encoding:
  assumes "version_encode_key k v w = ((TX_OK, vk), w1)" and "version_encode_key k' v' w' = ((TX_OK, vk'), w1')"
    and "plain_key k" and "plain_key k'"
  shows "version_decode_key vk = (TX_OK, k, v) \<and>
    (default_compare vk vk' < 0 \<longleftrightarrow> default_compare k k' < 0 \<or> k = k' \<and> v' < v)"
proof -
  have "vk = encoded_key k v" "vk' = encoded_key k' v'"
    using assms(1,2) by (auto simp: version_encode_key_def split: prod.splits if_splits)
  then show ?thesis
    using assms(3,4) by (cases "k = k'") (simp_all add: encoded_key_newer encoded_key_other)
qed

theorem version_encoding_witness:
  "version_decode_key (encoded_key [97] 7) = (TX_OK, [97], 7) \<and> default_compare (encoded_key [97] 7) (encoded_key [97] 3) < 0"
  using version_encoding [of "[97]" 7 quiet_world "encoded_key [97] 7" quiet_world "[97]" 3 quiet_world
      "encoded_key [97] 3" quiet_world]
  by (simp add: version_encode_key_def)

section \<open>Keys with a zero byte\<close>

text \<open>A key is hidden when a live version of an extension of it by a zero byte and a byte that is
  neither 0 nor 255 is stored, and its own versions are below 2^56, so that their encodings go on
  with the byte 255.\<close>

definition hidden :: "kv_list \<Rightarrow> bytes \<Rightarrow> bool" where
  "hidden m k \<longleftrightarrow> (\<exists>b s ts v. 0 < b \<and> b < 255 \<and> (encoded_key (k @ 0 # b # s) ts, v, False) \<in> set m) \<and>
     (\<forall>ts v d. (encoded_key k ts, v, d) \<in> set m \<longrightarrow> ts < 2 ^ 56)"

lemma hd_be_bytes_small:
  assumes "ts < 2 ^ 56"
  shows "hd (be_bytes (NOT ts)) = 255"
proof -
  have "take_bit 56 ts = ts" using assms by (simp add: take_bit_eq_mask less_mask_eq)
  then have "\<not> bit ts n" if "56 \<le> n" for n using that by (metis bit_take_bit_iff not_le)
  then have "(ucast (drop_bit 56 (NOT ts)) :: u8) = NOT 0"
    by (intro bit_word_eqI) (simp add: bit_simps)
  moreover have "hd (be_bytes (NOT ts)) = ucast (drop_bit 56 (NOT ts) AND 0xFF :: u64)"
    by (simp add: be_bytes_def upt_8)
  ultimately show ?thesis by (simp only: ucast_and_255) simp
qed

lemma hidden_before_version:
  assumes "0 < b" and "b < 255" and "ts < 2 ^ 56"
  shows "default_compare (encoded_key (k @ 0 # b # s) ts') (encoded_key k ts) < 0"
    and "\<not> default_compare (encoded_key (k @ 0 # b # s) ts') (encoded_key k UINT64_MAX) < 0"
proof -
  obtain x xs where "be_bytes (NOT ts) = x # xs" "x = 255"
    using hd_be_bytes_small [OF assms(3)] by (cases "be_bytes (NOT ts)") (auto simp: be_bytes_def upt_8)
  then show "default_compare (encoded_key (k @ 0 # b # s) ts') (encoded_key k ts) < 0"
    using assms(2) by (simp add: encoded_key_def TX_VERSION_SEP_def)
  show "\<not> default_compare (encoded_key (k @ 0 # b # s) ts') (encoded_key k UINT64_MAX) < 0"
    using assms(1) by (simp add: encoded_key_def TX_VERSION_SEP_def be_bytes_def upt_8 UINT64_MAX_def)
qed

lemma dropWhile_keeps: "x \<in> set xs \<Longrightarrow> \<not> P x \<Longrightarrow> x \<in> set (dropWhile P xs)"
  by (induction xs) auto

lemma sorted_wrt_dropWhile: "sorted_wrt f xs \<Longrightarrow> sorted_wrt f (dropWhile P xs)"
  by (metis sorted_wrt_append takeWhile_dropWhile_id)

lemma hidden_latest:
  assumes a: "alloc_ok w" and rep: "mt_rep default_compare (db_memtable (tm_storage tm)) m" and k: "hidden m k"
    and enc: "\<forall>(vk, v, d) \<in> set m. \<exists>k' ts. k' \<noteq> [] \<and> vk = encoded_key k' ts"
  shows "get_latest_commit_ts tm k w = Some ((TX_OK, 0), w)"
proof -
  let ?x = "encoded_key k UINT64_MAX"
  obtain b s ts v where z: "0 < b" "b < 255" "(encoded_key (k @ 0 # b # s) ts, v, False) \<in> set m"
    and small: "\<And>ts v d. (encoded_key k ts, v, d) \<in> set m \<Longrightarrow> ts < 2 ^ 56"
    using k unfolding hidden_def by blast
  obtain t where t: "db_memtable (tm_storage tm) = Some t" "storage_iter_create (tm_storage tm) w = (Some None, w)"
    using iter_create_ok [OF a rep] by blast
  define R where "R = dropWhile (\<lambda>(k, v, d). d) (dropWhile (\<lambda>e. default_compare (fst e) ?x < 0) m)"
  obtain it where it: "storage_iter_seek t ?x None = Some it" "mt_iter default_compare t m it R"
    using storage_iter_seek_spec [OF rep [unfolded t(1)], of ?x None] unfolding R_def by auto
  let ?z = "encoded_key (k @ 0 # b # s) ts"
  have zR: "(?z, v, False) \<in> set R"
    unfolding R_def using z(3) hidden_before_version(2) [OF z(1,2), of 0 k s ts] by (auto intro!: dropWhile_keeps)
  then obtain x R' where R: "R = x # R'" by (cases R) auto
  then have "x \<in> set m" unfolding R_def by (metis list.set_intros(1) set_dropWhileD)
  then obtain k' ts' v' d where x: "x = (encoded_key k' ts', v', d)" "(encoded_key k' ts', v', d) \<in> set m" "k' \<noteq> []"
    using enc by fast
  have "sorted_wrt (\<lambda>x y. default_compare (fst x) (fst y) < 0) R"
    unfolding R_def by (intro sorted_wrt_dropWhile dk.mt_rep_sorted [OF rep])
  then have first: "encoded_key k' ts' = ?z \<or> default_compare (encoded_key k' ts') ?z < 0"
    using zR unfolding R x(1) by auto
  have "k' \<noteq> k"
  proof
    assume "k' = k"
    then have "default_compare ?z (encoded_key k' ts') < 0" using hidden_before_version(1) [OF z(1,2) small] x(2) by simp
    then show False using first dk.cmp_asym [of ?z "encoded_key k' ts'"] by auto
  qed
  moreover have "storage_iter_valid it" "storage_iter_key t it = Some (encoded_key k' ts')"
    using mt_iter_valid [OF it(2)] mt_iter_at(1) [OF it(2) [unfolded R x(1)]] R by (simp_all add: storage_iter_valid_def storage_iter_key_def)
  ultimately show ?thesis
    using t it(1) a x(3) by (simp add: get_latest_commit_ts_def version_encode_key_def version_decode_encode)
qed

lemma hidden_no_conflict:
  assumes "alloc_ok w" and "mt_rep default_compare (db_memtable (tm_storage tm)) m" and "\<forall>e \<in> set es. hidden m (we_key e)"
    and "\<forall>(vk, v, d) \<in> set m. \<exists>k' ts. k' \<noteq> [] \<and> vk = encoded_key k' ts"
  shows "check_writes tm ts es w = Some (TX_OK, w)"
  using assms(3) by (induction es) (simp_all add: hidden_latest [OF assms(1,2) _ assms(4)])

lemma commit_content_stores:
  assumes "distinct (map we_key es)" and "map_of (map (\<lambda>e. (we_key e, entry_effect e)) es) k = Some v"
  shows "map_of (commit_content m ts es) (encoded_key k ts) = Some (opt_bytes v, False)"
proof -
  have frame: "map_of (commit_content m ts es) (encoded_key k ts) = map_of m (encoded_key k ts)" if "k \<notin> we_key ` set es" for m es
    using that
    by (induction es arbitrary: m) (auto simp: commit_content_def put_op_def dk.map_of_kv_insert encoded_key_inj)
  show ?thesis
    using assms
  proof (induction es arbitrary: m)
    case (Cons e es)
    have step: "commit_content m ts (e # es) =
        commit_content (kv_insert default_compare (encoded_key (we_key e) ts) (opt_bytes (entry_effect e)) False m) ts es" for m
      by (simp add: commit_content_def put_op_def opt_bytes_def)
    show ?case
    proof (cases "we_key e = k")
      case True
      then show ?thesis using Cons.prems frame [of es] by (auto simp: step dk.map_of_kv_insert)
    next
      case False
      then show ?thesis using Cons by (simp add: step)
    qed
  qed simp
qed

text \<open>C31: A key with a zero byte hides conflicts. Let a store hold versions of non-empty keys, among
  them, for every key \<open>k\<close> a transaction has written, a live version of a key that extends
  \<open>k\<close> by a zero byte and a byte other than 0 and 255 (the versions of \<open>k\<close> being below
  2^56), in a world where allocations and system calls succeed. Then \<^verbatim>\<open>tx_commit\<close> succeeds although
  another transaction has committed one of the written keys after the snapshot was taken, and stores the
  transaction's value as a version newer than that update, which is lost.\<close>

theorem zero_byte_key_hides_conflict:
  assumes "db_rep (tm_storage tm) w m" and "\<forall>(vk, v, d) \<in> set m. \<exists>k ts. k \<noteq> [] \<and> vk = encoded_key k ts"
    and "tx_at tm h = Some tx" and "tx_state tx = TX_STATE_ACTIVE" and "tx_wf tx" and "\<forall>e \<in> set (write_set tx). write_small e"
    and "\<forall>e \<in> set (write_set tx). hidden m (we_key e)"
    and "\<forall>l. db_wal (tm_storage tm) = Some l \<longrightarrow> wal_path l \<noteq> tm_wal tm"
    and "pending tx k = Some v" and "(encoded_key k ts, u, False) \<in> set m" and "start_ts tx < ts" and "ts < next_ts tm"
  shows "\<exists>tm' w' m'. tx_commit tm h w = Some (TX_OK, tm', w') \<and> db_rep (tm_storage tm') w' m' \<and>
    map_of m' (encoded_key k (next_ts tm)) = Some (opt_bytes v, False) \<and>
    default_compare (encoded_key k (next_ts tm)) (encoded_key k ts) < 0"
proof -
  let ?ts = "next_ts tm"
  have q: "quiet w" and mt: "mt_rep default_compare (db_memtable (tm_storage tm)) m" using assms(1) by (simp_all add: db_rep_def)
  have chk: "check_write_conflicts tm tx w = Some (TX_OK, w)"
    unfolding check_write_conflicts_def by (rule hidden_no_conflict [OF quietD(1) [OF q] mt assms(7,2)])
  obtain db' w1 where ap: "apply_writes (tm_storage tm) ?ts (write_set tx) w = Some (TX_OK, db', w1)"
    "db_rep db' w1 (commit_content m ?ts (write_set tx))"
    "map_option wal_path (db_wal db') = map_option wal_path (db_wal (tm_storage tm))"
    using apply_writes_spec [OF assms(1), of "write_set tx" ?ts] assms(5,6) by (auto simp: tx_wf_def)
  define tm1 where "tm1 = (set_tx (tm\<lparr>next_ts := ?ts + 1\<rparr>) h (Some (tx\<lparr>commit_ts := ?ts\<rparr>)))\<lparr>tm_storage := db'\<rparr>"
  define w' where "w' = w1\<lparr>w_fs := (w_fs w1)(tm_wal tm \<mapsto> file_bytes (tm_wal tm) w1 @
     tx_record_bytes (TX_WAL_COMMIT, tx_id tx, ?ts, []))\<rparr>"
  have "wal_path l \<noteq> tm_wal tm" if "db_wal db' = Some l" for l
    using ap(3) that assms(8) by (cases "db_wal (tm_storage tm)") auto
  then have rep: "db_rep db' w' (commit_content m ?ts (write_set tx))"
    unfolding w'_def by (intro db_rep_other_file [OF ap(2)]) blast
  have "io_ok w1" using ap(2) by (simp add: db_rep_def quiet_def)
  then have "tx_commit tm h w = Some (TX_OK, set_tx (remove_active_tx tm1 h) h None, w')"
    using assms(3,4) chk ap(1)
    by (simp add: tx_commit_def Let_def tx_wal_log_commit_def write_record_quiet tx_wal_sync_def tm1_def w'_def)
  moreover have "tm_storage (set_tx (remove_active_tx tm1 h) h None) = db'" by (simp add: tm1_def)
  moreover have "map_of (commit_content m ?ts (write_set tx)) (encoded_key k ?ts) = Some (opt_bytes v, False)"
    using commit_content_stores assms(5,9) by (simp add: pending_def tx_wf_def)
  ultimately show ?thesis using rep assms(12) encoded_key_newer by auto
qed

theorem zero_byte_key_hides_conflict_witness:
  "\<exists>db w0 tm' w'. kv_run db_step (fresh_db\<lparr>db_wal := None\<rparr>)
      [Put (encoded_key [97, 0, 98] 2) (Some [1]), Put (encoded_key [97] 5) (Some [2])] quiet_world = Some (db, w0) \<and>
    start_ts (sample_tx 2) < 5 \<and>
    tx_commit (sample_tm\<lparr>tm_storage := db, next_ts := 6\<rparr>) 1 w0 = Some (TX_OK, tm', w')"
proof -
  let ?xs = "[Put (encoded_key [97, 0, 98] 2) (Some [1]), Put (encoded_key [97] 5) (Some [2])]"
  let ?m = "[(encoded_key [97, 0, 98] 2, [1], False), (encoded_key [97] 5, [2], False)] :: kv_list"
  have ok: "\<forall>x \<in> set ?xs. op_ok x" by (simp add: opt_bytes_def)
  have "default_compare (encoded_key [97, 0, 98] 2) (encoded_key [97] 5) < 0"
    by (simp add: encoded_key_def TX_VERSION_SEP_def be_bytes_def upt_8)
  then have m: "foldl (kv_step default_compare) [] ?xs = ?m" by (simp add: kv_insert_def opt_bytes_def)
  have r: "db_rep (fresh_db\<lparr>db_wal := None\<rparr>) quiet_world []" using fresh_db_rep by (simp add: db_rep_def)
  obtain db w0 where db: "kv_run db_step (fresh_db\<lparr>db_wal := None\<rparr>) ?xs quiet_world = Some (db, w0)" "db_rep db w0 ?m"
    using db_store.run_refines [OF r ok, unfolded m] by blast
  have wal: "db_wal db = None" using db_run_wal [OF db(1)] by simp
  let ?tm = "sample_tm\<lparr>tm_storage := db, next_ts := 6\<rparr>"
  have at: "tx_at ?tm 1 = Some (sample_tx 2)" by (simp add: tx_at_def sample_tm_def)
  have tx: "tx_state (sample_tx 2) = TX_STATE_ACTIVE" "tx_wf (sample_tx 2)" "\<forall>e \<in> set (write_set (sample_tx 2)). write_small e"
    using sample_tx_ok [of 2] by (simp_all add: tx_ok_def)
  have "hidden ?m [97]"
    unfolding hidden_def by (auto simp: encoded_key_inj intro!: exI [of _ 98] exI [of _ "[]"] exI [of _ 2])
  then have hid: "\<forall>e \<in> set (write_set (sample_tx 2)). hidden ?m (we_key e)" by (simp add: sample_tx_def)
  have enc: "\<forall>(vk, v, d) \<in> set ?m. \<exists>k ts. k \<noteq> [] \<and> vk = encoded_key k ts" by (auto simp: encoded_key_inj)
  have rep: "db_rep (tm_storage ?tm) w0 ?m" using db(2) by simp
  obtain v where v: "pending (sample_tx 2) [97] = Some v" by (cases "pending (sample_tx 2) [97]") simp_all
  have st: "start_ts (sample_tx 2) < 5" by (simp add: sample_tx_def)
  show ?thesis
    using zero_byte_key_hides_conflict [OF rep enc at tx hid _ v, of 5 "[2]"] st wal db(1) by auto
qed

section \<open>Recovery and garbage collection\<close>

text \<open>C30: Recovery restores the counters. When the transaction log holds any records, possibly followed by
  a torn header, \<^verbatim>\<open>tx_recover\<close> succeeds and leaves both counters above every transaction
  identifier and every timestamp in the log, and no smaller than before.\<close>

theorem tx_recover_counters:
  assumes "quiet w" and "w_fs w (tx_wal_path (tm_path tm)) = Some (tx_image rs @ tail)" and "\<forall>r \<in> set rs. tx_record_ok r"
    and "length tail < 32" and "\<forall>(t, i, ts, d) \<in> set rs. i < UINT64_MAX \<and> ts < UINT64_MAX"
  shows "\<exists>res tm'. tx_recover tm w = ((TX_OK, res), tm', w) \<and> next_tx_id tm \<le> next_tx_id tm' \<and> next_ts tm \<le> next_ts tm' \<and>
    (\<forall>(t, i, ts, d) \<in> set rs. i < next_tx_id tm' \<and> ts < next_ts tm')"
proof -
  obtain tr res where s: "scan_records ([], no_recovery) (tx_image rs @ tail) w = ((tr, res), w)"
    "foldl (\<lambda>s (t, i, ts, d). process_record (record_header t i ts d) s) ([], no_recovery) rs = (tr, res)"
    using scan_image [OF assms(1,3,4), of "([], no_recovery)"]
    by (cases "foldl (\<lambda>s (t, i, ts, d). process_record (record_header t i ts d) s) ([], no_recovery) rs") auto
  let ?I = "map (\<lambda>(t, i, ts, d). i) rs" and ?T = "map (\<lambda>(t, i, ts, d). ts) rs"
  have mx: "rr_max_tx_id res = foldl max 0 ?I" "rr_max_ts res = foldl max 0 ?T"
    using scan_max [OF s(2)] by (simp_all add: no_recovery_def)
  have below: "foldl max a xs < UINT64_MAX" if "a < UINT64_MAX" "\<forall>x \<in> set xs. x < UINT64_MAX" for a xs
    using that by (induction xs arbitrary: a) auto
  have lim: "rr_max_tx_id res < UINT64_MAX" "rr_max_ts res < UINT64_MAX"
    unfolding mx by (rule below; use assms(5) in \<open>force simp: word_less_nat_alt unat_UINT64_MAX\<close>)+
  define tm' where "tm' = (let tm = (if rr_max_tx_id res \<ge> next_tx_id tm then tm\<lparr>next_tx_id := rr_max_tx_id res + 1\<rparr> else tm)
     in if rr_max_ts res \<ge> next_ts tm then tm\<lparr>next_ts := rr_max_ts res + 1\<rparr> else tm)"
  have run: "tx_recover tm w = ((TX_OK, res), tm', w)"
    using assms(1,2) s(1) by (simp add: tx_recover_def sys_open_read_def quietD file_bytes_def tm'_def Let_def)
  have above: "x < x + 1" if "x < UINT64_MAX" for x :: u64
    using u64_succ_le [OF that] by (simp add: word_less_nat_alt)
  have up: "rr_max_tx_id res < next_tx_id tm'" "rr_max_ts res < next_ts tm'" "next_tx_id tm \<le> next_tx_id tm'" "next_ts tm \<le> next_ts tm'"
    using above [OF lim(1)] above [OF lim(2)] by (auto simp: tm'_def Let_def not_le intro: order_trans less_imp_le)
  have "i < next_tx_id tm' \<and> ts < next_ts tm'" if "(t, i, ts, d) \<in> set rs" for t i ts d
  proof -
    have "i \<in> set ?I" "ts \<in> set ?T" using that by force+
    then have "i \<le> rr_max_tx_id res" "ts \<le> rr_max_ts res" unfolding mx using foldl_max_bounds by blast+
    then show ?thesis using up(1,2) by (auto intro: order.strict_trans1)
  qed
  then show ?thesis using run up(3,4) by auto
qed

theorem tx_recover_counters_witness:
  "\<exists>res tm'. tx_recover sample_tm (quiet_world\<lparr>w_fs := [''d/tx.wal'' \<mapsto>
      tx_image [(TX_WAL_BEGIN, 4, 9, []), (TX_WAL_COMMIT, 4, 10, [])] @ [1, 0]]\<rparr>)
      = ((TX_OK, res), tm', quiet_world\<lparr>w_fs := [''d/tx.wal'' \<mapsto>
      tx_image [(TX_WAL_BEGIN, 4, 9, []), (TX_WAL_COMMIT, 4, 10, [])] @ [1, 0]]\<rparr>) \<and>
    4 < next_tx_id tm' \<and> 10 < next_ts tm'"
proof -
  let ?rs = "[(TX_WAL_BEGIN, 4, 9, []), (TX_WAL_COMMIT, 4, 10, [])]"
  let ?w = "quiet_world\<lparr>w_fs := [''d/tx.wal'' \<mapsto> tx_image ?rs @ [1, 0]]\<rparr>"
  have q: "quiet ?w" by (simp add: quiet_def)
  have f: "w_fs ?w (tx_wal_path (tm_path sample_tm)) = Some (tx_image ?rs @ [1, 0])"
    by (simp add: sample_tm_def tx_wal_path_def TX_WAL_FILENAME_def)
  have lim: "\<forall>(t, i, ts, d) \<in> set ?rs. i < UINT64_MAX \<and> ts < UINT64_MAX"
    by (simp add: word_less_nat_alt unat_UINT64_MAX)
  have ok: "\<forall>r \<in> set ?rs. tx_record_ok r" by (simp add: tx_record_ok_def)
  have len: "length [1, 0 :: u8] < 32" by simp
  show ?thesis using tx_recover_counters [OF q f ok len lim] by auto
qed

text \<open>The garbage collection horizon. The timestamp \<^verbatim>\<open>tx_gc_safe_ts\<close> computes is at most
  the snapshot of every open transaction, and is one of these snapshots unless no transaction is open,
  in which case it is the largest timestamp.\<close>

theorem gc_horizon:
  assumes "tm_inv tm w m"
  shows "\<exists>s. tx_gc_safe_ts tm = Some s \<and> (\<forall>h tx. tx_at tm h = Some tx \<longrightarrow> s \<le> start_ts tx) \<and>
    (if \<exists>h. tx_at tm h \<noteq> None then \<exists>h tx. tx_at tm h = Some tx \<and> start_ts tx = s else s = UINT64_MAX)"
proof -
  have act: "Some h \<in> set (active_txs tm) \<longleftrightarrow> tx_at tm h \<noteq> None" for h
    using tm_invD(4) [OF assms] by (simp add: active_inv_def)
  have scan: "\<exists>s. min_start tm as s0 = Some s \<and> s \<le> s0 \<and> (\<forall>h tx. Some h \<in> set as \<longrightarrow> tx_at tm h = Some tx \<longrightarrow> s \<le> start_ts tx) \<and>
      (s = s0 \<or> (\<exists>h tx. tx_at tm h = Some tx \<and> start_ts tx = s))"
    if "\<forall>h. Some h \<in> set as \<longrightarrow> tx_at tm h \<noteq> None" for as s0
    using that
  proof (induction as arbitrary: s0)
    case Nil
    then show ?case by simp
  next
    case (Cons a as)
    show ?case
    proof (cases a)
      case None
      then show ?thesis using Cons by auto
    next
      case (Some h)
      then obtain tx where tx: "tx_at tm h = Some tx" using Cons.prems by auto
      obtain s where s: "min_start tm as (min s0 (start_ts tx)) = Some s" "s \<le> min s0 (start_ts tx)"
        "\<forall>h tx. Some h \<in> set as \<longrightarrow> tx_at tm h = Some tx \<longrightarrow> s \<le> start_ts tx"
        "s = min s0 (start_ts tx) \<or> (\<exists>h tx. tx_at tm h = Some tx \<and> start_ts tx = s)"
        using Cons.IH [of "min s0 (start_ts tx)"] Cons.prems by auto
      have "min_start tm (a # as) s0 = Some s"
        using s(1) tx Some by (auto simp: min_def not_le split: if_splits)
      then show ?thesis using s(2-4) tx Some by (auto simp: min_def split: if_splits)
    qed
  qed
  obtain s where s: "tx_gc_safe_ts tm = Some s" "\<forall>h tx. tx_at tm h = Some tx \<longrightarrow> s \<le> start_ts tx"
    "s = UINT64_MAX \<or> (\<exists>h tx. tx_at tm h = Some tx \<and> start_ts tx = s)"
    using scan [of "active_txs tm" UINT64_MAX] act by (auto simp: tx_gc_safe_ts_def get_min_active_snapshot_def)
  have "start_ts tx = UINT64_MAX" if "s = UINT64_MAX" "tx_at tm h = Some tx" for h tx
    using s(2) that by (metis UINT64_MAX_def antisym word_order.extremum)
  then show ?thesis using s by auto
qed

theorem gc_horizon_witness: "tx_gc_safe_ts sample_tm = Some 1"
proof -
  obtain s where s: "tx_gc_safe_ts sample_tm = Some s" "\<forall>h tx. tx_at sample_tm h = Some tx \<longrightarrow> s \<le> start_ts tx"
    "if \<exists>h. tx_at sample_tm h \<noteq> None then \<exists>h tx. tx_at sample_tm h = Some tx \<and> start_ts tx = s else s = UINT64_MAX"
    using gc_horizon [OF sample_tm_inv] by auto
  have "s \<le> 1" using s(2) [rule_format, OF sample_tx_at(1)] by simp
  moreover have "s = 1 \<or> s = 2"
  proof -
    obtain h tx where tx: "tx_at sample_tm h = Some tx" "start_ts tx = s" using s(3) sample_tx_at(1) by (metis option.distinct(1))
    then show ?thesis using sample_tx_at(3) [OF tx(1)] by (elim disjE) auto
  qed
  ultimately show ?thesis using s(1) by (auto simp: word_le_nat_alt)
qed

end
