(* ===== verification/Tx_Iter.thy ===== *)
theory Tx_Iter
  imports Tx_Properties
begin

text \<open>
  Iteration over the visible keys (\<^verbatim>\<open>tx-manager/src/tx_iter.c\<close>). The iterator keeps a position in
  the memtable and a copy of the current key and value. The memtable and the transaction it was created
  for are the arguments \<open>mt\<close> and \<open>tx\<close>. The loops are \<open>partial_function (option)\<close>; the theorem at
  the end says that a whole scan returns.
\<close>

record tx_iter =
  ti_storage_iter :: skiplist_iter
  ti_current_key :: "bytes option"
  ti_current_value :: "bytes option"
  ti_valid :: bool

section \<open>The code\<close>

definition tx_iter_create :: "'l tx_manager \<Rightarrow> world \<Rightarrow> tx_iter option \<times> world" where
  "tx_iter_create tm w =
     (case malloc w of (ok, w) \<Rightarrow>
      if \<not> ok then (None, w)
      else case storage_iter_create (tm_storage tm) w of
        (None, w) \<Rightarrow> (None, w)
      | (Some it, w) \<Rightarrow>
          (Some \<lparr>ti_storage_iter = it, ti_current_key = None, ti_current_value = None, ti_valid = False\<rparr>, w))"

text \<open>The loop of \<^verbatim>\<open>advance_to_visible\<close>; \<open>last_key\<close> is null at the
  start and after a failed allocation.\<close>

partial_function (option) advance_loop ::
  "memtable \<Rightarrow> tx \<Rightarrow> bytes option \<Rightarrow> skiplist_iter \<Rightarrow> world \<Rightarrow> (tx_iter \<times> world) option"
where
  "advance_loop mt tx last_key it w =
     (if \<not> storage_iter_valid it
      then Some (\<lparr>ti_storage_iter = it, ti_current_key = None, ti_current_value = None, ti_valid = False\<rparr>, w)
      else do {
        vkey \<leftarrow> storage_iter_key mt it;
        case version_decode_key vkey of (st, key, version) \<Rightarrow>
        if st \<noteq> TX_OK then do { it \<leftarrow> storage_iter_next mt it; advance_loop mt tx last_key it w }
        else if last_key = Some key then do { it \<leftarrow> storage_iter_next mt it; advance_loop mt tx last_key it w }
        else if \<not> is_version_visible version tx then do { it \<leftarrow> storage_iter_next mt it; advance_loop mt tx last_key it w }
        else do {
          (p, n) \<leftarrow> storage_iter_value mt it;
          if n = 0 then
            (case malloc w of (ok, w) \<Rightarrow>
               do { it \<leftarrow> storage_iter_next mt it; advance_loop mt tx (if ok then Some key else None) it w })
          else
            (case malloc w of (ok1, w) \<Rightarrow> case malloc w of (ok2, w) \<Rightarrow>
               Some (\<lparr>ti_storage_iter = it, ti_current_key = (if ok1 then Some key else None),
                      ti_current_value = (if ok2 then Some (take n (opt_bytes p)) else None),
                      ti_valid = (ok1 \<and> ok2)\<rparr>, w))
        }
      })"

declare advance_loop.simps [code]

definition advance_to_visible :: "memtable \<Rightarrow> tx \<Rightarrow> tx_iter \<Rightarrow> world \<Rightarrow> (tx_iter \<times> world) option" where
  "advance_to_visible mt tx iter w = advance_loop mt tx None (ti_storage_iter iter) w"

definition tx_iter_seek_to_first :: "memtable \<Rightarrow> tx \<Rightarrow> tx_iter \<Rightarrow> world \<Rightarrow> (tx_iter \<times> world) option" where
  "tx_iter_seek_to_first mt tx iter w = do {
     it \<leftarrow> storage_iter_seek_to_first mt;
     advance_to_visible mt tx (iter\<lparr>ti_storage_iter := it\<rparr>) w
   }"

definition tx_iter_seek :: "memtable \<Rightarrow> tx \<Rightarrow> tx_iter \<Rightarrow> bytes \<Rightarrow> world \<Rightarrow> (tx_iter \<times> world) option" where
  "tx_iter_seek mt tx iter key w =
     (case version_encode_key key UINT64_MAX w of ((st, vkey), w) \<Rightarrow>
      if st \<noteq> TX_OK then Some (iter\<lparr>ti_valid := False\<rparr>, w)
      else do {
        it \<leftarrow> storage_iter_seek mt vkey (ti_storage_iter iter);
        advance_to_visible mt tx (iter\<lparr>ti_storage_iter := it\<rparr>) w
      })"

definition tx_iter_valid :: "tx_iter \<Rightarrow> bool" where
  "tx_iter_valid iter = ti_valid iter"

text \<open>The loop of \<^verbatim>\<open>tx_iter_next\<close> that moves past the versions of the current key.\<close>

partial_function (option) skip_versions :: "memtable \<Rightarrow> bytes \<Rightarrow> skiplist_iter \<Rightarrow> skiplist_iter option" where
  "skip_versions mt skip_key it =
     (if \<not> storage_iter_valid it then Some it
      else do {
        vkey \<leftarrow> storage_iter_key mt it;
        case version_decode_key vkey of (st, key, version) \<Rightarrow>
        if st = TX_OK \<and> key \<noteq> skip_key then Some it
        else do { it \<leftarrow> storage_iter_next mt it; skip_versions mt skip_key it }
      })"

declare skip_versions.simps [code]

definition tx_iter_next :: "memtable \<Rightarrow> tx \<Rightarrow> tx_iter \<Rightarrow> world \<Rightarrow> (tx_iter \<times> world) option" where
  "tx_iter_next mt tx iter w =
     (if \<not> ti_valid iter then Some (iter, w)
      else do {
        skip_key \<leftarrow> ti_current_key iter;
        it \<leftarrow> skip_versions mt skip_key (ti_storage_iter iter);
        advance_to_visible mt tx (iter\<lparr>ti_storage_iter := it, ti_current_key := None\<rparr>) w
      })"

definition tx_iter_key :: "tx_iter \<Rightarrow> bytes option" where
  "tx_iter_key iter = (if ti_valid iter then ti_current_key iter else None)"

definition tx_iter_value :: "tx_iter \<Rightarrow> bytes option" where
  "tx_iter_value iter = (if ti_valid iter then ti_current_value iter else None)"

section \<open>Steps over a versioned content\<close>

text \<open>What a scan of the entries from a position on yields: the newest visible version of each key.\<close>

fun visible :: "u64 \<Rightarrow> bytes option \<Rightarrow> kv_list \<Rightarrow> (bytes \<times> bytes) list" where
  "visible ts last_key [] = []"
| "visible ts last_key ((ek, v, d) # m) =
     (case version_decode_key ek of (st, k, ver) \<Rightarrow>
        if last_key = Some k \<or> ver > ts then visible ts last_key m
        else if v = [] then visible ts (Some k) m
        else (k, v) # visible ts (Some k) m)"

lemma versioned_Cons: "versioned (e # m) \<Longrightarrow> versioned m \<and> entry_ok e"
  by (simp add: versioned_def)

lemma versioned_dropWhile: "versioned (e # m) \<Longrightarrow> versioned (dropWhile P m)"
proof -
  assume "versioned (e # m)"
  then have "versioned (takeWhile P m @ dropWhile P m)" by (simp add: versioned_def)
  then show ?thesis unfolding versioned_def sorted_wrt_append set_append by blast
qed

text \<open>One key's versions are contiguous: behind an entry of another key there is none left.\<close>

lemma versions_behind:
  assumes "versioned ((encoded_key k ts, v, False) # m)" and "plain_key k" and "plain_key k'" and "k' \<noteq> k"
    and "default_compare k' k < 0"
  shows "versions m k' = []"
proof (rule versions_none)
  show "\<forall>e \<in> set m. entry_ok e" using assms(1) by (simp add: versioned_def)
  fix ts' v'
  show "(encoded_key k' ts', v', False) \<notin> set m"
    using assms encoded_key_other [of k k' ts ts'] dk.cmp_asym [of k k'] by (auto simp: versioned_def)
qed

lemma mt_iter_entry:
  assumes "mt_iter default_compare t m it ((encoded_key k ts, v, d) # rest)"
  shows "storage_iter_valid it" and "storage_iter_key t it = Some (encoded_key k ts)"
    and "\<exists>p. storage_iter_value t it = Some (p, length v) \<and> opt_bytes p = v"
  using mt_iter_valid [OF assms] mt_iter_at(1,3) [OF assms]
  by (auto simp: storage_iter_valid_def storage_iter_key_def storage_iter_value_def)

lemma mt_iter_step:
  assumes "mt_iter default_compare t m it (e # rest)" and "versioned (e # rest)"
  shows "\<exists>it'. storage_iter_next t it = Some it' \<and> mt_iter default_compare t m it' rest"
  using storage_iter_next_spec [OF assms(1)] no_deleted [of rest] assms(2) by (auto simp: versioned_def)

text \<open>An iterator after the loop: either at the end and nothing is visible behind it, or at the entry
  it copied.\<close>

definition iter_at :: "memtable \<Rightarrow> kv_list \<Rightarrow> u64 \<Rightarrow> tx_iter \<Rightarrow> (bytes \<times> bytes) list \<Rightarrow> bool" where
  "iter_at t m ts iter out \<longleftrightarrow>
     (case out of
        [] \<Rightarrow> \<not> ti_valid iter
      | (k, v) # out' \<Rightarrow> ti_valid iter \<and> ti_current_key iter = Some k \<and> ti_current_value iter = Some v \<and>
          (\<exists>ver rest. plain_key k \<and> versioned ((encoded_key k ver, v, False) # rest) \<and> 
             mt_iter default_compare t m (ti_storage_iter iter) ((encoded_key k ver, v, False) # rest) \<and>
             out' = visible ts (Some k) rest))"

lemma advance_loop_spec:
  assumes "alloc_ok w" and "mt_iter default_compare t m it rest" and "versioned rest"
  shows "\<exists>iter. advance_loop t tx last_key it w = Some (iter, w) \<and> iter_at t m (start_ts tx) iter (visible (start_ts tx) last_key rest)"
  using assms(2,3)
proof (induction rest arbitrary: it last_key)
  case Nil
  then show ?case using mt_iter_valid [OF Nil(1)]
    by (subst advance_loop.simps) (auto simp: storage_iter_valid_def iter_at_def)
next
  case (Cons e rest)
  have "entry_ok e" using Cons.prems(2) by (simp add: versioned_def)
  then obtain k ver v where e: "e = (encoded_key k ver, v, False)" and k: "plain_key k" by (rule entry_okE)
  note at = mt_iter_entry [OF Cons.prems(1) [unfolded e]]
  obtain p where p: "storage_iter_value t it = Some (p, length v)" "opt_bytes p = v" using at(3) by blast
  obtain it' where it': "storage_iter_next t it = Some it'" "mt_iter default_compare t m it' rest"
    using mt_iter_step [OF Cons.prems] by blast
  have vr: "versioned rest" using versioned_Cons [OF Cons.prems(2)] by simp
  note IH = Cons.IH [OF it'(2) vr]
  consider "last_key = Some k \<or> ver > start_ts tx" | "last_key \<noteq> Some k" "ver \<le> start_ts tx" "v = []"
    | "last_key \<noteq> Some k" "ver \<le> start_ts tx" "v \<noteq> []" by (meson not_le)
  then show ?case
  proof cases
    case 1
    then show ?thesis using IH [of last_key] at it'(1) k e
      by (subst advance_loop.simps) (auto simp: is_version_visible_def not_le)
  next
    case 2
    then show ?thesis using IH [of "Some k"] at it'(1) k e p assms(1)
      by (subst advance_loop.simps) (auto simp: is_version_visible_def)
  next
    case 3
    then show ?thesis using Cons.prems at k e p assms(1)
      by (subst advance_loop.simps) (auto simp: is_version_visible_def iter_at_def)
  qed
qed

definition key_is :: "bytes \<Rightarrow> bytes \<times> bytes \<times> bool \<Rightarrow> bool" where
  "key_is k e \<longleftrightarrow> fst (snd (version_decode_key (fst e))) = k"

lemma key_is_encoded [simp]: "plain_key k' \<Longrightarrow> key_is k (encoded_key k' ts, v, d) \<longleftrightarrow> k' = k"
  by (simp add: key_is_def)

lemma skip_versions_spec:
  assumes "mt_iter default_compare t m it rest" and "versioned rest"
  shows "\<exists>it'. skip_versions t k it = Some it' \<and> mt_iter default_compare t m it' (dropWhile (key_is k) rest)"
  using assms
proof (induction rest arbitrary: it)
  case Nil
  then show ?case using mt_iter_valid [OF Nil(1)] by (subst skip_versions.simps) (auto simp: storage_iter_valid_def)
next
  case (Cons e rest)
  have "entry_ok e" using Cons.prems(2) by (simp add: versioned_def)
  then obtain k' ver v where e: "e = (encoded_key k' ver, v, False)" and k': "plain_key k'" by (rule entry_okE)
  note at = mt_iter_entry [OF Cons.prems(1) [unfolded e]]
  obtain it' where it': "storage_iter_next t it = Some it'" "mt_iter default_compare t m it' rest"
    using mt_iter_step [OF Cons.prems] by blast
  show ?case using Cons.IH [OF it'(2)] versioned_Cons [OF Cons.prems(2)] Cons.prems(1) at it'(1) k' e
    by (subst skip_versions.simps) auto
qed

lemma visible_other: "\<forall>e \<in> set m. \<not> key_is k e \<Longrightarrow> visible ts (Some k) m = visible ts None m"
  by (induction ts "None :: bytes option" m rule: visible.induct) (auto simp: key_is_def split: prod.splits)

lemma visible_same: "\<forall>e \<in> set xs. key_is k e \<Longrightarrow> visible ts (Some k) (xs @ m) = visible ts (Some k) m"
  by (induction xs) (auto simp: key_is_def split: prod.splits)

lemma key_not_below:
  assumes "versioned ((encoded_key k ts, v, False) # m)" and "plain_key k" and "e \<in> set m"
  shows "key_is k e \<or> default_compare k (fst (snd (version_decode_key (fst e)))) < 0"
proof -
  have "entry_ok e" using assms by (simp add: versioned_def)
  then obtain k' ver v' where e: "e = (encoded_key k' ver, v', False)" "plain_key k'" by (rule entry_okE)
  moreover have "default_compare (encoded_key k ts) (fst e) < 0" using assms(1,3) by (simp add: versioned_def)
  ultimately show ?thesis using assms(2) encoded_key_other [of k k' ts ver] by auto
qed

lemma visible_skip:
  assumes v: "versioned ((encoded_key k ver, v, False) # rest)" and k: "plain_key k"
  shows "visible ts (Some k) rest = visible ts None (dropWhile (key_is k) rest)"
proof -
  let ?R = "dropWhile (key_is k) rest"
  have "\<forall>e \<in> set ?R. \<not> key_is k e"
  proof (cases ?R)
    case Nil
    show ?thesis unfolding Nil by simp
  next
    case (Cons e R)
    have ne: "\<not> key_is k e" using hd_dropWhile [of "key_is k" rest] Cons by simp
    have vR: "versioned (e # R)" using versioned_dropWhile [OF v, of "key_is k"] Cons by simp
    have el: "e \<in> set rest" using Cons by (metis list.set_intros(1) set_dropWhileD)
    obtain k' ver' v' where e: "e = (encoded_key k' ver', v', False)" "plain_key k'"
      using versioned_Cons [OF vR] by (auto elim: entry_okE)
    have "default_compare k k' < 0" using key_not_below [OF v k el] ne e by auto
    then have "\<not> key_is k x" if "x \<in> set R" for x
      using key_not_below [OF vR [unfolded e(1)] e(2) that] dk.cmp_asym [of k k'] ne e
      by (auto simp: key_is_def)
    then show ?thesis using ne unfolding Cons by simp
  qed
  moreover have "visible ts (Some k) rest = visible ts (Some k) ?R"
    using visible_same [of "takeWhile (key_is k) rest" k ts ?R] by (auto dest: set_takeWhileD)
  ultimately show ?thesis by (simp add: visible_other)
qed

lemma tx_iter_next_spec:
  assumes "alloc_ok w" and "iter_at t m (start_ts tx) iter ((k, v) # out)"
  shows "\<exists>iter'. tx_iter_next t tx iter w = Some (iter', w) \<and> iter_at t m (start_ts tx) iter' out"
proof -
  obtain ver rest where at: "ti_valid iter" "ti_current_key iter = Some k" "plain_key k"
    "versioned ((encoded_key k ver, v, False) # rest)"
    "mt_iter default_compare t m (ti_storage_iter iter) ((encoded_key k ver, v, False) # rest)"
    "out = visible (start_ts tx) (Some k) rest"
    using assms(2) by (auto simp: iter_at_def)
  obtain it' where it': "skip_versions t k (ti_storage_iter iter) = Some it'"
    "mt_iter default_compare t m it' (dropWhile (key_is k) rest)"
    using skip_versions_spec [OF at(5,4), of k] at(3) by auto
  have "versioned (dropWhile (key_is k) rest)" by (rule versioned_dropWhile [OF at(4)])
  then show ?thesis
    using advance_loop_spec [OF assms(1) it'(2), of tx None] at it'(1) visible_skip [OF at(4,3)]
    by (auto simp: tx_iter_next_def advance_to_visible_def)
qed

section \<open>A scan yields the snapshot\<close>

lemma visible_snapshot:
  assumes "versioned m" and "\<forall>l. last_key = Some l \<longrightarrow> (\<forall>e \<in> set m. key_is l e \<or> default_compare l (fst (snd (version_decode_key (fst e)))) < 0)"
  shows "(k, v) \<in> set (visible ts last_key m) \<longleftrightarrow> last_key \<noteq> Some k \<and> snapshot m ts k = Some v \<and> v \<noteq> []"
  using assms
proof (induction m arbitrary: last_key)
  case Nil
  then show ?case by (simp add: snapshot_def)
next
  case (Cons e m)
  note ve = versioned_Cons [OF Cons.prems(1)]
  then obtain k0 ver v0 where e: "e = (encoded_key k0 ver, v0, False)" and k0: "plain_key k0" by (auto elim: entry_okE)
  have behind: "\<forall>l. Some k0 = Some l \<longrightarrow> (\<forall>x \<in> set m. key_is l x \<or> default_compare l (fst (snd (version_decode_key (fst x)))) < 0)"
    using key_not_below [OF Cons.prems(1) [unfolded e] k0] by simp
  note IH = Cons.IH [OF conjunct1 [OF ve]]
  show ?case
  proof (cases "last_key = Some k0 \<or> ver > ts")
    case True
    then show ?thesis using IH [of last_key] Cons.prems(2) k0 by (auto simp: e snapshot_def not_le)
  next
    case False
    have gone: "snapshot m ts k = None" if "last_key = Some k"
    proof -
      have lt: "default_compare k k0 < 0" using Cons.prems(2) that False e k0 by auto
      have "\<not> key_is k x" if "x \<in> set m" for x
        using behind that lt dk.cmp_asym [of k k0] by (auto simp: key_is_def)
      then have "versions m k = []" by (fastforce simp: versions_def filter_empty_conv key_is_def)
      then show ?thesis by (simp add: snapshot_def)
    qed
    have sn: "snapshot (e # m) ts k = (if k0 = k then Some v0 else snapshot m ts k)"
      using False k0 by (auto simp: e snapshot_def not_less)
    have "(k, v) \<in> set (visible ts last_key (e # m)) \<longleftrightarrow>
        k0 = k \<and> v0 = v \<and> v \<noteq> [] \<or> k0 \<noteq> k \<and> snapshot m ts k = Some v \<and> v \<noteq> []"
      using IH [of "Some k0", OF behind] False k0 by (auto simp: e)
    then show ?thesis using gone False by (auto simp: sn)
  qed
qed

lemma visible_sorted:
  assumes "versioned m"
  shows "sorted_wrt (\<lambda>x y. default_compare (fst x) (fst y) < 0) (visible ts last_key m)"
  using assms
proof (induction m arbitrary: last_key)
  case Nil
  then show ?case by simp
next
  case (Cons e m)
  note ve = versioned_Cons [OF Cons.prems]
  then obtain k0 ver v0 where e: "e = (encoded_key k0 ver, v0, False)" and k0: "plain_key k0" by (auto elim: entry_okE)
  have behind: "\<forall>l. Some k0 = Some l \<longrightarrow> (\<forall>x \<in> set m. key_is l x \<or> default_compare l (fst (snd (version_decode_key (fst x)))) < 0)"
    using key_not_below [OF Cons.prems [unfolded e] k0] by simp
  have "default_compare k0 k < 0" if "(k, v) \<in> set (visible ts (Some k0) m)" for k v
  proof -
    have kv: "k0 \<noteq> k" "versions m k \<noteq> []"
      using that visible_snapshot [OF conjunct1 [OF ve] behind] by (auto simp: snapshot_def)
    then obtain x where "x \<in> set m" "key_is k x" by (auto simp: versions_def filter_empty_conv key_is_def)
    then show ?thesis using behind kv(1) by (auto simp: key_is_def)
  qed
  then show ?case using Cons.IH [OF conjunct1 [OF ve]] k0 by (auto simp: e)
qed

partial_function (option) tx_scan :: "memtable \<Rightarrow> tx \<Rightarrow> tx_iter \<Rightarrow> world \<Rightarrow> ((bytes \<times> bytes) list \<times> world) option" where
  "tx_scan mt tx iter w =
     (if \<not> tx_iter_valid iter then Some ([], w)
      else do {
        k \<leftarrow> tx_iter_key iter;
        v \<leftarrow> tx_iter_value iter;
        (iter, w) \<leftarrow> tx_iter_next mt tx iter w;
        (out, w) \<leftarrow> tx_scan mt tx iter w;
        Some ((k, v) # out, w)
      })"

lemma tx_scan_spec:
  assumes "alloc_ok w" and "iter_at t m (start_ts tx) iter out"
  shows "tx_scan t tx iter w = Some (out, w)"
  using assms(2)
proof (induction out arbitrary: iter)
  case Nil
  then show ?case by (subst tx_scan.simps) (simp add: iter_at_def tx_iter_valid_def)
next
  case (Cons p out)
  obtain k v where p: "p = (k, v)" by (cases p)
  obtain iter' where "tx_iter_next t tx iter w = Some (iter', w)" "iter_at t m (start_ts tx) iter' out"
    using tx_iter_next_spec [OF assms(1) Cons.prems [unfolded p]] by blast
  then show ?case using Cons.IH [of iter'] Cons.prems
    by (subst tx_scan.simps) (auto simp: p iter_at_def tx_iter_valid_def tx_iter_key_def tx_iter_value_def)
qed

lemma scan_from:
  assumes "alloc_ok w" and "mt_iter default_compare t m it rest" and "versioned rest"
  shows "\<exists>iter' out. advance_to_visible t tx (iter\<lparr>ti_storage_iter := it\<rparr>) w = Some (iter', w) \<and>
    tx_scan t tx iter' w = Some (out, w) \<and> sorted_wrt (\<lambda>x y. default_compare (fst x) (fst y) < 0) out \<and>
    (\<forall>k v. (k, v) \<in> set out \<longleftrightarrow> snapshot rest (start_ts tx) k = Some v \<and> v \<noteq> [])"
proof -
  obtain iter' where "advance_loop t tx None it w = Some (iter', w)"
    "iter_at t m (start_ts tx) iter' (visible (start_ts tx) None rest)"
    using advance_loop_spec [OF assms, of tx None] by blast
  then show ?thesis
    using tx_scan_spec [OF assms(1)] visible_sorted [OF assms(3)] visible_snapshot [OF assms(3), of None]
    by (auto simp: advance_to_visible_def)
qed

lemma snapshot_from:
  assumes vm: "versioned m" and key: "plain_key key"
  shows "snapshot (dropWhile (\<lambda>e. default_compare (fst e) (encoded_key key UINT64_MAX) < 0) m) ts k =
    (if default_compare k key < 0 then None else snapshot m ts k)"
proof -
  let ?P = "\<lambda>e :: bytes \<times> bytes \<times> bool. default_compare (fst e) (encoded_key key UINT64_MAX) < 0"
  have dw: "dropWhile ?P m = filter (\<lambda>e. \<not> ?P e) m"
    using dk.sorted_takeWhile [of fst m "encoded_key key UINT64_MAX"] vm by (simp add: versioned_def)
  have "versions (filter (\<lambda>e. \<not> ?P e) m) k = (if default_compare k key < 0 then [] else versions m k)"
    if "\<forall>e \<in> set m. entry_ok e" for m
    using that
  proof (induction m)
    case Nil
    then show ?case by simp
  next
    case (Cons e m)
    then obtain k' ver v where e: "e = (encoded_key k' ver, v, False)" "plain_key k'" by (auto elim: entry_okE)
    have "?P e \<longleftrightarrow> default_compare k' key < 0"
      using encoded_key_other [OF e(2) key] encoded_key_newer [of key ver UINT64_MAX]
      by (cases "k' = key") (auto simp: e UINT64_MAX_def dk.cmp_refl)
    then show ?case using Cons e by auto
  qed
  then show ?thesis using vm by (simp add: dw versioned_def snapshot_def)
qed

text \<open>C16: A scan with a transaction's iterator returns exactly its snapshot, in a store and a manager that
  have only seen plain keys (not empty and without a zero byte), while allocations succeed. From the
  first entry it terminates and yields, in key order and each key once, the keys whose newest version not
  after the transaction's start is not empty, with that value; after a seek to a plain key it yields
  those of them that are not below the key sought. With other keys this fails: the versions of a key need
  not be contiguous, and a version of the empty key is never yielded. The writes the transaction has buffered itself do not appear.\<close>

theorem tx_iter_scans_snapshot:
  assumes "tm_inv tm w m" and "tx_at tm h = Some tx" and "plain_key key"
  shows "\<exists>mt iter. db_memtable (tm_storage tm) = Some mt \<and> tx_iter_create tm w = (Some iter, w) \<and>
    (\<exists>iter' out. tx_iter_seek_to_first mt tx iter w = Some (iter', w) \<and> tx_scan mt tx iter' w = Some (out, w) \<and>
       sorted_wrt (\<lambda>x y. default_compare (fst x) (fst y) < 0) out \<and>
       (\<forall>k v. (k, v) \<in> set out \<longleftrightarrow> snapshot m (start_ts tx) k = Some v \<and> v \<noteq> [])) \<and>
    (\<exists>iter' out. tx_iter_seek mt tx iter key w = Some (iter', w) \<and> tx_scan mt tx iter' w = Some (out, w) \<and>
       sorted_wrt (\<lambda>x y. default_compare (fst x) (fst y) < 0) out \<and>
       (\<forall>k v. (k, v) \<in> set out \<longleftrightarrow> snapshot m (start_ts tx) k = Some v \<and> v \<noteq> [] \<and> \<not> default_compare k key < 0))"
proof -
  note I = tm_invD [OF assms(1)]
  have al: "alloc_ok w" using I(6) by (simp add: quiet_def)
  obtain t where t: "db_memtable (tm_storage tm) = Some t" "storage_iter_create (tm_storage tm) w = (Some None, w)"
    using iter_create_ok [OF al I(7)] by blast
  let ?iter = "\<lparr>ti_storage_iter = None, ti_current_key = None, ti_current_value = None, ti_valid = False\<rparr>"
  let ?x = "encoded_key key UINT64_MAX"
  let ?R = "dropWhile (\<lambda>e. default_compare (fst e) ?x < 0) m"
  have c: "tx_iter_create tm w = (Some ?iter, w)" using t(2) al by (simp add: tx_iter_create_def)
  have "\<forall>e \<in> set m. entry_ok e" using I(2) by (simp add: versioned_def)
  then have "dropWhile (\<lambda>(k, v, d). d) m = m" by (rule no_deleted)
  then obtain it where it: "storage_iter_seek_to_first t = Some it" "mt_iter default_compare t m it m"
    using storage_iter_first_spec [OF I(7) [unfolded t(1)]] by auto
  obtain it2 where it2: "storage_iter_seek t ?x None = Some it2" "mt_iter default_compare t m it2 ?R"
    using versioned_seek [OF I(7) [unfolded t(1)] I(2), of ?x None] by auto
  have "versioned (takeWhile (\<lambda>e. default_compare (fst e) ?x < 0) m @ ?R)" using I(2) by simp
  then have vR: "versioned ?R" unfolding versioned_def sorted_wrt_append set_append by blast
  have enc: "version_encode_key key UINT64_MAX w = ((TX_OK, ?x), w)" using al by (simp add: version_encode_key_def)
  show ?thesis
    using t(1) c it(1) it2(1) enc scan_from [OF al it(2) I(2), of tx ?iter] scan_from [OF al it2(2) vR, of tx ?iter]
    by (auto simp: tx_iter_seek_to_first_def tx_iter_seek_def snapshot_from [OF I(2) assms(3)])
qed

theorem tx_iter_scans_snapshot_witness:
  "\<exists>tm1 w1 h2 tm2 w2 tx2 mt iter iter' out. tx_commit sample_tm 0 quiet_world = Some (TX_OK, tm1, w1) \<and>
    tx_begin tm1 w1 = (Some h2, tm2, w2) \<and> tx_at tm2 h2 = Some tx2 \<and> db_memtable (tm_storage tm2) = Some mt \<and>
    tx_iter_create tm2 w2 = (Some iter, w2) \<and> tx_iter_seek_to_first mt tx2 iter w2 = Some (iter', w2) \<and>
    tx_scan mt tx2 iter' w2 = Some (out, w2) \<and> set out = {([97], [1])}"
proof -
  let ?m = "commit_content [] 3 (write_set (sample_tx 1))"
  obtain tm1 w1 where c: "tx_commit sample_tm 0 quiet_world = Some (TX_OK, tm1, w1)"
    "tm_inv tm1 w1 ?m" "next_ts tm1 = 4" "active_count tm1 < length (active_txs tm1)"
    using tx_commit_ok [OF sample_tm_inv sample_tx_at(1) sample_not_conflicting sample_small(1)] by auto
  have "next_ts tm1 < UINT64_MAX" using c(3) by (simp add: word_less_nat_alt unat_UINT64_MAX)
  then obtain h2 tm2 w2 tx2 where b: "tx_begin tm1 w1 = (Some h2, tm2, w2)" "tm_inv tm2 w2 ?m" "tx_at tm2 h2 = Some tx2" "start_ts tx2 = 4"
    using tx_begin_spec [OF c(2,4)] c(3) by auto
  have "versions ?m k = (case pending (sample_tx 1) k of None \<Rightarrow> [] | Some v \<Rightarrow> [(3, opt_bytes v)])" for k
    using commit_content_versions(2) [of "[]" 3 "write_set (sample_tx 1)" k]
    by (simp add: pending_def versioned_def fresh_ts_def sample_tx_def versions_def)
  then have "snapshot ?m 4 k = (if k = [97] then Some [1] else None)" for k by (simp add: snapshot_def opt_bytes_def)
  then have snap: "snapshot ?m (start_ts tx2) k = Some v \<and> v \<noteq> [] \<longleftrightarrow> (k, v) = ([97], [1])" for k v by (auto simp: b(4) split: if_splits)
  obtain mt iter iter' out where s: "db_memtable (tm_storage tm2) = Some mt" "tx_iter_create tm2 w2 = (Some iter, w2)"
    "tx_iter_seek_to_first mt tx2 iter w2 = Some (iter', w2)" "tx_scan mt tx2 iter' w2 = Some (out, w2)"
    "\<forall>k v. (k, v) \<in> set out \<longleftrightarrow> snapshot ?m (start_ts tx2) k = Some v \<and> v \<noteq> []"
    using tx_iter_scans_snapshot [OF b(2,3) plain_97] by (elim exE conjE) (rule that)
  have "set out = {([97], [1])}" using s(5) unfolding snap by auto
  then show ?thesis using c(1) b(1,3) s(1-4) by blast
qed

end
