(* ===== verification/SE_Level_Spec.thy ===== *)
theory SE_Level_Spec
  imports SE_Manifest
begin

text \<open>
  What a lookup through the levels returns: the newest table of level 0 that has the key, then the
  tables of the levels below, which are disjoint and ordered by their keys. Also the names of table
  files: different numbers give different names.
\<close>

section \<open>Lookup in a list of tables\<close>

fun tables_lookup :: "(bytes \<times> bytes \<times> bool) list list \<Rightarrow> bytes \<Rightarrow> lookup_result" where
  "tables_lookup [] key = (STATUS_NOT_FOUND, None, False)"
| "tables_lookup (es # ess) key = (if map_of es key = None then tables_lookup ess key else table_lookup es key)"

definition absent :: "(bytes \<times> bytes \<times> bool) list list \<Rightarrow> bytes \<Rightarrow> bool" where
  "absent ess key \<longleftrightarrow> (\<forall>es \<in> set ess. map_of es key = None)"

lemma absent_simps [simp]: "absent [] key" "absent (es # ess) key \<longleftrightarrow> map_of es key = None \<and> absent ess key"
  "absent (xs @ ys) key \<longleftrightarrow> absent xs key \<and> absent ys key"
  by (auto simp: absent_def)

lemma tables_lookup_append [simp]:
  "tables_lookup (xs @ ys) key = (if absent xs key then tables_lookup ys key else tables_lookup xs key)"
  by (induction xs) auto

lemma tables_lookup_absent [simp]: "absent xs key \<Longrightarrow> tables_lookup xs key = (STATUS_NOT_FOUND, None, False)"
  by (induction xs) auto

lemma table_lookup_status: "fst (table_lookup es key) = (if map_of es key = None then STATUS_NOT_FOUND else STATUS_OK)"
  by (auto simp: table_lookup_def split: option.splits)

lemma tables_lookup_status: "fst (tables_lookup ess key) = (if absent ess key then STATUS_NOT_FOUND else STATUS_OK)"
  by (induction ess) (auto simp: table_lookup_status)

section \<open>Files that hold tables\<close>

definition file_rep :: "compare_fn \<Rightarrow> world \<Rightarrow> sstable_meta \<Rightarrow> (bytes \<times> bytes \<times> bool) list \<Rightarrow> bool" where
  "file_rep cmp w m es \<longleftrightarrow> reader_rep cmp (sm_reader m) w es \<and>
     (\<forall>e \<in> set es. key_in_range cmp (fst e) (sm_min_key m) (sm_max_key m))"

text \<open>The files of a level below level 0: each has a largest key, they are ordered by it, and every key
  of a later file is above it.\<close>

definition disjoint_files :: "compare_fn \<Rightarrow> sstable_meta list \<Rightarrow> (bytes \<times> bytes \<times> bool) list list \<Rightarrow> bool" where
  "disjoint_files cmp fs ess \<longleftrightarrow> (\<forall>m \<in> set fs. sm_max_key m \<noteq> None) \<and>
     (\<forall>i j. i < j \<and> j < length fs \<longrightarrow> cmp (opt_bytes (sm_max_key (fs ! i))) (opt_bytes (sm_max_key (fs ! j))) < 0 \<and>
        (\<forall>e \<in> set (ess ! j). cmp (opt_bytes (sm_max_key (fs ! i))) (fst e) < 0))"

definition levels_rep :: "compare_fn \<Rightarrow> level_manager \<Rightarrow> world \<Rightarrow> (bytes \<times> bytes \<times> bool) list list list \<Rightarrow> bool" where
  "levels_rep cmp lm w lss \<longleftrightarrow> lm_cmp lm = cmp \<and> length (lm_levels lm) = 7 \<and>
     list_all2 (\<lambda>l ess. list_all2 (file_rep cmp w) (lv_files l) ess) (lm_levels lm) lss \<and>
     list_all2 (\<lambda>l ess. disjoint_files cmp (lv_files l) ess) (tl (lm_levels lm)) (tl lss)"

text \<open>The tables in the order in which a lookup asks them.\<close>

definition search_order :: "'a list list \<Rightarrow> 'a list" where
  "search_order lss = rev (hd lss) @ concat (tl lss)"

lemma file_rep_cong:
  "file_rep cmp w m es \<Longrightarrow> file_bytes (sr_path (sm_reader m)) w' = file_bytes (sr_path (sm_reader m)) w \<Longrightarrow> file_rep cmp w' m es"
  by (simp add: file_rep_def reader_rep_def)

context key_order
begin

lemma get_in_file_spec:
  assumes "quiet w" and "lm_cmp lm = cmp" and "file_rep cmp w m es"
  shows "get_in_file lm key m w = Some (if map_of es key = None then None else Some (table_lookup es key), w)"
proof (cases "key_in_range cmp key (sm_min_key m) (sm_max_key m)")
  case True
  then show ?thesis
    using assms reader_get_spec [OF assms(1), of "sm_reader m" es key] table_lookup_status [of es key]
    by (auto simp: get_in_file_def file_rep_def split: if_splits)
next
  case False
  then have "map_of es key = None" using assms(3) by (auto simp: file_rep_def map_of_eq_None_iff)
  then show ?thesis using False assms(2) by (simp add: get_in_file_def)
qed

lemma get_in_files_spec:
  assumes "quiet w" and "lm_cmp lm = cmp" and "list_all2 (file_rep cmp w) ms ess"
  shows "get_in_files lm key ms w = Some (if absent ess key then None else Some (tables_lookup ess key), w)"
  using assms(3)
proof (induction rule: list_all2_induct)
  case (Cons m ms es ess)
  then show ?case using get_in_file_spec [OF assms(1,2) Cons.hyps(1)] by auto
qed simp

text \<open>Of a sorted level the binary search picks the only file that can have the key.\<close>

lemma level_candidate_spec:
  assumes c: "lm_cmp lm = cmp" and rep: "list_all2 (file_rep cmp w) (lv_files l) ess" and d: "disjoint_files cmp (lv_files l) ess"
  shows "\<exists>ess'. list_all2 (file_rep cmp w) (level_candidate lm key l) ess' \<and> (absent ess' key \<longleftrightarrow> absent ess key) \<and>
    tables_lookup ess' key = tables_lookup ess key"
proof -
  let ?fs = "lv_files l" and ?max = "\<lambda>i. opt_bytes (sm_max_key (lv_files l ! i))"
  have len: "length ess = length ?fs" using rep by (simp add: list_all2_lengthD)
  have "\<exists>r. lower_bound (\<lambda>mid. Some (Inr (lm_cmp lm (?max mid) key < 0))) 0 (length ?fs) = Some (Inr r) \<and> 0 \<le> r \<and> r \<le> length ?fs \<and>
      (\<forall>i. 0 \<le> i \<and> i < r \<longrightarrow> cmp (?max i) key < 0) \<and> (\<forall>i. r \<le> i \<and> i < length ?fs \<longrightarrow> \<not> cmp (?max i) key < 0)"
  proof (rule lower_bound_correct)
    fix i j assume ij: "0 \<le> i" "i \<le> j" "j < length ?fs" "cmp (?max j) key < 0"
    have "i < j \<Longrightarrow> cmp (?max i) (?max j) < 0" using ij(3) d by (simp add: disjoint_files_def)
    then show "cmp (?max i) key < 0" using ij(2,4) cmp_trans [of "?max i" "?max j" key] by (cases "i = j") auto
  qed (use c in auto)
  then obtain r where r: "search_files (\<lambda>m. lm_cmp lm (opt_bytes (sm_max_key m)) key < 0) ?fs = r" "r \<le> length ?fs"
    "\<And>i. i < r \<Longrightarrow> cmp (?max i) key < 0" "\<And>i. r \<le> i \<Longrightarrow> i < length ?fs \<Longrightarrow> \<not> cmp (?max i) key < 0"
    by (auto simp: search_files_def)
  have low: "map_of (ess ! i) key = None" if "i < r" for i
  proof -
    have i: "i < length ?fs" using that r(2) by simp
    then have "file_rep cmp w (?fs ! i) (ess ! i)" "sm_max_key (?fs ! i) \<noteq> None"
      using rep d by (auto simp: list_all2_conv_all_nth disjoint_files_def)
    then have "\<not> cmp (fst e) (?max i) > 0" if "e \<in> set (ess ! i)" for e
      using that by (auto simp: file_rep_def key_in_range_def)
    then have "fst e \<noteq> key" if "e \<in> set (ess ! i)" for e using that r(3) [OF \<open>i < r\<close>] cmp_flip by blast
    then show ?thesis by (auto simp: map_of_eq_None_iff)
  qed
  have high: "map_of (ess ! i) key = None" if "r < i" "i < length ?fs" for i
  proof -
    have "cmp (?max r) (fst e) < 0" if "e \<in> set (ess ! i)" for e using that \<open>r < i\<close> \<open>i < length ?fs\<close> d by (auto simp: disjoint_files_def)
    moreover have "\<not> cmp (?max r) key < 0" using r(4) [of r] that by simp
    ultimately show ?thesis by (auto simp: map_of_eq_None_iff)
  qed
  have pre: "absent (take r ess) key" using low by (auto simp: absent_def in_set_conv_nth)
  show ?thesis
  proof (cases "r < length ?fs")
    case True
    have "absent (drop (Suc r) ess) key" using high len by (auto simp: absent_def in_set_conv_nth)
    moreover have "ess = take r ess @ ess ! r # drop (Suc r) ess" using True len by (simp add: id_take_nth_drop)
    ultimately have "absent ess key \<longleftrightarrow> absent [ess ! r] key" "tables_lookup ess key = tables_lookup [ess ! r] key"
      using pre by (metis absent_simps tables_lookup_append tables_lookup.simps tables_lookup_absent)+
    moreover have "list_all2 (file_rep cmp w) (level_candidate lm key l) [ess ! r]"
      using True rep r(1) by (simp add: level_candidate_def list_all2_nthD)
    ultimately show ?thesis by metis
  next
    case False
    then have "level_candidate lm key l = []" "absent ess key" using r(1,2) pre len by (simp_all add: level_candidate_def)
    then show ?thesis by (intro exI [of _ "[]"]) simp
  qed
qed

lemma candidates_spec:
  assumes c: "lm_cmp lm = cmp" and "list_all2 (\<lambda>l ess. list_all2 (file_rep cmp w) (lv_files l) ess) ls lss"
    and "list_all2 (\<lambda>l ess. disjoint_files cmp (lv_files l) ess) ls lss"
  shows "\<exists>ess'. list_all2 (file_rep cmp w) (concat (map (level_candidate lm key) ls)) ess' \<and>
    (absent ess' key \<longleftrightarrow> absent (concat lss) key) \<and> tables_lookup ess' key = tables_lookup (concat lss) key"
  using assms(2,3)
proof (induction rule: list_all2_induct)
  case Nil
  then show ?case by (intro exI [of _ "[]"]) simp
next
  case (Cons l ls ess lss)
  obtain es1 where 1: "list_all2 (file_rep cmp w) (level_candidate lm key l) es1" "absent es1 key \<longleftrightarrow> absent ess key"
    "tables_lookup es1 key = tables_lookup ess key"
    using level_candidate_spec [OF c Cons.hyps(1)] Cons.prems by auto
  obtain es2 where 2: "list_all2 (file_rep cmp w) (concat (map (level_candidate lm key) ls)) es2"
    "absent es2 key \<longleftrightarrow> absent (concat lss) key" "tables_lookup es2 key = tables_lookup (concat lss) key"
    using Cons.IH Cons.prems by auto
  have "list_all2 (file_rep cmp w) (concat (map (level_candidate lm key) (l # ls))) (es1 @ es2)"
    using 1(1) 2(1) by (simp add: list_all2_appendI)
  then show ?case using 1(2,3) 2(2,3) by (intro exI [of _ "es1 @ es2"]) simp
qed

lemma level_get_spec:
  assumes q: "quiet w" and rep: "levels_rep cmp lm w lss"
  shows "level_get lm key w = Some (tables_lookup (search_order lss) key, w)"
proof -
  have R: "lm_cmp lm = cmp" "length (lm_levels lm) = 7" using rep by (simp_all add: levels_rep_def)
  then obtain l ls where lm: "lm_levels lm = l # ls" by (cases "lm_levels lm") auto
  obtain ess lss' where lss: "lss = ess # lss'" "list_all2 (file_rep cmp w) (lv_files l) ess"
    "list_all2 (\<lambda>l ess. list_all2 (file_rep cmp w) (lv_files l) ess) ls lss'"
    "list_all2 (\<lambda>l ess. disjoint_files cmp (lv_files l) ess) ls lss'"
    using rep by (auto simp: levels_rep_def lm list_all2_Cons1)
  obtain es2 where 2: "list_all2 (file_rep cmp w) (concat (map (level_candidate lm key) ls)) es2"
    "absent es2 key \<longleftrightarrow> absent (concat lss') key" "tables_lookup es2 key = tables_lookup (concat lss') key"
    using candidates_spec [OF R(1) lss(3,4)] by blast
  have "list_all2 (file_rep cmp w) (rev (lv_files l) @ concat (map (level_candidate lm key) ls)) (rev ess @ es2)"
    using lss(2) 2(1) by (simp add: list_all2_appendI)
  from get_in_files_spec [OF q R(1) this, of key] show ?thesis
    using 2(2,3) by (auto simp: level_get_def lm level_at_def search_order_def lss(1))
qed

end

section \<open>Names of table files\<close>

lemma of_digit_char: "d < 10 \<Longrightarrow> (of_char (digit_char d) :: nat) = 48 + d"
  by (simp add: digit_char_def)

lemma digits_value_snoc: "digits_value (s @ [c]) = digits_value s * 10 + ((of_char c :: nat) - 48)"
  by (simp add: digits_value_def)

lemma digits_value_decimal: "digits_value (decimal n) = n"
proof (induction n rule: decimal.induct)
  case (1 n)
  show ?case
  proof (cases "n < 10")
    case True
    then show ?thesis by (subst decimal.simps) (simp add: digits_value_def of_digit_char)
  next
    case False
    have "digits_value (decimal (n div 10) @ [digit_char (n mod 10)]) = n div 10 * 10 + n mod 10"
      using 1 False of_digit_char [of "n mod 10"] by (simp add: digits_value_snoc)
    then show ?thesis using False by (subst decimal.simps) simp
  qed
qed

lemma digits_value_zeros: "digits_value (replicate n (digit_char 0) @ s) = digits_value s"
proof -
  have "foldl (\<lambda>n c. n * 10 + ((of_char c :: nat) - 48)) 0 (replicate n (digit_char 0)) = 0"
    by (induction n) (simp_all add: of_digit_char)
  then show ?thesis by (simp add: digits_value_def)
qed

lemma decimal6_inject [simp]: "decimal6 m = decimal6 n \<longleftrightarrow> m = n"
proof
  assume "decimal6 m = decimal6 n"
  then have "digits_value (decimal6 m) = digits_value (decimal6 n)" by simp
  then show "m = n" by (simp add: decimal6_def digits_value_zeros digits_value_decimal)
qed simp

lemma sst_name_inject [simp]: "sst_name p m = sst_name p n \<longleftrightarrow> m = n"
  by (simp add: sst_name_def word_unat_eq_iff)

lemma sst_name_manifest [simp]: "sst_name p n \<noteq> manifest_path p" "manifest_path p \<noteq> sst_name p n"
proof -
  have "last (sst_name p n) = CHR ''t''" "last (manifest_path p) = CHR ''T''"
    by (simp_all add: sst_name_def manifest_path_def)
  then show "sst_name p n \<noteq> manifest_path p" "manifest_path p \<noteq> sst_name p n" by force+
qed

end
