(* ===== verification/SE_Flush.thy ===== *)
theory SE_Flush
  imports SE_Database SE_Level_Spec
begin

text \<open>
  A flush moves the content of the memtable into a new table of level 0: the lookups of the database
  before and after.
\<close>

section \<open>Lookups\<close>

definition lookup_value :: "lookup_result \<Rightarrow> bytes option" where
  "lookup_value r = (case r of (st, v, d) \<Rightarrow> if st = STATUS_OK \<and> \<not> d then Some (opt_bytes v) else None)"

text \<open>What the callers of \<open>storage_get\<close> see: a status and, with \<^verbatim>\<open>STATUS_OK\<close>, the bytes.\<close>

definition get_view :: "(status_t \<times> bytes option \<times> world) option \<Rightarrow> (status_t \<times> bytes) option" where
  "get_view r = map_option (\<lambda>(st, v, w). (st, opt_bytes v)) r"

definition found :: "bytes option \<Rightarrow> (status_t \<times> bytes) option" where
  "found r = Some (case r of None \<Rightarrow> (STATUS_NOT_FOUND, []) | Some v \<Rightarrow> (STATUS_OK, v))"

lemma storage_get_spec:
  assumes q: "quiet w" and mt: "mt_rep default_compare (db_memtable db) m" and lm: "db_levels db = Some lm"
    and rep: "levels_rep default_compare lm w lss" and k: "key \<noteq> []"
  shows "get_view (storage_get db key w) =
    found (case kv_get m key of Some v \<Rightarrow> Some v | None \<Rightarrow> lookup_value (tables_lookup (search_order lss) key))"
proof (cases "kv_get m key")
  case None
  then have g: "memtable_get (db_memtable db) key = Some (STATUS_NOT_FOUND, None)" using dk.mt_rep_get [OF mt k] by simp
  obtain st v d where r: "tables_lookup (search_order lss) key = (st, v, d)" by (cases "tables_lookup (search_order lss) key")
  then have "st = STATUS_OK \<or> st = STATUS_NOT_FOUND" using tables_lookup_status [of "search_order lss" key] by (simp split: if_splits)
  then show ?thesis using None g r lm dk.level_get_spec [OF q rep, of key]
    by (auto simp: storage_get_def get_view_def found_def lookup_value_def opt_bytes_def)
next
  case (Some v)
  then obtain p where "memtable_get (db_memtable db) key = Some (STATUS_OK, Some (p, length v))" "opt_bytes p = v"
    using dk.mt_rep_get [OF mt k] by auto
  then show ?thesis using Some q by (simp add: storage_get_def get_view_def found_def opt_bytes_def)
qed

section \<open>Writing the table\<close>

lemma writer_add_value:
  assumes "opt_bytes p = v"
  shows "sstable_writer_add sw k p (length v) d w = sstable_writer_add sw k (Some v) (length v) d w"
proof -
  have "append_entry sw r s k p (length v) d w = append_entry sw r s k (Some v) (length v) d w" for sw r s w
    using assms by (cases p) (simp_all add: append_entry_def opt_bytes_def cong del: prod.case_cong_weak if_weak_cong)
  then show ?thesis by (simp add: sstable_writer_add_def cong del: prod.case_cong_weak if_weak_cong)
qed

lemma flush_loop_writer: "mt_iter cmp t m it rest \<Longrightarrow> flush_loop t it sw w = writer_add_all sw rest w"
proof (induction rest arbitrary: it sw w)
  case Nil
  then show ?case using mt_iter_valid [OF Nil] by (subst flush_loop.simps) simp
next
  case (Cons e rest)
  obtain k v d where e: "e = (k, v, d)" by (cases e)
  obtain p where p: "memtable_iter_value t it = Some (p, length v)" "opt_bytes p = v"
    using mt_iter_at(3) [OF Cons.prems [unfolded e]] by blast
  obtain it1 where it1: "memtable_iter_next t it = Some it1" "mt_iter cmp t m it1 rest" using mt_iter_next [OF Cons.prems] by blast
  show ?case
    using mt_iter_valid [OF Cons.prems] mt_iter_at(1,2) [OF Cons.prems [unfolded e]] p(1) writer_add_value [OF p(2)] it1(1) Cons.IH [OF it1(2)]
    by (subst flush_loop.simps) (simp add: e cong del: if_weak_cong)
qed

lemma flush_table_spec:
  assumes q: "quiet w" and mt: "db_memtable db = Some t" "mt_rep default_compare (Some t) m" and c: "so_comparator (db_opts db) = None"
    and es: "entries_ok default_compare m" "length m \<le> 2 ^ 18"
  shows "\<exists>bs r. flush_table db t p w = Some (Inr r, with_file w p bs) \<and> sr_path r = p \<and>
    reader_rep default_compare r (with_file w p bs) m \<and>
    sstable_reader_min_key r = range_key (if m = [] then None else Some (fst (hd m))) \<and>
    sstable_reader_max_key r = range_key (if m = [] then None else Some (fst (last m)))"
proof -
  let ?n = "of_nat (length m) :: u64"
  have n: "memtable_count (db_memtable db) = length m" using dk.mt_rep_count mt by simp
  have "unat ?n = length m" using es(2) by (simp add: unat_of_nat)
  then have "table_size_ok m ?n" using es(2) by (simp add: table_size_ok_def)
  then obtain sw sw1 w1 bs r where T: "sstable_writer_create p ?n None w = (Some sw, with_file w p [])"
    "writer_add_all sw m (with_file w p []) = Some (STATUS_OK, sw1, w1)"
    "sstable_writer_finish sw1 w1 = Some (STATUS_OK, with_file w p bs)"
    "sstable_reader_open p None (with_file w p bs) = Some (Some r, with_file w p bs)"
    "sr_path r = p" "reader_rep default_compare r (with_file w p bs) m"
    "sstable_reader_min_key r = range_key (if m = [] then None else Some (fst (hd m)))"
    "sstable_reader_max_key r = range_key (if m = [] then None else Some (fst (last m)))"
    using dk.table_written [OF q es(1), of ?n None p] by auto
  obtain it where it: "memtable_iter_seek_to_first t = Some it" "mt_iter default_compare t m it m"
    using mt_iter_first [OF mt(2)] by blast
  have "flush_table db t p w = Some (Inr r, with_file w p bs)"
    using T(1,2,3,4) it flush_loop_writer [OF it(2)] q mt(1)
    unfolding flush_table_def n c by (simp add: memtable_iter_create_def skiplist_iter_create_def)
  then show ?thesis using T(5-8) by blast
qed

section \<open>The other files\<close>

definition only_touches :: "string set \<Rightarrow> world \<Rightarrow> world \<Rightarrow> bool" where
  "only_touches S w w' \<longleftrightarrow> quiet w' \<and> (\<forall>p. p \<notin> S \<longrightarrow> file_bytes p w' = file_bytes p w)"

lemma only_touches_file: "quiet w \<Longrightarrow> only_touches {p} w (with_file w p c)"
  by (simp add: only_touches_def file_bytes_def with_file_def quiet_def)

lemma only_touches_trans: "only_touches S w w1 \<Longrightarrow> only_touches T w1 w2 \<Longrightarrow> only_touches (S \<union> T) w w2"
  by (simp add: only_touches_def)

lemma open_create_touches:
  "quiet w \<Longrightarrow> \<exists>w'. sys_open_create p w = (True, w') \<and> only_touches {p} w w' \<and> w_fs w' p \<noteq> None"
  by (auto simp: sys_open_create_def only_touches_def file_bytes_def quiet_def split: option.split)

lemma manifest_append_touches:
  assumes "quiet w"
  shows "\<exists>w'. manifest_append p t d w = (STATUS_OK, w') \<and> only_touches {manifest_path p} w w'"
proof -
  let ?p = "manifest_path p"
  obtain w1 where w1: "sys_open_create ?p w = (True, w1)" "only_touches {?p} w w1" "w_fs w1 ?p \<noteq> None"
    using open_create_touches [OF assms] by blast
  then have q: "quiet w1" by (simp add: only_touches_def)
  obtain c where "w_fs w1 ?p = Some c" using w1(3) by blast
  then have c: "with_file w1 ?p c = w1" by (simp add: with_file_def fun_upd_idem)
  have "file_write_all ?p (manifest_record t d) w1 = (True, with_file w1 ?p (c @ manifest_record t d))"
    using file_write_all_quiet [OF q, of ?p "manifest_record t d" c] by (simp add: c)
  then have "manifest_append p t d w = (STATUS_OK, with_file w1 ?p (c @ manifest_record t d))"
    using assms q w1(1) by (simp add: manifest_append_def)
  then show ?thesis using only_touches_trans [OF w1(2) only_touches_file [OF q, of ?p "c @ manifest_record t d"]] by simp
qed

lemma reset_log_touches:
  assumes "quiet w"
  shows "\<exists>l w'. reset_log path db w = (STATUS_OK, db\<lparr>db_wal := l\<rparr>, w') \<and> only_touches {wal_file path} w w' \<and>
    (\<forall>x. l = Some x \<longrightarrow> wal_path x = wal_file path)"
proof (cases "db_wal db")
  case None
  then have "reset_log path db w = (STATUS_OK, db\<lparr>db_wal := None\<rparr>, w)" by (simp add: reset_log_def)
  then show ?thesis using assms None by (auto simp: only_touches_def)
next
  case (Some l0)
  obtain w1 where w1: "sys_open_create (wal_file path) w = (True, w1)" "only_touches {wal_file path} w w1"
    using open_create_touches [OF assms] by blast
  then have "quiet w1" by (simp add: only_touches_def)
  then show ?thesis using assms Some w1
    by (intro exI [of _ "Some \<lparr>wal_path = wal_file path, wal_file_size = of_nat (length (file_bytes (wal_file path) w1)),
          wal_sync_writes = so_sync_writes (db_opts db)\<rparr>"] exI [of _ w1]) (simp add: reset_log_def wal_open_def)
qed

section \<open>Adding a table to level 0\<close>

definition tables_at :: "string \<Rightarrow> level_manager \<Rightarrow> bool" where
  "tables_at path lm \<longleftrightarrow> (\<forall>l \<in> set (lm_levels lm). \<forall>m \<in> set (lv_files l).
     sr_path (sm_reader m) = sst_name path (sm_file_number m) \<and> sm_file_number m < lm_next_file_number lm)"

lemma sst_name_wal [simp]: "sst_name p n \<noteq> wal_file p"
proof -
  have "last (sst_name p n) = CHR ''t''" "last (wal_file p) = CHR ''g''" by (simp_all add: sst_name_def wal_file_def)
  then show ?thesis by force
qed

lemma levels_rep_touches:
  assumes "levels_rep cmp lm w lss" and "tables_at path lm" and "only_touches S w w'"
    and "\<And>n. n < lm_next_file_number lm \<Longrightarrow> sst_name path n \<notin> S"
  shows "levels_rep cmp lm w' lss"
proof -
  have "list_all2 (file_rep cmp w') (lv_files l) ess"
    if "l \<in> set (lm_levels lm)" "list_all2 (file_rep cmp w) (lv_files l) ess" for l ess
    using that(2) assms(2,3,4) that(1)
    by (auto simp: tables_at_def only_touches_def elim!: list.rel_mono_strong intro!: file_rep_cong [of cmp w])
  then show ?thesis using assms(1) unfolding levels_rep_def by (auto elim: list.rel_mono_strong)
qed

lemma new_file_in_range:
  assumes "sorted_wrt (\<lambda>a b. default_compare (fst a) (fst b) < 0) m" and "e \<in> set m"
  shows "key_in_range default_compare (fst e) (fst (copy_key (range_key (Some (fst (hd m)))) w)) (fst (copy_key (range_key (Some (fst (last m)))) w))"
proof -
  obtain i where i: "i < length m" "e = m ! i" using assms(2) by (auto simp: in_set_conv_nth)
  then have m: "m \<noteq> []" by auto
  have "\<not> default_compare (fst e) (fst (hd m)) < 0"
    using assms(1) i m dk.cmp_asym by (cases "i = 0") (auto simp: sorted_wrt_iff_nth_less hd_conv_nth)
  moreover have "\<not> default_compare (fst e) (fst (last m)) > 0"
  proof (cases "i = length m - 1")
    case False
    then have "default_compare (fst e) (fst (last m)) < 0"
      using assms(1) i m by (auto simp: sorted_wrt_iff_nth_less last_conv_nth)
    then show ?thesis by simp
  qed (use i m in \<open>simp add: last_conv_nth\<close>)
  ultimately show ?thesis
    by (auto simp: key_in_range_def copy_key_def range_key_def opt_bytes_def split: if_splits prod.splits)
qed

lemma level_add_l0:
  assumes q: "quiet w" and rep: "levels_rep default_compare lm w (l0 # lss)" and t: "tables_at path lm"
    and r: "reader_rep default_compare r w m" "sr_path r = sst_name path n" and m: "m \<noteq> []" "entries_ok default_compare m"
    and keys: "sstable_reader_min_key r = range_key (Some (fst (hd m)))" "sstable_reader_max_key r = range_key (Some (fst (last m)))"
    and n: "n = lm_next_file_number lm" "n \<noteq> - 1"
  shows "\<exists>lm'. level_add_sstable lm 0 n (sst_name path n) r w = (STATUS_OK, lm', w) \<and>
    levels_rep default_compare lm' w ((l0 @ [m]) # lss) \<and> tables_at path lm' \<and>
    lm_next_file_number lm' = n + 1 \<and> length (lv_files (level_at lm' 0)) = Suc (length l0)"
proof -
  obtain l ls where L: "lm_levels lm = l # ls" "lm_cmp lm = default_compare" "length ls = 6"
    "list_all2 (file_rep default_compare w) (lv_files l) l0"
    "list_all2 (\<lambda>l ess. list_all2 (file_rep default_compare w) (lv_files l) ess) ls lss"
    "list_all2 (\<lambda>l ess. disjoint_files default_compare (lv_files l) ess) ls lss"
    using rep by (auto simp: levels_rep_def list_all2_Cons2)
  define meta where "meta = \<lparr>sm_file_number = n, sm_path = sst_name path n, sm_reader = r,
    sm_min_key = fst (copy_key (range_key (Some (fst (hd m)))) w), sm_max_key = fst (copy_key (range_key (Some (fst (last m)))) w),
    sm_file_size = of_nat (length (file_bytes (sst_name path n) w))\<rparr>"
  define l' where "l' = l\<lparr>lv_file_capacity := (if length (lv_files l) \<ge> lv_file_capacity l
      then if lv_file_capacity l = 0 then 4 else lv_file_capacity l * 2 else lv_file_capacity l),
    lv_files := lv_files l @ [meta], lv_total_bytes := lv_total_bytes l + sm_file_size meta\<rparr>"
  define lm' where "lm' = lm\<lparr>lm_levels := l' # ls, lm_next_file_number := n + 1\<rparr>"
  have ck: "copy_key k w = (fst (copy_key k w), w)" for k using q by (simp add: copy_key_def)
  have add: "level_add_sstable lm 0 n (sst_name path n) r w = (STATUS_OK, lm', w)"
    using q ck [of "range_key (Some (fst (hd m)))"] ck [of "range_key (Some (fst (last m)))"]
    by (auto simp: level_add_sstable_def MAX_LEVELS_def get_file_size_def keys level_at_def set_level_def L n Let_def lm'_def l'_def meta_def
        split: prod.splits)
  have "file_rep default_compare w meta m"
    using r new_file_in_range [of m _ w] m(2) by (simp add: file_rep_def meta_def entries_ok_def)
  then have "levels_rep default_compare lm' w ((l0 @ [m]) # lss)"
    using L by (simp add: levels_rep_def lm'_def l'_def list_all2_appendI)
  moreover have "x < n + 1" if "x \<le> n" for x
  proof -
    have "1 + n \<noteq> 0" using n(2) by (metis add.commute eq_neg_iff_add_eq_0)
    then have "unat (n + 1) = Suc (unat n)" using unatSuc [of n] by (simp add: add.commute)
    then show ?thesis using that by (simp add: word_le_nat_alt word_less_nat_alt)
  qed
  then have "tables_at path lm'"
    using t r(2) n(1) by (auto simp: tables_at_def lm'_def l'_def meta_def L less_imp_le)
  ultimately show ?thesis using add L(4) by (simp add: lm'_def l'_def level_at_def list_all2_lengthD)
qed

section \<open>The flush\<close>

text \<open>A database on disk: the memtable holds \<open>m\<close>, the levels hold the tables \<open>lss\<close>, and \<open>n\<close> more files
  can be numbered.\<close>

definition store_rep ::
  "nat \<Rightarrow> level_manager storage \<Rightarrow> world \<Rightarrow> kv_list \<Rightarrow> (bytes \<times> bytes \<times> bool) list list list \<Rightarrow> bool"
where
  "store_rep n db w m lss \<longleftrightarrow> quiet w \<and> mt_rep default_compare (db_memtable db) m \<and> so_comparator (db_opts db) = None \<and>
     (\<exists>path lm. db_path db = Some path \<and> db_levels db = Some lm \<and> levels_rep default_compare lm w lss \<and> tables_at path lm \<and>
        unat (lm_next_file_number lm) + n < 2 ^ 64 \<and> (\<forall>l. db_wal db = Some l \<longrightarrow> wal_path l = wal_file path))"

lemma store_rep_mono: "store_rep n db w m lss \<Longrightarrow> n' \<le> n \<Longrightarrow> store_rep n' db w m lss"
  by (auto simp: store_rep_def)

lemma store_rep_get:
  "store_rep n db w m lss \<Longrightarrow> key \<noteq> [] \<Longrightarrow> get_view (storage_get db key w) =
    found (case kv_get m key of Some v \<Rightarrow> Some v | None \<Rightarrow> lookup_value (tables_lookup (search_order lss) key))"
  using storage_get_spec by (auto simp: store_rep_def)

lemma memtable_fresh: "quiet w \<Longrightarrow> \<exists>t. memtable_create n None w = (Some t, w) \<and> mt_rep default_compare (Some t) []"
  using memtable_create_rep [of w n None] by (simp add: quietD)

lemma flush_spec:
  assumes rep: "store_rep (Suc n) db w m (l0 # lss)" and m: "m \<noteq> []" "entries_ok default_compare m" "length m \<le> 2 ^ 18" and few: "length l0 < 3"
  shows "\<exists>db' lm' w'. storage_flush db w = Some (STATUS_OK, db', w') \<and> quiet w' \<and> mt_rep default_compare (db_memtable db') [] \<and>
    db_levels db' = Some lm' \<and> levels_rep default_compare lm' w' ((l0 @ [m]) # lss) \<and>
    store_rep n db' w' [] ((l0 @ [m]) # lss)"
proof -
  obtain path lm where db: "db_path db = Some path" "db_levels db = Some lm" "so_comparator (db_opts db) = None" "quiet w"
    "levels_rep default_compare lm w (l0 # lss)" "tables_at path lm" "unat (lm_next_file_number lm) + Suc n < 2 ^ 64"
    "mt_rep default_compare (db_memtable db) m"
    using rep by (auto simp: store_rep_def)
  have nx: "lm_next_file_number lm \<noteq> - 1" "unat (lm_next_file_number lm + 1) = Suc (unat (lm_next_file_number lm))"
    using db(7) by (auto simp: unat_word_ariths unsigned_minus_1_eq_mask mask_eq_exp_minus_1)
  obtain t where t: "db_memtable db = Some t" using db(8) by (cases "db_memtable db") (auto simp: mt_rep_def)
  let ?n = "lm_next_file_number lm" and ?p = "sst_name path (lm_next_file_number lm)"
  obtain bs r where ft: "flush_table db t ?p w = Some (Inr r, with_file w ?p bs)" "sr_path r = ?p"
    "reader_rep default_compare r (with_file w ?p bs) m"
    "sstable_reader_min_key r = range_key (Some (fst (hd m)))" "sstable_reader_max_key r = range_key (Some (fst (last m)))"
    using flush_table_spec [OF db(4) t _ db(3) m(2,3), of ?p] db(8) t m(1) by auto
  let ?w = "with_file w ?p bs"
  have q: "quiet ?w" using db(4) by simp
  have "levels_rep default_compare lm ?w (l0 # lss)"
    by (rule levels_rep_touches [OF db(5,6) only_touches_file [OF db(4)]]) auto
  then obtain lm' where lm': "level_add_sstable lm 0 ?n ?p r ?w = (STATUS_OK, lm', ?w)" "levels_rep default_compare lm' ?w ((l0 @ [m]) # lss)"
    "tables_at path lm'" "length (lv_files (level_at lm' 0)) = Suc (length l0)" "lm_next_file_number lm' = ?n + 1"
    using level_add_l0 [OF q _ db(6) ft(3,2) m(1,2) ft(4,5) refl nx(1)] by blast
  obtain w1 where w1: "manifest_log_add_file path 0 ?n ?w = (STATUS_OK, w1)" "only_touches {manifest_path path} ?w w1"
    using manifest_append_touches [OF q] unfolding manifest_log_add_file_def by blast
  obtain w2 where w2: "manifest_log_next_file_num path (level_next_file_number lm') w1 = (STATUS_OK, w2)" "only_touches {manifest_path path} w1 w2"
    using manifest_append_touches [of w1] w1(2) unfolding manifest_log_next_file_num_def only_touches_def by blast
  obtain t' where t': "memtable_create (so_memtable_size (db_opts db)) None w2 = (Some t', w2)" "mt_rep default_compare (Some t') []"
    using memtable_fresh [of w2] w2(2) unfolding only_touches_def by blast
  let ?db = "db\<lparr>db_levels := Some lm', db_memtable := Some t'\<rparr>"
  obtain l w3 where w3: "reset_log path ?db w2 = (STATUS_OK, ?db\<lparr>db_wal := l\<rparr>, w3)" "only_touches {wal_file path} w2 w3"
    "\<forall>x. l = Some x \<longrightarrow> wal_path x = wal_file path"
    using reset_log_touches [of w2 path ?db] w2(2) unfolding only_touches_def by blast
  have "only_touches {manifest_path path, wal_file path} ?w w3"
    using only_touches_trans [OF only_touches_trans [OF w1(2) w2(2)] w3(2)] by (simp add: insert_commute)
  then have L: "levels_rep default_compare lm' w3 ((l0 @ [m]) # lss)"
    by (rule levels_rep_touches [OF lm'(2,3)]) auto
  have nc: "\<not> level_needs_compaction lm' 0"
    using lm'(4) few by (simp add: level_needs_compaction_def MAX_LEVELS_def L0_COMPACTION_TRIGGER_def)
  have "storage_flush db w = Some (STATUS_OK, ?db\<lparr>db_wal := l\<rparr>, w3)"
    using db(1-4) ft(1) lm'(1) w1(1) w2(1) t'(1) w3(1) nc t dk.mt_rep_count [OF db(8)] m(1)
    by (simp add: storage_flush_def level_next_file_number_def)
  moreover have "store_rep n (?db\<lparr>db_wal := l\<rparr>) w3 [] ((l0 @ [m]) # lss)"
    using t'(2) L w3(2,3) lm'(3,5) db(1,3,7) nx(2) by (simp add: store_rep_def only_touches_def)
  ultimately show ?thesis using t'(2) L w3(2) by (auto simp: only_touches_def)
qed

section \<open>Writes\<close>

lemma wal_write_touches:
  assumes "quiet w"
  shows "\<exists>l' w'. wal_write_record l t k v w = (STATUS_OK, l', w') \<and> wal_path l' = wal_path l \<and> only_touches {wal_path l} w w'"
  using assms only_touches_file [OF assms, of "wal_path l"]
  by (simp add: wal_write_record_quiet quietD with_file_def)

lemma store_rep_step:
  assumes rep: "store_rep n db w m lss" and ok: "op_ok x"
  shows "\<exists>db' w'. db_step db x w = Some (STATUS_OK, db', w') \<and> store_rep n db' w' (kv_step default_compare m x) lss"
proof -
  obtain path lm where db: "db_path db = Some path" "db_levels db = Some lm" "so_comparator (db_opts db) = None" "quiet w"
    "levels_rep default_compare lm w lss" "tables_at path lm" "unat (lm_next_file_number lm) + n < 2 ^ 64"
    "mt_rep default_compare (db_memtable db) m" "\<And>l. db_wal db = Some l \<Longrightarrow> wal_path l = wal_file path"
    using rep by (auto simp: store_rep_def)
  obtain l' w1 where l: "db_log db x w = (STATUS_OK, db\<lparr>db_wal := l'\<rparr>, w1)" "only_touches {wal_file path} w w1"
    "\<forall>l. l' = Some l \<longrightarrow> wal_path l = wal_file path"
  proof (cases "db_wal db")
    case None
    then show ?thesis using db(4) by (intro that [of None w]) (simp_all add: db_log_def only_touches_def)
  next
    case (Some l)
    obtain t k v where e: "log_entry x = (t, k, v)" by (cases "log_entry x")
    obtain l1 w1 where "wal_write_record l t k v w = (STATUS_OK, l1, w1)" "wal_path l1 = wal_path l" "only_touches {wal_path l} w w1"
      using wal_write_touches [OF db(4)] by blast
    then show ?thesis using db(9) [OF Some] Some by (intro that [of "Some l1" w1]) (simp_all add: db_log_def e)
  qed
  have q1: "quiet w1" using l(2) by (simp add: only_touches_def)
  obtain mt' w' where s: "mt_step (db_memtable db) x w1 = Some (STATUS_OK, mt', w')" "alloc_ok w'"
    "mt_rep default_compare mt' (kv_step default_compare m x)"
    using dk.mt_step_refines [OF db(8) quietD(1) [OF q1] op_ok_key [OF ok]] by auto
  have "only_touches {wal_file path} w w'"
    using mt_step_io [OF s(1)] l(2) by (auto simp: same_io_def only_touches_def quiet_def io_ok_def file_bytes_def)
  then have "levels_rep default_compare lm w' lss" "quiet w'"
    using levels_rep_touches [OF db(5,6), of "{wal_file path}" w'] by (simp_all add: only_touches_def)
  then have "store_rep n (db\<lparr>db_wal := l', db_memtable := mt'\<rparr>) w' (kv_step default_compare m x) lss"
    using db s(3) l(3) by (simp add: store_rep_def)
  then show ?thesis using l(1) s(1) by (simp add: db_step_log)
qed

interpretation leveled: kv_store default_compare db_step "\<lambda>db w m. store_rep n db w m lss"
  by unfold_locales (rule store_rep_step)

text \<open>A new database.\<close>

lemma store_open_new:
  assumes q: "quiet w" and new: "w_fs w (wal_file p) = None" "w_fs w (manifest_path p) = None"
  shows "\<exists>db w'. storage_open [] (Some p) None w = Some (Some db, w') \<and> store_rep (2 ^ 63) db w' [] (replicate 7 [])"
proof -
  obtain t where t: "memtable_create MEMTABLE_SIZE_LIMIT None w = (Some t, w)" "mt_rep default_compare (Some t) []"
    using memtable_fresh [OF q] by blast
  define lm where "lm = \<lparr>lm_db_path = Some p, lm_cmp = default_compare, lm_levels = replicate 7 empty_level, lm_next_file_number = 1\<rparr>"
  have lm: "level_manager_create (Some p) None w = (Some lm, w)" using q by (simp add: level_manager_create_def lm_def MAX_LEVELS_def)
  let ?w = "with_file w (wal_file p) []"
  have wal: "wal_open (Some (wal_file p)) False w = (Some \<lparr>wal_path = wal_file p, wal_file_size = 0, wal_sync_writes = False\<rparr>, ?w)"
    using q new(1) by (simp add: wal_open_def sys_open_create_def with_file_def quiet_def file_bytes_def)
  have "manifest_path p \<noteq> wal_file p" by (simp add: manifest_path_def wal_file_def)
  then have mf: "manifest_recover [] p lm ?w = Some (STATUS_OK, lm, ?w)"
    using q new(2) by (simp add: manifest_recover_def sys_open_read_def with_file_def quiet_def)
  let ?db = "\<lparr>db_path = Some p, db_opts = STORAGE_OPTS_DEFAULT, db_memtable = Some t,
    db_wal = Some \<lparr>wal_path = wal_file p, wal_file_size = 0, wal_sync_writes = False\<rparr>, db_levels = Some lm\<rparr>"
  have "storage_open [] (Some p) None w = Some (Some ?db, ?w)"
    using q new(1) t(1) lm wal mf
    by (simp add: storage_open_def STORAGE_OPTS_DEFAULT_def open_log_def ensure_directory_def wal_recover_def sys_open_read_def)
  moreover have "levels_rep default_compare lm ?w (replicate 7 [])" "tables_at p lm"
    by (simp_all add: levels_rep_def lm_def empty_level_def tables_at_def disjoint_files_def list_all2_conv_all_nth)
  ultimately show ?thesis using q t(2) by (auto simp: store_rep_def STORAGE_OPTS_DEFAULT_def lm_def)
qed

section \<open>Properties\<close>

lemma flush_get:
  assumes "store_rep (Suc n) db w m (l0 # lss)" and "m \<noteq> []" "entries_ok default_compare m" "length m \<le> 2 ^ 18" and "length l0 < 3"
  shows "\<exists>db' w'. storage_flush db w = Some (STATUS_OK, db', w') \<and> mt_rep default_compare (db_memtable db') [] \<and>
    (\<forall>key. key \<noteq> [] \<longrightarrow> get_view (storage_get db' key w') =
       found (case map_of m key of
           None \<Rightarrow> lookup_value (tables_lookup (search_order (l0 # lss)) key)
         | Some (v, d) \<Rightarrow> if d then None else Some v))"
proof -
  obtain db' lm' w' where f: "storage_flush db w = Some (STATUS_OK, db', w')" "quiet w'" "mt_rep default_compare (db_memtable db') []"
    "db_levels db' = Some lm'" "levels_rep default_compare lm' w' ((l0 @ [m]) # lss)"
    using flush_spec [OF assms] by blast
  have "lookup_value (tables_lookup (search_order ((l0 @ [m]) # lss)) key) =
      (case map_of m key of
           None \<Rightarrow> lookup_value (tables_lookup (search_order (l0 # lss)) key)
         | Some (v, d) \<Rightarrow> if d then None else Some v)" for key
    by (auto simp: search_order_def lookup_value_def table_lookup_def opt_bytes_def split: option.splits)
  then show ?thesis using f storage_get_spec [OF f(2,3,4,5)] by auto
qed

text \<open>C14: A flush keeps what lookups return. Let the memtable of a database hold entries that fit a
  table, with fewer than three tables at level 0 so that no compaction starts. A flush succeeds and
  empties the memtable, and every lookup of a key that the memtable did not hold as a tombstone returns
  the same status and the same bytes before and after: what was in the memtable is now read from the new
  table, and the tables of all levels are read as before.\<close>

theorem flush_keeps_lookups:
  assumes "store_rep (Suc n) db w m (l0 # lss)" and "m \<noteq> []" and "entries_ok default_compare m" and "length m \<le> 2 ^ 18" and "length l0 < 3"
  shows "\<exists>db' w'. storage_flush db w = Some (STATUS_OK, db', w') \<and> storage_count db' = 0 \<and>
    (\<forall>key. key \<noteq> [] \<and> \<not> (\<exists>v. map_of m key = Some (v, True)) \<longrightarrow>
       get_view (storage_get db' key w') = get_view (storage_get db key w))"
proof -
  obtain db' w' where f: "storage_flush db w = Some (STATUS_OK, db', w')" "mt_rep default_compare (db_memtable db') []"
    "\<And>key. key \<noteq> [] \<Longrightarrow> get_view (storage_get db' key w') = found (case map_of m key of
           None \<Rightarrow> lookup_value (tables_lookup (search_order (l0 # lss)) key)
         | Some (v, d) \<Rightarrow> if d then None else Some v)"
    using flush_get [OF assms] by blast
  then have "storage_count db' = 0" using dk.mt_rep_count [OF f(2)] by (simp add: storage_count_def)
  then show ?thesis using f(1,3) store_rep_get [OF assms(1)] by (auto simp: kv_get_def split: option.split)
qed

text \<open>A new database in which one key was written and flushed, then overwritten or deleted.\<close>

lemma store_scenario:
  assumes "op_ok x"
  shows "\<exists>db0 w0 db1 w1 db2 w2 db3 w3. storage_open [] (Some ''d'') None quiet_world = Some (Some db0, w0) \<and>
    storage_put db0 [1] (Some [7]) w0 = Some (STATUS_OK, db1, w1) \<and> storage_flush db1 w1 = Some (STATUS_OK, db2, w2) \<and>
    db_step db2 x w2 = Some (STATUS_OK, db3, w3) \<and>
    store_rep (Suc 0) db3 w3 (kv_step default_compare [] x) ([[([1], [7], False)]] # replicate 6 [])"
proof -
  obtain db0 w0 where 0: "storage_open [] (Some ''d'') None quiet_world = Some (Some db0, w0)" "store_rep (2 ^ 63) db0 w0 [] (replicate 7 [])"
    using store_open_new [of quiet_world "''d''"] by auto
  have "op_ok (Put [1] (Some [7]))" by (simp add: opt_bytes_def)
  from store_rep_step [OF 0(2) this] obtain db1 w1 where 1: "storage_put db0 [1] (Some [7]) w0 = Some (STATUS_OK, db1, w1)"
    "store_rep (2 ^ 63) db1 w1 [([1], [7], False)] (replicate 7 [])"
    by (auto simp: kv_insert_def opt_bytes_def)
  have "store_rep (Suc 1) db1 w1 [([1], [7], False)] ([] # replicate 6 [])"
  proof -
    have "replicate 7 [] = [] # replicate 6 ([] :: kv_list list)" by (simp add: eval_nat_numeral)
    then show ?thesis using store_rep_mono [OF 1(2), of "Suc 1"] by simp
  qed
  moreover have "entries_ok default_compare [([1], [7], False)]" by (simp add: entries_ok_def)
  ultimately obtain db2 w2 where 2: "storage_flush db1 w1 = Some (STATUS_OK, db2, w2)"
    "store_rep 1 db2 w2 [] ([[([1], [7], False)]] # replicate 6 [])"
    using flush_spec [of 1 db1 w1 "[([1], [7], False)]" "[]" "replicate 6 []"] by auto
  show ?thesis using 0(1) 1(1) 2(1) store_rep_step [OF 2(2) assms] by (simp del: db_step.simps)
qed

theorem flush_keeps_lookups_witness:
  "\<exists>db0 w0 db1 w1 db2 w2 db3 w3 db4 w4. storage_open [] (Some ''d'') None quiet_world = Some (Some db0, w0) \<and>
    storage_put db0 [1] (Some [7]) w0 = Some (STATUS_OK, db1, w1) \<and> storage_flush db1 w1 = Some (STATUS_OK, db2, w2) \<and>
    storage_put db2 [2] (Some [8]) w2 = Some (STATUS_OK, db3, w3) \<and> storage_flush db3 w3 = Some (STATUS_OK, db4, w4) \<and>
    get_view (storage_get db4 [1] w4) = Some (STATUS_OK, [7]) \<and> get_view (storage_get db4 [2] w4) = Some (STATUS_OK, [8])"
proof -
  let ?m = "[([2], [8], False)] :: kv_list" and ?l = "[[([1], [7], False)]] :: kv_list list" and ?r = "replicate 6 [] :: kv_list list list"
  have k: "kv_step default_compare [] (Put [2] (Some [8])) = ?m" by (simp add: kv_insert_def opt_bytes_def)
  obtain db0 w0 db1 w1 db2 w2 db3 w3 where s: "storage_open [] (Some ''d'') None quiet_world = Some (Some db0, w0)"
    "storage_put db0 [1] (Some [7]) w0 = Some (STATUS_OK, db1, w1)" "storage_flush db1 w1 = Some (STATUS_OK, db2, w2)"
    "storage_put db2 [2] (Some [8]) w2 = Some (STATUS_OK, db3, w3)" and rep: "store_rep (Suc 0) db3 w3 ?m (?l # ?r)"
    using store_scenario [of "Put [2] (Some [8])"] unfolding k by (auto simp: opt_bytes_def)
  obtain db4 w4 where f: "storage_flush db3 w3 = Some (STATUS_OK, db4, w4)"
    "\<forall>key. key \<noteq> [] \<and> \<not> (\<exists>v. map_of ?m key = Some (v, True)) \<longrightarrow> get_view (storage_get db4 key w4) = get_view (storage_get db3 key w3)"
    using flush_keeps_lookups [OF rep] by (auto simp: entries_ok_def)
  have "get_view (storage_get db3 [1] w3) = Some (STATUS_OK, [7])" "get_view (storage_get db3 [2] w3) = Some (STATUS_OK, [8])"
    using store_rep_get [OF rep, of "[1]"] store_rep_get [OF rep, of "[2]"]
    by (simp_all add: kv_get_def search_order_def lookup_value_def table_lookup_def found_def opt_bytes_def)
  then show ?thesis using s f by (auto 0 3)
qed

text \<open>C38: A deleted key is still read. When the memtable holds the tombstone of a key and a table below
  holds a value of it, a lookup returns the old value, as if the key had not been deleted: the memtable
  reports a tombstone as not found and the lookup goes on to the tables. After a flush, with fewer than
  three tables at level 0 before it and a memtable whose entries fit a table, the same lookup reports the
  key as not found.\<close>

theorem deleted_key_still_read:
  assumes "store_rep (Suc n) db w m (l0 # lss)" and "entries_ok default_compare m" and "length m \<le> 2 ^ 18" and "length l0 < 3"
    and "key \<noteq> []" and "map_of m key = Some (v, True)" and "tables_lookup (search_order (l0 # lss)) key = (STATUS_OK, old, False)"
  shows "\<exists>db' w'. get_view (storage_get db key w) = Some (STATUS_OK, opt_bytes old) \<and>
    storage_flush db w = Some (STATUS_OK, db', w') \<and> get_view (storage_get db' key w') = Some (STATUS_NOT_FOUND, [])"
proof -
  have "m \<noteq> []" using assms(6) by auto
  then obtain db' w' where f: "storage_flush db w = Some (STATUS_OK, db', w')" "get_view (storage_get db' key w') = found None"
    using flush_get [OF assms(1) _ assms(2,3,4)] assms(5,6) by fastforce
  moreover have "get_view (storage_get db key w) = found (Some (opt_bytes old))"
    using store_rep_get [OF assms(1,5)] assms(6,7) by (simp add: kv_get_def lookup_value_def)
  ultimately show ?thesis by (auto simp: found_def)
qed

theorem deleted_key_still_read_witness:
  "\<exists>db0 w0 db1 w1 db2 w2 db3 w3 db4 w4. storage_open [] (Some ''d'') None quiet_world = Some (Some db0, w0) \<and>
    storage_put db0 [1] (Some [7]) w0 = Some (STATUS_OK, db1, w1) \<and> storage_flush db1 w1 = Some (STATUS_OK, db2, w2) \<and>
    storage_delete db2 [1] w2 = Some (STATUS_OK, db3, w3) \<and> get_view (storage_get db3 [1] w3) = Some (STATUS_OK, [7]) \<and>
    storage_flush db3 w3 = Some (STATUS_OK, db4, w4) \<and> get_view (storage_get db4 [1] w4) = Some (STATUS_NOT_FOUND, [])"
proof -
  let ?m = "[([1], [], True)] :: kv_list" and ?l = "[[([1], [7], False)]] :: kv_list list" and ?r = "replicate 6 [] :: kv_list list list"
  have k: "kv_step default_compare [] (Delete [1]) = ?m" by (simp add: kv_delete_def kv_insert_def)
  obtain db0 w0 db1 w1 db2 w2 db3 w3 where s: "storage_open [] (Some ''d'') None quiet_world = Some (Some db0, w0)"
    "storage_put db0 [1] (Some [7]) w0 = Some (STATUS_OK, db1, w1)" "storage_flush db1 w1 = Some (STATUS_OK, db2, w2)"
    "storage_delete db2 [1] w2 = Some (STATUS_OK, db3, w3)" and rep: "store_rep (Suc 0) db3 w3 ?m (?l # ?r)"
    using store_scenario [of "Delete [1]"] unfolding k by auto
  have "tables_lookup (search_order (?l # ?r)) [1] = (STATUS_OK, Some [7], False)" by (simp add: search_order_def table_lookup_def)
  then show ?thesis using deleted_key_still_read [OF rep, of "[1]" "[]" "Some [7]"] s by (simp add: entries_ok_def opt_bytes_def)
qed

end
