(* ===== verification/SE_Reopen.thy ===== *)
theory SE_Reopen
  imports SE_Flush
begin

text \<open>
  Opening a database again (\<^verbatim>\<open>storage_open\<close> in \<^verbatim>\<open>storage-engine/src/storage.c\<close>): what
  the log holds after acknowledged writes, what a second \<^verbatim>\<open>storage_open\<close> makes of it, and
  the two cases in which acknowledged writes are gone afterwards.
\<close>

section \<open>Writes append their records\<close>

lemma db_log_quiet:
  assumes "quiet w" and "db_wal db = Some l" and "log_entry x = (t, k, v)"
  shows "db_log db x w = (STATUS_OK, db\<lparr>db_wal := Some (l\<lparr>wal_file_size := wal_file_size l + of_nat (17 + length k + length v)\<rparr>)\<rparr>,
    with_file w (wal_path l) (file_bytes (wal_path l) w @ wal_record_bytes t k v))"
  using assms by (simp add: db_log_def wal_write_record_quiet quietD with_file_def)

lemma db_step_appends:
  assumes "quiet w" and "db_wal db = Some l" and "db_step db x w = Some (st, db', w')"
  shows "quiet w' \<and> (\<exists>l'. db_wal db' = Some l' \<and> wal_path l' = wal_path l) \<and>
    w_fs w' = (w_fs w)(wal_path l \<mapsto> file_bytes (wal_path l) w @ wal_image [log_entry x])"
proof -
  obtain t k v where e: "log_entry x = (t, k, v)" by (cases "log_entry x")
  let ?w = "with_file w (wal_path l) (file_bytes (wal_path l) w @ wal_record_bytes t k v)"
  obtain mt where m: "mt_step (db_memtable db) x ?w = Some (st, mt, w')" "db_memtable db' = mt"
    "\<exists>l'. db_wal db' = Some l' \<and> wal_path l' = wal_path l"
    using assms(3) unfolding db_step_log db_log_quiet [OF assms(1,2) e]
    by (auto split: bind_splits prod.splits)
  have "same_io ?w w'" by (rule mt_step_io [OF m(1)])
  moreover have "alloc_ok w'"
    using mt_step_io [OF m(1)] assms(1) by (simp add: same_io_def with_file_def quiet_def)
  ultimately show ?thesis
    using m(3) assms(1) by (auto simp: same_io_def with_file_def quiet_def io_ok_def wal_image_def e)
qed

lemma db_run_appends:
  assumes "quiet w" and "db_wal db = Some l" and "w_fs w (wal_path l) = Some c" and "kv_run db_step db xs w = Some (db', w')"
  shows "quiet w' \<and> w_fs w' = (w_fs w)(wal_path l \<mapsto> c @ wal_image (map log_entry xs))"
  using assms
proof (induction xs arbitrary: db l w c)
  case Nil
  then show ?case by (auto simp: wal_image_def)
next
  case (Cons x xs)
  obtain db1 w1 where s: "db_step db x w = Some (STATUS_OK, db1, w1)" "kv_run db_step db1 xs w1 = Some (db', w')"
    using Cons.prems(4) by (auto split: option.splits status_t.splits)
  obtain l1 where l1: "quiet w1" "db_wal db1 = Some l1" "wal_path l1 = wal_path l"
    "w_fs w1 = (w_fs w)(wal_path l \<mapsto> c @ wal_image [log_entry x])"
    using db_step_appends [OF Cons.prems(1,2) s(1)] Cons.prems(3) by (auto simp: file_bytes_def)
  then show ?case using Cons.IH [OF l1(1,2) _ s(2)] by (auto simp: wal_image_def)
qed

section \<open>Opening an existing log\<close>

definition empty_levels :: "string \<Rightarrow> level_manager" where
  "empty_levels p = \<lparr>lm_db_path = Some p, lm_cmp = default_compare, lm_levels = replicate 7 empty_level, lm_next_file_number = 1\<rparr>"

lemma level_manager_create_quiet: "quiet w \<Longrightarrow> level_manager_create (Some p) None w = (Some (empty_levels p), w)"
  by (simp add: level_manager_create_def empty_levels_def MAX_LEVELS_def)

lemma storage_open_log:
  assumes "quiet w" and "memtable_create MEMTABLE_SIZE_LIMIT None w = (Some t, w)"
  shows "storage_open names (Some p) None w = open_log names p
    \<lparr>db_path = Some p, db_opts = STORAGE_OPTS_DEFAULT, db_memtable = Some t, db_wal = None, db_levels = Some (empty_levels p)\<rparr> w"
  using assms level_manager_create_quiet [OF assms(1)] by (simp add: storage_open_def STORAGE_OPTS_DEFAULT_def)

lemma wal_open_existing:
  assumes "quiet w" and "w_fs w p = Some c"
  shows "wal_open (Some p) sync w = (Some \<lparr>wal_path = p, wal_file_size = of_nat (length c), wal_sync_writes = sync\<rparr>, w)"
  using assms by (simp add: wal_open_def sys_open_create_def quiet_def file_bytes_def)

lemma store_reopen:
  assumes q: "quiet w" and f: "w_fs w (wal_file p) = Some (wal_image (map log_entry xs) @ tail)" "w_fs w (manifest_path p) = None"
    and ok: "\<forall>x \<in> set xs. op_ok x" and inc: "wal_incomplete tail"
  shows "\<exists>db l w'. storage_open [] (Some p) None w = Some (Some db, w') \<and> w_fs w' = w_fs w \<and>
    db_wal db = Some l \<and> wal_path l = wal_file p \<and>
    store_rep (2 ^ 63) db w' (foldl (kv_step default_compare) [] xs) (replicate 7 [])"
proof -
  obtain t where t: "memtable_create MEMTABLE_SIZE_LIMIT None w = (Some t, w)" "mt_rep default_compare (Some t) []"
    using memtable_fresh [OF q] by blast
  have "\<forall>e \<in> set (map log_entry xs). wal_entry_ok e" using ok log_entry_ok by auto
  then obtain mt w' where r: "wal_recover (Some (wal_file p)) recover_callback (Some t) w = Some (STATUS_OK, mt, w')"
    "mt_rep default_compare mt (foldl (kv_step default_compare) [] xs)" "quiet w'" "w_fs w' = w_fs w"
    using recovery.replay_image [OF q _ inc] replay_ops [OF t(2) q ok] f(1) q
    by (auto simp: wal_recover_def sys_open_read_def quietD file_bytes_def)
  let ?l = "\<lparr>wal_path = wal_file p, wal_file_size = of_nat (length (wal_image (map log_entry xs) @ tail)), wal_sync_writes = False\<rparr>"
  have wal: "wal_open (Some (wal_file p)) False w' = (Some ?l, w')" using wal_open_existing [OF r(3)] f(1) r(4) by simp
  have mf: "manifest_recover [] p (empty_levels p) w' = Some (STATUS_OK, empty_levels p, w')"
    using r(3,4) f(2) by (simp add: manifest_recover_def sys_open_read_def quiet_def)
  let ?db = "\<lparr>db_path = Some p, db_opts = STORAGE_OPTS_DEFAULT, db_memtable = mt, db_wal = Some ?l, db_levels = Some (empty_levels p)\<rparr>"
  have "storage_open [] (Some p) None w = Some (Some ?db, w')"
    using q r(1) wal mf unfolding storage_open_log [OF q t(1)]
    by (simp add: open_log_def ensure_directory_def STORAGE_OPTS_DEFAULT_def)
  moreover have "levels_rep default_compare (empty_levels p) w' (replicate 7 [])" "tables_at p (empty_levels p)"
    by (simp_all add: levels_rep_def empty_levels_def empty_level_def tables_at_def disjoint_files_def list_all2_conv_all_nth)
  ultimately show ?thesis using r by (auto simp: store_rep_def STORAGE_OPTS_DEFAULT_def empty_levels_def)
qed

lemma store_open_fails:
  assumes q: "quiet w" and f: "w_fs w (wal_file p) = Some (wal_image (map log_entry xs @ (WAL_RECORD_PUT, [], v) # map log_entry ys))"
    and ok: "\<forall>x \<in> set xs. op_ok x" "\<forall>y \<in> set ys. op_ok y" "13 + length v < 2 ^ 32"
  shows "\<exists>w'. storage_open names (Some p) None w = Some (None, w')"
proof -
  obtain t where t: "memtable_create MEMTABLE_SIZE_LIMIT None w = (Some t, w)" "mt_rep default_compare (Some t) []"
    using memtable_fresh [OF q] by blast
  let ?es = "map log_entry xs @ (WAL_RECORD_PUT, [], v) # map log_entry ys"
  have "wal_entry_ok (WAL_RECORD_PUT, [], v)" using ok(3) by (simp add: wal_entry_ok_def)
  then have "\<forall>e \<in> set ?es. wal_entry_ok e" using ok(1,2) log_entry_ok by auto
  then have "wal_replay recover_callback (Some t) (wal_image ?es @ []) w = replay_fold recover_callback (Some t) ?es w"
    by (rule recovery.replay_image [OF q _ wal_torn_incomplete [OF wal_torn_Nil]])
  moreover have "memtable_put mt [] x w = Some (STATUS_INVALID_ARG, mt, w)" for mt x w
    by (cases mt) (simp_all add: memtable_put_def skiplist_put_def)
  ultimately obtain mt w' where "wal_recover (Some (wal_file p)) recover_callback (Some t) w = Some (STATUS_INVALID_ARG, mt, w')"
    using replay_ops [OF t(2) q ok(1)] f q
    by (auto simp: wal_recover_def sys_open_read_def quietD file_bytes_def replay_fold_append recover_callback_def)
  then show ?thesis
    using q unfolding storage_open_log [OF q t(1)] by (simp add: open_log_def ensure_directory_def)
qed

lemma fresh_get: "store_rep n db w m (replicate 7 []) \<Longrightarrow> key \<noteq> [] \<Longrightarrow> get_view (storage_get db key w) = found (kv_get m key)"
  by (drule (1) store_rep_get) (simp add: search_order_def lookup_value_def eval_nat_numeral split: option.split)

section \<open>Properties\<close>

text \<open>C33: A torn record swallows later writes. Let the log of a database without tables hold the records
  of some operations and then at least the first four bytes of one more record, cut off by a crash, in a
  world where allocations and system calls succeed. \<^verbatim>\<open>storage_open\<close> succeeds with the content
  of the complete records; puts and deletes performed then are all acknowledged and every lookup of a
  non-empty key shows their effect. When their records are together shorter than what is missing of the
  torn one, the next \<^verbatim>\<open>storage_open\<close> succeeds too, and every lookup returns what the operations
  before the crash gave: all the acknowledged writes in between are lost.\<close>

theorem torn_record_swallows_writes:
  assumes "quiet w" and "w_fs w (wal_file p) = Some (wal_image (map log_entry xs) @ take n (wal_record_bytes t k v))"
    and "w_fs w (manifest_path p) = None" and "\<forall>x \<in> set (xs @ ys). op_ok x" and "op_ok z" and "log_entry z = (t, k, v)"
    and "4 \<le> n" and "n + length (wal_image (map log_entry ys)) < length (wal_record_bytes t k v)"
  shows "\<exists>db1 w1 db2 w2 db3 w3. storage_open [] (Some p) None w = Some (Some db1, w1) \<and>
    kv_run db_step db1 ys w1 = Some (db2, w2) \<and> storage_open [] (Some p) None w2 = Some (Some db3, w3) \<and>
    (\<forall>key. key \<noteq> [] \<longrightarrow>
       get_view (storage_get db2 key w2) = found (kv_get (foldl (kv_step default_compare) [] (xs @ ys)) key) \<and>
       get_view (storage_get db3 key w3) = found (kv_get (foldl (kv_step default_compare) [] xs) key))"
proof -
  have e: "wal_entry_ok (t, k, v)" using log_entry_ok [OF assms(5)] assms(6) by simp
  have ok: "\<forall>x \<in> set xs. op_ok x" "\<forall>y \<in> set ys. op_ok y" using assms(4) by simp_all
  have inc: "wal_incomplete (take n (wal_record_bytes t k v))"
    using wal_swallow_incomplete [OF e assms(7), of "[]"] assms(8) by simp
  obtain db1 l w1 where 1: "storage_open [] (Some p) None w = Some (Some db1, w1)" "w_fs w1 = w_fs w" "db_wal db1 = Some l"
    "wal_path l = wal_file p" "store_rep (2 ^ 63) db1 w1 (foldl (kv_step default_compare) [] xs) (replicate 7 [])"
    using store_reopen [OF assms(1-3) ok(1) inc] by blast
  obtain db2 w2 where 2: "kv_run db_step db1 ys w1 = Some (db2, w2)"
    "store_rep (2 ^ 63) db2 w2 (foldl (kv_step default_compare) [] (xs @ ys)) (replicate 7 [])"
    using leveled.run_refines [OF 1(5) ok(2)] by auto
  have f: "quiet w2" "w_fs w2 (wal_file p) =
      Some (wal_image (map log_entry xs) @ take n (wal_record_bytes t k v) @ wal_image (map log_entry ys))"
    "w_fs w2 (manifest_path p) = None"
    using db_run_appends [OF _ 1(3) _ 2(1)] 1(2,4,5) assms(2,3)
    by (auto simp: store_rep_def manifest_path_def wal_file_def)
  obtain db3 w3 where 3: "storage_open [] (Some p) None w2 = Some (Some db3, w3)"
    "store_rep (2 ^ 63) db3 w3 (foldl (kv_step default_compare) [] xs) (replicate 7 [])"
    using store_reopen [OF f ok(1) wal_swallow_incomplete [OF e assms(7,8)]] by blast
  show ?thesis using 1(1) 2(1) 3(1) fresh_get [OF 2(2)] fresh_get [OF 3(2)] by blast
qed

text \<open>The state a crash leaves when it interrupts the second put.\<close>

definition torn_world :: world where
  "torn_world = with_file quiet_world ''d/wal.log''
     (wal_image [log_entry (Put [1] (Some [7]))] @ take 20 (wal_record_bytes WAL_RECORD_PUT [3] (replicate 60 9)))"

theorem torn_record_swallows_writes_witness:
  "\<exists>db1 w1 db2 w2 db3 w3. storage_open [] (Some ''d'') None torn_world = Some (Some db1, w1) \<and>
    storage_put db1 [2] (Some [8]) w1 = Some (STATUS_OK, db2, w2) \<and>
    get_view (storage_get db2 [2] w2) = Some (STATUS_OK, [8]) \<and>
    storage_open [] (Some ''d'') None w2 = Some (Some db3, w3) \<and>
    get_view (storage_get db3 [1] w3) = Some (STATUS_OK, [7]) \<and> get_view (storage_get db3 [2] w3) = Some (STATUS_NOT_FOUND, [])"
proof -
  let ?xs = "[Put [1] (Some [7])]" and ?ys = "[Put [2] (Some [8])]" and ?z = "Put [3] (Some (replicate 60 9))"
  have q: "quiet torn_world" "w_fs torn_world (manifest_path ''d'') = None"
    by (simp_all add: torn_world_def with_file_def manifest_path_def quiet_def)
  have f: "w_fs torn_world (wal_file ''d'') =
      Some (wal_image (map log_entry ?xs) @ take 20 (wal_record_bytes WAL_RECORD_PUT [3] (replicate 60 9)))"
    by (simp add: torn_world_def wal_file_def)
  have ok: "\<forall>x \<in> set (?xs @ ?ys). op_ok x" "op_ok ?z" "log_entry ?z = (WAL_RECORD_PUT, [3], replicate 60 9)"
    by (simp_all add: opt_bytes_def)
  have len: "20 + length (wal_image (map log_entry ?ys)) < length (wal_record_bytes WAL_RECORD_PUT [3] (replicate 60 9))"
    by (simp add: wal_image_def opt_bytes_def)
  obtain db1 w1 db2 w2 db3 w3 where r: "storage_open [] (Some ''d'') None torn_world = Some (Some db1, w1)"
    "kv_run db_step db1 ?ys w1 = Some (db2, w2)" "storage_open [] (Some ''d'') None w2 = Some (Some db3, w3)"
    "\<And>key. key \<noteq> [] \<Longrightarrow> get_view (storage_get db2 key w2) = found (kv_get (foldl (kv_step default_compare) [] (?xs @ ?ys)) key)"
    "\<And>key. key \<noteq> [] \<Longrightarrow> get_view (storage_get db3 key w3) = found (kv_get (foldl (kv_step default_compare) [] ?xs) key)"
    using torn_record_swallows_writes [OF q(1) f q(2) ok _ len] by auto
  have "storage_put db1 [2] (Some [8]) w1 = Some (STATUS_OK, db2, w2)"
    using r(2) by (auto split: option.splits status_t.splits)
  then show ?thesis
    using r(1,3) r(4) [of "[2]"] r(5) [of "[1]"] r(5) [of "[2]"]
    by (simp add: kv_insert_def kv_get_def opt_bytes_def found_def)
qed

text \<open>C34: A rejected empty key makes a database unopenable. Let the log of an open database hold the
  records of some operations, in a world where allocations and system calls succeed. A put with an empty
  key is refused with \<^verbatim>\<open>STATUS_INVALID_ARG\<close>, but only after its record was appended to the
  log. Puts and deletes after it are acknowledged; but every later \<^verbatim>\<open>storage_open\<close> of that path
  with the default options fails and returns no database, whatever else the directory holds.\<close>

theorem empty_key_poisons_log:
  assumes "store_rep n db w m lss" and "db_path db = Some p" and "db_wal db = Some l"
    and "w_fs w (wal_file p) = Some (wal_image (map log_entry xs))"
    and "\<forall>x \<in> set (xs @ ys). op_ok x" and "13 + length (opt_bytes v) < 2 ^ 32"
  shows "\<exists>db1 w1 db2 w2. storage_put db [] v w = Some (STATUS_INVALID_ARG, db1, w1) \<and>
    kv_run db_step db1 ys w1 = Some (db2, w2) \<and>
    (\<forall>names. \<exists>w3. storage_open names (Some p) None w2 = Some (None, w3))"
proof -
  let ?e = "(WAL_RECORD_PUT, [], opt_bytes v)"
  have q: "quiet w" and l: "wal_path l = wal_file p" using assms(1-3) by (auto simp: store_rep_def)
  define w1 where "w1 = with_file w (wal_file p) (wal_image (map log_entry xs) @ wal_image [?e])"
  define db1 where "db1 = db\<lparr>db_wal := Some (l\<lparr>wal_file_size := wal_file_size l + of_nat (17 + length (opt_bytes v))\<rparr>)\<rparr>"
  have "memtable_put mt [] v w = Some (STATUS_INVALID_ARG, mt, w)" for mt w
    by (cases mt) (simp_all add: memtable_put_def skiplist_put_def)
  then have put: "storage_put db [] v w = Some (STATUS_INVALID_ARG, db1, w1)"
    using q assms(3,4) l
    by (simp add: storage_put_def wal_write_put_def wal_write_record_quiet quietD with_file_def file_bytes_def wal_image_def w1_def db1_def)
  have "only_touches {wal_file p} w w1" unfolding w1_def by (rule only_touches_file [OF q])
  then have "levels_rep default_compare lm w1 lss" if "levels_rep default_compare lm w lss" "tables_at p lm" for lm
    using levels_rep_touches [OF that] by simp
  then have rep1: "store_rep n db1 w1 m lss"
    using assms(1-3) l q by (auto simp: store_rep_def db1_def w1_def)
  obtain db2 w2 where 2: "kv_run db_step db1 ys w1 = Some (db2, w2)"
    using leveled.run_refines [OF rep1, of ys] assms(5) by auto
  have "quiet w1" using q by (simp add: w1_def)
  then have "quiet w2" "w_fs w2 (wal_file p) = Some (wal_image (map log_entry xs @ ?e # map log_entry ys))"
    using db_run_appends [OF _ _ _ 2] l by (auto simp: w1_def db1_def wal_image_def)
  then have "\<exists>w3. storage_open names (Some p) None w2 = Some (None, w3)" for names
    using store_open_fails [of w2 p xs "opt_bytes v" ys] assms(5,6) by simp
  then show ?thesis using put 2 by blast
qed

theorem empty_key_poisons_log_witness:
  "\<exists>db w db1 w1 db2 w2 w3. storage_open [] (Some ''d'') None (with_file quiet_world ''d/wal.log'' []) = Some (Some db, w) \<and>
    storage_put db [] (Some [5]) w = Some (STATUS_INVALID_ARG, db1, w1) \<and>
    storage_put db1 [1] (Some [7]) w1 = Some (STATUS_OK, db2, w2) \<and>
    storage_open [] (Some ''d'') None w2 = Some (None, w3)"
proof -
  let ?w = "with_file quiet_world ''d/wal.log'' []"
  have "w_fs ?w (wal_file ''d'') = Some (wal_image (map log_entry []) @ [])" "w_fs ?w (manifest_path ''d'') = None"
    by (simp_all add: with_file_def wal_file_def manifest_path_def wal_image_def)
  then obtain db l w where o: "storage_open [] (Some ''d'') None ?w = Some (Some db, w)" "w_fs w = w_fs ?w"
    "db_wal db = Some l" "wal_path l = wal_file ''d''" "store_rep (2 ^ 63) db w [] (replicate 7 [])"
    using store_reopen [of ?w "''d''" "[]" "[]"] by (auto simp: wal_incomplete_def)
  have p: "db_path db = Some ''d''" "w_fs w (wal_file ''d'') = Some (wal_image (map log_entry []))"
    using o(2-5) by (auto simp: store_rep_def wal_file_def wal_image_def)
  have ok: "\<forall>x \<in> set ([] @ [Put [1] (Some [7])]). op_ok x" "13 + length (opt_bytes (Some [5])) < 2 ^ 32"
    by (simp_all add: opt_bytes_def)
  obtain db1 w1 db2 w2 w3 where r: "storage_put db [] (Some [5]) w = Some (STATUS_INVALID_ARG, db1, w1)"
    "kv_run db_step db1 [Put [1] (Some [7])] w1 = Some (db2, w2)" "storage_open [] (Some ''d'') None w2 = Some (None, w3)"
    using empty_key_poisons_log [OF o(5) p(1) o(3) p(2) ok] by blast
  then have "storage_put db1 [1] (Some [7]) w1 = Some (STATUS_OK, db2, w2)"
    by (auto split: option.splits status_t.splits)
  then show ?thesis using o(1) r(1,3) by blast
qed

end
