(* ===== verification/FS_Buf.thy ===== *)
theory FS_Buf
  imports Prelude
begin

text \<open>
  The disk and the buffer cache of the simple file system
  (\<^verbatim>\<open>simple-fs/src/disk.c\<close>, \<^verbatim>\<open>buf.c\<close>).

  The disk image is the list of its blocks. A write that fails leaves the block unchanged. \<open>d_trace\<close> records the block writes that were performed,
  in order: a power failure leaves the image that a prefix of them produces. Whether a system call
  succeeds is read off the oracle \<open>d_io\<close>. A failed \<^verbatim>\<open>assert\<close> ends the program and
  is undefined here (\<open>None\<close>), as is locking a mutex that is already locked: the single thread would
  wait for itself.

  The circular list through the buffers is the list of their positions from \<^verbatim>\<open>head.next\<close> on. The
  position of a block is computed in 32 bits, as \<^verbatim>\<open>blockno * BSIZE\<close> is.
\<close>

definition BSIZE :: nat where "BSIZE = 4096"
definition NBUF :: nat where "NBUF = 30"

section \<open>The disk\<close>

record disk =
  d_image :: "bytes list"
  d_trace :: "(nat \<times> bytes) list"
  d_io :: "bool list"

definition disk_call :: "disk \<Rightarrow> bool \<times> disk" where
  "disk_call d = (case d_io d of [] \<Rightarrow> (True, d) | b # bs \<Rightarrow> (b, d\<lparr>d_io := bs\<rparr>))"

definition block_pos :: "u32 \<Rightarrow> nat" where
  "block_pos blockno = unat (blockno * of_nat BSIZE) div BSIZE"

text \<open>A new image is written block by block; an existing one is opened and measured.\<close>

fun disk_fill :: "nat \<Rightarrow> bool list \<Rightarrow> bytes list \<Rightarrow> bool \<times> bytes list" where
  "disk_fill 0 io im = (True, im)"
| "disk_fill (Suc n) [] im = disk_fill n [] (im @ [replicate BSIZE 0])"
| "disk_fill (Suc n) (ok # io) im = (if ok then disk_fill n io (im @ [replicate BSIZE 0]) else (False, im))"

definition disk_init :: "u32 \<Rightarrow> bool list \<Rightarrow> bool \<times> bytes list" where
  "disk_init nblocks io =
     (case io of
        [] \<Rightarrow> disk_fill (unat nblocks) [] []
      | ok # io \<Rightarrow> if ok then disk_fill (unat nblocks) io [] else (False, []))"

definition disk_open :: "bytes list \<Rightarrow> bool list \<Rightarrow> disk option" where
  "disk_open im io =
     (case disk_call \<lparr>d_image = im, d_trace = [], d_io = io\<rparr> of (ok, d) \<Rightarrow>
      if \<not> ok then None else case disk_call d of (ok, d) \<Rightarrow> if ok then Some d else None)"

definition disk_size :: "disk \<Rightarrow> nat" where
  "disk_size d = length (d_image d)"

definition disk_read :: "u32 \<Rightarrow> disk \<Rightarrow> (bytes option \<times> disk) option" where
  "disk_read blockno d =
     (if unat blockno < disk_size d then
        (case disk_call d of (ok, d) \<Rightarrow>
         if \<not> ok then Some (None, d)
         else case disk_call d of (ok, d) \<Rightarrow> Some (if ok then Some (d_image d ! block_pos blockno) else None, d))
      else None)"

definition disk_write :: "u32 \<Rightarrow> bytes \<Rightarrow> disk \<Rightarrow> (bool \<times> disk) option" where
  "disk_write blockno data d =
     (if unat blockno < disk_size d then
        (case disk_call d of (ok, d) \<Rightarrow>
         if \<not> ok then Some (False, d)
         else case disk_call d of (ok, d) \<Rightarrow>
           Some (if ok then (True, d\<lparr>d_image := (d_image d)[block_pos blockno := data],
                                    d_trace := d_trace d @ [(block_pos blockno, data)]\<rparr>)
                 else (False, d)))
      else None)"

section \<open>The cache\<close>

record buf =
  b_valid :: bool
  b_dirty :: bool
  b_dev :: u32
  b_blockno :: u32
  b_refcnt :: int
  b_locked :: bool
  b_data :: bytes

record bcache =
  bc_bufs :: "buf list"
  bc_lru :: "nat list"
  bc_disk :: disk

definition empty_buf :: buf where
  "empty_buf = \<lparr>b_valid = False, b_dirty = False, b_dev = 0, b_blockno = 0, b_refcnt = 0, b_locked = False,
     b_data = replicate BSIZE 0\<rparr>"

text \<open>Every buffer is put in front of the list.\<close>

definition binit_cache :: "disk \<Rightarrow> bcache" where
  "binit_cache d = \<lparr>bc_bufs = replicate NBUF empty_buf, bc_lru = rev [0..<NBUF], bc_disk = d\<rparr>"

definition upd_buf :: "nat \<Rightarrow> (buf \<Rightarrow> buf) \<Rightarrow> bcache \<Rightarrow> bcache" where
  "upd_buf i f c = c\<lparr>bc_bufs := (bc_bufs c)[i := f (bc_bufs c ! i)]\<rparr>"

definition lru_front :: "nat \<Rightarrow> bcache \<Rightarrow> bcache" where
  "lru_front i c = c\<lparr>bc_lru := i # remove1 i (bc_lru c)\<rparr>"

definition lock_buf :: "nat \<Rightarrow> bcache \<Rightarrow> bcache option" where
  "lock_buf i c = (if b_locked (bc_bufs c ! i) then None else Some (upd_buf i (\<lambda>b. b\<lparr>b_locked := True\<rparr>) c))"

definition unlock_buf :: "nat \<Rightarrow> bcache \<Rightarrow> bcache option" where
  "unlock_buf i c = (if b_locked (bc_bufs c ! i) then Some (upd_buf i (\<lambda>b. b\<lparr>b_locked := False\<rparr>) c) else None)"

definition bget :: "u32 \<Rightarrow> u32 \<Rightarrow> bcache \<Rightarrow> (nat option \<times> bcache) option" where
  "bget dev blockno c =
     (case find (\<lambda>i. b_dev (bc_bufs c ! i) = dev \<and> b_blockno (bc_bufs c ! i) = blockno) (bc_lru c) of
        Some i \<Rightarrow> do {
          c \<leftarrow> lock_buf i (upd_buf i (\<lambda>b. b\<lparr>b_refcnt := b_refcnt b + 1\<rparr>) c);
          Some (Some i, c)
        }
      | None \<Rightarrow>
          (case find (\<lambda>i. b_refcnt (bc_bufs c ! i) = 0) (rev (bc_lru c)) of
             None \<Rightarrow> Some (None, c)
           | Some i \<Rightarrow> do {
               let b = bc_bufs c ! i;
               c \<leftarrow> (if b_dirty b then do { (ok, d) \<leftarrow> disk_write (b_blockno b) (b_data b) (bc_disk c); Some (c\<lparr>bc_disk := d\<rparr>) }
                    else Some c);
               c \<leftarrow> lock_buf i (lru_front i (upd_buf i (\<lambda>b. b\<lparr>b_dev := dev, b_blockno := blockno, b_valid := False,
                       b_dirty := False, b_refcnt := 1\<rparr>) c));
               Some (Some i, c)
             }))"

definition bread :: "u32 \<Rightarrow> u32 \<Rightarrow> bcache \<Rightarrow> (nat option \<times> bcache) option" where
  "bread dev blockno c = do {
     (r, c) \<leftarrow> bget dev blockno c;
     case r of
       None \<Rightarrow> Some (None, c)
     | Some i \<Rightarrow>
         if b_valid (bc_bufs c ! i) then Some (Some i, c)
         else do {
           (data, d) \<leftarrow> disk_read blockno (bc_disk c);
           let c = c\<lparr>bc_disk := d\<rparr>;
           case data of
             None \<Rightarrow> do {
               c \<leftarrow> unlock_buf i c;
               Some (None, upd_buf i (\<lambda>b. b\<lparr>b_refcnt := b_refcnt b - 1\<rparr>) c)
             }
           | Some data \<Rightarrow> Some (Some i, upd_buf i (\<lambda>b. b\<lparr>b_data := data, b_valid := True\<rparr>) c)
         }
   }"

definition bwrite :: "nat \<Rightarrow> bcache \<Rightarrow> bcache option" where
  "bwrite i c = do {
     (ok, d) \<leftarrow> disk_write (b_blockno (bc_bufs c ! i)) (b_data (bc_bufs c ! i)) (bc_disk c);
     let c = c\<lparr>bc_disk := d\<rparr>;
     Some (if ok then upd_buf i (\<lambda>b. b\<lparr>b_dirty := False\<rparr>) c else c)
   }"

definition brelse :: "nat \<Rightarrow> bcache \<Rightarrow> bcache option" where
  "brelse i c = do {
     c \<leftarrow> unlock_buf i c;
     let c = upd_buf i (\<lambda>b. b\<lparr>b_refcnt := b_refcnt b - 1\<rparr>) c;
     Some (if b_refcnt (bc_bufs c ! i) = 0 then lru_front i c else c)
   }"

definition bpin :: "nat \<Rightarrow> bcache \<Rightarrow> bcache" where
  "bpin i c = upd_buf i (\<lambda>b. b\<lparr>b_refcnt := b_refcnt b + 1\<rparr>) c"

definition bunpin :: "nat \<Rightarrow> bcache \<Rightarrow> bcache" where
  "bunpin i c = upd_buf i (\<lambda>b. b\<lparr>b_refcnt := b_refcnt b - 1\<rparr>) c"

text \<open>A write through the pointer to the data of a buffer.\<close>

definition set_data :: "nat \<Rightarrow> bytes \<Rightarrow> bcache \<Rightarrow> bcache" where
  "set_data i d c = upd_buf i (\<lambda>b. b\<lparr>b_data := d\<rparr>) c"

end
