(* ===== verification/FS_Log.thy ===== *)
theory FS_Log
  imports FS_Buf
begin

text \<open>
  The write-ahead log of the simple file system (\<^verbatim>\<open>simple-fs/src/log.c\<close>). \<open>begin_op\<close> of a
  caller that has to wait is \<open>None\<close>. Reading a header whose count exceeds the array of block numbers
  writes outside it, which is undefined.
\<close>

definition LOGSIZE :: nat where "LOGSIZE = 30"
definition MAXOPBLOCKS :: int where "MAXOPBLOCKS = 10"

record superblock =
  sb_magic :: u32
  sb_size :: u32
  sb_nblocks :: u32
  sb_ninodes :: u32
  sb_nlog :: u32
  sb_logstart :: u32
  sb_inodestart :: u32
  sb_bmapstart :: u32

record fs_log =
  lg_start :: int
  lg_size :: int
  lg_outstanding :: int
  lg_committing :: bool
  lg_dev :: int
  lg_n :: int
  lg_block :: "u32 list"

record fs_state =
  fs_cache :: bcache
  fs_log :: fs_log

definition upd_cache :: "fs_state \<Rightarrow> bcache \<Rightarrow> fs_state" where
  "upd_cache s c = s\<lparr>fs_cache := c\<rparr>"

definition upd_log :: "(fs_log \<Rightarrow> fs_log) \<Rightarrow> fs_state \<Rightarrow> fs_state" where
  "upd_log f s = s\<lparr>fs_log := f (fs_log s)\<rparr>"

definition log_dev :: "fs_state \<Rightarrow> u32" where
  "log_dev s = word_of_int (lg_dev (fs_log s))"

text \<open>The block of the log at an offset; offset 0 is the header.\<close>

definition log_at :: "fs_state \<Rightarrow> int \<Rightarrow> u32" where
  "log_at s k = word_of_int (lg_start (fs_log s) + k)"

definition head_n :: "bytes \<Rightarrow> int" where
  "head_n data = i32_word (take 4 data)"

definition head_block :: "bytes \<Rightarrow> nat \<Rightarrow> u32" where
  "head_block data i = le_word (take 4 (drop (4 + 4 * i) data))"

definition read_head :: "fs_state \<Rightarrow> fs_state option" where
  "read_head s = do {
     (r, c) \<leftarrow> bread (log_dev s) (log_at s 0) (fs_cache s);
     case r of
       None \<Rightarrow> Some (upd_cache s c)
     | Some i \<Rightarrow> do {
         let data = b_data (bc_bufs c ! i);
         let n = head_n data;
         if n > int (LOGSIZE - 1) then None
         else do {
           c \<leftarrow> brelse i c;
           Some (upd_log (\<lambda>l. l\<lparr>lg_n := n,
               lg_block := map (head_block data) [0..<nat n] @ drop (nat n) (lg_block l)\<rparr>) (upd_cache s c))
         }
       }
   }"

text \<open>The header with the count and the first \<open>n\<close> block numbers written over it.\<close>

definition head_bytes :: "int \<Rightarrow> u32 list \<Rightarrow> bytes \<Rightarrow> bytes" where
  "head_bytes n blocks data =
     (let new = i32_bytes n @ concat (map (le_bytes 4) (take (nat n) blocks)) in new @ drop (length new) data)"

definition write_head :: "fs_state \<Rightarrow> fs_state option" where
  "write_head s = do {
     (r, c) \<leftarrow> bread (log_dev s) (log_at s 0) (fs_cache s);
     case r of
       None \<Rightarrow> Some (upd_cache s c)
     | Some i \<Rightarrow> do {
         let c = set_data i (head_bytes (lg_n (fs_log s)) (lg_block (fs_log s)) (b_data (bc_bufs c ! i))) c;
         c \<leftarrow> bwrite i c;
         c \<leftarrow> brelse i c;
         Some (upd_cache s c)
       }
   }"

text \<open>One round of \<^verbatim>\<open>install_trans\<close> and of \<^verbatim>\<open>write_log\<close>.\<close>

definition install_block :: "nat \<Rightarrow> fs_state \<Rightarrow> fs_state option" where
  "install_block tail s = do {
     (r, c) \<leftarrow> bread (log_dev s) (log_at s (int tail + 1)) (fs_cache s);
     case r of
       None \<Rightarrow> Some (upd_cache s c)
     | Some lbuf \<Rightarrow> do {
         (r, c) \<leftarrow> bread (log_dev s) (lg_block (fs_log s) ! tail) c;
         case r of
           None \<Rightarrow> do { c \<leftarrow> brelse lbuf c; Some (upd_cache s c) }
         | Some dbuf \<Rightarrow> do {
             let c = set_data dbuf (b_data (bc_bufs c ! lbuf)) c;
             c \<leftarrow> bwrite dbuf c;
             let c = bunpin dbuf c;
             c \<leftarrow> brelse lbuf c;
             c \<leftarrow> brelse dbuf c;
             Some (upd_cache s c)
           }
       }
   }"

definition log_block :: "nat \<Rightarrow> fs_state \<Rightarrow> fs_state option" where
  "log_block tail s = do {
     (r, c) \<leftarrow> bread (log_dev s) (lg_block (fs_log s) ! tail) (fs_cache s);
     case r of
       None \<Rightarrow> Some (upd_cache s c)
     | Some from \<Rightarrow> do {
         (r, c) \<leftarrow> bread (log_dev s) (log_at s (int tail + 1)) c;
         case r of
           None \<Rightarrow> do { c \<leftarrow> brelse from c; Some (upd_cache s c) }
         | Some to \<Rightarrow> do {
             let c = set_data to (b_data (bc_bufs c ! from)) c;
             c \<leftarrow> bwrite to c;
             c \<leftarrow> brelse from c;
             c \<leftarrow> brelse to c;
             Some (upd_cache s c)
           }
       }
   }"

fun each_tail :: "(nat \<Rightarrow> fs_state \<Rightarrow> fs_state option) \<Rightarrow> nat list \<Rightarrow> fs_state \<Rightarrow> fs_state option" where
  "each_tail f [] s = Some s"
| "each_tail f (t # ts) s = do { s \<leftarrow> f t s; each_tail f ts s }"

definition install_trans :: "fs_state \<Rightarrow> fs_state option" where
  "install_trans s = each_tail install_block [0..<nat (lg_n (fs_log s))] s"

definition write_log :: "fs_state \<Rightarrow> fs_state option" where
  "write_log s = each_tail log_block [0..<nat (lg_n (fs_log s))] s"

definition recover_from_log :: "fs_state \<Rightarrow> fs_state option" where
  "recover_from_log s = do {
     s \<leftarrow> read_head s;
     if lg_n (fs_log s) > 0 then do {
       s \<leftarrow> install_trans s;
       write_head (upd_log (\<lambda>l. l\<lparr>lg_n := 0\<rparr>) s)
     }
     else Some s
   }"

text \<open>The log variable is static: before the first call its header is zero.\<close>

definition zero_log :: fs_log where
  "zero_log = \<lparr>lg_start = 0, lg_size = 0, lg_outstanding = 0, lg_committing = False, lg_dev = 0, lg_n = 0,
     lg_block = replicate (LOGSIZE - 1) 0\<rparr>"

definition loginit :: "int \<Rightarrow> superblock \<Rightarrow> fs_state \<Rightarrow> fs_state option" where
  "loginit dev sb s = recover_from_log (upd_log (\<lambda>l. l\<lparr>lg_start := sint (sb_logstart sb), lg_size := sint (sb_nlog sb),
     lg_dev := dev, lg_outstanding := 0, lg_committing := False\<rparr>) s)"

definition begin_op :: "fs_state \<Rightarrow> fs_state option" where
  "begin_op s =
     (if lg_committing (fs_log s) then None
      else if lg_n (fs_log s) + (lg_outstanding (fs_log s) + 1) * MAXOPBLOCKS > lg_size (fs_log s) - 1 then None
      else Some (upd_log (\<lambda>l. l\<lparr>lg_outstanding := lg_outstanding l + 1\<rparr>) s))"

definition commit :: "fs_state \<Rightarrow> fs_state option" where
  "commit s =
     (if lg_n (fs_log s) > 0 then do {
        s \<leftarrow> write_log s;
        s \<leftarrow> write_head s;
        s \<leftarrow> install_trans s;
        write_head (upd_log (\<lambda>l. l\<lparr>lg_n := 0\<rparr>) s)
      }
      else Some s)"

definition end_op :: "fs_state \<Rightarrow> fs_state option" where
  "end_op s =
     (let s = upd_log (\<lambda>l. l\<lparr>lg_outstanding := lg_outstanding l - 1\<rparr>) s
      in if lg_outstanding (fs_log s) = 0 then do {
           s \<leftarrow> commit (upd_log (\<lambda>l. l\<lparr>lg_committing := True\<rparr>) s);
           Some (upd_log (\<lambda>l. l\<lparr>lg_committing := False\<rparr>) s)
         }
         else Some s)"

definition log_write :: "nat \<Rightarrow> fs_state \<Rightarrow> fs_state option" where
  "log_write i s =
     (let l = fs_log s; blockno = b_blockno (bc_bufs (fs_cache s) ! i)
      in if lg_outstanding l < 1 then do { c \<leftarrow> bwrite i (fs_cache s); Some (upd_cache s c) }
         else if lg_n l \<ge> lg_size l - 1 then Some s
         else if blockno \<in> set (take (nat (lg_n l)) (lg_block l)) then Some s
         else if nat (lg_n l) \<ge> length (lg_block l) then None
         else Some (upd_log (\<lambda>l. l\<lparr>lg_block := (lg_block l)[nat (lg_n l) := blockno], lg_n := lg_n l + 1\<rparr>)
                (upd_cache s (bpin i (fs_cache s)))))"

text \<open>The start of the program: the superblock is read from block 1 of the disk, the cache is initialised
  and the log recovers. Without the magic number the program ends; when the superblock cannot be read its
  bytes are undefined.\<close>

definition FSMAGIC :: u32 where "FSMAGIC = 0x53465346"

definition read_sb :: "bytes \<Rightarrow> superblock" where
  "read_sb d = (let f = (\<lambda>k. le_word (take 4 (drop (4 * k) d)))
     in \<lparr>sb_magic = f 0, sb_size = f 1, sb_nblocks = f 2, sb_ninodes = f 3, sb_nlog = f 4, sb_logstart = f 5,
         sb_inodestart = f 6, sb_bmapstart = f 7\<rparr>)"

definition fs_start :: "disk \<Rightarrow> (superblock \<times> fs_state) option" where
  "fs_start d = do {
     (data, d) \<leftarrow> disk_read 1 d;
     data \<leftarrow> data;
     let sb = read_sb data;
     if sb_magic sb \<noteq> FSMAGIC then None
     else do {
       s \<leftarrow> loginit 0 sb \<lparr>fs_cache = binit_cache d, fs_log = zero_log\<rparr>;
       Some (sb, s)
     }
   }"

end
