(* ===== verification/FS_Block.thy ===== *)
theory FS_Block
  imports FS_Log
begin

text \<open>
  The block allocator of the simple file system (\<^verbatim>\<open>simple-fs/src/block.c\<close>). The loop over the bitmap
  blocks counts in 32 bits and is undefined when it does not end.
\<close>

unbundle bit_operations_syntax

definition BPB :: nat where "BPB = 8 * BSIZE"

definition BBLOCK :: "u32 \<Rightarrow> superblock \<Rightarrow> u32" where
  "BBLOCK b sb = b div of_nat BPB + sb_bmapstart sb"

definition bzeroblk :: "u32 \<Rightarrow> fs_state \<Rightarrow> fs_state option" where
  "bzeroblk blockno s = do {
     (r, c) \<leftarrow> bread 0 blockno (fs_cache s);
     case r of
       None \<Rightarrow> Some (upd_cache s c)
     | Some i \<Rightarrow> do {
         s \<leftarrow> log_write i (upd_cache s (set_data i (replicate BSIZE 0) c));
         c \<leftarrow> brelse i (fs_cache s);
         Some (upd_cache s c)
       }
   }"

text \<open>The first clear bit among the first \<open>m\<close>, and the two changes of a bit.\<close>

definition bit_at :: "bytes \<Rightarrow> nat \<Rightarrow> bool" where
  "bit_at data bi = bit (data ! (bi div 8)) (bi mod 8)"

definition free_bit :: "bytes \<Rightarrow> nat \<Rightarrow> nat option" where
  "free_bit data m = find (\<lambda>bi. \<not> bit_at data bi) [0..<m]"

definition mark_bit :: "nat \<Rightarrow> bytes \<Rightarrow> bytes" where
  "mark_bit bi data = data[bi div 8 := data ! (bi div 8) OR push_bit (bi mod 8) 1]"

definition clear_bit :: "nat \<Rightarrow> bytes \<Rightarrow> bytes" where
  "clear_bit bi data = data[bi div 8 := data ! (bi div 8) AND NOT (push_bit (bi mod 8) 1)]"

partial_function (option) balloc_loop :: "superblock \<Rightarrow> u32 \<Rightarrow> fs_state \<Rightarrow> (u32 \<times> fs_state) option" where
  "balloc_loop sb b s =
     (if b < sb_size sb then do {
        (r, c) \<leftarrow> bread 0 (BBLOCK b sb) (fs_cache s);
        case r of
          None \<Rightarrow> Some (0, upd_cache s c)
        | Some i \<Rightarrow>
            (case free_bit (b_data (bc_bufs c ! i)) (min BPB (unat (sb_size sb) - unat b)) of
               Some bi \<Rightarrow> do {
                 s \<leftarrow> log_write i (upd_cache s (set_data i (mark_bit bi (b_data (bc_bufs c ! i))) c));
                 c \<leftarrow> brelse i (fs_cache s);
                 s \<leftarrow> bzeroblk (b + of_nat bi) (upd_cache s c);
                 Some (b + of_nat bi, s)
               }
             | None \<Rightarrow> do {
                 c \<leftarrow> brelse i c;
                 balloc_loop sb (b + of_nat BPB) (upd_cache s c)
               })
      }
      else Some (0, s))"

definition balloc :: "superblock \<Rightarrow> fs_state \<Rightarrow> (u32 \<times> fs_state) option" where
  "balloc sb s = balloc_loop sb 0 s"

definition bfree :: "superblock \<Rightarrow> u32 \<Rightarrow> fs_state \<Rightarrow> fs_state option" where
  "bfree sb blockno s =
     (if blockno > 0 \<and> blockno < sb_size sb then do {
        (r, c) \<leftarrow> bread 0 (BBLOCK blockno sb) (fs_cache s);
        case r of
          None \<Rightarrow> Some (upd_cache s c)
        | Some i \<Rightarrow>
            (let bi = unat blockno mod BPB
             in if \<not> bit_at (b_data (bc_bufs c ! i)) bi then do { c \<leftarrow> brelse i c; Some (upd_cache s c) }
                else do {
                  s \<leftarrow> log_write i (upd_cache s (set_data i (clear_bit bi (b_data (bc_bufs c ! i))) c));
                  c \<leftarrow> brelse i (fs_cache s);
                  Some (upd_cache s c)
                })
      }
      else None)"

end
