(* ===== verification/FS_Inode.thy ===== *)
theory FS_Inode
  imports FS_Block
begin

text \<open>
  The inodes of the simple file system (\<^verbatim>\<open>simple-fs/src/inode.c\<close>). An inode pointer is its position in
  the table. Locking a mutex twice waits forever and unlocking one that is not locked is undefined; both are
  \<open>None\<close>. The read and write functions return the bytes they copied beside their result.
\<close>

type_synonym u16 = "16 word"

definition NDIRECT :: nat where "NDIRECT = 12"
definition NINDIRECT :: nat where "NINDIRECT = BSIZE div 4"
definition MAXFILE :: nat where "MAXFILE = NDIRECT + NINDIRECT"
definition NINODE :: nat where "NINODE = 50"
definition DINODE_SIZE :: nat where "DINODE_SIZE = 64"
definition IPB :: nat where "IPB = BSIZE div DINODE_SIZE"

definition T_DIR :: u16 where "T_DIR = 1"
definition T_FILE :: u16 where "T_FILE = 2"
definition T_DEV :: u16 where "T_DEV = 3"

definition IBLOCK :: "u32 \<Rightarrow> superblock \<Rightarrow> u32" where
  "IBLOCK i sb = i div of_nat IPB + sb_inodestart sb"

record dinode =
  di_type :: u16
  di_major :: u16
  di_minor :: u16
  di_nlink :: u16
  di_size :: u32
  di_addrs :: "u32 list"

record inode =
  i_dev :: u32
  i_inum :: u32
  i_ref :: int
  i_valid :: bool
  i_locked :: bool
  i_type :: u16
  i_major :: u16
  i_minor :: u16
  i_nlink :: u16
  i_size :: u32
  i_addrs :: "u32 list"

record ifs =
  if_fs :: fs_state
  if_inodes :: "inode list"

definition upd_fs :: "ifs \<Rightarrow> fs_state \<Rightarrow> ifs" where
  "upd_fs t s = t\<lparr>if_fs := s\<rparr>"

definition upd_inode :: "nat \<Rightarrow> (inode \<Rightarrow> inode) \<Rightarrow> ifs \<Rightarrow> ifs" where
  "upd_inode ip f t = t\<lparr>if_inodes := (if_inodes t)[ip := f (if_inodes t ! ip)]\<rparr>"

definition ino :: "ifs \<Rightarrow> nat \<Rightarrow> inode" where
  "ino t ip = if_inodes t ! ip"

section \<open>The inode on the disk\<close>

definition word_at :: "nat \<Rightarrow> nat \<Rightarrow> bytes \<Rightarrow> 'a::len word" where
  "word_at w k d = le_word (take w (drop k d))"

definition put_bytes :: "nat \<Rightarrow> bytes \<Rightarrow> bytes \<Rightarrow> bytes" where
  "put_bytes k new d = take k d @ new @ drop (k + length new) d"

definition dinode_pos :: "u32 \<Rightarrow> nat" where
  "dinode_pos inum = DINODE_SIZE * (unat inum mod IPB)"

definition read_dinode :: "u32 \<Rightarrow> bytes \<Rightarrow> dinode" where
  "read_dinode inum data =
     (let k = dinode_pos inum
      in \<lparr>di_type = word_at 2 k data, di_major = word_at 2 (k + 2) data, di_minor = word_at 2 (k + 4) data,
          di_nlink = word_at 2 (k + 6) data, di_size = word_at 4 (k + 8) data,
          di_addrs = map (\<lambda>j. word_at 4 (k + 12 + 4 * j) data) [0..<NDIRECT + 1]\<rparr>)"

definition dinode_bytes :: "dinode \<Rightarrow> bytes" where
  "dinode_bytes d = le_bytes 2 (di_type d) @ le_bytes 2 (di_major d) @ le_bytes 2 (di_minor d) @ le_bytes 2 (di_nlink d) @
     le_bytes 4 (di_size d) @ concat (map (le_bytes 4) (di_addrs d))"

definition write_dinode :: "u32 \<Rightarrow> dinode \<Rightarrow> bytes \<Rightarrow> bytes" where
  "write_dinode inum d data = put_bytes (dinode_pos inum) (dinode_bytes d) data"

definition to_dinode :: "inode \<Rightarrow> dinode" where
  "to_dinode i = \<lparr>di_type = i_type i, di_major = i_major i, di_minor = i_minor i, di_nlink = i_nlink i, di_size = i_size i,
     di_addrs = i_addrs i\<rparr>"

definition from_dinode :: "dinode \<Rightarrow> inode \<Rightarrow> inode" where
  "from_dinode d i = i\<lparr>i_type := di_type d, i_major := di_major d, i_minor := di_minor d, i_nlink := di_nlink d,
     i_size := di_size d, i_addrs := di_addrs d, i_valid := True\<rparr>"

section \<open>The table\<close>

definition zero_inode :: inode where
  "zero_inode = \<lparr>i_dev = 0, i_inum = 0, i_ref = 0, i_valid = False, i_locked = False, i_type = 0, i_major = 0, i_minor = 0,
     i_nlink = 0, i_size = 0, i_addrs = replicate (NDIRECT + 1) 0\<rparr>"

definition iinit :: "fs_state \<Rightarrow> ifs" where
  "iinit s = \<lparr>if_fs = s, if_inodes = replicate NINODE zero_inode\<rparr>"

definition iget :: "u32 \<Rightarrow> u32 \<Rightarrow> ifs \<Rightarrow> nat option \<times> ifs" where
  "iget dev inum t =
     (case find (\<lambda>ip. i_ref (ino t ip) > 0 \<and> i_dev (ino t ip) = dev \<and> i_inum (ino t ip) = inum) [0..<length (if_inodes t)] of
        Some ip \<Rightarrow> (Some ip, upd_inode ip (\<lambda>i. i\<lparr>i_ref := i_ref i + 1\<rparr>) t)
      | None \<Rightarrow>
          (case find (\<lambda>ip. i_ref (ino t ip) = 0) [0..<length (if_inodes t)] of
             None \<Rightarrow> (None, t)
           | Some ip \<Rightarrow> (Some ip, upd_inode ip (\<lambda>i. i\<lparr>i_dev := dev, i_inum := inum, i_ref := 1, i_valid := False\<rparr>) t)))"

definition idup :: "nat \<Rightarrow> ifs \<Rightarrow> nat \<times> ifs" where
  "idup ip t = (ip, upd_inode ip (\<lambda>i. i\<lparr>i_ref := i_ref i + 1\<rparr>) t)"

definition ilock :: "superblock \<Rightarrow> nat \<Rightarrow> ifs \<Rightarrow> ifs option" where
  "ilock sb ip t =
     (if i_ref (ino t ip) < 1 then Some t
      else if i_locked (ino t ip) then None
      else let t = upd_inode ip (\<lambda>i. i\<lparr>i_locked := True\<rparr>) t
        in if i_valid (ino t ip) then Some t
           else do {
             (r, c) \<leftarrow> bread (i_dev (ino t ip)) (IBLOCK (i_inum (ino t ip)) sb) (fs_cache (if_fs t));
             case r of
               None \<Rightarrow> Some (upd_fs t (upd_cache (if_fs t) c))
             | Some b \<Rightarrow> do {
                 let d = read_dinode (i_inum (ino t ip)) (b_data (bc_bufs c ! b));
                 c \<leftarrow> brelse b c;
                 Some (upd_inode ip (from_dinode d) (upd_fs t (upd_cache (if_fs t) c)))
               }
           })"

text \<open>\<^verbatim>\<open>pthread_mutex_trylock\<close> is zero when it took the lock: a lock that was free stays taken, and one
  that was taken is unlocked twice.\<close>

definition unlock_inode :: "nat \<Rightarrow> ifs \<Rightarrow> ifs option" where
  "unlock_inode ip t = (if i_locked (ino t ip) then Some (upd_inode ip (\<lambda>i. i\<lparr>i_locked := False\<rparr>) t) else None)"

definition iunlock :: "nat \<Rightarrow> ifs \<Rightarrow> ifs option" where
  "iunlock ip t =
     (if \<not> i_locked (ino t ip) then Some (upd_inode ip (\<lambda>i. i\<lparr>i_locked := True\<rparr>) t)
      else do { t \<leftarrow> unlock_inode ip t; unlock_inode ip t })"

section \<open>Blocks of the inode table\<close>

text \<open>A block is read, changed, logged and released; when it cannot be read nothing happens.\<close>

definition change_block :: "u32 \<Rightarrow> u32 \<Rightarrow> (bytes \<Rightarrow> bytes) \<Rightarrow> fs_state \<Rightarrow> fs_state option" where
  "change_block dev b f s = do {
     (r, c) \<leftarrow> bread dev b (fs_cache s);
     case r of
       None \<Rightarrow> Some (upd_cache s c)
     | Some i \<Rightarrow> do {
         s \<leftarrow> log_write i (upd_cache s (set_data i (f (b_data (bc_bufs c ! i))) c));
         c \<leftarrow> brelse i (fs_cache s);
         Some (upd_cache s c)
       }
   }"

definition iupdate :: "superblock \<Rightarrow> nat \<Rightarrow> ifs \<Rightarrow> ifs option" where
  "iupdate sb ip t =
     (let i = ino t ip
      in map_option (upd_fs t) (change_block (i_dev i) (IBLOCK (i_inum i) sb) (write_dinode (i_inum i) (to_dinode i)) (if_fs t)))"

definition zero_dinode :: dinode where
  "zero_dinode = \<lparr>di_type = 0, di_major = 0, di_minor = 0, di_nlink = 0, di_size = 0, di_addrs = replicate (NDIRECT + 1) 0\<rparr>"

definition ifree :: "superblock \<Rightarrow> u32 \<Rightarrow> u32 \<Rightarrow> ifs \<Rightarrow> ifs option" where
  "ifree sb dev inum t = map_option (upd_fs t) (change_block dev (IBLOCK inum sb) (write_dinode inum zero_dinode) (if_fs t))"

lemma unat_succ_u32:
  fixes i n :: u32
  assumes "i < n"
  shows "unat (i + 1) = unat i + 1"
proof -
  have "unat n < 2 ^ 32" using unsigned_less [of n, where 'a = nat] by simp
  then have "unat i + 1 < 2 ^ 32" using assms unfolding word_less_nat_alt by linarith
  then show ?thesis by (simp add: unat_word_ariths)
qed

function ialloc_loop :: "superblock \<Rightarrow> u32 \<Rightarrow> u16 \<Rightarrow> u32 \<Rightarrow> fs_state \<Rightarrow> (u32 \<times> fs_state) option" where
  "ialloc_loop sb dev ty inum s =
     (if inum < sb_ninodes sb then do {
        (r, c) \<leftarrow> bread dev (IBLOCK inum sb) (fs_cache s);
        case r of
          None \<Rightarrow> ialloc_loop sb dev ty (inum + 1) (upd_cache s c)
        | Some i \<Rightarrow>
            if di_type (read_dinode inum (b_data (bc_bufs c ! i))) = 0 then do {
              s \<leftarrow> log_write i (upd_cache s (set_data i
                     (write_dinode inum (zero_dinode\<lparr>di_type := ty\<rparr>) (b_data (bc_bufs c ! i))) c));
              c \<leftarrow> brelse i (fs_cache s);
              Some (inum, upd_cache s c)
            }
            else do {
              c \<leftarrow> brelse i c;
              ialloc_loop sb dev ty (inum + 1) (upd_cache s c)
            }
      }
      else Some (0, s))"
  by pat_completeness auto

termination
  by (relation "measure (\<lambda>(sb, dev, ty, inum, s). unat (sb_ninodes sb) - unat inum)")
    (auto simp: unat_succ_u32 word_less_nat_alt)

definition ialloc :: "superblock \<Rightarrow> u32 \<Rightarrow> u16 \<Rightarrow> ifs \<Rightarrow> (u32 \<times> ifs) option" where
  "ialloc sb dev ty t = map_option (\<lambda>(n, s). (n, upd_fs t s)) (ialloc_loop sb dev ty 1 (if_fs t))"

section \<open>The content of an inode\<close>

definition set_addr :: "nat \<Rightarrow> nat \<Rightarrow> u32 \<Rightarrow> ifs \<Rightarrow> ifs" where
  "set_addr ip k a t = upd_inode ip (\<lambda>i. i\<lparr>i_addrs := (i_addrs i)[k := a]\<rparr>) t"

text \<open>The address at a position of the inode, allocated when it is zero.\<close>

definition own_addr :: "superblock \<Rightarrow> nat \<Rightarrow> nat \<Rightarrow> ifs \<Rightarrow> (u32 \<times> ifs) option" where
  "own_addr sb ip k t =
     (let addr = i_addrs (ino t ip) ! k
      in if addr \<noteq> 0 then Some (addr, t)
         else do { (addr, s) \<leftarrow> balloc sb (if_fs t); Some (addr, set_addr ip k addr (upd_fs t s)) })"

definition bmap :: "superblock \<Rightarrow> nat \<Rightarrow> u32 \<Rightarrow> ifs \<Rightarrow> (u32 \<times> ifs) option" where
  "bmap sb ip bn t =
     (if unat bn < NDIRECT then own_addr sb ip (unat bn) t
      else if unat bn - NDIRECT < NINDIRECT then do {
        (addr, t) \<leftarrow> own_addr sb ip NDIRECT t;
        (r, c) \<leftarrow> bread (i_dev (ino t ip)) addr (fs_cache (if_fs t));
        let t = upd_fs t (upd_cache (if_fs t) c);
        case r of
          None \<Rightarrow> Some (0, t)
        | Some b \<Rightarrow> do {
            let a = word_at 4 (4 * (unat bn - NDIRECT)) (b_data (bc_bufs c ! b));
            (addr, t) \<leftarrow> (if a \<noteq> 0 then Some (a, t)
               else do {
                 (addr, s) \<leftarrow> balloc sb (if_fs t);
                 s \<leftarrow> log_write b (upd_cache s (set_data b (put_bytes (4 * (unat bn - NDIRECT)) (le_bytes 4 addr)
                        (b_data (bc_bufs (fs_cache s) ! b))) (fs_cache s)));
                 Some (addr, upd_fs t s)
               });
            c \<leftarrow> brelse b (fs_cache (if_fs t));
            Some (addr, upd_fs t (upd_cache (if_fs t) c))
          }
      }
      else Some (0, t))"

fun free_all :: "superblock \<Rightarrow> u32 list \<Rightarrow> fs_state \<Rightarrow> fs_state option" where
  "free_all sb [] s = Some s"
| "free_all sb (a # as) s = do { s \<leftarrow> (if a \<noteq> 0 then bfree sb a s else Some s); free_all sb as s }"

definition itrunc :: "superblock \<Rightarrow> nat \<Rightarrow> ifs \<Rightarrow> ifs option" where
  "itrunc sb ip t = do {
     s \<leftarrow> free_all sb (take NDIRECT (i_addrs (ino t ip))) (if_fs t);
     let t = upd_inode ip (\<lambda>i. i\<lparr>i_addrs := replicate NDIRECT 0 @ drop NDIRECT (i_addrs i)\<rparr>) (upd_fs t s);
     let ind = i_addrs (ino t ip) ! NDIRECT;
     t \<leftarrow> (if ind = 0 then Some t
          else do {
            (r, c) \<leftarrow> bread (i_dev (ino t ip)) ind (fs_cache (if_fs t));
            let s = upd_cache (if_fs t) c;
            s \<leftarrow> (case r of
                    None \<Rightarrow> Some s
                  | Some b \<Rightarrow> do {
                      s \<leftarrow> free_all sb (map (\<lambda>j. word_at 4 (4 * j) (b_data (bc_bufs c ! b))) [0..<NINDIRECT]) s;
                      c \<leftarrow> brelse b (fs_cache s);
                      Some (upd_cache s c)
                    });
            s \<leftarrow> bfree sb ind s;
            Some (set_addr ip NDIRECT 0 (upd_fs t s))
          });
     iupdate sb ip (upd_inode ip (\<lambda>i. i\<lparr>i_size := 0\<rparr>) t)
   }"

definition iput :: "superblock \<Rightarrow> nat \<Rightarrow> ifs \<Rightarrow> ifs option" where
  "iput sb ip t = do {
     t \<leftarrow> (if i_ref (ino t ip) = 1 \<and> i_valid (ino t ip) \<and> i_nlink (ino t ip) = 0 then
            if i_locked (ino t ip) then None
            else do {
              t \<leftarrow> itrunc sb ip (upd_inode ip (\<lambda>i. i\<lparr>i_locked := True\<rparr>) t);
              t \<leftarrow> iupdate sb ip (upd_inode ip (\<lambda>i. i\<lparr>i_type := 0\<rparr>) t);
              unlock_inode ip (upd_inode ip (\<lambda>i. i\<lparr>i_valid := False\<rparr>) t)
            }
          else Some t);
     Some (upd_inode ip (\<lambda>i. i\<lparr>i_ref := i_ref i - 1\<rparr>) t)
   }"

section \<open>Reading and writing\<close>

definition chunk :: "u32 \<Rightarrow> nat \<Rightarrow> nat" where
  "chunk off n = min (BSIZE - unat off mod BSIZE) n"

lemma chunk_pos: "0 < n \<Longrightarrow> 0 < chunk off n" "chunk off n \<le> n"
  by (simp_all add: chunk_def BSIZE_def)

text \<open>\<open>n\<close> bytes are still to be copied; the result is \<open>None\<close> when a block is missing.\<close>

function readi_loop :: "superblock \<Rightarrow> nat \<Rightarrow> u32 \<Rightarrow> nat \<Rightarrow> bytes \<Rightarrow> ifs \<Rightarrow> (bool \<times> bytes \<times> ifs) option" where
  "readi_loop sb ip off n dst t =
     (if n = 0 then Some (True, dst, t)
      else do {
        (bn, t) \<leftarrow> bmap sb ip (off div of_nat BSIZE) t;
        if bn = 0 then Some (False, dst, t)
        else do {
          (r, c) \<leftarrow> bread (i_dev (ino t ip)) bn (fs_cache (if_fs t));
          case r of
            None \<Rightarrow> Some (False, dst, upd_fs t (upd_cache (if_fs t) c))
          | Some b \<Rightarrow> do {
              let m = chunk off n;
              let data = take m (drop (unat off mod BSIZE) (b_data (bc_bufs c ! b)));
              c \<leftarrow> brelse b c;
              readi_loop sb ip (off + of_nat m) (n - m) (dst @ data) (upd_fs t (upd_cache (if_fs t) c))
            }
        }
      })"
  by pat_completeness auto

termination
  by (relation "measure (\<lambda>(sb, ip, off, n, dst, t). n)") (auto simp: chunk_pos)

definition readi :: "superblock \<Rightarrow> nat \<Rightarrow> u32 \<Rightarrow> u32 \<Rightarrow> ifs \<Rightarrow> (int \<times> bytes \<times> ifs) option" where
  "readi sb ip off n t =
     (let size = i_size (ino t ip)
      in if i_type (ino t ip) = T_DEV then Some (- 1, [], t)
         else if off > size \<or> off + n < off then Some (- 1, [], t)
         else let n = (if off + n > size then size - off else n)
           in map_option (\<lambda>(ok, dst, t). (if ok then sint n else - 1, dst, t)) (readi_loop sb ip off (unat n) [] t))"

function writei_loop :: "superblock \<Rightarrow> nat \<Rightarrow> u32 \<Rightarrow> bytes \<Rightarrow> ifs \<Rightarrow> (bool \<times> u32 \<times> ifs) option" where
  "writei_loop sb ip off src t =
     (if src = [] then Some (True, off, t)
      else do {
        (bn, t) \<leftarrow> bmap sb ip (off div of_nat BSIZE) t;
        if bn = 0 then Some (False, off, t)
        else do {
          (r, c) \<leftarrow> bread (i_dev (ino t ip)) bn (fs_cache (if_fs t));
          case r of
            None \<Rightarrow> Some (False, off, upd_fs t (upd_cache (if_fs t) c))
          | Some b \<Rightarrow> do {
              let m = chunk off (length src);
              s \<leftarrow> log_write b (upd_cache (if_fs t) (set_data b (put_bytes (unat off mod BSIZE) (take m src) (b_data (bc_bufs c ! b))) c));
              c \<leftarrow> brelse b (fs_cache s);
              writei_loop sb ip (off + of_nat m) (drop m src) (upd_fs t (upd_cache s c))
            }
        }
      })"
  by pat_completeness auto

termination
  by (relation "measure (\<lambda>(sb, ip, off, src, t). length src)") (auto simp: chunk_pos)

definition writei :: "superblock \<Rightarrow> nat \<Rightarrow> u32 \<Rightarrow> bytes \<Rightarrow> ifs \<Rightarrow> (int \<times> ifs) option" where
  "writei sb ip off src t =
     (let size = i_size (ino t ip); n = of_nat (length src)
      in if i_type (ino t ip) = T_DEV then Some (- 1, t)
         else if off > size \<or> off + n < off then Some (- 1, t)
         else if unat (off + n) > MAXFILE * BSIZE then Some (- 1, t)
         else do {
           (ok, off, t) \<leftarrow> writei_loop sb ip off src t;
           if \<not> ok then Some (- 1, t)
           else do {
             t \<leftarrow> (if n > 0 \<and> off > i_size (ino t ip) then iupdate sb ip (upd_inode ip (\<lambda>i. i\<lparr>i_size := off\<rparr>) t) else Some t);
             Some (sint n, t)
           }
         })"

declare readi_loop.simps [simp del] writei_loop.simps [simp del] ialloc_loop.simps [simp del]

end
