(* ===== verification/FS_Buf_Spec.thy ===== *)
theory FS_Buf_Spec
  imports FS_Buf
begin

text \<open>
  What the buffer cache promises to its callers, in terms of block numbers: the content of a block as a
  caller sees it, the references to it and whether it is locked. Reading a block never changes these
  contents, whichever buffer is recycled for it.
\<close>

section \<open>The abstraction\<close>

definition slot :: "bcache \<Rightarrow> u32 \<Rightarrow> nat option" where
  "slot c b = find (\<lambda>i. b_blockno (bc_bufs c ! i) = b) [0..<NBUF]"

definition content :: "bcache \<Rightarrow> u32 \<Rightarrow> bytes" where
  "content c b = (case slot c b of
      Some i \<Rightarrow> if b_valid (bc_bufs c ! i) then b_data (bc_bufs c ! i) else d_image (bc_disk c) ! unat b
    | None \<Rightarrow> d_image (bc_disk c) ! unat b)"

definition refs :: "bcache \<Rightarrow> u32 \<Rightarrow> int" where
  "refs c b = (case slot c b of Some i \<Rightarrow> b_refcnt (bc_bufs c ! i) | None \<Rightarrow> 0)"

definition held :: "bcache \<Rightarrow> u32 \<Rightarrow> bool" where
  "held c b = (case slot c b of Some i \<Rightarrow> b_locked (bc_bufs c ! i) | None \<Rightarrow> False)"

definition buf_ok :: "bytes list \<Rightarrow> buf \<Rightarrow> bool" where
  "buf_ok img b \<longleftrightarrow> b_dev b = 0 \<and> \<not> b_dirty b \<and> length (b_data b) = BSIZE \<and>
     (b_blockno b = 0 \<longrightarrow> \<not> b_valid b \<and> b_refcnt b = 0 \<and> \<not> b_locked b) \<and>
     (b_valid b \<and> b_refcnt b = 0 \<longrightarrow> b_data b = img ! unat (b_blockno b))"

definition disk_ok :: "disk \<Rightarrow> bool" where
  "disk_ok d \<longleftrightarrow> d_io d = [] \<and> length (d_image d) \<le> 2 ^ 20 \<and> (\<forall>b \<in> set (d_image d). length b = BSIZE)"

definition unique_blocks :: "buf list \<Rightarrow> bool" where
  "unique_blocks bs \<longleftrightarrow> (\<forall>i < NBUF. \<forall>j < NBUF. b_blockno (bs ! i) = b_blockno (bs ! j) \<and> b_blockno (bs ! i) \<noteq> 0 \<longrightarrow> i = j)"

definition cache_ok :: "bcache \<Rightarrow> bool" where
  "cache_ok c \<longleftrightarrow> length (bc_bufs c) = NBUF \<and> distinct (bc_lru c) \<and> set (bc_lru c) = {..<NBUF} \<and> disk_ok (bc_disk c) \<and>
     (\<forall>i < NBUF. buf_ok (d_image (bc_disk c)) (bc_bufs c ! i)) \<and> unique_blocks (bc_bufs c)"

text \<open>The state of a cache for its callers: contents, references, locks, the disk and its writes.\<close>

definition cache_rep ::
  "bcache \<Rightarrow> (u32 \<Rightarrow> bytes) \<Rightarrow> (u32 \<Rightarrow> int) \<Rightarrow> (u32 \<Rightarrow> bool) \<Rightarrow> bytes list \<Rightarrow> (nat \<times> bytes) list \<Rightarrow> bool"
where
  "cache_rep c V R H I T \<longleftrightarrow> cache_ok c \<and> content c = V \<and> refs c = R \<and> held c = H \<and>
     d_image (bc_disk c) = I \<and> d_trace (bc_disk c) = T"

text \<open>Buffer \<open>i\<close> holds block \<open>b\<close>.\<close>

definition holds :: "bcache \<Rightarrow> nat \<Rightarrow> u32 \<Rightarrow> bool" where
  "holds c i b \<longleftrightarrow> slot c b = Some i \<and> b_valid (bc_bufs c ! i)"

lemma unique_blocks_cong: "(\<And>j. b_blockno (bs ! j) = b_blockno (bs' ! j)) \<Longrightarrow> unique_blocks bs = unique_blocks bs'"
  by (simp add: unique_blocks_def)

lemma unique_blocksD: "unique_blocks bs \<Longrightarrow> i < NBUF \<Longrightarrow> j < NBUF \<Longrightarrow> b_blockno (bs ! i) = b_blockno (bs ! j) \<Longrightarrow> b_blockno (bs ! i) \<noteq> 0 \<Longrightarrow> i = j"
  unfolding unique_blocks_def by blast

lemma unat_eq_iff_eq: "unat a = unat b \<longleftrightarrow> a = (b :: u32)"
  by (simp add: word_unat_eq_iff)

lemma slot_None: "slot c b = None \<longleftrightarrow> (\<forall>i < NBUF. b_blockno (bc_bufs c ! i) \<noteq> b)"
  by (auto simp: slot_def find_None_iff)

lemma slot_SomeD: "slot c b = Some i \<Longrightarrow> i < NBUF \<and> b_blockno (bc_bufs c ! i) = b"
  by (auto simp: slot_def find_Some_iff)

lemma slot_Some:
  assumes "cache_ok c" and "b \<noteq> 0"
  shows "slot c b = Some i \<longleftrightarrow> i < NBUF \<and> b_blockno (bc_bufs c ! i) = b"
proof
  assume i: "i < NBUF \<and> b_blockno (bc_bufs c ! i) = b"
  then obtain j where "slot c b = Some j" using slot_None by fastforce
  then show "slot c b = Some i" using slot_SomeD [of c b j] i assms unique_blocksD [of "bc_bufs c" i j] by (auto simp: cache_ok_def)
qed (rule slot_SomeD)

lemma block_pos_small [simp]:
  assumes "unat b < n" and "n \<le> 2 ^ 20"
  shows "block_pos b = unat b"
  using assms by (simp add: block_pos_def BSIZE_def unat_mult_lem [THEN iffD1] unat_word_ariths)

lemma disk_callD [simp]: "disk_ok d \<Longrightarrow> disk_call d = (True, d)"
  by (simp add: disk_ok_def disk_call_def)

lemma buf_nth_upd:
  "length (bc_bufs c) = NBUF \<Longrightarrow> i < NBUF \<Longrightarrow> bc_bufs (upd_buf i f c) ! j = (if i = j then f (bc_bufs c ! i) else bc_bufs c ! j)"
  by (auto simp: upd_buf_def nth_list_update)

lemma upd_buf_simps [simp]:
  "bc_lru (upd_buf i f c) = bc_lru c" "bc_disk (upd_buf i f c) = bc_disk c" "length (bc_bufs (upd_buf i f c)) = length (bc_bufs c)"
  by (simp_all add: upd_buf_def)

lemma upd_slot:
  assumes "cache_ok c" and "i < NBUF" and "b_blockno (f (bc_bufs c ! i)) = b_blockno (bc_bufs c ! i)"
  shows "slot (upd_buf i f c) x = slot c x"
proof -
  have "length (bc_bufs c) = NBUF" using assms(1) by (simp add: cache_ok_def)
  then have "b_blockno (bc_bufs (upd_buf i f c) ! j) = b_blockno (bc_bufs c ! j)" for j using assms(2,3) by (auto simp: buf_nth_upd)
  then show ?thesis by (simp add: slot_def)
qed

text \<open>Changing the buffer of a block.\<close>

lemma upd_buf_rep:
  assumes rep: "cache_rep c V R H I T" and i: "slot c b = Some i" and b: "b \<noteq> 0"
    and f: "b_blockno (f (bc_bufs c ! i)) = b" "buf_ok I (f (bc_bufs c ! i))"
  shows "cache_rep (upd_buf i f c)
    (V(b := if b_valid (f (bc_bufs c ! i)) then b_data (f (bc_bufs c ! i)) else I ! unat b))
    (R(b := b_refcnt (f (bc_bufs c ! i)))) (H(b := b_locked (f (bc_bufs c ! i)))) I T"
    and "slot (upd_buf i f c) x = slot c x"
proof -
  have ok: "cache_ok c" using rep by (simp add: cache_rep_def)
  have iN: "i < NBUF" "b_blockno (bc_bufs c ! i) = b" using slot_SomeD [OF i] by auto
  have len: "length (bc_bufs c) = NBUF" using ok by (simp add: cache_ok_def)
  note nth = buf_nth_upd [OF len iN(1), of f]
  show sl: "slot (upd_buf i f c) x = slot c x" for x using upd_slot [OF ok iN(1), of f] f(1) iN(2) by simp
  have bn: "b_blockno (bc_bufs (upd_buf i f c) ! j) = b_blockno (bc_bufs c ! j)" for j using f(1) iN(2) by (auto simp: nth)
  have "cache_ok (upd_buf i f c)"
    using ok f(2) rep unique_blocks_cong [OF bn] by (auto simp: cache_ok_def nth cache_rep_def)
  moreover have ne: "slot c x \<noteq> Some i" if "x \<noteq> b" for x using that slot_SomeD iN(2) by blast
  have V: "V = content c" "R = refs c" "H = held c" "I = d_image (bc_disk c)" using rep by (auto simp: cache_rep_def)
  have other: "content (upd_buf i f c) x = content c x" "refs (upd_buf i f c) x = refs c x" "held (upd_buf i f c) x = held c x"
    if "x \<noteq> b" for x
    using ne [OF that] by (auto simp: content_def refs_def held_def sl nth split: option.split)
  have "content (upd_buf i f c) = V(b := if b_valid (f (bc_bufs c ! i)) then b_data (f (bc_bufs c ! i)) else I ! unat b)"
    "refs (upd_buf i f c) = R(b := b_refcnt (f (bc_bufs c ! i)))" "held (upd_buf i f c) = H(b := b_locked (f (bc_bufs c ! i)))"
    using i other by (auto simp: V content_def refs_def held_def sl nth fun_eq_iff)
  ultimately show "cache_rep (upd_buf i f c)
    (V(b := if b_valid (f (bc_bufs c ! i)) then b_data (f (bc_bufs c ! i)) else I ! unat b))
    (R(b := b_refcnt (f (bc_bufs c ! i)))) (H(b := b_locked (f (bc_bufs c ! i)))) I T"
    using rep by (simp add: cache_rep_def)
qed

lemma lru_front_simps [simp]: "bc_bufs (lru_front i c) = bc_bufs c" "bc_disk (lru_front i c) = bc_disk c" "slot (lru_front i c) x = slot c x"
  by (simp_all add: lru_front_def slot_def)

lemma lru_front_rep:
  assumes "cache_rep c V R H I T" and "i < NBUF"
  shows "cache_rep (lru_front i c) V R H I T"
proof -
  have "set (i # remove1 i (bc_lru c)) = {..<NBUF}" "distinct (i # remove1 i (bc_lru c))"
    using assms by (auto simp: cache_rep_def cache_ok_def set_remove1_eq)
  moreover have "cache_ok c" using assms(1) by (simp add: cache_rep_def)
  ultimately have "cache_ok (lru_front i c)" by (simp add: cache_ok_def lru_front_def)
  moreover have "content (lru_front i c) = content c" "refs (lru_front i c) = refs c" "held (lru_front i c) = held c"
    by (auto simp: content_def refs_def held_def fun_eq_iff split: option.split)
  ultimately show ?thesis using assms(1) by (simp add: cache_rep_def)
qed

section \<open>The operations\<close>

lemma holdsD:
  assumes "cache_rep c V R H I T" and "holds c i b"
  shows "i < NBUF" "slot c b = Some i" "b_valid (bc_bufs c ! i)" "b_blockno (bc_bufs c ! i) = b" "b_data (bc_bufs c ! i) = V b"
    "b_refcnt (bc_bufs c ! i) = R b" "b_locked (bc_bufs c ! i) = H b" "buf_ok I (bc_bufs c ! i)" "b \<noteq> 0" "length (V b) = BSIZE"
proof -
  show s: "slot c b = Some i" "b_valid (bc_bufs c ! i)" using assms(2) by (simp_all add: holds_def)
  show i: "i < NBUF" "b_blockno (bc_bufs c ! i) = b" using slot_SomeD [OF s(1)] by simp_all
  show "b_data (bc_bufs c ! i) = V b" "b_refcnt (bc_bufs c ! i) = R b" "b_locked (bc_bufs c ! i) = H b"
    using assms(1) s by (auto simp: cache_rep_def content_def refs_def held_def)
  show ok: "buf_ok I (bc_bufs c ! i)" using assms(1) i by (auto simp: cache_rep_def cache_ok_def)
  show "b \<noteq> 0" "length (V b) = BSIZE" using ok i s(2) \<open>b_data (bc_bufs c ! i) = V b\<close> by (auto simp: buf_ok_def)
qed

lemma holds_upd:
  assumes "cache_rep c V R H I T" and "slot c b = Some i" and "b_blockno (f (bc_bufs c ! i)) = b" and "b_valid (f (bc_bufs c ! i)) = b_valid (bc_bufs c ! i)"
  shows "holds (upd_buf i f c) j x = holds c j x"
proof -
  have "i < NBUF" "length (bc_bufs c) = NBUF" "cache_ok c" using assms(1,2) slot_SomeD by (auto simp: cache_rep_def cache_ok_def)
  then show ?thesis using upd_slot [of c i f x] assms slot_SomeD [OF assms(2)] by (auto simp: holds_def buf_nth_upd)
qed

lemma set_data_rep:
  assumes "cache_rep c V R H I T" and "holds c i b" and "R b \<noteq> 0" and "length d = BSIZE"
  shows "cache_rep (set_data i d c) (V(b := d)) R H I T" and "holds (set_data i d c) j x = holds c j x"
proof -
  note D = holdsD [OF assms(1,2)]
  let ?f = "\<lambda>b. b\<lparr>b_data := d\<rparr>"
  have "buf_ok I (?f (bc_bufs c ! i))" using D assms(3,4) by (simp add: buf_ok_def)
  then have "cache_rep (upd_buf i ?f c) (V(b := d)) (R(b := R b)) (H(b := H b)) I T"
    using upd_buf_rep(1) [OF assms(1) D(2,9), of ?f] D by simp
  then show "cache_rep (set_data i d c) (V(b := d)) R H I T" by (simp add: set_data_def)
  show "holds (set_data i d c) j x = holds c j x" unfolding set_data_def using holds_upd [OF assms(1) D(2), of ?f] D(4) by simp
qed

text \<open>Changing the reference count by one.\<close>

lemma ref_rep:
  assumes "cache_rep c V R H I T" and "holds c i b" and "r = 0 \<Longrightarrow> V b = I ! unat b"
  shows "cache_rep (upd_buf i (\<lambda>b. b\<lparr>b_refcnt := r\<rparr>) c) V (R(b := r)) H I T"
    and "holds (upd_buf i (\<lambda>b. b\<lparr>b_refcnt := r\<rparr>) c) j x = holds c j x"
proof -
  note D = holdsD [OF assms(1,2)]
  let ?f = "\<lambda>b. b\<lparr>b_refcnt := r\<rparr>"
  have "buf_ok I (?f (bc_bufs c ! i))" using D assms(3) by (auto simp: buf_ok_def)
  then have "cache_rep (upd_buf i ?f c) (V(b := V b)) (R(b := r)) (H(b := H b)) I T"
    using upd_buf_rep(1) [OF assms(1) D(2,9), of ?f] D by simp
  then show "cache_rep (upd_buf i ?f c) V (R(b := r)) H I T" by simp
  show "holds (upd_buf i ?f c) j x = holds c j x" using holds_upd [OF assms(1) D(2), of ?f] D(4) by simp
qed

lemma upd_buf_cong: "f (bc_bufs c ! i) = g (bc_bufs c ! i) \<Longrightarrow> upd_buf i f c = upd_buf i g c"
  by (simp add: upd_buf_def)

lemma bpin_rep:
  assumes "cache_rep c V R H I T" and "holds c i b" and "R b + 1 = 0 \<Longrightarrow> V b = I ! unat b"
  shows "cache_rep (bpin i c) V (R(b := R b + 1)) H I T" and "holds (bpin i c) j x = holds c j x"
proof -
  have "bpin i c = upd_buf i (\<lambda>x. x\<lparr>b_refcnt := R b + 1\<rparr>) c"
    unfolding bpin_def using holdsD(6) [OF assms(1,2)] by (intro upd_buf_cong) simp
  then show "cache_rep (bpin i c) V (R(b := R b + 1)) H I T" "holds (bpin i c) j x = holds c j x"
    using ref_rep [OF assms] by simp_all
qed

lemma bunpin_rep:
  assumes "cache_rep c V R H I T" and "holds c i b" and "R b = 1 \<Longrightarrow> V b = I ! unat b"
  shows "cache_rep (bunpin i c) V (R(b := R b - 1)) H I T" and "holds (bunpin i c) j x = holds c j x"
proof -
  have "bunpin i c = upd_buf i (\<lambda>x. x\<lparr>b_refcnt := R b - 1\<rparr>) c"
    unfolding bunpin_def using holdsD(6) [OF assms(1,2)] by (intro upd_buf_cong) simp
  then show "cache_rep (bunpin i c) V (R(b := R b - 1)) H I T" "holds (bunpin i c) j x = holds c j x"
    using ref_rep [OF assms(1,2), of "R b - 1"] assms(3) by simp_all
qed

lemma brelse_rep:
  assumes "cache_rep c V R H I T" and "holds c i b" and "H b" and "R b = 1 \<Longrightarrow> V b = I ! unat b"
  shows "\<exists>c'. brelse i c = Some c' \<and> cache_rep c' V (R(b := R b - 1)) (H(b := False)) I T \<and> (\<forall>j x. holds c' j x = holds c j x)"
proof -
  note D = holdsD [OF assms(1,2)]
  let ?f = "\<lambda>b. b\<lparr>b_locked := False\<rparr>"
  let ?c1 = "upd_buf i ?f c"
  have "buf_ok I (?f (bc_bufs c ! i))" using D by (auto simp: buf_ok_def)
  then have "cache_rep ?c1 (V(b := V b)) (R(b := R b)) (H(b := False)) I T"
    using upd_buf_rep(1) [OF assms(1) D(2,9), of ?f] D by simp
  then have 1: "cache_rep ?c1 V R (H(b := False)) I T" by simp
  have h1: "holds ?c1 j x = holds c j x" for j x using holds_upd [OF assms(1) D(2), of ?f] D(4) by simp
  let ?c2 = "bunpin i ?c1"
  have 2: "cache_rep ?c2 V (R(b := R b - 1)) (H(b := False)) I T" "holds ?c2 j x = holds c j x" for j x
    using bunpin_rep [OF 1, of i b] h1 assms(2,4) by simp_all
  have "brelse i c = Some (if b_refcnt (bc_bufs ?c2 ! i) = 0 then lru_front i ?c2 else ?c2)"
    using assms(3) D(7) by (simp add: brelse_def unlock_buf_def bunpin_def Let_def)
  moreover have "cache_rep (lru_front i ?c2) V (R(b := R b - 1)) (H(b := False)) I T" using lru_front_rep [OF 2(1) D(1)] .
  moreover have "holds (lru_front i ?c2) j x = holds c j x" for j x using 2(2) [of j x] by (simp add: holds_def)
  ultimately show ?thesis using 2 by auto
qed

lemma bwrite_rep:
  assumes rep: "cache_rep c V R H I T" and h: "holds c i b" and len: "unat b < length I"
  shows "\<exists>c'. bwrite i c = Some c' \<and> cache_rep c' V R H (I[unat b := V b]) (T @ [(unat b, V b)]) \<and> (\<forall>j x. holds c' j x = holds c j x)"
proof -
  note D = holdsD [OF rep h]
  have ok: "cache_ok c" and I: "d_image (bc_disk c) = I" using rep by (simp_all add: cache_rep_def)
  have dk: "disk_ok (bc_disk c)" using ok by (simp add: cache_ok_def)
  define d where "d = (bc_disk c)\<lparr>d_image := I[unat b := V b], d_trace := T @ [(unat b, V b)]\<rparr>"
  have w: "disk_write b (V b) (bc_disk c) = Some (True, d)"
    using dk len rep by (simp add: disk_write_def disk_size_def d_def cache_rep_def disk_ok_def)
  let ?c1 = "c\<lparr>bc_disk := d\<rparr>"
  have "bwrite i c = Some (upd_buf i (\<lambda>b. b\<lparr>b_dirty := False\<rparr>) ?c1)"
    using w D(4,5) by (simp add: bwrite_def Let_def)
  moreover have "upd_buf i (\<lambda>b. b\<lparr>b_dirty := False\<rparr>) ?c1 = ?c1"
  proof -
    have "(bc_bufs c ! i)\<lparr>b_dirty := False\<rparr> = bc_bufs c ! i" using D(8) by (cases "bc_bufs c ! i") (simp add: buf_ok_def)
    then show ?thesis by (simp add: upd_buf_def)
  qed
  moreover have sl: "slot ?c1 x = slot c x" for x by (simp add: slot_def)
  have "cache_rep ?c1 V R H (I[unat b := V b]) (T @ [(unat b, V b)])"
  proof -
    have "disk_ok d" using dk D(10) I by (auto simp: disk_ok_def d_def dest: set_update_subset_insert [THEN subsetD])
    moreover have "buf_ok (I[unat b := V b]) (bc_bufs c ! j)" if "j < NBUF" for j
    proof (cases "j = i")
      case True
      then show ?thesis using D len by (auto simp: buf_ok_def)
    next
      case False
      then have "b_blockno (bc_bufs c ! j) \<noteq> b" using slot_Some [OF ok D(9), of j] D(2) that by simp
      then have "I[unat b := V b] ! unat (b_blockno (bc_bufs c ! j)) = I ! unat (b_blockno (bc_bufs c ! j))" by (intro nth_list_update_neq) (auto simp: unat_eq_iff_eq)
      moreover have "buf_ok I (bc_bufs c ! j)" using ok I that by (simp add: cache_ok_def)
      ultimately show ?thesis by (simp add: buf_ok_def)
    qed
    ultimately have "cache_ok ?c1" using ok by (simp add: cache_ok_def d_def)
    moreover have "content ?c1 x = V x" for x
    proof (cases "x = b")
      case True
      then show ?thesis using D by (simp add: content_def sl)
    next
      case False
      then have "I[unat b := V b] ! unat x = I ! unat x" by (intro nth_list_update_neq) (auto simp: unat_eq_iff_eq)
      moreover have "content c x = V x" "d_image (bc_disk ?c1) = I[unat b := V b]" using rep by (simp_all add: cache_rep_def d_def)
      ultimately show ?thesis using I by (auto simp: content_def sl split: option.splits)
    qed
    moreover have "refs ?c1 = refs c" "held ?c1 = held c" by (simp_all add: refs_def held_def sl fun_eq_iff cong del: option.case_cong_weak)
    moreover have "d_image (bc_disk ?c1) = I[unat b := V b]" "d_trace (bc_disk ?c1) = T @ [(unat b, V b)]" by (simp_all add: d_def)
    ultimately show ?thesis using rep by (simp add: cache_rep_def fun_eq_iff)
  qed
  moreover have "holds ?c1 j x = holds c j x" for j x by (simp add: holds_def sl)
  ultimately show ?thesis by auto
qed

section \<open>Reading a block\<close>

text \<open>The two searches of \<open>bget\<close>: for a buffer of the block, and for one that nobody uses.\<close>

lemma find_block:
  assumes ok: "cache_ok c" and b: "b \<noteq> 0"
  shows "find (\<lambda>i. b_dev (bc_bufs c ! i) = 0 \<and> b_blockno (bc_bufs c ! i) = b) (bc_lru c) = slot c b"
proof -
  have lru: "set (bc_lru c) = {..<NBUF}" and dev: "i < NBUF \<Longrightarrow> b_dev (bc_bufs c ! i) = 0" for i
    using ok by (auto simp: cache_ok_def buf_ok_def)
  show ?thesis
  proof (cases "slot c b")
    case None
    then have "\<not> (\<exists>i \<in> set (bc_lru c). b_dev (bc_bufs c ! i) = 0 \<and> b_blockno (bc_bufs c ! i) = b)"
      using lru by (auto simp: slot_None)
    then show ?thesis using None by (simp add: find_None_iff)
  next
    case (Some i)
    have "find (\<lambda>i. b_dev (bc_bufs c ! i) = 0 \<and> b_blockno (bc_bufs c ! i) = b) (bc_lru c) \<noteq> None"
      using slot_SomeD [OF Some] lru dev [of i] by (auto simp: find_None_iff)
    then obtain j where j: "find (\<lambda>i. b_dev (bc_bufs c ! i) = 0 \<and> b_blockno (bc_bufs c ! i) = b) (bc_lru c) = Some j" by blast
    then have "j \<in> set (bc_lru c)" "b_blockno (bc_bufs c ! j) = b" by (auto simp: find_Some_iff)
    then have "slot c b = Some j" using slot_Some [OF ok b, of j] lru by simp
    then show ?thesis using j by simp
  qed
qed

lemma free_slot:
  assumes rep: "cache_rep c V R H I T" and free: "card {x. R x \<noteq> 0} < NBUF"
  shows "\<exists>i. find (\<lambda>i. b_refcnt (bc_bufs c ! i) = 0) (rev (bc_lru c)) = Some i \<and> i < NBUF \<and> b_refcnt (bc_bufs c ! i) = 0"
proof (cases "find (\<lambda>i. b_refcnt (bc_bufs c ! i) = 0) (rev (bc_lru c))")
  case (Some i)
  then have "i \<in> set (rev (bc_lru c))" "b_refcnt (bc_bufs c ! i) = 0" unfolding find_Some_iff by (auto simp del: set_rev)
  then show ?thesis using Some rep by (auto simp: cache_rep_def cache_ok_def)
next
  case None
  let ?g = "\<lambda>i. b_blockno (bc_bufs c ! i)"
  have ok: "cache_ok c" using rep by (simp add: cache_rep_def)
  have used: "b_refcnt (bc_bufs c ! i) \<noteq> 0" if "i < NBUF" for i
    using None that ok by (auto simp: find_None_iff cache_ok_def)
  then have nz: "?g i \<noteq> 0" if "i < NBUF" for i using that ok by (auto simp: cache_ok_def buf_ok_def)
  have u: "unique_blocks (bc_bufs c)" using ok by (simp add: cache_ok_def)
  have inj: "inj_on ?g {..<NBUF}" using unique_blocksD [OF u _ _ _ nz] by (auto simp: inj_on_def)
  have "R (?g i) \<noteq> 0" if "i < NBUF" for i
  proof -
    have "slot c (?g i) = Some i" using slot_Some [OF ok nz [OF that], of i] that by simp
    then show ?thesis using used [OF that] rep by (auto simp: cache_rep_def refs_def)
  qed
  then have "?g ` {..<NBUF} \<subseteq> {x. R x \<noteq> 0}" by auto
  then have "card (?g ` {..<NBUF}) \<le> card {x. R x \<noteq> 0}" by (intro card_mono) simp_all
  then show ?thesis using card_image [OF inj] free by simp
qed

lemma zero_block:
  assumes "cache_ok c"
  shows "content c 0 = d_image (bc_disk c) ! 0" "refs c 0 = 0" "\<not> held c 0"
proof -
  have "\<not> b_valid (bc_bufs c ! i) \<and> b_refcnt (bc_bufs c ! i) = 0 \<and> \<not> b_locked (bc_bufs c ! i)" if "slot c 0 = Some i" for i
    using slot_SomeD [OF that] assms by (auto simp: cache_ok_def buf_ok_def)
  then show "content c 0 = d_image (bc_disk c) ! 0" "refs c 0 = 0" "\<not> held c 0"
    by (auto simp: content_def refs_def held_def split: option.split)
qed

text \<open>A buffer that nobody uses is given to a block that has none.\<close>

definition recycled :: "u32 \<Rightarrow> bytes \<Rightarrow> buf \<Rightarrow> buf" where
  "recycled b d x = x\<lparr>b_dev := 0, b_blockno := b, b_valid := True, b_dirty := False, b_refcnt := 1, b_locked := True, b_data := d\<rparr>"

lemma recycle_slots:
  assumes ok: "cache_ok c" and i: "i < NBUF" and none: "slot c b = None" and b: "b \<noteq> 0"
    and len: "length d = BSIZE"
  shows "cache_ok (upd_buf i (recycled b d) c)"
    and "y \<noteq> 0 \<Longrightarrow> slot (upd_buf i (recycled b d) c) y = (if y = b then Some i else if y = b_blockno (bc_bufs c ! i) then None else slot c y)"
proof -
  let ?c = "upd_buf i (recycled b d) c"
  have l: "length (bc_bufs c) = NBUF" and u: "unique_blocks (bc_bufs c)" using ok by (simp_all add: cache_ok_def)
  note nth = buf_nth_upd [OF l i, of "recycled b d"]
  have nb: "b_blockno (bc_bufs c ! j) \<noteq> b" if "j < NBUF" for j using none that by (simp add: slot_None)
  have "unique_blocks (bc_bufs ?c)"
    unfolding unique_blocks_def using unique_blocksD [OF u] nb by (auto simp: nth recycled_def)
  moreover have "buf_ok (d_image (bc_disk c)) (bc_bufs ?c ! j)" if "j < NBUF" for j
    using ok that len b by (simp add: cache_ok_def nth) (simp add: buf_ok_def recycled_def)
  ultimately show ok': "cache_ok ?c" using ok by (simp add: cache_ok_def)
  show "slot ?c y = (if y = b then Some i else if y = b_blockno (bc_bufs c ! i) then None else slot c y)" if y: "y \<noteq> 0" for y
  proof -
    consider "y = b" | "y \<noteq> b" "y = b_blockno (bc_bufs c ! i)" | "y \<noteq> b" "y \<noteq> b_blockno (bc_bufs c ! i)" by blast
    then show ?thesis
    proof cases
      case 1
      then show ?thesis using slot_Some [OF ok' y, of i] i by (simp add: nth recycled_def)
    next
      case 2
      have "b_blockno (bc_bufs ?c ! j) \<noteq> y" if "j < NBUF" for j
        using unique_blocksD [OF u that i] 2 y by (auto simp: nth recycled_def)
      then show ?thesis using 2 by (simp add: slot_None)
    next
      case 3
      have "slot ?c y = Some j \<longleftrightarrow> slot c y = Some j" for j
        using 3 unfolding slot_Some [OF ok' y] slot_Some [OF ok y] by (auto simp: nth recycled_def)
      then have "slot ?c y = slot c y" by (metis option.exhaust)
      then show ?thesis using 3 by simp
    qed
  qed
qed

lemma recycle_rep:
  assumes rep: "cache_rep c V R H I T" and i: "i < NBUF" "b_refcnt (bc_bufs c ! i) = 0" and none: "slot c b = None" and b: "b \<noteq> 0"
    and len: "length (V b) = BSIZE" and lk: "\<forall>x. H x \<longrightarrow> R x \<noteq> 0"
  shows "cache_rep (upd_buf i (recycled b (V b)) c) V (R(b := R b + 1)) (H(b := True)) I T"
    and "holds (upd_buf i (recycled b (V b)) c) i b"
    and "holds c j x \<Longrightarrow> R x \<noteq> 0 \<Longrightarrow> holds (upd_buf i (recycled b (V b)) c) j x"
proof -
  let ?c = "upd_buf i (recycled b (V b)) c" and ?o = "b_blockno (bc_bufs c ! i)"
  have ok: "cache_ok c" and V: "V = content c" "R = refs c" "H = held c" "I = d_image (bc_disk c)" using rep by (auto simp: cache_rep_def)
  have l: "length (bc_bufs c) = NBUF" using ok by (simp add: cache_ok_def)
  note nth = buf_nth_upd [OF l i(1), of "recycled b (V b)"]
  note ok' = recycle_slots(1) [OF ok i(1) none b len] and sl = recycle_slots(2) [OF ok i(1) none b len]
  have Rb: "R b = 0" using none by (simp add: V refs_def)
  have so: "slot c ?o = Some i" if "?o \<noteq> 0" using slot_Some [OF ok that, of i] i by simp
  have old: "R ?o = 0" "\<not> H ?o" "V ?o = I ! unat ?o"
  proof -
    show 1: "R ?o = 0" using so zero_block [OF ok] i by (cases "?o = 0") (auto simp: V refs_def)
    show "\<not> H ?o" using lk 1 by auto
    have "buf_ok I (bc_bufs c ! i)" using ok i by (simp add: cache_ok_def V)
    then show "V ?o = I ! unat ?o" using so zero_block [OF ok] i by (cases "?o = 0") (auto simp: V content_def buf_ok_def)
  qed
  have ne: "slot c y = Some i \<Longrightarrow> y = ?o" for y using slot_SomeD by fastforce
  have P: "content ?c y = V y \<and> refs ?c y = (R(b := R b + 1)) y \<and> held ?c y = (H(b := True)) y" for y
  proof -
    consider "y = 0" | "y = b" | "y \<noteq> 0" "y \<noteq> b" "y = ?o" | "y \<noteq> 0" "y \<noteq> b" "y \<noteq> ?o" by blast
    then show ?thesis
    proof cases
      case 1
      then show ?thesis using zero_block [OF ok] zero_block [OF ok'] b by (simp add: V)
    next
      case 2
      then show ?thesis using sl [of b] b Rb by (simp add: content_def refs_def held_def nth recycled_def)
    next
      case 3
      then show ?thesis using sl [OF 3(1)] old by (simp add: content_def refs_def held_def V(4))
    next
      case 4
      then have e: "slot ?c y = slot c y" "slot c y \<noteq> Some i" using sl [OF 4(1)] ne by auto
      have "bc_bufs ?c ! k = bc_bufs c ! k" if "k \<noteq> i" for k using nth that by simp
      then have "content ?c y = content c y" "refs ?c y = refs c y" "held ?c y = held c y"
        using e(2) by (auto simp: content_def refs_def held_def e(1) split: option.split)
      then show ?thesis using 4 rep by (simp add: cache_rep_def)
    qed
  qed
  have "content ?c = V" "refs ?c = R(b := R b + 1)" "held ?c = H(b := True)" using P by blast+
  then show "cache_rep ?c V (R(b := R b + 1)) (H(b := True)) I T" using ok' rep by (simp add: cache_rep_def)
  show "holds ?c i b" using sl [OF b] by (simp add: holds_def nth recycled_def)
  show "holds ?c j x" if "holds c j x" "R x \<noteq> 0"
  proof -
    note D = holdsD [OF rep that(1)]
    have "x \<noteq> b" "x \<noteq> ?o" using Rb old that(2) by auto
    then show ?thesis using that(1) sl [OF D(9)] ne [of x] D(2) by (auto simp: holds_def nth)
  qed
qed

lemma content_length:
  assumes "cache_ok c" and "unat b < length (d_image (bc_disk c))"
  shows "length (content c b) = BSIZE"
proof -
  have "length (d_image (bc_disk c) ! unat b) = BSIZE" using assms by (auto simp: cache_ok_def disk_ok_def)
  moreover have "length (b_data (bc_bufs c ! i)) = BSIZE" if "slot c b = Some i" for i
    using slot_SomeD [OF that] assms(1) by (auto simp: cache_ok_def buf_ok_def)
  ultimately show ?thesis by (auto simp: content_def split: option.split)
qed

lemma disk_read_ok:
  assumes "disk_ok d" and "unat b < length (d_image d)"
  shows "disk_read b d = Some (Some (d_image d ! unat b), d)"
proof -
  have "block_pos b = unat b" using assms by (intro block_pos_small) (auto simp: disk_ok_def)
  then show ?thesis using assms by (simp add: disk_read_def disk_size_def)
qed

text \<open>Reading a block that has a buffer and one that has none.\<close>

lemma bread_hit:
  assumes rep: "cache_rep c V R H I T" and s: "slot c b = Some i" and b: "b \<noteq> 0" "unat b < length I" "\<not> H b"
  shows "bread 0 b c = Some (Some i, upd_buf i (\<lambda>x. x\<lparr>b_refcnt := R b + 1, b_locked := True, b_valid := True, b_data := V b\<rparr>) c)"
proof -
  have ok: "cache_ok c" and V: "content c = V" "refs c = R" "held c = H" "d_image (bc_disk c) = I" using rep by (auto simp: cache_rep_def)
  have l: "length (bc_bufs c) = NBUF" "i < NBUF" using ok slot_SomeD [OF s] by (auto simp: cache_ok_def)
  have dr: "disk_read b (bc_disk c) = Some (Some (I ! unat b), bc_disk c)"
    using disk_read_ok [of "bc_disk c" b] ok b V(4) by (simp add: cache_ok_def)
  let ?x = "bc_bufs c ! i"
  have x: "b_refcnt ?x = R b" "\<not> b_locked ?x" "V b = (if b_valid ?x then b_data ?x else I ! unat b)"
    using s V b(3) by (auto simp: refs_def held_def content_def)
  show ?thesis
    using find_block [OF ok b(1)] s l x dr
    by (cases "b_valid ?x"; cases ?x) (simp_all add: bread_def bget_def lock_buf_def upd_buf_def Let_def)
qed

lemma bread_miss:
  assumes rep: "cache_rep c V R H I T" and s: "slot c b = None" and b: "b \<noteq> 0" "unat b < length I"
    and i: "find (\<lambda>i. b_refcnt (bc_bufs c ! i) = 0) (rev (bc_lru c)) = Some i" "i < NBUF" "\<not> b_locked (bc_bufs c ! i)"
  shows "bread 0 b c = Some (Some i, lru_front i (upd_buf i (recycled b (V b)) c))"
proof -
  have ok: "cache_ok c" and V: "content c = V" "d_image (bc_disk c) = I" using rep by (auto simp: cache_rep_def)
  have l: "length (bc_bufs c) = NBUF" using ok by (auto simp: cache_ok_def)
  have dr: "disk_read b (bc_disk c) = Some (Some (I ! unat b), bc_disk c)"
    using disk_read_ok [of "bc_disk c" b] ok b V(2) by (simp add: cache_ok_def)
  have Vb: "V b = I ! unat b" using V s by (auto simp: content_def)
  have "\<not> b_dirty (bc_bufs c ! i)" using ok i(2) by (simp add: cache_ok_def buf_ok_def)
  then show ?thesis
    using find_block [OF ok b(1)] s l i dr Vb
    by (cases c; cases "bc_bufs c ! i") (simp add: bread_def bget_def lock_buf_def upd_buf_def lru_front_def Let_def recycled_def)
qed

text \<open>The law of \<^verbatim>\<open>bread\<close>.\<close>

lemma bread_rep:
  assumes rep: "cache_rep c V R H I T" and b: "b \<noteq> 0" "unat b < length I" "\<not> H b"
    and r: "R b = -1 \<Longrightarrow> V b = I ! unat b"
    and free: "R b \<noteq> 0 \<or> card {x. R x \<noteq> 0} < NBUF" and lk: "\<forall>x. H x \<longrightarrow> R x \<noteq> 0"
  shows "\<exists>i c'. bread 0 b c = Some (Some i, c') \<and> cache_rep c' V (R(b := R b + 1)) (H(b := True)) I T \<and>
    holds c' i b \<and> (\<forall>j x. holds c j x \<and> R x \<noteq> 0 \<longrightarrow> holds c' j x)"
proof (cases "slot c b")
  case (Some i)
  let ?f = "\<lambda>x. x\<lparr>b_refcnt := R b + 1, b_locked := True, b_valid := True, b_data := V b\<rparr>"
  have ok: "cache_ok c" and V: "content c = V" "d_image (bc_disk c) = I" using rep by (auto simp: cache_rep_def)
  note i = slot_SomeD [OF Some]
  have nth: "length (bc_bufs c) = NBUF" using ok by (simp add: cache_ok_def)
  have "buf_ok I (bc_bufs c ! i)" using ok i V by (simp add: cache_ok_def)
  moreover have "length (V b) = BSIZE" using content_length [OF ok, of b] V b by simp
  ultimately have fok: "buf_ok I (?f (bc_bufs c ! i))" using i b(1) r by (auto simp: buf_ok_def)
  have "cache_rep (upd_buf i ?f c) (V(b := V b)) (R(b := R b + 1)) (H(b := True)) I T"
    using upd_buf_rep(1) [OF rep Some b(1), of ?f] i fok by simp
  moreover have sl: "slot (upd_buf i ?f c) x = slot c x" for x using upd_buf_rep(2) [OF rep Some b(1), of ?f] i fok by simp
  have "holds (upd_buf i ?f c) i b" using sl Some i nth by (simp add: holds_def buf_nth_upd)
  moreover have "holds (upd_buf i ?f c) j x" if "holds c j x" for j x
    using that sl i nth by (auto simp: holds_def buf_nth_upd)
  ultimately show ?thesis using bread_hit [OF rep Some b] by auto
next
  case None
  then have "R b = 0" using rep by (auto simp: cache_rep_def refs_def)
  then obtain i where i: "find (\<lambda>i. b_refcnt (bc_bufs c ! i) = 0) (rev (bc_lru c)) = Some i" "i < NBUF" "b_refcnt (bc_bufs c ! i) = 0"
    using free_slot [OF rep] free by auto
  have ok: "cache_ok c" and V: "content c = V" "refs c = R" "held c = H" "d_image (bc_disk c) = I" using rep by (auto simp: cache_rep_def)
  have unl: "\<not> b_locked (bc_bufs c ! i)"
  proof (cases "b_blockno (bc_bufs c ! i) = 0")
    case True
    then show ?thesis using ok i(2) by (auto simp: cache_ok_def buf_ok_def)
  next
    case False
    then have "slot c (b_blockno (bc_bufs c ! i)) = Some i" using slot_Some [OF ok False, of i] i by simp
    then show ?thesis using lk [rule_format, of "b_blockno (bc_bufs c ! i)"] i(3) V by (auto simp: refs_def held_def)
  qed
  have len: "length (V b) = BSIZE" using content_length [OF ok, of b] V b by simp
  let ?c = "upd_buf i (recycled b (V b)) c"
  note rr = recycle_rep [OF rep i(2,3) None b(1) len lk]
  have "holds (lru_front i ?c) j x = holds ?c j x" for j x by (simp add: holds_def)
  then show ?thesis using bread_miss [OF rep None b(1,2) i(1,2) unl] lru_front_rep [OF rr(1) i(2)] rr(2,3) by auto
qed

lemma unused_content:
  assumes "cache_rep c V R H I T" and "R b = 0"
  shows "V b = I ! unat b"
proof (cases "slot c b")
  case (Some i)
  then have "buf_ok I (bc_bufs c ! i)" "b_blockno (bc_bufs c ! i) = b" using slot_SomeD [OF Some] assms(1) by (auto simp: cache_rep_def cache_ok_def)
  moreover have "V b = content c b" "R b = refs c b" "I = d_image (bc_disk c)" using assms(1) by (auto simp: cache_rep_def)
  ultimately show ?thesis using assms(2) Some by (cases "b_valid (bc_bufs c ! i)") (auto simp: content_def refs_def buf_ok_def)
qed (use assms(1) in \<open>auto simp: cache_rep_def content_def\<close>)

lemma no_lock [simp]: "(\<lambda>_. False)(b := False) = (\<lambda>_. False)"
  by (auto simp: fun_eq_iff)

section \<open>The interface of the cache\<close>

text \<open>What the log and the file system layers rely on: \<open>rep\<close> relates a cache to the contents, references and locks
  of its blocks, to the image and to the writes performed.\<close>

locale block_cache =
  fixes rep :: "'c \<Rightarrow> (u32 \<Rightarrow> bytes) \<Rightarrow> (u32 \<Rightarrow> int) \<Rightarrow> (u32 \<Rightarrow> bool) \<Rightarrow> bytes list \<Rightarrow> (nat \<times> bytes) list \<Rightarrow> bool"
    and holding :: "'c \<Rightarrow> nat \<Rightarrow> u32 \<Rightarrow> bool"
    and read :: "u32 \<Rightarrow> 'c \<Rightarrow> (nat option \<times> 'c) option"
    and release :: "nat \<Rightarrow> 'c \<Rightarrow> 'c option"
  assumes read_law: "rep c V R H I T \<Longrightarrow> b \<noteq> 0 \<Longrightarrow> unat b < length I \<Longrightarrow> \<not> H b \<Longrightarrow> (R b = -1 \<Longrightarrow> V b = I ! unat b) \<Longrightarrow>
      R b \<noteq> 0 \<or> card {x. R x \<noteq> 0} < NBUF \<Longrightarrow> \<forall>x. H x \<longrightarrow> R x \<noteq> 0 \<Longrightarrow>
      \<exists>i c'. read b c = Some (Some i, c') \<and> rep c' V (R(b := R b + 1)) (H(b := True)) I T \<and>
        holding c' i b \<and> (\<forall>j x. holding c j x \<and> R x \<noteq> 0 \<longrightarrow> holding c' j x)"
    and release_law: "rep c V R H I T \<Longrightarrow> holding c i b \<Longrightarrow> H b \<Longrightarrow> (R b = 1 \<Longrightarrow> V b = I ! unat b) \<Longrightarrow>
      \<exists>c'. release i c = Some c' \<and> rep c' V (R(b := R b - 1)) (H(b := False)) I T \<and> (\<forall>j x. holding c' j x = holding c j x)"
    and unused_law: "rep c V R H I T \<Longrightarrow> R b = 0 \<Longrightarrow> V b = I ! unat b"
begin

text \<open>Two blocks, the first of which is read first, are held together.\<close>

lemma read_two:
  assumes r: "rep c V R (\<lambda>_. False) I T"
    and a: "a \<noteq> 0" "unat a < length I" "0 \<le> R a" "R a \<noteq> 0 \<or> card {x. R x \<noteq> 0} < NBUF"
    and b: "b \<noteq> 0" "unat b < length I" "0 \<le> R b" "R b \<noteq> 0 \<or> card {x. (R(a := R a + 1)) x \<noteq> 0} < NBUF" and ab: "a \<noteq> b"
  obtains i c1 j c2 where "read a c = Some (Some i, c1)" "read b c1 = Some (Some j, c2)" "holding c2 i a" "holding c2 j b"
    "rep c2 V (R(a := R a + 1, b := R b + 1)) ((\<lambda>_. False)(a := True, b := True)) I T"
proof -
  obtain i c1 where 1: "read a c = Some (Some i, c1)" "rep c1 V (R(a := R a + 1)) ((\<lambda>_. False)(a := True)) I T" "holding c1 i a"
    using read_law [OF r a(1,2) _ _ a(4)] a(3) by auto
  have lk: "\<forall>x. ((\<lambda>_. False)(a := True)) x \<longrightarrow> (R(a := R a + 1)) x \<noteq> 0" using a(3) by simp
  obtain j c2 where 2: "read b c1 = Some (Some j, c2)" "rep c2 V (R(a := R a + 1, b := R b + 1)) ((\<lambda>_. False)(a := True, b := True)) I T"
    "holding c2 j b" "\<forall>j x. holding c1 j x \<and> (R(a := R a + 1)) x \<noteq> 0 \<longrightarrow> holding c2 j x"
    using read_law [OF 1(2) b(1,2)] ab b(3,4) lk by auto
  have "holding c2 i a" using 2(4) 1(3) a(3) by auto
  then show thesis using that 1(1) 2(1,2,3) by blast
qed

text \<open>A block that is read and released without a change.\<close>

lemma read_release:
  assumes r: "rep c V R (\<lambda>_. False) I T" and b: "b \<noteq> 0" "unat b < length I" "0 \<le> R b" "R b \<noteq> 0 \<or> card {x. R x \<noteq> 0} < NBUF"
  obtains i c1 c2 where "read b c = Some (Some i, c1)" "holding c1 i b" "rep c1 V (R(b := R b + 1)) ((\<lambda>_. False)(b := True)) I T"
    "release i c1 = Some c2" "rep c2 V R (\<lambda>_. False) I T"
proof -
  obtain i c1 where 1: "read b c = Some (Some i, c1)" "rep c1 V (R(b := R b + 1)) ((\<lambda>_. False)(b := True)) I T" "holding c1 i b"
    using read_law [OF r b(1,2) _ _ b(4)] b(3) by auto
  have "R b = 0 \<Longrightarrow> V b = I ! unat b" by (rule unused_law [OF r])
  then obtain c2 where "release i c1 = Some c2" "rep c2 V R (\<lambda>_. False) I T" using release_law [OF 1(2,3)] by auto
  then show thesis using that 1 by blast
qed

end

interpretation bc: block_cache cache_rep holds "bread 0" brelse
  by (unfold_locales; (rule bread_rep | rule brelse_rep | rule unused_content); blast)

end
