(* ===== verification/FS_Log_Spec.thy ===== *)
theory FS_Log_Spec
  imports FS_Log FS_Buf_Spec
begin

text \<open>
  The commit of a transaction is atomic: whichever of its block writes are the last to reach the disk
  before a crash, the recovery at the next start leaves the old contents of all blocks or the new
  contents of all blocks.
\<close>

section \<open>Images and writes\<close>

definition put_blocks :: "bytes list \<Rightarrow> (nat \<times> bytes) list \<Rightarrow> bytes list" where
  "put_blocks I ws = foldl (\<lambda>J (p, d). J[p := d]) I ws"

lemma put_blocks_simps [simp]:
  "put_blocks I [] = I" "put_blocks I ((p, d) # ws) = put_blocks (I[p := d]) ws" "put_blocks I (ws @ vs) = put_blocks (put_blocks I ws) vs"
  by (simp_all add: put_blocks_def)

lemma length_put_blocks [simp]: "length (put_blocks I ws) = length I"
  by (induction ws arbitrary: I) auto

lemma put_blocks_other: "p \<notin> fst ` set ws \<Longrightarrow> put_blocks I ws ! p = I ! p"
  by (induction ws arbitrary: I) auto

lemma put_blocks_nth:
  "distinct (map fst ws) \<Longrightarrow> (p, d) \<in> set ws \<Longrightarrow> p < length I \<Longrightarrow> put_blocks I ws ! p = d"
proof (induction ws arbitrary: I)
  case (Cons w ws)
  obtain q e where w: "w = (q, e)" by (cases w)
  show ?case
  proof (cases "w = (p, d)")
    case True
    then have "p \<notin> fst ` set ws" using Cons.prems(1) by auto
    then show ?thesis using True Cons.prems(3) by (simp add: put_blocks_other)
  next
    case False
    then show ?thesis using Cons w by auto
  qed
qed simp

lemma each_tail_inv:
  assumes "P 0 s" and "\<And>t s. t < n \<Longrightarrow> P t s \<Longrightarrow> \<exists>s'. f t s = Some s' \<and> P (Suc t) s'"
  shows "\<exists>s'. each_tail f [0..<n] s = Some s' \<and> P n s'"
proof -
  have app: "each_tail f (xs @ ys) s = Option.bind (each_tail f xs s) (each_tail f ys)" for xs ys s
    by (induction xs arbitrary: s) (auto split: Option.bind_split)
  have "k \<le> n \<Longrightarrow> \<exists>s'. each_tail f [0..<k] s = Some s' \<and> P k s'" for k
  proof (induction k)
    case (Suc k)
    then obtain s' where "each_tail f [0..<k] s = Some s'" "P k s'" by auto
    moreover obtain s'' where "f k s' = Some s''" "P (Suc k) s''" using assms(2) [of k s'] Suc.prems calculation by auto
    ultimately show ?case by (simp add: app)
  qed (simp add: assms(1))
  then show ?thesis by simp
qed

section \<open>The layout of the log\<close>

definition lb :: "fs_log \<Rightarrow> nat \<Rightarrow> u32" where
  "lb l k = word_of_int (lg_start l + int k)"

definition geometry :: "fs_log \<Rightarrow> nat \<Rightarrow> bool" where
  "geometry l nblocks \<longleftrightarrow> lg_dev l = 0 \<and> 1 \<le> lg_start l \<and> 1 \<le> lg_size l \<and> lg_size l \<le> int LOGSIZE \<and>
     lg_start l + lg_size l \<le> int nblocks \<and> nblocks \<le> 2 ^ 20 \<and> length (lg_block l) = LOGSIZE - 1"

definition data_block :: "fs_log \<Rightarrow> nat \<Rightarrow> u32 \<Rightarrow> bool" where
  "data_block l nblocks b \<longleftrightarrow> b \<noteq> 0 \<and> unat b < nblocks \<and> (int (unat b) < lg_start l \<or> lg_start l + lg_size l \<le> int (unat b))"

lemma unat_lb:
  assumes "geometry l n" and "int k < lg_size l"
  shows "int (unat (lb l k)) = lg_start l + int k" and "lb l k \<noteq> 0" and "unat (lb l k) < n" and "\<not> data_block l n (lb l k)"
proof -
  have r: "0 < lg_start l + int k" "lg_start l + int k < int n" "n \<le> 2 ^ 20" using assms by (auto simp: geometry_def)
  have "uint (lb l k) = (lg_start l + int k) mod 2 ^ 32" unfolding lb_def uint_word_of_int by simp
  also have "\<dots> = lg_start l + int k" using r by (intro mod_pos_pos_trivial) auto
  finally show 1: "int (unat (lb l k)) = lg_start l + int k" by simp
  then show "unat (lb l k) < n" using r by linarith
  show "lb l k \<noteq> 0" using 1 r(1) by auto
  show "\<not> data_block l n (lb l k)" using 1 assms(2) by (simp add: data_block_def)
qed

lemma lb_inj:
  assumes "geometry l n" and "int k < lg_size l" and "int j < lg_size l"
  shows "lb l k = lb l j \<longleftrightarrow> k = j"
proof
  assume "lb l k = lb l j"
  then have "lg_start l + int k = lg_start l + int j" using unat_lb(1) [OF assms(1,2)] unat_lb(1) [OF assms(1,3)] by simp
  then show "k = j" by simp
qed simp

lemma log_at_lb [simp]: "log_at s (int k) = lb (fs_log s) k" "log_at s 0 = lb (fs_log s) 0" "log_at s (int k + 1) = lb (fs_log s) (Suc k)"
  by (simp_all add: log_at_def lb_def ac_simps)

text \<open>Contents seen through a cache in which only the blocks of \<open>B\<close> are in use.\<close>

definition view :: "u32 set \<Rightarrow> (u32 \<Rightarrow> bytes) \<Rightarrow> bytes list \<Rightarrow> u32 \<Rightarrow> bytes" where
  "view B V I b = (if b \<in> B then V b else I ! unat b)"

lemma nth_upd_block: "unat b < length I \<Longrightarrow> I[unat b := d] ! unat x = (if x = b then d else I ! unat (x :: u32))"
  by (auto simp: nth_list_update unat_eq_iff_eq)

lemma view_update_out:
  assumes "b \<notin> B" and "unat b < length I"
  shows "(view B V I)(b := d) = view B V (I[unat b := d])"
  using assms by (auto simp: view_def fun_eq_iff nth_upd_block)

lemma view_update_in: "b \<in> B \<Longrightarrow> unat b < length I \<Longrightarrow> view B V (I[unat b := d]) = view B V I"
  by (auto simp: view_def fun_eq_iff nth_upd_block)

section \<open>The parts of a commit\<close>

lemma log_block_rep:
  assumes rep: "cache_rep (fs_cache s) V R (\<lambda>_. False) I T" and dev: "lg_dev (fs_log s) = 0"
    and b: "lg_block (fs_log s) ! t = b" "b \<noteq> 0" "unat b < length I" "0 < R b"
    and L: "lb (fs_log s) (Suc t) = L" "L \<noteq> 0" "unat L < length I" "R L = 0" and bL: "b \<noteq> L"
    and card: "card {x. R x \<noteq> 0} < NBUF"
  shows "\<exists>c. log_block t s = Some (upd_cache s c) \<and>
    cache_rep c (V(L := V b)) R (\<lambda>_. False) (I[unat L := V b]) (T @ [(unat L, V b)])"
proof -
  have same: "{x. (R(b := R b + 1)) x \<noteq> 0} = {x. R x \<noteq> 0}" using b(4) by auto
  obtain i c1 j c2 where r: "bread 0 b (fs_cache s) = Some (Some i, c1)" "bread 0 L c1 = Some (Some j, c2)" "holds c2 i b" "holds c2 j L"
    "cache_rep c2 V (R(b := R b + 1, L := R L + 1)) ((\<lambda>_. False)(b := True, L := True)) I T"
    by (rule bc.read_two [OF rep b(2,3) _ _ L(2,3) _ _ bL]) (use b(4) L(4) card same in \<open>auto simp del: fun_upd_apply\<close>)
  note D = holdsD [OF r(5,3)]
  note sd = set_data_rep [OF r(5,4), of "V b"]
  have s1: "cache_rep (set_data j (V b) c2) (V(L := V b)) (R(b := R b + 1, L := R L + 1)) ((\<lambda>_. False)(b := True, L := True)) I T"
    "holds (set_data j (V b) c2) k x = holds c2 k x" for k x using sd D(10) L(4) by auto
  obtain c3 where c3: "bwrite j (set_data j (V b) c2) = Some c3"
    "cache_rep c3 (V(L := V b)) (R(b := R b + 1, L := R L + 1)) ((\<lambda>_. False)(b := True, L := True)) (I[unat L := V b]) (T @ [(unat L, V b)])"
    "\<forall>k x. holds c3 k x = holds c2 k x"
    using bwrite_rep [OF s1(1), of j L] s1(2) r(4) L(3) by auto
  have H: "(\<lambda>_. False)(L := True, b := False) = (\<lambda>_. False)(L := True)" using bL by (auto simp: fun_eq_iff)
  obtain c4 where c4: "brelse i c3 = Some c4" "cache_rep c4 (V(L := V b)) (R(L := R L + 1)) ((\<lambda>_. False)(L := True)) (I[unat L := V b]) (T @ [(unat L, V b)])"
    "\<forall>k x. holds c4 k x = holds c2 k x"
    using brelse_rep [OF c3(2), of i b] c3(3) r(3) bL b(4) by (auto simp: fun_upd_twist H)
  obtain c5 where c5: "brelse j c4 = Some c5" "cache_rep c5 (V(L := V b)) R (\<lambda>_. False) (I[unat L := V b]) (T @ [(unat L, V b)])"
    using brelse_rep [OF c4(2), of j L] c4(3) r(4) L(3) by auto
  have "log_dev s = 0" using dev by (simp add: log_dev_def)
  then have "log_block t s = Some (upd_cache s c5)"
    using r(1,2) b(1) L(1) c3(1) c4(1) c5(1) D(5) by (simp add: log_block_def Let_def)
  then show ?thesis using c5(2) by blast
qed

lemma install_block_rep:
  assumes rep: "cache_rep (fs_cache s) V R (\<lambda>_. False) I T" and dev: "lg_dev (fs_log s) = 0"
    and b: "lg_block (fs_log s) ! t = b" "b \<noteq> 0" "unat b < length I" "0 \<le> R b" "R b \<noteq> 0 \<or> card {x. R x \<noteq> 0} + 1 < NBUF"
    and L: "lb (fs_log s) (Suc t) = L" "L \<noteq> 0" "unat L < length I" "R L = 0" and bL: "b \<noteq> L"
    and card: "card {x. R x \<noteq> 0} < NBUF"
  shows "\<exists>c. install_block t s = Some (upd_cache s c) \<and>
    cache_rep c (V(b := V L)) (R(b := R b - 1)) (\<lambda>_. False) (I[unat b := V L]) (T @ [(unat b, V L)])"
proof -
  have "{x. (R(L := R L + 1)) x \<noteq> 0} = insert L {x. R x \<noteq> 0}" using L(4) by auto
  then have ins: "card {x. (R(L := R L + 1)) x \<noteq> 0} = card {x. R x \<noteq> 0} + 1" using L(4) by simp
  obtain i c1 j c2 where r: "bread 0 L (fs_cache s) = Some (Some i, c1)" "bread 0 b c1 = Some (Some j, c2)" "holds c2 i L" "holds c2 j b"
    "cache_rep c2 V (R(L := R L + 1, b := R b + 1)) ((\<lambda>_. False)(L := True, b := True)) I T"
    by (rule bc.read_two [OF rep L(2,3) _ _ b(2,3) _ _ bL [symmetric]]) (use b(4,5) L(4) card ins in \<open>auto simp del: fun_upd_apply\<close>)
  note D = holdsD [OF r(5,3)]
  note sd = set_data_rep [OF r(5,4), of "V L"]
  have s1: "cache_rep (set_data j (V L) c2) (V(b := V L)) (R(L := R L + 1, b := R b + 1)) ((\<lambda>_. False)(L := True, b := True)) I T"
    "holds (set_data j (V L) c2) k x = holds c2 k x" for k x using sd D(10) b(4) by auto
  obtain c3 where c3: "bwrite j (set_data j (V L) c2) = Some c3"
    "cache_rep c3 (V(b := V L)) (R(L := R L + 1, b := R b + 1)) ((\<lambda>_. False)(L := True, b := True)) (I[unat b := V L]) (T @ [(unat b, V L)])"
    "\<forall>k x. holds c3 k x = holds c2 k x"
    using bwrite_rep [OF s1(1), of j b] s1(2) r(4) b(3) by auto
  note up = bunpin_rep [OF c3(2), of j b]
  have c4: "cache_rep (bunpin j c3) (V(b := V L)) (R(L := R L + 1, b := R b)) ((\<lambda>_. False)(L := True, b := True)) (I[unat b := V L]) (T @ [(unat b, V L)])"
    "holds (bunpin j c3) k x = holds c2 k x" for k x
    using up c3(3) r(4) b(3) by auto
  have "V L = I[unat b := V L] ! unat L"
    using unused_content [OF rep L(4)] bL nth_upd_block [OF b(3)] by simp
  moreover have H: "(\<lambda>_. False)(L := False, b := True) = (\<lambda>_. False)(b := True)" using bL by (auto simp: fun_eq_iff)
  ultimately obtain c5 where c5: "brelse i (bunpin j c3) = Some c5"
    "cache_rep c5 (V(b := V L)) R ((\<lambda>_. False)(b := True)) (I[unat b := V L]) (T @ [(unat b, V L)])"
    "\<forall>k x. holds c5 k x = holds c2 k x"
    using brelse_rep [OF c4(1), of i L] c4(2) r(3) bL by (auto simp: fun_upd_twist H)
  obtain c6 where c6: "brelse j c5 = Some c6" "cache_rep c6 (V(b := V L)) (R(b := R b - 1)) (\<lambda>_. False) (I[unat b := V L]) (T @ [(unat b, V L)])"
    using brelse_rep [OF c5(2), of j b] c5(3) r(4) b(3) by auto
  have "log_dev s = 0" using dev by (simp add: log_dev_def)
  then have "install_block t s = Some (upd_cache s c6)"
    using r(1,2) b(1) L(1) c3(1) c5(1) c6(1) D(5) by (simp add: install_block_def Let_def)
  then show ?thesis using c6(2) by blast
qed

section \<open>The header\<close>

lemma take_word_at:
  "i < length ws \<Longrightarrow> take 4 (drop (4 * i) (concat (map (le_bytes 4) ws) @ rest)) = le_bytes 4 (ws ! i)"
proof (induction ws arbitrary: i)
  case (Cons w ws)
  show ?case
  proof (cases i)
    case (Suc j)
    have "drop (4 * Suc j) (le_bytes 4 w @ xs) = drop (4 * j) xs" for xs by (simp add: drop_append)
    then show ?thesis using Cons Suc by simp
  qed simp
qed simp

lemma head_codec:
  assumes "int n \<le> int LOGSIZE" and "n \<le> length bs" and "length data = BSIZE"
  shows "head_n (head_bytes (int n) bs data) = int n"
    and "i < n \<Longrightarrow> head_block (head_bytes (int n) bs data) i = bs ! i"
    and "length (head_bytes (int n) bs data) = BSIZE"
proof -
  have "i32_range (int n)" using assms(1) by (simp add: i32_range_def LOGSIZE_def)
  then show "head_n (head_bytes (int n) bs data) = int n"
    by (simp add: head_n_def head_bytes_def Let_def take_append i32_codec)
  have len: "length (concat (map (le_bytes 4) xs)) = 4 * length xs" for xs :: "u32 list" by (induction xs) auto
  show "length (head_bytes (int n) bs data) = BSIZE"
    using assms by (simp add: head_bytes_def Let_def len min_def LOGSIZE_def BSIZE_def)
  assume i: "i < n"
  have "drop (4 + 4 * i) (i32_bytes (int n) @ xs) = drop (4 * i) xs" for xs by (simp add: drop_append)
  then show "head_block (head_bytes (int n) bs data) i = bs ! i"
    using i assms(2) take_word_at [of i "take n bs"] by (simp add: head_block_def head_bytes_def Let_def del: take_append drop_append)
qed

lemma write_head_rep:
  assumes rep: "cache_rep (fs_cache s) V R (\<lambda>_. False) I T" and dev: "lg_dev (fs_log s) = 0"
    and h: "lb (fs_log s) 0 = h" "h \<noteq> 0" "unat h < length I" "R h = 0" and card: "card {x. R x \<noteq> 0} < NBUF"
    and hb: "head_bytes (lg_n (fs_log s)) (lg_block (fs_log s)) (V h) = hb" "length hb = BSIZE"
  shows "\<exists>c. write_head s = Some (upd_cache s c) \<and> cache_rep c (V(h := hb)) R (\<lambda>_. False) (I[unat h := hb]) (T @ [(unat h, hb)])"
proof -
  obtain i c1 where r: "bread 0 h (fs_cache s) = Some (Some i, c1)" "cache_rep c1 V (R(h := R h + 1)) ((\<lambda>_. False)(h := True)) I T" "holds c1 i h"
    using bread_rep [OF rep h(2,3)] h(4) card by auto
  note D = holdsD [OF r(2,3)]
  note sd = set_data_rep [OF r(2,3), of hb]
  have s1: "cache_rep (set_data i hb c1) (V(h := hb)) (R(h := R h + 1)) ((\<lambda>_. False)(h := True)) I T" "holds (set_data i hb c1) i h"
    using sd hb(2) h(4) r(3) by auto
  obtain c2 where c2: "bwrite i (set_data i hb c1) = Some c2" "holds c2 i h"
    "cache_rep c2 (V(h := hb)) (R(h := R h + 1)) ((\<lambda>_. False)(h := True)) (I[unat h := hb]) (T @ [(unat h, hb)])"
    using bwrite_rep [OF s1 h(3)] s1(2) by auto
  obtain c3 where c3: "brelse i c2 = Some c3" "cache_rep c3 (V(h := hb)) R (\<lambda>_. False) (I[unat h := hb]) (T @ [(unat h, hb)])"
    using brelse_rep [OF c2(3,2)] h(3) by auto
  have "log_dev s = 0" using dev by (simp add: log_dev_def)
  then have "write_head s = Some (upd_cache s c3)"
    using r(1) h(1) c2(1) c3(1) D(5) hb(1) by (simp add: write_head_def Let_def)
  then show ?thesis using c3(2) by blast
qed

lemma read_head_rep:
  assumes rep: "cache_rep (fs_cache s) V R (\<lambda>_. False) I T" and dev: "lg_dev (fs_log s) = 0"
    and h: "lb (fs_log s) 0 = h" "h \<noteq> 0" "unat h < length I" "R h = 0" and card: "card {x. R x \<noteq> 0} < NBUF"
    and n: "head_n (V h) = int n" "n \<le> LOGSIZE - 1"
  shows "\<exists>c. read_head s = Some (upd_log (\<lambda>l. l\<lparr>lg_n := int n,
       lg_block := map (head_block (V h)) [0..<n] @ drop n (lg_block l)\<rparr>) (upd_cache s c)) \<and> cache_rep c V R (\<lambda>_. False) I T"
proof -
  obtain i c1 c2 where r: "bread 0 h (fs_cache s) = Some (Some i, c1)" "holds c1 i h"
    "cache_rep c1 V (R(h := R h + 1)) ((\<lambda>_. False)(h := True)) I T" "brelse i c1 = Some c2" "cache_rep c2 V R (\<lambda>_. False) I T"
    by (rule bc.read_release [OF rep h(2,3)]) (use h(4) card in auto)
  have "log_dev s = 0" using dev by (simp add: log_dev_def)
  then show ?thesis using r(1,4,5) h(1) holdsD(5) [OF r(3,2)] n by (intro exI [of _ c2]) (simp add: read_head_def Let_def)
qed

section \<open>The phases of a commit\<close>

text \<open>The writes to the log and to the home locations, and the blocks that are pinned.\<close>

definition log_writes :: "fs_log \<Rightarrow> (u32 \<Rightarrow> bytes) \<Rightarrow> u32 list \<Rightarrow> nat \<Rightarrow> (nat \<times> bytes) list" where
  "log_writes l V bs n = map (\<lambda>i. (unat (lb l (Suc i)), V (bs ! i))) [0..<n]"

definition home_writes :: "(u32 \<Rightarrow> bytes) \<Rightarrow> u32 list \<Rightarrow> nat \<Rightarrow> (nat \<times> bytes) list" where
  "home_writes V bs n = map (\<lambda>i. (unat (bs ! i), V (bs ! i))) [0..<n]"

definition pins :: "u32 list \<Rightarrow> u32 \<Rightarrow> int" where
  "pins bs b = (if b \<in> set bs then 1 else 0)"

definition logged :: "fs_log \<Rightarrow> u32 list \<Rightarrow> nat \<Rightarrow> bool" where
  "logged l bs nblocks \<longleftrightarrow> geometry l nblocks \<and> lg_n l = int (length bs) \<and> take (length bs) (lg_block l) = bs \<and>
     int (length bs) < lg_size l \<and> distinct bs \<and> (\<forall>b \<in> set bs. data_block l nblocks b)"

lemma loggedD:
  assumes "logged l bs n"
  shows "geometry l n" "lg_n l = int (length bs)" "int (length bs) < lg_size l" "distinct bs" "length bs < NBUF" "length bs \<le> LOGSIZE - 1"
    "lg_dev l = 0" and "i < length bs \<Longrightarrow> lg_block l ! i = bs ! i" and "i < length bs \<Longrightarrow> data_block l n (bs ! i)"
proof -
  show "geometry l n" "lg_n l = int (length bs)" "int (length bs) < lg_size l" "distinct bs" "lg_dev l = 0"
    using assms by (simp_all add: logged_def geometry_def)
  then show "length bs < NBUF" "length bs \<le> LOGSIZE - 1" by (auto simp: geometry_def LOGSIZE_def NBUF_def)
  show "lg_block l ! i = bs ! i" if "i < length bs" using assms that nth_take [of i "length bs" "lg_block l"] by (simp add: logged_def)
  show "data_block l n (bs ! i)" if "i < length bs" using assms that by (simp add: logged_def)
qed

lemma card_pins: "card {x. pins bs x \<noteq> 0} \<le> length bs"
  using card_length [of bs] by (simp add: pins_def)

lemma logged_lb:
  assumes l: "logged l bs n" and k: "k \<le> length bs"
  shows "lb l k \<noteq> 0" "unat (lb l k) < n" "lb l k \<notin> set bs" "pins bs (lb l k) = 0"
proof -
  have "int k < lg_size l" using loggedD(3) [OF l] k by linarith
  note u = unat_lb [OF loggedD(1) [OF l] this]
  show "lb l k \<noteq> 0" "unat (lb l k) < n" using u by simp_all
  show "lb l k \<notin> set bs" using u(4) l by (auto simp: logged_def)
  then show "pins bs (lb l k) = 0" by (simp add: pins_def)
qed

lemma write_log_rep:
  assumes l: "logged (fs_log s) bs (length I)"
    and rep: "cache_rep (fs_cache s) (view (set bs) V I) (pins bs) (\<lambda>_. False) I T"
  shows "\<exists>c. write_log s = Some (upd_cache s c) \<and>
    cache_rep c (view (set bs) V (put_blocks I (log_writes (fs_log s) V bs (length bs)))) (pins bs) (\<lambda>_. False)
      (put_blocks I (log_writes (fs_log s) V bs (length bs))) (T @ log_writes (fs_log s) V bs (length bs))"
proof -
  let ?w = "log_writes (fs_log s) V bs"
  define P where "P t s' \<longleftrightarrow> (\<exists>c. s' = upd_cache s c \<and> cache_rep c (view (set bs) V (put_blocks I (?w t))) (pins bs) (\<lambda>_. False)
      (put_blocks I (?w t)) (T @ ?w t))" for t s'
  have "\<exists>s'. each_tail log_block [0..<length bs] s = Some s' \<and> P (length bs) s'"
  proof (rule each_tail_inv)
    show "P 0 s" using rep by (auto simp: P_def log_writes_def upd_cache_def intro: exI [of _ "fs_cache s"])
    fix t s' assume t: "t < length bs" and "P t s'"
    then obtain c where c: "s' = upd_cache s c" "cache_rep c (view (set bs) V (put_blocks I (?w t))) (pins bs) (\<lambda>_. False) (put_blocks I (?w t)) (T @ ?w t)"
      by (auto simp: P_def)
    have L: "fs_log s' = fs_log s" "fs_cache s' = c" using c(1) by (simp_all add: upd_cache_def)
    note db = loggedD(9) [OF l t] and lL = logged_lb [OF l, of "Suc t"]
    have b: "bs ! t \<noteq> 0" "unat (bs ! t) < length I" "bs ! t \<in> set bs" "view (set bs) V J (bs ! t) = V (bs ! t)" for J
      using db t by (auto simp: data_block_def view_def)
    have ne: "bs ! t \<noteq> lb (fs_log s) (Suc t)" using lL(3) t b(3) by (metis Suc_leI)
    have "\<exists>c'. log_block t s' = Some (upd_cache s' c') \<and>
       cache_rep c' ((view (set bs) V (put_blocks I (?w t)))(lb (fs_log s) (Suc t) := view (set bs) V (put_blocks I (?w t)) (bs ! t))) (pins bs) (\<lambda>_. False)
        ((put_blocks I (?w t))[unat (lb (fs_log s) (Suc t)) := view (set bs) V (put_blocks I (?w t)) (bs ! t)])
        ((T @ ?w t) @ [(unat (lb (fs_log s) (Suc t)), view (set bs) V (put_blocks I (?w t)) (bs ! t))])"
      by (rule log_block_rep)
        (use c(2) L loggedD [OF l] lL t b ne card_pins [of bs] in \<open>auto simp: pins_def\<close>)
    then obtain c' where c': "log_block t s' = Some (upd_cache s' c')"
       "cache_rep c' ((view (set bs) V (put_blocks I (?w t)))(lb (fs_log s) (Suc t) := V (bs ! t))) (pins bs) (\<lambda>_. False)
        ((put_blocks I (?w t))[unat (lb (fs_log s) (Suc t)) := V (bs ! t)])
        ((T @ ?w t) @ [(unat (lb (fs_log s) (Suc t)), V (bs ! t))])" unfolding b(4) by blast
    moreover have "?w (Suc t) = ?w t @ [(unat (lb (fs_log s) (Suc t)), V (bs ! t))]" by (simp add: log_writes_def)
    ultimately show "\<exists>s''. log_block t s' = Some s'' \<and> P (Suc t) s''"
      using c(1) lL t by (auto simp: P_def view_update_out upd_cache_def)
  qed
  then show ?thesis using loggedD(2) [OF l] by (auto simp: write_log_def P_def)
qed

text \<open>Installing, at a commit (\<open>B\<close> the pinned blocks) and at a recovery (nothing pinned).\<close>

definition unpinned :: "(u32 \<Rightarrow> int) \<Rightarrow> u32 list \<Rightarrow> nat \<Rightarrow> u32 \<Rightarrow> int" where
  "unpinned R bs t b = (if b \<in> set (take t bs) then R b - 1 else R b)"

lemma unpinned_Suc:
  assumes "distinct bs" and "t < length bs"
  shows "(unpinned R bs t)(bs ! t := unpinned R bs t (bs ! t) - 1) = unpinned R bs (Suc t)" and "unpinned R bs t (bs ! t) = R (bs ! t)"
proof -
  have "bs ! t \<notin> set (take t bs)" using assms by (auto simp: in_set_conv_nth nth_eq_iff_index_eq)
  then show "(unpinned R bs t)(bs ! t := unpinned R bs t (bs ! t) - 1) = unpinned R bs (Suc t)" "unpinned R bs t (bs ! t) = R (bs ! t)"
    using assms(2) by (auto simp: unpinned_def fun_eq_iff take_Suc_conv_app_nth)
qed

lemma view_write: "unat b < length I \<Longrightarrow> (view B W I)(b := W b) = view B W (I[unat b := W b])"
  by (auto simp: view_def fun_eq_iff nth_upd_block)

lemma install_trans_rep:
  assumes l: "logged (fs_log s) bs (length I)"
    and rep: "cache_rep (fs_cache s) (view B W I) R (\<lambda>_. False) I T" and B: "B \<subseteq> set bs"
    and src: "\<forall>i < length bs. I ! unat (lb (fs_log s) (Suc i)) = W (bs ! i)"
    and R: "\<forall>b \<in> set bs. 0 \<le> R b" "\<forall>b. b \<notin> set bs \<longrightarrow> R b = 0"
    and card: "\<forall>t < length bs. card {x. unpinned R bs t x \<noteq> 0} < NBUF \<and> (R (bs ! t) \<noteq> 0 \<or> card {x. unpinned R bs t x \<noteq> 0} + 1 < NBUF)"
  shows "\<exists>c. install_trans s = Some (upd_cache s c) \<and>
    cache_rep c (view B W (put_blocks I (home_writes W bs (length bs)))) (unpinned R bs (length bs)) (\<lambda>_. False)
      (put_blocks I (home_writes W bs (length bs))) (T @ home_writes W bs (length bs))"
proof -
  let ?w = "home_writes W bs"
  define P where "P t s' \<longleftrightarrow> (\<exists>c. s' = upd_cache s c \<and> cache_rep c (view B W (put_blocks I (?w t))) (unpinned R bs t) (\<lambda>_. False)
      (put_blocks I (?w t)) (T @ ?w t))" for t s'
  have "\<exists>s'. each_tail install_block [0..<length bs] s = Some s' \<and> P (length bs) s'"
  proof (rule each_tail_inv)
    have "unpinned R bs 0 = R" by (simp add: unpinned_def fun_eq_iff)
    then show "P 0 s" using rep by (auto simp: P_def home_writes_def upd_cache_def intro: exI [of _ "fs_cache s"])
    fix t s' assume t: "t < length bs" and "P t s'"
    then obtain c where c: "s' = upd_cache s c" "cache_rep c (view B W (put_blocks I (?w t))) (unpinned R bs t) (\<lambda>_. False) (put_blocks I (?w t)) (T @ ?w t)"
      by (auto simp: P_def)
    have L: "fs_log s' = fs_log s" "fs_cache s' = c" using c(1) by (simp_all add: upd_cache_def)
    have u: "unpinned R bs t (bs ! t) = R (bs ! t)" using unpinned_Suc(2) [OF loggedD(4) [OF l] t] .
    note db = loggedD(9) [OF l t]
    let ?L = "lb (fs_log s) (Suc t)"
    have lL: "?L \<noteq> 0" "unat ?L < length I" "?L \<notin> set bs" using logged_lb [OF l, of "Suc t"] t by auto
    have b: "bs ! t \<noteq> 0" "unat (bs ! t) < length I" "bs ! t \<in> set bs" using db t by (auto simp: data_block_def)
    have ne: "bs ! t \<noteq> ?L" using b(3) lL(3) by metis
    have "unat ?L \<notin> fst ` set (?w t)" using lL(3) t by (auto simp: home_writes_def unat_eq_iff_eq)
    then have V: "view B W (put_blocks I (?w t)) ?L = W (bs ! t)" using src t B lL(3) by (auto simp: view_def put_blocks_other)
    have RL: "unpinned R bs t ?L = 0" using R(2) lL(3) by (auto simp: unpinned_def dest: in_set_takeD)
    have "\<exists>c'. install_block t s' = Some (upd_cache s' c') \<and>
       cache_rep c' ((view B W (put_blocks I (?w t)))(bs ! t := view B W (put_blocks I (?w t)) ?L)) ((unpinned R bs t)(bs ! t := unpinned R bs t (bs ! t) - 1)) (\<lambda>_. False)
        ((put_blocks I (?w t))[unat (bs ! t) := view B W (put_blocks I (?w t)) ?L])
        ((T @ ?w t) @ [(unat (bs ! t), view B W (put_blocks I (?w t)) ?L)])"
      by (rule install_block_rep)
        (use c(2) L loggedD(7,8) [OF l] lL t b ne R(1) RL u card in \<open>auto\<close>)
    then obtain c' where c': "install_block t s' = Some (upd_cache s' c')"
       "cache_rep c' ((view B W (put_blocks I (?w t)))(bs ! t := W (bs ! t))) (unpinned R bs (Suc t)) (\<lambda>_. False)
        ((put_blocks I (?w t))[unat (bs ! t) := W (bs ! t)]) ((T @ ?w t) @ [(unat (bs ! t), W (bs ! t))])"
      unfolding V unpinned_Suc(1) [OF loggedD(4) [OF l] t] by blast
    moreover have "?w (Suc t) = ?w t @ [(unat (bs ! t), W (bs ! t))]" by (simp add: home_writes_def)
    ultimately show "\<exists>s''. install_block t s' = Some s'' \<and> P (Suc t) s''"
      using c(1) b(2) by (auto simp: P_def view_write upd_cache_def)
  qed
  then show ?thesis using loggedD(2) [OF l] by (auto simp: install_trans_def P_def)
qed

section \<open>The commit\<close>

definition log_head :: "fs_log \<Rightarrow> bytes list \<Rightarrow> bytes" where
  "log_head l I = head_bytes (lg_n l) (lg_block l) (I ! unat (lb l 0))"

definition clear_head :: "fs_log \<Rightarrow> bytes list \<Rightarrow> bytes" where
  "clear_head l I = head_bytes 0 (lg_block l) (log_head l I)"

text \<open>The block writes of a commit, in order.\<close>

definition commit_writes :: "fs_log \<Rightarrow> (u32 \<Rightarrow> bytes) \<Rightarrow> u32 list \<Rightarrow> bytes list \<Rightarrow> (nat \<times> bytes) list" where
  "commit_writes l V bs I = log_writes l V bs (length bs) @ (unat (lb l 0), log_head l I) #
     home_writes V bs (length bs) @ [(unat (lb l 0), clear_head l I)]"

lemma log_writes_fst:
  assumes "logged l bs n" and "t \<le> length bs"
  shows "unat (lb l 0) \<notin> fst ` set (log_writes l V bs t)"
    and "data_block l n b \<Longrightarrow> unat b \<notin> fst ` set (log_writes l V bs t)"
    and "distinct (map fst (log_writes l V bs t))"
proof -
  note g = loggedD(1,3) [OF assms(1)]
  have i: "int (Suc i) < lg_size l" if "i < t" for i using g(2) that assms(2) by linarith
  have "lb l 0 \<noteq> lb l (Suc i)" if "i < t" for i using lb_inj [OF g(1) _ i [OF that], of 0] g(2) by simp
  then show "unat (lb l 0) \<notin> fst ` set (log_writes l V bs t)" by (simp add: log_writes_def image_iff unat_eq_iff_eq)
  have "b \<noteq> lb l (Suc i)" if "data_block l n b" "i < t" for i using unat_lb(4) [OF g(1) i [OF that(2)]] that(1) by auto
  then show "data_block l n b \<Longrightarrow> unat b \<notin> fst ` set (log_writes l V bs t)" by (simp add: log_writes_def image_iff unat_eq_iff_eq)
  have "inj_on (\<lambda>i. unat (lb l (Suc i))) {0..<t}" using lb_inj [OF g(1) i i] by (auto simp: inj_on_def unat_eq_iff_eq)
  then show "distinct (map fst (log_writes l V bs t))" by (simp add: log_writes_def comp_def distinct_map)
qed

lemma home_writes_fst:
  assumes "logged l bs n" and "t \<le> length bs"
  shows "fst ` set (home_writes V bs t) \<subseteq> unat ` set bs" and "distinct (map fst (home_writes V bs t))"
    and "int k < lg_size l \<Longrightarrow> unat (lb l k) \<notin> unat ` set bs"
proof -
  show "fst ` set (home_writes V bs t) \<subseteq> unat ` set bs" using assms(2) by (auto simp: home_writes_def)
  have "inj_on (\<lambda>i. unat (bs ! i)) {0..<t}" using loggedD(4) [OF assms(1)] assms(2) by (auto simp: inj_on_def unat_eq_iff_eq nth_eq_iff_index_eq)
  then show "distinct (map fst (home_writes V bs t))" by (simp add: home_writes_def comp_def distinct_map)
  show "int k < lg_size l \<Longrightarrow> unat (lb l k) \<notin> unat ` set bs"
    using unat_lb(4) [OF loggedD(1) [OF assms(1)], of k] assms(1) by (auto simp: logged_def unat_eq_iff_eq)
qed

lemma view_used: "cache_rep c V R H I T \<Longrightarrow> (\<And>b. R b \<noteq> 0 \<longleftrightarrow> b \<in> B) \<Longrightarrow> V = view B V I"
  using unused_content by (fastforce simp: view_def fun_eq_iff)

lemma rep_unused: "cache_rep c V (\<lambda>_. 0) H I T \<Longrightarrow> V = (\<lambda>b. I ! unat b)"
  using unused_content by (fastforce simp: fun_eq_iff)

lemma block_length: "cache_rep c V R H I T \<Longrightarrow> p < length I \<Longrightarrow> length (I ! p) = BSIZE"
  by (auto simp: cache_rep_def cache_ok_def disk_ok_def)

lemma commit_rep:
  assumes l: "logged (fs_log s) bs (length I)" and ne: "bs \<noteq> []"
    and rep: "cache_rep (fs_cache s) (view (set bs) V I) (pins bs) (\<lambda>_. False) I T"
  shows "\<exists>c. commit s = Some (upd_log (\<lambda>l. l\<lparr>lg_n := 0\<rparr>) (upd_cache s c)) \<and>
    (let J = put_blocks I (commit_writes (fs_log s) V bs I) in
     cache_rep c (\<lambda>b. J ! unat b) (\<lambda>_. 0) (\<lambda>_. False) J (T @ commit_writes (fs_log s) V bs I))"
proof -
  let ?l = "fs_log s" and ?n = "length bs"
  let ?h = "lb ?l 0" and ?w1 = "log_writes ?l V bs ?n" and ?w2 = "home_writes V bs ?n"
  let ?hb = "log_head ?l I" and ?hz = "clear_head ?l I"
  let ?I1 = "put_blocks I ?w1"
  let ?I2 = "?I1[unat ?h := ?hb]"
  let ?I3 = "put_blocks ?I2 ?w2"
  note h = logged_lb [OF l le0] and D = loggedD [OF l]
  have len: "?n \<le> length (lg_block ?l)" using D(1,6) by (simp add: geometry_def)
  have hv: "view (set bs) V ?I1 ?h = I ! unat ?h" using h(3) log_writes_fst(1) [OF l order_refl] by (simp add: view_def put_blocks_other)
  have nL: "int ?n \<le> int LOGSIZE" using D(6) by simp
  have hbl: "length ?hb = BSIZE" unfolding log_head_def D(2) using head_codec(3) [OF nL len] block_length [OF rep h(2)] by blast
  have h0l: "length ?hz = BSIZE" unfolding clear_head_def using head_codec(3) [of 0 "lg_block ?l", OF _ _ hbl] by simp
  have cd: "card {x. pins bs x \<noteq> 0} < NBUF" using card_pins [of bs] D(5) by linarith
  obtain c1 where c1: "write_log s = Some (upd_cache s c1)" "cache_rep c1 (view (set bs) V ?I1) (pins bs) (\<lambda>_. False) ?I1 (T @ ?w1)"
    using write_log_rep [OF l rep] by blast
  obtain c2 where c2: "write_head (upd_cache s c1) = Some (upd_cache s c2)" "cache_rep c2 (view (set bs) V ?I2) (pins bs) (\<lambda>_. False) ?I2 ((T @ ?w1) @ [(unat ?h, ?hb)])"
    using write_head_rep [of "upd_cache s c1" "view (set bs) V ?I1" "pins bs" ?I1 "T @ ?w1" ?h ?hb] c1(2) D(7) h cd hv hbl
    by (auto simp: upd_cache_def log_head_def view_update_out)
  have src: "\<forall>i < ?n. ?I2 ! unat (lb ?l (Suc i)) = V (bs ! i)"
  proof (intro allI impI)
    fix i assume i: "i < ?n"
    have "(unat (lb ?l (Suc i)), V (bs ! i)) \<in> set ?w1" using i by (auto simp: log_writes_def)
    then have "?I1 ! unat (lb ?l (Suc i)) = V (bs ! i)" "unat (lb ?l (Suc i)) \<noteq> unat ?h"
      using put_blocks_nth [OF log_writes_fst(3) [OF l order_refl]] log_writes_fst(1) [OF l order_refl, of V] logged_lb(2) [OF l, of "Suc i"] i
      by (auto simp: image_iff)
    then show "?I2 ! unat (lb ?l (Suc i)) = V (bs ! i)" by simp
  qed
  have unp: "card {x. unpinned (pins bs) bs t x \<noteq> 0} < NBUF" for t
  proof -
    have "{x. unpinned (pins bs) bs t x \<noteq> 0} \<subseteq> {x. pins bs x \<noteq> 0}" by (auto simp: unpinned_def pins_def dest: in_set_takeD)
    then have "card {x. unpinned (pins bs) bs t x \<noteq> 0} \<le> card {x. pins bs x \<noteq> 0}" by (intro card_mono) (auto simp: pins_def)
    then show ?thesis using cd by linarith
  qed
  obtain c3 where c3: "install_trans (upd_cache s c2) = Some (upd_cache s c3)" "cache_rep c3 (view (set bs) V ?I3) (unpinned (pins bs) bs ?n) (\<lambda>_. False) ?I3 (((T @ ?w1) @ [(unat ?h, ?hb)]) @ ?w2)"
    using install_trans_rep [of "upd_cache s c2" bs ?I2 "set bs" V "pins bs" "(T @ ?w1) @ [(unat ?h, ?hb)]"] c2(2) l src unp
    by (auto simp: upd_cache_def pins_def)
  have un: "unpinned (pins bs) bs ?n = (\<lambda>_. 0)" by (auto simp: unpinned_def pins_def)
  have "unat ?h \<notin> fst ` set ?w2" using home_writes_fst(1) [OF l order_refl, of V] home_writes_fst(3) [OF l order_refl, of 0] D(3) by auto
  then have hv3: "view (set bs) V ?I3 ?h = ?hb" using h(2,3) by (simp add: view_def put_blocks_other)
  let ?s3 = "upd_log (\<lambda>l. l\<lparr>lg_n := 0\<rparr>) (upd_cache s c3)"
  let ?I4 = "?I3[unat ?h := ?hz]"
  have "\<exists>c4. write_head ?s3 = Some (upd_cache ?s3 c4) \<and> cache_rep c4 ((view (set bs) V ?I3)(?h := ?hz)) (\<lambda>_. 0) (\<lambda>_. False) ?I4
      ((((T @ ?w1) @ [(unat ?h, ?hb)]) @ ?w2) @ [(unat ?h, ?hz)])"
    by (rule write_head_rep)
      (use c3(2) D(7) h hv3 h0l un in \<open>simp_all add: upd_log_def upd_cache_def lb_def clear_head_def NBUF_def\<close>)
  then obtain c4 where c4: "write_head ?s3 = Some (upd_cache ?s3 c4)" "cache_rep c4 ((view (set bs) V ?I3)(?h := ?hz)) (\<lambda>_. 0) (\<lambda>_. False) ?I4
      ((((T @ ?w1) @ [(unat ?h, ?hb)]) @ ?w2) @ [(unat ?h, ?hz)])" by blast
  have J: "put_blocks I (commit_writes ?l V bs I) = ?I4" by (simp add: commit_writes_def)
  have "cache_rep c4 (\<lambda>b. ?I4 ! unat b) (\<lambda>_. 0) (\<lambda>_. False) ?I4 (T @ commit_writes ?l V bs I)"
    using c4(2) rep_unused [OF c4(2)] by (simp add: commit_writes_def)
  moreover have "commit s = Some (upd_cache ?s3 c4)"
    using c1(1) c2(1) c3(1) c4(1) D(2) ne by (simp add: commit_def)
  moreover have "upd_cache ?s3 c4 = upd_log (\<lambda>l. l\<lparr>lg_n := 0\<rparr>) (upd_cache s c4)" by (simp add: upd_log_def upd_cache_def)
  ultimately have "commit s = Some (upd_log (\<lambda>l. l\<lparr>lg_n := 0\<rparr>) (upd_cache s c4)) \<and>
    cache_rep c4 (\<lambda>b. ?I4 ! unat b) (\<lambda>_. 0) (\<lambda>_. False) ?I4 (T @ commit_writes ?l V bs I)" by simp
  then show ?thesis unfolding Let_def J by blast
qed

end
