(* ===== verification/FS_Recovery.thy ===== *)
theory FS_Recovery
  imports FS_Log_Spec
begin

text \<open>
  Recovery after a crash, and the atomicity of transactions. \<open>boot_disk\<close> is the disk the program finds when
  it starts on an image.
\<close>

section \<open>Starting on an image\<close>

definition boot_disk :: "bytes list \<Rightarrow> disk" where
  "boot_disk J = \<lparr>d_image = J, d_trace = [], d_io = []\<rparr>"

lemma disk_open_boot: "disk_open J [] = Some (boot_disk J)"
  by (simp add: disk_open_def disk_call_def boot_disk_def)

lemma boot_rep:
  assumes "length J \<le> 2 ^ 20" and "\<forall>b \<in> set J. length b = BSIZE"
  shows "cache_rep (binit_cache (boot_disk J)) (\<lambda>b. J ! unat b) (\<lambda>_. 0) (\<lambda>_. False) J []"
proof -
  let ?c = "binit_cache (boot_disk J)"
  have bn: "bc_bufs ?c ! i = empty_buf" if "i < NBUF" for i using that by (simp add: binit_cache_def)
  have "cache_ok ?c"
  proof -
    have "distinct (bc_lru ?c)" "set (bc_lru ?c) = {..<NBUF}" "length (bc_bufs ?c) = NBUF" by (auto simp: binit_cache_def)
    moreover have "disk_ok (bc_disk ?c)" using assms by (simp add: disk_ok_def binit_cache_def boot_disk_def)
    moreover have "buf_ok (d_image (bc_disk ?c)) (bc_bufs ?c ! i)" if "i < NBUF" for i
      using bn [OF that] by (simp add: buf_ok_def empty_buf_def)
    moreover have "unique_blocks (bc_bufs ?c)" using bn by (simp add: unique_blocks_def empty_buf_def)
    ultimately show ?thesis by (simp add: cache_ok_def)
  qed
  moreover have s: "bc_bufs ?c ! i = empty_buf" if "slot ?c b = Some i" for i b using slot_SomeD [OF that] bn by simp
  have "content ?c b = J ! unat b" "refs ?c b = 0" "\<not> held ?c b" for b
    using s [of b] by (auto simp: content_def refs_def held_def empty_buf_def binit_cache_def boot_disk_def split: option.split)
  ultimately show ?thesis by (auto simp: cache_rep_def fun_eq_iff binit_cache_def boot_disk_def)
qed

text \<open>The log as the superblock describes it.\<close>

definition sb_log :: "superblock \<Rightarrow> fs_log" where
  "sb_log sb = zero_log\<lparr>lg_start := sint (sb_logstart sb), lg_size := sint (sb_nlog sb)\<rparr>"

lemma fs_start_eq:
  assumes "1 < length J" and "length J \<le> 2 ^ 20" and "\<forall>b \<in> set J. length b = BSIZE"
    and "sb_magic (read_sb (J ! 1)) = FSMAGIC"
  shows "fs_start (boot_disk J) = map_option (Pair (read_sb (J ! 1)))
    (recover_from_log \<lparr>fs_cache = binit_cache (boot_disk J), fs_log = sb_log (read_sb (J ! 1))\<rparr>)"
proof -
  have "disk_read 1 (boot_disk J) = Some (Some (J ! 1), boot_disk J)"
    using disk_read_ok [of "boot_disk J" 1] assms by (simp add: boot_disk_def disk_ok_def)
  then show ?thesis
    using assms(4) by (simp add: fs_start_def Let_def loginit_def upd_log_def sb_log_def zero_log_def map_conv_bind_option comp_def)
qed

section \<open>Recovery\<close>

text \<open>The cache after a recovery that installed \<open>bs\<close>: their buffers were unpinned without having been pinned.\<close>

definition recovered_rep :: "bcache \<Rightarrow> u32 list \<Rightarrow> bool" where
  "recovered_rep c bs \<longleftrightarrow> cache_rep c (\<lambda>b. d_image (bc_disk c) ! unat b) (\<lambda>b. if b \<in> set bs then -1 else 0) (\<lambda>_. False)
     (d_image (bc_disk c)) (d_trace (bc_disk c))"

lemma recover_empty:
  assumes g: "geometry l (length J)" and rep: "cache_rep c (\<lambda>b. J ! unat b) (\<lambda>_. 0) (\<lambda>_. False) J T"
    and n: "head_n (J ! unat (lb l 0)) = 0" and l: "lg_n l = 0"
  shows "\<exists>c'. recover_from_log \<lparr>fs_cache = c, fs_log = l\<rparr> = Some \<lparr>fs_cache = c', fs_log = l\<rparr> \<and>
    cache_rep c' (\<lambda>b. J ! unat b) (\<lambda>_. 0) (\<lambda>_. False) J T"
proof -
  let ?s = "\<lparr>fs_cache = c, fs_log = l\<rparr>"
  have "int 0 < lg_size l" "lg_dev l = 0" using g by (auto simp: geometry_def)
  note u = unat_lb [OF g this(1)]
  have "\<exists>c'. read_head ?s = Some (upd_log (\<lambda>l. l\<lparr>lg_n := int 0, lg_block := map (head_block (J ! unat (lb l 0))) [0..<0] @ drop 0 (lg_block l)\<rparr>) (upd_cache ?s c')) \<and>
     cache_rep c' (\<lambda>b. J ! unat b) (\<lambda>_. 0) (\<lambda>_. False) J T"
    using read_head_rep [of ?s "\<lambda>b. J ! unat b" "\<lambda>_. 0" J T "lb l 0" 0] rep u n \<open>lg_dev l = 0\<close> by (simp add: NBUF_def)
  then show ?thesis using l by (auto simp: recover_from_log_def upd_log_def upd_cache_def)
qed

lemma recover_logged:
  assumes g: "geometry l (length J)" and rep: "cache_rep c (\<lambda>b. J ! unat b) (\<lambda>_. 0) (\<lambda>_. False) J T"
    and n: "head_n (J ! unat (lb l 0)) = int (length bs)" "bs \<noteq> []"
    and bs: "\<forall>i < length bs. head_block (J ! unat (lb l 0)) i = bs ! i" "int (length bs) < lg_size l" "distinct bs" "\<forall>b \<in> set bs. data_block l (length J) b"
    and src: "\<forall>i < length bs. J ! unat (lb l (Suc i)) = W (bs ! i)"
  shows "\<exists>c' l' hb. recover_from_log \<lparr>fs_cache = c, fs_log = l\<rparr> = Some \<lparr>fs_cache = c', fs_log = l'\<rparr> \<and> lg_n l' = 0 \<and>
    d_image (bc_disk c') = (put_blocks J (home_writes W bs (length bs)))[unat (lb l 0) := hb] \<and>
    recovered_rep c' bs \<and> head_n hb = 0"
proof -
  let ?n = "length bs" and ?h = "lb l 0"
  let ?s = "\<lparr>fs_cache = c, fs_log = l\<rparr>"
  have g0: "int 0 < lg_size l" "lg_dev l = 0" using g by (auto simp: geometry_def)
  note u = unat_lb [OF g g0(1)]
  define l1 where "l1 = l\<lparr>lg_n := int ?n, lg_block := bs @ drop ?n (lg_block l)\<rparr>"
  have nL: "?n \<le> LOGSIZE - 1" using g bs(2) by (auto simp: geometry_def LOGSIZE_def)
  have mb: "map (head_block (J ! unat ?h)) [0..<?n] = bs" using bs(1) by (auto intro: nth_equalityI)
  have lb1: "lb l1 k = lb l k" for k by (simp add: l1_def lb_def)
  have g1: "geometry l1 (length J)" using g nL by (simp add: geometry_def l1_def)
  have lg: "logged l1 bs (length J)" using g1 bs(2,3,4) by (simp add: logged_def l1_def data_block_def)
  obtain c1 where c1: "read_head ?s = Some \<lparr>fs_cache = c1, fs_log = l1\<rparr>" "cache_rep c1 (\<lambda>b. J ! unat b) (\<lambda>_. 0) (\<lambda>_. False) J T"
    using read_head_rep [of ?s "\<lambda>b. J ! unat b" "\<lambda>_. 0" J T "lb l 0" ?n] rep u n(1) g0(2) nL
    by (auto simp: NBUF_def mb upd_log_def upd_cache_def l1_def)
  let ?s1 = "\<lparr>fs_cache = c1, fs_log = l1\<rparr>" and ?J = "put_blocks J (home_writes W bs ?n)"
  have v: "view {} W J = (\<lambda>b. J ! unat b)" by (simp add: view_def fun_eq_iff)
  have card: "card {x. unpinned (\<lambda>_. 0) bs t x \<noteq> 0} \<le> t" for t
  proof -
    have "{x. unpinned (\<lambda>_. 0) bs t x \<noteq> 0} = set (take t bs)" by (auto simp: unpinned_def)
    then show ?thesis using card_length [of "take t bs"] by simp
  qed
  have cn: "card {x. unpinned (\<lambda>_. 0) bs t x \<noteq> 0} + 1 < NBUF" if "t < ?n" for t
    using card [of t] that nL by (simp add: NBUF_def LOGSIZE_def)
  obtain c2 where c2: "install_trans ?s1 = Some (upd_cache ?s1 c2)" "cache_rep c2 (view {} W ?J) (unpinned (\<lambda>_. 0) bs ?n) (\<lambda>_. False) ?J (T @ home_writes W bs ?n)"
    using install_trans_rep [of ?s1 bs J "{}" W "\<lambda>_. 0" T] lg c1(2) src cn by (fastforce simp: v lb1)
  let ?s2 = "upd_log (\<lambda>l. l\<lparr>lg_n := 0\<rparr>) (upd_cache ?s1 c2)"
  let ?hb = "head_bytes 0 (bs @ drop ?n (lg_block l)) (view {} W ?J ?h)"
  have hh: "length (view {} W ?J ?h) = BSIZE" using block_length [OF c2(2), of "unat ?h"] u(3) by (simp add: view_def)
  note hb = head_codec [of 0, OF _ _ hh, simplified]
  have unh: "unpinned (\<lambda>_. 0) bs ?n ?h = 0" using u(4) bs(4) by (auto simp: unpinned_def)
  have "\<exists>c3. write_head ?s2 = Some (upd_cache ?s2 c3) \<and> cache_rep c3 ((view {} W ?J)(?h := ?hb)) (unpinned (\<lambda>_. 0) bs ?n) (\<lambda>_. False) (?J[unat ?h := ?hb])
      ((T @ home_writes W bs ?n) @ [(unat ?h, ?hb)])"
    by (rule write_head_rep)
      (use c2(2) g0 u unh hb card [of ?n] nL in \<open>simp_all add: upd_log_def upd_cache_def l1_def lb_def NBUF_def LOGSIZE_def\<close>)
  then obtain c3 where c3: "write_head ?s2 = Some (upd_cache ?s2 c3)" "cache_rep c3 ((view {} W ?J)(?h := ?hb)) (unpinned (\<lambda>_. 0) bs ?n) (\<lambda>_. False) (?J[unat ?h := ?hb])
      ((T @ home_writes W bs ?n) @ [(unat ?h, ?hb)])" by blast
  have d3: "d_image (bc_disk c3) = ?J[unat ?h := ?hb]" "d_trace (bc_disk c3) = (T @ home_writes W bs ?n) @ [(unat ?h, ?hb)]"
    using c3(2) by (auto simp: cache_rep_def)
  have "(view {} W ?J)(?h := ?hb) = (\<lambda>b. ?J[unat ?h := ?hb] ! unat b)" using u(3) by (simp add: view_update_out) (simp add: view_def fun_eq_iff)
  moreover have "unpinned (\<lambda>_. 0) bs ?n = (\<lambda>b. if b \<in> set bs then -1 else 0)" by (auto simp: unpinned_def)
  ultimately have "recovered_rep c3 bs" using c3(2) by (simp add: recovered_rep_def d3)
  moreover have "recover_from_log ?s = Some \<lparr>fs_cache = c3, fs_log = l1\<lparr>lg_n := 0\<rparr>\<rparr>"
    using c1(1) c2(1) c3(1) n(2) by (simp add: recover_from_log_def upd_log_def upd_cache_def l1_def)
  ultimately show ?thesis using hb(1) d3(1) by auto
qed

section \<open>A crash during a commit\<close>

lemma put_blocks_lengths:
  "\<forall>b \<in> set I. length b = BSIZE \<Longrightarrow> \<forall>(p, d) \<in> set ws. length d = BSIZE \<Longrightarrow> \<forall>b \<in> set (put_blocks I ws). length b = BSIZE"
proof (induction ws arbitrary: I)
  case (Cons w ws)
  obtain p d where "w = (p, d)" by (cases w)
  then show ?case using Cons set_update_subset_insert [of I p d] by auto
qed simp

lemma take_log_writes: "k \<le> n \<Longrightarrow> take k (log_writes l V bs n) = log_writes l V bs k"
  by (simp add: log_writes_def take_map take_upt)

lemma take_home_writes: "k \<le> n \<Longrightarrow> take k (home_writes V bs n) = home_writes V bs k"
  by (simp add: home_writes_def take_map take_upt)

lemma length_writes [simp]: "length (log_writes l V bs n) = n" "length (home_writes V bs n) = n"
  by (simp_all add: log_writes_def home_writes_def)

text \<open>The image after the first \<open>k\<close> writes of a commit: before the header is written, while the blocks are
  installed, and at the end.\<close>

lemma commit_prefix_cases:
  obtains (log) "k \<le> length bs" "take k (commit_writes l V bs I) = log_writes l V bs k"
  | (install) j where "k = length bs + 1 + j" "j \<le> length bs"
      "take k (commit_writes l V bs I) = log_writes l V bs (length bs) @ (unat (lb l 0), log_head l I) # home_writes V bs j"
  | (all) "length bs < k" "take k (commit_writes l V bs I) = commit_writes l V bs I"
proof -
  consider "k \<le> length bs" | j where "k = length bs + 1 + j" "j \<le> length bs" | "2 * length bs + 2 \<le> k"
  proof -
    have "k \<le> length bs \<or> (\<exists>j \<le> length bs. k = length bs + 1 + j) \<or> 2 * length bs + 2 \<le> k" by presburger
    then show thesis using that by blast
  qed
  then show thesis
  proof cases
    case 1
    then show thesis by (intro log) (simp_all add: commit_writes_def take_log_writes)
  next
    case (2 j)
    then show thesis by (intro install [of j]) (simp_all add: commit_writes_def take_home_writes)
  next
    case 3
    then show thesis by (intro all) (simp_all add: commit_writes_def)
  qed
qed

lemma home_writes_nth:
  assumes l: "logged l bs n" and b: "data_block l n b" and len: "length I = n"
  shows "put_blocks I (home_writes V bs (length bs)) ! unat b = view (set bs) V I b"
proof (cases "b \<in> set bs")
  case True
  then obtain i where i: "i < length bs" "bs ! i = b" by (auto simp: in_set_conv_nth)
  then have "(unat b, V b) \<in> set (home_writes V bs (length bs))" by (auto simp: home_writes_def)
  then show ?thesis using put_blocks_nth [OF home_writes_fst(2) [OF l order_refl]] True b len by (simp add: view_def data_block_def)
next
  case False
  then have "unat b \<notin> fst ` set (home_writes V bs (length bs))" using home_writes_fst(1) [OF l order_refl, of V] by (auto simp: unat_eq_iff_eq)
  then show ?thesis using False by (simp add: view_def put_blocks_other)
qed

lemma home_writes_log:
  assumes l: "logged l bs n" and "int k < lg_size l" and "t \<le> length bs"
  shows "put_blocks I (home_writes V bs t) ! unat (lb l k) = I ! unat (lb l k)"
  using home_writes_fst(1) [OF l assms(3), of V] home_writes_fst(3) [OF l assms(3,2)] by (intro put_blocks_other) blast

lemma log_writes_data:
  assumes "logged l bs n" and "data_block l n b" and "t \<le> length bs"
  shows "put_blocks I (log_writes l V bs t) ! unat b = I ! unat b"
  using log_writes_fst(2) [OF assms(1,3,2)] by (intro put_blocks_other)

lemma data_not_head:
  assumes "logged l bs n" and "data_block l n b"
  shows "unat b \<noteq> unat (lb l 0)"
  using unat_lb(4) [OF loggedD(1) [OF assms(1)], of 0] loggedD(3) [OF assms(1)] assms(2) by (auto simp: unat_eq_iff_eq)

text \<open>What the log and the disk have to satisfy; \<open>bs\<close> are the logged blocks.\<close>

definition log_disk :: "fs_log \<Rightarrow> u32 list \<Rightarrow> bytes list \<Rightarrow> bool" where
  "log_disk l bs I \<longleftrightarrow> logged l bs (length I) \<and> head_n (I ! unat (lb l 0)) = 0 \<and> data_block l (length I) 1 \<and> 1 \<notin> set bs \<and>
     (\<forall>b \<in> set I. length b = BSIZE) \<and> sb_magic (read_sb (I ! 1)) = FSMAGIC \<and>
     lg_start l = sint (sb_logstart (read_sb (I ! 1))) \<and> lg_size l = sint (sb_nlog (read_sb (I ! 1)))"

lemma log_diskD:
  assumes "log_disk l bs I"
  shows "logged l bs (length I)" "head_n (I ! unat (lb l 0)) = 0" "data_block l (length I) 1" "1 \<notin> set bs" "\<forall>b \<in> set I. length b = BSIZE"
    "1 < length I" "length I \<le> 2 ^ 20" "geometry l (length I)"
  using assms by (auto simp: log_disk_def data_block_def logged_def geometry_def)

text \<open>Starting on an image whose superblock is that of \<open>I\<close>.\<close>

lemma start_boot:
  assumes d: "log_disk l bs I" and J: "length J = length I" "\<forall>b \<in> set J. length b = BSIZE" "J ! 1 = I ! 1"
  defines "l' \<equiv> sb_log (read_sb (I ! 1))"
  shows "geometry l' (length J)" "lg_n l' = 0" "\<And>k. lb l' k = lb l k" "\<And>n b. data_block l' n b = data_block l n b" "lg_size l' = lg_size l"
    "\<And>s. recover_from_log \<lparr>fs_cache = binit_cache (boot_disk J), fs_log = l'\<rparr> = Some s \<Longrightarrow> fs_start (boot_disk J) = Some (read_sb (I ! 1), s)"
    "cache_rep (binit_cache (boot_disk J)) (\<lambda>b. J ! unat b) (\<lambda>_. 0) (\<lambda>_. False) J []"
proof -
  note D = log_diskD [OF d]
  have st: "lg_start l' = lg_start l" "lg_size l' = lg_size l" using d by (simp_all add: log_disk_def sb_log_def l'_def)
  then show "geometry l' (length J)" using D(8) J(1) by (simp add: geometry_def) (simp add: sb_log_def zero_log_def l'_def)
  show "lg_n l' = 0" by (simp add: sb_log_def zero_log_def l'_def)
  show "lb l' k = lb l k" "data_block l' n b = data_block l n b" "lg_size l' = lg_size l" for k n b using st by (simp_all add: lb_def data_block_def)
  show "fs_start (boot_disk J) = Some (read_sb (I ! 1), s)"
    if "recover_from_log \<lparr>fs_cache = binit_cache (boot_disk J), fs_log = l'\<rparr> = Some s" for s
    using fs_start_eq [of J] that J D(6,7) d by (simp add: log_disk_def l'_def)
  show "cache_rep (binit_cache (boot_disk J)) (\<lambda>b. J ! unat b) (\<lambda>_. 0) (\<lambda>_. False) J []" using boot_rep J D(7) by simp
qed

text \<open>An image with an empty log is kept, one with a committed log is completed.\<close>

lemma start_empty:
  assumes d: "log_disk l bs I" and J: "length J = length I" "\<forall>b \<in> set J. length b = BSIZE" "J ! 1 = I ! 1"
    and h: "head_n (J ! unat (lb l 0)) = 0"
  shows "\<exists>s. fs_start (boot_disk J) = Some (read_sb (I ! 1), s) \<and> d_image (bc_disk (fs_cache s)) = J \<and>
    cache_rep (fs_cache s) (\<lambda>b. J ! unat b) (\<lambda>_. 0) (\<lambda>_. False) J [] \<and> fs_log s = sb_log (read_sb (I ! 1))"
proof -
  let ?l = "sb_log (read_sb (I ! 1))"
  note l' = start_boot [OF d J]
  show ?thesis using recover_empty [OF l'(1,7)] h l'(2,3,6) by (fastforce simp: cache_rep_def)
qed

lemma start_committed:
  assumes d: "log_disk l bs I" and J: "length J = length I" "\<forall>b \<in> set J. length b = BSIZE" "J ! 1 = I ! 1"
    and h: "J ! unat (lb l 0) = log_head l I" "bs \<noteq> []" and src: "\<forall>i < length bs. J ! unat (lb l (Suc i)) = V (bs ! i)"
  shows "\<exists>s. fs_start (boot_disk J) = Some (read_sb (I ! 1), s) \<and>
    (\<forall>b. data_block l (length I) b \<longrightarrow> d_image (bc_disk (fs_cache s)) ! unat b = view (set bs) V J b) \<and>
    recovered_rep (fs_cache s) bs \<and> length (d_image (bc_disk (fs_cache s))) = length I"
proof -
  note D = log_diskD [OF d]
  note L = loggedD [OF D(1)]
  let ?l = "sb_log (read_sb (I ! 1))"
  note l' = start_boot [OF d J]
  have n: "int (length bs) \<le> int LOGSIZE" "length bs \<le> length (lg_block l)" using L(1,6) by (auto simp: geometry_def)
  have "length (I ! unat (lb l 0)) = BSIZE" using D(5) logged_lb(2) [OF D(1) le0] by simp
  note hc = head_codec [OF n this]
  have head: "head_n (J ! unat (lb ?l 0)) = int (length bs)" "\<forall>i < length bs. head_block (J ! unat (lb ?l 0)) i = bs ! i"
    unfolding l'(3) h(1) log_head_def using hc L(2,8) by simp_all
  have side: "int (length bs) < lg_size ?l" "\<forall>b \<in> set bs. data_block ?l (length J) b" "\<forall>i < length bs. J ! unat (lb ?l (Suc i)) = V (bs ! i)"
    unfolding l'(3,4,5) using D(1) J(1) src by (auto simp: logged_def)
  obtain c l2 hb where r: "recover_from_log \<lparr>fs_cache = binit_cache (boot_disk J), fs_log = ?l\<rparr> = Some \<lparr>fs_cache = c, fs_log = l2\<rparr>"
    "d_image (bc_disk c) = (put_blocks J (home_writes V bs (length bs)))[unat (lb ?l 0) := hb]"
    "recovered_rep c bs"
    using recover_logged [OF l'(1,7) head(1) h(2) head(2) side(1) L(4) side(2,3)] by blast
  have "d_image (bc_disk c) ! unat b = view (set bs) V J b" if "data_block l (length I) b" for b
    unfolding r(2) l'(3) using home_writes_nth [OF D(1) that J(1), of V] data_not_head [OF D(1) that] by simp
  moreover have "length (d_image (bc_disk c)) = length I" using r(2) J(1) by simp
  ultimately show ?thesis using l'(6) [OF r(1)] r(3) by auto
qed

section \<open>Atomic transactions\<close>

text \<open>The image after the first writes of a commit: its superblock, and what the data blocks hold.\<close>

lemma prefix_image:
  assumes d: "log_disk l bs I" and V: "\<forall>b \<in> set bs. length (V b) = BSIZE"
  shows "\<forall>x \<in> set (put_blocks I (take k (commit_writes l V bs I))). length x = BSIZE"
    and "put_blocks I (take k (commit_writes l V bs I)) ! 1 = I ! 1"
proof -
  note D = log_diskD [OF d]
  note L = loggedD [OF D(1)]
  have h: "length (I ! unat (lb l 0)) = BSIZE" using D(5) logged_lb(2) [OF D(1) le0] by simp
  have n: "int (length bs) \<le> int LOGSIZE" "length bs \<le> length (lg_block l)" using L(1,6) by (auto simp: geometry_def)
  have hl: "length (log_head l I) = BSIZE" unfolding log_head_def L(2) using head_codec(3) [OF n h] .
  have cl: "length (clear_head l I) = BSIZE" unfolding clear_head_def using head_codec(3) [of 0 "lg_block l", OF _ _ hl] by simp
  have "\<forall>(p, d) \<in> set (commit_writes l V bs I). length d = BSIZE"
    using V hl cl by (auto simp: commit_writes_def log_writes_def home_writes_def)
  then have "\<forall>(p, d) \<in> set (take k (commit_writes l V bs I)). length d = BSIZE" by (auto dest: in_set_takeD)
  then show "\<forall>x \<in> set (put_blocks I (take k (commit_writes l V bs I))). length x = BSIZE" using put_blocks_lengths [OF D(5)] by blast
  have u1: "unat (1 :: u32) = 1" by simp
  have "1 \<notin> fst ` set (log_writes l V bs (length bs))" using log_writes_fst(2) [OF D(1) order_refl D(3), of V] by simp
  moreover have "1 \<notin> fst ` set (home_writes V bs (length bs))"
    using home_writes_fst(1) [OF D(1) order_refl, of V] D(4) u1 unat_eq_iff_eq by (metis imageE subsetD)
  moreover have "1 \<noteq> unat (lb l 0)" using data_not_head [OF D(1,3)] by simp
  ultimately have "1 \<notin> fst ` set (commit_writes l V bs I)" by (auto simp: commit_writes_def)
  then have "1 \<notin> fst ` set (take k (commit_writes l V bs I))" by (meson image_mono set_take_subset subsetD)
  then show "put_blocks I (take k (commit_writes l V bs I)) ! 1 = I ! 1" by (rule put_blocks_other)
qed

lemma log_region:
  fixes V :: "u32 \<Rightarrow> bytes" and hb :: bytes
  assumes l: "logged l bs (length I)" and j: "j \<le> length bs"
  defines "J \<equiv> put_blocks ((put_blocks I (log_writes l V bs (length bs)))[unat (lb l 0) := hb]) (home_writes V bs j)"
  shows "J ! unat (lb l 0) = hb" and "i < length bs \<Longrightarrow> J ! unat (lb l (Suc i)) = V (bs ! i)"
    and "data_block l (length I) b \<Longrightarrow> view (set bs) V J b = view (set bs) V I b"
proof -
  let ?w = "log_writes l V bs (length bs)"
  note L = loggedD [OF l]
  show "J ! unat (lb l 0) = hb" using home_writes_log [OF l _ j, of 0] L(3) logged_lb(2) [OF l le0] by (simp add: J_def)
  show "J ! unat (lb l (Suc i)) = V (bs ! i)" if i: "i < length bs"
  proof -
    have "(unat (lb l (Suc i)), V (bs ! i)) \<in> set ?w" using i by (auto simp: log_writes_def)
    then have "put_blocks I ?w ! unat (lb l (Suc i)) = V (bs ! i)" "unat (lb l (Suc i)) \<noteq> unat (lb l 0)"
      using put_blocks_nth [OF log_writes_fst(3) [OF l order_refl]] log_writes_fst(1) [OF l order_refl, of V] logged_lb(2) [OF l, of "Suc i"] i
      by (auto simp: image_iff)
    then show ?thesis using home_writes_log [OF l _ j, of "Suc i"] L(3) i by (simp add: J_def)
  qed
  show "view (set bs) V J b = view (set bs) V I b" if b: "data_block l (length I) b"
  proof (cases "b \<in> set bs")
    case False
    then have "unat b \<notin> fst ` set (home_writes V bs j)" using home_writes_fst(1) [OF l j, of V] by (auto simp: unat_eq_iff_eq)
    then show ?thesis using False data_not_head [OF l b] log_writes_data [OF l b order_refl] by (simp add: view_def J_def put_blocks_other)
  qed (simp add: view_def)
qed

lemma clear_head_n:
  assumes "log_disk l bs I" shows "head_n (clear_head l I) = 0"
proof -
  note D = log_diskD [OF assms]
  have "length (log_head l I) = BSIZE" unfolding log_head_def loggedD(2) [OF D(1)]
    using head_codec(3) [of "length bs" "lg_block l" "I ! unat (lb l 0)"] loggedD(1,6) [OF D(1)] D(5) logged_lb(2) [OF D(1) le0] by (simp add: geometry_def)
  then show ?thesis using head_codec(1) [of 0 "lg_block l"] by (simp add: clear_head_def)
qed

text \<open>All writes together put the new contents in place and clear the header.\<close>

lemma commit_image:
  fixes V :: "u32 \<Rightarrow> bytes"
  assumes d: "log_disk l bs I"
  defines "J \<equiv> put_blocks I (commit_writes l V bs I)"
  shows "head_n (J ! unat (lb l 0)) = 0" and "data_block l (length I) b \<Longrightarrow> J ! unat b = view (set bs) V I b"
proof -
  note D = log_diskD [OF d]
  let ?J = "put_blocks ((put_blocks I (log_writes l V bs (length bs)))[unat (lb l 0) := log_head l I]) (home_writes V bs (length bs))"
  have J: "J = ?J[unat (lb l 0) := clear_head l I]" by (simp add: J_def commit_writes_def)
  show "head_n (J ! unat (lb l 0)) = 0" unfolding J using clear_head_n [OF d] logged_lb(2) [OF D(1) le0] by simp
  show "J ! unat b = view (set bs) V I b" if b: "data_block l (length I) b"
  proof -
    have "?J ! unat b = view (set bs) V ((put_blocks I (log_writes l V bs (length bs)))[unat (lb l 0) := log_head l I]) b"
      using b by (intro home_writes_nth [OF D(1)]) simp_all
    then show ?thesis unfolding J using data_not_head [OF D(1) b] log_writes_data [OF D(1) b order_refl, of I V] by (simp add: view_def)
  qed
qed

lemma crash_recovery:
  assumes d: "log_disk l bs I" and V: "\<forall>b \<in> set bs. length (V b) = BSIZE" and ne: "bs \<noteq> []"
  shows "\<exists>s. fs_start (boot_disk (put_blocks I (take k (commit_writes l V bs I)))) = Some (read_sb (I ! 1), s) \<and>
    (\<forall>b. data_block l (length I) b \<longrightarrow> d_image (bc_disk (fs_cache s)) ! unat b = (if k \<le> length bs then I ! unat b else view (set bs) V I b))"
proof -
  let ?J = "put_blocks I (take k (commit_writes l V bs I))"
  note D = log_diskD [OF d]
  note P = prefix_image [OF d V, of k]
  have len: "length ?J = length I" by simp
  show ?thesis
  proof (cases rule: commit_prefix_cases [of k bs l V I])
    case log
    have "head_n (?J ! unat (lb l 0)) = 0" using D(2) log log_writes_fst(1) [OF D(1), of k V] by (simp add: put_blocks_other)
    then show ?thesis using start_empty [OF d len P] log log_writes_data [OF D(1)] by auto
  next
    case (install j)
    have J: "?J = put_blocks ((put_blocks I (log_writes l V bs (length bs)))[unat (lb l 0) := log_head l I]) (home_writes V bs j)"
      using install(3) by simp
    note R = log_region [OF D(1) install(2), where V = V and hb = "log_head l I", folded J]
    have "\<forall>i < length bs. ?J ! unat (lb l (Suc i)) = V (bs ! i)" using R(2) by blast
    from start_committed [OF d len P R(1) ne this] show ?thesis using R(3) install(1) by auto
  next
    case all
    show ?thesis using start_empty [OF d len P] all commit_image [OF d, where V = V] by auto
  qed
qed

end
