(* ===== verification/FS_Tx.thy ===== *)
theory FS_Tx
  imports FS_Recovery
begin

text \<open>
  Transactions of the file system: between \<open>begin_op\<close> and \<open>end_op\<close> blocks are read, changed in the cache and
  handed to \<open>log_write\<close>. \<open>fs_inv s bs\<close> holds at every point between two block operations; \<open>bs\<close> are the
  blocks logged so far.
\<close>

definition img :: "fs_state \<Rightarrow> bytes list" where
  "img s = d_image (bc_disk (fs_cache s))"

definition writes :: "fs_state \<Rightarrow> (nat \<times> bytes) list" where
  "writes s = d_trace (bc_disk (fs_cache s))"

definition fs_content :: "fs_state \<Rightarrow> u32 \<Rightarrow> bytes" where
  "fs_content s = content (fs_cache s)"

definition fs_inv :: "fs_state \<Rightarrow> u32 list \<Rightarrow> bool" where
  "fs_inv s bs \<longleftrightarrow> cache_ok (fs_cache s) \<and> refs (fs_cache s) = pins bs \<and> held (fs_cache s) = (\<lambda>_. False) \<and>
     log_disk (fs_log s) bs (img s)"

definition fs_data :: "fs_state \<Rightarrow> u32 \<Rightarrow> bool" where
  "fs_data s b \<longleftrightarrow> data_block (fs_log s) (length (img s)) b"

lemma fs_invD:
  assumes "fs_inv s bs"
  shows "cache_rep (fs_cache s) (fs_content s) (pins bs) (\<lambda>_. False) (img s) (writes s)" and "log_disk (fs_log s) bs (img s)"
    and "fs_content s = view (set bs) (fs_content s) (img s)"
proof -
  show 1: "cache_rep (fs_cache s) (fs_content s) (pins bs) (\<lambda>_. False) (img s) (writes s)" "log_disk (fs_log s) bs (img s)"
    using assms by (simp_all add: fs_inv_def cache_rep_def fs_content_def img_def writes_def)
  show "fs_content s = view (set bs) (fs_content s) (img s)" by (rule view_used [OF 1(1)]) (simp add: pins_def)
qed

lemma fs_invI:
  assumes "cache_rep (fs_cache s) V (pins bs) (\<lambda>_. False) I T" and "log_disk (fs_log s) bs I"
  shows "fs_inv s bs" "fs_content s = V" "img s = I" "writes s = T"
  using assms by (simp_all add: fs_inv_def cache_rep_def fs_content_def img_def writes_def)

lemma fs_content_length: "fs_inv s bs \<Longrightarrow> unat b < length (img s) \<Longrightarrow> length (fs_content s b) = BSIZE"
  using content_length [of "fs_cache s" b] by (simp add: fs_inv_def fs_content_def img_def)

section \<open>Commit\<close>

lemma commit_inv:
  assumes inv: "fs_inv s bs" and ne: "bs \<noteq> []"
  shows "\<exists>s' ws. commit s = Some s' \<and> fs_inv s' [] \<and> fs_log s' = (fs_log s)\<lparr>lg_n := 0\<rparr> \<and> img s' = put_blocks (img s) ws \<and> writes s' = writes s @ ws \<and>
    (\<forall>b. fs_data s b \<longrightarrow> img s' ! unat b = fs_content s b) \<and>
    (\<forall>k. \<exists>sb s2. fs_start (boot_disk (put_blocks (img s) (take k ws))) = Some (sb, s2) \<and>
       (\<forall>b. fs_data s b \<longrightarrow> img s2 ! unat b = (if k \<le> length bs then img s ! unat b else fs_content s b)))"
proof -
  let ?V = "fs_content s" and ?l = "fs_log s"
  let ?ws = "commit_writes ?l ?V bs (img s)"
  let ?J = "put_blocks (img s) ?ws"
  note F = fs_invD [OF inv]
  note D = log_diskD [OF F(2)]
  have V: "\<forall>b \<in> set bs. length (?V b) = BSIZE" using D(1) fs_content_length [OF inv] by (auto simp: logged_def data_block_def)
  have view: "view (set bs) ?V (img s) = ?V" using F(3) by simp
  obtain c where c: "commit s = Some (upd_log (\<lambda>l. l\<lparr>lg_n := 0\<rparr>) (upd_cache s c))"
    "cache_rep c (\<lambda>b. ?J ! unat b) (\<lambda>_. 0) (\<lambda>_. False) ?J (writes s @ ?ws)"
    using commit_rep [OF D(1) ne, of ?V "writes s"] F(1) by (auto simp: Let_def view)
  let ?s = "upd_log (\<lambda>l. l\<lparr>lg_n := 0\<rparr>) (upd_cache s c)"
  have lg: "fs_log ?s = ?l\<lparr>lg_n := 0\<rparr>" "fs_cache ?s = c" by (simp_all add: upd_log_def upd_cache_def)
  have crash: "\<exists>s2. fs_start (boot_disk (put_blocks (img s) (take k ?ws))) = Some (read_sb (img s ! 1), s2) \<and>
       (\<forall>b. fs_data s b \<longrightarrow> img s2 ! unat b = (if k \<le> length bs then img s ! unat b else ?V b))" for k
    using crash_recovery [OF F(2) V ne, of k] unfolding view fs_data_def img_def [symmetric] by blast
  note P = prefix_image [OF F(2) V, of "length ?ws"]
  have l0: "lb (?l\<lparr>lg_n := 0\<rparr>) k = lb ?l k" "data_block (?l\<lparr>lg_n := 0\<rparr>) n b = data_block ?l n b" for k n b by (simp_all add: lb_def data_block_def)
  have "log_disk (?l\<lparr>lg_n := 0\<rparr>) [] ?J"
    using P commit_image(1) [OF F(2), of ?V] D(3,8) F(2) unfolding log_disk_def logged_def l0 by (simp add: geometry_def)
  moreover have "(\<lambda>_. 0) = pins []" by (simp add: pins_def fun_eq_iff)
  ultimately have I: "fs_inv ?s []" "img ?s = ?J" "writes ?s = writes s @ ?ws" using fs_invI [of ?s] c(2) lg by auto
  have "img ?s ! unat b = ?V b" if "fs_data s b" for b
    using commit_image(2) [OF F(2), of b ?V] that by (simp add: view fs_data_def I(2))
  then show ?thesis using c(1) I lg(1) crash by blast
qed

text \<open>The last operation ends: the transaction is committed.\<close>

lemma end_op_inv:
  assumes inv: "fs_inv s bs" and out: "lg_outstanding (fs_log s) = 1"
  shows "\<exists>s' ws. end_op s = Some s' \<and> fs_inv s' [] \<and> lg_outstanding (fs_log s') = 0 \<and> \<not> lg_committing (fs_log s') \<and>
    lg_size (fs_log s') = lg_size (fs_log s) \<and> lg_start (fs_log s') = lg_start (fs_log s) \<and>
    img s' = put_blocks (img s) ws \<and> writes s' = writes s @ ws \<and> (\<forall>b. fs_data s b \<longrightarrow> img s' ! unat b = fs_content s b) \<and>
    (\<forall>k. \<exists>sb s2. fs_start (boot_disk (put_blocks (img s) (take k ws))) = Some (sb, s2) \<and>
       (\<forall>b. fs_data s b \<longrightarrow> img s2 ! unat b = (if k \<le> length bs then img s ! unat b else fs_content s b)))"
proof -
  let ?s = "upd_log (\<lambda>l. l\<lparr>lg_outstanding := lg_outstanding l - 1, lg_committing := True\<rparr>) s"
  let ?stop = "upd_log (\<lambda>l. l\<lparr>lg_committing := False\<rparr>)"
  have lk: "log_disk (l\<lparr>lg_outstanding := x, lg_committing := y\<rparr>) bs I = log_disk l bs I"
    "log_disk (l\<lparr>lg_committing := y\<rparr>) bs I = log_disk l bs I" "log_disk (l\<lparr>lg_outstanding := x\<rparr>) bs I = log_disk l bs I" for l bs I x y
    by (simp_all add: log_disk_def logged_def geometry_def data_block_def lb_def)
  have e: "end_op s = map_option ?stop (commit ?s)"
    using out by (simp add: end_op_def Let_def upd_log_def map_conv_bind_option comp_def)
  have same: "img ?s = img s" "writes ?s = writes s" "fs_content ?s = fs_content s" "fs_data ?s = fs_data s" "fs_inv ?s bs"
    using inv by (simp_all add: img_def writes_def fs_content_def fs_data_def fun_eq_iff fs_inv_def upd_log_def lk data_block_def)
  have fin: "img (?stop t) = img t" "writes (?stop t) = writes t" "fs_inv (?stop t) [] = fs_inv t []" for t
    by (simp_all add: img_def writes_def fs_inv_def upd_log_def lk)
  have "\<exists>s' ws. commit ?s = Some s' \<and> fs_inv s' [] \<and> fs_log s' = (fs_log ?s)\<lparr>lg_n := 0\<rparr> \<and> img s' = put_blocks (img s) ws \<and> writes s' = writes s @ ws \<and>
      (\<forall>b. fs_data s b \<longrightarrow> img s' ! unat b = fs_content s b) \<and>
      (\<forall>k. \<exists>sb s2. fs_start (boot_disk (put_blocks (img s) (take k ws))) = Some (sb, s2) \<and>
       (\<forall>b. fs_data s b \<longrightarrow> img s2 ! unat b = (if k \<le> length bs then img s ! unat b else fs_content s b)))"
  proof (cases "bs = []")
    case True
    have n0: "lg_n (fs_log s) = 0" using inv True by (simp add: fs_inv_def log_disk_def logged_def)
    have c: "commit ?s = Some ?s" "fs_inv ?s []" "fs_log ?s = (fs_log ?s)\<lparr>lg_n := 0\<rparr>" using n0 same(5) True by (simp_all add: commit_def upd_log_def)
    have V: "fs_content s = (\<lambda>b. img s ! unat b)" using fs_invD(3) [OF inv] True by (simp add: view_def fun_eq_iff)
    have st: "\<exists>sb s2. fs_start (boot_disk (img s)) = Some (sb, s2) \<and> img s2 = img s"
      using start_empty [OF fs_invD(2) [OF inv], of "img s"] log_diskD [OF fs_invD(2) [OF inv]] unfolding img_def [symmetric] by blast
    show ?thesis by (intro exI [of _ ?s] exI [of _ "[]"]) (use c same(1,2) V st in auto)
  next
    case False
    then show ?thesis using commit_inv [OF same(5) False] unfolding same(1-4) by blast
  qed
  then obtain s' ws where c: "commit ?s = Some s'" "fs_inv s' []" "fs_log s' = (fs_log ?s)\<lparr>lg_n := 0\<rparr>" "img s' = put_blocks (img s) ws" "writes s' = writes s @ ws"
      "\<forall>b. fs_data s b \<longrightarrow> img s' ! unat b = fs_content s b"
      "\<forall>k. \<exists>sb s2. fs_start (boot_disk (put_blocks (img s) (take k ws))) = Some (sb, s2) \<and>
       (\<forall>b. fs_data s b \<longrightarrow> img s2 ! unat b = (if k \<le> length bs then img s ! unat b else fs_content s b))"
    by (elim exE conjE) (rule that)
  have "end_op s = Some (?stop s')" by (simp add: e c(1))
  moreover have "lg_outstanding (fs_log (?stop s')) = 0" "\<not> lg_committing (fs_log (?stop s'))" "lg_size (fs_log (?stop s')) = lg_size (fs_log s)"
    "lg_start (fs_log (?stop s')) = lg_start (fs_log s)"
    using out c(3) by (simp_all add: upd_log_def)
  moreover have "fs_inv (?stop s') []" "img (?stop s') = put_blocks (img s) ws" "writes (?stop s') = writes s @ ws"
    "\<forall>b. fs_data s b \<longrightarrow> img (?stop s') ! unat b = fs_content s b" unfolding fin using c(2,4-6) by blast+
  ultimately show ?thesis using c(7) by blast
qed

section \<open>Block operations inside a transaction\<close>

text \<open>Reading a block and releasing it changes nothing.\<close>

lemma fs_read:
  assumes inv: "fs_inv s bs" and b: "b \<noteq> 0" "unat b < length (img s)" and free: "b \<in> set bs \<or> length bs < NBUF"
  obtains i c c' where "bread 0 b (fs_cache s) = Some (Some i, c)" "b_data (bc_bufs c ! i) = fs_content s b" "brelse i c = Some c'"
    "fs_inv (upd_cache s c') bs" "fs_content (upd_cache s c') = fs_content s" "img (upd_cache s c') = img s" "writes (upd_cache s c') = writes s"
    "cache_rep c (fs_content s) ((pins bs)(b := pins bs b + 1)) ((\<lambda>_. False)(b := True)) (img s) (writes s)" "holds c i b"
proof -
  note F = fs_invD [OF inv]
  have "0 \<le> pins bs b" "pins bs b \<noteq> 0 \<or> card {x. pins bs x \<noteq> 0} < NBUF" using free card_length [of bs] by (auto simp: pins_def)
  then obtain i c c' where r: "bread 0 b (fs_cache s) = Some (Some i, c)" "holds c i b"
    "cache_rep c (fs_content s) ((pins bs)(b := pins bs b + 1)) ((\<lambda>_. False)(b := True)) (img s) (writes s)"
    and c': "brelse i c = Some c'" "cache_rep c' (fs_content s) (pins bs) (\<lambda>_. False) (img s) (writes s)"
    by (rule bc.read_release [OF F(1) b])
  have "cache_rep (fs_cache (upd_cache s c')) (fs_content s) (pins bs) (\<lambda>_. False) (img s) (writes s)" "log_disk (fs_log (upd_cache s c')) bs (img s)"
    using c'(2) F(2) by (simp_all add: upd_cache_def)
  from fs_invI [OF this] show thesis using that r c'(1) holdsD(5) [OF r(3,2)] by blast
qed

text \<open>The blocks that are logged after a write of \<open>b\<close>.\<close>

definition add_block :: "u32 \<Rightarrow> u32 list \<Rightarrow> u32 list" where
  "add_block b bs = (if b \<in> set bs then bs else bs @ [b])"

definition room :: "fs_state \<Rightarrow> u32 list \<Rightarrow> nat \<Rightarrow> bool" where
  "room s bs n \<longleftrightarrow> int (length bs + n) < lg_size (fs_log s)"

text \<open>Changing a block: it is logged, its new content is seen by later reads, the disk is not touched.\<close>

lemma fs_update:
  assumes inv: "fs_inv s bs" and b: "fs_data s b" "b \<noteq> 1" and out: "1 \<le> lg_outstanding (fs_log s)"
    and rm: "b \<in> set bs \<or> room s bs 1" and d: "length d = BSIZE"
  obtains i c s2 c' where "bread 0 b (fs_cache s) = Some (Some i, c)" "b_data (bc_bufs c ! i) = fs_content s b"
    "log_write i (upd_cache s (set_data i d c)) = Some s2" "brelse i (fs_cache s2) = Some c'"
    "fs_inv (upd_cache s2 c') (add_block b bs)" "fs_content (upd_cache s2 c') = (fs_content s)(b := d)"
    "img (upd_cache s2 c') = img s" "writes (upd_cache s2 c') = writes s"
    "lg_outstanding (fs_log s2) = lg_outstanding (fs_log s)" "lg_size (fs_log s2) = lg_size (fs_log s)" "lg_start (fs_log s2) = lg_start (fs_log s)"
proof -
  note F = fs_invD [OF inv]
  note D = log_diskD [OF F(2)]
  note L = loggedD [OF D(1)]
  let ?l = "fs_log s"
  have bb: "b \<noteq> 0" "unat b < length (img s)" using b(1) by (auto simp: fs_data_def data_block_def)
  have fr: "b \<in> set bs \<or> length bs < NBUF" using L(5) by simp
  obtain i c where r: "bread 0 b (fs_cache s) = Some (Some i, c)" "b_data (bc_bufs c ! i) = fs_content s b"
    "cache_rep c (fs_content s) ((pins bs)(b := pins bs b + 1)) ((\<lambda>_. False)(b := True)) (img s) (writes s)" "holds c i b"
    by (rule fs_read [OF inv bb fr])
  have p0: "0 \<le> pins bs b" by (simp add: pins_def)
  note sd = set_data_rep [OF r(3,4) _ d]
  have s1: "cache_rep (set_data i d c) ((fs_content s)(b := d)) ((pins bs)(b := pins bs b + 1)) ((\<lambda>_. False)(b := True)) (img s) (writes s)"
    "holds (set_data i d c) i b" using sd r(4) p0 by auto
  let ?s1 = "upd_cache s (set_data i d c)"
  have bn: "b_blockno (bc_bufs (fs_cache ?s1) ! i) = b" "fs_log ?s1 = ?l" using holdsD(4) [OF s1] by (simp_all add: upd_cache_def)
  have tk: "take (nat (lg_n ?l)) (lg_block ?l) = bs" using D(1) by (simp add: logged_def)
  show thesis
  proof (cases "b \<in> set bs")
    case True
    have p1: "pins bs b \<noteq> 0" using True by (simp add: pins_def)
    have lw: "log_write i ?s1 = Some ?s1" using bn tk True out by (simp add: log_write_def Let_def)
    obtain c' where c': "brelse i (set_data i d c) = Some c'" "cache_rep c' ((fs_content s)(b := d)) (pins bs) (\<lambda>_. False) (img s) (writes s)"
      using brelse_rep [OF s1] True p1 by auto
    have "fs_inv (upd_cache ?s1 c') bs" "fs_content (upd_cache ?s1 c') = (fs_content s)(b := d)" "img (upd_cache ?s1 c') = img s" "writes (upd_cache ?s1 c') = writes s"
      using fs_invI [of "upd_cache ?s1 c'"] c'(2) F(2) by (simp_all add: upd_cache_def)
    then show thesis using that [OF r(1,2) lw] c'(1) True by (simp add: add_block_def upd_cache_def)
  next
    case False
    then have n: "int (length bs) < lg_size ?l - 1" using rm by (simp add: room_def)
    have ln: "length bs < length (lg_block ?l)" using n L(1) by (simp add: geometry_def LOGSIZE_def)
    define l2 where "l2 = ?l\<lparr>lg_block := (lg_block ?l)[length bs := b], lg_n := int (length bs) + 1\<rparr>"
    let ?s2 = "\<lparr>fs_cache = bpin i (set_data i d c), fs_log = l2\<rparr>"
    have lw: "log_write i ?s1 = Some ?s2"
      using bn tk False out n ln L(2) by (cases s) (simp add: log_write_def Let_def upd_log_def upd_cache_def l2_def)
    note bp = bpin_rep [OF s1]
    have s2: "cache_rep (bpin i (set_data i d c)) ((fs_content s)(b := d)) ((pins bs)(b := pins bs b + 2)) ((\<lambda>_. False)(b := True)) (img s) (writes s)"
      "holds (bpin i (set_data i d c)) i b" using bp s1(2) p0 by (auto simp: add.assoc)
    have pn: "(pins bs)(b := pins bs b + 1) = pins (bs @ [b])" using False by (auto simp: pins_def fun_eq_iff)
    obtain c' where c': "brelse i (bpin i (set_data i d c)) = Some c'" "cache_rep c' ((fs_content s)(b := d)) (pins (bs @ [b])) (\<lambda>_. False) (img s) (writes s)"
      using brelse_rep [OF s2] False pn by (auto simp: pins_def)
    have l2: "lb l2 k = lb ?l k" "data_block l2 n x = data_block ?l n x" for k n x by (simp_all add: lb_def data_block_def l2_def)
    have tk2: "take (length bs) (lg_block ?l) = bs" using D(1) by (simp add: logged_def)
    have "take (Suc (length bs)) (lg_block l2) = bs @ [b]"
      using ln tk2 by (simp add: l2_def take_Suc_conv_app_nth)
    then have "logged l2 (bs @ [b]) (length (img s))"
      using D(1) b(1) False n unfolding logged_def l2 by (auto simp: l2_def geometry_def fs_data_def)
    then have "log_disk l2 (bs @ [b]) (img s)" using F(2) b(2) unfolding log_disk_def l2 by (simp add: l2_def)
    then have "fs_inv (upd_cache ?s2 c') (bs @ [b])" "fs_content (upd_cache ?s2 c') = (fs_content s)(b := d)" "img (upd_cache ?s2 c') = img s" "writes (upd_cache ?s2 c') = writes s"
      using fs_invI [of "upd_cache ?s2 c'"] c'(2) by (simp_all add: upd_cache_def)
    then show thesis using that [OF r(1,2) lw] c'(1) False by (simp add: add_block_def l2_def)
  qed
qed

end
