(* ===== verification/FS_Block_Spec.thy ===== *)
theory FS_Block_Spec
  imports FS_Block FS_Tx
begin

text \<open>
  The block allocator on the contents seen by a transaction: \<open>used s sb x\<close> is the bit of block \<open>x\<close> in the
  bitmap. Allocating takes the least free block, marks it and zeroes it; freeing clears the bit.
\<close>

section \<open>Bits\<close>

lemma bit_mark:
  assumes "bi < 8 * length d" and "j < 8 * length d"
  shows "bit_at (mark_bit bi d) j \<longleftrightarrow> j = bi \<or> bit_at d j" and "bit_at (clear_bit bi d) j \<longleftrightarrow> j \<noteq> bi \<and> bit_at d j"
proof -
  have eq: "bi = j \<longleftrightarrow> bi div 8 = j div 8 \<and> bi mod 8 = j mod 8" by (metis div_mult_mod_eq)
  have "bit (push_bit (bi mod 8) (1 :: 8 word)) (j mod 8) \<longleftrightarrow> bi mod 8 = j mod 8" by (auto simp: bit_simps)
  moreover have "bi div 8 < length d" "j div 8 < length d" "j mod 8 < 8" using assms by auto
  ultimately show "bit_at (mark_bit bi d) j \<longleftrightarrow> j = bi \<or> bit_at d j" "bit_at (clear_bit bi d) j \<longleftrightarrow> j \<noteq> bi \<and> bit_at d j"
    using eq by (auto simp: bit_at_def mark_bit_def clear_bit_def nth_list_update bit_or_iff bit_and_iff bit_not_iff)
qed

lemma length_mark [simp]: "length (mark_bit bi d) = length d" "length (clear_bit bi d) = length d"
  by (simp_all add: mark_bit_def clear_bit_def)

lemma free_bit_Some: "free_bit d m = Some bi \<longleftrightarrow> bi < m \<and> \<not> bit_at d bi \<and> (\<forall>j < bi. bit_at d j)"
  by (auto simp: free_bit_def find_Some_iff)

lemma free_bit_None: "free_bit d m = None \<longleftrightarrow> (\<forall>j < m. bit_at d j)"
  by (auto simp: free_bit_def find_None_iff)

section \<open>The bitmap\<close>

definition used :: "fs_state \<Rightarrow> superblock \<Rightarrow> u32 \<Rightarrow> bool" where
  "used s sb x = bit_at (fs_content s (BBLOCK x sb)) (unat x mod BPB)"

definition bitmap_ok :: "fs_state \<Rightarrow> superblock \<Rightarrow> bool" where
  "bitmap_ok s sb \<longleftrightarrow> unat (sb_size sb) \<le> length (img s) \<and>
     (\<forall>x < sb_size sb. fs_data s (BBLOCK x sb) \<and> BBLOCK x sb \<noteq> 1) \<and>
     (\<forall>x < sb_size sb. \<forall>y < sb_size sb. x = BBLOCK y sb \<longrightarrow> used s sb x) \<and>
     (\<forall>x < sb_size sb. \<not> used s sb x \<longrightarrow> fs_data s x \<and> x \<noteq> 1)"

lemma BPB_unat [simp]: "unat (of_nat BPB :: u32) = BPB" "0 < BPB" "8 * BSIZE = BPB"
  by (simp_all add: BPB_def BSIZE_def)

lemma BBLOCK_eq:
  assumes "unat x < 2 ^ 20" and "unat y < 2 ^ 20"
  shows "BBLOCK x sb = BBLOCK y sb \<longleftrightarrow> unat x div BPB = unat y div BPB"
proof -
  have "BBLOCK x sb = BBLOCK y sb \<longleftrightarrow> x div of_nat BPB = y div of_nat BPB" by (simp add: BBLOCK_def)
  also have "\<dots> \<longleftrightarrow> unat (x div of_nat BPB) = unat (y div of_nat BPB)" by (simp add: unat_eq_iff_eq)
  finally show ?thesis by (simp add: unat_div)
qed

lemma used_update:
  assumes "unat x < 2 ^ 20" "unat y < 2 ^ 20" "length (fs_content s (BBLOCK x sb)) = BSIZE"
    and "fs_content s' (BBLOCK y sb) = ((fs_content s)(BBLOCK x sb := f (fs_content s (BBLOCK x sb)))) (BBLOCK y sb)"
    and "\<And>j. j < BPB \<Longrightarrow> bit_at (f (fs_content s (BBLOCK x sb))) j = (if j = unat x mod BPB then v else bit_at (fs_content s (BBLOCK x sb)) j)"
  shows "used s' sb y = (if y = x then v else used s sb y)"
proof (cases "BBLOCK y sb = BBLOCK x sb")
  case True
  then have "unat y mod BPB = unat x mod BPB \<longleftrightarrow> y = x" using BBLOCK_eq assms(1,2) by (metis div_mult_mod_eq unat_eq_iff_eq)
  then show ?thesis using True assms(4) assms(5) [of "unat y mod BPB"] by (simp add: used_def)
next
  case False
  then show ?thesis using assms(4) by (auto simp: used_def)
qed

section \<open>The operations\<close>

lemma bzeroblk_inv:
  assumes inv: "fs_inv s bs" and b: "fs_data s b" "b \<noteq> 1" and out: "1 \<le> lg_outstanding (fs_log s)" and rm: "b \<in> set bs \<or> room s bs 1"
  shows "\<exists>s'. bzeroblk b s = Some s' \<and> fs_inv s' (add_block b bs) \<and> fs_content s' = (fs_content s)(b := replicate BSIZE 0) \<and>
    img s' = img s \<and> writes s' = writes s \<and> lg_outstanding (fs_log s') = lg_outstanding (fs_log s) \<and> lg_size (fs_log s') = lg_size (fs_log s) \<and> lg_start (fs_log s') = lg_start (fs_log s)"
proof -
  obtain i c s2 c' where u: "bread 0 b (fs_cache s) = Some (Some i, c)" "b_data (bc_bufs c ! i) = fs_content s b"
    "log_write i (upd_cache s (set_data i (replicate BSIZE 0) c)) = Some s2" "brelse i (fs_cache s2) = Some c'"
    "fs_inv (upd_cache s2 c') (add_block b bs)" "fs_content (upd_cache s2 c') = (fs_content s)(b := replicate BSIZE 0)"
    "img (upd_cache s2 c') = img s" "writes (upd_cache s2 c') = writes s"
    "lg_outstanding (fs_log s2) = lg_outstanding (fs_log s)" "lg_size (fs_log s2) = lg_size (fs_log s)" "lg_start (fs_log s2) = lg_start (fs_log s)"
    by (rule fs_update [OF inv b out rm, of "replicate BSIZE 0"]) simp
  have "bzeroblk b s = Some (upd_cache s2 c')" using u(1,3,4) by (simp add: bzeroblk_def)
  then show ?thesis using u(5-) by (auto simp: upd_cache_def)
qed

lemma same_data:
  assumes "img s' = img s" and "lg_size (fs_log s') = lg_size (fs_log s)" and "lg_start (fs_log s') = lg_start (fs_log s)"
  shows "fs_data s' b = fs_data s b" "room s' bs n = room s bs n"
  using assms by (simp_all add: fs_data_def data_block_def room_def)

text \<open>Freeing a block.\<close>

lemma bfree_inv:
  assumes inv: "fs_inv s bs" and x: "0 < x" "x < sb_size sb" and bm: "bitmap_ok s sb" and us: "used s sb x"
    and out: "1 \<le> lg_outstanding (fs_log s)" and rm: "BBLOCK x sb \<in> set bs \<or> room s bs 1"
  shows "\<exists>s'. bfree sb x s = Some s' \<and> fs_inv s' (add_block (BBLOCK x sb) bs) \<and>
    fs_content s' = (fs_content s)(BBLOCK x sb := clear_bit (unat x mod BPB) (fs_content s (BBLOCK x sb))) \<and>
    img s' = img s \<and> writes s' = writes s \<and> lg_outstanding (fs_log s') = lg_outstanding (fs_log s) \<and> lg_size (fs_log s') = lg_size (fs_log s) \<and> lg_start (fs_log s') = lg_start (fs_log s)"
proof -
  let ?B = "BBLOCK x sb" and ?d = "clear_bit (unat x mod BPB) (fs_content s (BBLOCK x sb))"
  have B: "fs_data s ?B" "?B \<noteq> 1" using bm x(2) by (auto simp: bitmap_ok_def)
  have "length (fs_content s ?B) = BSIZE" using fs_content_length [OF inv] B(1) by (simp add: fs_data_def data_block_def)
  then have len: "length ?d = BSIZE" by simp
  obtain i c s2 c' where u: "bread 0 ?B (fs_cache s) = Some (Some i, c)" "b_data (bc_bufs c ! i) = fs_content s ?B"
    "log_write i (upd_cache s (set_data i ?d c)) = Some s2" "brelse i (fs_cache s2) = Some c'"
    "fs_inv (upd_cache s2 c') (add_block ?B bs)" "fs_content (upd_cache s2 c') = (fs_content s)(?B := ?d)"
    "img (upd_cache s2 c') = img s" "writes (upd_cache s2 c') = writes s"
    "lg_outstanding (fs_log s2) = lg_outstanding (fs_log s)" "lg_size (fs_log s2) = lg_size (fs_log s)" "lg_start (fs_log s2) = lg_start (fs_log s)"
    by (rule fs_update [OF inv B out rm len])
  have "bfree sb x s = Some (upd_cache s2 c')" using x u(1-4) us by (simp add: bfree_def Let_def used_def)
  then show ?thesis using u(5-) by (auto simp: upd_cache_def)
qed

text \<open>Allocating a block: the least free one.\<close>

definition balloc_post :: "superblock \<Rightarrow> fs_state \<Rightarrow> u32 list \<Rightarrow> u32 \<Rightarrow> fs_state \<Rightarrow> bool" where
  "balloc_post sb s bs x s' \<longleftrightarrow> img s' = img s \<and> writes s' = writes s \<and> lg_outstanding (fs_log s') = lg_outstanding (fs_log s) \<and>
     lg_size (fs_log s') = lg_size (fs_log s) \<and> lg_start (fs_log s') = lg_start (fs_log s) \<and>
     (if \<exists>y < sb_size sb. \<not> used s sb y
      then x < sb_size sb \<and> \<not> used s sb x \<and> (\<forall>y < x. used s sb y) \<and> fs_inv s' (add_block x (add_block (BBLOCK x sb) bs)) \<and>
        fs_content s' = (fs_content s)(BBLOCK x sb := mark_bit (unat x mod BPB) (fs_content s (BBLOCK x sb)), x := replicate BSIZE 0)
      else x = 0 \<and> fs_inv s' bs \<and> fs_content s' = fs_content s)"

lemma unat_add_u32: "unat (a :: u32) + n < 2 ^ 32 \<Longrightarrow> unat (a + of_nat n) = unat a + n"
  by (simp add: unat_word_ariths unat_of_nat)

lemma block_offset:
  fixes b y B :: nat
  assumes "b mod B = 0" and "b \<le> y" and "y < b + B"
  shows "y div B = b div B" and "y mod B = y - b"
proof -
  obtain q where q: "b = B * q" using assms(1) by (auto simp: mod_eq_0_iff_dvd dvd_def)
  have y: "y = B * q + (y - b)" "y - b < B" using q assms(2,3) by auto
  then have "0 < B" by simp
  have "(B * q + (y - b)) div B = q" "(B * q + (y - b)) mod B = y - b" using y(2) \<open>0 < B\<close> by simp_all
  then show "y div B = b div B" "y mod B = y - b" using y(1) q \<open>0 < B\<close> by simp_all
qed

lemma balloc_found:
  assumes inv: "fs_inv s bs" and bm: "bitmap_ok s sb" and out: "1 \<le> lg_outstanding (fs_log s)" and rm: "room s bs 2"
    and b: "b < sb_size sb" "unat b mod BPB = 0" "\<forall>y < b. used s sb y"
    and f: "free_bit (fs_content s (BBLOCK b sb)) (min BPB (unat (sb_size sb) - unat b)) = Some bi"
  shows "\<exists>s'. balloc_loop sb b s = Some (b + of_nat bi, s') \<and> balloc_post sb s bs (b + of_nat bi) s'"
proof -
  let ?x = "b + of_nat bi :: u32" and ?B = "BBLOCK b sb"
  have sz: "unat (sb_size sb) \<le> 2 ^ 20" using bm log_diskD(7) [OF fs_invD(2) [OF inv]] by (simp add: bitmap_ok_def)
  have bi: "bi < BPB" "unat b + bi < unat (sb_size sb)" "\<not> bit_at (fs_content s ?B) bi" "\<forall>j < bi. bit_at (fs_content s ?B) j"
    using f by (auto simp: free_bit_Some)
  have ux: "unat ?x = unat b + bi" using bi(2) sz by (subst unat_add_u32) simp_all
  have blk: "BBLOCK y sb = ?B" "unat y mod BPB = unat y - unat b" if "unat b \<le> unat y" "unat y < unat b + BPB" "unat y < 2 ^ 20" for y
    using block_offset [OF b(2) that(1,2)] BBLOCK_eq [of y b sb] that by simp_all
  have xB: "BBLOCK ?x sb = ?B" "unat ?x mod BPB = bi" using blk [of ?x] ux bi sz by auto
  have x: "?x < sb_size sb" "\<not> used s sb ?x" using ux bi xB by (simp_all add: word_less_nat_alt used_def)
  have least: "used s sb y" if "y < ?x" for y
  proof (cases "y < b")
    case False
    then have "unat b \<le> unat y" "unat y < unat b + bi" using that ux by (simp_all add: word_less_nat_alt)
    then show ?thesis using blk [of y] bi sz by (auto simp: used_def)
  qed (use b(3) in blast)
  have B: "fs_data s ?B" "?B \<noteq> 1" and xd: "fs_data s ?x" "?x \<noteq> 1" "?x \<noteq> ?B" using bm b(1) x by (auto simp: bitmap_ok_def)
  let ?d = "mark_bit bi (fs_content s ?B)"
  have "length (fs_content s ?B) = BSIZE" using fs_content_length [OF inv] B(1) by (simp add: fs_data_def data_block_def)
  then have len: "length ?d = BSIZE" by simp
  have rm1: "?B \<in> set bs \<or> room s bs 1" using rm by (simp add: room_def)
  obtain i c s2 c' where u: "bread 0 ?B (fs_cache s) = Some (Some i, c)" "b_data (bc_bufs c ! i) = fs_content s ?B"
    "log_write i (upd_cache s (set_data i ?d c)) = Some s2" "brelse i (fs_cache s2) = Some c'"
    "fs_inv (upd_cache s2 c') (add_block ?B bs)" "fs_content (upd_cache s2 c') = (fs_content s)(?B := ?d)"
    "img (upd_cache s2 c') = img s" "writes (upd_cache s2 c') = writes s"
    "lg_outstanding (fs_log s2) = lg_outstanding (fs_log s)" "lg_size (fs_log s2) = lg_size (fs_log s)" "lg_start (fs_log s2) = lg_start (fs_log s)"
    by (rule fs_update [OF inv B out rm1 len])
  let ?s = "upd_cache s2 c'"
  have lg: "fs_log ?s = fs_log s2" by (simp add: upd_cache_def)
  have dt: "fs_data ?s ?x" "1 \<le> lg_outstanding (fs_log ?s)" using same_data(1) [OF u(7)] u(9-11) xd(1) out by (simp_all add: lg)
  have "?x \<in> set (add_block ?B bs) \<or> room ?s (add_block ?B bs) 1" using rm u(10) by (simp add: room_def add_block_def lg)
  from bzeroblk_inv [OF u(5) dt(1) xd(2) dt(2) this]
  obtain s' where z: "bzeroblk ?x ?s = Some s'" "fs_inv s' (add_block ?x (add_block ?B bs))" "fs_content s' = (fs_content ?s)(?x := replicate BSIZE 0)"
    "img s' = img ?s" "writes s' = writes ?s" "lg_outstanding (fs_log s') = lg_outstanding (fs_log ?s)" "lg_size (fs_log s') = lg_size (fs_log ?s)" "lg_start (fs_log s') = lg_start (fs_log ?s)"
    by (elim exE conjE) (rule that)
  have "balloc_loop sb b s = Some (?x, s')"
    using b(1) f u(1-4) z(1) by (subst balloc_loop.simps) simp
  moreover have "\<exists>y < sb_size sb. \<not> used s sb y" using x by blast
  ultimately show ?thesis using x least z u(6-) by (auto simp: balloc_post_def xB lg)
qed

lemma balloc_loop_inv:
  assumes "fs_inv s bs" and "bitmap_ok s sb" and "1 \<le> lg_outstanding (fs_log s)" and "room s bs 2"
    and "unat b mod BPB = 0" and "\<forall>y < b. y < sb_size sb \<longrightarrow> used s sb y"
  shows "\<exists>x s'. balloc_loop sb b s = Some (x, s') \<and> balloc_post sb s bs x s'"
  using assms
proof (induction "unat (sb_size sb) - unat b" arbitrary: b s rule: less_induct)
  case less
  note inv = less.prems(1) and bm = less.prems(2)
  have sz: "unat (sb_size sb) \<le> 2 ^ 20" using bm log_diskD(7) [OF fs_invD(2) [OF inv]] by (simp add: bitmap_ok_def)
  show ?case
  proof (cases "b < sb_size sb")
    case False
    then have "\<forall>y < sb_size sb. used s sb y" using less.prems(6) by (auto simp: not_less)
    then show ?thesis using False inv by (subst balloc_loop.simps) (auto simp: balloc_post_def)
  next
    case True
    let ?B = "BBLOCK b sb"
    have us: "\<forall>y < b. used s sb y" using less.prems(6) True by (meson less_trans)
    show ?thesis
    proof (cases "free_bit (fs_content s ?B) (min BPB (unat (sb_size sb) - unat b))")
      case (Some bi)
      then show ?thesis using balloc_found [OF inv bm less.prems(3,4) True less.prems(5) us] by blast
    next
      case None
      have B: "?B \<noteq> 0" "unat ?B < length (img s)" using bm True by (auto simp: bitmap_ok_def fs_data_def data_block_def)
      have fr: "?B \<in> set bs \<or> length bs < NBUF" using loggedD(5) [OF log_diskD(1) [OF fs_invD(2) [OF inv]]] by simp
      obtain i c c' where r: "bread 0 ?B (fs_cache s) = Some (Some i, c)" "b_data (bc_bufs c ! i) = fs_content s ?B" "brelse i c = Some c'"
        "fs_inv (upd_cache s c') bs" "fs_content (upd_cache s c') = fs_content s" "img (upd_cache s c') = img s" "writes (upd_cache s c') = writes s"
        by (rule fs_read [OF inv B fr])
      let ?s = "upd_cache s c'" and ?b = "b + of_nat BPB :: u32"
      have ub: "unat ?b = unat b + BPB" using True sz by (subst unat_add_u32) (simp_all add: word_less_nat_alt BPB_def BSIZE_def)
      have eq: "used ?s = used s" "fs_data ?s = fs_data s" "fs_log ?s = fs_log s"
        using r(5,6) by (simp_all add: used_def fs_data_def fun_eq_iff) (simp_all add: upd_cache_def)
      have all: "used s sb y" if "y < ?b" "y < sb_size sb" for y
      proof (cases "y < b")
        case False
        then have y: "unat b \<le> unat y" "unat y < unat b + BPB" "unat y < unat (sb_size sb)" using that ub by (simp_all add: word_less_nat_alt)
        have "unat y mod BPB = unat y - unat b" "BBLOCK y sb = ?B"
          using block_offset [OF less.prems(5) y(1,2)] BBLOCK_eq [of y b sb] y sz by simp_all
        moreover have "unat y - unat b < min BPB (unat (sb_size sb) - unat b)" using y by linarith
        ultimately show ?thesis using None by (simp add: used_def free_bit_None)
      qed (use us in blast)
      have "\<exists>x s'. balloc_loop sb ?b ?s = Some (x, s') \<and> balloc_post sb ?s bs x s'"
      proof (rule less.hyps)
        show "unat (sb_size sb) - unat ?b < unat (sb_size sb) - unat b" using ub True BPB_unat(2) unfolding word_less_nat_alt by linarith
        show "fs_inv ?s bs" "bitmap_ok ?s sb" "1 \<le> lg_outstanding (fs_log ?s)" "room ?s bs 2" "unat ?b mod BPB = 0"
          using r(4,6) bm less.prems(3-5) ub by (simp_all add: bitmap_ok_def eq room_def)
        show "\<forall>y < ?b. y < sb_size sb \<longrightarrow> used ?s sb y" using all by (simp add: eq)
      qed
      then obtain x s' where n: "balloc_loop sb ?b ?s = Some (x, s')" "balloc_post sb ?s bs x s'" by blast
      have "balloc_loop sb b s = Some (x, s')" using True None r(1-3) n(1) by (subst balloc_loop.simps) simp
      moreover have "balloc_post sb s bs x s'" using n(2) unfolding balloc_post_def eq r(5-7) .
      ultimately show ?thesis by blast
    qed
  qed
qed

lemma used_after_balloc:
  assumes inv: "fs_inv s bs" and bm: "bitmap_ok s sb" and post: "balloc_post sb s bs x s'" and free: "\<exists>y < sb_size sb. \<not> used s sb y"
    and y: "y < sb_size sb"
  shows "used s' sb y \<longleftrightarrow> y = x \<or> used s sb y"
proof -
  let ?B = "BBLOCK x sb"
  have sz: "unat (sb_size sb) \<le> 2 ^ 20" using bm log_diskD(7) [OF fs_invD(2) [OF inv]] by (simp add: bitmap_ok_def)
  have x: "x < sb_size sb" "\<not> used s sb x"
    "fs_content s' = (fs_content s)(?B := mark_bit (unat x mod BPB) (fs_content s ?B), x := replicate BSIZE 0)"
    using post free by (auto simp: balloc_post_def)
  have ne: "BBLOCK y sb \<noteq> x" using bm x(1,2) y by (auto simp: bitmap_ok_def)
  have len: "length (fs_content s ?B) = BSIZE" using fs_content_length [OF inv] bm x(1) by (auto simp: bitmap_ok_def fs_data_def data_block_def)
  have lt: "unat x < 2 ^ 20" "unat y < 2 ^ 20" using x(1) y sz by (simp_all add: word_less_nat_alt)
  have "used s' sb y = (if y = x then True else used s sb y)"
  proof (rule used_update [OF lt len])
    show "fs_content s' (BBLOCK y sb) = ((fs_content s)(?B := mark_bit (unat x mod BPB) (fs_content s ?B))) (BBLOCK y sb)" using x(3) ne by simp
    show "bit_at (mark_bit (unat x mod BPB) (fs_content s ?B)) j = (if j = unat x mod BPB then True else bit_at (fs_content s ?B) j)" if "j < BPB" for j
      using bit_mark(1) [of "unat x mod BPB" "fs_content s ?B" j] that len by simp
  qed
  then show ?thesis by auto
qed

lemma used_after_bfree:
  assumes inv: "fs_inv s bs" and bm: "bitmap_ok s sb" and x: "x < sb_size sb" and y: "y < sb_size sb"
    and c: "fs_content s' = (fs_content s)(BBLOCK x sb := clear_bit (unat x mod BPB) (fs_content s (BBLOCK x sb)))"
  shows "used s' sb y \<longleftrightarrow> y \<noteq> x \<and> used s sb y"
proof -
  let ?B = "BBLOCK x sb"
  have sz: "unat (sb_size sb) \<le> 2 ^ 20" using bm log_diskD(7) [OF fs_invD(2) [OF inv]] by (simp add: bitmap_ok_def)
  have len: "length (fs_content s ?B) = BSIZE" using fs_content_length [OF inv] bm x by (auto simp: bitmap_ok_def fs_data_def data_block_def)
  have lt: "unat x < 2 ^ 20" "unat y < 2 ^ 20" using x y sz by (simp_all add: word_less_nat_alt)
  have "used s' sb y = (if y = x then False else used s sb y)"
  proof (rule used_update [OF lt len])
    show "fs_content s' (BBLOCK y sb) = ((fs_content s)(?B := clear_bit (unat x mod BPB) (fs_content s ?B))) (BBLOCK y sb)" using c by simp
    show "bit_at (clear_bit (unat x mod BPB) (fs_content s ?B)) j = (if j = unat x mod BPB then False else bit_at (fs_content s ?B) j)" if "j < BPB" for j
      using bit_mark(2) [of "unat x mod BPB" "fs_content s ?B" j] that len by simp
  qed
  then show ?thesis by auto
qed

lemma balloc_inv:
  assumes "fs_inv s bs" and "bitmap_ok s sb" and "1 \<le> lg_outstanding (fs_log s)" and "room s bs 2"
  shows "\<exists>x s'. balloc sb s = Some (x, s') \<and> balloc_post sb s bs x s'"
  unfolding balloc_def using balloc_loop_inv [OF assms, of 0] by simp

end
