(* ===== verification/FS_File_Spec.thy ===== *)
theory FS_File_Spec
  imports FS_Inode FS_Block_Spec
begin

text \<open>
  Reading and writing the direct blocks of a file: what is written is read back, and the other bytes of the
  file are kept. Blocks that the file does not have yet are allocated.
\<close>

section \<open>The blocks of a file\<close>

definition own_block :: "superblock \<Rightarrow> fs_state \<Rightarrow> u32 \<Rightarrow> bool" where
  "own_block sb s a \<longleftrightarrow> fs_data s a \<and> a \<noteq> 1 \<and> a < sb_size sb \<and> used s sb a \<and> (\<forall>y < sb_size sb. BBLOCK y sb \<noteq> a)"

definition addrs_ok :: "superblock \<Rightarrow> fs_state \<Rightarrow> u32 list \<Rightarrow> bool" where
  "addrs_ok sb s as \<longleftrightarrow> length as = NDIRECT + 1 \<and> (\<forall>k < NDIRECT. as ! k \<noteq> 0 \<longrightarrow> own_block sb s (as ! k)) \<and>
     (\<forall>j < NDIRECT. \<forall>k < NDIRECT. as ! j = as ! k \<and> as ! j \<noteq> 0 \<longrightarrow> j = k)"

definition inode_block :: "superblock \<Rightarrow> inode \<Rightarrow> u32" where
  "inode_block sb i = IBLOCK (i_inum i) sb"

definition file_inv :: "superblock \<Rightarrow> nat \<Rightarrow> ifs \<Rightarrow> u32 list \<Rightarrow> bool" where
  "file_inv sb ip t bs \<longleftrightarrow> fs_inv (if_fs t) bs \<and> bitmap_ok (if_fs t) sb \<and> 1 \<le> lg_outstanding (fs_log (if_fs t)) \<and>
     ip < length (if_inodes t) \<and> i_dev (ino t ip) = 0 \<and> addrs_ok sb (if_fs t) (i_addrs (ino t ip)) \<and>
     own_block sb (if_fs t) (inode_block sb (ino t ip)) \<and> inode_block sb (ino t ip) \<notin> set (take NDIRECT (i_addrs (ino t ip)))"

definition free_blocks :: "superblock \<Rightarrow> fs_state \<Rightarrow> nat" where
  "free_blocks sb s = card {y. y < sb_size sb \<and> \<not> used s sb y}"

definition faddr :: "nat \<Rightarrow> ifs \<Rightarrow> nat \<Rightarrow> u32" where
  "faddr ip t k = i_addrs (ino t ip) ! (k div BSIZE)"

text \<open>The byte of a file at a position.\<close>

definition fbyte :: "nat \<Rightarrow> ifs \<Rightarrow> nat \<Rightarrow> 8 word" where
  "fbyte ip t k = fs_content (if_fs t) (faddr ip t k) ! (k mod BSIZE)"

lemma balloc_bitmap:
  assumes inv: "fs_inv s bs" and bm: "bitmap_ok s sb" and post: "balloc_post sb s bs x s'" and free: "\<exists>y < sb_size sb. \<not> used s sb y"
  shows "bitmap_ok s' sb" and "own_block sb s a \<Longrightarrow> own_block sb s' a" and "own_block sb s' x" and "own_block sb s a \<Longrightarrow> a \<noteq> x"
    and "free_blocks sb s' = free_blocks sb s - 1" and "x \<noteq> 0"
proof -
  have x: "x < sb_size sb" "\<not> used s sb x" "img s' = img s" "lg_size (fs_log s') = lg_size (fs_log s)" "lg_start (fs_log s') = lg_start (fs_log s)"
    using post free by (auto simp: balloc_post_def)
  note u = used_after_balloc [OF inv bm post free]
  have d: "fs_data s' y = fs_data s y" for y using same_data(1) [OF x(3-5)] .
  show bm': "bitmap_ok s' sb" using bm u x(3) by (auto simp: bitmap_ok_def d)
  show "own_block sb s a \<Longrightarrow> own_block sb s' a" using u by (auto simp: own_block_def d)
  show "own_block sb s' x" using bm x(1,2) u [OF x(1)] by (auto simp: own_block_def bitmap_ok_def d)
  show "own_block sb s a \<Longrightarrow> a \<noteq> x" using x(2) by (auto simp: own_block_def)
  have "{y. y < sb_size sb \<and> \<not> used s' sb y} = {y. y < sb_size sb \<and> \<not> used s sb y} - {x}" using u by auto
  then show "free_blocks sb s' = free_blocks sb s - 1" using x(1,2) by (simp add: free_blocks_def)
  show "x \<noteq> 0" using bm x(1,2) by (auto simp: bitmap_ok_def fs_data_def data_block_def)
qed

lemma ino_simps [simp]:
  "ino (upd_fs t s) ip = ino t ip" "if_fs (upd_fs t s) = s" "if_fs (upd_inode ip f t) = if_fs t" "length (if_inodes (upd_inode ip f t)) = length (if_inodes t)"
  "if_inodes (upd_fs t s) = if_inodes t" "ip < length (if_inodes t) \<Longrightarrow> ino (upd_inode ip f t) ip = f (ino t ip)"
  by (simp_all add: ino_def upd_fs_def upd_inode_def)

text \<open>The address of a direct block, allocated when the file has none there. Contents of other blocks that
  belong to files are kept.\<close>

lemma own_addr_inv:
  assumes inv: "file_inv sb ip t bs" and k: "k < NDIRECT" and rm: "room (if_fs t) bs 2" and fr: "0 < free_blocks sb (if_fs t)"
  obtains a t' bs' where "own_addr sb ip k t = Some (a, t')" "a \<noteq> 0" "file_inv sb ip t' bs'" "length bs' \<le> length bs + 2"
    "i_addrs (ino t' ip) = (i_addrs (ino t ip))[k := a]" "i_addrs (ino t ip) ! k \<noteq> 0 \<longrightarrow> a = i_addrs (ino t ip) ! k"
    "ino t' ip = (ino t ip)\<lparr>i_addrs := i_addrs (ino t' ip)\<rparr>" "\<forall>b. own_block sb (if_fs t) b \<longrightarrow> fs_content (if_fs t') b = fs_content (if_fs t) b"
    "img (if_fs t') = img (if_fs t)" "lg_size (fs_log (if_fs t')) = lg_size (fs_log (if_fs t))" "free_blocks sb (if_fs t) \<le> free_blocks sb (if_fs t') + 1"
    "\<forall>b. own_block sb (if_fs t) b \<longrightarrow> own_block sb (if_fs t') b" "a \<in> set bs' \<or> bs' = bs \<and> i_addrs (ino t ip) ! k \<noteq> 0"
proof (cases "i_addrs (ino t ip) ! k = 0")
  case False
  have len: "k < length (i_addrs (ino t ip))" using inv k by (simp add: file_inv_def addrs_ok_def)
  show ?thesis
    by (rule that [of "i_addrs (ino t ip) ! k" t bs]) (use False inv in \<open>simp_all add: own_addr_def Let_def list_update_id\<close>)
next
  case True
  let ?s = "if_fs t" and ?i = "ino t ip"
  have I: "fs_inv ?s bs" "bitmap_ok ?s sb" "1 \<le> lg_outstanding (fs_log ?s)" "ip < length (if_inodes t)" "addrs_ok sb ?s (i_addrs ?i)" "i_dev ?i = 0"
    "own_block sb ?s (inode_block sb ?i)" "inode_block sb ?i \<notin> set (take NDIRECT (i_addrs ?i))"
    using inv by (auto simp: file_inv_def)
  have free: "\<exists>y < sb_size sb. \<not> used ?s sb y" using fr by (auto simp: free_blocks_def card_gt_0_iff)
  obtain x s where b: "balloc sb ?s = Some (x, s)" "balloc_post sb ?s bs x s" using balloc_inv [OF I(1-3) rm] by blast
  note B = balloc_bitmap [OF I(1,2) b(2) free]
  let ?bs = "add_block x (add_block (BBLOCK x sb) bs)" and ?t = "set_addr ip k x (upd_fs t s)"
  have P: "fs_inv s ?bs" "img s = img ?s" "lg_size (fs_log s) = lg_size (fs_log ?s)" "lg_outstanding (fs_log s) = lg_outstanding (fs_log ?s)"
    "x < sb_size sb" "fs_content s = (fs_content ?s)(BBLOCK x sb := mark_bit (unat x mod BPB) (fs_content ?s (BBLOCK x sb)), x := replicate BSIZE 0)"
    using b(2) free by (auto simp: balloc_post_def)
  have it: "ino ?t ip = ?i\<lparr>i_addrs := (i_addrs ?i)[k := x]\<rparr>" "if_fs ?t = s" "length (if_inodes ?t) = length (if_inodes t)"
    using I(4) by (simp_all add: set_addr_def)
  have len: "length (i_addrs ?i) = NDIRECT + 1" using I(5) by (simp add: addrs_ok_def)
  have no_x: "i_addrs ?i ! j \<noteq> x" if "j < NDIRECT" for j using I(5) that B(4,6) by (auto simp: addrs_ok_def)
  have "addrs_ok sb s ((i_addrs ?i)[k := x])"
    unfolding addrs_ok_def
  proof (intro conjI allI impI)
    show "length ((i_addrs ?i)[k := x]) = NDIRECT + 1" using len by simp
    show "own_block sb s ((i_addrs ?i)[k := x] ! j)" if "j < NDIRECT" "(i_addrs ?i)[k := x] ! j \<noteq> 0" for j
      using that I(5) B(2,3) len k by (cases "j = k") (auto simp: addrs_ok_def)
    show "j = l" if "j < NDIRECT" "l < NDIRECT" "(i_addrs ?i)[k := x] ! j = (i_addrs ?i)[k := x] ! l \<and> (i_addrs ?i)[k := x] ! j \<noteq> 0" for j l
      using that I(5) no_x len k by (cases "j = k"; cases "l = k") (auto simp: addrs_ok_def)
  qed
  moreover have "inode_block sb ?i \<notin> set (take NDIRECT ((i_addrs ?i)[k := x]))"
    using I(8) B(4) [OF I(7)] k len set_update_subset_insert [of "take NDIRECT (i_addrs ?i)" k x] by (auto simp: take_update_swap)
  moreover have "inode_block sb (ino ?t ip) = inode_block sb ?i" "i_dev (ino ?t ip) = 0" using it(1) I(6) by (simp_all add: inode_block_def)
  ultimately have inv': "file_inv sb ip ?t ?bs" using P(1,4) I(3,4,7) B(1,2) it by (simp add: file_inv_def)
  have "fs_content s b = fs_content ?s b" if "own_block sb ?s b" for b
    using P(6) B(4) [OF that] that P(5) by (auto simp: own_block_def)
  then show ?thesis
    by (intro that [of x ?t ?bs]) (use True b(1) B inv' it P(2,3) len k in \<open>auto simp: own_addr_def Let_def add_block_def\<close>)
qed

section \<open>Writing one block\<close>

lemma write_block_inv:
  assumes inv: "file_inv sb ip t bs" and a: "own_block sb (if_fs t) a" and rm: "a \<in> set bs \<or> room (if_fs t) bs 1" and d: "length d = BSIZE"
  obtains i c s2 c' where "bread 0 a (fs_cache (if_fs t)) = Some (Some i, c)" "b_data (bc_bufs c ! i) = fs_content (if_fs t) a"
    "log_write i (upd_cache (if_fs t) (set_data i d c)) = Some s2" "brelse i (fs_cache s2) = Some c'"
    "file_inv sb ip (upd_fs t (upd_cache s2 c')) (add_block a bs)" "fs_content (upd_cache s2 c') = (fs_content (if_fs t))(a := d)"
    "img (upd_cache s2 c') = img (if_fs t)" "lg_size (fs_log s2) = lg_size (fs_log (if_fs t))"
    "\<forall>b. own_block sb (upd_cache s2 c') b = own_block sb (if_fs t) b" "free_blocks sb (upd_cache s2 c') = free_blocks sb (if_fs t)"
proof -
  let ?s = "if_fs t"
  have I: "fs_inv ?s bs" "bitmap_ok ?s sb" "1 \<le> lg_outstanding (fs_log ?s)" "ip < length (if_inodes t)"
    using inv by (auto simp: file_inv_def)
  have a': "fs_data ?s a" "a \<noteq> 1" "\<forall>y < sb_size sb. BBLOCK y sb \<noteq> a" using a by (auto simp: own_block_def)
  obtain i c s2 c' where u: "bread 0 a (fs_cache ?s) = Some (Some i, c)" "b_data (bc_bufs c ! i) = fs_content ?s a"
    "log_write i (upd_cache ?s (set_data i d c)) = Some s2" "brelse i (fs_cache s2) = Some c'"
    "fs_inv (upd_cache s2 c') (add_block a bs)" "fs_content (upd_cache s2 c') = (fs_content ?s)(a := d)"
    "img (upd_cache s2 c') = img ?s" "writes (upd_cache s2 c') = writes ?s"
    "lg_outstanding (fs_log s2) = lg_outstanding (fs_log ?s)" "lg_size (fs_log s2) = lg_size (fs_log ?s)" "lg_start (fs_log s2) = lg_start (fs_log ?s)"
    by (rule fs_update [OF I(1) a'(1,2) I(3) rm d])
  let ?s2 = "upd_cache s2 c'"
  have lg: "fs_log ?s2 = fs_log s2" by (simp add: upd_cache_def)
  have us: "used ?s2 sb y = used ?s sb y" if "y < sb_size sb" for y using a'(3) that u(6) by (auto simp: used_def)
  have dt: "fs_data ?s2 b = fs_data ?s b" for b using same_data(1) [OF u(7)] u(10,11) by (simp add: lg)
  have ob: "own_block sb ?s2 b = own_block sb ?s b" for b using us by (auto simp: own_block_def dt)
  have "bitmap_ok ?s2 sb" using I(2) us u(7) by (auto simp: bitmap_ok_def dt)
  moreover have "addrs_ok sb ?s2 as = addrs_ok sb ?s as" for as by (simp add: addrs_ok_def ob)
  ultimately have "file_inv sb ip (upd_fs t ?s2) (add_block a bs)" using inv u(5,9) by (simp add: file_inv_def ob lg)
  moreover have "free_blocks sb ?s2 = free_blocks sb ?s" unfolding free_blocks_def using us by (metis (no_types, lifting) Collect_cong)
  ultimately show thesis using that u(1-4,6,7,10) ob by blast
qed

section \<open>Chunks\<close>

definition need :: "nat \<Rightarrow> nat \<Rightarrow> nat" where
  "need p n = (if n = 0 then 0 else (p mod BSIZE + n + BSIZE - 1) div BSIZE)"

lemma need_step:
  assumes n: "0 < n" and m: "m = min (BSIZE - p mod BSIZE) n"
  shows "need (p + m) (n - m) + 1 = need p n"
proof (cases "n \<le> BSIZE - p mod BSIZE")
  case True
  then have "p mod BSIZE + n + BSIZE - 1 = BSIZE + (p mod BSIZE + n - 1)" "p mod BSIZE + n - 1 < BSIZE" using n by (auto simp: BSIZE_def)
  then have "(p mod BSIZE + n + BSIZE - 1) div BSIZE = 1" by (simp add: BSIZE_def)
  then show ?thesis using True n m by (simp add: need_def)
next
  case False
  have lt: "p mod BSIZE < BSIZE" by (simp add: BSIZE_def)
  have mm: "m = BSIZE - p mod BSIZE" using False m by simp
  have "(p + m) mod BSIZE = (p mod BSIZE + m) mod BSIZE" by (simp add: mod_simps)
  also have "\<dots> = 0" using mm lt by simp
  finally have 0: "(p + m) mod BSIZE = 0" .
  have "p mod BSIZE + n + BSIZE - 1 = BSIZE + (n - m + BSIZE - 1)" "0 < n - m" using mm lt False by auto
  then show ?thesis using n 0 by (simp add: need_def BSIZE_def)
qed

lemma chunk_unat: "chunk off n = min (BSIZE - unat off mod BSIZE) n"
  by (simp add: chunk_def)

lemma same_block:
  assumes "j < chunk off n"
  shows "(unat off + j) div BSIZE = unat off div BSIZE" and "(unat off + j) mod BSIZE = unat off mod BSIZE + j"
proof -
  let ?q = "unat off div BSIZE" and ?r = "unat off mod BSIZE"
  have r: "?r + j < BSIZE" using assms unfolding chunk_def min_less_iff_conj by linarith
  have "unat off + j = ?q * BSIZE + (?r + j)" by simp
  then show "(unat off + j) div BSIZE = ?q" "(unat off + j) mod BSIZE = ?r + j"
    using r by (metis div_mult_self3 div_less add_0 bot_nat_0.not_eq_extremum add.commute less_zeroE mod_less mod_mult_self3)+
qed

lemma put_bytes_nth:
  assumes "k + length new \<le> length d" and "p < length d"
  shows "put_bytes k new d ! p = (if k \<le> p \<and> p < k + length new then new ! (p - k) else d ! p)" and "length (put_bytes k new d) = length d"
  using assms by (auto simp: put_bytes_def nth_append min_def)

lemma unat_off_add: "unat (off :: u32) + n < 2 ^ 32 \<Longrightarrow> unat (off + of_nat n) = unat off + n"
  by (rule unat_add_u32)

lemma off_block: "unat (off div of_nat BSIZE :: u32) = unat off div BSIZE"
  by (simp add: unat_div BSIZE_def)

section \<open>The loops\<close>

text \<open>What writing \<open>src\<close> at \<open>p\<close> does to a file.\<close>

definition written :: "nat \<Rightarrow> ifs \<Rightarrow> nat \<Rightarrow> bytes \<Rightarrow> ifs \<Rightarrow> bool" where
  "written ip t p src t' \<longleftrightarrow>
     (\<forall>j < length src. faddr ip t' (p + j) \<noteq> 0 \<and> fbyte ip t' (p + j) = src ! j) \<and>
     (\<forall>q < NDIRECT * BSIZE. faddr ip t q \<noteq> 0 \<longrightarrow> faddr ip t' q = faddr ip t q \<and>
        (q < p \<or> p + length src \<le> q \<longrightarrow> fbyte ip t' q = fbyte ip t q)) \<and>
     ino t' ip = (ino t ip)\<lparr>i_addrs := i_addrs (ino t' ip)\<rparr> \<and>
     img (if_fs t') = img (if_fs t) \<and> lg_size (fs_log (if_fs t')) = lg_size (fs_log (if_fs t))"

lemma written_trans:
  assumes 1: "written ip t p (take m src) t1" and 2: "written ip t1 (p + m) (drop m src) t2" and m: "m \<le> length src"
    and b: "p + length src \<le> NDIRECT * BSIZE"
  shows "written ip t p src t2"
proof -
  have A: "faddr ip t2 (p + j) \<noteq> 0 \<and> fbyte ip t2 (p + j) = src ! j" if j: "j < length src" for j
  proof (cases "j < m")
    case True
    then have "faddr ip t1 (p + j) \<noteq> 0" "fbyte ip t1 (p + j) = src ! j" using 1 m by (auto simp: written_def)
    moreover have "p + j < NDIRECT * BSIZE" using j b by linarith
    ultimately show ?thesis using 2 True unfolding written_def by auto
  next
    case False
    then show ?thesis using 2 j unfolding written_def by (auto dest: spec [of _ "j - m"])
  qed
  have B: "faddr ip t2 q = faddr ip t q \<and> (q < p \<or> p + length src \<le> q \<longrightarrow> fbyte ip t2 q = fbyte ip t q)"
    if q: "q < NDIRECT * BSIZE" "faddr ip t q \<noteq> 0" for q
  proof -
    have "faddr ip t1 q = faddr ip t q" "q < p \<or> p + m \<le> q \<longrightarrow> fbyte ip t1 q = fbyte ip t q"
      using 1 q m by (auto simp: written_def)
    moreover have "faddr ip t2 q = faddr ip t1 q" "q < p + m \<or> p + length src \<le> q \<longrightarrow> fbyte ip t2 q = fbyte ip t1 q"
      using 2 q calculation(1) m by (auto simp: written_def)
    ultimately show ?thesis using m by auto
  qed
  have e: "ino t1 ip = (ino t ip)\<lparr>i_addrs := i_addrs (ino t1 ip)\<rparr>" "ino t2 ip = (ino t1 ip)\<lparr>i_addrs := i_addrs (ino t2 ip)\<rparr>"
    using 1 2 by (simp_all add: written_def)
  have "(ino t1 ip)\<lparr>i_addrs := x\<rparr> = (ino t ip)\<lparr>i_addrs := x\<rparr>" for x by (subst e(1)) simp
  then have "ino t2 ip = (ino t ip)\<lparr>i_addrs := i_addrs (ino t2 ip)\<rparr>" using e(2) by simp
  then show ?thesis using A B 1 2 unfolding written_def by simp
qed

text \<open>One round of the loop of \<^verbatim>\<open>writei\<close>.\<close>

lemma write_chunk:
  assumes inv: "file_inv sb ip t bs" and src: "src \<noteq> []" and off: "unat off + length src \<le> NDIRECT * BSIZE"
    and rm: "room (if_fs t) bs 2" and fr: "0 < free_blocks sb (if_fs t)"
  obtains t2 bs2 where "writei_loop sb ip off src t = writei_loop sb ip (off + of_nat (chunk off (length src))) (drop (chunk off (length src)) src) t2"
    "file_inv sb ip t2 bs2" "length bs2 \<le> length bs + 2" "written ip t (unat off) (take (chunk off (length src)) src) t2"
    "free_blocks sb (if_fs t) \<le> free_blocks sb (if_fs t2) + 1"
proof -
  let ?m = "chunk off (length src)" and ?k = "unat off div BSIZE" and ?r = "unat off mod BSIZE"
  have m: "0 < ?m" "?m \<le> length src" "?r + ?m \<le> BSIZE" using chunk_pos(1) [of "length src" off] chunk_pos(2) [of off "length src"] src by (auto simp: chunk_def BSIZE_def)
  have k: "?k < NDIRECT" using off src by (auto simp: less_mult_imp_div_less BSIZE_def length_greater_0_conv [symmetric] simp del: length_greater_0_conv)
  obtain a t1 bs1 where A: "own_addr sb ip ?k t = Some (a, t1)" "a \<noteq> 0" "file_inv sb ip t1 bs1" "length bs1 \<le> length bs + 2"
    "i_addrs (ino t1 ip) = (i_addrs (ino t ip))[?k := a]" "i_addrs (ino t ip) ! ?k \<noteq> 0 \<longrightarrow> a = i_addrs (ino t ip) ! ?k"
    "ino t1 ip = (ino t ip)\<lparr>i_addrs := i_addrs (ino t1 ip)\<rparr>" "\<forall>b. own_block sb (if_fs t) b \<longrightarrow> fs_content (if_fs t1) b = fs_content (if_fs t) b"
    "img (if_fs t1) = img (if_fs t)" "lg_size (fs_log (if_fs t1)) = lg_size (fs_log (if_fs t))" "free_blocks sb (if_fs t) \<le> free_blocks sb (if_fs t1) + 1"
    "\<forall>b. own_block sb (if_fs t) b \<longrightarrow> own_block sb (if_fs t1) b" "a \<in> set bs1 \<or> bs1 = bs \<and> i_addrs (ino t ip) ! ?k \<noteq> 0"
    by (rule own_addr_inv [OF inv k rm fr])
  have len: "length (i_addrs (ino t ip)) = NDIRECT + 1" using inv by (simp add: file_inv_def addrs_ok_def)
  have ak: "i_addrs (ino t1 ip) ! ?k = a" using A(5) k len by simp
  have dev: "i_dev (ino t1 ip) = 0" and ob: "own_block sb (if_fs t1) a"
    using A(3) ak A(2) k by (auto simp: file_inv_def addrs_ok_def)
  have I1: "fs_inv (if_fs t1) bs1" using A(3) by (simp add: file_inv_def)
  have cl: "length (fs_content (if_fs t1) a) = BSIZE" using fs_content_length [OF I1] ob by (simp add: own_block_def fs_data_def data_block_def)
  let ?d = "put_bytes ?r (take ?m src) (fs_content (if_fs t1) a)"
  have ml: "length (take ?m src) = ?m" using m(2) by simp
  note pb = put_bytes_nth [of ?r "take ?m src" "fs_content (if_fs t1) a", unfolded ml cl, OF m(3)]
  have dl: "length ?d = BSIZE" using pb(2) [of 0] by (simp add: BSIZE_def)
  have rm1: "a \<in> set bs1 \<or> room (if_fs t1) bs1 1" using A(10,13) rm by (auto simp: room_def)
  obtain i c s2 c' where W: "bread 0 a (fs_cache (if_fs t1)) = Some (Some i, c)" "b_data (bc_bufs c ! i) = fs_content (if_fs t1) a"
    "log_write i (upd_cache (if_fs t1) (set_data i ?d c)) = Some s2" "brelse i (fs_cache s2) = Some c'"
    "file_inv sb ip (upd_fs t1 (upd_cache s2 c')) (add_block a bs1)" "fs_content (upd_cache s2 c') = (fs_content (if_fs t1))(a := ?d)"
    "img (upd_cache s2 c') = img (if_fs t1)" "lg_size (fs_log s2) = lg_size (fs_log (if_fs t1))"
    "\<forall>b. own_block sb (upd_cache s2 c') b = own_block sb (if_fs t1) b" "free_blocks sb (upd_cache s2 c') = free_blocks sb (if_fs t1)"
    by (rule write_block_inv [OF A(3) ob rm1 dl])
  let ?t2 = "upd_fs t1 (upd_cache s2 c')"
  have loop: "writei_loop sb ip off src t = writei_loop sb ip (off + of_nat ?m) (drop ?m src) ?t2"
    using src A(1,2) k W(1-4) dev by (subst writei_loop.simps) (simp add: bmap_def off_block Let_def)
  have i2: "ino ?t2 ip = ino t1 ip" by simp
  have fa: "faddr ip ?t2 q = (if q div BSIZE = ?k then a else faddr ip t q)" for q
    using A(5) k len by (simp add: faddr_def nth_list_update)
  have own: "own_block sb (if_fs t) (faddr ip t q)" "faddr ip t q = faddr ip t q' \<longrightarrow> q div BSIZE = q' div BSIZE"
    if "q < NDIRECT * BSIZE" "faddr ip t q \<noteq> 0" "q' < NDIRECT * BSIZE" for q q'
  proof -
    have "q div BSIZE < NDIRECT" "q' div BSIZE < NDIRECT" using that by (simp_all add: less_mult_imp_div_less)
    then show "own_block sb (if_fs t) (faddr ip t q)" "faddr ip t q = faddr ip t q' \<longrightarrow> q div BSIZE = q' div BSIZE"
      using inv that(2) by (auto simp: file_inv_def addrs_ok_def faddr_def)
  qed
  have first: "faddr ip ?t2 (unat off + j) \<noteq> 0 \<and> fbyte ip ?t2 (unat off + j) = take ?m src ! j" if j: "j < ?m" for j
  proof -
    note sb = same_block [OF j]
    have "?r + j < BSIZE" using j m(3) by linarith
    then show ?thesis using pb(1) [of "?r + j"] j A(2) by (simp add: fbyte_def fa sb W(6))
  qed
  have keep: "faddr ip ?t2 q = faddr ip t q \<and> (q < unat off \<or> unat off + ?m \<le> q \<longrightarrow> fbyte ip ?t2 q = fbyte ip t q)"
    if q: "q < NDIRECT * BSIZE" "faddr ip t q \<noteq> 0" for q
  proof (cases "q div BSIZE = ?k")
    case True
    then have aq: "faddr ip t q = a" using A(6) q(2) by (simp add: faddr_def)
    have ca: "fs_content (if_fs t1) a = fs_content (if_fs t) a" using A(8) own(1) [OF q q(1)] aq by simp
    have "q mod BSIZE < BSIZE" by (simp add: BSIZE_def)
    moreover have "q = ?k * BSIZE + q mod BSIZE" "unat off = ?k * BSIZE + ?r"
      using True div_mult_mod_eq [of q BSIZE] div_mult_mod_eq [of "unat off" BSIZE] by simp_all
    then have "\<not> (?r \<le> q mod BSIZE \<and> q mod BSIZE < ?r + ?m)" if "q < unat off \<or> unat off + ?m \<le> q"
      using that by linarith
    ultimately show ?thesis using pb(1) [of "q mod BSIZE"] True aq by (auto simp: fbyte_def fa W(6) ca)
  next
    case False
    have "faddr ip t q \<noteq> a"
    proof
      assume eq: "faddr ip t q = a"
      have "?k * BSIZE < NDIRECT * BSIZE" using k by (simp add: BSIZE_def)
      moreover have "faddr ip ?t2 q = faddr ip ?t2 (?k * BSIZE)" "faddr ip ?t2 q \<noteq> 0" using False eq A(2) by (simp_all add: fa BSIZE_def)
      ultimately show False using W(5) False q(1) less_mult_imp_div_less [of q NDIRECT BSIZE]
        by (auto simp: file_inv_def addrs_ok_def faddr_def BSIZE_def)
    qed
    then show ?thesis using False A(8) own(1) [OF q q(1)] by (simp add: fbyte_def fa W(6))
  qed
  have "written ip t (unat off) (take ?m src) ?t2"
    unfolding written_def ml using first keep A(7,9,10) W(7,8) by (auto simp: upd_cache_def)
  moreover have "length (add_block a bs1) \<le> length bs + 2" using A(4,13) by (auto simp: add_block_def)
  ultimately show thesis using that [OF loop W(5)] A(11) W(10) by simp
qed

lemma writei_loop_inv:
  assumes "file_inv sb ip t bs" and "unat off + length src \<le> NDIRECT * BSIZE"
    and "room (if_fs t) bs (2 * need (unat off) (length src))" and "need (unat off) (length src) \<le> free_blocks sb (if_fs t)"
  shows "\<exists>t' bs'. writei_loop sb ip off src t = Some (True, off + of_nat (length src), t') \<and> file_inv sb ip t' bs' \<and>
    length bs' \<le> length bs + 2 * need (unat off) (length src) \<and> written ip t (unat off) src t'"
  using assms
proof (induction "length src" arbitrary: off src t bs rule: less_induct)
  case less
  show ?case
  proof (cases "src = []")
    case True
    then show ?thesis using less.prems(1)
      by (intro exI [of _ t] exI [of _ bs]) (subst writei_loop.simps, simp add: written_def)
  next
    case False
    let ?m = "chunk off (length src)"
    have m: "0 < ?m" "?m \<le> length src" using chunk_pos(1) [of "length src" off] chunk_pos(2) [of off "length src"] False by auto
    have nd: "need (unat off + ?m) (length src - ?m) + 1 = need (unat off) (length src)" using need_step [OF _ chunk_unat] False by simp
    have small: "NDIRECT * BSIZE < 2 ^ 32" by (simp add: NDIRECT_def BSIZE_def)
    have uo: "unat (off + of_nat ?m) = unat off + ?m" using less.prems(2) m(2) small by (intro unat_off_add) linarith
    have rm: "room (if_fs t) bs 2" "0 < free_blocks sb (if_fs t)" using less.prems(3,4) nd by (auto simp: room_def)
    obtain t2 bs2 where C: "writei_loop sb ip off src t = writei_loop sb ip (off + of_nat ?m) (drop ?m src) t2"
      "file_inv sb ip t2 bs2" "length bs2 \<le> length bs + 2" "written ip t (unat off) (take ?m src) t2" "free_blocks sb (if_fs t) \<le> free_blocks sb (if_fs t2) + 1"
      by (rule write_chunk [OF less.prems(1) False less.prems(2) rm])
    have ls: "lg_size (fs_log (if_fs t2)) = lg_size (fs_log (if_fs t))" using C(4) by (simp add: written_def)
    have "\<exists>t' bs'. writei_loop sb ip (off + of_nat ?m) (drop ?m src) t2 = Some (True, off + of_nat ?m + of_nat (length (drop ?m src)), t') \<and> file_inv sb ip t' bs' \<and>
      length bs' \<le> length bs2 + 2 * need (unat (off + of_nat ?m)) (length (drop ?m src)) \<and> written ip t2 (unat (off + of_nat ?m)) (drop ?m src) t'"
    proof (rule less.hyps)
      show "length (drop ?m src) < length src" using m by simp
      show "file_inv sb ip t2 bs2" by (rule C(2))
      show "unat (off + of_nat ?m) + length (drop ?m src) \<le> NDIRECT * BSIZE" using uo less.prems(2) m by simp
      show "room (if_fs t2) bs2 (2 * need (unat (off + of_nat ?m)) (length (drop ?m src)))"
        using less.prems(3) nd C(3) ls uo by (simp add: room_def)
      show "need (unat (off + of_nat ?m)) (length (drop ?m src)) \<le> free_blocks sb (if_fs t2)"
        using less.prems(4) nd C(5) uo by simp
    qed
    then obtain t' bs' where T: "writei_loop sb ip (off + of_nat ?m) (drop ?m src) t2 = Some (True, off + of_nat ?m + of_nat (length (drop ?m src)), t')"
      "file_inv sb ip t' bs'" "length bs' \<le> length bs2 + 2 * need (unat (off + of_nat ?m)) (length (drop ?m src))" "written ip t2 (unat off + ?m) (drop ?m src) t'"
      unfolding uo by blast
    have "off + of_nat ?m + of_nat (length (drop ?m src)) = off + of_nat (length src)" using m(2) by (simp add: of_nat_diff)
    moreover have "written ip t (unat off) src t'" using written_trans [OF C(4) T(4) m(2) less.prems(2)] .
    moreover have "length bs' \<le> length bs + 2 * need (unat off) (length src)" using T(3) C(3) nd uo by simp
    ultimately show ?thesis using T(1,2) C(1) by auto
  qed
qed

text \<open>Reading changes neither contents nor inodes.\<close>

lemma readi_loop_inv:
  assumes "file_inv sb ip t bs" and "unat off + n \<le> NDIRECT * BSIZE" and "\<forall>j < n. faddr ip t (unat off + j) \<noteq> 0"
  shows "\<exists>t'. readi_loop sb ip off n dst t = Some (True, dst @ map (fbyte ip t) [unat off..<unat off + n], t') \<and> file_inv sb ip t' bs \<and>
    fs_content (if_fs t') = fs_content (if_fs t) \<and> if_inodes t' = if_inodes t"
  using assms
proof (induction n arbitrary: off dst t rule: less_induct)
  case (less n)
  show ?case
  proof (cases "n = 0")
    case True
    then show ?thesis using less.prems(1) by (intro exI [of _ t]) (subst readi_loop.simps, simp)
  next
    case False
    let ?m = "chunk off n" and ?k = "unat off div BSIZE" and ?r = "unat off mod BSIZE" and ?s = "if_fs t"
    have m: "0 < ?m" "?m \<le> n" "?r + ?m \<le> BSIZE" using chunk_pos(1) [of n off] chunk_pos(2) [of off n] False by (auto simp: chunk_def BSIZE_def)
    have k: "?k < NDIRECT" using less.prems(2) False by (simp add: less_mult_imp_div_less)
    define a where "a = i_addrs (ino t ip) ! ?k"
    have a: "a \<noteq> 0" using less.prems(3) False by (auto simp: faddr_def a_def)
    have I: "fs_inv ?s bs" "i_dev (ino t ip) = 0" "own_block sb ?s a" using less.prems(1) k a by (auto simp: file_inv_def addrs_ok_def a_def)
    have au: "unat a < length (img ?s)" using I(3) by (simp add: own_block_def fs_data_def data_block_def)
    have fr: "a \<in> set bs \<or> length bs < NBUF" using loggedD(5) [OF log_diskD(1) [OF fs_invD(2) [OF I(1)]]] by simp
    obtain i c c' where r: "bread 0 a (fs_cache ?s) = Some (Some i, c)" "b_data (bc_bufs c ! i) = fs_content ?s a" "brelse i c = Some c'"
      "fs_inv (upd_cache ?s c') bs" "fs_content (upd_cache ?s c') = fs_content ?s" "img (upd_cache ?s c') = img ?s"
      by (rule fs_read [OF I(1) a au fr])
    let ?t = "upd_fs t (upd_cache ?s c')" and ?d = "take ?m (drop ?r (fs_content ?s a))"
    have cl: "length (fs_content ?s a) = BSIZE" using fs_content_length [OF I(1) au] .
    have eq: "used (upd_cache ?s c') = used ?s" "fs_data (upd_cache ?s c') = fs_data ?s" "fs_log (upd_cache ?s c') = fs_log ?s"
      using r(5,6) by (simp_all add: used_def fs_data_def fun_eq_iff) (simp_all add: upd_cache_def)
    have "own_block sb (upd_cache ?s c') = own_block sb ?s" by (simp add: fun_eq_iff own_block_def eq)
    then have ob: "own_block sb (upd_cache ?s c') = own_block sb ?s" "addrs_ok sb (upd_cache ?s c') = addrs_ok sb ?s" "bitmap_ok (upd_cache ?s c') sb = bitmap_ok ?s sb"
      using r(6) by (simp_all add: fun_eq_iff addrs_ok_def bitmap_ok_def eq)
    have inv: "file_inv sb ip ?t bs" using less.prems(1) r(4) by (simp add: file_inv_def ob eq)
    have fb: "fbyte ip ?t = fbyte ip t" "faddr ip ?t = faddr ip t" using r(5) by (simp_all add: fun_eq_iff fbyte_def faddr_def)
    have d: "?d = map (fbyte ip t) [unat off..<unat off + ?m]"
    proof (rule nth_equalityI)
      show "length ?d = length (map (fbyte ip t) [unat off..<unat off + ?m])" using m(3) cl by simp
      fix j assume "j < length ?d"
      then have j: "j < ?m" by simp
      then have "?d ! j = fs_content ?s a ! (?r + j)" using m(3) cl by simp
      then show "?d ! j = map (fbyte ip t) [unat off..<unat off + ?m] ! j" using j same_block [OF j] by (simp add: fbyte_def faddr_def a_def)
    qed
    have small: "NDIRECT * BSIZE < 2 ^ 32" by (simp add: NDIRECT_def BSIZE_def)
    have uo: "unat (off + of_nat ?m) = unat off + ?m" using less.prems(2) m(2) small by (intro unat_off_add) linarith
    have "\<exists>t'. readi_loop sb ip (off + of_nat ?m) (n - ?m) (dst @ ?d) ?t =
        Some (True, (dst @ ?d) @ map (fbyte ip ?t) [unat (off + of_nat ?m)..<unat (off + of_nat ?m) + (n - ?m)], t') \<and> file_inv sb ip t' bs \<and>
        fs_content (if_fs t') = fs_content (if_fs ?t) \<and> if_inodes t' = if_inodes ?t"
    proof (rule less.IH)
      show "n - ?m < n" using m(1) False by simp
      show "file_inv sb ip ?t bs" by (rule inv)
      show "unat (off + of_nat ?m) + (n - ?m) \<le> NDIRECT * BSIZE" using uo less.prems(2) m(2) by simp
      show "\<forall>j < n - ?m. faddr ip ?t (unat (off + of_nat ?m) + j) \<noteq> 0"
        using less.prems(3) uo unfolding fb by (auto simp: add.assoc)
    qed
    then obtain t' where T: "readi_loop sb ip (off + of_nat ?m) (n - ?m) (dst @ ?d) ?t = Some (True, (dst @ ?d) @ map (fbyte ip t) [unat off + ?m..<unat off + n], t')"
      "file_inv sb ip t' bs" "fs_content (if_fs t') = fs_content ?s" "if_inodes t' = if_inodes t"
      using uo m(2) r(5) by (auto simp: fb)
    have "[unat off..<unat off + ?m] @ [unat off + ?m..<unat off + n] = [unat off..<unat off + n]"
      using m(2) by (metis le_add_diff_inverse upt_add_eq_append le_add1 add.assoc)
    then have j: "(dst @ ?d) @ map (fbyte ip t) [unat off + ?m..<unat off + n] = dst @ map (fbyte ip t) [unat off..<unat off + n]"
      unfolding d by (metis append.assoc map_append)
    have "readi_loop sb ip off n dst t = readi_loop sb ip (off + of_nat ?m) (n - ?m) (dst @ ?d) ?t"
      using False k a r(1-3) I(2) by (subst readi_loop.simps) (simp add: bmap_def off_block own_addr_def Let_def a_def)
    then show ?thesis using T unfolding j by auto
  qed
qed

end
