(* ===== verification/FS_Properties.thy ===== *)
theory FS_Properties
  imports FS_Block_Spec
begin

text \<open>The properties of the file system's log and block allocator, and a small disk on which they apply.\<close>

section \<open>A small disk\<close>

text \<open>Forty blocks: the superblock at 1, the log at 2 to 31, inodes at 32, the bitmap at 33, data from 34 on.\<close>

definition demo_sb :: superblock where
  "demo_sb = \<lparr>sb_magic = FSMAGIC, sb_size = 40, sb_nblocks = 6, sb_ninodes = 64, sb_nlog = 30, sb_logstart = 2,
     sb_inodestart = 32, sb_bmapstart = 33\<rparr>"

definition sb_bytes :: "superblock \<Rightarrow> bytes" where
  "sb_bytes sb = concat (map (le_bytes 4) [sb_magic sb, sb_size sb, sb_nblocks sb, sb_ninodes sb, sb_nlog sb, sb_logstart sb,
     sb_inodestart sb, sb_bmapstart sb])"

definition demo_image :: "bytes list" where
  "demo_image = (replicate 40 (replicate BSIZE 0))[1 := sb_bytes demo_sb @ replicate (BSIZE - 32) 0,
     33 := [255, 255, 255, 255, 3] @ replicate (BSIZE - 5) 0]"

lemma read_sb_bytes: "read_sb (sb_bytes sb @ rest) = sb"
proof -
  let ?ws = "[sb_magic sb, sb_size sb, sb_nblocks sb, sb_ninodes sb, sb_nlog sb, sb_logstart sb, sb_inodestart sb, sb_bmapstart sb]"
  have w: "le_word (take 4 (drop (4 * k) (sb_bytes sb @ rest))) = ?ws ! k" if "k < 8" for k
    unfolding sb_bytes_def using take_word_at [of k ?ws rest] that by simp
  show ?thesis using w [of 0] w [of 1] w [of 2] w [of 3] w [of 4] w [of 5] w [of 6] w [of 7] by (simp add: read_sb_def Let_def)
qed

lemma demo_image_nth:
  "length demo_image = 40" "demo_image ! 1 = sb_bytes demo_sb @ replicate (BSIZE - 32) 0"
  "demo_image ! 33 = [255, 255, 255, 255, 3] @ replicate (BSIZE - 5) 0"
  "n < 40 \<Longrightarrow> n \<noteq> 1 \<Longrightarrow> n \<noteq> 33 \<Longrightarrow> demo_image ! n = replicate BSIZE 0"
  by (simp_all add: demo_image_def)

lemma demo_lengths: "\<forall>b \<in> set demo_image. length b = BSIZE"
proof
  fix b assume "b \<in> set demo_image"
  then obtain n where n: "n < 40" "b = demo_image ! n" by (auto simp: in_set_conv_nth demo_image_nth(1))
  then show "length b = BSIZE"
    using demo_image_nth by (cases "n = 1"; cases "n = 33") (auto simp: sb_bytes_def BSIZE_def)
qed

lemma demo_log: "log_disk (sb_log demo_sb) [] demo_image"
proof -
  have sb: "read_sb (demo_image ! 1) = demo_sb" unfolding demo_image_nth(2) by (rule read_sb_bytes)
  have "lb (sb_log demo_sb) 0 = 2" by (simp add: lb_def sb_log_def demo_sb_def)
  then have "demo_image ! unat (lb (sb_log demo_sb) 0) = replicate BSIZE 0" by (simp add: demo_image_nth(4))
  then have "head_n (demo_image ! unat (lb (sb_log demo_sb) 0)) = 0" by (simp add: head_n_def i32_word_def BSIZE_def numeral_eq_Suc)
  then show ?thesis unfolding log_disk_def sb using demo_lengths
    by (simp add: logged_def geometry_def data_block_def sb_log_def zero_log_def demo_sb_def demo_image_nth(1) LOGSIZE_def)
qed

lemma demo_start:
  "\<exists>s. fs_start (boot_disk demo_image) = Some (demo_sb, s) \<and> fs_inv s [] \<and> img s = demo_image \<and> fs_log s = sb_log demo_sb"
proof -
  note D = log_diskD [OF demo_log]
  have sb: "read_sb (demo_image ! 1) = demo_sb" unfolding demo_image_nth(2) by (rule read_sb_bytes)
  obtain s where s: "fs_start (boot_disk demo_image) = Some (demo_sb, s)" "cache_rep (fs_cache s) (\<lambda>b. demo_image ! unat b) (\<lambda>_. 0) (\<lambda>_. False) demo_image []"
    "fs_log s = sb_log demo_sb"
    using start_empty [OF demo_log refl D(5) refl D(2)] unfolding sb by blast
  have "(\<lambda>_. 0) = pins []" by (simp add: pins_def fun_eq_iff)
  then show ?thesis using fs_invI(1,3) [of s] s demo_log by metis
qed

lemma begin_op_inv:
  assumes inv: "fs_inv s bs" and "\<not> lg_committing (fs_log s)"
    and "int (length bs) + (lg_outstanding (fs_log s) + 1) * MAXOPBLOCKS \<le> lg_size (fs_log s) - 1"
  shows "\<exists>s'. begin_op s = Some s' \<and> fs_inv s' bs \<and> fs_content s' = fs_content s \<and> img s' = img s \<and>
    fs_log s' = (fs_log s)\<lparr>lg_outstanding := lg_outstanding (fs_log s) + 1\<rparr>"
proof -
  have "lg_n (fs_log s) = int (length bs)" using inv by (simp add: fs_inv_def log_disk_def logged_def)
  moreover have "log_disk (l\<lparr>lg_outstanding := x\<rparr>) bs I = log_disk l bs I" for l x I
    by (simp add: log_disk_def logged_def geometry_def data_block_def lb_def)
  ultimately show ?thesis using assms by (auto simp: begin_op_def upd_log_def fs_inv_def fs_content_def img_def)
qed

text \<open>One block of the small disk is changed in a transaction that has not ended.\<close>

lemma demo_tx:
  "\<exists>s. fs_inv s [34] \<and> lg_outstanding (fs_log s) = 1 \<and> img s = demo_image \<and> fs_data s 34 \<and>
     lg_size (fs_log s) = 30 \<and> lg_start (fs_log s) = 2"
proof -
  obtain s where s: "fs_inv s []" "img s = demo_image" "fs_log s = sb_log demo_sb" using demo_start by blast
  have l: "lg_n (sb_log demo_sb) = 0" "lg_outstanding (sb_log demo_sb) = 0" "\<not> lg_committing (sb_log demo_sb)" "lg_size (sb_log demo_sb) = 30" "lg_start (sb_log demo_sb) = 2"
    by (simp_all add: sb_log_def zero_log_def demo_sb_def)
  obtain s1 where s1: "fs_inv s1 []" "img s1 = demo_image" "fs_log s1 = (sb_log demo_sb)\<lparr>lg_outstanding := 1\<rparr>"
    using begin_op_inv [OF s(1)] s(2,3) l by (auto simp: MAXOPBLOCKS_def)
  have d: "fs_data s1 34" "1 \<le> lg_outstanding (fs_log s1)" "room s1 [] 1" using s1 l by (simp_all add: fs_data_def data_block_def room_def demo_image_nth(1))
  from bzeroblk_inv [OF s1(1) d(1) _ d(2)] d(3)
  obtain s2 where s2: "fs_inv s2 [34]" "img s2 = img s1" "lg_outstanding (fs_log s2) = lg_outstanding (fs_log s1)"
    "lg_size (fs_log s2) = lg_size (fs_log s1)" "lg_start (fs_log s2) = lg_start (fs_log s1)" by (auto simp: add_block_def)
  then show ?thesis using s1 d(1) same_data(1) [OF s2(2,4,5)] l by auto
qed

section \<open>The allocator on the small disk\<close>

lemma demo_bits: "n < 40 \<Longrightarrow> bit_at ([255, 255, 255, 255, 3] @ rest) n \<longleftrightarrow> n < 34"
proof -
  assume n: "n < 40"
  have "\<forall>n \<in> set [0..<40]. bit_at [255, 255, 255, 255, 3] n \<longleftrightarrow> n < 34" by code_simp
  then have "bit_at [255, 255, 255, 255, 3] n \<longleftrightarrow> n < 34" using n by simp
  moreover have "([255, 255, 255, 255, 3] @ rest) ! (n div 8) = [255, 255, 255, 255, 3 :: 8 word] ! (n div 8)" using n by (intro nth_append_left) simp
  ultimately show ?thesis by (simp only: bit_at_def)
qed

lemma demo_bitmap:
  assumes s: "fs_inv s bs" "img s = demo_image" "lg_size (fs_log s) = 30" "lg_start (fs_log s) = 2" and bs: "33 \<notin> set bs"
  shows "bitmap_ok s demo_sb" and "x < 40 \<Longrightarrow> used s demo_sb x \<longleftrightarrow> x < 34"
proof -
  have x40: "x < 40 \<Longrightarrow> unat x < 40" for x :: u32 by (simp add: word_less_nat_alt)
  have blk: "BBLOCK x demo_sb = 33" if "x < 40" for x
  proof -
    have "unat (x div of_nat BPB) = 0" using x40 [OF that] by (simp add: unat_div BPB_def BSIZE_def)
    then have "x div of_nat BPB = 0" by (simp add: unat_eq_0)
    then show ?thesis by (simp add: BBLOCK_def demo_sb_def)
  qed
  have c: "fs_content s 33 = [255, 255, 255, 255, 3] @ replicate (BSIZE - 5) 0"
    using fun_cong [OF fs_invD(3) [OF s(1)], of 33] bs s(2) demo_image_nth(3) by (simp add: view_def)
  show u: "used s demo_sb x \<longleftrightarrow> x < 34" if "x < 40" for x
    using demo_bits [OF x40 [OF that]] x40 [OF that] by (simp add: used_def blk [OF that] c BPB_def BSIZE_def word_less_nat_alt)
  have "fs_data s 33" using s by (simp add: fs_data_def data_block_def demo_image_nth(1))
  moreover have "fs_data s x \<and> x \<noteq> 1" if "x < 40" "\<not> x < 34" for x
  proof -
    have "unat x < 40" "34 \<le> unat x" using that by (simp_all add: not_less word_less_nat_alt)
    moreover from this(2) have "34 \<le> uint x" unfolding unat_eq_nat_uint by linarith
    ultimately show ?thesis using s by (auto simp: fs_data_def data_block_def demo_image_nth(1))
  qed
  moreover have "sb_size demo_sb = 40" by (simp add: demo_sb_def)
  ultimately show "bitmap_ok s demo_sb" using u blk s(2) by (auto simp: bitmap_ok_def demo_image_nth(1))
qed

section \<open>Properties\<close>

text \<open>C4: A transaction is atomic and durable. When the last operation ends, the commit succeeds and every data
  block on the disk has the content the transaction gave it. If the machine stops after any number \<open>k\<close> of
  the block writes of the commit, the next start of the file system succeeds, and its recovery leaves on the
  disk either the old contents of all data blocks (the header was not yet written) or the new contents of all
  of them. The invariant assumed of the running system does not hold after a start whose recovery installed
  blocks: their reference counts are wrong then, as another property shows.\<close>

theorem fs_commit_atomic:
  assumes "fs_inv s bs" and "lg_outstanding (fs_log s) = 1"
  shows "\<exists>s' ws. end_op s = Some s' \<and> fs_inv s' [] \<and> lg_outstanding (fs_log s') = 0 \<and>
    img s' = put_blocks (img s) ws \<and> writes s' = writes s @ ws \<and> (\<forall>b. fs_data s b \<longrightarrow> img s' ! unat b = fs_content s b) \<and>
    (\<forall>k. \<exists>sb s2. fs_start (boot_disk (put_blocks (img s) (take k ws))) = Some (sb, s2) \<and>
       (\<forall>b. fs_data s b \<longrightarrow> img s2 ! unat b = (if k \<le> length bs then img s ! unat b else fs_content s b)))"
  using end_op_inv [OF assms] by (elim exE conjE) (intro exI conjI)

theorem fs_commit_atomic_witness:
  "\<exists>s. fs_inv s [34] \<and> lg_outstanding (fs_log s) = 1 \<and> fs_data s 34 \<and> (\<exists>s'. end_op s = Some s' \<and> img s' ! 34 = fs_content s 34)"
proof -
  obtain s where s: "fs_inv s [34]" "lg_outstanding (fs_log s) = 1" "fs_data s 34" using demo_tx by blast
  show ?thesis using fs_commit_atomic [OF s(1,2)] s by fastforce
qed

text \<open>C15: The block allocator. When some block is free, \<^verbatim>\<open>balloc\<close> returns the least free one; its bit in
  the bitmap is set and no other, the block reads as zeros, and every block other than it and its bitmap block
  keeps its content. When all blocks are in use it returns 0 and changes no content. The disk is not written
  before the commit.\<close>

theorem balloc_takes_free:
  assumes "fs_inv s bs" and "bitmap_ok s sb" and "1 \<le> lg_outstanding (fs_log s)" and "room s bs 2"
  shows "\<exists>x s' bs'. balloc sb s = Some (x, s') \<and> fs_inv s' bs' \<and> img s' = img s \<and>
    (if \<exists>y < sb_size sb. \<not> used s sb y
     then x < sb_size sb \<and> \<not> used s sb x \<and> (\<forall>y < x. used s sb y) \<and>
       (\<forall>y < sb_size sb. used s' sb y \<longleftrightarrow> y = x \<or> used s sb y) \<and> fs_content s' x = replicate BSIZE 0 \<and>
       (\<forall>b. b \<noteq> x \<and> b \<noteq> BBLOCK x sb \<longrightarrow> fs_content s' b = fs_content s b)
     else x = 0 \<and> fs_content s' = fs_content s)"
proof -
  obtain x s' where b: "balloc sb s = Some (x, s')" "balloc_post sb s bs x s'" using balloc_inv [OF assms] by blast
  note u = used_after_balloc [OF assms(1,2) b(2)]
  show ?thesis
  proof (cases "\<exists>y < sb_size sb. \<not> used s sb y")
    case True
    have "fs_content s' x = replicate BSIZE 0" "\<forall>b. b \<noteq> x \<and> b \<noteq> BBLOCK x sb \<longrightarrow> fs_content s' b = fs_content s b"
      "fs_inv s' (add_block x (add_block (BBLOCK x sb) bs))" "x < sb_size sb" "\<not> used s sb x" "\<forall>y < x. used s sb y" "img s' = img s"
      using b(2) unfolding balloc_post_def if_P [OF True] by (simp_all del: fun_upd_apply) (simp_all)
    then show ?thesis unfolding if_P [OF True] using b(1) u [OF True] by blast
  next
    case False
    show ?thesis using b unfolding balloc_post_def if_not_P [OF False] by blast
  qed
qed

theorem balloc_takes_free_witness:
  "\<exists>s s'. fs_inv s [34] \<and> room s [34] 2 \<and> bitmap_ok s demo_sb \<and> balloc demo_sb s = Some (34, s') \<and> used s' demo_sb 34"
proof -
  obtain s where s: "fs_inv s [34]" "lg_outstanding (fs_log s) = 1" "img s = demo_image" "lg_size (fs_log s) = 30" "lg_start (fs_log s) = 2"
    using demo_tx by blast
  have rm: "room s [34] 2" using s(4) by (simp add: room_def)
  note bm = demo_bitmap [OF s(1,3,4,5)]
  have sz: "sb_size demo_sb = 40" by (simp add: demo_sb_def)
  have f: "\<exists>y < sb_size demo_sb. \<not> used s demo_sb y" using bm(2) by (intro exI [of _ 34]) (simp add: sz)
  obtain x s' where x: "balloc demo_sb s = Some (x, s')" "x < 40" "\<not> used s demo_sb x" "\<forall>y < x. used s demo_sb y" "\<forall>y < 40. used s' demo_sb y \<longleftrightarrow> y = x \<or> used s demo_sb y"
    using balloc_takes_free [OF s(1) bm(1) _ rm] s(2) f by (auto simp: sz)
  have "x = 34"
  proof (rule antisym)
    show "x \<le> 34" using x(4) [rule_format, of 34] bm(2) [of 34] by (auto simp: not_less [symmetric])
    show "34 \<le> x" using x(2,3) bm(2) [of x] by (auto simp: not_less [symmetric])
  qed
  then show ?thesis using s(1) rm bm(1) x(1,5) by auto
qed

text \<open>C35: Freeing a block that was just allocated restores the bitmap: every block is in use exactly when it was
  before the allocation.\<close>

theorem bfree_undoes_balloc:
  assumes inv: "fs_inv s bs" and bm: "bitmap_ok s sb" and out: "1 \<le> lg_outstanding (fs_log s)" and rm: "room s bs 2"
    and free: "\<exists>y < sb_size sb. \<not> used s sb y"
  shows "\<exists>x s1 s2. balloc sb s = Some (x, s1) \<and> bfree sb x s1 = Some s2 \<and> (\<forall>y < sb_size sb. used s2 sb y \<longleftrightarrow> used s sb y)"
proof -
  obtain x s1 where b: "balloc sb s = Some (x, s1)" "balloc_post sb s bs x s1" using balloc_inv [OF inv bm out rm] by blast
  let ?bs = "add_block x (add_block (BBLOCK x sb) bs)"
  have x: "x < sb_size sb" "\<not> used s sb x" "fs_inv s1 ?bs" "img s1 = img s" "lg_outstanding (fs_log s1) = lg_outstanding (fs_log s)"
    "lg_size (fs_log s1) = lg_size (fs_log s)" "lg_start (fs_log s1) = lg_start (fs_log s)"
    using b(2) free by (auto simp: balloc_post_def)
  note u = used_after_balloc [OF inv bm b(2) free]
  have d: "fs_data s1 y = fs_data s y" for y using same_data(1) [OF x(4,6,7)] .
  have x0: "0 < x" using bm x(1,2) by (auto simp: bitmap_ok_def fs_data_def data_block_def word_gt_0)
  have bm1: "bitmap_ok s1 sb" using bm u x(4) by (auto simp: bitmap_ok_def d)
  have in_bs: "BBLOCK x sb \<in> set ?bs \<or> room s1 ?bs 1" by (simp add: add_block_def)
  have "used s1 sb x" "1 \<le> lg_outstanding (fs_log s1)" using u [OF x(1)] out x(5) by auto
  from bfree_inv [OF x(3) x0 x(1) bm1 this in_bs]
  obtain s2 where s2: "bfree sb x s1 = Some s2"
    "fs_content s2 = (fs_content s1)(BBLOCK x sb := clear_bit (unat x mod BPB) (fs_content s1 (BBLOCK x sb)))" by blast
  have "used s2 sb y \<longleftrightarrow> used s sb y" if "y < sb_size sb" for y
    using used_after_bfree [OF x(3) bm1 x(1) that s2(2)] u [OF that] x(2) by auto
  then show ?thesis using b(1) s2(1) by blast
qed

theorem bfree_undoes_balloc_witness:
  "\<exists>s x s1 s2. fs_inv s [34] \<and> balloc demo_sb s = Some (x, s1) \<and> bfree demo_sb x s1 = Some s2 \<and> (\<forall>y \<in> {33, 34}. used s2 demo_sb y \<longleftrightarrow> y = 33)"
proof -
  obtain s where s: "fs_inv s [34]" "lg_outstanding (fs_log s) = 1" "img s = demo_image" "lg_size (fs_log s) = 30" "lg_start (fs_log s) = 2"
    using demo_tx by blast
  have rm: "room s [34] 2" using s(4) by (simp add: room_def)
  note bm = demo_bitmap [OF s(1,3,4,5)]
  have sz: "sb_size demo_sb = 40" by (simp add: demo_sb_def)
  have f: "\<exists>y < sb_size demo_sb. \<not> used s demo_sb y" using bm(2) by (intro exI [of _ 34]) (simp add: sz)
  obtain x s1 s2 where "balloc demo_sb s = Some (x, s1)" "bfree demo_sb x s1 = Some s2" "\<forall>y < sb_size demo_sb. used s2 demo_sb y \<longleftrightarrow> used s demo_sb y"
    using bfree_undoes_balloc [OF s(1) bm(1) _ rm f] s(2) by auto
  then show ?thesis using s(1) bm(2) sz by auto
qed

text \<open>C36: Recovery breaks the reference counts. When the machine stopped after the header of a transaction was
  written and before it was cleared, the next start installs the logged blocks and unpins their buffers,
  which were never pinned in the new run: their counts become -1. A later \<^verbatim>\<open>bread\<close> of such a block
  returns its buffer locked with a count of 0, which \<^verbatim>\<open>bget\<close> takes for a buffer that is not in use.\<close>

theorem recovery_breaks_refcnt:
  assumes inv: "fs_inv s bs" and k: "length bs < k" "k \<le> 2 * length bs + 1" and b: "b \<in> set bs"
  shows "\<exists>sb s2 i c. fs_start (boot_disk (put_blocks (img s) (take k (commit_writes (fs_log s) (fs_content s) bs (img s))))) = Some (sb, s2) \<and>
    refs (fs_cache s2) b = -1 \<and> bread 0 b (fs_cache s2) = Some (Some i, c) \<and> b_locked (bc_bufs c ! i) \<and> b_refcnt (bc_bufs c ! i) = 0"
proof -
  let ?V = "fs_content s" and ?l = "fs_log s" and ?I = "img s"
  let ?J = "put_blocks ?I (take k (commit_writes ?l ?V bs ?I))"
  note F = fs_invD [OF inv]
  note D = log_diskD [OF F(2)]
  have V: "\<forall>b \<in> set bs. length (?V b) = BSIZE" using D(1) fs_content_length [OF inv] by (auto simp: logged_def data_block_def)
  define j where "j = k - length bs - 1"
  have j: "j \<le> length bs" "k = length bs + 1 + j" using k by (auto simp: j_def)
  have J: "?J = put_blocks ((put_blocks ?I (log_writes ?l ?V bs (length bs)))[unat (lb ?l 0) := log_head ?l ?I]) (home_writes ?V bs j)"
    using j by (simp add: commit_writes_def take_home_writes)
  note R = log_region [OF D(1) j(1), where V = ?V and hb = "log_head ?l ?I", folded J]
  note P = prefix_image [OF F(2) V, of k]
  have "\<forall>i < length bs. ?J ! unat (lb ?l (Suc i)) = ?V (bs ! i)" using R(2) by blast
  moreover have "bs \<noteq> []" "length ?J = length ?I" using b by auto
  ultimately  obtain s2 where s2: "fs_start (boot_disk ?J) = Some (read_sb (?I ! 1), s2)" "recovered_rep (fs_cache s2) bs"
    "\<forall>b. data_block ?l (length ?I) b \<longrightarrow> d_image (bc_disk (fs_cache s2)) ! unat b = view (set bs) ?V ?J b"
    "length (d_image (bc_disk (fs_cache s2))) = length ?I"
    using start_committed [OF F(2) _ P R(1)] by blast
  have db: "b \<noteq> 0" "unat b < length ?I" using D(1) b by (auto simp: logged_def data_block_def)
  note rep = s2(2) [unfolded recovered_rep_def]
  obtain i c where r: "bread 0 b (fs_cache s2) = Some (Some i, c)" "holds c i b"
    "cache_rep c (\<lambda>b. d_image (bc_disk (fs_cache s2)) ! unat b) ((\<lambda>b. if b \<in> set bs then -1 else 0)(b := 0)) ((\<lambda>_. False)(b := True)) (d_image (bc_disk (fs_cache s2))) (d_trace (bc_disk (fs_cache s2)))"
    using bread_rep [OF rep db(1), unfolded s2(4)] db b by auto
  have "b_locked (bc_bufs c ! i)" "b_refcnt (bc_bufs c ! i) = 0" using holdsD(6,7) [OF r(3,2)] by auto
  moreover have "refs (fs_cache s2) b = -1" using rep b by (auto simp: cache_rep_def)
  ultimately show ?thesis using s2(1) r(1) by blast
qed

theorem recovery_breaks_refcnt_witness:
  "\<exists>s sb s2. fs_inv s [34] \<and> fs_start (boot_disk (put_blocks (img s) (take 2 (commit_writes (fs_log s) (fs_content s) [34] (img s))))) = Some (sb, s2) \<and>
    refs (fs_cache s2) 34 = -1"
proof -
  obtain s where s: "fs_inv s [34]" using demo_tx by blast
  show ?thesis using recovery_breaks_refcnt [OF s, of 2 34] s by auto
qed

end
