(* ===== verification/FS_File.thy ===== *)
theory FS_File
  imports FS_File_Spec FS_Properties
begin

text \<open>The inode on the disk, and the properties of the inode layer.\<close>

section \<open>The inode on the disk\<close>

lemma le_word_u16 [simp]: "le_word (le_bytes 2 w) = (w :: u16)"
  by (simp add: le_word_le_bytes take_bit_word_eq_self)

lemma length_dinode_bytes: "length (di_addrs d) = NDIRECT + 1 \<Longrightarrow> length (dinode_bytes d) = DINODE_SIZE"
proof -
  have "length (concat (map (le_bytes 4) xs)) = 4 * length xs" for xs :: "u32 list" by (induction xs) auto
  then show "length (di_addrs d) = NDIRECT + 1 \<Longrightarrow> ?thesis" by (simp add: dinode_bytes_def DINODE_SIZE_def NDIRECT_def)
qed

lemma dinode_pos_bound: "dinode_pos inum + DINODE_SIZE \<le> BSIZE"
proof -
  have "unat inum mod 64 < 64" by simp
  then show ?thesis by (simp add: dinode_pos_def DINODE_SIZE_def IPB_def BSIZE_def)
qed

lemma write_dinode_length:
  assumes "length data = BSIZE" and "length (di_addrs d) = NDIRECT + 1"
  shows "length (write_dinode inum d data) = BSIZE"
  using put_bytes_nth(2) [of "dinode_pos inum" "dinode_bytes d" data 0] dinode_pos_bound [of inum] assms
  by (simp add: write_dinode_def length_dinode_bytes BSIZE_def)

text \<open>Reading a stored inode, part by part.\<close>

lemma word_at_parts:
  "length a = k \<Longrightarrow> length b = w \<Longrightarrow> word_at w (p + k) (take p d @ (a @ b @ c) @ e) = le_word b" if "p \<le> length d"
  using that by (simp add: word_at_def min_def)

lemma dinode_codec:
  assumes len: "length data = BSIZE" and a: "length (di_addrs d) = NDIRECT + 1"
  shows "read_dinode inum (write_dinode inum d data) = d"
proof -
  let ?p = "dinode_pos inum" and ?b = "dinode_bytes d"
  have p: "?p \<le> length data" using dinode_pos_bound [of inum] len by linarith
  define e where "e = drop (?p + length ?b) data"
  have w: "write_dinode inum d data = take ?p data @ ?b @ e" by (simp add: write_dinode_def put_bytes_def e_def)
  let ?ty = "le_bytes 2 (di_type d)" and ?ma = "le_bytes 2 (di_major d)" and ?mi = "le_bytes 2 (di_minor d)" and ?nl = "le_bytes 2 (di_nlink d)"
    and ?sz = "le_bytes 4 (di_size d)" and ?ad = "concat (map (le_bytes 4) (di_addrs d))"
  note W = word_at_parts [where 'a = 16 and e = e, OF p] and W4 = word_at_parts [where 'a = 32 and e = e, OF p]
  have "word_at 2 ?p (write_dinode inum d data) = di_type d"
    unfolding w dinode_bytes_def using W [of "[]" 0 ?ty 2 "?ma @ ?mi @ ?nl @ ?sz @ ?ad"] by simp
  moreover have "word_at 2 (?p + 2) (write_dinode inum d data) = di_major d"
    unfolding w dinode_bytes_def using W [of ?ty 2 ?ma 2 "?mi @ ?nl @ ?sz @ ?ad"] by simp
  moreover have "word_at 2 (?p + 4) (write_dinode inum d data) = di_minor d"
    unfolding w dinode_bytes_def using W [of "?ty @ ?ma" 4 ?mi 2 "?nl @ ?sz @ ?ad"] by simp
  moreover have "word_at 2 (?p + 6) (write_dinode inum d data) = di_nlink d"
    unfolding w dinode_bytes_def using W [of "?ty @ ?ma @ ?mi" 6 ?nl 2 "?sz @ ?ad"] by simp
  moreover have "word_at 4 (?p + 8) (write_dinode inum d data) = di_size d"
    unfolding w dinode_bytes_def using W4 [of "?ty @ ?ma @ ?mi @ ?nl" 8 ?sz 4 ?ad] by simp
  moreover have "word_at 4 (?p + 12 + 4 * j) (write_dinode inum d data) = di_addrs d ! j" if "j < NDIRECT + 1" for j
  proof -
    have "drop (?p + 12 + 4 * j) (write_dinode inum d data) = drop (4 * j) (?ad @ e)"
      unfolding w dinode_bytes_def using p by (simp add: min_def add.assoc)
    then show ?thesis using take_word_at [of j "di_addrs d" e] that a by (simp add: word_at_def)
  qed
  then have "map (\<lambda>j. word_at 4 (?p + 12 + 4 * j) (write_dinode inum d data)) [0..<NDIRECT + 1] = di_addrs d"
    using a by (intro nth_equalityI) (simp_all del: upt_Suc)
  ultimately show ?thesis by (simp add: read_dinode_def Let_def del: upt_Suc)
qed

section \<open>Storing the inode\<close>

lemma inode_block_other:
  assumes "file_inv sb ip t bs" and "q < NDIRECT * BSIZE"
  shows "faddr ip t q \<noteq> inode_block sb (ino t ip)"
proof -
  have "q div BSIZE < NDIRECT" using assms(2) by (simp add: less_mult_imp_div_less)
  then have "faddr ip t q \<in> set (take NDIRECT (i_addrs (ino t ip)))"
    using assms(1) by (auto simp: faddr_def file_inv_def addrs_ok_def in_set_conv_nth intro!: exI [of _ "q div BSIZE"])
  then show ?thesis using assms(1) by (auto simp: file_inv_def)
qed

lemma iupdate_inv:
  assumes inv: "file_inv sb ip t bs" and rm: "room (if_fs t) bs 1"
  shows "\<exists>t' bs'. iupdate sb ip t = Some t' \<and> file_inv sb ip t' bs' \<and> if_inodes t' = if_inodes t \<and> img (if_fs t') = img (if_fs t) \<and>
    read_dinode (i_inum (ino t ip)) (fs_content (if_fs t') (inode_block sb (ino t ip))) = to_dinode (ino t ip) \<and>
    (\<forall>q < NDIRECT * BSIZE. faddr ip t' q = faddr ip t q \<and> fbyte ip t' q = fbyte ip t q)"
proof -
  let ?i = "ino t ip" and ?s = "if_fs t"
  let ?B = "inode_block sb ?i"
  let ?d = "write_dinode (i_inum ?i) (to_dinode ?i) (fs_content ?s ?B)"
  have I: "fs_inv ?s bs" "own_block sb ?s ?B" "i_dev ?i = 0" "length (i_addrs ?i) = NDIRECT + 1" using inv by (auto simp: file_inv_def addrs_ok_def)
  have cl: "length (fs_content ?s ?B) = BSIZE" using fs_content_length [OF I(1)] I(2) by (simp add: own_block_def fs_data_def data_block_def)
  have al: "length (di_addrs (to_dinode ?i)) = NDIRECT + 1" using I(4) by (simp add: to_dinode_def)
  have rm1: "?B \<in> set bs \<or> room ?s bs 1" using rm by simp
  obtain i c s2 c' where W: "bread 0 ?B (fs_cache ?s) = Some (Some i, c)" "b_data (bc_bufs c ! i) = fs_content ?s ?B"
    "log_write i (upd_cache ?s (set_data i ?d c)) = Some s2" "brelse i (fs_cache s2) = Some c'"
    "file_inv sb ip (upd_fs t (upd_cache s2 c')) (add_block ?B bs)" "fs_content (upd_cache s2 c') = (fs_content ?s)(?B := ?d)"
    "img (upd_cache s2 c') = img ?s" "lg_size (fs_log s2) = lg_size (fs_log ?s)"
    "\<forall>b. own_block sb (upd_cache s2 c') b = own_block sb ?s b" "free_blocks sb (upd_cache s2 c') = free_blocks sb ?s"
    by (rule write_block_inv [OF inv I(2) rm1 write_dinode_length [OF cl al]])
  let ?t = "upd_fs t (upd_cache s2 c')"
  have "iupdate sb ip t = Some ?t" using W(1-4) I(3) by (simp add: iupdate_def change_block_def Let_def inode_block_def)
  moreover have "faddr ip ?t q = faddr ip t q \<and> fbyte ip ?t q = fbyte ip t q" if "q < NDIRECT * BSIZE" for q
    using inode_block_other [OF inv that] W(6) by (simp add: fbyte_def faddr_def)
  moreover have "read_dinode (i_inum ?i) (fs_content (if_fs ?t) ?B) = to_dinode ?i" using dinode_codec [OF cl al] W(6) by simp
  ultimately show ?thesis using W(5,7) by auto
qed

lemma file_inv_size: "file_inv sb ip (upd_inode ip (\<lambda>i. i\<lparr>i_size := x\<rparr>) t) bs = file_inv sb ip t bs"
  by (cases "ip < length (if_inodes t)") (simp_all add: file_inv_def inode_block_def)

lemma size_upd:
  assumes "ip < length (if_inodes t)"
  shows "faddr ip (upd_inode ip (\<lambda>i. i\<lparr>i_size := x\<rparr>) t) q = faddr ip t q" "fbyte ip (upd_inode ip (\<lambda>i. i\<lparr>i_size := x\<rparr>) t) q = fbyte ip t q"
  using assms by (simp_all add: faddr_def fbyte_def)

section \<open>Reading what was written\<close>

lemma sint_small: "n < 2 ^ 31 \<Longrightarrow> sint (of_nat n :: u32) = int n"
  by (simp add: signed_of_nat signed_take_bit_int_eq_self)

lemma writei_inv:
  assumes inv: "file_inv sb ip t bs" and ty: "i_type (ino t ip) \<noteq> T_DEV" and off: "off \<le> i_size (ino t ip)"
    and src: "src \<noteq> []" "unat off + length src \<le> NDIRECT * BSIZE"
    and rm: "room (if_fs t) bs (2 * need (unat off) (length src) + 1)" and fr: "need (unat off) (length src) \<le> free_blocks sb (if_fs t)"
  shows "\<exists>t1 bs1. writei sb ip off src t = Some (int (length src), t1) \<and> file_inv sb ip t1 bs1 \<and>
    (\<forall>j < length src. faddr ip t1 (unat off + j) \<noteq> 0 \<and> fbyte ip t1 (unat off + j) = src ! j) \<and>
    (\<forall>q < NDIRECT * BSIZE. faddr ip t q \<noteq> 0 \<and> (q < unat off \<or> unat off + length src \<le> q) \<longrightarrow> fbyte ip t1 q = fbyte ip t q) \<and>
    i_size (ino t1 ip) = max (i_size (ino t ip)) (off + of_nat (length src)) \<and> i_type (ino t1 ip) = i_type (ino t ip)"
proof -
  let ?n = "length src" and ?w = "of_nat (length src) :: u32"
  have small: "NDIRECT * BSIZE = 49152" by (simp add: NDIRECT_def BSIZE_def)
  have un: "unat (off + ?w) = unat off + ?n" using src(2) unfolding small by (intro unat_off_add) simp
  have uw: "unat ?w = ?n" using src(2) unfolding small by (simp add: unat_of_nat)
  have g1: "\<not> (off > i_size (ino t ip) \<or> off + ?w < off)" using off un by (auto simp: word_less_nat_alt word_le_nat_alt not_less)
  have g2: "\<not> unat (off + ?w) > MAXFILE * BSIZE" using un src(2) by (simp add: MAXFILE_def NINDIRECT_def NDIRECT_def BSIZE_def)
  have sn: "sint ?w = int ?n" using src(2) unfolding small by (intro sint_small) simp
  have rm0: "room (if_fs t) bs (2 * need (unat off) ?n)" using rm by (simp add: room_def)
  obtain t1 bs1 where L: "writei_loop sb ip off src t = Some (True, off + ?w, t1)" "file_inv sb ip t1 bs1"
    "length bs1 \<le> length bs + 2 * need (unat off) ?n" "written ip t (unat off) src t1"
    using writei_loop_inv [OF inv src(2) rm0 fr] by blast
  have e: "ino t1 ip = (ino t ip)\<lparr>i_addrs := i_addrs (ino t1 ip)\<rparr>" and ls: "lg_size (fs_log (if_fs t1)) = lg_size (fs_log (if_fs t))"
    using L(4) by (simp_all add: written_def)
  have sz: "i_size (ino t1 ip) = i_size (ino t ip)" "i_type (ino t1 ip) = i_type (ino t ip)" by (subst e, simp)+
  have n0: "?w > 0" using uw src(1) by (simp add: word_less_nat_alt)
  have A: "\<forall>j < ?n. faddr ip t1 (unat off + j) \<noteq> 0 \<and> fbyte ip t1 (unat off + j) = src ! j"
    and B: "\<forall>q < NDIRECT * BSIZE. faddr ip t q \<noteq> 0 \<and> (q < unat off \<or> unat off + ?n \<le> q) \<longrightarrow> fbyte ip t1 q = fbyte ip t q"
    using L(4) by (auto simp: written_def)
  have W: "writei sb ip off src t = do {
      t \<leftarrow> (if off + ?w > i_size (ino t ip) then iupdate sb ip (upd_inode ip (\<lambda>i. i\<lparr>i_size := off + ?w\<rparr>) t1) else Some t1);
      Some (int ?n, t) }"
    using ty g1 g2 L(1) n0 sn sz(1) by (simp add: writei_def Let_def)
  show ?thesis
  proof (cases "off + ?w > i_size (ino t ip)")
    case True
    let ?t = "upd_inode ip (\<lambda>i. i\<lparr>i_size := off + ?w\<rparr>) t1"
    have ip: "ip < length (if_inodes t1)" using L(2) by (simp add: file_inv_def)
    have "file_inv sb ip ?t bs1" using L(2) by (simp add: file_inv_size)
    moreover have "room (if_fs ?t) bs1 1" using rm L(3) ls by (simp add: room_def)
    ultimately obtain t2 bs2 where U: "iupdate sb ip ?t = Some t2" "file_inv sb ip t2 bs2" "if_inodes t2 = if_inodes ?t"
      "\<forall>q < NDIRECT * BSIZE. faddr ip t2 q = faddr ip t1 q \<and> fbyte ip t2 q = fbyte ip t1 q"
      using iupdate_inv [of sb ip ?t bs1] size_upd [OF ip] by auto
    have "ino t2 ip = ino ?t ip" using U(3) by (simp add: ino_def)
    then have "i_size (ino t2 ip) = off + ?w" "i_type (ino t2 ip) = i_type (ino t ip)" using ip sz(2) by simp_all
    moreover have "writei sb ip off src t = Some (int ?n, t2)" using W True U(1) by simp
    moreover have "unat off + j < NDIRECT * BSIZE" if "j < ?n" for j using that src(2) by linarith
    ultimately show ?thesis using U(2,4) A B True by (intro exI [of _ t2] exI [of _ bs2]) (auto simp: max_def)
  next
    case False
    then have "writei sb ip off src t = Some (int ?n, t1)" using W by simp
    then show ?thesis using L(2) A B sz False by (intro exI [of _ t1] exI [of _ bs1]) (auto simp: max_def)
  qed
qed

text \<open>Releasing the lock of an inode is undefined, and trying to release one that is free takes it.\<close>

lemma iunlock_undefined: "ip < length (if_inodes t) \<Longrightarrow> i_locked (ino t ip) \<Longrightarrow> iunlock ip t = None"
  by (simp add: iunlock_def unlock_inode_def)

lemma iunlock_takes_lock: "ip < length (if_inodes t) \<Longrightarrow> \<not> i_locked (ino t ip) \<Longrightarrow> \<exists>t'. iunlock ip t = Some t' \<and> i_locked (ino t' ip)"
  by (simp add: iunlock_def)

section \<open>A file on the small disk\<close>

definition demo_ifs :: "fs_state \<Rightarrow> ifs" where
  "demo_ifs s = \<lparr>if_fs = s, if_inodes = [zero_inode\<lparr>i_inum := 1, i_ref := 1, i_valid := True, i_type := T_FILE\<rparr>]\<rparr>"

lemma demo_file:
  "\<exists>s. file_inv demo_sb 0 (demo_ifs s) [34] \<and> room s [34] 20 \<and> 0 < free_blocks demo_sb s"
proof -
  obtain s where s: "fs_inv s [34]" "lg_outstanding (fs_log s) = 1" "img s = demo_image" "lg_size (fs_log s) = 30" "lg_start (fs_log s) = 2"
    using demo_tx by blast
  note bm = demo_bitmap [OF s(1,3,4,5)]
  have sz: "sb_size demo_sb = 40" by (simp add: demo_sb_def)
  have ino: "ino (demo_ifs s) 0 = zero_inode\<lparr>i_inum := 1, i_ref := 1, i_valid := True, i_type := T_FILE\<rparr>" by (simp add: demo_ifs_def ino_def)
  have ib: "inode_block demo_sb (ino (demo_ifs s) 0) = 32"
    by (simp add: ino inode_block_def IBLOCK_def demo_sb_def IPB_def BSIZE_def DINODE_SIZE_def)
  have "BBLOCK y demo_sb \<noteq> 32" if "y < 40" for y
  proof -
    have "unat (y div of_nat BPB) = 0" using that by (simp add: unat_div BPB_def BSIZE_def word_less_nat_alt)
    then have "y div of_nat BPB = 0" by (simp add: unat_eq_0)
    then show ?thesis by (simp add: BBLOCK_def demo_sb_def)
  qed
  then have "own_block demo_sb s 32" using bm(2) [of 32] s by (simp add: own_block_def sz fs_data_def data_block_def demo_image_nth(1))
  moreover have "addrs_ok demo_sb s (i_addrs (ino (demo_ifs s) 0))" by (simp add: ino addrs_ok_def zero_inode_def del: replicate_Suc)
  moreover have "32 \<notin> set (take NDIRECT (i_addrs (ino (demo_ifs s) 0)))" by (auto simp: ino zero_inode_def dest: in_set_takeD)
  ultimately have "file_inv demo_sb 0 (demo_ifs s) [34]"
    using s(1,2) bm(1) by (simp add: file_inv_def ib) (simp add: demo_ifs_def ino ino_def zero_inode_def)
  moreover have "34 \<in> {y. y < sb_size demo_sb \<and> \<not> used s demo_sb y}" using bm(2) [of 34] by (simp add: sz)
  then have "0 < free_blocks demo_sb s" unfolding free_blocks_def by (auto simp: card_gt_0_iff)
  ultimately show ?thesis using s(4) by (auto simp: room_def)
qed

section \<open>Properties\<close>

text \<open>C11: Reading back what was written. Writing a non-empty range of the direct blocks of a file, inside or right
  behind its current size, succeeds when the log has room and enough blocks are free; missing blocks are
  allocated. The size becomes the maximum of the old size and the end of the range, every other byte that the
  file has is kept, and a read of the range returns exactly the bytes written.\<close>

theorem write_then_read:
  assumes "file_inv sb ip t bs" and "i_type (ino t ip) \<noteq> T_DEV" and "off \<le> i_size (ino t ip)"
    and "src \<noteq> []" and "unat off + length src \<le> NDIRECT * BSIZE"
    and "room (if_fs t) bs (2 * need (unat off) (length src) + 1)" and "need (unat off) (length src) \<le> free_blocks sb (if_fs t)"
  shows "\<exists>t1 t2. writei sb ip off src t = Some (int (length src), t1) \<and>
    readi sb ip off (of_nat (length src)) t1 = Some (int (length src), src, t2) \<and>
    i_size (ino t1 ip) = max (i_size (ino t ip)) (off + of_nat (length src)) \<and>
    (\<forall>q < NDIRECT * BSIZE. faddr ip t q \<noteq> 0 \<and> (q < unat off \<or> unat off + length src \<le> q) \<longrightarrow> fbyte ip t1 q = fbyte ip t q)"
proof -
  let ?n = "length src" and ?w = "of_nat (length src) :: u32"
  obtain t1 bs1 where W: "writei sb ip off src t = Some (int ?n, t1)" "file_inv sb ip t1 bs1"
    "\<forall>j < ?n. faddr ip t1 (unat off + j) \<noteq> 0 \<and> fbyte ip t1 (unat off + j) = src ! j"
    "\<forall>q < NDIRECT * BSIZE. faddr ip t q \<noteq> 0 \<and> (q < unat off \<or> unat off + ?n \<le> q) \<longrightarrow> fbyte ip t1 q = fbyte ip t q"
    "i_size (ino t1 ip) = max (i_size (ino t ip)) (off + ?w)" "i_type (ino t1 ip) = i_type (ino t ip)"
    using writei_inv [OF assms] by blast
  have small: "NDIRECT * BSIZE = 49152" by (simp add: NDIRECT_def BSIZE_def)
  have un: "unat (off + ?w) = unat off + ?n" and uw: "unat ?w = ?n" and sn: "sint ?w = int ?n"
    using assms(5) unfolding small by (intro unat_off_add, simp, simp add: unat_of_nat, intro sint_small, simp)
  have g: "\<not> (off > i_size (ino t1 ip) \<or> off + ?w < off)" "\<not> off + ?w > i_size (ino t1 ip)"
    using W(5) un assms(3) by (auto simp: word_less_nat_alt not_less max_def word_le_nat_alt)
  have "\<forall>j < ?n. faddr ip t1 (unat off + j) \<noteq> 0" using W(3) by blast
  from readi_loop_inv [OF W(2) assms(5) this, of "[]"]
  obtain t2 where R: "readi_loop sb ip off ?n [] t1 = Some (True, map (fbyte ip t1) [unat off..<unat off + ?n], t2)" by auto
  have "map (fbyte ip t1) [unat off..<unat off + ?n] = src" using W(3) by (intro nth_equalityI) auto
  then have "readi sb ip off ?w t1 = Some (int ?n, src, t2)" using R W(6) assms(2) g uw sn by (simp add: readi_def Let_def)
  then show ?thesis using W(1,4,5) by blast
qed

theorem write_then_read_witness:
  "\<exists>s t1 t2. file_inv demo_sb 0 (demo_ifs s) [34] \<and> writei demo_sb 0 0 [1, 2, 3] (demo_ifs s) = Some (3, t1) \<and>
    readi demo_sb 0 0 3 t1 = Some (3, [1, 2, 3], t2)"
proof -
  obtain s where s: "file_inv demo_sb 0 (demo_ifs s) [34]" "room s [34] 20" "0 < free_blocks demo_sb s" using demo_file by blast
  have i: "if_fs (demo_ifs s) = s" "i_type (ino (demo_ifs s) 0) \<noteq> T_DEV" "i_size (ino (demo_ifs s) 0) = 0"
    by (simp_all add: demo_ifs_def ino_def zero_inode_def T_FILE_def T_DEV_def)
  have n: "need (unat (0 :: u32)) (length [1 :: 8 word, 2, 3]) = 1" by (simp add: need_def BSIZE_def)
  have "\<exists>t1 t2. writei demo_sb 0 0 [1, 2, 3] (demo_ifs s) = Some (int (length [1 :: 8 word, 2, 3]), t1) \<and>
    readi demo_sb 0 0 (of_nat (length [1 :: 8 word, 2, 3])) t1 = Some (int (length [1 :: 8 word, 2, 3]), [1, 2, 3], t2)"
    using write_then_read [OF s(1), of 0 "[1, 2, 3]"] s(2,3) i unfolding n by (auto simp: room_def NDIRECT_def BSIZE_def)
  then show ?thesis using s(1) by auto
qed

end
