(* ===== verification/Spec2Isabelle.thy ===== *)
theory Spec2Isabelle
  imports Raft_Cluster Raft_Membership Raft_Read Tx_Iter SE_Reopen FS_File
begin

text \<open>
  \<^bold>\<open>A verification development for first-principle-cs.\<close>

  The repository is a set of systems projects in C (a Raft library, a transaction manager, a storage
  engine, a distributed key-value store, a file system, a teaching kernel) beside teaching code in
  Python and a web site. This development models the Raft library, the transaction manager, the
  storage engine and the file system up to its inodes.

  \<^bold>\<open>Conventions.\<close> Fixed-width unsigned integers are words of their width, so arithmetic
  wraps as in C; \<^verbatim>\<open>int32_t\<close> identifiers and counters are \<open>int\<close> with range invariants.
  A C function on a struct is a function from the record before to the record after; status codes and
  output parameters are results. Undefined behaviour (an access outside an array, a null dereference)
  is the value \<open>None\<close> of an \<open>option\<close> result; a theorem with \<open>\<exists>... = Some ...\<close> says that the code
  does not reach it. Every call that may fail (allocation, read, write, rename) takes its outcome from
  an oracle in the \<open>world\<close> record of \<open>C_Runtime\<close>, so a theorem about all worlds covers all
  failures. Functions take non-null pointers; the null guards at their head return at once.

  \<^bold>\<open>Raft\<close> (\<^verbatim>\<open>src/projects/distributed/consensus/src\<close>).
  \<^item> \<open>Raft_Types\<close>, \<open>Raft_Rpc\<close>: \<^verbatim>\<open>types.h\<close>, \<^verbatim>\<open>param.h\<close>, \<^verbatim>\<open>rpc.h\<close>.
  \<^item> \<open>Raft_Log\<close>: \<^verbatim>\<open>log.c\<close>. A log refines a base and a list of (term, command) pairs.
  \<^item> \<open>Raft_Crc32\<close>, \<open>Raft_Storage\<close>: \<^verbatim>\<open>crc32.c\<close>, \<^verbatim>\<open>storage.c\<close>. Byte images of the
    files, atomic replacement, round trips, burst detection.
  \<^item> \<open>Raft_Node\<close>, \<open>Raft_Election\<close>: \<^verbatim>\<open>raft.h\<close>, \<^verbatim>\<open>raft.c\<close>, \<^verbatim>\<open>timer.c\<close>,
    \<^verbatim>\<open>election.c\<close>. The voting invariant of a node relative to the ballots cast, and that no
    handler reaches undefined behaviour.
  \<^item> \<open>Raft_Commit\<close>, \<open>Raft_Replication\<close>: \<^verbatim>\<open>commit.c\<close>, \<^verbatim>\<open>replication.c\<close>. Which
    index a leader commits, measured by the set of nodes that hold it; what a follower's log holds after
    a batch. A read past the end of the message buffer is undefined (\<open>read_buf\<close>). The locale
    \<open>entry_store\<close> states what replication needs of a log and is interpreted on the log specification.
  \<^item> \<open>Raft_Dispatch\<close>: \<^verbatim>\<open>raft_propose\<close>, \<^verbatim>\<open>raft_receive_message\<close>, \<^verbatim>\<open>raft_tick\<close>.
    Reading a message as a struct longer than the buffer is undefined (\<open>read_struct\<close>), so the length
    guards matter.
  \<^item> \<open>Raft_Snapshot\<close>, \<open>Raft_Recovery\<close>: \<^verbatim>\<open>snapshot.c\<close>, \<^verbatim>\<open>recovery.c\<close>,
    \<^verbatim>\<open>raft_create\<close>.
  \<^item> \<open>Raft_Batch\<close>, \<open>Raft_Membership\<close>, \<open>Raft_Read\<close>, \<open>Raft_Transfer\<close>: the files of the same names.
  \<^item> \<open>Raft_Durable\<close>: while allocations and system calls succeed, every entry point leaves the term and
    the vote of the node in its state file (\<open>durable\<close>), through the calls of \<^verbatim>\<open>persist_state\<close>.
  \<^item> \<open>Raft_Cluster\<close>: nodes that run this code over a network that may lose, duplicate, delay and
    reorder messages. A restart runs \<^verbatim>\<open>raft_create\<close> on the files the node has left, with no
    assumption on what they hold; durability is an invariant of the cluster. The locale \<open>majority_voting\<close> states the quorum
    argument; its interpretation on the reachable clusters gives election safety.

  \<^bold>\<open>Storage engine\<close> (\<^verbatim>\<open>src/projects/data/storage-engine/src\<close>).
  \<^item> \<open>SE_Keys\<close>: \<^verbatim>\<open>compare_keys\<close> and \<^verbatim>\<open>memcmp\<close>. The locale \<open>key_order\<close> states that the
    comparison is a linear order; it is interpreted on the code's function.
  \<^item> \<open>SE_Skiplist\<close>, \<open>SE_Skiplist_Map\<close>: \<^verbatim>\<open>skiplist.c\<close> over an explicit heap of nodes with one
    forward pointer per level. The search loops are \<open>partial_function (option)\<close>, so that a null
    dereference and an endless loop are both \<open>None\<close>; the invariant of the levels excludes them. The
    locale \<open>kv_store\<close> states what a client needs of a store (a map from keys to values or
    tombstones); the skip list, the memtable and the whole database are its instances.
  \<^item> \<open>SE_Memtable\<close>: \<^verbatim>\<open>memtable.c\<close>, with its iterator.
  \<^item> \<open>SE_Wal\<close>: \<^verbatim>\<open>wal.c\<close>. The record format, append with short writes and failures, replay with
    checksum. The locale \<open>wal_client\<close> replays a log into any store.
  \<^item> \<open>SE_Storage\<close>: the part of \<^verbatim>\<open>storage.c\<close> that reads no tables: put, delete, the database
    iterator, the callback of recovery. \<open>storage_crash_recovery\<close>: what the memtable held is what it
    holds after a restart from the log.
  \<^item> \<open>SE_Bloom\<close>: \<^verbatim>\<open>bloom.c\<close>. A key that was added is never reported as absent.
  \<^item> \<open>SE_Block\<close>, \<open>SE_Table\<close>, \<open>SE_Table_Rep\<close>, \<open>SE_Table_Spec\<close>: \<^verbatim>\<open>sstable.c\<close>. Blocks with
    prefix-compressed keys and restart points, index, footer; the correspondence between a writer and
    the entries added to it; \<open>sstable_roundtrip\<close>.
  \<^item> \<open>SE_Level\<close>, \<open>SE_Manifest\<close>, \<open>SE_Compact\<close>: \<^verbatim>\<open>level.c\<close>, \<^verbatim>\<open>manifest.c\<close>,
    \<^verbatim>\<open>compact.c\<close>. \<open>SE_Level_Spec\<close>: which table answers a lookup.
  \<^item> \<open>SE_Database\<close>: the rest of \<^verbatim>\<open>storage.c\<close>: open, get, flush, compact. \<open>SE_Flush\<close>: what
    lookups return before and after a flush. \<open>SE_Reopen\<close>: what a later \<^verbatim>\<open>storage_open\<close> finds
    behind a torn record and behind the record of a rejected empty key.

  \<^bold>\<open>Transaction manager\<close> (\<^verbatim>\<open>src/projects/data/tx-manager/src\<close>).
  \<^item> \<open>Tx_Version\<close>: \<^verbatim>\<open>version.c\<close>. The encoding of a version as a key of the store.
  \<^item> \<open>Tx_Core\<close>, \<open>Tx_Wal\<close>: \<^verbatim>\<open>tx.c\<close>, \<^verbatim>\<open>write_set.c\<close>, \<^verbatim>\<open>tx_wal.c\<close>. The write set,
    the status machine, the transaction log.
  \<^item> \<open>Tx_Manager\<close>: \<^verbatim>\<open>tx_manager.c\<close>, \<^verbatim>\<open>visibility.c\<close>,
    \<^verbatim>\<open>conflict.c\<close>, \<^verbatim>\<open>gc.c\<close>, \<^verbatim>\<open>recovery.c\<close>.
  \<^item> \<open>Tx_Store\<close>, \<open>Tx_Isolation\<close>, \<open>Tx_Properties\<close>: the versions of a key in the store, the
    snapshot at a timestamp, the invariant of a running manager under every sequence of operations,
    and the isolation properties that follow. They hold for plain keys, which are not empty and contain
    no zero byte; the section on keys with a zero byte shows what goes wrong for others.
  \<^item> \<open>Tx_Iter\<close>: \<^verbatim>\<open>tx_iter.c\<close>. A scan yields the visible version of every key of a snapshot.

  \<^bold>\<open>File system\<close> (\<^verbatim>\<open>src/projects/systems/simple-fs/src\<close>).
  \<^item> \<open>FS_Buf\<close>: \<^verbatim>\<open>disk.c\<close>, \<^verbatim>\<open>buf.c\<close>. The image, the trace of the block writes, the pool of
    buffers with its list in order of use. \<open>FS_Buf_Spec\<close>: contents, references and locks by block number;
    the locale \<open>block_cache\<close> states what the layers above rely on and is interpreted on the cache.
  \<^item> \<open>FS_Log\<close>: \<^verbatim>\<open>log.c\<close> and the start of the program. \<open>FS_Log_Spec\<close>: the writes of a commit, in
    order. \<open>FS_Recovery\<close>: the recovery on the image that any prefix of them leaves. \<open>FS_Tx\<close>: the
    invariant \<open>fs_inv\<close> of a running transaction, kept by reading and by changing a block.
  \<^item> \<open>FS_Block\<close>, \<open>FS_Block_Spec\<close>: \<^verbatim>\<open>block.c\<close>. \<open>FS_Properties\<close>: atomicity of a commit under a
    crash, the allocator, and what recovery does to the reference counts.
  \<^item> \<open>FS_Inode\<close>: \<^verbatim>\<open>inode.c\<close>. \<open>FS_File_Spec\<close>, \<open>FS_File\<close>: the bytes of a file in its direct blocks, the
    loops of \<^verbatim>\<open>writei\<close> and \<^verbatim>\<open>readi\<close>, the inode on the disk; \<open>write_then_read\<close>.

  \<^bold>\<open>Bounds.\<close> Keys and values of the storage engine are shorter than \<open>2 ^ 32\<close> bytes, the width
  of the length fields (\<open>op_ok\<close>). An entry of a table has at most 8149 bytes of key and value, so
  that it fits the block buffer of 8192 bytes with its lengths and the trailer of the block; a table has
  at most \<open>2 ^ 18\<close> entries and a filter sized for at most \<open>2 ^ 30\<close>, which keep the sizes in the
  footer below \<open>2 ^ 32\<close>. Timestamps are 64-bit words; the transaction theorems ask that the
  counters have not reached \<open>2 ^ 64 - 1\<close>. A theorem with the hypothesis \<open>quiet\<close> is about a
  world in which no call fails from then on; those without it hold for every pattern of failures. The disk of
  the file system has at most \<open>2 ^ 20\<close> blocks, beyond which the code's offset wraps, and its calls succeed
  in the theorems (\<open>disk_ok\<close>): the code does not report their failure.

  \<^bold>\<open>Loops.\<close> Every loop of the C code is structural recursion, has a termination proof, or is a
  \<open>partial_function (option)\<close> with a theorem that it returns; no definition uses fuel.

  \<^bold>\<open>Not modelled.\<close> The bodies of the callbacks are user code: the calls are recorded. Files are
  visible and durable at once (\<^verbatim>\<open>fsync\<close> has only a result code). Of the storage engine: the block
  cache, which no other part uses, and the benchmark. Destructors release memory and have no other effect. The file
  system is single-threaded: its locks are modelled, waiting for another thread is not; block writes reach
  the disk in the order of the calls. The remaining projects
  of the repository are listed in the manifest with the reason they are left out.
\<close>

end
